(* ===== verification/Idb_Prelude.thy ===== *)
theory Idb_Prelude
  imports Main "HOL-Library.Word" "HOL-Library.List_Lexorder" "HOL-Library.Product_Lexorder"
begin

text \<open>
  Shared vocabulary of the development: the machine types of the Rust sources, the result
  type of fallible functions, the three-way comparison of \<open>std::cmp::Ordering\<close>, and the
  byte-order conversions \<open>to_be_bytes\<close>, \<open>to_le_bytes\<close>, \<open>from_be_bytes\<close>,
  \<open>from_le_bytes\<close>. Byte slices are lists of 8-bit words; Rust's \<open>Ord\<close> on slices
  and tuples is the lexicographic order of \<open>List_Lexorder\<close> and \<open>Product_Lexorder\<close>.
\<close>

unbundle bit_operations_syntax

type_synonym u8 = "8 word"
type_synonym u16 = "16 word"
type_synonym u32 = "32 word"
type_synonym u64 = "64 word"
type_synonym bytes = "u8 list"

section \<open>Results of fallible functions\<close>

text \<open>\<open>Result<T, E>\<close> is \<open>'e + 'a\<close>: \<open>Inl\<close> is \<open>Err\<close>, \<open>Inr\<close> is
  \<open>Ok\<close>; \<open>rbind\<close> is the question-mark operator.\<close>

fun rbind :: "'e + 'a \<Rightarrow> ('a \<Rightarrow> 'e + 'b) \<Rightarrow> 'e + 'b" where
  "rbind (Inl e) f = Inl e"
| "rbind (Inr x) f = f x"

lemma rbind_cong [fundef_cong]:
  "r = r' \<Longrightarrow> (\<And>x. r' = Inr x \<Longrightarrow> f x = g x) \<Longrightarrow> rbind r f = rbind r' g"
  by (cases r') auto

lemma rbind_eq_Inr [simp]: "rbind r f = Inr y \<longleftrightarrow> (\<exists>x. r = Inr x \<and> f x = Inr y)"
  by (cases r) auto

lemma rbind_eq_Inl: "rbind r f = Inl e \<longleftrightarrow> r = Inl e \<or> (\<exists>x. r = Inr x \<and> f x = Inl e)"
  by (cases r) auto

fun map_err :: "('e \<Rightarrow> 'f) \<Rightarrow> 'e + 'a \<Rightarrow> 'f + 'a" where
  "map_err h (Inl e) = Inl (h e)"
| "map_err h (Inr x) = Inr x"

lemma map_err_eq_Inr [simp]: "map_err h r = Inr x \<longleftrightarrow> r = Inr x"
  by (cases r) auto

fun is_ok :: "'e + 'a \<Rightarrow> bool" where
  "is_ok (Inl _) = False"
| "is_ok (Inr _) = True"

lemma is_ok_iff: "is_ok r \<longleftrightarrow> (\<exists>x. r = Inr x)"
  by (cases r) auto

section \<open>Three-way comparison\<close>

datatype ordering = Less | Equal | Greater

definition cmp :: "'a::linorder \<Rightarrow> 'a \<Rightarrow> ordering" where
  "cmp x y = (if x < y then Less else if x = y then Equal else Greater)"

fun then_cmp :: "ordering \<Rightarrow> ordering \<Rightarrow> ordering" where
  "then_cmp Less _ = Less"
| "then_cmp Equal o2 = o2"
| "then_cmp Greater _ = Greater"

lemma cmp_refl [simp]: "cmp x x = Equal"
  by (simp add: cmp_def)

lemma cmp_Equal_iff [simp]: "cmp x y = Equal \<longleftrightarrow> x = y"
  by (auto simp: cmp_def)

lemma cmp_Less_iff [simp]: "cmp x y = Less \<longleftrightarrow> x < y"
  by (auto simp: cmp_def)

lemma cmp_Greater_iff [simp]: "cmp x y = Greater \<longleftrightarrow> y < x"
  by (auto simp: cmp_def)

lemma then_cmp_Equal_right [simp]: "then_cmp o1 Equal = o1"
  by (cases o1) auto

lemma then_cmp_assoc: "then_cmp (then_cmp a b) c = then_cmp a (then_cmp b c)"
  by (cases a) auto

lemma then_cmp_eq_Equal: "then_cmp a b = Equal \<longleftrightarrow> a = Equal \<and> b = Equal"
  by (cases a) auto

lemma cmp_strict_mono:
  "strict_mono_on A f \<Longrightarrow> x \<in> A \<Longrightarrow> y \<in> A \<Longrightarrow> cmp (f x) (f y) = cmp x y"
  by (metis cmp_def linorder_less_linear strict_mono_on_def less_asym)

lemma cmp_Nil_Nil [simp]: "cmp [] [] = Equal"
  by simp

lemma cmp_Nil_Cons [simp]: "cmp [] (x # xs) = Less"
  by simp

lemma cmp_Cons_Nil [simp]: "cmp (x # xs) [] = Greater"
  by simp

lemma cmp_Cons_Cons [simp]: "cmp (x # xs) (y # ys) = then_cmp (cmp x y) (cmp xs ys)"
  by (auto simp: cmp_def)

lemma cmp_append_same [simp]: "cmp (xs @ ys) (xs @ zs) = cmp ys zs"
  by (induction xs) auto

lemma cmp_append_length:
  "length xs = length ys \<Longrightarrow> cmp (xs @ s) (ys @ t) = then_cmp (cmp xs ys) (cmp s t)"
  by (induction xs ys rule: list_induct2) (auto simp: then_cmp_assoc)

lemma cmp_pair: "cmp (a, b) (c, d) = then_cmp (cmp a c) (cmp b d)"
  by (auto simp: cmp_def)

section \<open>Byte order\<close>

text \<open>\<open>be_bytes n x\<close> and \<open>le_bytes n x\<close> are the \<open>n\<close> low bytes of \<open>x\<close>, most and
  least significant first: \<open>x.to_be_bytes()\<close> and \<open>x.to_le_bytes()\<close> of an \<open>8 n\<close> bit
  unsigned integer.\<close>

definition byte :: "nat \<Rightarrow> u8" where
  "byte n = word_of_nat n"

lemma unat_u8_lt [simp]: "unat (b :: u8) < 256"
  by (rule order_less_le_trans [OF unsigned_less]) simp

lemma unat_u16_less [simp]: "unat (x :: u16) < 65536"
  by (rule order_less_le_trans [OF unsigned_less]) simp

lemma unat_u32_less [simp]: "unat (x :: u32) < 4294967296"
  by (rule order_less_le_trans [OF unsigned_less]) simp

lemma unat_u64_less [simp]: "unat (x :: u64) < 18446744073709551616"
  by (rule order_less_le_trans [OF unsigned_less]) simp

lemma unat_word_of_nat_u64 [simp]: "n < 18446744073709551616 \<Longrightarrow> unat (word_of_nat n :: u64) = n"
  by (simp add: unat_of_nat take_bit_nat_eq_self)

lemma unat_byte [simp]: "x < 256 \<Longrightarrow> unat (byte x) = x"
  by (simp add: byte_def unat_of_nat take_bit_nat_eq_self)

lemma byte_0 [simp]: "byte 0 = 0"
  by (simp add: byte_def)

lemma byte_unat [simp]: "byte (unat b) = b"
  by (simp add: byte_def)

lemma byte_eq_iff: "x < 256 \<Longrightarrow> byte x = b \<longleftrightarrow> x = unat b"
  by (metis byte_unat unat_byte)

lemma byte_eq_byte_iff [simp]: "x < 256 \<Longrightarrow> y < 256 \<Longrightarrow> byte x = byte y \<longleftrightarrow> x = y"
  by (metis unat_byte)

fun le_bytes :: "nat \<Rightarrow> nat \<Rightarrow> bytes" where
  "le_bytes 0 x = []"
| "le_bytes (Suc n) x = byte (x mod 256) # le_bytes n (x div 256)"

fun of_le_bytes :: "bytes \<Rightarrow> nat" where
  "of_le_bytes [] = 0"
| "of_le_bytes (b # bs) = unat b + 256 * of_le_bytes bs"

definition be_bytes :: "nat \<Rightarrow> nat \<Rightarrow> bytes" where
  "be_bytes n x = rev (le_bytes n x)"

definition of_be_bytes :: "bytes \<Rightarrow> nat" where
  "of_be_bytes bs = of_le_bytes (rev bs)"

lemma length_le_bytes [simp]: "length (le_bytes n x) = n"
  by (induction n arbitrary: x) auto

lemma length_be_bytes [simp]: "length (be_bytes n x) = n"
  by (simp add: be_bytes_def)

lemma of_le_bytes_le_bytes: "of_le_bytes (le_bytes n x) = x mod 256 ^ n"
proof (induction n arbitrary: x)
  case (Suc n)
  show ?case using Suc by (simp add: mod_mult2_eq mult.commute)
qed simp

lemma le_bytes_of_le_bytes: "le_bytes (length bs) (of_le_bytes bs) = bs"
  by (induction bs) simp_all

lemma of_le_bytes_less: "of_le_bytes bs < 256 ^ length bs"
proof (induction bs)
  case (Cons b bs)
  have "unat b < 256" by simp
  with Cons have "unat b + 256 * of_le_bytes bs < 256 + 256 * (256 ^ length bs - 1)"
    by (intro add_less_le_mono mult_le_mono2) auto
  also have "\<dots> = 256 * 256 ^ length bs"
    by (simp add: diff_mult_distrib2)
  finally show ?case by simp
qed simp

lemma of_be_bytes_be_bytes: "of_be_bytes (be_bytes n x) = x mod 256 ^ n"
  by (simp add: of_be_bytes_def be_bytes_def of_le_bytes_le_bytes)

lemma be_bytes_of_be_bytes: "be_bytes (length bs) (of_be_bytes bs) = bs"
  unfolding be_bytes_def of_be_bytes_def
  by (metis le_bytes_of_le_bytes length_rev rev_rev_ident)

lemma of_be_bytes_less: "of_be_bytes bs < 256 ^ length bs"
  using of_le_bytes_less [of "rev bs"] by (simp add: of_be_bytes_def)

lemma be_bytes_Suc: "be_bytes (Suc n) x = be_bytes n (x div 256) @ [byte (x mod 256)]"
  by (simp add: be_bytes_def)

lemma cmp_div_mod:
  fixes x y m :: nat
  assumes "0 < m"
  shows "then_cmp (cmp (x div m) (y div m)) (cmp (x mod m) (y mod m)) = cmp x y"
proof (cases "x div m = y div m")
  case True
  moreover have "x < y \<longleftrightarrow> x mod m < y mod m"
    by (metis True add_less_cancel_left div_mult_mod_eq)
  moreover have "x = y \<longleftrightarrow> x mod m = y mod m"
    by (metis True div_mult_mod_eq)
  ultimately show ?thesis by (simp add: cmp_def)
next
  case False
  then consider "x div m < y div m" | "y div m < x div m" by linarith
  then show ?thesis
  proof cases
    case 1
    then have "x < y" using div_le_mono [of y x m] by linarith
    with 1 show ?thesis by (simp add: cmp_def)
  next
    case 2
    then have "y < x" using div_le_mono [of x y m] by linarith
    with 2 show ?thesis by (simp add: cmp_def)
  qed
qed

lemma cmp_add_left [simp]: "cmp (k + x) (k + y) = cmp x (y :: nat)"
  by (simp add: cmp_def)

lemma byte_less_iff [simp]: "x < 256 \<Longrightarrow> y < 256 \<Longrightarrow> byte x < byte y \<longleftrightarrow> x < y"
  by (simp add: word_less_nat_alt)

lemma cmp_byte [simp]: "x < 256 \<Longrightarrow> y < 256 \<Longrightarrow> cmp (byte x) (byte y) = cmp x y"
  by (simp add: cmp_def word_less_nat_alt)

text \<open>Comparing big-endian bytes compares the numbers they encode.\<close>

lemma cmp_be_bytes:
  "x < 256 ^ n \<Longrightarrow> y < 256 ^ n \<Longrightarrow> cmp (be_bytes n x) (be_bytes n y) = cmp x y"
proof (induction n arbitrary: x y)
  case (Suc n)
  have "x div 256 < 256 ^ n" "y div 256 < 256 ^ n"
    using Suc.prems by (simp_all add: less_mult_imp_div_less mult.commute)
  then have "cmp (be_bytes (Suc n) x) (be_bytes (Suc n) y)
    = then_cmp (cmp (x div 256) (y div 256)) (cmp (x mod 256) (y mod 256))"
    by (simp add: be_bytes_Suc cmp_append_length Suc.IH)
  also have "\<dots> = cmp x y" by (rule cmp_div_mod) simp
  finally show ?case .
qed (simp add: be_bytes_def)

section \<open>Bit operations as arithmetic\<close>

text \<open>\<open>bits_nat\<close> turns the masks, shifts and disjoint unions of the codecs into arithmetic on
  the unsigned values.\<close>

named_theorems bits_nat

lemma nat_or_disj: "b < 2 ^ n \<Longrightarrow> (2 ^ n * a) OR b = 2 ^ n * a + (b :: nat)"
proof -
  assume b: "b < 2 ^ n"
  have "(2 ^ n * a) AND b = 0"
  proof (rule bit_eqI)
    fix i
    show "bit ((2 ^ n * a) AND b) i = bit (0 :: nat) i"
    proof (cases "i < n")
      case True
      then have "\<not> bit (2 ^ n * a) i"
        by (simp add: bit_push_bit_iff flip: push_bit_eq_mult [of n a, unfolded mult.commute [of a]])
      then show ?thesis by (simp add: bit_and_iff)
    next
      case False
      then have "(2::nat) ^ n \<le> 2 ^ i" by (intro power_increasing) auto
      with b have "b < 2 ^ i" by (rule less_le_trans)
      then have "\<not> bit b i" by (simp add: bit_iff_odd)
      then show ?thesis by (simp add: bit_and_iff)
    qed
  qed
  then show ?thesis by (rule disjunctive_add_eq_or [symmetric])
qed

lemma nat_and_mask [bits_nat]:
  "x AND 1 = x mod (2::nat)" "x AND 15 = x mod (16::nat)" "x AND 31 = x mod (32::nat)"
  "x AND 63 = x mod (64::nat)" "x AND 127 = x mod (128::nat)" "x AND 255 = x mod (256::nat)"
proof -
  have *: "x AND (2 ^ n - 1) = x mod 2 ^ n" for n :: nat
    by (simp add: take_bit_eq_mod [symmetric] take_bit_eq_mask mask_eq_exp_minus_1)
  show "x AND 1 = x mod (2::nat)" using * [of 1] by simp
  show "x AND 15 = x mod (16::nat)" using * [of 4] by simp
  show "x AND 31 = x mod (32::nat)" using * [of 5] by simp
  show "x AND 63 = x mod (64::nat)" using * [of 6] by simp
  show "x AND 127 = x mod (128::nat)" using * [of 7] by simp
  show "x AND 255 = x mod (256::nat)" using * [of 8] by simp
qed

declare unsigned_or_eq [bits_nat] unsigned_and_eq [bits_nat] unsigned_drop_bit_eq [bits_nat]
  unsigned_push_bit_eq [bits_nat] unsigned_ucast_eq [bits_nat] mod_mod_cancel [bits_nat]

lemma push_bit_nat [bits_nat]: "push_bit n x = 2 ^ n * (x :: nat)"
  by (simp add: push_bit_eq_mult mult.commute)

lemma take_bit_nat [bits_nat]: "take_bit n x = x mod (2 ^ n :: nat)"
  by (rule take_bit_eq_mod)

lemma drop_bit_nat [bits_nat]: "drop_bit n x = (x :: nat) div 2 ^ n"
  by (simp add: drop_bit_eq_div)

section \<open>Lists\<close>

lemma cmp_map_strict:
  assumes "\<And>x y. cmp (f x) (f y) = cmp x y"
  shows "cmp (map f xs) (map f ys) = cmp xs ys"
proof (induction xs arbitrary: ys)
  case Nil then show ?case by (cases ys) auto
next
  case (Cons x xs) then show ?case by (cases ys) (auto simp: assms)
qed

end
