(* ===== verification/F64.thy ===== *)
theory F64
  imports Idb_Prelude
begin

text \<open>
  The \<open>f64\<close> of the sources: IEEE 754 binary64 values as their 64 bits, with the operations
  the sources use on them. A value is NaN, an infinity, or the integer \<open>f64_scaled\<close> divided
  by \<open>2 ^ 1074\<close> (every finite binary64 value is a multiple of the least subnormal). Arithmetic is
  exact on these integers followed by \<open>f64_round\<close>, round to nearest with ties to even. The
  lemmas show that comparison by sign and magnitude is comparison of values, and that integers up
  to \<open>2 ^ 53\<close> are represented and added exactly.
\<close>

type_synonym f64 = u64

section \<open>Fields and classification\<close>

definition f64_neg :: "f64 \<Rightarrow> bool" where
  "f64_neg w \<longleftrightarrow> 2 ^ 63 \<le> unat w"

definition f64_mag :: "f64 \<Rightarrow> nat" where
  "f64_mag w = unat w mod 2 ^ 63"

definition f64_make :: "bool \<Rightarrow> nat \<Rightarrow> f64" where
  "f64_make s m = word_of_nat ((if s then 2 ^ 63 else 0) + m)"

definition f64_inf_mag :: nat where
  "f64_inf_mag = 2047 * 2 ^ 52"

definition f64_is_nan :: "f64 \<Rightarrow> bool" where
  "f64_is_nan w \<longleftrightarrow> f64_inf_mag < f64_mag w"

definition f64_is_inf :: "f64 \<Rightarrow> bool" where
  "f64_is_inf w \<longleftrightarrow> f64_mag w = f64_inf_mag"

definition f64_is_finite :: "f64 \<Rightarrow> bool" where
  "f64_is_finite w \<longleftrightarrow> f64_mag w < f64_inf_mag"

definition f64_nan :: f64 where
  "f64_nan = f64_make False (2047 * 2 ^ 52 + 2 ^ 51)"

definition f64_zero :: f64 where
  "f64_zero = 0"

lemma f64_mag_less [simp]: "f64_mag w < 9223372036854775808"
  by (simp add: f64_mag_def)

lemma unat_f64_make:
  assumes "m < 9223372036854775808"
  shows "unat (f64_make s m) = (if s then 9223372036854775808 else 0) + m"
proof -
  have "(if s then 2 ^ 63 else 0) + m < 18446744073709551616" using assms by simp
  then show ?thesis by (simp only: f64_make_def unat_word_of_nat_u64) simp
qed

lemma f64_neg_make [simp]: "m < 9223372036854775808 \<Longrightarrow> f64_neg (f64_make s m) = s"
  by (simp add: f64_neg_def unat_f64_make)

lemma f64_mag_make [simp]: "m < 9223372036854775808 \<Longrightarrow> f64_mag (f64_make s m) = m"
  by (simp add: f64_mag_def unat_f64_make)

lemma unat_f64_split: "unat w = (if f64_neg w then 9223372036854775808 else 0) + f64_mag w"
proof -
  have u: "unat w < 18446744073709551616" by simp
  show ?thesis
  proof (cases "9223372036854775808 \<le> unat w")
    case True
    then obtain r where r: "unat w = 9223372036854775808 + r" using le_Suc_ex by blast
    with u have "r < 9223372036854775808" by simp
    then show ?thesis by (simp add: f64_neg_def f64_mag_def r)
  next
    case False
    then show ?thesis by (simp add: f64_neg_def f64_mag_def)
  qed
qed

lemma f64_make_fields [simp]: "f64_make (f64_neg w) (f64_mag w) = w"
  by (rule word_unat_eq_iff [THEN iffD2]) (simp add: unat_f64_make unat_f64_split [of w])

lemma f64_eq_iff: "v = w \<longleftrightarrow> f64_neg v = f64_neg w \<and> f64_mag v = f64_mag w"
proof
  assume "f64_neg v = f64_neg w \<and> f64_mag v = f64_mag w"
  then have "f64_make (f64_neg v) (f64_mag v) = f64_make (f64_neg w) (f64_mag w)" by simp
  then show "v = w" by simp
qed simp

section \<open>Comparison\<close>

text \<open>IEEE comparison of values that are not NaN is comparison of the signed magnitudes; both
  zeros have signed magnitude 0. Every comparison with a NaN is false.\<close>

definition f64_ord :: "f64 \<Rightarrow> int" where
  "f64_ord w = (if f64_neg w then - int (f64_mag w) else int (f64_mag w))"

definition f64_eq :: "f64 \<Rightarrow> f64 \<Rightarrow> bool" where
  "f64_eq a b \<longleftrightarrow> \<not> f64_is_nan a \<and> \<not> f64_is_nan b \<and> f64_ord a = f64_ord b"

definition f64_lt :: "f64 \<Rightarrow> f64 \<Rightarrow> bool" where
  "f64_lt a b \<longleftrightarrow> \<not> f64_is_nan a \<and> \<not> f64_is_nan b \<and> f64_ord a < f64_ord b"

definition f64_le :: "f64 \<Rightarrow> f64 \<Rightarrow> bool" where
  "f64_le a b \<longleftrightarrow> \<not> f64_is_nan a \<and> \<not> f64_is_nan b \<and> f64_ord a \<le> f64_ord b"

definition f64_partial_cmp :: "f64 \<Rightarrow> f64 \<Rightarrow> ordering option" where
  "f64_partial_cmp a b =
     (if f64_is_nan a \<or> f64_is_nan b then None else Some (cmp (f64_ord a) (f64_ord b)))"

lemma f64_ord_zero_iff: "f64_ord w = 0 \<longleftrightarrow> f64_mag w = 0"
  by (simp add: f64_ord_def)

lemma f64_zero_simps [simp]: "f64_mag f64_zero = 0" "f64_neg f64_zero = False"
  "f64_ord f64_zero = 0" "f64_is_nan f64_zero = False"
  by (simp_all add: f64_zero_def f64_mag_def f64_neg_def f64_ord_def f64_is_nan_def f64_inf_mag_def)

lemma f64_eq_zero_iff: "f64_eq w f64_zero \<longleftrightarrow> f64_mag w = 0"
  by (auto simp: f64_eq_def f64_ord_zero_iff f64_is_nan_def)

section \<open>Values\<close>

text \<open>\<open>mag_scaled m\<close> is the value of the magnitude \<open>m\<close> (exponent field \<open>m div 2 ^ 52\<close>,
  fraction \<open>m mod 2 ^ 52\<close>) in units of \<open>2 ^ -1074\<close>.\<close>

definition mag_scaled :: "nat \<Rightarrow> nat" where
  "mag_scaled m =
     (if m < 2 ^ 52 then m else (2 ^ 52 + m mod 2 ^ 52) * 2 ^ (m div 2 ^ 52 - 1))"

definition f64_scaled :: "f64 \<Rightarrow> int" where
  "f64_scaled w =
     (if f64_neg w then - int (mag_scaled (f64_mag w)) else int (mag_scaled (f64_mag w)))"

definition f64_unit :: nat where
  "f64_unit = 2 ^ 1074"

lemma mag_scaled_eq:
  assumes "2 ^ 52 \<le> q" "q < 2 ^ 53"
  shows "mag_scaled (k * 2 ^ 52 + q) = q * 2 ^ k"
proof -
  obtain r where r: "q = 2 ^ 52 + r" "r < 2 ^ 52"
    using assms by (metis le_add_diff_inverse less_diff_conv2 mult_2 power_Suc numeral_eq_Suc
        pred_numeral_simps add_less_cancel_left eval_nat_numeral)
  have "(k * 2 ^ 52 + q) div 2 ^ 52 = Suc k" "(k * 2 ^ 52 + q) mod 2 ^ 52 = r"
    using r by simp_all
  then show ?thesis
    using r by (simp add: mag_scaled_def)
qed

lemma mag_split:
  assumes "2 ^ 52 \<le> m"
  obtains k q where "m = k * 2 ^ 52 + q" "2 ^ 52 \<le> q" "q < 2 ^ 53" "mag_scaled m = q * 2 ^ k"
proof -
  define k where "k = m div 2 ^ 52 - 1"
  define q where "q = 2 ^ 52 + m mod 2 ^ 52"
  have "0 < m div 2 ^ 52" using assms by (simp add: div_greater_zero_iff)
  then have "m div 2 ^ 52 = Suc k" by (simp add: k_def)
  then have m: "m = k * 2 ^ 52 + q"
    using div_mult_mod_eq [of m "2 ^ 52"] by (simp add: q_def)
  have q: "2 ^ 52 \<le> q" "q < 2 ^ 53" by (simp_all add: q_def)
  show ?thesis using that [OF m q] mag_scaled_eq [OF q] m by simp
qed

lemma mag_scaled_Suc: "mag_scaled m < mag_scaled (Suc m)"
proof (cases "2 ^ 52 \<le> m")
  case True
  then obtain k q where kq: "m = k * 2 ^ 52 + q" "2 ^ 52 \<le> q" "q < 2 ^ 53" "mag_scaled m = q * 2 ^ k"
    by (rule mag_split)
  show ?thesis
  proof (cases "Suc q < 2 ^ 53")
    case True
    then have "mag_scaled (k * 2 ^ 52 + Suc q) = Suc q * 2 ^ k"
      using kq by (intro mag_scaled_eq) auto
    then show ?thesis using kq by simp
  next
    case False
    then have "Suc m = Suc k * 2 ^ 52 + 2 ^ 52" using kq by simp
    then have "mag_scaled (Suc m) = 2 ^ 52 * 2 ^ Suc k"
      using mag_scaled_eq [of "2 ^ 52" "Suc k"] by simp
    also have "\<dots> = 2 ^ 53 * 2 ^ k" by simp
    finally show ?thesis using kq by simp
  qed
next
  case False
  then show ?thesis by (cases "Suc m < 2 ^ 52") (auto simp: mag_scaled_def not_le less_Suc_eq)
qed

lemma strict_mono_mag_scaled: "strict_mono mag_scaled"
  by (simp add: strict_mono_Suc_iff mag_scaled_Suc)

lemma mag_scaled_0 [simp]: "mag_scaled 0 = 0"
  by (simp add: mag_scaled_def)

lemma mag_scaled_eq_0_iff: "mag_scaled m = 0 \<longleftrightarrow> m = 0"
  by (metis mag_scaled_0 strict_mono_eq strict_mono_mag_scaled)

lemma mag_scaled_less_iff: "mag_scaled m < mag_scaled n \<longleftrightarrow> m < n"
  by (rule strict_mono_less [OF strict_mono_mag_scaled])

text \<open>The comparison by signed magnitudes is the comparison of the values.\<close>

lemma f64_ord_less_iff: "f64_ord a < f64_ord b \<longleftrightarrow> f64_scaled a < f64_scaled b"
  using mag_scaled_eq_0_iff [of "f64_mag a"] mag_scaled_eq_0_iff [of "f64_mag b"]
    mag_scaled_less_iff [of "f64_mag a" "f64_mag b"] mag_scaled_less_iff [of "f64_mag b" "f64_mag a"]
  by (auto simp: f64_ord_def f64_scaled_def)

lemma f64_ord_eq_iff: "f64_ord a = f64_ord b \<longleftrightarrow> f64_scaled a = f64_scaled b"
  using f64_ord_less_iff [of a b] f64_ord_less_iff [of b a] by linarith

lemma f64_ord_le_iff: "f64_ord a \<le> f64_ord b \<longleftrightarrow> f64_scaled a \<le> f64_scaled b"
  using f64_ord_less_iff [of b a] by linarith

section \<open>Rounding and arithmetic\<close>

fun bitlen :: "nat \<Rightarrow> nat" where
  "bitlen n = (if n = 0 then 0 else Suc (bitlen (n div 2)))"

declare bitlen.simps [simp del]

text \<open>The magnitude nearest to \<open>n * 2 ^ -1074\<close>, ties to even; a carry out of the fraction
  moves into the exponent field, and a result above the largest finite value is infinite.\<close>

definition round_mag :: "nat \<Rightarrow> nat" where
  "round_mag n =
     (let k = bitlen n - 53; q = n div 2 ^ k; r = n mod 2 ^ k;
          up = (k > 0 \<and> (2 ^ (k - 1) < r \<or> (r = 2 ^ (k - 1) \<and> odd q)))
      in min f64_inf_mag (k * 2 ^ 52 + q + (if up then 1 else 0)))"

definition f64_round :: "int \<Rightarrow> f64" where
  "f64_round n = f64_make (n < 0) (round_mag (nat \<bar>n\<bar>))"

definition f64_of_int :: "int \<Rightarrow> f64" where
  "f64_of_int n = f64_round (n * int f64_unit)"

definition f64_add :: "f64 \<Rightarrow> f64 \<Rightarrow> f64" where
  "f64_add a b =
     (if f64_is_nan a \<or> f64_is_nan b then f64_nan
      else if f64_is_inf a then (if f64_is_inf b \<and> f64_neg a \<noteq> f64_neg b then f64_nan else a)
      else if f64_is_inf b then b
      else if f64_mag a = 0 \<and> f64_mag b = 0 then f64_make (f64_neg a \<and> f64_neg b) 0
      else f64_round (f64_scaled a + f64_scaled b))"

definition f64_negate :: "f64 \<Rightarrow> f64" where
  "f64_negate a = f64_make (\<not> f64_neg a) (f64_mag a)"

definition f64_floor :: "f64 \<Rightarrow> f64" where
  "f64_floor a =
     (if \<not> f64_is_finite a \<or> f64_mag a = 0 then a
      else f64_of_int (f64_scaled a div int f64_unit))"

definition f64_trunc :: "f64 \<Rightarrow> f64" where
  "f64_trunc a =
     (if \<not> f64_is_finite a then a
      else f64_make (f64_neg a) (round_mag (nat \<bar>f64_scaled a\<bar> div f64_unit * f64_unit)))"

definition f64_fract :: "f64 \<Rightarrow> f64" where
  "f64_fract a = f64_add a (f64_negate (f64_trunc a))"

text \<open>\<open>x as i32\<close>: truncation towards zero, saturating, NaN to 0.\<close>

definition f64_trunc_int :: "f64 \<Rightarrow> int" where
  "f64_trunc_int a =
     (if f64_neg a then - int (mag_scaled (f64_mag a) div f64_unit)
      else int (mag_scaled (f64_mag a) div f64_unit))"

definition f64_as_i32 :: "f64 \<Rightarrow> int" where
  "f64_as_i32 a =
     (if f64_is_nan a then 0
      else if f64_is_inf a then (if f64_neg a then - (2 ^ 31) else 2 ^ 31 - 1)
      else max (- (2 ^ 31)) (min (2 ^ 31 - 1) (f64_trunc_int a)))"

lemma bitlen_0 [simp]: "bitlen 0 = 0"
  by (simp add: bitlen.simps)

lemma bitlen_bounds: "0 < n \<Longrightarrow> 2 ^ (bitlen n - 1) \<le> n \<and> n < 2 ^ bitlen n \<and> 0 < bitlen n"
proof (induction n rule: bitlen.induct)
  case (1 n)
  show ?case
  proof (cases "n div 2 = 0")
    case True
    with 1 have "n = 1" by simp
    moreover have "bitlen (Suc 0) = Suc 0" by (simp add: bitlen.simps [of "Suc 0"] bitlen.simps [of 0])
    ultimately show ?thesis by simp
  next
    case False
    with 1 have ih: "2 ^ (bitlen (n div 2) - 1) \<le> n div 2" "n div 2 < 2 ^ bitlen (n div 2)"
      "0 < bitlen (n div 2)" by auto
    from 1 have b: "bitlen n = Suc (bitlen (n div 2))" by (simp add: bitlen.simps [of n])
    from ih(3) obtain j where j: "bitlen (n div 2) = Suc j" by (cases "bitlen (n div 2)") auto
    show ?thesis using ih b j by auto
  qed
qed

lemma bitlen_eq:
  assumes "2 ^ l \<le> n" "n < 2 ^ Suc l"
  shows "bitlen n = Suc l"
proof -
  have n: "0 < n" using assms(1) by (metis less_le_trans zero_less_numeral zero_less_power)
  from bitlen_bounds [OF n] have b: "2 ^ (bitlen n - 1) \<le> n" "n < 2 ^ bitlen n" "0 < bitlen n" by auto
  from b(1) assms(2) have "(2::nat) ^ (bitlen n - 1) < 2 ^ Suc l" by (rule le_less_trans)
  then have "bitlen n - 1 < Suc l" by (simp only: power_strict_increasing_iff one_less_numeral_iff semiring_norm)
  moreover from assms(1) b(2) have "(2::nat) ^ l < 2 ^ bitlen n" by (rule le_less_trans)
  then have "l < bitlen n" by (simp only: power_strict_increasing_iff one_less_numeral_iff semiring_norm)
  ultimately show ?thesis using b(3) by linarith
qed

lemma round_mag_0 [simp]: "round_mag 0 = 0"
  by (simp add: round_mag_def Let_def)

text \<open>A value that a magnitude represents rounds to that magnitude.\<close>

lemma round_mag_scaled:
  assumes "m \<le> f64_inf_mag"
  shows "round_mag (mag_scaled m) = m"
proof (cases "2 ^ 52 \<le> m")
  case True
  then obtain k q where kq: "m = k * 2 ^ 52 + q" "2 ^ 52 \<le> q" "q < 2 ^ 53" "mag_scaled m = q * 2 ^ k"
    by (rule mag_split)
  have "bitlen (q * 2 ^ k) = Suc (52 + k)"
    using kq by (intro bitlen_eq) (simp_all add: power_add)
  then have "bitlen (q * 2 ^ k) - 53 = k" by simp
  then show ?thesis
    using kq assms by (simp add: round_mag_def Let_def)
next
  case False
  then have m: "mag_scaled m = m" by (simp add: mag_scaled_def)
  have "bitlen m \<le> 52"
  proof (cases "m = 0")
    case False
    then have "2 ^ (bitlen m - 1) \<le> m" "0 < bitlen m" using bitlen_bounds [of m] by auto
    with \<open>\<not> 2 ^ 52 \<le> m\<close> have "(2::nat) ^ (bitlen m - 1) < 2 ^ 52" by linarith
    then have "bitlen m - 1 < 52" by (simp only: power_strict_increasing_iff one_less_numeral_iff semiring_norm)
    then show ?thesis by simp
  qed simp
  then show ?thesis
    using assms by (simp add: m round_mag_def Let_def)
qed

lemma round_mag_le: "round_mag n \<le> f64_inf_mag"
  by (simp add: round_mag_def Let_def)

lemma f64_inf_mag_less [simp]: "f64_inf_mag < 9223372036854775808"
  by (simp add: f64_inf_mag_def)

lemma round_mag_less [simp]: "round_mag n < 9223372036854775808"
  using round_mag_le [of n] f64_inf_mag_less by linarith

lemma not_nan_round [simp]: "\<not> f64_is_nan (f64_round n)"
  using round_mag_le [of "nat \<bar>n\<bar>"] by (simp add: f64_is_nan_def f64_round_def)

lemma f64_round_scaled:
  assumes "f64_is_finite w" "f64_mag w \<noteq> 0"
  shows "f64_round (f64_scaled w) = w"
proof -
  have "nat \<bar>f64_scaled w\<bar> = mag_scaled (f64_mag w)" by (simp add: f64_scaled_def)
  moreover have "f64_scaled w < 0 \<longleftrightarrow> f64_neg w"
    using assms(2) mag_scaled_eq_0_iff [of "f64_mag w"] by (auto simp: f64_scaled_def)
  ultimately show ?thesis
    using assms round_mag_scaled [of "f64_mag w"] by (simp add: f64_round_def f64_is_finite_def)
qed

section \<open>Integers up to \<open>2 ^ 53\<close> are exact\<close>

lemma int_mag_exists:
  assumes "n \<le> 2 ^ 53"
  shows "\<exists>m < f64_inf_mag. mag_scaled m = n * f64_unit"
proof (cases "n = 0")
  case True
  then show ?thesis by (intro exI [of _ 0]) (simp add: f64_inf_mag_def)
next
  case False
  then have b: "2 ^ (bitlen n - 1) \<le> n" "n < 2 ^ bitlen n" "0 < bitlen n"
    using bitlen_bounds [of n] by auto
  show ?thesis
  proof (cases "bitlen n \<le> 53")
    case True
    define j where "j = 53 - bitlen n"
    define q where "q = n * 2 ^ j"
    have "2 ^ (bitlen n - 1) * 2 ^ j \<le> q" "q < 2 ^ bitlen n * 2 ^ j"
      using b by (simp_all add: q_def)
    moreover have "bitlen n - 1 + j = 52" "bitlen n + j = 53"
      using True b(3) by (simp_all add: j_def)
    ultimately have q: "2 ^ 52 \<le> q" "q < 2 ^ 53"
      by (metis power_add)+
    have j: "j \<le> 52" using True b(3) by (simp add: j_def)
    have "q * 2 ^ (1074 - j) = n * f64_unit"
      using j by (simp add: q_def f64_unit_def power_add [symmetric] mult.assoc)
    moreover have "(1074 - j) * 2 ^ 52 + q < f64_inf_mag"
    proof -
      have "(1074 - j) * 2 ^ 52 + q < 1074 * 2 ^ 52 + 2 ^ 53"
        using q(2) mult_le_mono1 [of "1074 - j" 1074 "2 ^ 52"] by simp
      also have "\<dots> < f64_inf_mag" by (simp add: f64_inf_mag_def)
      finally show ?thesis .
    qed
    ultimately show ?thesis
      using mag_scaled_eq [OF q, of "1074 - j"] by (intro exI [of _ "(1074 - j) * 2 ^ 52 + q"]) simp
  next
    case False
    have "2 ^ 53 \<le> n"
    proof -
      have "(2::nat) ^ 53 \<le> 2 ^ (bitlen n - 1)" using False by (intro power_increasing) auto
      with b(1) show ?thesis by linarith
    qed
    with assms have "n = 2 ^ 53" by simp
    then have "n * f64_unit = 2 ^ 52 * 2 ^ 1075"
      by (simp only: f64_unit_def power_add [symmetric]) simp
    moreover have "mag_scaled (1075 * 2 ^ 52 + 2 ^ 52) = 2 ^ 52 * 2 ^ 1075"
      by (rule mag_scaled_eq) simp_all
    moreover have "1075 * 2 ^ 52 + 2 ^ 52 < f64_inf_mag" by (simp add: f64_inf_mag_def)
    ultimately show ?thesis by metis
  qed
qed

lemma f64_unit_pos [simp]: "0 < f64_unit"
  by (simp add: f64_unit_def)

lemma f64_of_int_props:
  assumes "\<bar>n\<bar> \<le> 2 ^ 53"
  shows "f64_scaled (f64_of_int n) = n * int f64_unit" "f64_is_finite (f64_of_int n)"
proof -
  have "nat \<bar>n\<bar> \<le> 2 ^ 53" using assms by simp
  then obtain m where m: "m < f64_inf_mag" "mag_scaled m = nat \<bar>n\<bar> * f64_unit"
    using int_mag_exists by blast
  have "nat \<bar>n * int f64_unit\<bar> = mag_scaled m"
    by (simp add: m abs_mult nat_mult_distrib)
  then have "round_mag (nat \<bar>n * int f64_unit\<bar>) = m"
    using round_mag_scaled [of m] m(1) by simp
  moreover have "n * int f64_unit < 0 \<longleftrightarrow> n < 0"
    by (simp add: mult_less_0_iff)
  ultimately have fields: "f64_neg (f64_of_int n) = (n < 0)" "f64_mag (f64_of_int n) = m"
    using less_trans [OF m(1) f64_inf_mag_less] by (simp_all add: f64_of_int_def f64_round_def)
  have "int (nat \<bar>n\<bar> * f64_unit) = \<bar>n\<bar> * int f64_unit" by simp
  then show "f64_scaled (f64_of_int n) = n * int f64_unit"
    by (simp add: f64_scaled_def fields m(2) abs_if)
  show "f64_is_finite (f64_of_int n)" by (simp add: f64_is_finite_def fields m(1))
qed

lemma f64_finite_simps: "f64_is_finite w \<Longrightarrow> \<not> f64_is_nan w" "f64_is_finite w \<Longrightarrow> \<not> f64_is_inf w"
  by (auto simp: f64_is_finite_def f64_is_nan_def f64_is_inf_def)

lemma f64_mag_of_int_eq_0:
  assumes "\<bar>n\<bar> \<le> 2 ^ 53"
  shows "f64_mag (f64_of_int n) = 0 \<longleftrightarrow> n = 0"
proof -
  have "f64_mag (f64_of_int n) = 0 \<longleftrightarrow> f64_scaled (f64_of_int n) = 0"
    by (auto simp: f64_scaled_def mag_scaled_eq_0_iff)
  moreover have "f64_unit \<noteq> 0" using f64_unit_pos by simp
  ultimately show ?thesis using f64_of_int_props(1) [OF assms] by simp
qed

text \<open>\<open>exact_int\<close> bundles what the client theories need: comparison, equality, addition and
  rounding down of exactly represented integers.\<close>

named_theorems exact_int

lemma f64_lt_of_int [exact_int]:
  "\<bar>m\<bar> \<le> 2 ^ 53 \<Longrightarrow> \<bar>n\<bar> \<le> 2 ^ 53 \<Longrightarrow> f64_lt (f64_of_int m) (f64_of_int n) \<longleftrightarrow> m < n"
  by (simp add: f64_lt_def f64_ord_less_iff f64_of_int_props f64_finite_simps)

lemma f64_le_of_int [exact_int]:
  "\<bar>m\<bar> \<le> 2 ^ 53 \<Longrightarrow> \<bar>n\<bar> \<le> 2 ^ 53 \<Longrightarrow> f64_le (f64_of_int m) (f64_of_int n) \<longleftrightarrow> m \<le> n"
  by (simp add: f64_le_def f64_ord_le_iff f64_of_int_props f64_finite_simps)

lemma f64_of_int_inject [exact_int]:
  assumes "\<bar>m\<bar> \<le> 2 ^ 53" "\<bar>n\<bar> \<le> 2 ^ 53"
  shows "f64_of_int m = f64_of_int n \<longleftrightarrow> m = n"
  using f64_of_int_props(1) [OF assms(1)] f64_of_int_props(1) [OF assms(2)]
  by (metis f64_unit_pos mult_right_cancel of_nat_0_less_iff less_irrefl)

lemma f64_of_int_finite [exact_int]: "\<bar>n\<bar> \<le> 2 ^ 53 \<Longrightarrow> \<not> f64_is_nan (f64_of_int n)"
  by (simp add: f64_of_int_props f64_finite_simps)

lemma f64_of_int_0: "f64_of_int 0 = f64_zero"
  by (simp add: f64_of_int_def f64_round_def f64_make_def f64_zero_def)

lemma f64_add_of_int [exact_int]:
  assumes "\<bar>m\<bar> \<le> 2 ^ 53" "\<bar>n\<bar> \<le> 2 ^ 53"
  shows "f64_add (f64_of_int m) (f64_of_int n) = f64_of_int (m + n)"
proof (cases "m = 0 \<and> n = 0")
  case True
  then show ?thesis
    by (simp add: f64_of_int_0 f64_add_def f64_is_inf_def f64_inf_mag_def)
       (simp add: f64_make_def f64_zero_def)
next
  case False
  then have "\<not> (f64_mag (f64_of_int m) = 0 \<and> f64_mag (f64_of_int n) = 0)"
    using f64_mag_of_int_eq_0 assms by blast
  then show ?thesis
    using assms
    by (auto simp: f64_add_def f64_of_int_props f64_finite_simps f64_of_int_def [of "m + n"] algebra_simps)
qed

lemma f64_floor_of_int [exact_int]:
  assumes "\<bar>n\<bar> \<le> 2 ^ 53"
  shows "f64_floor (f64_of_int n) = f64_of_int n"
  using f64_of_int_props [OF assms] f64_mag_of_int_eq_0 [OF assms]
  by (auto simp: f64_floor_def)

end
