(* ===== verification/Key_Value.thy ===== *)
theory Key_Value
  imports F64
begin

text \<open>
  IndexedDB keys (\<open>key/value.rs\<close>), their comparison (\<open>key/compare.rs\<close>) and the
  limits they are checked against (\<open>limits.rs\<close>). A UTF-16 string is its list of code units
  (\<open>key/utf16.rs\<close>), so unpaired surrogates are ordinary elements. Error constructors keep
  the payload the sources give them except the message text.
\<close>

type_synonym utf16 = "u16 list"

section \<open>Limits\<close>

record limit_config =
  max_key_len :: nat
  max_key_depth :: nat
  max_value_len :: nat
  max_clone_depth :: nat

definition default_limits :: limit_config where
  "default_limits = \<lparr>max_key_len = 1024 * 1024, max_key_depth = 32,
     max_value_len = 64 * 1024 * 1024, max_clone_depth = 512\<rparr>"

lemma default_limits_simps [simp]:
  "max_key_len default_limits = 1024 * 1024" "max_key_depth default_limits = 32"
  "max_value_len default_limits = 64 * 1024 * 1024" "max_clone_depth default_limits = 512"
  by (simp_all add: default_limits_def)

section \<open>Keys and their validation\<close>

datatype key_error =
    KeyInvalidType
  | KeyInvalidValue
  | KeyTooLarge nat nat
  | KeyMaxDepthExceeded nat
  | KeyInvalidEncoding
  | KeyUnexpectedEof

datatype key =
    KNumber f64
  | KDate f64
  | KString utf16
  | KBinary bytes
  | KArray "key list"

fun validate_recursive :: "key \<Rightarrow> nat \<Rightarrow> limit_config \<Rightarrow> key_error + unit"
and validate_items :: "key list \<Rightarrow> nat \<Rightarrow> limit_config \<Rightarrow> key_error + unit" where
  "validate_recursive k depth lim =
     (if depth > max_key_depth lim then Inl (KeyMaxDepthExceeded (max_key_depth lim))
      else case k of
        KNumber n \<Rightarrow> if f64_is_nan n then Inl KeyInvalidValue else Inr ()
      | KDate d \<Rightarrow> if f64_is_nan d then Inl KeyInvalidValue else Inr ()
      | KString _ \<Rightarrow> Inr ()
      | KBinary _ \<Rightarrow> Inr ()
      | KArray arr \<Rightarrow> validate_items arr (depth + 1) lim)"
| "validate_items [] depth lim = Inr ()"
| "validate_items (k # ks) depth lim =
     rbind (validate_recursive k depth lim) (\<lambda>_. validate_items ks depth lim)"

definition validate :: "key \<Rightarrow> limit_config \<Rightarrow> key_error + unit" where
  "validate k lim = validate_recursive k 0 lim"

declare validate_recursive.simps [simp del]

text \<open>What a valid key is: no NaN anywhere, and arrays nested at most so deep.\<close>

fun key_no_nan :: "key \<Rightarrow> bool" where
  "key_no_nan (KNumber n) = (\<not> f64_is_nan n)"
| "key_no_nan (KDate d) = (\<not> f64_is_nan d)"
| "key_no_nan (KString _) = True"
| "key_no_nan (KBinary _) = True"
| "key_no_nan (KArray ks) = list_all key_no_nan ks"

fun key_depth :: "key \<Rightarrow> nat" where
  "key_depth (KArray ks) = fold max (map (\<lambda>k. Suc (key_depth k)) ks) 0"
| "key_depth _ = 0"

lemma fold_max_le: "fold max xs (a::nat) \<le> n \<longleftrightarrow> a \<le> n \<and> (\<forall>x \<in> set xs. x \<le> n)"
  by (induction xs arbitrary: a) auto

lemma key_depth_KArray_le:
  "key_depth (KArray ks) + d \<le> n \<longleftrightarrow> d \<le> n \<and> (\<forall>k \<in> set ks. key_depth k + Suc d \<le> n)"
proof (cases "d \<le> n")
  case True
  then have "key_depth (KArray ks) + d \<le> n \<longleftrightarrow> key_depth (KArray ks) \<le> n - d" by arith
  then show ?thesis using True by (auto simp: fold_max_le le_diff_conv2)
qed auto

lemma validate_ok_iff:
  "validate_recursive k d lim = Inr () \<longleftrightarrow> key_no_nan k \<and> key_depth k + d \<le> max_key_depth lim"
  "validate_items ks d lim = Inr () \<longleftrightarrow>
     (\<forall>k \<in> set ks. key_no_nan k \<and> key_depth k + d \<le> max_key_depth lim)"
proof (induction k d lim and ks d lim rule: validate_recursive_validate_items.induct)
  case (1 k depth lim)
  show ?case
  proof (cases k)
    case (KArray ks)
    show ?thesis
    proof (cases "depth \<le> max_key_depth lim")
      case True
      with 1 [of ks] KArray show ?thesis
        unfolding KArray key_depth_KArray_le
        by (subst validate_recursive.simps) (auto simp: list_all_iff)
    next
      case False
      then show ?thesis
        unfolding KArray key_depth_KArray_le by (subst validate_recursive.simps) auto
    qed
  qed (subst validate_recursive.simps; auto)+
next
  case (2 d lim)
  then show ?case by simp
next
  case (3 k ks d lim)
  then show ?case by auto
qed

section \<open>Comparison\<close>

fun type_order :: "key \<Rightarrow> nat" where
  "type_order (KNumber _) = 1"
| "type_order (KDate _) = 2"
| "type_order (KString _) = 3"
| "type_order (KBinary _) = 4"
| "type_order (KArray _) = 5"

definition compare_f64 :: "f64 \<Rightarrow> f64 \<Rightarrow> ordering" where
  "compare_f64 x y =
     (let x_norm = (if f64_eq x f64_zero then f64_zero else x);
          y_norm = (if f64_eq y f64_zero then f64_zero else y)
      in case f64_partial_cmp x_norm y_norm of Some ord \<Rightarrow> ord | None \<Rightarrow> Equal)"

fun compare_keys :: "key \<Rightarrow> key \<Rightarrow> ordering"
and compare_items :: "key list \<Rightarrow> key list \<Rightarrow> ordering" where
  "compare_keys a b =
     (if type_order a \<noteq> type_order b then cmp (type_order a) (type_order b)
      else case (a, b) of
        (KNumber x, KNumber y) \<Rightarrow> compare_f64 x y
      | (KDate x, KDate y) \<Rightarrow> compare_f64 x y
      | (KString x, KString y) \<Rightarrow> cmp x y
      | (KBinary x, KBinary y) \<Rightarrow> cmp x y
      | (KArray x, KArray y) \<Rightarrow> compare_items x y
      | _ \<Rightarrow> Equal)"
| "compare_items (x # xs) (y # ys) =
     (let ord = compare_keys x y in if ord \<noteq> Equal then ord else compare_items xs ys)"
| "compare_items xs ys = cmp (length xs) (length ys)"

declare compare_keys.simps [simp del]

lemma compare_keys_simps [simp]:
  "compare_keys (KNumber x) (KNumber y) = compare_f64 x y"
  "compare_keys (KDate x) (KDate y) = compare_f64 x y"
  "compare_keys (KString s) (KString t) = cmp s t"
  "compare_keys (KBinary p) (KBinary q) = cmp p q"
  "compare_keys (KArray ks) (KArray ls) = compare_items ks ls"
  by (simp_all add: compare_keys.simps)

lemma compare_keys_type:
  "type_order a \<noteq> type_order b \<Longrightarrow> compare_keys a b = cmp (type_order a) (type_order b)"
  by (simp add: compare_keys.simps)

lemma compare_items_Cons [simp]:
  "compare_items (x # xs) (y # ys) = then_cmp (compare_keys x y) (compare_items xs ys)"
  by (cases "compare_keys x y") auto

text \<open>A canonical key has no NaN and no negative zero; \<open>key_canon\<close> replaces negative zeros.
  Comparison does not see the difference.\<close>

definition canon_f64 :: "f64 \<Rightarrow> f64" where
  "canon_f64 x = (if f64_eq x f64_zero then f64_zero else x)"

fun key_canon :: "key \<Rightarrow> key" where
  "key_canon (KNumber n) = KNumber (canon_f64 n)"
| "key_canon (KDate d) = KDate (canon_f64 d)"
| "key_canon (KString s) = KString s"
| "key_canon (KBinary b) = KBinary b"
| "key_canon (KArray ks) = KArray (map key_canon ks)"

lemma canon_f64_idem [simp]: "canon_f64 (canon_f64 x) = canon_f64 x"
  by (simp add: canon_f64_def)

lemma key_canon_idem [simp]: "key_canon (key_canon k) = key_canon k"
  by (induction k) auto

lemma f64_is_nan_canon [simp]: "f64_is_nan (canon_f64 x) = f64_is_nan x"
  by (auto simp: canon_f64_def f64_eq_def)

lemma f64_ord_canon [simp]: "f64_ord (canon_f64 x) = f64_ord x"
  by (auto simp: canon_f64_def f64_eq_def)

lemma compare_f64_eq:
  "\<not> f64_is_nan x \<Longrightarrow> \<not> f64_is_nan y \<Longrightarrow> compare_f64 x y = cmp (f64_ord x) (f64_ord y)"
  by (simp add: compare_f64_def Let_def f64_partial_cmp_def flip: canon_f64_def)

lemma canon_f64_eq_iff:
  "\<not> f64_is_nan x \<Longrightarrow> \<not> f64_is_nan y \<Longrightarrow> canon_f64 x = canon_f64 y \<longleftrightarrow> f64_ord x = f64_ord y"
  by (auto simp: canon_f64_def f64_eq_def f64_ord_def f64_eq_iff [of x y] split: if_splits)

end
