(* ===== verification/Key_Codec.thy ===== *)
theory Key_Codec
  imports Key_Value
begin

text \<open>
  The \<open>KEY-v1\<close> codec of \<open>key/encode.rs\<close>. The encoder appends to an output
  buffer and returns it with its result; the decoder reads a suffix of its input and returns the
  decoded value with the number of bytes consumed, so the position \<open>pos\<close> of the source is
  the number of bytes dropped. \<open>key_bytes\<close> is the encoding as a pure function; the main lemma
  \<open>cmp_key_bytes\<close> says that comparing encodings followed by anything compares the keys first,
  and \<open>decode_key_bytes\<close> that decoding an encoding followed by anything returns the key.
\<close>

section \<open>Encoding\<close>

definition TAG_NUMBER :: u8 where "TAG_NUMBER = 0x10"
definition TAG_DATE :: u8 where "TAG_DATE = 0x20"
definition TAG_STRING :: u8 where "TAG_STRING = 0x30"
definition TAG_BINARY :: u8 where "TAG_BINARY = 0x40"
definition TAG_ARRAY :: u8 where "TAG_ARRAY = 0x50"
definition TAG_ARRAY_TERMINATOR :: u8 where "TAG_ARRAY_TERMINATOR = 0x00"

lemmas key_tags = TAG_NUMBER_def TAG_DATE_def TAG_STRING_def TAG_BINARY_def TAG_ARRAY_def
  TAG_ARRAY_TERMINATOR_def

definition encode_f64_orderable :: "f64 \<Rightarrow> bytes" where
  "encode_f64_orderable val =
     (let v = (if f64_eq val f64_zero then f64_zero else val);
          bits = v;
          ord = (if bits AND push_bit 63 1 \<noteq> 0 then NOT bits else bits OR push_bit 63 1)
      in be_bytes 8 (unat ord))"

definition decode_f64_orderable :: "bytes \<Rightarrow> f64" where
  "decode_f64_orderable bs =
     (let ord = (word_of_nat (of_be_bytes bs) :: u64);
          bits = (if ord AND push_bit 63 1 \<noteq> 0 then ord AND NOT (push_bit 63 1) else NOT ord)
      in bits)"

definition encode_cesu8_unit :: "u16 \<Rightarrow> bytes \<Rightarrow> bytes" where
  "encode_cesu8_unit cu out =
     (if cu = 0 then out @ [0]
      else if cu \<le> 0x7F then out @ [ucast cu]
      else if cu \<le> 0x7FF then
        out @ [0xC0 OR ucast (drop_bit 6 cu), 0x80 OR ucast (cu AND 0x3F)]
      else
        out @ [0xE0 OR ucast (drop_bit 12 cu), 0x80 OR ucast (drop_bit 6 cu AND 0x3F),
               0x80 OR ucast (cu AND 0x3F)])"

definition push_escaped :: "u8 \<Rightarrow> bytes \<Rightarrow> bytes" where
  "push_escaped b out = (if b = 0 then out @ [0, 0xFF] else out @ [b])"

definition encode_string_cesu8 :: "utf16 \<Rightarrow> bytes \<Rightarrow> bytes" where
  "encode_string_cesu8 units out =
     (let cesu8_buf = fold encode_cesu8_unit units []
      in fold push_escaped cesu8_buf out @ [0, 0])"

definition encode_binary :: "bytes \<Rightarrow> bytes \<Rightarrow> bytes" where
  "encode_binary data out = fold push_escaped data out @ [0, 0]"

fun encode_key_internal ::
    "key \<Rightarrow> bytes \<Rightarrow> nat \<Rightarrow> limit_config \<Rightarrow> (key_error + unit) \<times> bytes"
and encode_key_items ::
    "key list \<Rightarrow> bytes \<Rightarrow> nat \<Rightarrow> limit_config \<Rightarrow> (key_error + unit) \<times> bytes" where
  "encode_key_internal k out depth lim =
     (if depth > max_key_depth lim then (Inl (KeyMaxDepthExceeded (max_key_depth lim)), out)
      else case k of
        KNumber n \<Rightarrow> (Inr (), out @ [TAG_NUMBER] @ encode_f64_orderable n)
      | KDate d \<Rightarrow> (Inr (), out @ [TAG_DATE] @ encode_f64_orderable d)
      | KString s \<Rightarrow> (Inr (), encode_string_cesu8 s (out @ [TAG_STRING]))
      | KBinary b \<Rightarrow> (Inr (), encode_binary b (out @ [TAG_BINARY]))
      | KArray arr \<Rightarrow>
          (case encode_key_items arr (out @ [TAG_ARRAY]) (depth + 1) lim of
             (Inl e, out') \<Rightarrow> (Inl e, out')
           | (Inr _, out') \<Rightarrow> (Inr (), out' @ [TAG_ARRAY_TERMINATOR])))"
| "encode_key_items [] out depth lim = (Inr (), out)"
| "encode_key_items (k # ks) out depth lim =
     (case encode_key_internal k out depth lim of
        (Inl e, out') \<Rightarrow> (Inl e, out')
      | (Inr _, out') \<Rightarrow> encode_key_items ks out' depth lim)"

declare encode_key_internal.simps [simp del]

definition encode_key :: "key \<Rightarrow> bytes \<Rightarrow> limit_config \<Rightarrow> (key_error + unit) \<times> bytes" where
  "encode_key k out lim =
     (case validate k lim of
        Inl e \<Rightarrow> (Inl e, out)
      | Inr _ \<Rightarrow>
          let start_len = length out in
          (case encode_key_internal k out 0 lim of
             (Inl e, out') \<Rightarrow> (Inl e, out')
           | (Inr _, out') \<Rightarrow>
               let added = length out' - start_len in
               if added > max_key_len lim
               then (Inl (KeyTooLarge (max_key_len lim) added), take start_len out')
               else (Inr (), out')))"

lemma key_tag_neq [simp]:
  "TAG_DATE \<noteq> TAG_NUMBER" "TAG_STRING \<noteq> TAG_NUMBER" "TAG_STRING \<noteq> TAG_DATE"
  "TAG_BINARY \<noteq> TAG_NUMBER" "TAG_BINARY \<noteq> TAG_DATE" "TAG_BINARY \<noteq> TAG_STRING"
  "TAG_ARRAY \<noteq> TAG_NUMBER" "TAG_ARRAY \<noteq> TAG_DATE" "TAG_ARRAY \<noteq> TAG_STRING" "TAG_ARRAY \<noteq> TAG_BINARY"
  by (simp_all add: key_tags)

section \<open>The encoding as a pure function\<close>

definition cesu8_unit :: "u16 \<Rightarrow> bytes" where
  "cesu8_unit cu = encode_cesu8_unit cu []"

definition escape_byte :: "u8 \<Rightarrow> bytes" where
  "escape_byte b = (if b = 0 then [0, 0xFF] else [b])"

definition escaped :: "bytes \<Rightarrow> bytes" where
  "escaped bs = concat (map escape_byte bs) @ [0, 0]"

definition cesu8 :: "utf16 \<Rightarrow> bytes" where
  "cesu8 us = concat (map cesu8_unit us)"

fun key_bytes :: "key \<Rightarrow> bytes" where
  "key_bytes (KNumber n) = TAG_NUMBER # encode_f64_orderable n"
| "key_bytes (KDate d) = TAG_DATE # encode_f64_orderable d"
| "key_bytes (KString s) = TAG_STRING # escaped (cesu8 s)"
| "key_bytes (KBinary b) = TAG_BINARY # escaped b"
| "key_bytes (KArray ks) = TAG_ARRAY # concat (map key_bytes ks) @ [TAG_ARRAY_TERMINATOR]"

lemma encode_cesu8_unit_append: "encode_cesu8_unit cu out = out @ cesu8_unit cu"
  by (simp add: cesu8_unit_def encode_cesu8_unit_def)

lemma fold_append_concat: "(\<And>x out. f x out = out @ g x) \<Longrightarrow> fold f xs out = out @ concat (map g xs)"
  by (induction xs arbitrary: out) simp_all

lemma fold_encode_cesu8: "fold encode_cesu8_unit us out = out @ cesu8 us"
  unfolding cesu8_def by (rule fold_append_concat) (rule encode_cesu8_unit_append)

lemma fold_push_escaped: "fold push_escaped bs out @ [0, 0] = out @ escaped bs"
  using fold_append_concat [of push_escaped escape_byte bs out]
  by (simp add: push_escaped_def escape_byte_def escaped_def)

lemma encode_string_cesu8_eq: "encode_string_cesu8 us out = out @ escaped (cesu8 us)"
  by (simp add: encode_string_cesu8_def fold_encode_cesu8 fold_push_escaped)

lemma encode_binary_eq: "encode_binary bs out = out @ escaped bs"
  by (simp add: encode_binary_def fold_push_escaped)

lemma encode_key_internal_eq:
  "key_depth k + d \<le> max_key_depth lim \<Longrightarrow>
     encode_key_internal k out d lim = (Inr (), out @ key_bytes k)"
  "(\<And>k. k \<in> set ks \<Longrightarrow> key_depth k + d \<le> max_key_depth lim) \<Longrightarrow>
     encode_key_items ks out d lim = (Inr (), out @ concat (map key_bytes ks))"
proof (induction k out d lim and ks out d lim rule: encode_key_internal_encode_key_items.induct)
  case (1 k out depth lim)
  show ?case
  proof (cases k)
    case (KArray ks)
    with "1.prems" have "depth \<le> max_key_depth lim"
      "\<And>k. k \<in> set ks \<Longrightarrow> key_depth k + (depth + 1) \<le> max_key_depth lim"
      unfolding KArray key_depth_KArray_le by auto
    with "1.IH" [of ks] KArray show ?thesis
      by (simp add: encode_key_internal.simps)
  qed (use "1.prems" in \<open>simp_all add: encode_key_internal.simps encode_string_cesu8_eq encode_binary_eq\<close>)
next
  case (2 out depth lim)
  then show ?case by simp
next
  case (3 k ks out depth lim)
  then show ?case by simp
qed

text \<open>Encoding succeeds exactly on valid keys whose encoding fits, and appends the encoding.\<close>

lemma encode_key_eq:
  "encode_key k out lim =
     (case validate k lim of
        Inl e \<Rightarrow> (Inl e, out)
      | Inr _ \<Rightarrow>
          if length (key_bytes k) > max_key_len lim
          then (Inl (KeyTooLarge (max_key_len lim) (length (key_bytes k))), out)
          else (Inr (), out @ key_bytes k))"
proof (cases "validate k lim")
  case (Inr u)
  then have "key_depth k + 0 \<le> max_key_depth lim"
    using validate_ok_iff(1) [of k 0 lim] by (simp add: validate_def)
  with Inr show ?thesis
    by (simp add: encode_key_def encode_key_internal_eq Let_def)
qed (simp add: encode_key_def)

section \<open>Numbers\<close>

lemma sign_bit_iff: "w AND push_bit 63 1 \<noteq> 0 \<longleftrightarrow> f64_neg w"
proof -
  have "bit w 63 \<longleftrightarrow> bit (unat w) 63" by (simp add: bit_unsigned_iff)
  also have "\<dots> \<longleftrightarrow> odd (unat w div 2 ^ 63)" by (rule bit_iff_odd)
  also have "\<dots> \<longleftrightarrow> f64_neg w"
  proof (cases "f64_neg w")
    case True
    have "unat w div 2 ^ 63 = 1"
      by (rule div_nat_eqI) (use True in \<open>simp_all add: unat_f64_split [of w]\<close>)
    with True show ?thesis by simp
  next
    case False
    then show ?thesis by (simp add: unat_f64_split [of w])
  qed
  finally show ?thesis
    using and_exp_eq_0_iff_not_bit [of w 63] by (simp add: push_bit_of_1)
qed

text \<open>The number the 8 bytes spell: the signed magnitude shifted to be unsigned, with one gap
  that the absent negative zero leaves.\<close>

definition orderable_nat :: "f64 \<Rightarrow> nat" where
  "orderable_nat v =
     (if f64_neg v then 9223372036854775807 - f64_mag v else 9223372036854775808 + f64_mag v)"

lemma orderable_nat_less: "orderable_nat v < 256 ^ 8"
proof -
  have "9223372036854775807 - f64_mag v < 18446744073709551616" by (rule le_less_trans [OF diff_le_self]) simp
  then show ?thesis using f64_mag_less [of v] by (simp add: orderable_nat_def del: f64_mag_less)
qed

lemma unat_not_u64: "unat (NOT v :: u64) = 18446744073709551615 - unat v"
proof -
  have "NOT v = - 1 - v" by (simp add: not_eq_complement)
  moreover have "unat (- 1 - v) = unat (- 1 :: u64) - unat v"
    by (rule unat_sub) simp
  ultimately show ?thesis by (simp add: unsigned_minus_1_eq_mask mask_eq_exp_minus_1)
qed

lemma orderable_word:
  "unat (if f64_neg v then NOT v else v OR push_bit 63 1) = orderable_nat v"
proof (cases "f64_neg v")
  case True
  then show ?thesis
    by (simp add: unat_not_u64 orderable_nat_def unat_f64_split [of v])
next
  case False
  have "unat (v OR push_bit 63 1) = unat v OR 2 ^ 63"
    by (simp add: bits_nat)
  also have "\<dots> = 2 ^ 63 * 1 + unat v"
    using nat_or_disj [of "unat v" 63 1] False f64_mag_less [of v]
    by (simp add: unat_f64_split [of v] or.commute del: f64_mag_less)
  finally show ?thesis using False by (simp add: orderable_nat_def unat_f64_split [of v])
qed

lemma encode_f64_orderable_eq:
  "encode_f64_orderable x = be_bytes 8 (orderable_nat (canon_f64 x))"
  unfolding encode_f64_orderable_def Let_def sign_bit_iff orderable_word
  by (simp add: canon_f64_def)

lemma length_encode_f64 [simp]: "length (encode_f64_orderable x) = 8"
  by (simp add: encode_f64_orderable_eq)

lemma neg_canon: "f64_neg (canon_f64 x) \<Longrightarrow> 0 < f64_mag (canon_f64 x)"
  by (auto simp: canon_f64_def f64_eq_zero_iff split: if_splits)

lemma cmp_orderable_nat: "cmp (orderable_nat (canon_f64 x)) (orderable_nat (canon_f64 y)) = cmp (f64_ord x) (f64_ord y)"
proof -
  have "cmp (orderable_nat a) (orderable_nat b) = cmp (f64_ord a) (f64_ord b)"
    if "f64_neg a \<Longrightarrow> 0 < f64_mag a" "f64_neg b \<Longrightarrow> 0 < f64_mag b" for a b
    using that f64_mag_less [of a] f64_mag_less [of b]
    by (auto simp: cmp_def orderable_nat_def f64_ord_def simp del: f64_mag_less split: if_splits)
  from this [OF neg_canon neg_canon, of x y] show ?thesis by simp
qed

text \<open>The 8 bytes compare like the numbers.\<close>

lemma cmp_encode_f64:
  "\<not> f64_is_nan x \<Longrightarrow> \<not> f64_is_nan y \<Longrightarrow>
     cmp (encode_f64_orderable x) (encode_f64_orderable y) = compare_f64 x y"
  unfolding encode_f64_orderable_eq cmp_be_bytes [OF orderable_nat_less orderable_nat_less]
    cmp_orderable_nat by (simp add: compare_f64_eq)

lemma clear_set_bit: "\<not> bit v n \<Longrightarrow> (v OR push_bit n 1) AND NOT (push_bit n 1) = (v :: u64)"
  by (intro bit_word_eqI) (auto simp: bit_simps)

lemma decode_f64_word:
  fixes v :: f64
  defines "ord \<equiv> (if f64_neg v then NOT v else v OR push_bit 63 1)"
  shows "(if ord AND push_bit 63 1 \<noteq> 0 then ord AND NOT (push_bit 63 1) else NOT ord) = v"
proof (cases "f64_neg v")
  case True
  then have "unat ord = 9223372036854775807 - f64_mag v"
    using orderable_word [of v] by (simp add: ord_def orderable_nat_def)
  then have "\<not> f64_neg ord" by (simp add: f64_neg_def)
  with True show ?thesis by (simp only: sign_bit_iff ord_def if_True if_False bit.double_compl)
next
  case False
  then have "unat ord = 9223372036854775808 + f64_mag v"
    using orderable_word [of v] by (simp add: ord_def orderable_nat_def)
  then have "f64_neg ord" by (simp add: f64_neg_def)
  moreover from False have "\<not> bit v 63"
    using sign_bit_iff [of v] and_exp_eq_0_iff_not_bit [of v 63] by (simp add: push_bit_of_1)
  then have "(v OR push_bit 63 1) AND NOT (push_bit 63 1) = v"
    by (rule clear_set_bit)
  ultimately show ?thesis using False by (simp only: sign_bit_iff ord_def if_True if_False)
qed

lemma decode_encode_f64: "decode_f64_orderable (encode_f64_orderable x) = canon_f64 x"
proof -
  let ?v = "canon_f64 x"
  have "of_be_bytes (encode_f64_orderable x) = orderable_nat ?v"
    by (simp add: encode_f64_orderable_eq of_be_bytes_be_bytes orderable_nat_less [simplified])
  then have "(word_of_nat (of_be_bytes (encode_f64_orderable x)) :: u64)
      = (if f64_neg ?v then NOT ?v else ?v OR push_bit 63 1)"
    by (simp only: orderable_word [symmetric] of_nat_unat ucast_id)
  then show ?thesis
    using decode_f64_word [of ?v] by (simp only: decode_f64_orderable_def Let_def)
qed

section \<open>Strings and binary data\<close>

lemma cesu8_unit_eq:
  "cesu8_unit cu =
     (let n = unat cu in
      if n < 128 then [byte n]
      else if n < 2048 then [byte (192 + n div 64), byte (128 + n mod 64)]
      else [byte (224 + n div 4096), byte (128 + n div 64 mod 64),
            byte (128 + n mod 64)])"
proof -
  define n where "n = unat cu"
  have n: "n < 65536" unfolding n_def by (rule order_less_le_trans [OF unsigned_less]) simp
  have c: "cu = 0 \<longleftrightarrow> n = 0" "cu \<le> 0x7F \<longleftrightarrow> n < 128" "cu \<le> 0x7FF \<longleftrightarrow> n < 2048"
    by (auto simp: n_def word_le_nat_alt unat_eq_0)
  have or_low: "m < 64 \<Longrightarrow> 128 OR m = 128 + m" "m < 64 \<Longrightarrow> 192 OR m = 192 + m" for m :: nat
    using nat_or_disj [of m 6 2] nat_or_disj [of m 6 3] by simp_all
  have or_high: "m < 16 \<Longrightarrow> 224 OR m = 224 + m" for m :: nat
    using nat_or_disj [of m 4 14] by simp
  have lo: "0x80 OR ucast (cu AND 0x3F) = byte (128 + n mod 64)"
    by (rule word_unat_eq_iff [THEN iffD2]) (simp add: bits_nat or_low n_def)
  have mid: "0x80 OR ucast (drop_bit 6 cu AND 0x3F) = byte (128 + n div 64 mod 64)"
    by (rule word_unat_eq_iff [THEN iffD2]) (simp add: bits_nat or_low n_def)
  have hi2: "n < 2048 \<Longrightarrow> 0xC0 OR ucast (drop_bit 6 cu) = byte (192 + n div 64)"
    by (rule word_unat_eq_iff [THEN iffD2]) (simp add: bits_nat or_low flip: n_def)
  have hi3: "0xE0 OR ucast (drop_bit 12 cu) = byte (224 + n div 4096)"
    by (rule word_unat_eq_iff [THEN iffD2]) (use n in \<open>simp add: bits_nat or_high flip: n_def\<close>)
  have one: "n < 128 \<Longrightarrow> ucast cu = byte n"
    by (rule word_unat_eq_iff [THEN iffD2]) (simp add: bits_nat flip: n_def)
  show ?thesis
    unfolding cesu8_unit_def encode_cesu8_unit_def n_def [symmetric] Let_def c
    using lo mid hi2 hi3 one by auto
qed

lemma cmp_cesu8_unit:
  "cmp (cesu8_unit x @ s) (cesu8_unit y @ t) = then_cmp (cmp x y) (cmp s t)"
proof -
  have less: "n < 65536 \<Longrightarrow> n div 4096 < 16" for n :: nat by simp
  have two: "then_cmp (cmp (m div 64) (n div 64)) (cmp (m mod 64) (n mod 64)) = cmp m n" for m n :: nat
    by (rule cmp_div_mod) simp
  have three: "then_cmp (cmp (m div 4096) (n div 4096))
      (then_cmp (cmp (m div 64 mod 64) (n div 64 mod 64)) (cmp (m mod 64) (n mod 64))) = cmp m n"
    for m n :: nat
    using cmp_div_mod [of 64 "m div 64" "n div 64"] two [of m n]
    by (simp add: div_mult2_eq [symmetric] flip: then_cmp_assoc)
  have w: "cmp x y = cmp (unat x) (unat y)"
    by (simp add: cmp_def word_less_nat_alt word_unat_eq_iff)
  have x: "unat x < 65536" and y: "unat y < 65536" by simp_all
  have lt: "a < b \<Longrightarrow> cmp a b = Less" "b < a \<Longrightarrow> cmp a b = Greater" for a b :: nat
    by simp_all
  show ?thesis
    unfolding w cesu8_unit_eq Let_def
    using less [OF x] less [OF y] two [of "unat x" "unat y"] three [of "unat x" "unat y"]
    by (simp add: lt then_cmp_assoc [symmetric])
qed

lemma cesu8_unit_nonempty: "cesu8_unit u \<noteq> []"
  by (simp add: cesu8_unit_eq Let_def)

lemma cesu8_Cons: "cesu8 (u # us) = cesu8_unit u @ cesu8 us"
  by (simp add: cesu8_def)

lemma cmp_cesu8: "cmp (cesu8 us) (cesu8 vs) = cmp us vs"
proof (induction us arbitrary: vs)
  case Nil
  show ?case
  proof (cases vs)
    case (Cons v vs')
    then show ?thesis using cesu8_unit_nonempty [of v]
      by (cases "cesu8_unit v") (simp_all add: cesu8_def)
  qed (simp add: cesu8_def)
next
  case (Cons u us)
  show ?case
  proof (cases vs)
    case Nil
    then show ?thesis using cesu8_unit_nonempty [of u]
      by (cases "cesu8_unit u") (simp_all add: cesu8_def)
  next
    case (Cons v vs')
    then show ?thesis by (simp add: cesu8_Cons cmp_cesu8_unit Cons.IH)
  qed
qed

lemma escaped_Nil [simp]: "escaped [] = [0, 0]"
  by (simp add: escaped_def)

lemma escaped_Cons [simp]: "escaped (b # bs) = escape_byte b @ escaped bs"
  by (simp add: escaped_def)

lemma cmp_escaped: "cmp (escaped xs @ s) (escaped ys @ t) = then_cmp (cmp xs ys) (cmp s t)"
proof (induction xs arbitrary: ys)
  case Nil
  show ?case by (cases ys) (auto simp: escape_byte_def cmp_def word_neq_0_conv)
next
  case (Cons x xs)
  show ?case
  proof (cases ys)
    case Nil
    then show ?thesis by (auto simp: escape_byte_def cmp_def word_neq_0_conv)
  next
    case (Cons y ys')
    then show ?thesis
      by (auto simp: escape_byte_def Cons.IH then_cmp_assoc)
        (auto simp: cmp_def word_neq_0_conv)
  qed
qed

section \<open>The encoding preserves order\<close>

lemma cmp_key_bytes_end:
  "cmp (concat (map key_bytes []) @ [TAG_ARRAY_TERMINATOR] @ s)
     (concat (map key_bytes ys) @ [TAG_ARRAY_TERMINATOR] @ t) = then_cmp (compare_items [] ys) (cmp s t)"
  "cmp (concat (map key_bytes xs) @ [TAG_ARRAY_TERMINATOR] @ s)
     (concat (map key_bytes []) @ [TAG_ARRAY_TERMINATOR] @ t) = then_cmp (compare_items xs []) (cmp s t)"
  by (cases ys; cases "hd ys"; auto simp: key_tags cmp_def)
     (cases xs; cases "hd xs"; auto simp: key_tags cmp_def)

lemma cmp_key_bytes:
  "key_no_nan a \<Longrightarrow> key_no_nan b \<Longrightarrow>
     cmp (key_bytes a @ s) (key_bytes b @ t) = then_cmp (compare_keys a b) (cmp s t)"
  "list_all key_no_nan as \<Longrightarrow> list_all key_no_nan bs \<Longrightarrow>
     cmp (concat (map key_bytes as) @ [TAG_ARRAY_TERMINATOR] @ s)
       (concat (map key_bytes bs) @ [TAG_ARRAY_TERMINATOR] @ t)
     = then_cmp (compare_items as bs) (cmp s t)"
proof (induction a b and as bs arbitrary: s t and s t rule: compare_keys_compare_items.induct)
  case (1 a b)
  show ?case
  proof (cases "type_order a = type_order b")
    case True
    with 1 show ?thesis
      by (cases a; cases b)
        (simp_all add: cmp_append_length cmp_encode_f64 cmp_escaped cmp_cesu8)
  next
    case False
    then have e: "cmp (key_bytes a @ s) (key_bytes b @ t) = cmp (type_order a) (type_order b)"
      by (cases a; cases b) (simp_all add: key_tags cmp_def)
    show ?thesis unfolding e compare_keys_type [OF False]
      using False by (simp add: cmp_def)
  qed
next
  case (2 x xs y ys)
  then show ?case
    by (cases "compare_keys x y") (simp_all add: then_cmp_assoc)
qed (rule cmp_key_bytes_end)+

section \<open>Decoding\<close>

definition MAX_KEY_DECODE_DEPTH :: nat where
  "MAX_KEY_DECODE_DEPTH = 32"

text \<open>The un-escaping loop shared (verbatim in the source) by strings and binary data.\<close>

fun unescape_loop :: "bytes \<Rightarrow> bytes \<Rightarrow> nat \<Rightarrow> key_error + (bytes \<times> nat)" where
  "unescape_loop [] acc i = Inl KeyInvalidEncoding"
| "unescape_loop (b # bs) acc i =
     (if b = 0 then
        (case bs of
           [] \<Rightarrow> Inl KeyInvalidEncoding
         | c # cs \<Rightarrow>
             if c = 0 then Inr (acc, i + 2)
             else if c = 0xFF then unescape_loop cs (acc @ [0]) (i + 2)
             else Inl KeyInvalidEncoding)
      else unescape_loop bs (acc @ [b]) (i + 1))"

fun decode_cesu8_units :: "bytes \<Rightarrow> utf16 \<Rightarrow> key_error + utf16" where
  "decode_cesu8_units [] units = Inr units"
| "decode_cesu8_units (b # bs) units =
     (if b \<le> 0x7F then decode_cesu8_units bs (units @ [ucast b])
      else if 0xC0 \<le> b \<and> b \<le> 0xDF then
        (case bs of
           [] \<Rightarrow> Inl KeyInvalidEncoding
         | b2 # bs' \<Rightarrow>
             if \<not> (0x80 \<le> b2 \<and> b2 \<le> 0xBF) then Inl KeyInvalidEncoding
             else decode_cesu8_units bs'
               (units @ [push_bit 6 (ucast (b AND 0x1F)) OR ucast (b2 AND 0x3F)]))
      else if 0xE0 \<le> b \<and> b \<le> 0xEF then
        (case bs of
           b2 # b3 # bs' \<Rightarrow>
             if \<not> (0x80 \<le> b2 \<and> b2 \<le> 0xBF) \<or> \<not> (0x80 \<le> b3 \<and> b3 \<le> 0xBF)
             then Inl KeyInvalidEncoding
             else decode_cesu8_units bs'
               (units @ [push_bit 12 (ucast (b AND 0x0F)) OR push_bit 6 (ucast (b2 AND 0x3F))
                           OR ucast (b3 AND 0x3F)])
         | _ \<Rightarrow> Inl KeyInvalidEncoding)
      else Inl KeyInvalidEncoding)"

definition decode_string_cesu8 :: "bytes \<Rightarrow> key_error + (utf16 \<times> nat)" where
  "decode_string_cesu8 bs =
     rbind (unescape_loop bs [] 0) (\<lambda>(unescaped, consumed).
       rbind (decode_cesu8_units unescaped []) (\<lambda>units. Inr (units, consumed)))"

definition decode_binary_escaped :: "bytes \<Rightarrow> key_error + (bytes \<times> nat)" where
  "decode_binary_escaped bs = unescape_loop bs [] 0"

function (domintros) decode_key_internal :: "bytes \<Rightarrow> nat \<Rightarrow> key_error + (key \<times> nat)"
and decode_key_array :: "bytes \<Rightarrow> nat \<Rightarrow> key list \<Rightarrow> nat \<Rightarrow> key_error + (key list \<times> nat)" where
  "decode_key_internal bs depth =
     (if depth > MAX_KEY_DECODE_DEPTH then Inl (KeyMaxDepthExceeded MAX_KEY_DECODE_DEPTH)
      else case bs of
        [] \<Rightarrow> Inl KeyUnexpectedEof
      | tag # rest \<Rightarrow>
          if tag = TAG_NUMBER then
            (if 9 > length bs then Inl KeyUnexpectedEof
             else let val = decode_f64_orderable (take 8 rest)
                  in if f64_is_nan val then Inl KeyInvalidValue else Inr (KNumber val, 9))
          else if tag = TAG_DATE then
            (if 9 > length bs then Inl KeyUnexpectedEof
             else let val = decode_f64_orderable (take 8 rest)
                  in if f64_is_nan val then Inl KeyInvalidValue else Inr (KDate val, 9))
          else if tag = TAG_STRING then
            rbind (decode_string_cesu8 rest) (\<lambda>(units, consumed). Inr (KString units, consumed + 1))
          else if tag = TAG_BINARY then
            rbind (decode_binary_escaped rest) (\<lambda>(data, consumed). Inr (KBinary data, consumed + 1))
          else if tag = TAG_ARRAY then
            rbind (decode_key_array rest depth [] 1) (\<lambda>(elements, n). Inr (KArray elements, n))
          else Inl KeyInvalidEncoding)"
| "decode_key_array bs depth elements n =
     (case bs of
        [] \<Rightarrow> Inl KeyUnexpectedEof
      | b # rest \<Rightarrow>
          if b = TAG_ARRAY_TERMINATOR then Inr (elements, n + 1)
          else rbind (decode_key_internal bs (depth + 1)) (\<lambda>(key, consumed).
                 decode_key_array (drop consumed bs) depth (elements @ [key]) (n + consumed)))"
  by pat_completeness auto

text \<open>The array loop makes progress: every decoded key consumes at least one byte.\<close>

lemma decode_key_consumed_pos:
  "decode_key_internal_decode_key_array_dom (Inl (bs, d)) \<Longrightarrow>
     decode_key_internal bs d = Inr (k, c) \<Longrightarrow> 0 < c"
  "decode_key_internal_decode_key_array_dom (Inr (bs, d, els, n)) \<Longrightarrow>
     decode_key_array bs d els n = Inr (ks, m) \<Longrightarrow> n < m"
proof (induction bs d and bs d els n arbitrary: k c and ks m
    rule: decode_key_internal_decode_key_array.pinduct)
  case (1 bs depth)
  have pos: "0 < c" if "decode_key_array rest depth [] (Suc 0) = Inr (a, c)" "bs = TAG_ARRAY # rest"
    "\<not> MAX_KEY_DECODE_DEPTH < depth" for rest a
    using "1.IH" [of TAG_ARRAY rest a c] that by (simp add: key_tags)
  from "1.prems" show ?case
    by (subst (asm) decode_key_internal.psimps [OF "1.hyps"])
       (auto split: if_splits list.splits prod.splits simp: Let_def dest: pos)
next
  case (2 bs depth elements n)
  have step: "n < m" if "bs = b # rest" "b \<noteq> TAG_ARRAY_TERMINATOR"
    "decode_key_internal (b # rest) (Suc depth) = Inr (a, c)"
    "decode_key_array (drop c (b # rest)) depth (elements @ [a]) (n + c) = Inr (ks, m)" for b rest a c
    using "2.IH"(2) [of b rest "(a, c)" a c ks m] that by simp
  from "2.prems" show ?case
    by (subst (asm) decode_key_array.psimps [OF "2.hyps"])
       (auto split: if_splits list.splits prod.splits dest: step)
qed

termination decode_key_internal
proof (relation "measure (case_sum (\<lambda>(bs, d). 2 * length bs) (\<lambda>(bs, d, els, n). 2 * length bs + 1))",
    goal_cases)
  case 1
  show ?case by simp
qed (auto dest!: decode_key_consumed_pos)

declare decode_key_internal.simps [simp del] decode_key_array.simps [simp del]

definition decode_key :: "bytes \<Rightarrow> key_error + (key \<times> nat)" where
  "decode_key bs = (if bs = [] then Inl KeyUnexpectedEof else decode_key_internal bs 0)"

section \<open>Round trip\<close>

lemma unescape_escaped: "unescape_loop (escaped bs @ s) acc i = Inr (acc @ bs, i + length (escaped bs))"
  by (induction bs arbitrary: acc i) (auto simp: escape_byte_def)

lemma u8_le_iff: "b \<le> c \<longleftrightarrow> unat b \<le> unat (c :: u8)"
  by (rule word_le_nat_alt)

lemma decode_cesu8_unit:
  "decode_cesu8_units (cesu8_unit u @ bs) acc = decode_cesu8_units bs (acc @ [u])"
proof -
  define n where "n = unat u"
  have n: "n < 65536" by (simp add: n_def)
  have mask: "unat (ucast (a AND 0x1F) :: u16) = unat a mod 32" "unat (ucast (a AND 0x0F) :: u16) = unat a mod 16"
    "unat (ucast (a AND 0x3F) :: u16) = unat a mod 64" for a :: u8
    by (simp_all add: bits_nat)
  have push: "unat (push_bit 6 x) = 64 * unat x mod 65536" "unat (push_bit 12 x) = 4096 * unat x mod 65536"
    for x :: u16
    by (simp_all add: bits_nat)
  have join: "unat (push_bit 6 (ucast (a AND 0x1F)) OR ucast (b AND 0x3F) :: u16) = (unat a mod 32) * 64 + unat b mod 64"
    for a b :: u8
    using nat_or_disj [of "unat b mod 64" 6 "unat a mod 32"]
    unfolding unsigned_or_eq push mask by (simp add: mult.commute)
  have join3: "unat (push_bit 12 (ucast (a AND 0x0F)) OR push_bit 6 (ucast (b AND 0x3F)) OR ucast (c AND 0x3F) :: u16)
      = (unat a mod 16) * 4096 + (unat b mod 64) * 64 + unat c mod 64" for a b c :: u8
  proof -
    have "unat b mod 64 < 64" "unat c mod 64 < 64" by simp_all
    then have "64 * (unat b mod 64) + unat c mod 64 < 2 ^ 12" by simp
    then show ?thesis
      using nat_or_disj [of "unat c mod 64" 6 "unat b mod 64"]
        nat_or_disj [of "64 * (unat b mod 64) + unat c mod 64" 12 "unat a mod 16"]
      unfolding unsigned_or_eq push mask by (simp add: mult.commute or.assoc)
  qed
  have low: "q < m \<Longrightarrow> (m * k + q) mod m = q" for q m k :: nat by simp
  consider "n < 128" | "128 \<le> n" "n < 2048" | "2048 \<le> n" by linarith
  then show ?thesis
  proof cases
    case 1
    then have "ucast (byte n) = u"
      by (intro word_unat_eq_iff [THEN iffD2]) (simp add: bits_nat n_def)
    with 1 show ?thesis by (simp add: cesu8_unit_eq Let_def u8_le_iff flip: n_def)
  next
    case 2
    have "push_bit 6 (ucast (byte (192 + n div 64) AND 0x1F)) OR ucast (byte (128 + n mod 64) AND 0x3F) = u"
    proof (rule word_unat_eq_iff [THEN iffD2])
      have "(192 + n div 64) mod 32 = n div 64" "(128 + n mod 64) mod 64 = n mod 64"
        using 2 low [of "n div 64" 32 6] low [of "n mod 64" 64 2] by simp_all
      with 2 show "unat (push_bit 6 (ucast (byte (192 + n div 64) AND 0x1F)) OR ucast (byte (128 + n mod 64) AND 0x3F) :: u16) = unat u"
        by (simp only: join) (simp flip: n_def)
    qed
    moreover have "n mod 64 \<le> 63" "n div 64 \<le> 31" using 2 by simp_all
    ultimately show ?thesis using 2 by (simp add: cesu8_unit_eq Let_def u8_le_iff flip: n_def)
  next
    case 3
    have "push_bit 12 (ucast (byte (224 + n div 4096) AND 0x0F)) OR push_bit 6 (ucast (byte (128 + n div 64 mod 64) AND 0x3F))
        OR ucast (byte (128 + n mod 64) AND 0x3F) = u"
    proof (rule word_unat_eq_iff [THEN iffD2])
      have "(224 + n div 4096) mod 16 = n div 4096" "(128 + n div 64 mod 64) mod 64 = n div 64 mod 64"
        "(128 + n mod 64) mod 64 = n mod 64"
        using n low [of "n div 4096" 16 14] low [of "n div 64 mod 64" 64 2] low [of "n mod 64" 64 2]
        by simp_all
      moreover have "n div 4096 * 4096 + (n div 64 mod 64) * 64 + n mod 64 = n"
      proof -
        have "n div 64 div 64 = n div 4096" by (simp add: div_mult2_eq [symmetric])
        then show ?thesis
          using div_mult_mod_eq [of "n div 64" 64] div_mult_mod_eq [of n 64] by linarith
      qed
      moreover have "128 + n div 64 mod 64 < 256" "128 + n mod 64 < 256" "224 + n div 4096 < 256"
        using n by simp_all
      ultimately show "unat (push_bit 12 (ucast (byte (224 + n div 4096) AND 0x0F)) OR push_bit 6 (ucast (byte (128 + n div 64 mod 64) AND 0x3F))
        OR ucast (byte (128 + n mod 64) AND 0x3F) :: u16) = unat u"
        by (simp only: join3 unat_byte) (simp flip: n_def)
    qed
    moreover have "n mod 64 \<le> 63" "n div 64 mod 64 \<le> 63" "n div 4096 \<le> 15" using n by simp_all
    ultimately show ?thesis using 3 n by (simp add: cesu8_unit_eq Let_def u8_le_iff flip: n_def)
  qed
qed

lemma decode_cesu8: "decode_cesu8_units (cesu8 us) acc = Inr (acc @ us)"
  by (induction us arbitrary: acc) (simp_all add: cesu8_def decode_cesu8_unit)

lemma decode_string_escaped:
  "decode_string_cesu8 (escaped (cesu8 us) @ s) = Inr (us, length (escaped (cesu8 us)))"
  by (simp add: decode_string_cesu8_def unescape_escaped decode_cesu8)

lemma key_bytes_first: "\<exists>b bs. key_bytes k = b # bs \<and> b \<noteq> TAG_ARRAY_TERMINATOR"
  by (cases k) (auto simp: key_tags)

lemma decode_key_bytes:
  "key_no_nan k \<Longrightarrow> key_depth k + d \<le> MAX_KEY_DECODE_DEPTH \<Longrightarrow>
     decode_key_internal (key_bytes k @ s) d = Inr (key_canon k, length (key_bytes k))"
proof (induction k arbitrary: d s)
  case (KArray ks)
  have d: "d \<le> MAX_KEY_DECODE_DEPTH"
    and ks: "\<And>k. k \<in> set ks \<Longrightarrow> key_no_nan k \<and> key_depth k + Suc d \<le> MAX_KEY_DECODE_DEPTH"
    using KArray.prems unfolding key_depth_KArray_le by (auto simp: list_all_iff)
  have loop: "decode_key_array (concat (map key_bytes ls) @ TAG_ARRAY_TERMINATOR # s) d els n
      = Inr (els @ map key_canon ls, n + length (concat (map key_bytes ls)) + 1)"
    if "set ls \<subseteq> set ks" for ls els n
    using that
  proof (induction ls arbitrary: els n)
    case Nil
    show ?case by (simp add: decode_key_array.simps)
  next
    case (Cons l ls)
    obtain b bs where b: "key_bytes l = b # bs" "b \<noteq> TAG_ARRAY_TERMINATOR"
      using key_bytes_first by blast
    have "decode_key_internal (key_bytes l @ concat (map key_bytes ls) @ TAG_ARRAY_TERMINATOR # s) (Suc d)
        = Inr (key_canon l, length (key_bytes l))"
      using KArray.IH [of l "Suc d"] Cons.prems ks [of l] by auto
    moreover have "drop (length (key_bytes l))
        (key_bytes l @ concat (map key_bytes ls) @ TAG_ARRAY_TERMINATOR # s)
        = concat (map key_bytes ls) @ TAG_ARRAY_TERMINATOR # s" by simp
    ultimately show ?case
      using Cons.IH [of "els @ [key_canon l]" "n + length (key_bytes l)"] Cons.prems b
      by (subst decode_key_array.simps) simp
  qed
  from d show ?case
    by (subst decode_key_internal.simps) (simp add: loop [of ks "[]" 1, simplified])
qed (subst decode_key_internal.simps;
     simp add: decode_encode_f64 decode_string_escaped decode_binary_escaped_def unescape_escaped)+

section \<open>What the decoder accepts\<close>

lemma unescape_loop_consumed:
  "unescape_loop bs acc i = Inr (out, n) \<Longrightarrow> i < n \<and> n \<le> i + length bs"
proof (induction bs acc i rule: unescape_loop.induct)
  case (2 b bs acc i)
  show ?case
  proof (cases "b = 0")
    case True
    with "2.prems" obtain c cs where bs: "bs = c # cs" by (cases bs) auto
    show ?thesis
    proof (cases "c = 0")
      case False
      with "2.prems" True bs have "unescape_loop cs (acc @ [0]) (i + 2) = Inr (out, n)" "c = 0xFF"
        by (simp_all split: if_splits)
      with "2.IH"(1) [OF True bs False] bs show ?thesis by simp
    qed (use "2.prems" True bs in auto)
  next
    case False
    with "2.IH"(2) [OF False] "2.prems" show ?thesis by simp
  qed
qed simp

lemma decode_string_consumed:
  "decode_string_cesu8 bs = Inr (us, n) \<Longrightarrow> 0 < n \<and> n \<le> length bs"
  by (auto simp: decode_string_cesu8_def dest: unescape_loop_consumed)

lemma decode_key_sound:
  "decode_key_internal bs d = Inr (k, c) \<Longrightarrow>
     0 < c \<and> c \<le> length bs \<and> key_no_nan k \<and> key_depth k + d \<le> MAX_KEY_DECODE_DEPTH"
  "decode_key_array bs d els n = Inr (ks, m) \<Longrightarrow> d \<le> MAX_KEY_DECODE_DEPTH \<Longrightarrow>
     (\<forall>k \<in> set els. key_no_nan k \<and> key_depth k + Suc d \<le> MAX_KEY_DECODE_DEPTH) \<Longrightarrow>
     n < m \<and> m \<le> n + length bs \<and>
     (\<forall>k \<in> set ks. key_no_nan k \<and> key_depth k + Suc d \<le> MAX_KEY_DECODE_DEPTH)"
proof (induction bs d and bs d els n arbitrary: k c and ks m
    rule: decode_key_internal_decode_key_array.induct)
  case (1 bs depth)
  have array: "0 < c \<and> c \<le> length bs \<and> key_no_nan (KArray ks) \<and>
      key_depth (KArray ks) + depth \<le> MAX_KEY_DECODE_DEPTH"
    if "decode_key_array rest depth [] (Suc 0) = Inr (ks, c)" "bs = TAG_ARRAY # rest"
      "\<not> MAX_KEY_DECODE_DEPTH < depth" for rest ks
  proof -
    from "1.IH" [of TAG_ARRAY rest ks c] that
    have "1 < c \<and> c \<le> 1 + length rest \<and>
        (\<forall>k \<in> set ks. key_no_nan k \<and> key_depth k + Suc depth \<le> MAX_KEY_DECODE_DEPTH)"
      by simp
    with that show ?thesis unfolding key_depth_KArray_le by (simp add: list_all_iff)
  qed
  from "1.prems" obtain tag rest where bs: "bs = tag # rest" and d: "\<not> MAX_KEY_DECODE_DEPTH < depth"
    by (cases bs) (auto simp: decode_key_internal.simps split: if_splits)
  note eq = "1.prems" [unfolded bs decode_key_internal.simps [of "tag # rest"] if_not_P [OF d] list.case]
  consider "tag = TAG_NUMBER \<or> tag = TAG_DATE" | "tag = TAG_STRING" | "tag = TAG_BINARY" | "tag = TAG_ARRAY"
    using eq by (auto split: if_splits)
  then show ?case
  proof cases
    case 1
    with eq d show ?thesis by (auto simp: bs Let_def split: if_splits)
  next
    case 2
    with eq d show ?thesis by (auto simp: bs dest: decode_string_consumed)
  next
    case 3
    with eq d show ?thesis by (auto simp: bs decode_binary_escaped_def dest: unescape_loop_consumed)
  next
    case 4
    with eq obtain ks where "decode_key_array rest depth [] (Suc 0) = Inr (ks, c)" "k = KArray ks" by auto
    with array [of rest ks] 4 bs d show ?thesis by simp
  qed
next
  case (2 bs depth elements n)
  have step: "n < m \<and> m \<le> n + length bs \<and>
      (\<forall>k \<in> set ks. key_no_nan k \<and> key_depth k + Suc depth \<le> MAX_KEY_DECODE_DEPTH)"
    if "bs = b # rest" "b \<noteq> TAG_ARRAY_TERMINATOR"
    "decode_key_internal (b # rest) (Suc depth) = Inr (a, c)"
    "decode_key_array (drop c (b # rest)) depth (elements @ [a]) (n + c) = Inr (ks, m)" for b rest a c
  proof -
    have "decode_key_internal bs (depth + 1) = Inr (a, c)" using that(1,3) by simp
    note ih1 = "2.IH"(1) [OF that(1,2) this] and ih2 = "2.IH"(2) [OF that(1,2) this refl]
    from ih1 have 1: "0 < c" "c \<le> length bs" "key_no_nan a" "key_depth a + Suc depth \<le> MAX_KEY_DECODE_DEPTH"
      by simp_all
    then have els: "\<forall>k \<in> set (elements @ [a]). key_no_nan k \<and> key_depth k + Suc depth \<le> MAX_KEY_DECODE_DEPTH"
      using "2.prems"(3) by simp
    have "decode_key_array (drop c bs) depth (elements @ [a]) (n + c) = Inr (ks, m)"
      using that(1,4) by (simp only:)
    from ih2 [OF this "2.prems"(2) els] 1(2) show ?thesis by simp
  qed
  obtain b rest where bs: "bs = b # rest"
    using "2.prems"(1) by (cases bs) (simp_all add: decode_key_array.simps)
  note eq = "2.prems"(1) [unfolded bs decode_key_array.simps [of "b # rest"] list.case]
  show ?case
  proof (cases "b = TAG_ARRAY_TERMINATOR")
    case True
    with eq "2.prems"(3) show ?thesis by (simp add: bs)
  next
    case False
    with eq obtain a c where "decode_key_internal (b # rest) (Suc depth) = Inr (a, c)"
      "decode_key_array (drop c (b # rest)) depth (elements @ [a]) (n + c) = Inr (ks, m)"
      by auto
    then show ?thesis by (rule step [OF bs False])
  qed
qed

end
