(* ===== verification/Key_Order.thy ===== *)
theory Key_Order
  imports Key_Codec
begin

text \<open>
  \<open>impl Ord for Key\<close> (\<open>key/compare.rs\<close>): on valid keys the comparison is a total order up
  to the sign of zero, and the encoding is injective up to the same. \<open>ord_key\<close> is the type of
  valid keys without negative zeros, an instance of the library's \<open>linorder\<close>, and
  \<open>key_order\<close> states the interface of an order-preserving encoding that the storage backends
  rely on: they compare encoded keys byte by byte and never decode them.
\<close>

lemma compare_keys_cmp:
  "key_no_nan a \<Longrightarrow> key_no_nan b \<Longrightarrow> compare_keys a b = cmp (key_bytes a) (key_bytes b)"
  using cmp_key_bytes(1) [of a b "[]" "[]"] by simp

lemma compare_Equal_iff:
  "key_no_nan a \<Longrightarrow> key_no_nan b \<Longrightarrow> compare_keys a b = Equal \<longleftrightarrow> key_canon a = key_canon b"
  "list_all key_no_nan as \<Longrightarrow> list_all key_no_nan bs \<Longrightarrow>
     compare_items as bs = Equal \<longleftrightarrow> map key_canon as = map key_canon bs"
proof (induction a b and as bs rule: compare_keys_compare_items.induct)
  case (1 a b)
  show ?case
  proof (cases "type_order a = type_order b")
    case True
    with 1 show ?thesis
      by (cases a; cases b) (simp_all add: compare_f64_eq canon_f64_eq_iff)
  next
    case False
    then have "key_canon a \<noteq> key_canon b" by (cases a; cases b) auto
    with False show ?thesis by (simp add: compare_keys_type)
  qed
next
  case (2 x xs y ys)
  then show ?case by (auto simp: then_cmp_eq_Equal)
qed auto

lemma key_bytes_canon [simp]: "key_bytes (key_canon k) = key_bytes k"
  by (induction k) (simp_all add: encode_f64_orderable_eq o_def cong: map_cong)

lemma key_no_nan_canon [simp]: "key_no_nan (key_canon k) = key_no_nan k"
  by (induction k) (auto simp: list_all_iff)

lemma key_bytes_eq_iff:
  "key_no_nan a \<Longrightarrow> key_no_nan b \<Longrightarrow> key_bytes a = key_bytes b \<longleftrightarrow> key_canon a = key_canon b"
  by (metis cmp_Equal_iff compare_Equal_iff(1) compare_keys_cmp)

section \<open>Canonical keys are linearly ordered\<close>

typedef ord_key = "{k. key_no_nan k \<and> key_canon k = k}"
  by (intro exI [of _ "KBinary []"]) simp

setup_lifting type_definition_ord_key

lift_definition ord_key_bytes :: "ord_key \<Rightarrow> bytes" is key_bytes .

lift_definition ord_key_cmp :: "ord_key \<Rightarrow> ord_key \<Rightarrow> ordering" is compare_keys .

lemma ord_key_cmp_eq: "ord_key_cmp a b = cmp (ord_key_bytes a) (ord_key_bytes b)"
  by transfer (simp add: compare_keys_cmp)

lemma ord_key_bytes_inject: "ord_key_bytes a = ord_key_bytes b \<longleftrightarrow> a = b"
  by transfer (auto simp: key_bytes_eq_iff)

instantiation ord_key :: linorder
begin

definition less_eq_ord_key :: "ord_key \<Rightarrow> ord_key \<Rightarrow> bool" where
  "less_eq_ord_key a b \<longleftrightarrow> ord_key_cmp a b \<noteq> Greater"

definition less_ord_key :: "ord_key \<Rightarrow> ord_key \<Rightarrow> bool" where
  "less_ord_key a b \<longleftrightarrow> ord_key_cmp a b = Less"

instance
  by standard
    (auto simp: less_eq_ord_key_def less_ord_key_def ord_key_cmp_eq ord_key_bytes_inject [symmetric])

end

section \<open>The interface the backends rely on\<close>

locale key_order =
  fixes enc :: "'k \<Rightarrow> bytes"
    and compare :: "'k \<Rightarrow> 'k \<Rightarrow> ordering"
    and valid :: "'k \<Rightarrow> bool"
  assumes enc_cmp: "valid a \<Longrightarrow> valid b \<Longrightarrow> cmp (enc a) (enc b) = compare a b"
    and enc_prefix: "valid a \<Longrightarrow> valid b \<Longrightarrow> enc a @ s = enc b @ t \<Longrightarrow> enc a = enc b"
begin

lemma compare_refl: "valid a \<Longrightarrow> compare a a = Equal"
  using enc_cmp [of a a] by simp

lemma compare_antisym: "valid a \<Longrightarrow> valid b \<Longrightarrow> compare a b = Less \<longleftrightarrow> compare b a = Greater"
  by (simp flip: enc_cmp)

lemma compare_trans:
  assumes "valid a" "valid b" "valid c" "compare a b \<noteq> Greater" "compare b c \<noteq> Greater"
  shows "compare a c \<noteq> Greater"
  using assms(4,5)
  unfolding enc_cmp [OF assms(1,2), symmetric] enc_cmp [OF assms(2,3), symmetric]
    enc_cmp [OF assms(1,3), symmetric] cmp_Greater_iff
  by simp

lemma compare_Equal_subst:
  assumes "valid a" "valid b" "valid c" "compare a b = Equal"
  shows "compare a c = compare b c"
proof -
  have "enc a = enc b" using enc_cmp [OF assms(1,2)] assms(4) by (metis cmp_Equal_iff)
  then show ?thesis using enc_cmp [OF assms(1,3)] enc_cmp [OF assms(2,3)] by simp
qed

end

interpretation key_v1: key_order key_bytes compare_keys key_no_nan
proof
  fix a b :: key and s t :: bytes
  assume ab: "key_no_nan a" "key_no_nan b"
  then show "cmp (key_bytes a) (key_bytes b) = compare_keys a b"
    by (simp add: compare_keys_cmp)
  assume "key_bytes a @ s = key_bytes b @ t"
  then have "then_cmp (compare_keys a b) (cmp s t) = Equal"
    using cmp_key_bytes(1) [OF ab, of s t] by simp
  with ab show "key_bytes a = key_bytes b"
    by (simp add: then_cmp_eq_Equal compare_keys_cmp)
qed

section \<open>Properties\<close>

text \<open>C10. The encoding of a valid key preserves the order of keys: encoding two keys that are
  accepted by the limits and comparing the bytes gives exactly the comparison of the keys, whatever
  bytes follow the encodings (so it also holds inside composite index keys).\<close>

theorem encode_key_preserves_order:
  assumes "encode_key a [] lim = (Inr (), ea)" "encode_key b [] lim = (Inr (), eb)"
  shows "cmp (ea @ s) (eb @ t) = then_cmp (compare_keys a b) (cmp s t)"
proof -
  have "key_no_nan k \<and> e = key_bytes k" if "encode_key k [] lim = (Inr (), e)" for k e
    using that validate_ok_iff(1) [of k 0 lim]
    by (auto simp: encode_key_eq validate_def split: sum.splits if_splits)
  with assms show ?thesis using cmp_key_bytes(1) by blast
qed

theorem encode_key_preserves_order_witness:
  "cmp [0x40, 1, 0, 0 :: u8] [0x50, 0] = compare_keys (KBinary [1]) (KArray [])"
proof -
  have v: "validate (KBinary [1]) default_limits = Inr ()" "validate (KArray []) default_limits = Inr ()"
    by (simp_all add: validate_def validate_recursive.simps)
  have "encode_key (KBinary [1]) [] default_limits = (Inr (), [0x40, 1, 0, 0])"
    "encode_key (KArray []) [] default_limits = (Inr (), [0x50, 0])"
    by (simp_all add: encode_key_eq v key_tags escape_byte_def)
  from encode_key_preserves_order [OF this, of "[]" "[]"] show ?thesis by simp
qed

text \<open>C11. Decoding an encoded key returns the key with negative zeros made positive and the number
  of bytes of its encoding, whatever follows it, provided the encoder's depth limit is not above the
  decoder's constant.\<close>

theorem decode_encode_key:
  assumes "encode_key k out lim = (Inr (), out')" "max_key_depth lim \<le> MAX_KEY_DECODE_DEPTH"
  shows "decode_key (drop (length out) out' @ rest) = Inr (key_canon k, length out' - length out)"
proof -
  have k: "key_no_nan k" "key_depth k + 0 \<le> max_key_depth lim" "out' = out @ key_bytes k"
    using assms(1) validate_ok_iff(1) [of k 0 lim]
    by (auto simp: encode_key_eq validate_def split: sum.splits if_splits)
  then have "decode_key_internal (key_bytes k @ rest) 0 = Inr (key_canon k, length (key_bytes k))"
    using decode_key_bytes assms(2) by (meson order.trans)
  then show ?thesis using k(3) key_bytes_first [of k] by (auto simp: decode_key_def)
qed

theorem decode_encode_key_witness:
  "decode_key ([0x50, 0x40, 7, 0, 0, 0] @ [9]) = Inr (KArray [KBinary [7]], 6)"
proof -
  have v: "validate (KArray [KBinary [7]]) default_limits = Inr ()"
    by (simp add: validate_def validate_recursive.simps)
  have "encode_key (KArray [KBinary [7]]) [1] default_limits = (Inr (), [1, 0x50, 0x40, 7, 0, 0, 0])"
    by (simp add: encode_key_eq v key_tags escape_byte_def)
  from decode_encode_key [OF this, of "[9]"] show ?thesis
    by (simp add: MAX_KEY_DECODE_DEPTH_def)
qed

text \<open>C27. Encoding is all or nothing. Validation accepts exactly the keys without NaN that are nested no
  deeper than the limit; it knows no size. Encoding succeeds exactly on the keys it accepts whose encoding
  fits the size limit, and on any error, of the validation or of the size, the output buffer is
  unchanged.\<close>

theorem encode_key_ok_iff:
  "(validate k lim = Inr () \<longleftrightarrow> key_no_nan k \<and> key_depth k \<le> max_key_depth lim) \<and>
   encode_key k out lim =
     (if key_no_nan k \<and> key_depth k \<le> max_key_depth lim \<and> length (key_bytes k) \<le> max_key_len lim
      then (Inr (), out @ key_bytes k)
      else (Inl (case validate k lim of Inl e \<Rightarrow> e
                 | Inr _ \<Rightarrow> KeyTooLarge (max_key_len lim) (length (key_bytes k))), out))"
  using validate_ok_iff(1) [of k 0 lim]
  by (cases "validate k lim") (auto simp: encode_key_eq validate_def)

text \<open>On valid keys the comparison of the source is a total order up to the sign of zeros: two
  keys compare equal exactly when they differ only there, exactly when their encodings are equal,
  and the comparison is antisymmetric and transitive.\<close>

theorem compare_keys_total_order:
  assumes "key_no_nan a" "key_no_nan b" "key_no_nan c"
  shows "(compare_keys a b = Equal \<longleftrightarrow> key_canon a = key_canon b)
    \<and> (compare_keys a b = Equal \<longleftrightarrow> key_bytes a = key_bytes b)
    \<and> (compare_keys a b = Less \<longleftrightarrow> compare_keys b a = Greater)
    \<and> (compare_keys a b \<noteq> Greater \<and> compare_keys b c \<noteq> Greater \<longrightarrow> compare_keys a c \<noteq> Greater)"
  using compare_Equal_iff(1) [OF assms(1,2)] key_bytes_eq_iff [OF assms(1,2)]
    key_v1.compare_antisym [OF assms(1,2)] key_v1.compare_trans [OF assms]
  by blast

theorem compare_keys_total_order_witness:
  "compare_keys (KString [1]) (KBinary []) = Less \<longleftrightarrow> compare_keys (KBinary []) (KString [1]) = Greater"
  using compare_keys_total_order [of "KString [1]" "KBinary []" "KArray []"] by simp

text \<open>C28. Whatever bytes the decoder is given, a decoded key was read from a non-empty part of the
  input, contains no NaN and is nested at most 32 deep: hostile input can neither stall the caller
  nor produce a key the engine would reject.\<close>

theorem decode_key_safe:
  assumes "decode_key bs = Inr (k, n)"
  shows "0 < n \<and> n \<le> length bs \<and> key_no_nan k \<and> key_depth k \<le> MAX_KEY_DECODE_DEPTH"
  using decode_key_sound(1) [of bs 0 k n] assms by (auto simp: decode_key_def split: if_splits)

theorem decode_key_safe_witness:
  "decode_key [0x40, 5, 0, 0, 9] = Inr (KBinary [5], 4) \<and> (0::nat) < 4 \<and> (4::nat) \<le> length [0x40, 5, 0, 0, 9 :: u8]"
proof -
  have "decode_key [0x40, 5, 0, 0, 9] = Inr (KBinary [5], 4)"
    by (simp add: decode_key_def decode_key_internal.simps MAX_KEY_DECODE_DEPTH_def key_tags
        decode_binary_escaped_def)
  with decode_key_safe [OF this] show ?thesis by simp
qed

end
