(* ===== verification/Proto.thy ===== *)
theory Proto
  imports Key_Order
begin

text \<open>
  Identifiers, modes and directions (\<open>proto.rs\<close>) and encoded key ranges
  (\<open>key/range.rs\<close>). Identifiers are unsigned 64-bit counters that only grow by one per
  creation; they are natural numbers here.
\<close>

type_synonym store_id = nat
type_synonym index_id = nat
type_synonym txn_id = nat
type_synonym request_id = nat
type_synonym cursor_id = nat
type_synonym connection_id = nat

datatype txn_mode = ReadOnly | ReadWrite | VersionChange

datatype durability = DurDefault | DurStrict | DurRelaxed

datatype direction = Next | NextUnique | Prev | PrevUnique

fun is_unique :: "direction \<Rightarrow> bool" where
  "is_unique d = (d = NextUnique \<or> d = PrevUnique)"

fun is_prev :: "direction \<Rightarrow> bool" where
  "is_prev d = (d = Prev \<or> d = PrevUnique)"

datatype source_ref = SrcStore store_id | SrcIndex store_id index_id

section \<open>Encoded ranges\<close>

record encoded_range =
  lower :: "(bytes \<times> bool) option"
  upper :: "(bytes \<times> bool) option"

definition range_all :: encoded_range where
  "range_all = \<lparr>lower = None, upper = None\<rparr>"

definition range_only :: "bytes \<Rightarrow> encoded_range" where
  "range_only key = \<lparr>lower = Some (key, False), upper = Some (key, False)\<rparr>"

definition range_lower_bound :: "bytes \<Rightarrow> bool \<Rightarrow> encoded_range" where
  "range_lower_bound key open = \<lparr>lower = Some (key, open), upper = None\<rparr>"

definition range_upper_bound :: "bytes \<Rightarrow> bool \<Rightarrow> encoded_range" where
  "range_upper_bound key open = \<lparr>lower = None, upper = Some (key, open)\<rparr>"

definition range_bound :: "bytes \<Rightarrow> bool \<Rightarrow> bytes \<Rightarrow> bool \<Rightarrow> encoded_range" where
  "range_bound lo lo_open hi hi_open =
     \<lparr>lower = Some (lo, lo_open), upper = Some (hi, hi_open)\<rparr>"

definition contains :: "encoded_range \<Rightarrow> bytes \<Rightarrow> bool" where
  "contains r key =
     (let below = (case lower r of
                     None \<Rightarrow> False
                   | Some (lo, open) \<Rightarrow>
                       (case cmp key lo of Less \<Rightarrow> True | Equal \<Rightarrow> open | Greater \<Rightarrow> False));
          above = (case upper r of
                     None \<Rightarrow> False
                   | Some (hi, open) \<Rightarrow>
                       (case cmp key hi of Greater \<Rightarrow> True | Equal \<Rightarrow> open | Less \<Rightarrow> False))
      in if below then False else if above then False else True)"

definition above_lower :: "encoded_range \<Rightarrow> bytes \<Rightarrow> bool" where
  "above_lower r key = (case lower r of None \<Rightarrow> True
     | Some (lo, open) \<Rightarrow> if open then lo < key else lo \<le> key)"

definition below_upper :: "encoded_range \<Rightarrow> bytes \<Rightarrow> bool" where
  "below_upper r key = (case upper r of None \<Rightarrow> True
     | Some (hi, open) \<Rightarrow> if open then key < hi else key \<le> hi)"

lemma contains_iff: "contains r key \<longleftrightarrow> above_lower r key \<and> below_upper r key"
  by (auto simp: contains_def above_lower_def below_upper_def cmp_def Let_def split: option.splits)

lemma contains_all [simp]: "contains range_all key"
  by (simp add: contains_iff above_lower_def below_upper_def range_all_def)

lemma contains_only [simp]: "contains (range_only key) k \<longleftrightarrow> k = key"
  by (auto simp: contains_iff above_lower_def below_upper_def range_only_def)

text \<open>A range is convex: what lies between two members is a member.\<close>

lemma contains_convex:
  "contains r a \<Longrightarrow> contains r c \<Longrightarrow> a \<le> b \<Longrightarrow> b \<le> c \<Longrightarrow> contains r b"
  by (auto simp: contains_iff above_lower_def below_upper_def split: option.splits if_splits)

lemma above_lower_mono: "above_lower r a \<Longrightarrow> a \<le> b \<Longrightarrow> above_lower r b"
  by (auto simp: above_lower_def split: option.splits if_splits)

lemma below_upper_mono: "below_upper r b \<Longrightarrow> a \<le> b \<Longrightarrow> below_upper r a"
  by (auto simp: below_upper_def split: option.splits if_splits)

text \<open>C29. Checking encoded bytes against an encoded range is checking the key against the bounds:
  a valid key lies in the range made from two encoded bounds exactly when it compares above the
  lower and below the upper one, with equality allowed at closed ends only.\<close>

theorem contains_encoded_bound:
  assumes "key_no_nan lo" "key_no_nan hi" "key_no_nan k"
  shows "contains (range_bound (key_bytes lo) lo_open (key_bytes hi) hi_open) (key_bytes k)
    \<longleftrightarrow> (compare_keys lo k = Less \<or> compare_keys lo k = Equal \<and> \<not> lo_open)
      \<and> (compare_keys k hi = Less \<or> compare_keys k hi = Equal \<and> \<not> hi_open)"
  using assms
  by (auto simp: contains_iff above_lower_def below_upper_def range_bound_def
      key_v1.enc_cmp [symmetric])

theorem contains_encoded_bound_witness:
  "contains (range_bound (key_bytes (KBinary [1])) False (key_bytes (KBinary [9])) True)
     (key_bytes (KBinary [1]))
   \<and> \<not> contains (range_bound (key_bytes (KBinary [1])) False (key_bytes (KBinary [9])) True)
     (key_bytes (KBinary [9]))"
  using contains_encoded_bound [of "KBinary [1]" "KBinary [9]" "KBinary [1]" False True]
    contains_encoded_bound [of "KBinary [1]" "KBinary [9]" "KBinary [9]" False True]
  by (simp add: cmp_def)

end
