(* ===== verification/Idb_Error.thy ===== *)
theory Idb_Error
  imports Key_Value
begin

text \<open>
  The error types of \<open>error.rs\<close> and \<open>backend/error.rs\<close> and the conversions
  between them. The constructors carry the numeric payload of the sources; the human readable
  messages are not modelled, so two errors that differ only in their text are equal here.
\<close>

datatype idb_error =
    IdbAbort
  | IdbConstraint
  | IdbDataClone
  | IdbData
  | IdbInvalidAccess
  | IdbInvalidState
  | IdbNotFound
  | IdbNotReadable
  | IdbSyntax
  | IdbReadOnly
  | IdbTransactionInactive
  | IdbUnknown
  | IdbVersion
  | IdbQuotaExceeded nat nat

datatype key_path_error =
    KpInvalidSyntax
  | KpEmptyArray
  | KpCannotInjectIntoPrimitive

datatype sc_error =
    ScDataClone
  | ScUnsupportedVersion u8
  | ScInvalidMagic
  | ScChecksumMismatch u32 u32
  | ScMaxDepthExceeded nat
  | ScValueTooLarge nat nat
  | ScInvalidMemoRef nat
  | ScUnknownTag u8
  | ScCorruptedPayload
  | ScUnexpectedEof

datatype backend_error =
    BeConstraint
  | BeNotFound
  | BeInvalidRange
  | BeLocked
  | BeCorrupted
  | BeIo
  | BeQuotaExceeded nat nat
  | BeInternal

definition idb_of_key_error :: "key_error \<Rightarrow> idb_error" where
  "idb_of_key_error e = IdbData"

definition idb_of_key_path_error :: "key_path_error \<Rightarrow> idb_error" where
  "idb_of_key_path_error e = IdbData"

definition idb_of_sc_error :: "sc_error \<Rightarrow> idb_error" where
  "idb_of_sc_error e = IdbDataClone"

end
