(* ===== verification/Key_Generator.thy ===== *)
theory Key_Generator
  imports Idb_Error
begin

text \<open>
  The auto-increment key generator of \<open>engine/keygen.rs\<close>: a floating point counter and a
  stack of saved values, one per open request. The stack is the \<open>Vec\<close> of the source, its
  top the last element.
\<close>

definition MAX_KEY :: f64 where
  "MAX_KEY = f64_of_int (2 ^ 53 - 1)"

record key_generator =
  kg_current :: f64
  kg_save_stack :: "f64 list"

definition kg_new :: "f64 \<Rightarrow> key_generator" where
  "kg_new initial = \<lparr>kg_current = initial, kg_save_stack = []\<rparr>"

definition kg_generate :: "key_generator \<Rightarrow> (idb_error + f64) \<times> key_generator" where
  "kg_generate g =
     (if f64_lt MAX_KEY (kg_current g) then (Inl IdbConstraint, g)
      else (Inr (kg_current g), g\<lparr>kg_current := f64_add (kg_current g) (f64_of_int 1)\<rparr>))"

definition kg_possibly_update :: "key_generator \<Rightarrow> f64 \<Rightarrow> key_generator" where
  "kg_possibly_update g key =
     (if f64_le (kg_current g) key
      then g\<lparr>kg_current := f64_add (f64_floor key) (f64_of_int 1)\<rparr> else g)"

definition kg_begin_request :: "key_generator \<Rightarrow> key_generator" where
  "kg_begin_request g = g\<lparr>kg_save_stack := kg_save_stack g @ [kg_current g]\<rparr>"

definition kg_commit_request :: "key_generator \<Rightarrow> (idb_error + unit) \<times> key_generator" where
  "kg_commit_request g =
     (if kg_save_stack g = [] then (Inl IdbInvalidState, g)
      else (Inr (), g\<lparr>kg_save_stack := butlast (kg_save_stack g)\<rparr>))"

definition kg_rollback_request :: "key_generator \<Rightarrow> (idb_error + unit) \<times> key_generator" where
  "kg_rollback_request g =
     (if kg_save_stack g = [] then (Inl IdbInvalidState, g)
      else (Inr (), g\<lparr>kg_current := last (kg_save_stack g),
                       kg_save_stack := butlast (kg_save_stack g)\<rparr>))"

section \<open>Generation\<close>

lemma kg_generate_int:
  assumes "\<bar>n\<bar> \<le> 2 ^ 53 - 1" "kg_current g = f64_of_int n"
  shows "kg_generate g = (Inr (f64_of_int n), g\<lparr>kg_current := f64_of_int (n + 1)\<rparr>)"
  using assms by (simp add: kg_generate_def MAX_KEY_def exact_int)

lemma kg_generate_overflow:
  "f64_lt MAX_KEY (kg_current g) \<Longrightarrow> kg_generate g = (Inl IdbConstraint, g)"
  by (simp add: kg_generate_def)

text \<open>A run of \<open>m\<close> generations, stopping at the first error.\<close>

fun kg_generate_many :: "nat \<Rightarrow> key_generator \<Rightarrow> (idb_error + f64 list) \<times> key_generator" where
  "kg_generate_many 0 g = (Inr [], g)"
| "kg_generate_many (Suc m) g =
     (case kg_generate g of
        (Inl e, g') \<Rightarrow> (Inl e, g')
      | (Inr k, g') \<Rightarrow>
          (case kg_generate_many m g' of
             (Inl e, g'') \<Rightarrow> (Inl e, g'')
           | (Inr ks, g'') \<Rightarrow> (Inr (k # ks), g'')))"

lemma kg_generate_many_int:
  "kg_current g = f64_of_int (int n) \<Longrightarrow> n + m \<le> 2 ^ 53 \<Longrightarrow>
     kg_generate_many m g =
       (Inr (map (\<lambda>i. f64_of_int (int i)) [n..<n + m]), g\<lparr>kg_current := f64_of_int (int (n + m))\<rparr>)"
proof (induction m arbitrary: n g)
  case (Suc m)
  have "kg_generate g = (Inr (f64_of_int (int n)), g\<lparr>kg_current := f64_of_int (int (Suc n))\<rparr>)"
    using Suc.prems by (subst kg_generate_int [of "int n"]) (simp_all add: add.commute)
  moreover have "[n..<n + Suc m] = n # [Suc n..<Suc n + m]"
    by (simp add: upt_conv_Cons)
  ultimately show ?case
    using Suc.IH [of "g\<lparr>kg_current := f64_of_int (int (Suc n))\<rparr>" "Suc n"] Suc.prems by simp
qed simp

section \<open>User keys\<close>

text \<open>Rounding never goes below a represented value that is not above the argument.\<close>

lemma round_mag_ge:
  assumes "mag_scaled m \<le> n" "m \<le> f64_inf_mag"
  shows "m \<le> round_mag n"
proof (cases "n = 0")
  case True
  then show ?thesis using assms mag_scaled_eq_0_iff [of m] by simp
next
  case False
  define k where "k = bitlen n - 53"
  define q where "q = n div 2 ^ k"
  have b: "2 ^ (bitlen n - 1) \<le> n" "n < 2 ^ bitlen n" "0 < bitlen n"
    using bitlen_bounds [of n] False by auto
  have "m \<le> k * 2 ^ 52 + q"
  proof (cases "53 < bitlen n")
    case True
    then have e: "bitlen n - 1 = 52 + k" "bitlen n = 53 + k" by (simp_all add: k_def)
    have "2 ^ 52 * 2 ^ k \<le> n" using b(1) unfolding e(1) power_add .
    then have q1: "2 ^ 52 \<le> q" by (simp add: q_def less_eq_div_iff_mult_less_eq)
    have "n < 2 ^ 53 * 2 ^ k" using b(2) unfolding e(2) power_add .
    then have q2: "q < 2 ^ 53" by (simp add: q_def div_less_iff_less_mult)
    have nxt: "mag_scaled (Suc (k * 2 ^ 52 + q)) = Suc q * 2 ^ k"
    proof (cases "Suc q < 2 ^ 53")
      case True
      then show ?thesis using mag_scaled_eq [of "Suc q" k] q1 by simp
    next
      case False
      then have sq: "Suc q = 2 ^ 53" using q2 by simp
      have "Suc (k * 2 ^ 52 + q) = Suc k * 2 ^ 52 + 2 ^ 52" using sq by simp
      then have "mag_scaled (Suc (k * 2 ^ 52 + q)) = 2 ^ 52 * 2 ^ Suc k"
        using mag_scaled_eq [of "2 ^ 52" "Suc k"] by (simp only:) simp
      then show ?thesis unfolding sq by simp
    qed
    have "n < Suc q * 2 ^ k"
    proof -
      have "n mod 2 ^ k < 2 ^ k" by simp
      then have "q * 2 ^ k + n mod 2 ^ k < q * 2 ^ k + 2 ^ k" by simp
      moreover have "q * 2 ^ k + n mod 2 ^ k = n" unfolding q_def by (rule div_mult_mod_eq)
      ultimately show ?thesis by simp
    qed
    then have "mag_scaled m < mag_scaled (Suc (k * 2 ^ 52 + q))" using assms(1) nxt by simp
    then show ?thesis by (simp add: mag_scaled_less_iff)
  next
    case False
    then have "k = 0" by (simp add: k_def)
    then have q: "q = n" by (simp add: q_def)
    have "n < 2 ^ 53" using b(2) False power_increasing [of "bitlen n" 53 "2::nat"] by simp
    moreover have "mag_scaled (2 ^ 53) = 2 ^ 53" by (simp add: mag_scaled_def)
    ultimately have "mag_scaled m < mag_scaled (2 ^ 53)" using assms(1) by simp
    then have "m < 2 ^ 53" by (simp only: mag_scaled_less_iff)
    then have "mag_scaled m = m"
      by (cases "m < 2 ^ 52") (auto simp: mag_scaled_def div_nat_eqI mod_if)
    then show ?thesis using assms(1) q by simp
  qed
  then show ?thesis
    using assms(2) by (simp add: round_mag_def Let_def flip: k_def q_def)
qed

text \<open>The generator's invariant: its value is an integer from 1 to \<open>2 ^ 53\<close>, or above every
  key it may issue.\<close>

definition kg_ok :: "f64 \<Rightarrow> bool" where
  "kg_ok c \<longleftrightarrow> (\<exists>n. 1 \<le> n \<and> n \<le> 2 ^ 53 \<and> c = f64_of_int n) \<or> f64_lt MAX_KEY c"

definition kg_inv :: "key_generator \<Rightarrow> bool" where
  "kg_inv g \<longleftrightarrow> kg_ok (kg_current g) \<and> (\<forall>c \<in> set (kg_save_stack g). kg_ok c)"

lemma kg_inv_new: "kg_inv (kg_new (f64_of_int 1))"
  by (force simp: kg_inv_def kg_ok_def kg_new_def)

lemma kg_ok_above_max: "f64_lt MAX_KEY c \<Longrightarrow> kg_ok c"
  by (simp add: kg_ok_def)

lemma kg_ok_of_int: "1 \<le> n \<Longrightarrow> n \<le> 2 ^ 53 \<Longrightarrow> kg_ok (f64_of_int n)"
  by (auto simp: kg_ok_def)

text \<open>\<open>big_mag\<close> is the magnitude of \<open>2 ^ 53\<close>.\<close>

definition big_mag :: nat where
  "big_mag = 1075 * 2 ^ 52 + 2 ^ 52"

lemma mag_scaled_big: "mag_scaled big_mag = 2 ^ 53 * f64_unit"
proof -
  have "mag_scaled big_mag = 2 ^ 52 * 2 ^ 1075"
    unfolding big_mag_def by (rule mag_scaled_eq) simp_all
  then show ?thesis by (simp only: f64_unit_def power_add [symmetric]) simp
qed

lemma big_mag_le_inf: "big_mag \<le> f64_inf_mag"
  by (simp add: big_mag_def f64_inf_mag_def)

lemma above_max_if_big:
  assumes "\<not> f64_neg c" "\<not> f64_is_nan c" "big_mag \<le> f64_mag c"
  shows "f64_lt MAX_KEY c"
proof -
  have "mag_scaled big_mag \<le> mag_scaled (f64_mag c)"
    using assms(3) strict_mono_less_eq [OF strict_mono_mag_scaled] by blast
  then have "2 ^ 53 * f64_unit \<le> mag_scaled (f64_mag c)" by (simp only: mag_scaled_big)
  then have "int (2 ^ 53 * f64_unit) \<le> f64_scaled c" using assms(1) by (simp add: f64_scaled_def)
  moreover have "(2 ^ 53 - 1) * int f64_unit < int (2 ^ 53 * f64_unit)" by simp
  ultimately have "(2 ^ 53 - 1) * int f64_unit < f64_scaled c" using f64_unit_pos by linarith
  then show ?thesis
    using assms(2) by (simp add: f64_lt_def MAX_KEY_def f64_ord_less_iff f64_of_int_props f64_finite_simps)
qed

lemma zdiv_less_of_mult: "0 < b \<Longrightarrow> a < c * b \<Longrightarrow> a div b < c" for a b c :: int
proof (rule ccontr)
  assume b: "0 < b" "a < c * b" and "\<not> a div b < c"
  then have "c * b \<le> a div b * b" by (intro mult_right_mono) auto
  moreover have "a div b * b \<le> a"
    using b(1) div_mult_mod_eq [of a b] pos_mod_sign [of b a] by linarith
  ultimately show False using b(2) by simp
qed

text \<open>Below \<open>2 ^ 53\<close> the update rounds the key down and adds one exactly.\<close>

lemma update_small:
  assumes "f64_is_finite key" "0 \<le> f64_scaled key" "f64_scaled key < 2 ^ 53 * int f64_unit"
  shows "f64_add (f64_floor key) (f64_of_int 1) = f64_of_int (f64_scaled key div int f64_unit + 1)"
proof -
  define z where "z = f64_scaled key div int f64_unit"
  have z: "0 \<le> z" "z < 2 ^ 53"
    using assms f64_unit_pos by (simp_all add: z_def pos_imp_zdiv_nonneg_iff zdiv_less_of_mult)
  show ?thesis
  proof (cases "f64_mag key = 0")
    case True
    then have "f64_scaled key = 0" by (simp add: f64_scaled_def)
    moreover have "\<not> f64_mag (f64_of_int 1) = 0" using f64_mag_of_int_eq_0 [of 1] by simp
    ultimately show ?thesis
      using assms(1) True
      by (simp add: f64_floor_def f64_add_def f64_finite_simps f64_of_int_props f64_of_int_def [symmetric])
         (simp add: f64_of_int_def)
  next
    case False
    then have "f64_floor key = f64_of_int z" using assms(1) by (simp add: f64_floor_def z_def)
    then show ?thesis using z by (simp add: exact_int flip: z_def)
  qed
qed

lemma update_large:
  assumes "\<not> f64_is_nan key" "\<not> f64_neg key" "f64_is_finite key \<Longrightarrow> 2 ^ 53 * int f64_unit \<le> f64_scaled key"
  shows "f64_lt MAX_KEY (f64_add (f64_floor key) (f64_of_int 1))"
proof (cases "f64_is_finite key")
  case True
  then have "2 ^ 53 * f64_unit \<le> mag_scaled (f64_mag key)"
    using assms(2,3) by (simp add: f64_scaled_def flip: of_nat_le_iff)
  then have big: "big_mag \<le> f64_mag key"
    unfolding mag_scaled_big [symmetric] by (simp only: strict_mono_less_eq [OF strict_mono_mag_scaled])
  then have m: "2 ^ 52 \<le> f64_mag key" by (simp add: big_mag_def)
  obtain k q where kq: "f64_mag key = k * 2 ^ 52 + q" "2 ^ 52 \<le> q" "q < 2 ^ 53" "mag_scaled (f64_mag key) = q * 2 ^ k"
    using mag_split [OF m] .
  have "1074 \<le> k"
  proof (rule ccontr)
    assume "\<not> 1074 \<le> k"
    then have "k * 2 ^ 52 \<le> 1073 * 2 ^ 52" by (intro mult_le_mono1) simp
    with kq(1,3) big show False by (simp add: big_mag_def)
  qed
  then have "(2::nat) ^ 1074 dvd 2 ^ k" by (rule le_imp_power_dvd)
  then have "f64_unit dvd mag_scaled (f64_mag key)" unfolding kq(4) f64_unit_def by (rule dvd_mult)
  then have "int f64_unit dvd f64_scaled key" using assms(2) by (simp add: f64_scaled_def)
  then have "f64_floor key = f64_round (f64_scaled key)"
    using True m by (simp add: f64_floor_def f64_of_int_def)
  then have floor: "f64_floor key = key" using f64_round_scaled [OF True] m by simp
  have "f64_add key (f64_of_int 1) = f64_round (f64_scaled key + int f64_unit)"
    using True m by (simp add: f64_add_def f64_finite_simps f64_of_int_props)
  moreover have "nat \<bar>f64_scaled key + int f64_unit\<bar> = mag_scaled (f64_mag key) + f64_unit"
    "\<not> f64_scaled key + int f64_unit < 0"
    using assms(2) by (simp_all add: f64_scaled_def)
  moreover have "mag_scaled big_mag \<le> mag_scaled (f64_mag key) + f64_unit"
    using big strict_mono_less_eq [OF strict_mono_mag_scaled, of big_mag "f64_mag key"] by linarith
  then have "big_mag \<le> round_mag (mag_scaled (f64_mag key) + f64_unit)"
    by (rule round_mag_ge) (rule big_mag_le_inf)
  ultimately show ?thesis
    unfolding floor by (intro above_max_if_big) (auto simp: f64_round_def f64_is_nan_def round_mag_le not_less)
next
  case False
  then have "f64_mag key = f64_inf_mag" using assms(1) by (simp add: f64_is_finite_def f64_is_nan_def)
  moreover have "f64_mag (f64_of_int 1) < f64_inf_mag"
    using f64_of_int_props(2) [of 1] by (simp add: f64_is_finite_def)
  ultimately have "f64_add (f64_floor key) (f64_of_int 1) = key"
    using False assms(1) by (simp add: f64_floor_def f64_add_def f64_of_int_props f64_finite_simps f64_is_inf_def)
  then show ?thesis using assms(1,2) \<open>f64_mag key = f64_inf_mag\<close> big_mag_le_inf
    by (simp add: above_max_if_big)
qed

lemma kg_ok_ge_1: "kg_ok c \<Longrightarrow> 0 < f64_ord c \<and> \<not> f64_is_nan c"
proof -
  assume "kg_ok c"
  then have "f64_lt (f64_of_int 0) c"
  proof (unfold kg_ok_def, elim disjE exE conjE)
    fix n :: int assume "1 \<le> n" "n \<le> 2 ^ 53" "c = f64_of_int n"
    then show ?thesis by (simp add: exact_int)
  next
    assume "f64_lt MAX_KEY c"
    moreover have "f64_lt (f64_of_int 0) MAX_KEY" by (simp add: MAX_KEY_def exact_int)
    ultimately show ?thesis by (auto simp: f64_lt_def)
  qed
  then show ?thesis by (simp add: f64_lt_def f64_of_int_0)
qed

text \<open>After an update the generator is above the key, or above every key it may issue.\<close>

lemma kg_possibly_update_above:
  assumes "kg_ok (kg_current g)" "\<not> f64_is_nan key"
  defines "c \<equiv> kg_current (kg_possibly_update g key)"
  shows "kg_ok c \<and> (f64_lt key c \<or> f64_lt MAX_KEY c)"
proof (cases "f64_le (kg_current g) key")
  case True
  then have c: "c = f64_add (f64_floor key) (f64_of_int 1)" by (simp add: c_def kg_possibly_update_def)
  have "0 < f64_ord key" using True kg_ok_ge_1 [OF assms(1)] by (simp add: f64_le_def)
  then have neg: "\<not> f64_neg key" and pos: "0 \<le> f64_scaled key"
    by (auto simp: f64_ord_def f64_scaled_def)
  show ?thesis
  proof (cases "f64_is_finite key \<and> f64_scaled key < 2 ^ 53 * int f64_unit")
    case True
    define z where "z = f64_scaled key div int f64_unit"
    have z: "0 \<le> z" "z < 2 ^ 53"
      using True pos f64_unit_pos by (simp_all add: z_def pos_imp_zdiv_nonneg_iff zdiv_less_of_mult)
    have cz: "c = f64_of_int (z + 1)" using update_small [of key] True pos by (simp add: c z_def)
    have "f64_scaled key < (z + 1) * int f64_unit"
    proof -
      have "f64_scaled key mod int f64_unit < int f64_unit" by (rule pos_mod_bound) simp
      moreover have "z * int f64_unit + f64_scaled key mod int f64_unit = f64_scaled key"
        unfolding z_def by (rule div_mult_mod_eq)
      ultimately show ?thesis unfolding distrib_right by linarith
    qed
    then have "f64_lt key c"
      using z assms(2) by (simp add: cz f64_lt_def f64_ord_less_iff f64_of_int_props f64_finite_simps)
    moreover have "kg_ok c" using z unfolding cz by (intro kg_ok_of_int) auto
    ultimately show ?thesis by simp
  next
    case False
    then have "f64_lt MAX_KEY c" unfolding c using assms(2) neg by (intro update_large) auto
    then show ?thesis by (simp add: kg_ok_above_max)
  qed
next
  case False
  then have "c = kg_current g" by (simp add: c_def kg_possibly_update_def)
  moreover have "f64_lt key (kg_current g)"
    using False assms(2) kg_ok_ge_1 [OF assms(1)] by (auto simp: f64_le_def f64_lt_def)
  ultimately show ?thesis using assms(1) by simp
qed

section \<open>Requests\<close>

text \<open>What a request may do to the generator between its begin and its end: generate, meet user
  keys, and run nested requests that commit or roll back.\<close>

inductive kg_body :: "key_generator \<Rightarrow> key_generator \<Rightarrow> bool" where
  kg_body_nil: "kg_body g g"
| kg_body_generate: "kg_body g g' \<Longrightarrow> kg_generate g' = (r, g'') \<Longrightarrow> kg_body g g''"
| kg_body_update: "kg_body g g' \<Longrightarrow> kg_body g (kg_possibly_update g' key)"
| kg_body_commit: "kg_body g g' \<Longrightarrow> kg_body (kg_begin_request g') h \<Longrightarrow>
    kg_commit_request h = (r, g'') \<Longrightarrow> kg_body g g''"
| kg_body_rollback: "kg_body g g' \<Longrightarrow> kg_body (kg_begin_request g') h \<Longrightarrow>
    kg_rollback_request h = (r, g'') \<Longrightarrow> kg_body g g''"

lemma kg_generate_stack: "kg_generate g = (r, g') \<Longrightarrow> kg_save_stack g' = kg_save_stack g"
  by (auto simp: kg_generate_def split: if_splits)

lemma kg_body_stack: "kg_body g g' \<Longrightarrow> kg_save_stack g' = kg_save_stack g"
  by (induction rule: kg_body.induct)
     (auto simp: kg_generate_stack kg_possibly_update_def kg_begin_request_def kg_commit_request_def
       kg_rollback_request_def split: if_splits)

lemma kg_generate_ok:
  assumes "kg_ok (kg_current g)" "kg_generate g = (r, g')"
  shows "kg_ok (kg_current g')"
proof (cases "f64_lt MAX_KEY (kg_current g)")
  case True
  then show ?thesis using assms by (simp add: kg_generate_overflow)
next
  case False
  then obtain n where n: "1 \<le> n" "n \<le> 2 ^ 53" "kg_current g = f64_of_int n"
    using assms(1) by (auto simp: kg_ok_def)
  then have "n \<le> 2 ^ 53 - 1" using False by (simp add: MAX_KEY_def exact_int)
  then have "kg_generate g = (Inr (f64_of_int n), g\<lparr>kg_current := f64_of_int (n + 1)\<rparr>)"
    using n by (intro kg_generate_int) auto
  then have "kg_current g' = f64_of_int (n + 1)" using assms(2) by auto
  then show ?thesis using n \<open>n \<le> 2 ^ 53 - 1\<close> by (simp only:) (intro kg_ok_of_int; simp)
qed

lemma kg_inv_update: "kg_inv g \<Longrightarrow> kg_inv (kg_possibly_update g key)"
proof (cases "f64_is_nan key")
  case True
  then show "kg_inv g \<Longrightarrow> ?thesis" by (simp add: kg_possibly_update_def f64_le_def)
next
  case False
  assume "kg_inv g"
  moreover have "kg_save_stack (kg_possibly_update g key) = kg_save_stack g"
    by (simp add: kg_possibly_update_def)
  ultimately show ?thesis
    using kg_possibly_update_above [of g key] False by (simp add: kg_inv_def)
qed

lemma kg_inv_begin: "kg_inv g \<Longrightarrow> kg_inv (kg_begin_request g)"
  by (auto simp: kg_inv_def kg_begin_request_def)

lemma kg_inv_commit: "kg_inv g \<Longrightarrow> kg_commit_request g = (r, g') \<Longrightarrow> kg_inv g'"
  by (auto simp: kg_inv_def kg_commit_request_def split: if_splits) (blast dest: in_set_butlastD)

lemma kg_inv_rollback: "kg_inv g \<Longrightarrow> kg_rollback_request g = (r, g') \<Longrightarrow> kg_inv g'"
  by (auto simp: kg_inv_def kg_rollback_request_def split: if_splits) (blast dest: in_set_butlastD)

lemma kg_inv_generate: "kg_inv g \<Longrightarrow> kg_generate g = (r, g') \<Longrightarrow> kg_inv g'"
  by (auto simp: kg_inv_def kg_generate_stack dest: kg_generate_ok)

lemma kg_body_inv: "kg_body g g' \<Longrightarrow> kg_inv g \<Longrightarrow> kg_inv g'"
  by (induction rule: kg_body.induct)
     (blast intro: kg_inv_generate kg_inv_update kg_inv_begin kg_inv_commit kg_inv_rollback)+

section \<open>Properties\<close>

text \<open>C30. A fresh generator issues \<open>1, 2, ..., m\<close> in order, for every \<open>m\<close> up to \<open>2 ^ 53 - 1\<close>
  (\<open>MAX_KEY\<close>), exactly and without repetition in spite of the floating point counter, and
  refuses the next key with a constraint error that leaves it unchanged once they are used up.\<close>

theorem kg_generate_sequence:
  assumes "m \<le> 2 ^ 53 - 1"
  shows "fst (kg_generate_many m (kg_new (f64_of_int 1))) =
           Inr (map (\<lambda>i. f64_of_int (int i)) [1..<Suc m]) \<and>
         distinct (map (\<lambda>i. f64_of_int (int i)) [1..<Suc m]) \<and>
         (m = 2 ^ 53 - 1 \<longrightarrow>
           kg_generate (snd (kg_generate_many m (kg_new (f64_of_int 1)))) =
             (Inl IdbConstraint, snd (kg_generate_many m (kg_new (f64_of_int 1)))))"
proof -
  have run: "kg_generate_many m (kg_new (f64_of_int 1)) =
      (Inr (map (\<lambda>i. f64_of_int (int i)) [1..<1 + m]),
       (kg_new (f64_of_int 1))\<lparr>kg_current := f64_of_int (int (1 + m))\<rparr>)"
    using assms by (intro kg_generate_many_int) (simp_all add: kg_new_def)
  have "inj_on (\<lambda>i. f64_of_int (int i)) {1..<Suc m}"
    using assms by (intro inj_onI) (auto simp: exact_int)
  moreover have "m = 2 ^ 53 - 1 \<Longrightarrow> f64_lt MAX_KEY (f64_of_int (int (1 + m)))"
    by (simp add: MAX_KEY_def exact_int)
  ultimately show ?thesis
    unfolding run by (simp add: distinct_map kg_generate_overflow del: upt_Suc)
qed

theorem kg_generate_sequence_witness:
  "fst (kg_generate_many 3 (kg_new (f64_of_int 1))) = Inr [f64_of_int 1, f64_of_int 2, f64_of_int 3]"
  using kg_generate_sequence [of 3] by (simp add: upt_rec)

text \<open>After a record was stored under an explicit number the generator never issues that
  number or a smaller one: whatever request follows, the next generated key is above it, or
  generation fails with a constraint error.\<close>

theorem kg_generate_after_update:
  assumes "kg_inv g" "\<not> f64_is_nan key"
    "kg_generate (kg_possibly_update g key) = (r, g')"
  shows "r = Inl IdbConstraint \<or> (\<exists>k. r = Inr k \<and> f64_lt key k \<and> f64_le k MAX_KEY)"
proof -
  let ?c = "kg_current (kg_possibly_update g key)"
  have "kg_ok ?c \<and> (f64_lt key ?c \<or> f64_lt MAX_KEY ?c)"
    using assms(1,2) by (intro kg_possibly_update_above) (simp_all add: kg_inv_def)
  moreover have "\<not> f64_is_nan ?c" using calculation kg_ok_ge_1 by blast
  moreover have "\<not> f64_is_nan MAX_KEY" by (simp add: MAX_KEY_def exact_int)
  ultimately show ?thesis
    using assms(3) by (auto simp: kg_generate_def f64_lt_def f64_le_def split: if_splits)
qed

theorem kg_generate_after_update_witness:
  "f64_lt (f64_of_int 5) (f64_of_int 6)"
proof -
  let ?g = "kg_new (f64_of_int 1)"
  have u: "kg_possibly_update ?g (f64_of_int 5) = ?g\<lparr>kg_current := f64_of_int 6\<rparr>"
    by (simp add: kg_possibly_update_def kg_new_def exact_int)
  have "kg_generate (kg_possibly_update ?g (f64_of_int 5)) =
      (Inr (f64_of_int 6), ?g\<lparr>kg_current := f64_of_int 7\<rparr>)"
    unfolding u by (subst kg_generate_int [of 6]) simp_all
  from kg_generate_after_update [OF kg_inv_new _ this] show ?thesis by (simp add: exact_int)
qed

text \<open>A request is a transaction of the generator: whatever a request did (generated keys,
  explicit keys, nested requests that committed or rolled back), its own rollback restores the
  generator exactly, and its commit keeps the counter and removes only its own saved value.\<close>

theorem kg_request_atomic:
  assumes "kg_body (kg_begin_request g) h"
  shows "kg_rollback_request h = (Inr (), g) \<and>
         kg_commit_request h = (Inr (), g\<lparr>kg_current := kg_current h\<rparr>) \<and>
         (kg_inv g \<longrightarrow> kg_inv h)"
proof -
  have stack: "kg_save_stack h = kg_save_stack g @ [kg_current g]"
    using kg_body_stack [OF assms] by (simp add: kg_begin_request_def)
  have "kg_inv g \<longrightarrow> kg_inv h" using kg_body_inv [OF assms] kg_inv_begin by blast
  then show ?thesis
    using stack by (cases g; cases h) (simp add: kg_rollback_request_def kg_commit_request_def)
qed

theorem kg_request_atomic_witness:
  "kg_rollback_request (kg_possibly_update (kg_begin_request (kg_new (f64_of_int 1))) (f64_of_int 5)) =
     (Inr (), kg_new (f64_of_int 1))"
  by (rule kg_request_atomic [OF kg_body_update [OF kg_body_nil], THEN conjunct1])

end
