(* ===== verification/Scheduler.thy ===== *)
theory Scheduler
  imports Proto "HOL-Library.Multiset"
begin

text \<open>
  The transaction scheduler of \<open>engine/scheduler.rs\<close>: a FIFO queue of pending transactions and
  the list of running ones. \<open>poll_ready\<close> is the index loop of the source; \<open>poll_split\<close> is its
  declarative counterpart, in which a transaction starts exactly when it conflicts with nothing
  running and with nothing that was queued before it.
\<close>

record txn_queue_item =
  tq_id :: txn_id
  tq_mode :: txn_mode
  tq_scope :: "store_id list"

record scheduler =
  pending_queue :: "txn_queue_item list"
  running_txns :: "txn_queue_item list"

definition sched_new :: scheduler where
  "sched_new = \<lparr>pending_queue = [], running_txns = []\<rparr>"

definition enqueue :: "scheduler \<Rightarrow> txn_queue_item \<Rightarrow> scheduler" where
  "enqueue s item = s\<lparr>pending_queue := pending_queue s @ [item]\<rparr>"

definition conflicts :: "txn_queue_item \<Rightarrow> txn_queue_item \<Rightarrow> bool" where
  "conflicts a b =
     (if tq_mode a = VersionChange \<or> tq_mode b = VersionChange then True
      else if tq_mode a = ReadOnly \<and> tq_mode b = ReadOnly then False
      else list_ex (\<lambda>s. s \<in> set (tq_scope b)) (tq_scope a))"

definition can_start :: "scheduler \<Rightarrow> txn_queue_item \<Rightarrow> nat \<Rightarrow> bool" where
  "can_start s candidate i =
     (let earlier = take i (pending_queue s); running = running_txns s in
      if list_ex (\<lambda>e. tq_mode e = VersionChange) earlier then False
      else if list_ex (\<lambda>r. tq_mode r = VersionChange) running then False
      else if list_ex (conflicts candidate) running then False
      else if list_ex (conflicts candidate) earlier then False
      else True)"

text \<open>\<open>VecDeque::remove(i)\<close>, \<open>Vec::remove(i)\<close>: the list without its element at an index in range.\<close>

definition remove_at :: "nat \<Rightarrow> 'a list \<Rightarrow> 'a list" where
  "remove_at i xs = take i xs @ drop (Suc i) xs"

lemma remove_at_append [simp]: "remove_at (length xs) (xs @ y # ys) = xs @ ys"
  by (simp add: remove_at_def)

lemma length_remove_at [simp]: "i < length xs \<Longrightarrow> length (remove_at i xs) = length xs - 1"
  by (simp add: remove_at_def)

function poll_loop :: "scheduler \<Rightarrow> nat \<Rightarrow> txn_id list \<Rightarrow> txn_id list \<times> scheduler" where
  "poll_loop s i ready =
     (if i < length (pending_queue s) then
        let candidate = pending_queue s ! i in
        if can_start s candidate i
        then poll_loop (s\<lparr>pending_queue := remove_at i (pending_queue s),
                         running_txns := running_txns s @ [candidate]\<rparr>) i (ready @ [tq_id candidate])
        else poll_loop s (Suc i) ready
      else (ready, s))"
  by pat_completeness auto
termination
  by (relation "measure (\<lambda>(s, i, ready). length (pending_queue s) - i)") auto

declare poll_loop.simps [simp del]

definition poll_ready :: "scheduler \<Rightarrow> txn_id list \<times> scheduler" where
  "poll_ready s = poll_loop s 0 []"

definition on_txn_finished :: "scheduler \<Rightarrow> txn_id \<Rightarrow> scheduler" where
  "on_txn_finished s i = s\<lparr>running_txns := filter (\<lambda>t. tq_id t \<noteq> i) (running_txns s)\<rparr>"

text \<open>\<open>Iterator::position\<close>: the index of the first element that satisfies a predicate.\<close>

fun position :: "('a \<Rightarrow> bool) \<Rightarrow> 'a list \<Rightarrow> nat option" where
  "position p [] = None"
| "position p (x # xs) = (if p x then Some 0 else map_option Suc (position p xs))"

definition requeue_unstarted :: "scheduler \<Rightarrow> txn_id \<Rightarrow> scheduler" where
  "requeue_unstarted s i =
     (case position (\<lambda>t. tq_id t = i) (running_txns s) of
        None \<Rightarrow> s
      | Some pos \<Rightarrow> s\<lparr>running_txns := remove_at pos (running_txns s),
                      pending_queue := (running_txns s ! pos) # pending_queue s\<rparr>)"

definition forget :: "scheduler \<Rightarrow> txn_id \<Rightarrow> scheduler" where
  "forget s i = s\<lparr>pending_queue := filter (\<lambda>t. tq_id t \<noteq> i) (pending_queue s),
                 running_txns := filter (\<lambda>t. tq_id t \<noteq> i) (running_txns s)\<rparr>"

definition pending_count :: "scheduler \<Rightarrow> nat" where
  "pending_count s = length (pending_queue s)"

definition running_count :: "scheduler \<Rightarrow> nat" where
  "running_count s = length (running_txns s)"

section \<open>Conflicts\<close>

lemma conflicts_iff:
  "conflicts a b \<longleftrightarrow> tq_mode a = VersionChange \<or> tq_mode b = VersionChange \<or>
     \<not> (tq_mode a = ReadOnly \<and> tq_mode b = ReadOnly) \<and> set (tq_scope a) \<inter> set (tq_scope b) \<noteq> {}"
  by (auto simp: conflicts_def list_ex_iff)

lemma conflicts_sym: "conflicts a b = conflicts b a"
  by (auto simp: conflicts_iff)

lemma can_start_iff:
  "can_start s c i \<longleftrightarrow> (\<forall>x \<in> set (running_txns s @ take i (pending_queue s)). \<not> conflicts c x)"
  by (auto simp: can_start_def list_ex_iff Let_def) (auto simp: conflicts_iff)

lemma position_SomeD:
  "position p xs = Some i \<Longrightarrow> \<exists>ys z zs. xs = ys @ z # zs \<and> i = length ys \<and> p z \<and> \<not> list_ex p ys"
proof (induction xs arbitrary: i)
  case (Cons x xs)
  show ?case
  proof (cases "p x")
    case True
    then show ?thesis using Cons.prems by (intro exI [of _ "[]"]) auto
  next
    case False
    then obtain j where "position p xs = Some j" "i = Suc j" using Cons.prems by auto
    with Cons.IH obtain ys z zs where "xs = ys @ z # zs" "j = length ys" "p z" "\<not> list_ex p ys" by blast
    with False \<open>i = Suc j\<close> show ?thesis by (intro exI [of _ "x # ys"]) auto
  qed
qed simp

lemma position_None: "position p xs = None \<longleftrightarrow> \<not> list_ex p xs"
  by (induction xs) auto

text \<open>The two outcomes of a requeue.\<close>

lemma requeue_cases:
  obtains "requeue_unstarted s i = s" "i \<notin> tq_id ` set (running_txns s)"
  | xs y ys where "running_txns s = xs @ y # ys" "tq_id y = i"
      "requeue_unstarted s i = s\<lparr>running_txns := xs @ ys, pending_queue := y # pending_queue s\<rparr>"
proof (cases "position (\<lambda>t. tq_id t = i) (running_txns s)")
  case None
  then have "requeue_unstarted s i = s" by (simp add: requeue_unstarted_def)
  moreover have "i \<notin> tq_id ` set (running_txns s)" using None by (auto simp: position_None list_ex_iff)
  ultimately show ?thesis by (rule that(1))
next
  case (Some j)
  then obtain ys z zs where "running_txns s = ys @ z # zs" "j = length ys" "tq_id z = i"
    using position_SomeD by fastforce
  then show ?thesis using that(2) Some by (simp add: requeue_unstarted_def)
qed

section \<open>The poll\<close>

fun poll_split :: "txn_queue_item list \<Rightarrow> txn_queue_item list \<Rightarrow> txn_queue_item list \<times> txn_queue_item list" where
  "poll_split seen [] = ([], [])"
| "poll_split seen (c # cs) =
     (let (started, kept) = poll_split (seen @ [c]) cs
      in if \<forall>x \<in> set seen. \<not> conflicts c x then (c # started, kept) else (started, c # kept))"

lemma poll_split_set_cong: "set seen = set seen' \<Longrightarrow> poll_split seen cs = poll_split seen' cs"
proof (induction cs arbitrary: seen seen')
  case (Cons c cs)
  have "poll_split (seen @ [c]) cs = poll_split (seen' @ [c]) cs"
    using Cons.prems by (intro Cons.IH) simp
  then show ?case using Cons.prems by (simp only: poll_split.simps)
qed simp

lemma poll_loop_split:
  assumes "poll_split (running_txns s @ kept) rest = (st, kp)"
    "pending_queue s = kept @ rest" "i = length kept"
  shows "poll_loop s i ready =
    (ready @ map tq_id st, s\<lparr>pending_queue := kept @ kp, running_txns := running_txns s @ st\<rparr>)"
  using assms
proof (induction rest arbitrary: s kept i ready st kp)
  case Nil
  then show ?case by (subst poll_loop.simps) simp
next
  case (Cons c rest)
  obtain st' kp' where split: "poll_split (running_txns s @ kept @ [c]) rest = (st', kp')"
    by (metis prod.exhaust)
  have i: "i < length (pending_queue s)" "pending_queue s ! i = c" "take i (pending_queue s) = kept"
    using Cons.prems by simp_all
  show ?case
  proof (cases "can_start s c i")
    case True
    let ?s = "s\<lparr>pending_queue := kept @ rest, running_txns := running_txns s @ [c]\<rparr>"
    have "poll_split (running_txns ?s @ kept) rest = (st', kp')"
      using split by (subst poll_split_set_cong [where seen' = "running_txns s @ kept @ [c]"]) auto
    from Cons.IH [OF this, of i] Cons.prems(3)
    have "poll_loop ?s i (ready @ [tq_id c]) =
        ((ready @ [tq_id c]) @ map tq_id st', ?s\<lparr>pending_queue := kept @ kp', running_txns := running_txns ?s @ st'\<rparr>)"
      by simp
    moreover have "st = c # st'" "kp = kp'"
      using Cons.prems(1) True split i by (auto simp: can_start_iff)
    ultimately show ?thesis
      using True i Cons.prems by (subst poll_loop.simps) (simp add: Let_def)
  next
    case False
    then have "st = st'" "kp = c # kp'"
      using Cons.prems(1) split i by (auto simp: can_start_iff split: if_splits)
    moreover have "poll_loop s (Suc i) ready =
        (ready @ map tq_id st', s\<lparr>pending_queue := (kept @ [c]) @ kp', running_txns := running_txns s @ st'\<rparr>)"
      using split Cons.prems by (intro Cons.IH) auto
    ultimately show ?thesis
      using False i by (subst poll_loop.simps) (simp add: Let_def)
  qed
qed

lemma poll_ready_split:
  "poll_split (running_txns s) (pending_queue s) = (st, kp) \<Longrightarrow>
     poll_ready s = (map tq_id st, s\<lparr>pending_queue := kp, running_txns := running_txns s @ st\<rparr>)"
  using poll_loop_split [of s "[]" "pending_queue s" st kp 0 "[]"] by (simp add: poll_ready_def)

section \<open>Steps and reachable states\<close>

datatype sched_event =
  Enqueue txn_queue_item | Poll | Finished txn_id | Requeue txn_id | Forget txn_id

fun sched_apply :: "scheduler \<Rightarrow> sched_event \<Rightarrow> txn_id list \<times> scheduler" where
  "sched_apply s (Enqueue item) = ([], enqueue s item)"
| "sched_apply s Poll = poll_ready s"
| "sched_apply s (Finished i) = ([], on_txn_finished s i)"
| "sched_apply s (Requeue i) = ([], requeue_unstarted s i)"
| "sched_apply s (Forget i) = ([], forget s i)"

text \<open>A run collects the identifiers that its polls start.\<close>

fun sched_run :: "scheduler \<Rightarrow> sched_event list \<Rightarrow> txn_id list \<times> scheduler" where
  "sched_run s [] = ([], s)"
| "sched_run s (e # es) =
     (let (ready, s') = sched_apply s e; (more, s'') = sched_run s' es in (ready @ more, s''))"

definition compatible :: "txn_queue_item list \<Rightarrow> bool" where
  "compatible ts \<longleftrightarrow> sorted_wrt (\<lambda>a b. \<not> conflicts a b) ts"

lemma compatible_append:
  "compatible (xs @ ys) \<longleftrightarrow>
     compatible xs \<and> compatible ys \<and> (\<forall>x \<in> set xs. \<forall>y \<in> set ys. \<not> conflicts x y)"
  by (auto simp: compatible_def sorted_wrt_append)

lemma compatible_filter: "compatible ts \<Longrightarrow> compatible (filter p ts)"
  by (simp add: compatible_def sorted_wrt_filter)

lemma poll_split_compatible:
  "poll_split seen cs = (st, kp) \<Longrightarrow> compatible st \<and> (\<forall>x \<in> set seen. \<forall>y \<in> set st. \<not> conflicts y x)"
proof (induction cs arbitrary: seen st kp)
  case (Cons c cs)
  obtain st' kp' where "poll_split (seen @ [c]) cs = (st', kp')" by (metis prod.exhaust)
  with Cons.IH [OF this] Cons.prems show ?case
    by (auto simp: compatible_def conflicts_sym split: if_splits)
qed (simp add: compatible_def)

lemma compatible_poll: "compatible (running_txns s) \<Longrightarrow> compatible (running_txns (snd (poll_ready s)))"
proof -
  assume c: "compatible (running_txns s)"
  obtain st kp where split: "poll_split (running_txns s) (pending_queue s) = (st, kp)"
    by (metis prod.exhaust)
  show ?thesis
    using poll_split_compatible [OF split] c
    by (simp add: poll_ready_split [OF split] compatible_append) (metis conflicts_sym)
qed

lemma compatible_apply: "compatible (running_txns s) \<Longrightarrow> compatible (running_txns (snd (sched_apply s e)))"
proof (cases e)
  case (Requeue i)
  assume "compatible (running_txns s)"
  with Requeue show ?thesis
    by (cases rule: requeue_cases [of s i]) (auto simp: compatible_def sorted_wrt_append)
qed (simp_all add: compatible_poll enqueue_def on_txn_finished_def forget_def compatible_filter)

lemma compatible_run: "compatible (running_txns s) \<Longrightarrow> compatible (running_txns (snd (sched_run s es)))"
  by (induction s es rule: sched_run.induct)
     (simp_all add: case_prod_beta Let_def, metis compatible_apply snd_conv prod.collapse)

lemma compatible_exclusive:
  assumes "compatible ts" "t \<in> set ts" "tq_mode t = VersionChange"
  shows "ts = [t]"
proof -
  obtain xs ys where ts: "ts = xs @ t # ys" using assms(2) by (meson split_list)
  have "set xs = {}" "set ys = {}"
    using assms(1,3) unfolding ts by (auto simp: compatible_def sorted_wrt_append conflicts_iff)
  then show ?thesis using ts by simp
qed

section \<open>Order and identity\<close>

text \<open>\<open>ahead a b q\<close>: \<open>a\<close> stands before \<open>b\<close> in the queue.\<close>

definition ahead :: "txn_queue_item \<Rightarrow> txn_queue_item \<Rightarrow> txn_queue_item list \<Rightarrow> bool" where
  "ahead a b q \<longleftrightarrow> (\<exists>xs ys. q = xs @ a # ys \<and> b \<in> set ys)"

lemma ahead_Cons: "ahead a b (c # q) \<longleftrightarrow> (a = c \<and> b \<in> set q) \<or> ahead a b q"
  unfolding ahead_def by (auto simp: Cons_eq_append_conv; metis append_Nil append_Cons)

lemma ahead_Nil [simp]: "\<not> ahead a b []"
  by (simp add: ahead_def)

lemma ahead_append: "ahead a b q \<Longrightarrow> ahead a b (q @ r)"
  unfolding ahead_def by fastforce

lemma ahead_set: "ahead a b q \<Longrightarrow> a \<in> set q \<and> b \<in> set q"
  by (auto simp: ahead_def)

lemma ahead_filter: "ahead a b q \<Longrightarrow> p a \<Longrightarrow> p b \<Longrightarrow> ahead a b (filter p q)"
  by (induction q) (auto simp: ahead_Cons)

lemma poll_split_mset: "poll_split seen cs = (st, kp) \<Longrightarrow> mset st + mset kp = mset cs"
proof (induction cs arbitrary: seen st kp)
  case (Cons c cs)
  obtain st' kp' where "poll_split (seen @ [c]) cs = (st', kp')" by (metis prod.exhaust)
  with Cons.IH [OF this] Cons.prems show ?case by (auto split: if_splits)
qed simp

text \<open>A transaction that conflicts with one before it, or with a running one, is kept.\<close>

lemma poll_split_blocked:
  "poll_split seen cs = (st, kp) \<Longrightarrow> b \<in> set cs \<Longrightarrow> x \<in> set seen \<Longrightarrow> conflicts b x \<Longrightarrow>
     b \<in> set kp \<and> b \<notin> set st"
proof (induction cs arbitrary: seen st kp)
  case (Cons c cs)
  obtain st' kp' where split: "poll_split (seen @ [c]) cs = (st', kp')" by (metis prod.exhaust)
  have "b \<notin> set st'" using poll_split_compatible [OF split] Cons.prems(3,4) by auto
  then show ?case
    using Cons.IH [OF split] Cons.prems split by (auto split: if_splits)
qed simp

lemma poll_split_ahead:
  assumes "poll_split seen cs = (st, kp)" "ahead a b cs" "distinct cs" "conflicts a b"
  shows "b \<in> set kp \<and> b \<notin> set st \<and> (a \<in> set st \<or> ahead a b kp)"
  using assms(1,2,3)
proof (induction cs arbitrary: seen st kp)
  case (Cons c cs)
  obtain st' kp' where split: "poll_split (seen @ [c]) cs = (st', kp')" by (metis prod.exhaust)
  show ?case
  proof (cases "ahead a b cs")
    case True
    then have "b \<noteq> c" using Cons.prems(3) ahead_set by fastforce
    then show ?thesis
      using Cons.IH [OF split True] Cons.prems(1,3) split
      by (auto simp: ahead_Cons split: if_splits)
  next
    case False
    then have "a = c" "b \<in> set cs" using Cons.prems(2) by (auto simp: ahead_Cons)
    then show ?thesis
      using poll_split_blocked [OF split, of b c] assms(4) Cons.prems(1,3) split
      by (auto simp: ahead_Cons conflicts_sym split: if_splits)
  qed
qed simp

definition sched_ids :: "scheduler \<Rightarrow> txn_id multiset" where
  "sched_ids s = mset (map tq_id (pending_queue s)) + mset (map tq_id (running_txns s))"

lemma distinct_count: "distinct xs \<longleftrightarrow> (\<forall>i. count (mset xs) i \<le> 1)"
proof
  assume le: "\<forall>i. count (mset xs) i \<le> 1"
  have "count (mset xs) i = (if i \<in> set xs then 1 else 0)" for i
  proof (cases "i \<in> set xs")
    case True
    then have "0 < count (mset xs) i" by simp
    then have "count (mset xs) i = 1" using le [rule_format, of i] by linarith
    then show ?thesis using True by simp
  qed simp
  then show "distinct xs" by (simp add: distinct_count_atmost_1)
qed (simp add: distinct_count_atmost_1)

lemma sched_ids_poll: "sched_ids (snd (poll_ready s)) = sched_ids s"
proof -
  obtain st kp where split: "poll_split (running_txns s) (pending_queue s) = (st, kp)"
    by (metis prod.exhaust)
  have "image_mset tq_id (mset st + mset kp) = image_mset tq_id (mset (pending_queue s))"
    using poll_split_mset [OF split] by simp
  then show ?thesis by (simp add: poll_ready_split [OF split] sched_ids_def ac_simps)
qed

lemma sched_ids_requeue: "sched_ids (requeue_unstarted s i) = sched_ids s"
  by (cases rule: requeue_cases [of s i]) (simp_all add: sched_ids_def)

fun enqueued :: "sched_event list \<Rightarrow> txn_queue_item list" where
  "enqueued [] = []"
| "enqueued (Enqueue t # es) = t # enqueued es"
| "enqueued (_ # es) = enqueued es"

lemma sched_ids_apply: "sched_ids (snd (sched_apply s e)) \<subseteq># sched_ids s + mset (map tq_id (enqueued [e]))"
proof (cases e)
  case (Finished i)
  then show ?thesis
    by (simp add: sched_ids_def on_txn_finished_def image_mset_subseteq_mono mset_filter)
next
  case (Forget i)
  then show ?thesis
    by (simp add: sched_ids_def forget_def image_mset_subseteq_mono subset_mset.add_mono mset_filter)
qed (simp_all add: sched_ids_poll sched_ids_requeue, simp add: sched_ids_def enqueue_def)

definition unique_ids :: "scheduler \<Rightarrow> sched_event list \<Rightarrow> bool" where
  "unique_ids s es \<longleftrightarrow> distinct (map tq_id (pending_queue s @ running_txns s @ enqueued es))"

lemma unique_ids_mset: "unique_ids s es \<longleftrightarrow> (\<forall>i. count (sched_ids s + mset (map tq_id (enqueued es))) i \<le> 1)"
  by (simp add: unique_ids_def distinct_count sched_ids_def add.assoc)

lemma unique_ids_apply: "unique_ids s (e # es) \<Longrightarrow> unique_ids (snd (sched_apply s e)) es"
proof -
  assume u: "unique_ids s (e # es)"
  have "mset (map tq_id (enqueued (e # es))) = mset (map tq_id (enqueued [e])) + mset (map tq_id (enqueued es))"
    by (cases e) simp_all
  then have "sched_ids (snd (sched_apply s e)) + mset (map tq_id (enqueued es))
      \<subseteq># sched_ids s + mset (map tq_id (enqueued (e # es)))"
    using sched_ids_apply [of s e] by (simp add: add.assoc [symmetric] subset_mset.add_right_mono)
  with u show ?thesis unfolding unique_ids_mset by (meson mset_subset_eq_count order_trans)
qed

text \<open>\<open>waits a b s\<close>: \<open>b\<close> is queued, and \<open>a\<close> is either running or queued before it.\<close>

definition waits :: "txn_queue_item \<Rightarrow> txn_queue_item \<Rightarrow> scheduler \<Rightarrow> bool" where
  "waits a b s \<longleftrightarrow> b \<in> set (pending_queue s) \<and> (a \<in> set (running_txns s) \<or> ahead a b (pending_queue s))"

lemma poll_waits:
  assumes "waits a b s" "conflicts a b" "unique_ids s es"
  shows "waits a b (snd (poll_ready s)) \<and> tq_id b \<notin> set (fst (poll_ready s))"
proof -
  obtain st kp where split: "poll_split (running_txns s) (pending_queue s) = (st, kp)"
    by (metis prod.exhaust)
  have dist: "distinct (map tq_id (pending_queue s))" using assms(3) by (simp add: unique_ids_def)
  have sub: "set st \<subseteq> set (pending_queue s)"
    using poll_split_mset [OF split] by (metis mset_subset_eq_add_left set_mset_mono set_mset_mset)
  have "b \<in> set kp \<and> b \<notin> set st \<and> (a \<in> set (running_txns s) \<or> a \<in> set st \<or> ahead a b kp)"
    using assms(1) poll_split_ahead [OF split, of a b] assms(2) dist
      poll_split_blocked [OF split, of b a]
    by (auto simp: waits_def conflicts_sym distinct_map)
  moreover have "tq_id b \<notin> tq_id ` set st" if "b \<notin> set st"
    using that assms(1) sub dist by (auto simp: waits_def distinct_map inj_on_def)
  ultimately show ?thesis by (auto simp: poll_ready_split [OF split] waits_def)
qed

fun keeps_waiting :: "txn_id \<Rightarrow> txn_id \<Rightarrow> sched_event \<Rightarrow> bool" where
  "keeps_waiting i j (Finished k) = (k \<noteq> i)"
| "keeps_waiting i j (Forget k) = (k \<noteq> i \<and> k \<noteq> j)"
| "keeps_waiting i j _ = True"

lemma apply_waits:
  assumes "waits a b s" "conflicts a b" "unique_ids s es" "keeps_waiting (tq_id a) (tq_id b) e"
  shows "waits a b (snd (sched_apply s e)) \<and> tq_id b \<notin> set (fst (sched_apply s e))"
proof (cases e)
  case Poll
  then show ?thesis using poll_waits [OF assms(1-3)] by simp
next
  case (Enqueue item)
  then show ?thesis using assms(1) by (auto simp: waits_def enqueue_def intro: ahead_append)
next
  case (Requeue i)
  show ?thesis
  proof (cases rule: requeue_cases [of s i])
    case 1
    then show ?thesis using Requeue assms(1) by simp
  next
    case (2 xs y ys)
    then show ?thesis using Requeue assms(1) by (auto simp: waits_def ahead_Cons)
  qed
qed (use assms in \<open>auto simp: waits_def on_txn_finished_def forget_def ahead_filter\<close>)

lemma run_waits:
  "waits a b s \<Longrightarrow> conflicts a b \<Longrightarrow> unique_ids s es \<Longrightarrow>
     list_all (keeps_waiting (tq_id a) (tq_id b)) es \<Longrightarrow>
     waits a b (snd (sched_run s es)) \<and> tq_id b \<notin> set (fst (sched_run s es))"
proof (induction es arbitrary: s)
  case (Cons e es)
  have step: "waits a b (snd (sched_apply s e)) \<and> tq_id b \<notin> set (fst (sched_apply s e))"
    using Cons.prems by (intro apply_waits [of a b s "e # es"]) simp_all
  moreover have "waits a b (snd (sched_run (snd (sched_apply s e)) es)) \<and>
      tq_id b \<notin> set (fst (sched_run (snd (sched_apply s e)) es))"
    using step Cons.prems unique_ids_apply by (intro Cons.IH) auto
  ultimately show ?case by (simp add: case_prod_beta Let_def)
qed simp

section \<open>Draining\<close>

fun sched_drain :: "nat \<Rightarrow> scheduler \<Rightarrow> txn_id list \<times> scheduler" where
  "sched_drain 0 s = ([], s)"
| "sched_drain (Suc n) s =
     (let (ready, s') = poll_ready s; (more, s'') = sched_drain n (fold (\<lambda>i s. on_txn_finished s i) ready s')
      in (ready @ more, s''))"

lemma fold_finished:
  "fold (\<lambda>i s. on_txn_finished s i) is s = s\<lparr>running_txns := filter (\<lambda>t. tq_id t \<notin> set is) (running_txns s)\<rparr>"
  by (induction "is" arbitrary: s) (simp_all add: on_txn_finished_def conj_commute)

lemma sched_drain_all:
  "running_txns s = [] \<Longrightarrow> length (pending_queue s) \<le> n \<Longrightarrow>
     mset (fst (sched_drain n s)) = mset (map tq_id (pending_queue s)) \<and>
     snd (sched_drain n s) = s\<lparr>pending_queue := [], running_txns := []\<rparr>"
proof (induction n arbitrary: s)
  case (Suc n)
  obtain st kp where split: "poll_split [] (pending_queue s) = (st, kp)" by (metis prod.exhaust)
  have ready: "poll_ready s = (map tq_id st, s\<lparr>pending_queue := kp, running_txns := st\<rparr>)"
    using split poll_ready_split [of s st kp] Suc.prems by simp
  have m: "mset st + mset kp = mset (pending_queue s)" by (rule poll_split_mset [OF split])
  then have "length st + length kp = length (pending_queue s)" by (metis size_mset size_union)
  moreover have "pending_queue s \<noteq> [] \<Longrightarrow> st \<noteq> []"
    using split by (cases "pending_queue s") (auto split: prod.splits)
  ultimately have len: "length kp \<le> n" using Suc.prems(2) by (cases "pending_queue s = []"; cases st) auto
  let ?s = "s\<lparr>pending_queue := kp, running_txns := []\<rparr>"
  have IH: "mset (fst (sched_drain n ?s)) = mset (map tq_id kp) \<and>
      snd (sched_drain n ?s) = s\<lparr>pending_queue := [], running_txns := []\<rparr>"
    using Suc.IH [of ?s] len by simp
  have fin: "fold (\<lambda>i s. on_txn_finished s i) (map tq_id st) (s\<lparr>pending_queue := kp, running_txns := st\<rparr>) = ?s"
    by (simp add: fold_finished filter_empty_conv)
  have "image_mset tq_id (mset st + mset kp) = image_mset tq_id (mset (pending_queue s))" using m by simp
  then show ?case using IH by (simp add: ready fin case_prod_beta)
qed simp

section \<open>Properties\<close>

lemma poll_split_nths:
  "poll_split seen cs =
     (let S = {i. \<forall>x \<in> set (seen @ take i cs). \<not> conflicts (cs ! i) x} in (nths cs S, nths cs (- S)))"
proof (induction cs arbitrary: seen)
  case (Cons c cs)
  let ?S = "{i. \<forall>x \<in> set (seen @ take i (c # cs)). \<not> conflicts ((c # cs) ! i) x}"
  let ?T = "{i. \<forall>x \<in> set ((seen @ [c]) @ take i cs). \<not> conflicts (cs ! i) x}"
  have S: "{j. Suc j \<in> ?S} = ?T" "{j. Suc j \<notin> ?S} = - ?T"
    "0 \<in> ?S \<longleftrightarrow> (\<forall>x \<in> set seen. \<not> conflicts c x)" by auto
  define p where "p \<longleftrightarrow> (\<forall>x \<in> set seen. \<not> conflicts c x)"
  show ?case
    unfolding poll_split.simps Let_def Cons.IH [of "seen @ [c]"] case_prod_conv nths_Cons S Compl_iff
      p_def [symmetric]
    by (cases p) simp_all
qed simp

text \<open>C31. A poll starts exactly the queued transactions that conflict with nothing running and
  with nothing queued before them, in queue order, keeps all others in their order, and reports
  the identifiers of what it started.\<close>

theorem poll_ready_starts:
  "let q = pending_queue s; r = running_txns s;
       S = {i. \<forall>x \<in> set (r @ take i q). \<not> conflicts (q ! i) x}
   in poll_ready s = (map tq_id (nths q S), s\<lparr>pending_queue := nths q (- S), running_txns := r @ nths q S\<rparr>)"
  using poll_split_nths [of "running_txns s" "pending_queue s"]
  by (simp add: Let_def poll_ready_split)

theorem poll_ready_starts_witness:
  "fst (poll_ready \<lparr>pending_queue =
       [\<lparr>tq_id = 1, tq_mode = ReadWrite, tq_scope = [1]\<rparr>, \<lparr>tq_id = 2, tq_mode = ReadWrite, tq_scope = [1, 2]\<rparr>,
        \<lparr>tq_id = 3, tq_mode = ReadOnly, tq_scope = [3]\<rparr>, \<lparr>tq_id = 4, tq_mode = ReadOnly, tq_scope = [2]\<rparr>],
      running_txns = []\<rparr>) = [1, 3]"
  using poll_ready_starts [of "\<lparr>pending_queue =
       [\<lparr>tq_id = 1, tq_mode = ReadWrite, tq_scope = [1]\<rparr>, \<lparr>tq_id = 2, tq_mode = ReadWrite, tq_scope = [1, 2]\<rparr>,
        \<lparr>tq_id = 3, tq_mode = ReadOnly, tq_scope = [3]\<rparr>, \<lparr>tq_id = 4, tq_mode = ReadOnly, tq_scope = [2]\<rparr>],
      running_txns = []\<rparr>"]
  by (simp add: Let_def nths_Cons conflicts_iff)

text \<open>C16. Whatever events reach the scheduler, no two running transactions conflict, and a
  running upgrade transaction runs alone.\<close>

theorem running_never_conflict:
  "compatible (running_txns (snd (sched_run sched_new es))) \<and>
   (\<forall>t \<in> set (running_txns (snd (sched_run sched_new es))).
      tq_mode t = VersionChange \<longrightarrow> running_txns (snd (sched_run sched_new es)) = [t])"
  using compatible_run [of sched_new es] compatible_exclusive
  by (auto simp: sched_new_def compatible_def)

theorem running_never_conflict_witness:
  "let t = \<lparr>tq_id = 1, tq_mode = VersionChange, tq_scope = [1]\<rparr> in
   running_txns (snd (sched_run sched_new [Enqueue t, Enqueue t, Poll])) = [t]"
  using running_never_conflict [of "[Enqueue \<lparr>tq_id = 1, tq_mode = VersionChange, tq_scope = [1]\<rparr>,
      Enqueue \<lparr>tq_id = 1, tq_mode = VersionChange, tq_scope = [1]\<rparr>, Poll]"]
  by (simp add: sched_new_def enqueue_def poll_ready_split conflicts_iff Let_def)

text \<open>C32. FIFO fairness: while a conflicting transaction queued earlier neither finishes nor is
  forgotten, a transaction is never started, whatever is queued, polled, finished or requeued in
  between.\<close>

theorem sched_fifo:
  assumes "ahead a b (pending_queue s)" "conflicts a b" "unique_ids s es"
    "list_all (keeps_waiting (tq_id a) (tq_id b)) es"
  shows "tq_id b \<notin> set (fst (sched_run s es))"
  using run_waits [of a b s es] assms ahead_set by (auto simp: waits_def)

theorem sched_fifo_witness:
  "let a = \<lparr>tq_id = 1, tq_mode = ReadWrite, tq_scope = [1]\<rparr>; b = \<lparr>tq_id = 2, tq_mode = ReadOnly, tq_scope = [1]\<rparr>;
       c = \<lparr>tq_id = 3, tq_mode = ReadOnly, tq_scope = [2]\<rparr>
   in 2 \<notin> set (fst (sched_run \<lparr>pending_queue = [a, b], running_txns = []\<rparr>
        [Poll, Enqueue c, Poll, Finished 3, Requeue 1, Poll]))"
  unfolding Let_def
  by (rule sched_fifo [where a = "\<lparr>tq_id = 1, tq_mode = ReadWrite, tq_scope = [1]\<rparr>"
        and b = "\<lparr>tq_id = 2, tq_mode = ReadOnly, tq_scope = [1]\<rparr>", simplified])
     (simp_all add: ahead_Cons conflicts_iff unique_ids_def)

text \<open>C33. No starvation: with no other transaction running, polling and finishing what started
  empties a queue of \<open>n\<close> transactions in at most \<open>n\<close> rounds, starting each exactly once.\<close>

theorem sched_drains:
  assumes "running_txns s = []" "length (pending_queue s) \<le> n"
  shows "mset (fst (sched_drain n s)) = mset (map tq_id (pending_queue s)) \<and>
    pending_queue (snd (sched_drain n s)) = [] \<and> running_txns (snd (sched_drain n s)) = []"
  using sched_drain_all [OF assms] by simp

theorem sched_drains_witness:
  "let s = enqueue (enqueue sched_new \<lparr>tq_id = 1, tq_mode = ReadWrite, tq_scope = [1]\<rparr>)
             \<lparr>tq_id = 2, tq_mode = ReadOnly, tq_scope = [1]\<rparr>
   in mset (fst (sched_drain 2 s)) = {#1, 2#}"
  using sched_drains [of "enqueue (enqueue sched_new \<lparr>tq_id = 1, tq_mode = ReadWrite, tq_scope = [1]\<rparr>)
             \<lparr>tq_id = 2, tq_mode = ReadOnly, tq_scope = [1]\<rparr>" 2]
  by (simp add: enqueue_def sched_new_def)

end
