(* ===== verification/Open_Queue.thy ===== *)
theory Open_Queue
  imports Idb_Error
begin

text \<open>
  The queue of open and delete requests of one database, \<open>engine/open_queue.rs\<close>: a FIFO of
  requests, a four-state machine and the number of connections that block an exclusive
  operation. Versions are 64 bit words and the connection count is a 32 bit word.
\<close>

datatype open_request_type = ReqOpen (requested_version: u64) | ReqDelete

record open_request =
  request_type :: open_request_type
  request_id :: u64

datatype open_queue_state = Idle | WaitingForConnections | RunningUpgrade | RunningDelete

record open_queue =
  database_name :: utf16
  current_version :: u64
  oq_queue :: "open_request list"
  oq_state :: open_queue_state
  blocking_connections :: u32

datatype open_queue_action =
  OpenConnection u64 u64
| FailOpen u64 idb_error
| SendBlocked u64
| StartUpgrade u64 u64 u64
| StartDelete u64

definition oq_new :: "utf16 \<Rightarrow> u64 \<Rightarrow> open_queue" where
  "oq_new name v = \<lparr>database_name = name, current_version = v, oq_queue = [], oq_state = Idle,
     blocking_connections = 0\<rparr>"

definition enqueue_open :: "open_queue \<Rightarrow> u64 \<Rightarrow> u64 \<Rightarrow> open_queue" where
  "enqueue_open q i v = q\<lparr>oq_queue := oq_queue q @ [\<lparr>request_type = ReqOpen v, request_id = i\<rparr>]\<rparr>"

definition enqueue_delete :: "open_queue \<Rightarrow> u64 \<Rightarrow> open_queue" where
  "enqueue_delete q i = q\<lparr>oq_queue := oq_queue q @ [\<lparr>request_type = ReqDelete, request_id = i\<rparr>]\<rparr>"

definition set_blocking_connections :: "open_queue \<Rightarrow> u32 \<Rightarrow> open_queue" where
  "set_blocking_connections q n = q\<lparr>blocking_connections := n\<rparr>"

definition on_connection_closed :: "open_queue \<Rightarrow> open_queue" where
  "on_connection_closed q =
     q\<lparr>blocking_connections :=
         (if blocking_connections q = 0 then 0 else blocking_connections q - 1)\<rparr>"

definition target_version :: "u64 \<Rightarrow> u64 \<Rightarrow> u64" where
  "target_version requested current =
     (if requested = 0 then (if current = 0 then 1 else current) else requested)"

definition process_next :: "open_queue \<Rightarrow> open_queue_action option \<times> open_queue" where
  "process_next q =
     (if oq_state q \<noteq> Idle then (None, q)
      else case oq_queue q of
        [] \<Rightarrow> (None, q)
      | request # rest \<Rightarrow>
          let i = request_id request in
          (case request_type request of
             ReqOpen requested \<Rightarrow>
               let target = target_version requested (current_version q) in
               (case cmp target (current_version q) of
                  Less \<Rightarrow> (Some (FailOpen i IdbVersion), q\<lparr>oq_queue := rest\<rparr>)
                | Equal \<Rightarrow> (Some (OpenConnection i (current_version q)), q\<lparr>oq_queue := rest\<rparr>)
                | Greater \<Rightarrow>
                    if blocking_connections q > 0
                    then (Some (SendBlocked i), q\<lparr>oq_state := WaitingForConnections\<rparr>)
                    else (Some (StartUpgrade i (current_version q) target),
                          q\<lparr>oq_state := RunningUpgrade, oq_queue := rest\<rparr>))
           | ReqDelete \<Rightarrow>
               if blocking_connections q > 0
               then (Some (SendBlocked i), q\<lparr>oq_state := WaitingForConnections\<rparr>)
               else (Some (StartDelete i), q\<lparr>oq_state := RunningDelete, oq_queue := rest\<rparr>)))"

definition on_all_connections_closed :: "open_queue \<Rightarrow> open_queue_action option \<times> open_queue" where
  "on_all_connections_closed q =
     (if oq_state q \<noteq> WaitingForConnections then (None, q)
      else if blocking_connections q > 0 then (None, q)
      else process_next (q\<lparr>oq_state := Idle\<rparr>))"

definition on_upgrade_complete :: "open_queue \<Rightarrow> u64 \<Rightarrow> open_queue" where
  "on_upgrade_complete q v = q\<lparr>current_version := v, oq_state := Idle\<rparr>"

definition on_delete_complete :: "open_queue \<Rightarrow> open_queue" where
  "on_delete_complete q = q\<lparr>current_version := 0, oq_state := Idle\<rparr>"

definition on_operation_failed :: "open_queue \<Rightarrow> open_queue" where
  "on_operation_failed q = q\<lparr>oq_state := Idle\<rparr>"

definition oq_pending_count :: "open_queue \<Rightarrow> nat" where
  "oq_pending_count q = length (oq_queue q)"

section \<open>Runs\<close>

datatype oq_event =
  EvOpen u64 u64 | EvDelete u64 | EvBlocking u32 | EvConnectionClosed | EvProcess | EvAllClosed
| EvUpgradeComplete u64 | EvDeleteComplete | EvFailed

fun oq_apply :: "open_queue \<Rightarrow> oq_event \<Rightarrow> open_queue_action option \<times> open_queue" where
  "oq_apply q (EvOpen i v) = (None, enqueue_open q i v)"
| "oq_apply q (EvDelete i) = (None, enqueue_delete q i)"
| "oq_apply q (EvBlocking n) = (None, set_blocking_connections q n)"
| "oq_apply q EvConnectionClosed = (None, on_connection_closed q)"
| "oq_apply q EvProcess = process_next q"
| "oq_apply q EvAllClosed = on_all_connections_closed q"
| "oq_apply q (EvUpgradeComplete v) = (None, on_upgrade_complete q v)"
| "oq_apply q EvDeleteComplete = (None, on_delete_complete q)"
| "oq_apply q EvFailed = (None, on_operation_failed q)"

fun oq_run :: "open_queue \<Rightarrow> oq_event list \<Rightarrow> open_queue_action list \<times> open_queue" where
  "oq_run q [] = ([], q)"
| "oq_run q (e # es) =
     (let (a, q') = oq_apply q e; (as, q'') = oq_run q' es
      in (case a of None \<Rightarrow> as | Some a \<Rightarrow> a # as, q''))"

text \<open>The request that an action answers; a blocked notification answers none.\<close>

fun answered :: "open_queue_action \<Rightarrow> u64 list" where
  "answered (OpenConnection i v) = [i]"
| "answered (FailOpen i e) = [i]"
| "answered (SendBlocked i) = []"
| "answered (StartUpgrade i old v) = [i]"
| "answered (StartDelete i) = [i]"

fun requested_ids :: "oq_event list \<Rightarrow> u64 list" where
  "requested_ids [] = []"
| "requested_ids (EvOpen i v # es) = i # requested_ids es"
| "requested_ids (EvDelete i # es) = i # requested_ids es"
| "requested_ids (_ # es) = requested_ids es"

definition queue_ids :: "open_queue \<Rightarrow> u64 list" where
  "queue_ids q = map request_id (oq_queue q)"

definition answers :: "open_queue_action option \<Rightarrow> u64 list" where
  "answers a = (case a of None \<Rightarrow> [] | Some a \<Rightarrow> answered a)"

lemma process_next_ids:
  "process_next q = (a, q') \<Longrightarrow> answers a @ queue_ids q' = queue_ids q"
  by (auto simp: process_next_def answers_def queue_ids_def Let_def
      split: list.splits open_request_type.splits ordering.splits if_splits)

lemma all_closed_ids:
  "on_all_connections_closed q = (a, q') \<Longrightarrow> answers a @ queue_ids q' = queue_ids q"
  by (auto simp: on_all_connections_closed_def answers_def queue_ids_def split: if_splits
      dest!: process_next_ids)

lemma oq_apply_ids:
  "oq_apply q e = (a, q') \<Longrightarrow> answers a @ queue_ids q' = queue_ids q @ requested_ids [e]"
  by (cases e)
     (auto simp: process_next_ids all_closed_ids, auto simp: answers_def queue_ids_def enqueue_open_def
       enqueue_delete_def set_blocking_connections_def on_connection_closed_def on_upgrade_complete_def
       on_delete_complete_def on_operation_failed_def)

lemma requested_ids_Cons: "requested_ids (e # es) = requested_ids [e] @ requested_ids es"
  by (cases e) simp_all

section \<open>The blocked state\<close>

text \<open>A request that needs the database for itself.\<close>

definition exclusive :: "u64 \<Rightarrow> open_request \<Rightarrow> bool" where
  "exclusive current r =
     (case request_type r of
        ReqOpen v \<Rightarrow> current < target_version v current | ReqDelete \<Rightarrow> True)"

definition oq_inv :: "open_queue \<Rightarrow> bool" where
  "oq_inv q \<longleftrightarrow> (oq_state q = WaitingForConnections \<longrightarrow>
     (\<exists>r rest. oq_queue q = r # rest \<and> exclusive (current_version q) r))"

lemma oq_inv_process: "oq_inv q \<Longrightarrow> process_next q = (a, q') \<Longrightarrow> oq_inv q'"
  by (auto simp: process_next_def oq_inv_def exclusive_def cmp_Greater_iff Let_def
      split: list.splits open_request_type.splits ordering.splits if_splits)

lemma oq_inv_apply: "oq_inv q \<Longrightarrow> oq_apply q e = (a, q') \<Longrightarrow> oq_inv q'"
proof (cases e)
  case EvAllClosed
  assume "oq_inv q" "oq_apply q e = (a, q')"
  moreover have "oq_inv (q\<lparr>oq_state := Idle\<rparr>)" by (simp add: oq_inv_def)
  ultimately show ?thesis
    using EvAllClosed oq_inv_process by (auto simp: on_all_connections_closed_def split: if_splits)
qed (auto simp: oq_inv_process, auto simp: oq_inv_def enqueue_open_def
       enqueue_delete_def set_blocking_connections_def on_connection_closed_def on_upgrade_complete_def
       on_delete_complete_def on_operation_failed_def)

lemma oq_inv_run: "oq_inv q \<Longrightarrow> oq_inv (snd (oq_run q es))"
proof (induction es arbitrary: q)
  case (Cons e es)
  then have "oq_inv (snd (oq_apply q e))" using oq_inv_apply [OF _ prod.collapse [symmetric]] by blast
  then show ?case using Cons.IH by (simp add: case_prod_beta)
qed simp

lemma connections_closed:
  "(on_connection_closed ^^ n) q =
     q\<lparr>blocking_connections := of_nat (unat (blocking_connections q) - n)\<rparr>"
proof (induction n)
  case (Suc n)
  let ?b = "of_nat (unat (blocking_connections q) - n) :: u32"
  have small: "unat (blocking_connections q) - n < 2 ^ 32"
    by (rule le_less_trans [OF diff_le_self]) simp
  have step: "(if ?b = 0 then 0 else ?b - 1) = of_nat (unat (blocking_connections q) - Suc n)"
  proof (cases "unat (blocking_connections q) - n")
    case (Suc m)
    have "unat ?b = unat (blocking_connections q) - n"
      using small by (simp add: unsigned_of_nat take_bit_nat_eq_self)
    then have "?b \<noteq> 0" using Suc by (metis unat_0 nat.distinct(1))
    moreover have m: "unat (blocking_connections q) - Suc n = m" using Suc by simp
    ultimately show ?thesis unfolding m Suc by simp
  qed simp
  have "(on_connection_closed ^^ Suc n) q = on_connection_closed (q\<lparr>blocking_connections := ?b\<rparr>)"
    using Suc.IH by simp
  also have "... = q\<lparr>blocking_connections := (if ?b = 0 then 0 else ?b - 1)\<rparr>"
    by (simp add: on_connection_closed_def)
  finally show ?case unfolding step .
qed simp

section \<open>Properties\<close>

text \<open>Requests are answered in the order they were made and exactly once: at any point the
  identifiers answered so far (connection opened or refused, upgrade or delete started), followed
  by those still queued, are the identifiers requested.\<close>

theorem oq_fifo:
  "concat (map answered (fst (oq_run (oq_new name v) es))) @ queue_ids (snd (oq_run (oq_new name v) es))
     = requested_ids es"
proof -
  have "concat (map answered (fst (oq_run q es))) @ queue_ids (snd (oq_run q es)) =
      queue_ids q @ requested_ids es" for q
  proof (induction es arbitrary: q)
    case (Cons e es)
    obtain a q' where step: "oq_apply q e = (a, q')" by (metis prod.exhaust)
    have "answers a @ queue_ids q' @ requested_ids es = queue_ids q @ requested_ids (e # es)"
      using oq_apply_ids [OF step] requested_ids_Cons [of e es] by (metis append_assoc)
    then show ?case
      using Cons.IH [of q'] by (simp add: step case_prod_beta answers_def split: option.splits)
  qed simp
  then show ?thesis by (simp add: oq_new_def queue_ids_def)
qed

text \<open>C20. What an action promises: an upgrade or a delete only starts when no connection blocks
  it and the machine enters its running state; an upgrade goes from the current version to a
  strictly newer one; a connection is only opened at the current version and for a request of
  that version or of any version; a request is only refused for a nonzero version below the
  current one; and only a request that needs the database for itself is blocked.\<close>

theorem oq_action_sound:
  assumes "process_next q = (Some a, q')"
  shows "\<exists>r rest. oq_queue q = r # rest \<and>
    (case a of
       OpenConnection i v \<Rightarrow> i = request_id r \<and> v = current_version q \<and> oq_state q' = Idle \<and>
         (request_type r = ReqOpen 0 \<or> request_type r = ReqOpen v)
     | FailOpen i e \<Rightarrow> i = request_id r \<and> e = IdbVersion \<and> oq_state q' = Idle \<and>
         (\<exists>v. request_type r = ReqOpen v \<and> v \<noteq> 0 \<and> v < current_version q)
     | SendBlocked i \<Rightarrow> i = request_id r \<and> exclusive (current_version q) r \<and>
         blocking_connections q \<noteq> 0 \<and> oq_state q' = WaitingForConnections \<and> oq_queue q' = oq_queue q
     | StartUpgrade i old v \<Rightarrow> i = request_id r \<and> old = current_version q \<and> old < v \<and>
         blocking_connections q = 0 \<and> oq_state q' = RunningUpgrade \<and>
         (request_type r = ReqOpen v \<or> request_type r = ReqOpen 0 \<and> old = 0 \<and> v = 1)
     | StartDelete i \<Rightarrow> i = request_id r \<and> request_type r = ReqDelete \<and>
         blocking_connections q = 0 \<and> oq_state q' = RunningDelete)"
  using assms
  by (auto simp: process_next_def exclusive_def target_version_def cmp_Less_iff cmp_Equal_iff
      cmp_Greater_iff Let_def word_gt_0
      split: list.splits open_request_type.splits ordering.splits if_splits)

theorem oq_action_sound_witness:
  "fst (process_next (enqueue_open (oq_new [100, 98] 1) 7 2)) = Some (StartUpgrade 7 1 2)"
proof -
  have "process_next (enqueue_open (oq_new [100, 98] 1) 7 2) =
      (Some (StartUpgrade 7 1 2), (oq_new [100, 98] 1)\<lparr>oq_state := RunningUpgrade\<rparr>)"
    by (simp add: process_next_def enqueue_open_def oq_new_def target_version_def cmp_def)
  from oq_action_sound [OF this] this show ?thesis by simp
qed

text \<open>C34. A blocked request is never stuck or lost: in every reachable state that waits for
  connections, once as many connections have closed as were blocking, the notification that all
  are closed starts the upgrade or the delete at the head of the queue.\<close>

theorem oq_unblocks:
  assumes "q = snd (oq_run (oq_new name v) es)" "oq_state q = WaitingForConnections"
    "unat (blocking_connections q) \<le> n"
  shows "\<exists>r rest q'. oq_queue q = r # rest \<and> oq_queue q' = rest \<and>
    ((\<exists>v. on_all_connections_closed ((on_connection_closed ^^ n) q) =
            (Some (StartUpgrade (request_id r) (current_version q) v), q') \<and> oq_state q' = RunningUpgrade) \<or>
     (on_all_connections_closed ((on_connection_closed ^^ n) q) =
        (Some (StartDelete (request_id r)), q') \<and> oq_state q' = RunningDelete))"
proof -
  have "oq_inv q" unfolding assms(1) by (rule oq_inv_run) (simp add: oq_inv_def oq_new_def)
  then obtain r rest where r: "oq_queue q = r # rest" "exclusive (current_version q) r"
    using assms(2) by (auto simp: oq_inv_def)
  have "(on_connection_closed ^^ n) q = q\<lparr>blocking_connections := 0\<rparr>"
    using assms(3) by (simp add: connections_closed)
  then show ?thesis
    using r assms(2)
    by (cases "request_type r")
       (auto simp: on_all_connections_closed_def process_next_def exclusive_def Let_def cmp_def)
qed

theorem oq_unblocks_witness:
  "let q = snd (oq_run (oq_new [100, 98] 1) [EvBlocking 2, EvOpen 7 2, EvProcess]) in
   \<exists>a q'. on_all_connections_closed ((on_connection_closed ^^ 2) q) = (Some a, q')"
proof -
  have "oq_state (snd (oq_run (oq_new [100, 98] 1) [EvBlocking 2, EvOpen 7 2, EvProcess])) = WaitingForConnections"
    "unat (blocking_connections (snd (oq_run (oq_new [100, 98] 1) [EvBlocking 2, EvOpen 7 2, EvProcess]))) = 2"
    by (simp_all add: oq_new_def set_blocking_connections_def enqueue_open_def process_next_def
        target_version_def cmp_def Let_def)
  then show ?thesis using oq_unblocks [OF refl, of "[100, 98]" 1 _ 2] by (fastforce simp: Let_def)
qed

end
