(* ===== verification/Sc_Value.thy ===== *)
theory Sc_Value
  imports Idb_Error
begin

text \<open>
  Structured-clone values, \<open>clone/scvalue.rs\<close>. The arbitrary precision integers are those of the
  \<open>num_bigint\<close> package, so their type is the parameter \<open>'b\<close>. An \<open>IndexMap\<close> is its list of
  entries in insertion order. \<open>usize\<close> is \<open>nat\<close>.
\<close>

datatype sc_error_kind =
  ErrError | ErrEval | ErrRange | ErrReference | ErrSyntax | ErrType | ErrURI | ErrAggregate

definition sc_error_kind_from_u8 :: "u8 \<Rightarrow> sc_error_kind option" where
  "sc_error_kind_from_u8 v =
     (if v = 0 then Some ErrError else if v = 1 then Some ErrEval
      else if v = 2 then Some ErrRange else if v = 3 then Some ErrReference
      else if v = 4 then Some ErrSyntax else if v = 5 then Some ErrType
      else if v = 6 then Some ErrURI else if v = 7 then Some ErrAggregate else None)"

text \<open>\<open>kind as u8\<close> for the two enums with explicit discriminants.\<close>

fun sc_error_kind_u8 :: "sc_error_kind \<Rightarrow> u8" where
  "sc_error_kind_u8 ErrError = 0"
| "sc_error_kind_u8 ErrEval = 1"
| "sc_error_kind_u8 ErrRange = 2"
| "sc_error_kind_u8 ErrReference = 3"
| "sc_error_kind_u8 ErrSyntax = 4"
| "sc_error_kind_u8 ErrType = 5"
| "sc_error_kind_u8 ErrURI = 6"
| "sc_error_kind_u8 ErrAggregate = 7"

lemma sc_error_kind_round_trip [simp]: "sc_error_kind_from_u8 (sc_error_kind_u8 k) = Some k"
  by (cases k) (simp_all add: sc_error_kind_from_u8_def)

datatype sc_typed_array_kind =
  TaInt8 | TaUint8 | TaUint8Clamped | TaInt16 | TaUint16 | TaInt32 | TaUint32 | TaFloat32
| TaFloat64 | TaBigInt64 | TaBigUint64 | TaFloat16

definition sc_typed_array_kind_from_u8 :: "u8 \<Rightarrow> sc_typed_array_kind option" where
  "sc_typed_array_kind_from_u8 v =
     (if v = 0 then Some TaInt8 else if v = 1 then Some TaUint8
      else if v = 2 then Some TaUint8Clamped else if v = 3 then Some TaInt16
      else if v = 4 then Some TaUint16 else if v = 5 then Some TaInt32
      else if v = 6 then Some TaUint32 else if v = 7 then Some TaFloat32
      else if v = 8 then Some TaFloat64 else if v = 9 then Some TaBigInt64
      else if v = 10 then Some TaBigUint64 else if v = 11 then Some TaFloat16 else None)"

fun sc_typed_array_kind_u8 :: "sc_typed_array_kind \<Rightarrow> u8" where
  "sc_typed_array_kind_u8 TaInt8 = 0"
| "sc_typed_array_kind_u8 TaUint8 = 1"
| "sc_typed_array_kind_u8 TaUint8Clamped = 2"
| "sc_typed_array_kind_u8 TaInt16 = 3"
| "sc_typed_array_kind_u8 TaUint16 = 4"
| "sc_typed_array_kind_u8 TaInt32 = 5"
| "sc_typed_array_kind_u8 TaUint32 = 6"
| "sc_typed_array_kind_u8 TaFloat32 = 7"
| "sc_typed_array_kind_u8 TaFloat64 = 8"
| "sc_typed_array_kind_u8 TaBigInt64 = 9"
| "sc_typed_array_kind_u8 TaBigUint64 = 10"
| "sc_typed_array_kind_u8 TaFloat16 = 11"

lemma sc_typed_array_kind_round_trip [simp]:
  "sc_typed_array_kind_from_u8 (sc_typed_array_kind_u8 k) = Some k"
  by (cases k) (simp_all add: sc_typed_array_kind_from_u8_def)

record reg_exp_flags =
  has_indices :: bool
  global_flag :: bool
  ignore_case :: bool
  multiline :: bool
  dot_all :: bool
  unicode :: bool
  unicode_sets :: bool
  sticky :: bool

definition to_bitfield :: "reg_exp_flags \<Rightarrow> u8" where
  "to_bitfield f =
     (let bits = (0::u8);
          bits = if has_indices f then bits OR push_bit 0 1 else bits;
          bits = if global_flag f then bits OR push_bit 1 1 else bits;
          bits = if ignore_case f then bits OR push_bit 2 1 else bits;
          bits = if multiline f then bits OR push_bit 3 1 else bits;
          bits = if dot_all f then bits OR push_bit 4 1 else bits;
          bits = if unicode f then bits OR push_bit 5 1 else bits;
          bits = if unicode_sets f then bits OR push_bit 6 1 else bits;
          bits = if sticky f then bits OR push_bit 7 1 else bits
      in bits)"

definition from_bitfield :: "u8 \<Rightarrow> reg_exp_flags" where
  "from_bitfield bits =
     \<lparr>has_indices = bits AND push_bit 0 1 \<noteq> 0, global_flag = bits AND push_bit 1 1 \<noteq> 0,
      ignore_case = bits AND push_bit 2 1 \<noteq> 0, multiline = bits AND push_bit 3 1 \<noteq> 0,
      dot_all = bits AND push_bit 4 1 \<noteq> 0, unicode = bits AND push_bit 5 1 \<noteq> 0,
      unicode_sets = bits AND push_bit 6 1 \<noteq> 0, sticky = bits AND push_bit 7 1 \<noteq> 0\<rparr>"

lemma from_to_bitfield [simp]: "from_bitfield (to_bitfield f) = f"
  by (cases f) (simp add: from_bitfield_def to_bitfield_def Let_def)

datatype 'b scvalue =
  ScUndefined
| ScNull
| ScBoolean bool
| ScNumber f64
| ScBigInt 'b
| ScString utf16
| ScDate f64
| ScRegExp utf16 reg_exp_flags
| ScArray "'b scvalue option list" "(utf16 \<times> 'b scvalue) list"
| ScObject "(utf16 \<times> 'b scvalue) list"
| ScMap "('b scvalue \<times> 'b scvalue) list"
| ScSet "'b scvalue list"
| ScError sc_error_kind "utf16 option" "'b scvalue option" "'b scvalue list option"
| ScArrayBuffer bytes "nat option"
| ScTypedArray sc_typed_array_kind nat nat "'b scvalue"
| ScDataView nat nat "'b scvalue"
| ScBoxedBoolean bool
| ScBoxedNumber f64
| ScBoxedString utf16
| ScBoxedBigInt 'b
| ScMemoRef nat

section \<open>Insertion-ordered maps\<close>

definition im_get :: "('k \<times> 'v) list \<Rightarrow> 'k \<Rightarrow> 'v option" where
  "im_get m k = map_of m k"

fun im_insert :: "'k \<Rightarrow> 'v \<Rightarrow> ('k \<times> 'v) list \<Rightarrow> ('k \<times> 'v) list" where
  "im_insert k v [] = [(k, v)]"
| "im_insert k v ((k', v') # m) = (if k' = k then (k', v) # m else (k', v') # im_insert k v m)"

lemma im_get_insert [simp]: "im_get (im_insert k v m) k' = (if k' = k then Some v else im_get m k')"
  by (induction k v m rule: im_insert.induct) (auto simp: im_get_def)

lemma im_get_Nil [simp]: "im_get [] k = None"
  by (simp add: im_get_def)

lemma im_keys_insert:
  "map fst (im_insert k v m) = (if k \<in> fst ` set m then map fst m else map fst m @ [k])"
  by (induction k v m rule: im_insert.induct) auto

lemma im_insert_distinct: "distinct (map fst m) \<Longrightarrow> distinct (map fst (im_insert k v m))"
  by (auto simp: im_keys_insert)

section \<open>Values as keys\<close>

fun to_key :: "'b scvalue \<Rightarrow> key_error + key option"
and to_key_items :: "'b scvalue option list \<Rightarrow> key list \<Rightarrow> key_error + key option" where
  "to_key (ScNumber n) = (if f64_is_nan n then Inl KeyInvalidValue else Inr (Some (KNumber n)))"
| "to_key (ScDate d) = (if f64_is_nan d then Inl KeyInvalidValue else Inr (Some (KDate d)))"
| "to_key (ScString s) = Inr (Some (KString s))"
| "to_key (ScArray elements extra) = to_key_items elements []"
| "to_key _ = Inl KeyInvalidType"
| "to_key_items [] keys = Inr (Some (KArray keys))"
| "to_key_items (None # es) keys = Inr None"
| "to_key_items (Some v # es) keys =
     rbind (to_key v) (\<lambda>r. case r of
       Some k \<Rightarrow> to_key_items es (keys @ [k])
     | None \<Rightarrow> Inr None)"

fun from_key :: "key \<Rightarrow> 'b scvalue" where
  "from_key (KNumber n) = ScNumber n"
| "from_key (KDate d) = ScDate d"
| "from_key (KString s) = ScString s"
| "from_key (KBinary b) = ScArrayBuffer b None"
| "from_key (KArray arr) = ScArray (map (\<lambda>k. Some (from_key k)) arr) []"

text \<open>Keys whose value converts back: binary keys become array buffers, which are not keys here.\<close>

fun key_invertible :: "key \<Rightarrow> bool" where
  "key_invertible (KBinary b) = False"
| "key_invertible (KNumber n) = (\<not> f64_is_nan n)"
| "key_invertible (KDate d) = (\<not> f64_is_nan d)"
| "key_invertible (KString s) = True"
| "key_invertible (KArray arr) = list_all key_invertible arr"

lemma to_key_items_from_key:
  "(\<And>k. k \<in> set ks \<Longrightarrow> to_key (from_key k :: 'b scvalue) = Inr (Some k)) \<Longrightarrow>
     to_key_items (map (\<lambda>k. Some (from_key k :: 'b scvalue)) ks) acc = Inr (Some (KArray (acc @ ks)))"
  by (induction ks arbitrary: acc) simp_all

lemma to_key_from_key: "key_invertible k \<Longrightarrow> to_key (from_key k :: 'b scvalue) = Inr (Some k)"
  by (induction k rule: key_invertible.induct) (simp_all add: list_all_iff to_key_items_from_key)

lemma to_key_from_key_binary: "to_key (from_key (KBinary b) :: 'b scvalue) = Inl KeyInvalidType"
  by simp

end
