(* ===== verification/Varint.thy ===== *)
theory Varint
  imports Idb_Error
begin

text \<open>
  Variable-length integers, \<open>clone/varint.rs\<close>: LEB128 for \<open>u64\<close>, ZigZag for \<open>i64\<close>. An \<open>i64\<close>
  is its 64-bit word, \<open>sint\<close> reads it, and its right shift is \<open>signed_drop_bit\<close>. The encoders
  append to an output buffer; the decoders take the input and an offset and return the value
  with the new offset.
\<close>

lemma shifted_less: "drop_bit 7 val \<noteq> 0 \<Longrightarrow> unat (drop_bit 7 val) < unat (val :: u64)"
proof -
  assume "drop_bit 7 val \<noteq> 0"
  then have "0 < unat val" by (metis drop_bit_of_0 gr0I unsigned_0 unsigned_eq_0_iff)
  then show ?thesis by (simp add: unat_drop_bit_eq drop_bit_nat)
qed

function encode_uvarint :: "u64 \<Rightarrow> bytes \<Rightarrow> bytes" where
  "encode_uvarint val out =
     (let byte = (ucast (val AND 0x7F) :: u8);
          val' = drop_bit 7 val;
          byte' = (if val' \<noteq> 0 then byte OR 0x80 else byte);
          out' = out @ [byte']
      in if val' = 0 then out' else encode_uvarint val' out')"
  by pat_completeness auto
termination encode_uvarint
  by (relation "measure (\<lambda>(val, out). unat val)") (auto intro: shifted_less)

function decode_uvarint_loop :: "bytes \<Rightarrow> nat \<Rightarrow> u64 \<Rightarrow> nat \<Rightarrow> sc_error + u64 \<times> nat" where
  "decode_uvarint_loop bs offset result shift =
     (if offset \<ge> length bs then Inl ScUnexpectedEof
      else
        let byte = bs ! offset;
            result' = result OR push_bit shift (ucast (byte AND 0x7F))
        in if byte AND 0x80 = 0 then Inr (result', offset + 1)
           else if shift + 7 \<ge> 64 then Inl ScCorruptedPayload
           else decode_uvarint_loop bs (offset + 1) result' (shift + 7))"
  by pat_completeness auto
termination decode_uvarint_loop
  by (relation "measure (\<lambda>(bs, offset, result, shift). 64 - shift)") auto

definition decode_uvarint :: "bytes \<Rightarrow> nat \<Rightarrow> sc_error + u64 \<times> nat" where
  "decode_uvarint bs offset = decode_uvarint_loop bs offset 0 0"

definition encode_ivarint :: "u64 \<Rightarrow> bytes \<Rightarrow> bytes" where
  "encode_ivarint val out = encode_uvarint (push_bit 1 val XOR signed_drop_bit 63 val) out"

definition decode_ivarint :: "bytes \<Rightarrow> nat \<Rightarrow> sc_error + u64 \<times> nat" where
  "decode_ivarint bs offset =
     rbind (decode_uvarint bs offset) (\<lambda>(zigzag, offset').
       Inr (drop_bit 1 zigzag XOR - (zigzag AND 1), offset'))"

declare encode_uvarint.simps [simp del] decode_uvarint_loop.simps [simp del]

section \<open>The encoding as a pure function\<close>

definition uvarint :: "u64 \<Rightarrow> bytes" where
  "uvarint val = encode_uvarint val []"

definition ivarint :: "u64 \<Rightarrow> bytes" where
  "ivarint val = encode_ivarint val []"

lemma encode_uvarint_shift: "encode_uvarint val (a @ out) = a @ encode_uvarint val out"
proof (induction val out rule: encode_uvarint.induct)
  case (1 val out)
  show ?case
    by (subst (1 2) encode_uvarint.simps) (use 1 in \<open>simp add: Let_def\<close>)
qed

lemma encode_uvarint_append: "encode_uvarint val out = out @ uvarint val"
  using encode_uvarint_shift [of val out "[]"] by (simp add: uvarint_def)

lemma encode_ivarint_append: "encode_ivarint val out = out @ ivarint val"
  by (simp add: encode_ivarint_def ivarint_def encode_uvarint_append [where out = out]
      encode_uvarint_append [where out = "[]"])

lemma uvarint_rec:
  "uvarint val =
     (if drop_bit 7 val = 0 then [ucast (val AND 0x7F)]
      else (ucast (val AND 0x7F) OR 0x80) # uvarint (drop_bit 7 val))"
  unfolding uvarint_def [of val]
  by (subst encode_uvarint.simps) (simp add: Let_def encode_uvarint_append [where out = "[_]"])

text \<open>The number of bytes: one per started group of seven bits, at most ten.\<close>

lemma uvarint_ne [simp]: "uvarint val \<noteq> []"
  by (subst uvarint_rec) simp

lemma length_uvarint: "unat val < 2 ^ (7 * n) \<Longrightarrow> 0 < n \<Longrightarrow> length (uvarint val) \<le> n"
proof (induction n arbitrary: val)
  case (Suc n)
  show ?case
  proof (cases "drop_bit 7 val = 0")
    case True
    then show ?thesis by (subst uvarint_rec) simp
  next
    case False
    have d: "unat (drop_bit 7 val) = unat val div 2 ^ 7"
      by (simp add: unat_drop_bit_eq drop_bit_nat)
    have "0 < n"
    proof (rule ccontr)
      assume "\<not> 0 < n"
      then have "unat (drop_bit 7 val) = 0" using Suc.prems d by simp
      with False show False by (simp add: unsigned_eq_0_iff)
    qed
    moreover have "unat (drop_bit 7 val) < 2 ^ (7 * n)"
      unfolding d using Suc.prems
      by (intro less_mult_imp_div_less) (simp add: power_add mult.commute)
    ultimately show ?thesis using Suc.IH False by (subst uvarint_rec) simp
  qed
qed simp

lemma length_uvarint_le: "length (uvarint val) \<le> 10"
  by (intro length_uvarint order_less_trans [OF unat_u64_less]) simp_all

section \<open>Round trips\<close>

lemma low_mask: "(0x7F :: u64) = mask 7" "(0x7F :: u8) = mask 7"
  by (simp_all add: mask_eq_exp_minus_1)

lemma bit_top: "bit (0x80 :: u8) n \<longleftrightarrow> n = 7"
proof -
  have "(0x80 :: u8) = push_bit 7 1" by simp
  then show ?thesis by (simp only: bit_push_bit_iff bit_1_iff) auto
qed

lemma low_group:
  fixes val :: u64 and g :: u8
  assumes g_def: "g = ucast (val AND 0x7F)"
  shows "ucast (g AND 0x7F) = val AND 0x7F"
    and "ucast ((g OR 0x80) AND 0x7F) = val AND 0x7F"
    and "(g OR 0x80) AND 0x80 \<noteq> 0"
    and "g AND 0x80 = 0"
proof -
  show "ucast (g AND 0x7F) = val AND 0x7F"
    unfolding low_mask g_def by (rule bit_word_eqI) (auto simp: bit_simps)
  show "ucast ((g OR 0x80) AND 0x7F) = val AND 0x7F"
    unfolding low_mask g_def
    by (rule bit_word_eqI) (auto simp: bit_simps bit_top simp del: bit_numeral_word_iff)
  show "g AND 0x80 = 0"
    unfolding low_mask g_def
    by (rule bit_word_eqI) (auto simp: bit_simps bit_top simp del: bit_numeral_word_iff)
  have "bit ((g OR 0x80) AND 0x80) 7"
    by (simp add: bit_and_iff bit_or_iff bit_top)
  then show "(g OR 0x80) AND 0x80 \<noteq> 0" by auto
qed

lemma join_groups:
  "push_bit k (val AND 0x7F) OR push_bit (k + 7) (drop_bit 7 val) = push_bit k (val :: u64)"
  unfolding low_mask
proof (rule bit_word_eqI)
  fix n
  assume "n < LENGTH(64)"
  then show "bit (push_bit k (val AND mask 7) OR push_bit (k + 7) (drop_bit 7 val)) n
    = bit (push_bit k val) n"
    by (cases "k \<le> n"; cases "n - k < 7") (auto simp: bit_simps)
qed

lemma decode_uvarint_loop_step:
  assumes "drop off bs = b # rest"
  shows "decode_uvarint_loop bs off result shift =
     (let result' = result OR push_bit shift (ucast (b AND 0x7F))
      in if b AND 0x80 = 0 then Inr (result', off + 1)
         else if shift + 7 \<ge> 64 then Inl ScCorruptedPayload
         else decode_uvarint_loop bs (off + 1) result' (shift + 7))"
proof -
  have "off < length bs" using assms by (metis drop_all list.distinct(1) not_le)
  moreover from this have "bs ! off = b" using assms by (simp add: Cons_nth_drop_Suc [symmetric])
  ultimately show ?thesis by (subst decode_uvarint_loop.simps) (simp add: Let_def)
qed

lemma decode_uvarint_loop_encode:
  assumes "drop off bs = uvarint val @ post" "unat val < 2 ^ (64 - shift)" "shift < 64"
  shows "decode_uvarint_loop bs off result shift
    = Inr (result OR push_bit shift val, off + length (uvarint val))"
  using assms
proof (induction val arbitrary: off result shift rule: measure_induct_rule [where f = unat])
  case (less val)
  show ?case
  proof (cases "drop_bit 7 val = 0")
    case True
    define g :: u8 where "g = ucast (val AND 0x7F)"
    have u: "uvarint val = [g]" using True unfolding g_def by (subst uvarint_rec) simp
    have "push_bit shift (ucast (g AND 0x7F)) = push_bit shift val"
      unfolding low_group(1) [OF g_def] using join_groups [of shift val] True by simp
    then show ?thesis
      using less.prems(1) low_group(4) [OF g_def]
      by (subst decode_uvarint_loop_step [of _ _ g post]) (simp_all add: u Let_def)
  next
    case False
    define w where "w = drop_bit 7 val"
    define g :: u8 where "g = ucast (val AND 0x7F)"
    have u: "uvarint val = (g OR 0x80) # uvarint w"
      using False unfolding w_def g_def by (subst uvarint_rec) simp
    have w: "unat w = unat val div 2 ^ 7" by (simp add: w_def unat_drop_bit_eq drop_bit_nat)
    have pos: "0 < unat w" using False by (metis gr0I unsigned_eq_0_iff w_def)
    have "7 + shift < 64"
    proof (rule ccontr)
      assume "\<not> 7 + shift < 64"
      then have "(2::nat) ^ (64 - shift) \<le> 2 ^ 7" by (intro power_increasing) auto
      with less.prems(2) w pos show False by simp
    qed
    moreover have "unat w < 2 ^ (64 - (shift + 7))"
    proof -
      have "(2::nat) ^ (64 - shift) = 2 ^ (64 - (shift + 7)) * 2 ^ 7"
        using calculation power_add [of "2::nat" "64 - (shift + 7)" 7] by simp
      with less.prems(2) show ?thesis unfolding w by (intro less_mult_imp_div_less) simp
    qed
    moreover have "drop (off + 1) bs = uvarint w @ post"
      using less.prems(1) by (simp add: u drop_Suc flip: tl_drop)
    moreover have "unat w < unat val"
      using False by (simp add: w_def shifted_less)
    ultimately show ?thesis
      using less.IH [of w "off + 1" "shift + 7" "result OR push_bit shift (val AND 0x7F)"] less.prems(1)
      by (subst decode_uvarint_loop_step [OF less.prems(1) [unfolded u append_Cons]])
        (simp only: low_group(2,3) [OF g_def] Let_def u join_groups or.assoc if_False w_def, simp)
  qed
qed

lemma decode_uvarint_encode:
  "drop off bs = uvarint val @ post \<Longrightarrow> decode_uvarint bs off = Inr (val, off + length (uvarint val))"
  unfolding decode_uvarint_def
  by (subst decode_uvarint_loop_encode [of _ _ val post]) (simp_all add: unat_u64_less)

definition zigzag :: "u64 \<Rightarrow> u64" where
  "zigzag val = push_bit 1 val XOR signed_drop_bit 63 val"

lemma ivarint_zigzag: "ivarint val = uvarint (zigzag val)"
  by (simp only: ivarint_def encode_ivarint_def uvarint_def zigzag_def)

lemma unzigzag: "drop_bit 1 (zigzag val) XOR - (zigzag val AND 1) = val"
proof -
  define z where "z = zigzag val"
  have "bit z n \<longleftrightarrow> (1 \<le> n \<and> n < 64 \<and> bit val (n - 1)) \<noteq> bit (signed_drop_bit 63 val) n" for n
    unfolding z_def zigzag_def bit_xor_iff bit_push_bit_iff by (auto dest: bit_imp_le_length)
  then have bit0: "bit z 0 = bit val 63"
    and bitS: "\<And>n. n < 63 \<Longrightarrow> bit z (Suc n) = (bit val n \<noteq> bit val 63)"
    by (auto simp: bit_signed_drop_bit_iff)
  have "- (z AND 1) = (if bit val 63 then - 1 else 0)"
    using bit0 by (simp add: and_one_eq bit_0 mod_2_eq_odd)
  then have "bit (drop_bit 1 z XOR - (z AND 1)) n = bit val n" if "n < 64" for n
    using that bitS [of n] bit_imp_le_length [of z 64]
    by (cases "n = 63") (auto simp: bit_xor_iff bit_drop_bit_eq)
  then show ?thesis unfolding z_def by (intro bit_word_eqI) simp
qed

lemma decode_ivarint_encode:
  "drop off bs = ivarint val @ post \<Longrightarrow> decode_ivarint bs off = Inr (val, off + length (ivarint val))"
  unfolding ivarint_zigzag decode_ivarint_def
  by (simp only: decode_uvarint_encode rbind.simps prod.case unzigzag)

text \<open>A decoder never moves past the input, and consumes at most ten bytes.\<close>

lemma decode_uvarint_loop_offset:
  "decode_uvarint_loop bs off result shift = Inr (v, off') \<Longrightarrow> shift < 64 \<Longrightarrow>
     off < off' \<and> off' \<le> length bs \<and> 7 * off' + shift \<le> 7 * off + 70"
proof (induction bs off result shift rule: decode_uvarint_loop.induct)
  case (1 bs off result shift)
  have lt: "off < length bs"
    using 1(2) by (subst (asm) decode_uvarint_loop.simps) (simp split: if_splits)
  show ?case
  proof (cases "bs ! off AND 0x80 = 0 \<or> 64 \<le> shift + 7")
    case True
    then show ?thesis
      using 1(2,3) lt by (subst (asm) decode_uvarint_loop.simps) (auto simp: Let_def split: if_splits)
  next
    case False
    then have "decode_uvarint_loop bs (off + 1) (result OR push_bit shift (ucast (bs ! off AND 0x7F))) (shift + 7)
        = Inr (v, off')"
      using 1(2) lt by (subst (asm) decode_uvarint_loop.simps) (simp add: Let_def)
    then show ?thesis using 1(1) [OF _ refl refl] lt False by auto
  qed
qed

lemma decode_uvarint_offset:
  "decode_uvarint bs off = Inr (v, off') \<Longrightarrow> off < off' \<and> off' \<le> length bs \<and> off' \<le> off + 10"
  unfolding decode_uvarint_def by (drule decode_uvarint_loop_offset) auto

text \<open>Round trip and bounds of the variable-length integers: what the encoders append to any
  output decodes to the encoded value wherever it stands in the input, consuming exactly the
  appended bytes, of which there are between one and ten.\<close>

theorem varint_round_trip:
  "(\<exists>u. encode_uvarint v out = out @ u \<and> 0 < length u \<and> length u \<le> 10 \<and>
      decode_uvarint (pre @ u @ post) (length pre) = Inr (v, length pre + length u)) \<and>
   (\<exists>u. encode_ivarint i out = out @ u \<and> 0 < length u \<and> length u \<le> 10 \<and>
      decode_ivarint (pre @ u @ post) (length pre) = Inr (i, length pre + length u))"
  using encode_uvarint_append [of v out] encode_ivarint_append [of i out]
    length_uvarint_le [of v] length_uvarint_le [of "zigzag i"]
    decode_uvarint_encode [of "length pre" "pre @ uvarint v @ post" v post]
    decode_ivarint_encode [of "length pre" "pre @ ivarint i @ post" i post]
  by (metis append_eq_conv_conj ivarint_zigzag length_greater_0_conv uvarint_ne)

end
