(* ===== verification/Crc32c.thy ===== *)
theory Crc32c
  imports Idb_Prelude
begin

text \<open>
  CRC-32C, \<open>clone/crc32c.rs\<close>: the table and the byte-wise checksum. \<open>crc_bit\<close> is one round of
  the loop that builds the table; the checksum is shown to be the bit-serial one and to change
  whenever one byte of the data changes.
\<close>

definition POLY_REFLECTED :: u32 where
  "POLY_REFLECTED = 0x82F63B78"

definition crc_bit :: "u32 \<Rightarrow> u32" where
  "crc_bit crc = (if crc AND 1 = 1 then drop_bit 1 crc XOR POLY_REFLECTED else drop_bit 1 crc)"

definition build_table :: "u32 list" where
  "build_table = map (\<lambda>i. (crc_bit ^^ 8) (word_of_nat i)) [0..<256]"

definition crc_step :: "u8 \<Rightarrow> u32 \<Rightarrow> u32" where
  "crc_step b crc =
     (let idx = unat ((crc XOR ucast b) AND 0xFF) in drop_bit 8 crc XOR build_table ! idx)"

definition crc32c :: "bytes \<Rightarrow> u32" where
  "crc32c data = NOT (fold crc_step data 0xFFFFFFFF)"

section \<open>The bit-serial checksum\<close>

text \<open>The reference: the register shifts once per message bit, least significant bit first.\<close>

definition byte_bits :: "u8 \<Rightarrow> bool list" where
  "byte_bits b = map (bit b) [0..<8]"

definition crc_serial_bit :: "bool \<Rightarrow> u32 \<Rightarrow> u32" where
  "crc_serial_bit v crc = crc_bit (crc XOR of_bool v)"

definition crc32c_serial :: "bytes \<Rightarrow> u32" where
  "crc32c_serial data = NOT (fold crc_serial_bit (concat (map byte_bits data)) 0xFFFFFFFF)"

text \<open>One byte of the table-driven loop is eight rounds of \<open>crc_bit\<close>.\<close>

definition crc_round :: "u8 \<Rightarrow> u32 \<Rightarrow> u32" where
  "crc_round b crc = (crc_bit ^^ 8) (crc XOR ucast b)"

lemma bit_crc_bit: "n < 32 \<Longrightarrow> bit (crc_bit x) n \<longleftrightarrow> bit x (Suc n) \<noteq> (bit x 0 \<and> bit POLY_REFLECTED n)"
  by (auto simp: crc_bit_def and_one_eq mod_2_eq_odd bit_simps bit_0)

lemma crc_bit_xor: "crc_bit (x XOR y) = crc_bit x XOR crc_bit y"
  by (rule bit_word_eqI) (auto simp: bit_crc_bit bit_xor_iff)

lemma crc_bits_xor: "(crc_bit ^^ n) (x XOR y) = (crc_bit ^^ n) x XOR (crc_bit ^^ n) y"
  by (induction n) (simp_all add: crc_bit_xor)

lemma crc_bits_high: "(\<And>i. i < n \<Longrightarrow> \<not> bit x i) \<Longrightarrow> (crc_bit ^^ n) x = drop_bit n x"
proof (induction n arbitrary: x)
  case (Suc n)
  have "crc_bit x = drop_bit 1 x"
    using Suc.prems [of 0] by (intro bit_word_eqI) (simp add: bit_crc_bit bit_drop_bit_eq)
  moreover have "(crc_bit ^^ n) (drop_bit 1 x) = drop_bit n (drop_bit 1 x)"
    using Suc.prems by (intro Suc.IH) (simp add: bit_drop_bit_eq)
  ultimately show ?case by (simp add: funpow_swap1)
qed simp

lemma inj_crc_bit: "inj crc_bit"
proof (rule injI)
  fix x y
  assume eq: "crc_bit x = crc_bit y"
  have top: "bit POLY_REFLECTED 31" unfolding POLY_REFLECTED_def by simp
  have top32: "\<not> bit z 32" for z :: u32 using bit_imp_le_length [of z 32] by auto
  have "bit (crc_bit z) 31 = bit z 0" for z
  proof -
    have "bit (crc_bit z) 31 \<longleftrightarrow> bit z (Suc 31) \<noteq> (bit z 0 \<and> bit POLY_REFLECTED 31)"
      by (rule bit_crc_bit) simp
    then show ?thesis using top top32 [of z] by simp
  qed
  from this [of x] this [of y] have low: "bit x 0 \<longleftrightarrow> bit y 0" by (simp only: eq)
  have "bit x n \<longleftrightarrow> bit y n" if "n < 32" for n
  proof (cases n)
    case (Suc m)
    then have "m < 32" using that by simp
    from bit_crc_bit [OF this, of x] bit_crc_bit [OF this, of y] show ?thesis
      unfolding Suc eq low by blast
  qed (simp only: low)
  then show "x = y" by (intro bit_word_eqI) simp
qed

lemma inj_crc_bits: "inj (crc_bit ^^ n)"
  using inj_fn [OF inj_crc_bit] .

lemma crc_step_round: "crc_step b crc = crc_round b crc"
proof -
  define x where "x = crc XOR ucast b"
  define low where "low = x AND 0xFF"
  have mask: "(0xFF :: u32) = mask 8" by (simp add: mask_eq_exp_minus_1)
  have x: "x = (x AND NOT (mask 8)) XOR low"
    unfolding low_def mask by (rule bit_word_eqI) (auto simp: bit_simps)
  have "unat low < 256"
  proof -
    have "low = take_bit 8 x" unfolding low_def mask by (simp add: take_bit_eq_mask)
    then show ?thesis by (simp add: unsigned_take_bit_eq take_bit_nat)
  qed
  then have "build_table ! unat low = (crc_bit ^^ 8) low"
    by (simp add: build_table_def)
  moreover have "(crc_bit ^^ 8) (x AND NOT (mask 8)) = drop_bit 8 crc"
  proof -
    have "(crc_bit ^^ 8) (x AND NOT (mask 8)) = drop_bit 8 (x AND NOT (mask 8))"
      by (rule crc_bits_high) (simp add: bit_simps)
    also have "\<dots> = drop_bit 8 crc"
      by (rule bit_word_eqI) (auto simp: x_def bit_simps dest: bit_imp_le_length)
    finally show ?thesis .
  qed
  ultimately show ?thesis
    unfolding crc_step_def crc_round_def Let_def x_def [symmetric] low_def [symmetric]
    by (subst x) (simp only: crc_bits_xor)
qed

lemma xor_cancel_u32: "(x :: u32) XOR z = y XOR z \<longleftrightarrow> x = y" "z XOR x = z XOR y \<longleftrightarrow> x = y"
proof -
  have "(w XOR z) XOR z = w" for w by (simp add: xor.assoc)
  then show "x XOR z = y XOR z \<longleftrightarrow> x = y" by (rule inj_eq [OF inj_on_inverseI])
  then show "z XOR x = z XOR y \<longleftrightarrow> x = y" by (simp only: xor.commute [of z])
qed

lemma crc_step_inj: "crc_step b x = crc_step b y \<longleftrightarrow> x = y"
  unfolding crc_step_round crc_round_def by (simp only: inj_eq [OF inj_crc_bits] xor_cancel_u32)

lemma crc_step_byte_inj: "crc_step a x = crc_step b x \<longleftrightarrow> a = b"
proof -
  have "(ucast a :: u32) = ucast b \<longleftrightarrow> a = b"
    using ucast_up_ucast_id [where 'a = 8 and 'b = 32] by (auto simp: is_up_def dest!: arg_cong [where f = "ucast :: u32 \<Rightarrow> u8"])
  then show ?thesis
    unfolding crc_step_round crc_round_def by (simp only: inj_eq [OF inj_crc_bits] xor_cancel_u32)
qed

lemma crc_fold_inj: "fold crc_step data x = fold crc_step data y \<longleftrightarrow> x = y"
  by (induction data arbitrary: x y) (simp_all add: crc_step_inj)

lemma crc_serial_bits:
  "n \<le> 8 \<Longrightarrow> fold crc_serial_bit (map (bit b) [0..<n]) crc = (crc_bit ^^ n) (crc XOR ucast (take_bit n (b :: u8)))"
proof (induction n)
  case (Suc n)
  define hi :: u32 where "hi = push_bit n (of_bool (bit b n))"
  have split: "(ucast (take_bit (Suc n) b) :: u32) = ucast (take_bit n b) XOR hi"
    using Suc.prems unfolding hi_def
    by (intro bit_word_eqI) (auto simp: bit_simps less_Suc_eq)
  have "(crc_bit ^^ n) hi = drop_bit n hi"
    by (rule crc_bits_high) (simp add: hi_def bit_simps)
  also have "\<dots> = of_bool (bit b n)"
    using Suc.prems unfolding hi_def by (intro bit_word_eqI) (auto simp: bit_simps)
  finally have hi: "(crc_bit ^^ n) hi = of_bool (bit b n)" .
  have IH: "fold crc_serial_bit (map (bit b) [0..<n]) crc = (crc_bit ^^ n) (crc XOR ucast (take_bit n b))"
    using Suc by simp
  have "fold crc_serial_bit (map (bit b) [0..<Suc n]) crc
      = crc_bit ((crc_bit ^^ n) (crc XOR ucast (take_bit n b)) XOR (crc_bit ^^ n) hi)"
    unfolding hi by (simp add: IH crc_serial_bit_def [of _ "(crc_bit ^^ n) _"])
  then show ?case by (simp add: split xor.assoc flip: crc_bits_xor)
qed simp

lemma crc_step_serial: "crc_step b crc = fold crc_serial_bit (byte_bits b) crc"
  using crc_serial_bits [of 8 b crc] by (simp add: crc_step_round crc_round_def byte_bits_def take_bit_word_eq_self)

text \<open>C38. The table-driven checksum is the bit-serial CRC-32C of the reflected Castagnoli polynomial;
  its value on the standard check string is the published one.\<close>

theorem crc32c_bit_serial:
  "crc32c data = crc32c_serial data \<and>
   crc32c [0x31, 0x32, 0x33, 0x34, 0x35, 0x36, 0x37, 0x38, 0x39] = 0xE3069283"
proof -
  have eq: "crc32c data = crc32c_serial data" for data
  proof -
    have "fold crc_step data crc = fold crc_serial_bit (concat (map byte_bits data)) crc" for crc
      by (induction data arbitrary: crc) (simp_all add: crc_step_serial)
    then show ?thesis by (simp add: crc32c_def crc32c_serial_def)
  qed
  moreover have "crc32c [0x31, 0x32, 0x33, 0x34, 0x35, 0x36, 0x37, 0x38, 0x39] = 0xE3069283"
    unfolding eq by code_simp
  ultimately show ?thesis by simp
qed

lemma crc32c_change_byte:
  assumes "i < length data" "b \<noteq> data ! i"
  shows "crc32c (data[i := b]) \<noteq> crc32c data"
proof -
  define y where "y = fold crc_step (take i data) 0xFFFFFFFF"
  have "fold crc_step data 0xFFFFFFFF = fold crc_step (drop (Suc i) data) (crc_step (data ! i) y)"
    using assms(1) by (subst id_take_nth_drop [of i data]) (simp_all add: y_def)
  moreover have "fold crc_step (data[i := b]) 0xFFFFFFFF = fold crc_step (drop (Suc i) data) (crc_step b y)"
    using assms(1) by (simp add: upd_conv_take_nth_drop y_def)
  ultimately show ?thesis
    using assms(2) by (simp add: crc32c_def crc_fold_inj crc_step_byte_inj)
qed

section \<open>The stored field\<close>

text \<open>A checksum or length is stored as four little-endian bytes; different bytes read differently.\<close>

lemma of_le_bytes_inject:
  "length xs = length ys \<Longrightarrow> of_le_bytes xs = of_le_bytes ys \<Longrightarrow> xs = ys"
  by (metis le_bytes_of_le_bytes)

lemma unat_word_of_nat_u32: "n < 4294967296 \<Longrightarrow> unat (word_of_nat n :: u32) = n"
  by (simp add: unat_of_nat take_bit_nat_eq_self)

lemma crc_field_inject:
  assumes "length xs = 4" "length ys = 4" "(word_of_nat (of_le_bytes xs) :: u32) = word_of_nat (of_le_bytes ys)"
  shows "xs = ys"
proof -
  have "of_le_bytes zs < 4294967296" if "length zs = 4" for zs
    using of_le_bytes_less [of zs] that by simp
  note u = unat_word_of_nat_u32 [OF this]
  have "of_le_bytes xs = of_le_bytes ys"
    using u [OF assms(1)] u [OF assms(2)] unfolding assms(3) by (rule trans [OF sym])
  then show ?thesis using assms(1,2) by (intro of_le_bytes_inject) simp_all
qed

section \<open>Sealed byte strings\<close>

text \<open>A byte string followed by its checksum, the form of structured-clone blobs, log frames,
  manifests and segments: no single changed byte leaves the stored checksum equal to the computed
  one.\<close>

definition sealed :: "bytes \<Rightarrow> bytes" where
  "sealed body = body @ le_bytes 4 (unat (crc32c body))"

lemma length_sealed [simp]: "length (sealed body) = length body + 4"
  by (simp add: sealed_def)

lemma sealed_field: "word_of_nat (of_le_bytes (le_bytes 4 (unat (crc32c body)))) = crc32c body"
  by (simp add: of_le_bytes_le_bytes)

lemma sealed_damage:
  assumes "i < length (sealed body)" "b \<noteq> sealed body ! i"
  shows "(word_of_nat (of_le_bytes (drop (length body) ((sealed body)[i := b]))) :: u32)
    \<noteq> crc32c (take (length body) ((sealed body)[i := b]))"
proof (cases "i < length body")
  case True
  then have "(sealed body)[i := b] = body[i := b] @ le_bytes 4 (unat (crc32c body))" "b \<noteq> body ! i"
    using assms(2) by (simp_all add: sealed_def list_update_append nth_append)
  then show ?thesis using crc32c_change_byte [OF True, of b] by (simp add: sealed_field)
next
  case False
  define j where "j = i - length body"
  have j: "j < 4" "b \<noteq> le_bytes 4 (unat (crc32c body)) ! j"
    using False assms by (auto simp: j_def sealed_def nth_append)
  have data: "(sealed body)[i := b] = body @ (le_bytes 4 (unat (crc32c body)))[j := b]"
    using False by (simp add: sealed_def list_update_append j_def)
  have "(le_bytes 4 (unat (crc32c body)))[j := b] \<noteq> le_bytes 4 (unat (crc32c body))"
    using j by (metis length_le_bytes nth_list_update_eq)
  then show ?thesis
    using crc_field_inject [of "(le_bytes 4 (unat (crc32c body)))[j := b]" "le_bytes 4 (unat (crc32c body))"]
    by (auto simp: data sealed_field)
qed

end
