(* ===== verification/Scf_Encode.thy ===== *)
theory Scf_Encode
  imports Sc_Value Varint Crc32c F64
begin

text \<open>
  The encoder of the structured-clone format, \<open>clone/encode.rs\<close>. The encoder state is a record
  passed through every function; the recursive functions return it or an error. The byte
  conversions of big integers belong to the \<open>num_bigint\<close> package: they are the argument
  \<open>bigint_ops\<close>. \<open>usize\<close> is 64 bits wide, so a length \<open>as u64\<close> is \<open>word_of_nat\<close>.
\<close>

definition SCF_UNDEFINED :: u8 where "SCF_UNDEFINED = 0x00"
definition SCF_NULL :: u8 where "SCF_NULL = 0x01"
definition SCF_FALSE :: u8 where "SCF_FALSE = 0x02"
definition SCF_TRUE :: u8 where "SCF_TRUE = 0x03"
definition SCF_INT32 :: u8 where "SCF_INT32 = 0x04"
definition SCF_DOUBLE :: u8 where "SCF_DOUBLE = 0x05"
definition SCF_STRING :: u8 where "SCF_STRING = 0x06"
definition SCF_BIGINT :: u8 where "SCF_BIGINT = 0x07"
definition SCF_DATE :: u8 where "SCF_DATE = 0x08"
definition SCF_REGEXP :: u8 where "SCF_REGEXP = 0x09"
definition SCF_ARRAY :: u8 where "SCF_ARRAY = 0x0A"
definition SCF_OBJECT :: u8 where "SCF_OBJECT = 0x0B"
definition SCF_MAP :: u8 where "SCF_MAP = 0x0C"
definition SCF_SET :: u8 where "SCF_SET = 0x0D"
definition SCF_ERROR :: u8 where "SCF_ERROR = 0x0E"
definition SCF_ARRAYBUFFER :: u8 where "SCF_ARRAYBUFFER = 0x0F"
definition SCF_TYPEDARRAY :: u8 where "SCF_TYPEDARRAY = 0x10"
definition SCF_DATAVIEW :: u8 where "SCF_DATAVIEW = 0x11"
definition SCF_BOXED :: u8 where "SCF_BOXED = 0x12"
definition SCF_MEMO_REF :: u8 where "SCF_MEMO_REF = 0x13"
definition SCF_HOLE :: u8 where "SCF_HOLE = 0x14"
definition BOXED_BOOL :: u8 where "BOXED_BOOL = 0"
definition BOXED_NUM :: u8 where "BOXED_NUM = 1"
definition BOXED_STR :: u8 where "BOXED_STR = 2"
definition BOXED_BIGINT :: u8 where "BOXED_BIGINT = 3"

lemmas scf_tags = SCF_UNDEFINED_def SCF_NULL_def SCF_FALSE_def SCF_TRUE_def SCF_INT32_def
  SCF_DOUBLE_def SCF_STRING_def SCF_BIGINT_def SCF_DATE_def SCF_REGEXP_def SCF_ARRAY_def
  SCF_OBJECT_def SCF_MAP_def SCF_SET_def SCF_ERROR_def SCF_ARRAYBUFFER_def SCF_TYPEDARRAY_def
  SCF_DATAVIEW_def SCF_BOXED_def SCF_MEMO_REF_def SCF_HOLE_def BOXED_BOOL_def BOXED_NUM_def
  BOXED_STR_def BOXED_BIGINT_def

definition SCF_MAGIC :: bytes where
  "SCF_MAGIC = [0x49, 0x44, 0x42, 0x31]"

definition SCF_VERSION :: u8 where
  "SCF_VERSION = 2"

section \<open>Big integers\<close>

datatype bigint_sign = BiMinus | BiNoSign | BiPlus

record 'b bigint_ops =
  bi_to_bytes_le :: "'b \<Rightarrow> bigint_sign \<times> bytes"
  bi_from_bytes_le :: "bigint_sign \<Rightarrow> bytes \<Rightarrow> 'b"

section \<open>Encoder state\<close>

record scf_encoder =
  se_buf :: bytes
  se_next_memo :: nat

definition scf_encoder_new :: scf_encoder where
  "scf_encoder_new = \<lparr>se_buf = SCF_MAGIC @ [SCF_VERSION] @ [0] @ [0, 0], se_next_memo = 0\<rparr>"

definition scf_finish :: "scf_encoder \<Rightarrow> bytes" where
  "scf_finish e = (let checksum = crc32c (se_buf e) in se_buf e @ le_bytes 4 (unat checksum))"

definition allocate_memo :: "scf_encoder \<Rightarrow> nat \<times> scf_encoder" where
  "allocate_memo e = (se_next_memo e, e\<lparr>se_next_memo := se_next_memo e + 1\<rparr>)"

definition check_size :: "limit_config \<Rightarrow> scf_encoder \<Rightarrow> sc_error + unit" where
  "check_size lim e =
     (if length (se_buf e) > max_value_len lim
      then Inl (ScValueTooLarge (max_value_len lim) (length (se_buf e))) else Inr ())"

text \<open>\<open>buf.push\<close>, \<open>buf.extend_from_slice\<close> and \<open>encode_uvarint(n as u64, &mut buf)\<close>.\<close>

definition push_byte :: "u8 \<Rightarrow> scf_encoder \<Rightarrow> scf_encoder" where
  "push_byte b e = e\<lparr>se_buf := se_buf e @ [b]\<rparr>"

definition push_bytes :: "bytes \<Rightarrow> scf_encoder \<Rightarrow> scf_encoder" where
  "push_bytes bs e = e\<lparr>se_buf := se_buf e @ bs\<rparr>"

definition push_uvarint :: "nat \<Rightarrow> scf_encoder \<Rightarrow> scf_encoder" where
  "push_uvarint n e = e\<lparr>se_buf := encode_uvarint (word_of_nat n) (se_buf e)\<rparr>"

section \<open>Primitive values\<close>

definition encode_number :: "f64 \<Rightarrow> scf_encoder \<Rightarrow> scf_encoder" where
  "encode_number n e =
     (let i = f64_as_i32 n in
      if f64_eq (f64_fract n) f64_zero \<and> (\<not> f64_eq n f64_zero \<or> \<not> f64_neg n) \<and>
         f64_le (f64_of_int (- (2 ^ 31))) n \<and> f64_le n (f64_of_int (2 ^ 31 - 1)) \<and>
         f64_eq (f64_of_int i) n
      then let e = push_byte SCF_INT32 e in e\<lparr>se_buf := encode_ivarint (word_of_int i) (se_buf e)\<rparr>
      else push_bytes (le_bytes 8 (unat n)) (push_byte SCF_DOUBLE e))"

definition encode_bigint :: "'b bigint_ops \<Rightarrow> 'b \<Rightarrow> scf_encoder \<Rightarrow> scf_encoder" where
  "encode_bigint B bi e =
     (let e = push_byte SCF_BIGINT e;
          (sign, bs) = bi_to_bytes_le B bi;
          sign_byte = (case sign of BiMinus \<Rightarrow> 1 | _ \<Rightarrow> 0)
      in push_bytes bs (push_uvarint (length bs) (push_byte sign_byte e)))"

definition encode_string_value :: "utf16 \<Rightarrow> scf_encoder \<Rightarrow> scf_encoder" where
  "encode_string_value s e = fold (\<lambda>u. push_bytes (le_bytes 2 (unat u))) s (push_uvarint (length s) e)"

definition encode_string :: "utf16 \<Rightarrow> scf_encoder \<Rightarrow> scf_encoder" where
  "encode_string s e = encode_string_value s (push_byte SCF_STRING e)"

definition encode_date :: "f64 \<Rightarrow> scf_encoder \<Rightarrow> scf_encoder" where
  "encode_date d e = push_bytes (le_bytes 8 (unat d)) (push_byte SCF_DATE e)"

definition encode_regexp :: "utf16 \<Rightarrow> reg_exp_flags \<Rightarrow> scf_encoder \<Rightarrow> scf_encoder" where
  "encode_regexp pattern flags e =
     (let e = push_byte SCF_REGEXP e;
          e = fold (\<lambda>u. push_bytes (le_bytes 2 (unat u))) pattern (push_uvarint (length pattern) e)
      in push_uvarint (unat (to_bitfield flags)) e)"

definition encode_arraybuffer :: "bytes \<Rightarrow> nat option \<Rightarrow> scf_encoder \<Rightarrow> scf_encoder" where
  "encode_arraybuffer data max_byte_length e =
     (let (_, e) = allocate_memo e;
          e = push_byte SCF_ARRAYBUFFER e;
          e = (case max_byte_length of Some m \<Rightarrow> push_uvarint (m + 1) e | None \<Rightarrow> push_uvarint 0 e);
          e = push_uvarint (length data) e
      in push_bytes data e)"

definition encode_boxed_bool :: "bool \<Rightarrow> scf_encoder \<Rightarrow> scf_encoder" where
  "encode_boxed_bool b e =
     (let (_, e) = allocate_memo e
      in push_byte (if b then SCF_TRUE else SCF_FALSE) (push_byte BOXED_BOOL (push_byte SCF_BOXED e)))"

definition encode_boxed_num :: "f64 \<Rightarrow> scf_encoder \<Rightarrow> scf_encoder" where
  "encode_boxed_num n e =
     (let (_, e) = allocate_memo e in encode_number n (push_byte BOXED_NUM (push_byte SCF_BOXED e)))"

definition encode_boxed_str :: "utf16 \<Rightarrow> scf_encoder \<Rightarrow> scf_encoder" where
  "encode_boxed_str s e =
     (let (_, e) = allocate_memo e in encode_string s (push_byte BOXED_STR (push_byte SCF_BOXED e)))"

definition encode_boxed_bigint :: "'b bigint_ops \<Rightarrow> 'b \<Rightarrow> scf_encoder \<Rightarrow> scf_encoder" where
  "encode_boxed_bigint B bi e =
     (let (_, e) = allocate_memo e in encode_bigint B bi (push_byte BOXED_BIGINT (push_byte SCF_BOXED e)))"

definition error_flags :: "utf16 option \<Rightarrow> 'a option \<Rightarrow> 'c option \<Rightarrow> u8" where
  "error_flags message cause errors =
     (let flags = (0 :: u8);
          flags = (if message \<noteq> None then flags OR push_bit 0 1 else flags);
          flags = (if cause \<noteq> None then flags OR push_bit 1 1 else flags);
          flags = (if errors \<noteq> None then flags OR push_bit 2 1 else flags)
      in flags)"

text \<open>The part of \<open>encode_error\<close> before the cause: memo, tag, kind, flags and message.\<close>

definition encode_error_head ::
    "sc_error_kind \<Rightarrow> utf16 option \<Rightarrow> 'a option \<Rightarrow> 'c option \<Rightarrow> scf_encoder \<Rightarrow> scf_encoder" where
  "encode_error_head kind message cause errors e =
     (let e = push_byte SCF_ERROR (snd (allocate_memo e));
          e = push_byte (sc_error_kind_u8 kind) e;
          e = push_byte (error_flags message cause errors) e
      in case message of Some msg \<Rightarrow> encode_string_value msg e | None \<Rightarrow> e)"

section \<open>Values\<close>

text \<open>The loops over the children of a container take the encoder of a child, which is
  \<open>encode_with_depth\<close> one level deeper.\<close>

primrec encode_elements ::
    "('b scvalue \<Rightarrow> scf_encoder \<Rightarrow> sc_error + scf_encoder) \<Rightarrow> 'b scvalue option list \<Rightarrow> nat \<Rightarrow> scf_encoder \<Rightarrow>
     sc_error + scf_encoder" where
  "encode_elements ev [] i e = Inr e"
| "encode_elements ev (elem # es) i e =
     (case elem of
        None \<Rightarrow> encode_elements ev es (i + 1) e
      | Some v \<Rightarrow> rbind (ev v (push_uvarint i e)) (\<lambda>e. encode_elements ev es (i + 1) e))"

primrec encode_props ::
    "('b scvalue \<Rightarrow> scf_encoder \<Rightarrow> sc_error + scf_encoder) \<Rightarrow> (utf16 \<times> 'b scvalue) list \<Rightarrow> scf_encoder \<Rightarrow>
     sc_error + scf_encoder" where
  "encode_props ev [] e = Inr e"
| "encode_props ev (p # ps) e =
     rbind (ev (snd p) (encode_string_value (fst p) e)) (\<lambda>e. encode_props ev ps e)"

primrec encode_pairs ::
    "('b scvalue \<Rightarrow> scf_encoder \<Rightarrow> sc_error + scf_encoder) \<Rightarrow> ('b scvalue \<times> 'b scvalue) list \<Rightarrow> scf_encoder \<Rightarrow>
     sc_error + scf_encoder" where
  "encode_pairs ev [] e = Inr e"
| "encode_pairs ev (p # ps) e =
     rbind (ev (fst p) e) (\<lambda>e. rbind (ev (snd p) e) (\<lambda>e. encode_pairs ev ps e))"

primrec encode_values ::
    "('b scvalue \<Rightarrow> scf_encoder \<Rightarrow> sc_error + scf_encoder) \<Rightarrow> 'b scvalue list \<Rightarrow> scf_encoder \<Rightarrow>
     sc_error + scf_encoder" where
  "encode_values ev [] e = Inr e"
| "encode_values ev (v # vs) e = rbind (ev v e) (\<lambda>e. encode_values ev vs e)"

function encode_with_depth ::
    "limit_config \<Rightarrow> 'b bigint_ops \<Rightarrow> nat \<Rightarrow> 'b scvalue \<Rightarrow> scf_encoder \<Rightarrow> sc_error + scf_encoder" where
  "encode_with_depth lim B depth v e =
     (if depth > max_clone_depth lim then Inl (ScMaxDepthExceeded (max_clone_depth lim))
      else rbind (check_size lim e) (\<lambda>_. case v of
        ScUndefined \<Rightarrow> Inr (push_byte SCF_UNDEFINED e)
      | ScNull \<Rightarrow> Inr (push_byte SCF_NULL e)
      | ScBoolean b \<Rightarrow> Inr (push_byte (if b then SCF_TRUE else SCF_FALSE) e)
      | ScNumber n \<Rightarrow> Inr (encode_number n e)
      | ScBigInt bi \<Rightarrow> Inr (encode_bigint B bi e)
      | ScString s \<Rightarrow> Inr (encode_string s e)
      | ScDate d \<Rightarrow> Inr (encode_date d e)
      | ScRegExp pattern flags \<Rightarrow> Inr (encode_regexp pattern flags e)
      | ScArray elements extra \<Rightarrow>
          rbind (encode_elements (\<lambda>v e. encode_with_depth lim B (depth + 1) v e) elements 0
            (push_uvarint (length (filter (\<lambda>x. x \<noteq> None) elements))
              (push_uvarint (length elements) (push_byte SCF_ARRAY (snd (allocate_memo e)))))) (\<lambda>e.
          encode_props (\<lambda>v e. encode_with_depth lim B (depth + 1) v e) extra (push_uvarint (length extra) e))
      | ScObject props \<Rightarrow>
          encode_props (\<lambda>v e. encode_with_depth lim B (depth + 1) v e) props
            (push_uvarint (length props) (push_byte SCF_OBJECT (snd (allocate_memo e))))
      | ScMap pairs \<Rightarrow>
          encode_pairs (\<lambda>v e. encode_with_depth lim B (depth + 1) v e) pairs
            (push_uvarint (length pairs) (push_byte SCF_MAP (snd (allocate_memo e))))
      | ScSet vals \<Rightarrow>
          encode_values (\<lambda>v e. encode_with_depth lim B (depth + 1) v e) vals
            (push_uvarint (length vals) (push_byte SCF_SET (snd (allocate_memo e))))
      | ScError kind message cause errors \<Rightarrow>
          rbind
            (case cause of
               Some c \<Rightarrow> encode_with_depth lim B (depth + 1) c (encode_error_head kind message cause errors e)
             | None \<Rightarrow> Inr (encode_error_head kind message cause errors e)) (\<lambda>e.
          case errors of
            Some errs \<Rightarrow>
              encode_values (\<lambda>v e. encode_with_depth lim B (depth + 1) v e) errs (push_uvarint (length errs) e)
          | None \<Rightarrow> Inr e)
      | ScArrayBuffer data m \<Rightarrow> Inr (encode_arraybuffer data m e)
      | ScTypedArray kind byte_offset len buffer \<Rightarrow>
          encode_with_depth lim B (depth + 1) buffer
            (push_uvarint len (push_uvarint byte_offset
              (push_byte (sc_typed_array_kind_u8 kind) (push_byte SCF_TYPEDARRAY (snd (allocate_memo e))))))
      | ScDataView byte_offset byte_length buffer \<Rightarrow>
          encode_with_depth lim B (depth + 1) buffer
            (push_uvarint byte_length (push_uvarint byte_offset
              (push_byte SCF_DATAVIEW (snd (allocate_memo e)))))
      | ScBoxedBoolean b \<Rightarrow> Inr (encode_boxed_bool b e)
      | ScBoxedNumber n \<Rightarrow> Inr (encode_boxed_num n e)
      | ScBoxedString s \<Rightarrow> Inr (encode_boxed_str s e)
      | ScBoxedBigInt bi \<Rightarrow> Inr (encode_boxed_bigint B bi e)
      | ScMemoRef idx \<Rightarrow> Inr (push_uvarint idx (push_byte SCF_MEMO_REF e))))"
  by pat_completeness auto
termination encode_with_depth
  by (relation "measure (\<lambda>(lim, B, depth, v, e). max_clone_depth lim + 1 - depth)") auto

declare encode_with_depth.simps [simp del]

definition encode_scf :: "limit_config \<Rightarrow> 'b bigint_ops \<Rightarrow> 'b scvalue \<Rightarrow> sc_error + bytes" where
  "encode_scf lim B v = rbind (encode_with_depth lim B 0 v scf_encoder_new) (\<lambda>e. Inr (scf_finish e))"

end
