(* ===== verification/Scf_Decode.thy ===== *)
theory Scf_Decode
  imports Scf_Encode
begin

text \<open>
  The decoder of the structured-clone format, \<open>clone/decode.rs\<close>. A fault is an error the
  decoder returns or a panic: \<open>read_bytes\<close> computes \<open>offset + n\<close> on \<open>usize\<close>, and where that
  overflows the program panics, in the addition or, if it wraps, in the slice whose end is before
  its start. The functions for containers take the decoder of a child, which is
  \<open>decode_value_depth\<close> one level deeper.
\<close>

datatype sc_fault = ScErr sc_error | ScPanic

record 'b scf_decoder =
  sd_data :: bytes
  sd_offset :: nat
  sd_memo :: "'b scvalue list"

definition scf_decoder_new :: "bytes \<Rightarrow> 'b scf_decoder" where
  "scf_decoder_new data = \<lparr>sd_data = data, sd_offset = 0, sd_memo = []\<rparr>"

definition sd_remaining :: "'b scf_decoder \<Rightarrow> nat" where
  "sd_remaining d = length (sd_data d) - sd_offset d"

definition read_byte :: "'b scf_decoder \<Rightarrow> sc_fault + u8 \<times> 'b scf_decoder" where
  "read_byte d =
     (if sd_offset d \<ge> length (sd_data d) then Inl (ScErr ScUnexpectedEof)
      else Inr (sd_data d ! sd_offset d, d\<lparr>sd_offset := sd_offset d + 1\<rparr>))"

definition read_bytes :: "nat \<Rightarrow> 'b scf_decoder \<Rightarrow> sc_fault + bytes \<times> 'b scf_decoder" where
  "read_bytes n d =
     (if sd_offset d + n \<ge> 2 ^ 64 then Inl ScPanic
      else if sd_offset d + n > length (sd_data d) then Inl (ScErr ScUnexpectedEof)
      else Inr (take n (drop (sd_offset d) (sd_data d)), d\<lparr>sd_offset := sd_offset d + n\<rparr>))"

definition read_f64_le :: "'b scf_decoder \<Rightarrow> sc_fault + f64 \<times> 'b scf_decoder" where
  "read_f64_le d = rbind (read_bytes 8 d) (\<lambda>(bs, d). Inr (word_of_nat (of_le_bytes bs), d))"

definition read_uvarint :: "'b scf_decoder \<Rightarrow> sc_fault + u64 \<times> 'b scf_decoder" where
  "read_uvarint d =
     rbind (map_err ScErr (decode_uvarint (sd_data d) (sd_offset d))) (\<lambda>(v, off).
       Inr (v, d\<lparr>sd_offset := off\<rparr>))"

definition read_ivarint :: "'b scf_decoder \<Rightarrow> sc_fault + u64 \<times> 'b scf_decoder" where
  "read_ivarint d =
     rbind (map_err ScErr (decode_ivarint (sd_data d) (sd_offset d))) (\<lambda>(v, off).
       Inr (v, d\<lparr>sd_offset := off\<rparr>))"

definition u64_to_usize :: "u64 \<Rightarrow> sc_fault + nat" where
  "u64_to_usize v = Inr (unat v)"

text \<open>\<open>Self::u64_to_usize(decode_uvarint(self.data, &mut self.offset)?)?\<close>\<close>

definition read_usize :: "'b scf_decoder \<Rightarrow> sc_fault + nat \<times> 'b scf_decoder" where
  "read_usize d = rbind (read_uvarint d) (\<lambda>(v, d). rbind (u64_to_usize v) (\<lambda>n. Inr (n, d)))"

definition check_count :: "nat \<Rightarrow> 'b scf_decoder \<Rightarrow> sc_fault + unit" where
  "check_count count d = (if count > sd_remaining d then Inl (ScErr ScCorruptedPayload) else Inr ())"

text \<open>\<open>memo_vec.push(ScValue::Undefined)\<close> and \<open>memo_vec[memo_idx] = v.clone()\<close>.\<close>

definition memo_reserve :: "'b scf_decoder \<Rightarrow> nat \<times> 'b scf_decoder" where
  "memo_reserve d = (length (sd_memo d), d\<lparr>sd_memo := sd_memo d @ [ScUndefined]\<rparr>)"

definition memo_fill :: "nat \<Rightarrow> 'b scvalue \<Rightarrow> 'b scf_decoder \<Rightarrow> 'b scvalue \<times> 'b scf_decoder" where
  "memo_fill idx v d = (v, d\<lparr>sd_memo := (sd_memo d)[idx := v]\<rparr>)"

section \<open>Primitive values\<close>

primrec read_units :: "nat \<Rightarrow> utf16 \<Rightarrow> 'b scf_decoder \<Rightarrow> sc_fault + utf16 \<times> 'b scf_decoder" where
  "read_units 0 units d = Inr (units, d)"
| "read_units (Suc n) units d =
     rbind (read_bytes 2 d) (\<lambda>(bs, d). read_units n (units @ [word_of_nat (of_le_bytes bs)]) d)"

definition decode_string_value :: "'b scf_decoder \<Rightarrow> sc_fault + 'b scvalue \<times> 'b scf_decoder" where
  "decode_string_value d =
     rbind (read_usize d) (\<lambda>(len, d).
     if len * 2 \<ge> 2 ^ 64 then Inl (ScErr ScCorruptedPayload)
     else if sd_remaining d < len * 2 then Inl (ScErr ScUnexpectedEof)
     else rbind (read_units len [] d) (\<lambda>(units, d). Inr (ScString units, d)))"

text \<open>\<open>let ScValue::String(key) = self.decode_string_value()? else { corrupted }\<close>\<close>

definition read_string :: "'b scf_decoder \<Rightarrow> sc_fault + utf16 \<times> 'b scf_decoder" where
  "read_string d =
     rbind (decode_string_value d) (\<lambda>(v, d).
     case v of ScString s \<Rightarrow> Inr (s, d) | _ \<Rightarrow> Inl (ScErr ScCorruptedPayload))"

definition decode_bigint_value ::
    "'b bigint_ops \<Rightarrow> 'b scf_decoder \<Rightarrow> sc_fault + 'b scvalue \<times> 'b scf_decoder" where
  "decode_bigint_value B d =
     rbind (read_byte d) (\<lambda>(sign_byte, d).
     rbind (read_usize d) (\<lambda>(len, d).
     rbind (read_bytes len d) (\<lambda>(bs, d).
     if sign_byte = 0 then Inr (ScBigInt (bi_from_bytes_le B BiPlus bs), d)
     else if sign_byte = 1 then Inr (ScBigInt (bi_from_bytes_le B BiMinus bs), d)
     else Inl (ScErr ScCorruptedPayload))))"

definition decode_regexp_value :: "'b scf_decoder \<Rightarrow> sc_fault + 'b scvalue \<times> 'b scf_decoder" where
  "decode_regexp_value d =
     rbind (read_usize d) (\<lambda>(pat_len, d).
     if pat_len * 2 \<ge> 2 ^ 64 then Inl (ScErr ScCorruptedPayload)
     else if sd_remaining d < pat_len * 2 then Inl (ScErr ScUnexpectedEof)
     else rbind (read_units pat_len [] d) (\<lambda>(units, d).
          rbind (read_uvarint d) (\<lambda>(flags_raw, d).
          if unat flags_raw > 255 then Inl (ScErr ScCorruptedPayload)
          else Inr (ScRegExp units (from_bitfield (ucast flags_raw)), d))))"

definition decode_arraybuffer_value :: "'b scf_decoder \<Rightarrow> sc_fault + 'b scvalue \<times> 'b scf_decoder" where
  "decode_arraybuffer_value d =
     (let (memo_idx, d) = memo_reserve d in
      rbind (read_usize d) (\<lambda>(max_raw, d).
      rbind (read_usize d) (\<lambda>(byte_len, d).
      rbind (read_bytes byte_len d) (\<lambda>(data, d).
      Inr (memo_fill memo_idx (ScArrayBuffer data (if max_raw = 0 then None else Some (max_raw - 1))) d)))))"

definition decode_memo_ref :: "'b scf_decoder \<Rightarrow> sc_fault + 'b scvalue \<times> 'b scf_decoder" where
  "decode_memo_ref d =
     rbind (read_uvarint d) (\<lambda>(v, d).
     let idx = unat v in
     if idx \<ge> length (sd_memo d) then Inl (ScErr (ScInvalidMemoRef idx)) else Inr (sd_memo d ! idx, d))"

section \<open>Containers\<close>

type_synonym 'b child_decoder = "'b scf_decoder \<Rightarrow> sc_fault + 'b scvalue \<times> 'b scf_decoder"

primrec decode_elements ::
    "'b child_decoder \<Rightarrow> nat \<Rightarrow> nat \<Rightarrow> 'b scvalue option list \<Rightarrow> 'b scf_decoder \<Rightarrow>
     sc_fault + 'b scvalue option list \<times> 'b scf_decoder" where
  "decode_elements dv 0 len elements d = Inr (elements, d)"
| "decode_elements dv (Suc n) len elements d =
     rbind (read_usize d) (\<lambda>(index, d).
     if index \<ge> len then Inl (ScErr ScCorruptedPayload)
     else rbind (dv d) (\<lambda>(val, d).
       if elements ! index \<noteq> None then Inl (ScErr ScCorruptedPayload)
       else decode_elements dv n len (elements[index := Some val]) d))"

primrec decode_extra ::
    "'b child_decoder \<Rightarrow> nat \<Rightarrow> (utf16 \<times> 'b scvalue) list \<Rightarrow> 'b scf_decoder \<Rightarrow>
     sc_fault + (utf16 \<times> 'b scvalue) list \<times> 'b scf_decoder" where
  "decode_extra dv 0 props d = Inr (props, d)"
| "decode_extra dv (Suc n) props d =
     rbind (read_string d) (\<lambda>(key, d).
     rbind (dv d) (\<lambda>(val, d). decode_extra dv n (props @ [(key, val)]) d))"

primrec decode_entries ::
    "'b child_decoder \<Rightarrow> nat \<Rightarrow> (utf16 \<times> 'b scvalue) list \<Rightarrow> 'b scf_decoder \<Rightarrow>
     sc_fault + (utf16 \<times> 'b scvalue) list \<times> 'b scf_decoder" where
  "decode_entries dv 0 m d = Inr (m, d)"
| "decode_entries dv (Suc n) m d =
     rbind (read_string d) (\<lambda>(key, d).
     rbind (dv d) (\<lambda>(val, d). decode_entries dv n (im_insert key val m) d))"

primrec decode_pairs ::
    "'b child_decoder \<Rightarrow> nat \<Rightarrow> ('b scvalue \<times> 'b scvalue) list \<Rightarrow> 'b scf_decoder \<Rightarrow>
     sc_fault + ('b scvalue \<times> 'b scvalue) list \<times> 'b scf_decoder" where
  "decode_pairs dv 0 pairs d = Inr (pairs, d)"
| "decode_pairs dv (Suc n) pairs d =
     rbind (dv d) (\<lambda>(k, d). rbind (dv d) (\<lambda>(v, d). decode_pairs dv n (pairs @ [(k, v)]) d))"

primrec decode_values ::
    "'b child_decoder \<Rightarrow> nat \<Rightarrow> 'b scvalue list \<Rightarrow> 'b scf_decoder \<Rightarrow>
     sc_fault + 'b scvalue list \<times> 'b scf_decoder" where
  "decode_values dv 0 vals d = Inr (vals, d)"
| "decode_values dv (Suc n) vals d = rbind (dv d) (\<lambda>(v, d). decode_values dv n (vals @ [v]) d)"

definition decode_array_value ::
    "limit_config \<Rightarrow> 'b child_decoder \<Rightarrow> 'b scf_decoder \<Rightarrow> sc_fault + 'b scvalue \<times> 'b scf_decoder" where
  "decode_array_value lim dv d =
     (let (memo_idx, d) = memo_reserve d in
      rbind (read_usize d) (\<lambda>(len, d).
      rbind (read_usize d) (\<lambda>(items_count, d).
      if len > max_value_len lim then Inl (ScErr (ScValueTooLarge (max_value_len lim) len))
      else if items_count > len then Inl (ScErr ScCorruptedPayload)
      else rbind (check_count items_count d) (\<lambda>_.
           rbind (decode_elements dv items_count len (replicate len None) d) (\<lambda>(elements, d).
           rbind (read_usize d) (\<lambda>(extra_count, d).
           rbind (check_count extra_count d) (\<lambda>_.
           rbind (decode_extra dv extra_count [] d) (\<lambda>(extra_props, d).
           Inr (memo_fill memo_idx (ScArray elements extra_props) d)))))))))"

definition decode_object_value ::
    "'b child_decoder \<Rightarrow> 'b scf_decoder \<Rightarrow> sc_fault + 'b scvalue \<times> 'b scf_decoder" where
  "decode_object_value dv d =
     (let (memo_idx, d) = memo_reserve d in
      rbind (read_usize d) (\<lambda>(count, d).
      rbind (check_count count d) (\<lambda>_.
      rbind (decode_entries dv count [] d) (\<lambda>(m, d).
      Inr (memo_fill memo_idx (ScObject m) d)))))"

definition decode_map_value ::
    "'b child_decoder \<Rightarrow> 'b scf_decoder \<Rightarrow> sc_fault + 'b scvalue \<times> 'b scf_decoder" where
  "decode_map_value dv d =
     (let (memo_idx, d) = memo_reserve d in
      rbind (read_usize d) (\<lambda>(count, d).
      rbind (check_count count d) (\<lambda>_.
      rbind (decode_pairs dv count [] d) (\<lambda>(pairs, d).
      Inr (memo_fill memo_idx (ScMap pairs) d)))))"

definition decode_set_value ::
    "'b child_decoder \<Rightarrow> 'b scf_decoder \<Rightarrow> sc_fault + 'b scvalue \<times> 'b scf_decoder" where
  "decode_set_value dv d =
     (let (memo_idx, d) = memo_reserve d in
      rbind (read_usize d) (\<lambda>(count, d).
      rbind (check_count count d) (\<lambda>_.
      rbind (decode_values dv count [] d) (\<lambda>(vals, d).
      Inr (memo_fill memo_idx (ScSet vals) d)))))"

definition decode_error_value ::
    "'b child_decoder \<Rightarrow> 'b scf_decoder \<Rightarrow> sc_fault + 'b scvalue \<times> 'b scf_decoder" where
  "decode_error_value dv d =
     (let (memo_idx, d) = memo_reserve d in
      rbind (read_byte d) (\<lambda>(kind_byte, d).
      case sc_error_kind_from_u8 kind_byte of
        None \<Rightarrow> Inl (ScErr ScCorruptedPayload)
      | Some kind \<Rightarrow>
          rbind (read_byte d) (\<lambda>(flags, d).
          rbind (if flags AND push_bit 0 1 \<noteq> 0
                 then rbind (read_string d) (\<lambda>(s, d). Inr (Some s, d)) else Inr (None, d)) (\<lambda>(message, d).
          rbind (if flags AND push_bit 1 1 \<noteq> 0
                 then rbind (dv d) (\<lambda>(c, d). Inr (Some c, d)) else Inr (None, d)) (\<lambda>(cause, d).
          rbind (if flags AND push_bit 2 1 \<noteq> 0
                 then rbind (read_usize d) (\<lambda>(count, d).
                      rbind (check_count count d) (\<lambda>_.
                      rbind (decode_values dv count [] d) (\<lambda>(errs, d). Inr (Some errs, d))))
                 else Inr (None, d)) (\<lambda>(errors, d).
          Inr (memo_fill memo_idx (ScError kind message cause errors) d)))))))"

definition decode_typedarray_value ::
    "'b child_decoder \<Rightarrow> 'b scf_decoder \<Rightarrow> sc_fault + 'b scvalue \<times> 'b scf_decoder" where
  "decode_typedarray_value dv d =
     (let (memo_idx, d) = memo_reserve d in
      rbind (read_byte d) (\<lambda>(kind_byte, d).
      case sc_typed_array_kind_from_u8 kind_byte of
        None \<Rightarrow> Inl (ScErr ScCorruptedPayload)
      | Some kind \<Rightarrow>
          rbind (read_usize d) (\<lambda>(byte_offset, d).
          rbind (read_usize d) (\<lambda>(len, d).
          rbind (dv d) (\<lambda>(buffer, d).
          Inr (memo_fill memo_idx (ScTypedArray kind byte_offset len buffer) d))))))"

definition decode_dataview_value ::
    "'b child_decoder \<Rightarrow> 'b scf_decoder \<Rightarrow> sc_fault + 'b scvalue \<times> 'b scf_decoder" where
  "decode_dataview_value dv d =
     (let (memo_idx, d) = memo_reserve d in
      rbind (read_usize d) (\<lambda>(byte_offset, d).
      rbind (read_usize d) (\<lambda>(byte_length, d).
      rbind (dv d) (\<lambda>(buffer, d).
      Inr (memo_fill memo_idx (ScDataView byte_offset byte_length buffer) d)))))"

definition decode_boxed_value ::
    "'b child_decoder \<Rightarrow> 'b scf_decoder \<Rightarrow> sc_fault + 'b scvalue \<times> 'b scf_decoder" where
  "decode_boxed_value dv d =
     (let (memo_idx, d) = memo_reserve d in
      rbind (read_byte d) (\<lambda>(subtag, d).
      rbind
        (if subtag = BOXED_BOOL then
           rbind (dv d) (\<lambda>(inner, d). case inner of ScBoolean b \<Rightarrow> Inr (ScBoxedBoolean b, d)
             | _ \<Rightarrow> Inl (ScErr ScCorruptedPayload))
         else if subtag = BOXED_NUM then
           rbind (dv d) (\<lambda>(inner, d). case inner of ScNumber n \<Rightarrow> Inr (ScBoxedNumber n, d)
             | _ \<Rightarrow> Inl (ScErr ScCorruptedPayload))
         else if subtag = BOXED_STR then
           rbind (dv d) (\<lambda>(inner, d). case inner of ScString s \<Rightarrow> Inr (ScBoxedString s, d)
             | _ \<Rightarrow> Inl (ScErr ScCorruptedPayload))
         else if subtag = BOXED_BIGINT then
           rbind (dv d) (\<lambda>(inner, d). case inner of ScBigInt bi \<Rightarrow> Inr (ScBoxedBigInt bi, d)
             | _ \<Rightarrow> Inl (ScErr ScCorruptedPayload))
         else Inl (ScErr ScCorruptedPayload)) (\<lambda>(boxed, d).
      Inr (memo_fill memo_idx boxed d))))"

text \<open>The match on the tag in \<open>decode_value_depth\<close>.\<close>

definition decode_tagged ::
    "limit_config \<Rightarrow> 'b bigint_ops \<Rightarrow> 'b child_decoder \<Rightarrow> u8 \<Rightarrow> 'b scf_decoder \<Rightarrow>
     sc_fault + 'b scvalue \<times> 'b scf_decoder" where
  "decode_tagged lim B dv tag d =
     (if tag = SCF_UNDEFINED then Inr (ScUndefined, d)
      else if tag = SCF_NULL then Inr (ScNull, d)
      else if tag = SCF_FALSE then Inr (ScBoolean False, d)
      else if tag = SCF_TRUE then Inr (ScBoolean True, d)
      else if tag = SCF_INT32 then
        rbind (read_ivarint d) (\<lambda>(val, d). Inr (ScNumber (f64_of_int (sint val)), d))
      else if tag = SCF_DOUBLE then rbind (read_f64_le d) (\<lambda>(n, d). Inr (ScNumber n, d))
      else if tag = SCF_STRING then decode_string_value d
      else if tag = SCF_BIGINT then decode_bigint_value B d
      else if tag = SCF_DATE then rbind (read_f64_le d) (\<lambda>(n, d). Inr (ScDate n, d))
      else if tag = SCF_REGEXP then decode_regexp_value d
      else if tag = SCF_ARRAY then decode_array_value lim dv d
      else if tag = SCF_OBJECT then decode_object_value dv d
      else if tag = SCF_MAP then decode_map_value dv d
      else if tag = SCF_SET then decode_set_value dv d
      else if tag = SCF_ERROR then decode_error_value dv d
      else if tag = SCF_ARRAYBUFFER then decode_arraybuffer_value d
      else if tag = SCF_TYPEDARRAY then decode_typedarray_value dv d
      else if tag = SCF_DATAVIEW then decode_dataview_value dv d
      else if tag = SCF_BOXED then decode_boxed_value dv d
      else if tag = SCF_MEMO_REF then decode_memo_ref d
      else if tag = SCF_HOLE then Inl (ScErr ScCorruptedPayload)
      else Inl (ScErr (ScUnknownTag tag)))"

function decode_value_depth ::
    "limit_config \<Rightarrow> 'b bigint_ops \<Rightarrow> nat \<Rightarrow> 'b scf_decoder \<Rightarrow> sc_fault + 'b scvalue \<times> 'b scf_decoder" where
  "decode_value_depth lim B depth d =
     (if depth > max_clone_depth lim then Inl (ScErr (ScMaxDepthExceeded (max_clone_depth lim)))
      else if sd_remaining d = 0 then Inl (ScErr ScUnexpectedEof)
      else rbind (read_byte d) (\<lambda>(tag, d).
           decode_tagged lim B (\<lambda>d. decode_value_depth lim B (depth + 1) d) tag d))"
  by pat_completeness auto
termination decode_value_depth
  by (relation "measure (\<lambda>(lim, B, depth, d). max_clone_depth lim + 1 - depth)") auto

declare decode_value_depth.simps [simp del]

definition decode_scf :: "limit_config \<Rightarrow> 'b bigint_ops \<Rightarrow> bytes \<Rightarrow> sc_fault + 'b scvalue" where
  "decode_scf lim B data =
     (if length data < 4 then Inl (ScErr ScCorruptedPayload)
      else if take 4 data \<noteq> SCF_MAGIC then Inl (ScErr ScInvalidMagic)
      else if length data < 5 then Inl (ScErr ScCorruptedPayload)
      else if data ! 4 \<noteq> SCF_VERSION then Inl (ScErr (ScUnsupportedVersion (data ! 4)))
      else if length data < 13 then Inl (ScErr ScCorruptedPayload)
      else
        let payload_end = length data - 4;
            expected_crc = (word_of_nat (of_le_bytes (drop payload_end data)) :: u32);
            calculated_crc = crc32c (take payload_end data)
        in if expected_crc \<noteq> calculated_crc then Inl (ScErr (ScChecksumMismatch expected_crc calculated_crc))
           else
             let payload_len = payload_end - 8 in
             if payload_len > max_value_len lim then Inl (ScErr (ScValueTooLarge (max_value_len lim) payload_len))
             else rbind (decode_value_depth lim B 0 (scf_decoder_new (drop 8 (take payload_end data)))) (\<lambda>(v, d).
                  Inr v))"

end
