(* ===== verification/Scf_Round_Trip.thy ===== *)
theory Scf_Round_Trip
  imports Scf_Decode
begin

text \<open>
  The structured-clone format decodes to what was encoded. \<open>scf_bytes\<close> is the encoding of a value
  as a pure function; \<open>resolve\<close> is what a value with memo references stands for: every container
  takes the next memo slot, and a reference is replaced by the content of its slot, which is
  \<open>undefined\<close> while that container is still being decoded.
\<close>

section \<open>The encoding as a pure function\<close>

definition uvar :: "nat \<Rightarrow> bytes" where
  "uvar n = uvarint (word_of_nat n)"

definition units_bytes :: "utf16 \<Rightarrow> bytes" where
  "units_bytes s = concat (map (\<lambda>u. le_bytes 2 (unat u)) s)"

definition str_bytes :: "utf16 \<Rightarrow> bytes" where
  "str_bytes s = uvar (length s) @ units_bytes s"

definition number_bytes :: "f64 \<Rightarrow> bytes" where
  "number_bytes n = se_buf (encode_number n \<lparr>se_buf = [], se_next_memo = 0\<rparr>)"

definition bigint_bytes :: "'b bigint_ops \<Rightarrow> 'b \<Rightarrow> bytes" where
  "bigint_bytes B bi =
     SCF_BIGINT # (if fst (bi_to_bytes_le B bi) = BiMinus then 1 else 0) #
     uvar (length (snd (bi_to_bytes_le B bi))) @ snd (bi_to_bytes_le B bi)"

primrec element_bytes :: "nat \<Rightarrow> bytes option list \<Rightarrow> bytes" where
  "element_bytes i [] = []"
| "element_bytes i (e # es) =
     (case e of None \<Rightarrow> [] | Some bs \<Rightarrow> uvar i @ bs) @ element_bytes (i + 1) es"

definition prop_bytes :: "(utf16 \<times> bytes) list \<Rightarrow> bytes" where
  "prop_bytes ps = concat (map (\<lambda>p. str_bytes (fst p) @ snd p) ps)"

definition pair_bytes :: "(bytes \<times> bytes) list \<Rightarrow> bytes" where
  "pair_bytes ps = concat (map (\<lambda>p. fst p @ snd p) ps)"

definition count_some :: "'a option list \<Rightarrow> nat" where
  "count_some es = length (filter (\<lambda>x. x \<noteq> None) es)"

primrec scf_bytes :: "'b bigint_ops \<Rightarrow> 'b scvalue \<Rightarrow> bytes" where
  "scf_bytes B ScUndefined = [SCF_UNDEFINED]"
| "scf_bytes B ScNull = [SCF_NULL]"
| "scf_bytes B (ScBoolean b) = [if b then SCF_TRUE else SCF_FALSE]"
| "scf_bytes B (ScNumber n) = number_bytes n"
| "scf_bytes B (ScBigInt bi) = bigint_bytes B bi"
| "scf_bytes B (ScString s) = SCF_STRING # str_bytes s"
| "scf_bytes B (ScDate d) = SCF_DATE # le_bytes 8 (unat d)"
| "scf_bytes B (ScRegExp p flags) = SCF_REGEXP # str_bytes p @ uvar (unat (to_bitfield flags))"
| "scf_bytes B (ScArray es ps) =
     SCF_ARRAY # uvar (length es) @ uvar (count_some es) @
       element_bytes 0 (map (map_option (scf_bytes B)) es) @
       uvar (length ps) @ prop_bytes (map (map_prod (\<lambda>k. k) (scf_bytes B)) ps)"
| "scf_bytes B (ScObject ps) =
     SCF_OBJECT # uvar (length ps) @ prop_bytes (map (map_prod (\<lambda>k. k) (scf_bytes B)) ps)"
| "scf_bytes B (ScMap ps) =
     SCF_MAP # uvar (length ps) @ pair_bytes (map (map_prod (scf_bytes B) (scf_bytes B)) ps)"
| "scf_bytes B (ScSet vs) = SCF_SET # uvar (length vs) @ concat (map (scf_bytes B) vs)"
| "scf_bytes B (ScError kind message cause errors) =
     SCF_ERROR # sc_error_kind_u8 kind # error_flags message cause errors #
       (case message of None \<Rightarrow> [] | Some s \<Rightarrow> str_bytes s) @
       (case map_option (scf_bytes B) cause of None \<Rightarrow> [] | Some bs \<Rightarrow> bs) @
       (case map_option (map (scf_bytes B)) errors of None \<Rightarrow> []
        | Some bss \<Rightarrow> uvar (length bss) @ concat bss)"
| "scf_bytes B (ScArrayBuffer data m) =
     SCF_ARRAYBUFFER # uvar (case m of None \<Rightarrow> 0 | Some k \<Rightarrow> k + 1) @ uvar (length data) @ data"
| "scf_bytes B (ScTypedArray kind off len buffer) =
     SCF_TYPEDARRAY # sc_typed_array_kind_u8 kind # uvar off @ uvar len @ scf_bytes B buffer"
| "scf_bytes B (ScDataView off len buffer) = SCF_DATAVIEW # uvar off @ uvar len @ scf_bytes B buffer"
| "scf_bytes B (ScBoxedBoolean b) = [SCF_BOXED, BOXED_BOOL, if b then SCF_TRUE else SCF_FALSE]"
| "scf_bytes B (ScBoxedNumber n) = SCF_BOXED # BOXED_NUM # number_bytes n"
| "scf_bytes B (ScBoxedString s) = SCF_BOXED # BOXED_STR # SCF_STRING # str_bytes s"
| "scf_bytes B (ScBoxedBigInt bi) = SCF_BOXED # BOXED_BIGINT # bigint_bytes B bi"
| "scf_bytes B (ScMemoRef i) = SCF_MEMO_REF # uvar i"

section \<open>Memo references\<close>

type_synonym 'b resolver = "'b scvalue list \<Rightarrow> sc_error + 'b scvalue \<times> 'b scvalue list"

primrec thread_values :: "'b resolver list \<Rightarrow> 'b scvalue list \<Rightarrow> sc_error + 'b scvalue list \<times> 'b scvalue list" where
  "thread_values [] memo = Inr ([], memo)"
| "thread_values (f # fs) memo =
     rbind (f memo) (\<lambda>(v, memo). rbind (thread_values fs memo) (\<lambda>(vs, memo). Inr (v # vs, memo)))"

primrec thread_elements ::
    "'b resolver option list \<Rightarrow> 'b scvalue list \<Rightarrow> sc_error + 'b scvalue option list \<times> 'b scvalue list" where
  "thread_elements [] memo = Inr ([], memo)"
| "thread_elements (f # fs) memo =
     rbind (case f of None \<Rightarrow> Inr (None, memo) | Some g \<Rightarrow> rbind (g memo) (\<lambda>(v, memo). Inr (Some v, memo)))
       (\<lambda>(v, memo). rbind (thread_elements fs memo) (\<lambda>(vs, memo). Inr (v # vs, memo)))"

primrec thread_props ::
    "(utf16 \<times> 'b resolver) list \<Rightarrow> 'b scvalue list \<Rightarrow> sc_error + (utf16 \<times> 'b scvalue) list \<times> 'b scvalue list" where
  "thread_props [] memo = Inr ([], memo)"
| "thread_props (p # ps) memo =
     rbind (snd p memo) (\<lambda>(v, memo). rbind (thread_props ps memo) (\<lambda>(vs, memo). Inr ((fst p, v) # vs, memo)))"

primrec thread_pairs ::
    "('b resolver \<times> 'b resolver) list \<Rightarrow> 'b scvalue list \<Rightarrow>
     sc_error + ('b scvalue \<times> 'b scvalue) list \<times> 'b scvalue list" where
  "thread_pairs [] memo = Inr ([], memo)"
| "thread_pairs (p # ps) memo =
     rbind (fst p memo) (\<lambda>(k, memo). rbind (snd p memo) (\<lambda>(v, memo).
     rbind (thread_pairs ps memo) (\<lambda>(vs, memo). Inr ((k, v) # vs, memo))))"

definition in_slot :: "'b scvalue list \<Rightarrow> 'b scvalue \<Rightarrow> 'b scvalue list \<Rightarrow> sc_error + 'b scvalue \<times> 'b scvalue list" where
  "in_slot before v memo = Inr (v, memo[length before := v])"

primrec resolve :: "'b scvalue \<Rightarrow> 'b resolver" where
  "resolve ScUndefined = (\<lambda>memo. Inr (ScUndefined, memo))"
| "resolve ScNull = (\<lambda>memo. Inr (ScNull, memo))"
| "resolve (ScBoolean b) = (\<lambda>memo. Inr (ScBoolean b, memo))"
| "resolve (ScNumber n) = (\<lambda>memo. Inr (ScNumber n, memo))"
| "resolve (ScBigInt bi) = (\<lambda>memo. Inr (ScBigInt bi, memo))"
| "resolve (ScString s) = (\<lambda>memo. Inr (ScString s, memo))"
| "resolve (ScDate d) = (\<lambda>memo. Inr (ScDate d, memo))"
| "resolve (ScRegExp p flags) = (\<lambda>memo. Inr (ScRegExp p flags, memo))"
| "resolve (ScArray es ps) = (\<lambda>memo.
     rbind (thread_elements (map (map_option resolve) es) (memo @ [ScUndefined])) (\<lambda>(es, memo1).
     rbind (thread_props (map (map_prod (\<lambda>k. k) resolve) ps) memo1) (\<lambda>(ps, memo2).
     in_slot memo (ScArray es ps) memo2)))"
| "resolve (ScObject ps) = (\<lambda>memo.
     rbind (thread_props (map (map_prod (\<lambda>k. k) resolve) ps) (memo @ [ScUndefined])) (\<lambda>(ps, memo1).
     in_slot memo (ScObject ps) memo1))"
| "resolve (ScMap ps) = (\<lambda>memo.
     rbind (thread_pairs (map (map_prod resolve resolve) ps) (memo @ [ScUndefined])) (\<lambda>(ps, memo1).
     in_slot memo (ScMap ps) memo1))"
| "resolve (ScSet vs) = (\<lambda>memo.
     rbind (thread_values (map resolve vs) (memo @ [ScUndefined])) (\<lambda>(vs, memo1).
     in_slot memo (ScSet vs) memo1))"
| "resolve (ScError kind message cause errors) = (\<lambda>memo.
     rbind (case map_option resolve cause of None \<Rightarrow> Inr (None, memo @ [ScUndefined])
            | Some f \<Rightarrow> rbind (f (memo @ [ScUndefined])) (\<lambda>(c, m). Inr (Some c, m))) (\<lambda>(cause, memo1).
     rbind (case map_option (map resolve) errors of None \<Rightarrow> Inr (None, memo1)
            | Some fs \<Rightarrow> rbind (thread_values fs memo1) (\<lambda>(vs, m). Inr (Some vs, m))) (\<lambda>(errors, memo2).
     in_slot memo (ScError kind message cause errors) memo2)))"
| "resolve (ScArrayBuffer data m) = (\<lambda>memo. Inr (ScArrayBuffer data m, memo @ [ScArrayBuffer data m]))"
| "resolve (ScTypedArray kind off len buffer) = (\<lambda>memo.
     rbind (resolve buffer (memo @ [ScUndefined])) (\<lambda>(b, memo1).
     in_slot memo (ScTypedArray kind off len b) memo1))"
| "resolve (ScDataView off len buffer) = (\<lambda>memo.
     rbind (resolve buffer (memo @ [ScUndefined])) (\<lambda>(b, memo1).
     in_slot memo (ScDataView off len b) memo1))"
| "resolve (ScBoxedBoolean b) = (\<lambda>memo. Inr (ScBoxedBoolean b, memo @ [ScBoxedBoolean b]))"
| "resolve (ScBoxedNumber n) = (\<lambda>memo. Inr (ScBoxedNumber n, memo @ [ScBoxedNumber n]))"
| "resolve (ScBoxedString s) = (\<lambda>memo. Inr (ScBoxedString s, memo @ [ScBoxedString s]))"
| "resolve (ScBoxedBigInt bi) = (\<lambda>memo. Inr (ScBoxedBigInt bi, memo @ [ScBoxedBigInt bi]))"
| "resolve (ScMemoRef i) = (\<lambda>memo.
     if i < length memo then Inr (memo ! i, memo) else Inl (ScInvalidMemoRef i))"

section \<open>Representable values\<close>

text \<open>What the Rust types and limits guarantee of a value at a depth: \<open>usize\<close> fields fit 64
  bits, the keys of an \<open>IndexMap\<close> are distinct, and the decoder's own limits hold: an array is
  no longer than \<open>max_value_len\<close>, and every value it decodes, the primitive inside a boxed one
  included, is at most \<open>max_clone_depth\<close> deep.\<close>

definition usize_ok :: "nat \<Rightarrow> bool" where
  "usize_ok n \<longleftrightarrow> n < 2 ^ 64"

primrec storable :: "'b scvalue \<Rightarrow> limit_config \<Rightarrow> nat \<Rightarrow> bool" where
  "storable ScUndefined = (\<lambda>lim d. d \<le> max_clone_depth lim)"
| "storable ScNull = (\<lambda>lim d. d \<le> max_clone_depth lim)"
| "storable (ScBoolean b) = (\<lambda>lim d. d \<le> max_clone_depth lim)"
| "storable (ScNumber n) = (\<lambda>lim d. d \<le> max_clone_depth lim)"
| "storable (ScBigInt bi) = (\<lambda>lim d. d \<le> max_clone_depth lim)"
| "storable (ScString s) = (\<lambda>lim d. d \<le> max_clone_depth lim)"
| "storable (ScDate t) = (\<lambda>lim d. d \<le> max_clone_depth lim)"
| "storable (ScRegExp p flags) = (\<lambda>lim d. d \<le> max_clone_depth lim)"
| "storable (ScArray es ps) = (\<lambda>lim d. d \<le> max_clone_depth lim \<and> length es \<le> max_value_len lim \<and>
     list_all (pred_option (\<lambda>f. f lim (d + 1))) (map (map_option storable) es) \<and>
     list_all (\<lambda>p. snd p lim (d + 1)) (map (map_prod (\<lambda>k. k) storable) ps))"
| "storable (ScObject ps) = (\<lambda>lim d. d \<le> max_clone_depth lim \<and> distinct (map fst ps) \<and>
     list_all (\<lambda>p. snd p lim (d + 1)) (map (map_prod (\<lambda>k. k) storable) ps))"
| "storable (ScMap ps) = (\<lambda>lim d. d \<le> max_clone_depth lim \<and>
     list_all (\<lambda>p. fst p lim (d + 1) \<and> snd p lim (d + 1)) (map (map_prod storable storable) ps))"
| "storable (ScSet vs) = (\<lambda>lim d. d \<le> max_clone_depth lim \<and>
     list_all (\<lambda>f. f lim (d + 1)) (map storable vs))"
| "storable (ScError kind message cause errors) = (\<lambda>lim d. d \<le> max_clone_depth lim \<and>
     pred_option (\<lambda>f. f lim (d + 1)) (map_option storable cause) \<and>
     pred_option (list_all (\<lambda>f. f lim (d + 1))) (map_option (map storable) errors))"
| "storable (ScArrayBuffer data m) = (\<lambda>lim d. d \<le> max_clone_depth lim \<and>
     pred_option (\<lambda>k. usize_ok (k + 1)) m)"
| "storable (ScTypedArray kind off len buffer) = (\<lambda>lim d. d \<le> max_clone_depth lim \<and>
     usize_ok off \<and> usize_ok len \<and> storable buffer lim (d + 1))"
| "storable (ScDataView off len buffer) = (\<lambda>lim d. d \<le> max_clone_depth lim \<and>
     usize_ok off \<and> usize_ok len \<and> storable buffer lim (d + 1))"
| "storable (ScBoxedBoolean b) = (\<lambda>lim d. d + 1 \<le> max_clone_depth lim)"
| "storable (ScBoxedNumber n) = (\<lambda>lim d. d + 1 \<le> max_clone_depth lim)"
| "storable (ScBoxedString s) = (\<lambda>lim d. d + 1 \<le> max_clone_depth lim)"
| "storable (ScBoxedBigInt bi) = (\<lambda>lim d. d + 1 \<le> max_clone_depth lim)"
| "storable (ScMemoRef i) = (\<lambda>lim d. d \<le> max_clone_depth lim \<and> usize_ok i)"

section \<open>What the encoder writes\<close>

definition wrote :: "scf_encoder \<Rightarrow> bytes \<Rightarrow> sc_error + scf_encoder \<Rightarrow> bool" where
  "wrote e bs r \<longleftrightarrow> (\<exists>e'. r = Inr e' \<and> se_buf e' = se_buf e @ bs)"

lemma wrote_Inr [simp]: "wrote e bs (Inr e') \<longleftrightarrow> se_buf e' = se_buf e @ bs"
  by (simp add: wrote_def)

lemma wrote_rbind:
  "wrote e bs r \<Longrightarrow> (\<And>e'. se_buf e' = se_buf e @ bs \<Longrightarrow> wrote e' bs' (k e')) \<Longrightarrow> wrote e (bs @ bs') (rbind r k)"
  unfolding wrote_def by fastforce

lemma wrote_after: "se_buf e = se_buf e0 @ bs \<Longrightarrow> wrote e bs' r \<Longrightarrow> wrote e0 (bs @ bs') r"
  by (auto simp: wrote_def)

named_theorems scf_buf

lemma se_buf_push [scf_buf]:
  "se_buf (push_byte b e) = se_buf e @ [b]"
  "se_buf (push_bytes bs e) = se_buf e @ bs"
  "se_buf (push_uvarint n e) = se_buf e @ uvar n"
  "se_buf (snd (allocate_memo e)) = se_buf e"
  by (simp_all add: push_byte_def push_bytes_def push_uvarint_def allocate_memo_def uvar_def
      encode_uvarint_append)

lemma se_buf_units [scf_buf]:
  "se_buf (fold (\<lambda>u. push_bytes (le_bytes 2 (unat u))) s e) = se_buf e @ units_bytes s"
  by (induction s arbitrary: e) (simp_all add: se_buf_push units_bytes_def)

lemma se_buf_string [scf_buf]:
  "se_buf (encode_string_value s e) = se_buf e @ str_bytes s"
  "se_buf (encode_string s e) = se_buf e @ SCF_STRING # str_bytes s"
  by (simp_all add: encode_string_def encode_string_value_def scf_buf str_bytes_def)

lemma se_buf_number [scf_buf]: "se_buf (encode_number n e) = se_buf e @ number_bytes n"
  by (simp add: number_bytes_def encode_number_def Let_def push_byte_def push_bytes_def
      encode_ivarint_append [where out = "se_buf e @ _"] encode_ivarint_append [where out = "[_]"]
      del: de_Morgan_conj)

lemma se_buf_bigint [scf_buf]: "se_buf (encode_bigint B bi e) = se_buf e @ bigint_bytes B bi"
  by (cases "bi_to_bytes_le B bi")
    (simp add: encode_bigint_def bigint_bytes_def scf_buf split: bigint_sign.split)

lemma se_buf_primitives [scf_buf]:
  "se_buf (encode_date d e) = se_buf e @ SCF_DATE # le_bytes 8 (unat d)"
  "se_buf (encode_regexp pat flags e) = se_buf e @ SCF_REGEXP # str_bytes pat @ uvar (unat (to_bitfield flags))"
  "se_buf (encode_boxed_bool b e) = se_buf e @ [SCF_BOXED, BOXED_BOOL, if b then SCF_TRUE else SCF_FALSE]"
  "se_buf (encode_boxed_num n e) = se_buf e @ SCF_BOXED # BOXED_NUM # number_bytes n"
  "se_buf (encode_boxed_str s e) = se_buf e @ SCF_BOXED # BOXED_STR # SCF_STRING # str_bytes s"
  "se_buf (encode_boxed_bigint B bi e) = se_buf e @ SCF_BOXED # BOXED_BIGINT # bigint_bytes B bi"
  "se_buf (encode_arraybuffer data m e) =
     se_buf e @ SCF_ARRAYBUFFER # uvar (case m of None \<Rightarrow> 0 | Some k \<Rightarrow> k + 1) @ uvar (length data) @ data"
  "se_buf (encode_error_head kind message cause errors e) =
     se_buf e @ SCF_ERROR # sc_error_kind_u8 kind # error_flags message cause errors #
       (case message of None \<Rightarrow> [] | Some s \<Rightarrow> str_bytes s)"
  by (simp_all add: encode_date_def encode_regexp_def encode_boxed_bool_def encode_boxed_num_def
      encode_boxed_str_def encode_boxed_bigint_def encode_arraybuffer_def encode_error_head_def scf_buf
      str_bytes_def case_prod_unfold Let_def split: option.split)

text \<open>A child encoder that writes \<open>bs v\<close> as long as the result fits.\<close>

definition writes :: "limit_config \<Rightarrow> ('b scvalue \<Rightarrow> scf_encoder \<Rightarrow> sc_error + scf_encoder) \<Rightarrow> 'b scvalue \<Rightarrow> bytes \<Rightarrow> bool" where
  "writes lim ev v bs \<longleftrightarrow> (\<forall>e. length (se_buf e) + length bs \<le> max_value_len lim \<longrightarrow> wrote e bs (ev v e))"

lemma writes_call:
  "writes lim ev v bs \<Longrightarrow> se_buf e = se_buf e0 @ pre \<Longrightarrow>
     length (se_buf e0) + length pre + length bs \<le> max_value_len lim \<Longrightarrow> wrote e0 (pre @ bs) (ev v e)"
  unfolding writes_def wrote_def by (drule spec [of _ e]) auto

lemma encode_values_wrote:
  "(\<And>v. v \<in> set vs \<Longrightarrow> writes lim ev v (f v)) \<Longrightarrow>
   length (se_buf e) + length (concat (map f vs)) \<le> max_value_len lim \<Longrightarrow>
   wrote e (concat (map f vs)) (encode_values ev vs e)"
proof (induction vs arbitrary: e)
  case (Cons v vs)
  have "wrote e (f v) (ev v e)"
    using Cons.prems writes_call [of lim ev v "f v" e e "[]"] by simp
  then show ?case using Cons.prems by (auto intro!: wrote_rbind Cons.IH)
qed simp

lemma encode_pairs_wrote:
  "(\<And>k v. (k, v) \<in> set ps \<Longrightarrow> writes lim ev k (f k) \<and> writes lim ev v (f v)) \<Longrightarrow>
   length (se_buf e) + length (pair_bytes (map (map_prod f f) ps)) \<le> max_value_len lim \<Longrightarrow>
   wrote e (pair_bytes (map (map_prod f f) ps)) (encode_pairs ev ps e)"
proof (induction ps arbitrary: e)
  case (Cons p ps)
  obtain k v where p: "p = (k, v)" by (cases p)
  have len: "length (se_buf e) + length (f k) + length (f v) +
      length (pair_bytes (map (map_prod f f) ps)) \<le> max_value_len lim"
    using Cons.prems(2) by (simp add: pair_bytes_def p)
  have wr: "writes lim ev k (f k)" "writes lim ev v (f v)" using Cons.prems(1) by (auto simp: p)
  have "wrote e (f k @ f v @ pair_bytes (map (map_prod f f) ps)) (encode_pairs ev (p # ps) e)"
    unfolding p encode_pairs.simps fst_conv snd_conv
  proof (intro wrote_rbind)
    show "wrote e (f k) (ev k e)" using writes_call [OF wr(1), of e e "[]"] len by simp
  next
    fix e' :: scf_encoder assume "se_buf e' = se_buf e @ f k"
    then show "wrote e' (f v) (ev v e')" using writes_call [OF wr(2), of e' e' "[]"] len by simp
  next
    fix e' e'' :: scf_encoder assume "se_buf e' = se_buf e @ f k" "se_buf e'' = se_buf e' @ f v"
    then have "length (se_buf e'') + length (pair_bytes (map (map_prod f f) ps)) \<le> max_value_len lim"
      using len by (simp only: length_append)
    moreover have "writes lim ev k' (f k') \<and> writes lim ev v' (f v')" if "(k', v') \<in> set ps" for k' v'
      using Cons.prems(1) [of k' v'] that by simp
    ultimately show "wrote e'' (pair_bytes (map (map_prod f f) ps)) (encode_pairs ev ps e'')"
      by (rule Cons.IH [rotated])
  qed
  then show ?case by (simp add: pair_bytes_def p)
qed (simp add: pair_bytes_def)

lemma encode_props_wrote:
  "(\<And>k v. (k, v) \<in> set ps \<Longrightarrow> writes lim ev v (f v)) \<Longrightarrow>
   length (se_buf e) + length (prop_bytes (map (map_prod (\<lambda>k. k) f) ps)) \<le> max_value_len lim \<Longrightarrow>
   wrote e (prop_bytes (map (map_prod (\<lambda>k. k) f) ps)) (encode_props ev ps e)"
proof (induction ps arbitrary: e)
  case (Cons p ps)
  obtain k v where p: "p = (k, v)" by (cases p)
  have len: "length (se_buf e) + length (str_bytes k) + length (f v) +
      length (prop_bytes (map (map_prod (\<lambda>k. k) f) ps)) \<le> max_value_len lim"
    using Cons.prems(2) by (simp add: prop_bytes_def p)
  have "writes lim ev v (f v)" using Cons.prems(1) by (auto simp: p)
  then have "wrote e (str_bytes k @ f v) (ev v (encode_string_value k e))"
    using len by (intro writes_call) (auto simp: scf_buf)
  then have "wrote e ((str_bytes k @ f v) @ prop_bytes (map (map_prod (\<lambda>k. k) f) ps)) (encode_props ev (p # ps) e)"
    unfolding p encode_props.simps fst_conv snd_conv
  proof (rule wrote_rbind)
    fix e' :: scf_encoder
    assume "se_buf e' = se_buf e @ str_bytes k @ f v"
    then have "length (se_buf e') + length (prop_bytes (map (map_prod (\<lambda>k. k) f) ps)) \<le> max_value_len lim"
      using len by (simp only: length_append)
    moreover have "writes lim ev v' (f v')" if "(k', v') \<in> set ps" for k' v'
      using Cons.prems(1) [of k' v'] that by simp
    ultimately show "wrote e' (prop_bytes (map (map_prod (\<lambda>k. k) f) ps)) (encode_props ev ps e')"
      by (rule Cons.IH [rotated])
  qed
  then show ?case by (simp add: prop_bytes_def p)
qed (simp add: prop_bytes_def)

lemma encode_elements_wrote:
  "(\<And>v. Some v \<in> set es \<Longrightarrow> writes lim ev v (f v)) \<Longrightarrow>
   length (se_buf e) + length (element_bytes i (map (map_option f) es)) \<le> max_value_len lim \<Longrightarrow>
   wrote e (element_bytes i (map (map_option f) es)) (encode_elements ev es i e)"
proof (induction es arbitrary: e i)
  case (Cons x es)
  show ?case
  proof (cases x)
    case None
    then show ?thesis using Cons by simp
  next
    case (Some v)
    have "wrote e (uvar i @ f v) (ev v (push_uvarint i e))"
      using Cons.prems Some by (intro writes_call) (auto simp: scf_buf)
    then have "wrote e ((uvar i @ f v) @ element_bytes (i + 1) (map (map_option f) es))
        (encode_elements ev (x # es) i e)"
      unfolding Some encode_elements.simps option.case
      using Cons Some by (intro wrote_rbind) auto
    then show ?thesis using Some by simp
  qed
qed simp

lemma writes_container:
  assumes "\<And>e. length (se_buf e) \<le> max_value_len lim \<Longrightarrow> encode_with_depth lim B d v e = k (h e)"
    and "\<And>e. se_buf (h e) = se_buf e @ pre"
    and "\<And>e. length (se_buf e) + length bs \<le> max_value_len lim \<Longrightarrow> wrote e bs (k e)"
  shows "writes lim (encode_with_depth lim B d) v (pre @ bs)"
  unfolding writes_def using assms by (auto intro!: wrote_after)

lemma encode_writes: "storable v lim d \<Longrightarrow> writes lim (encode_with_depth lim B d) v (scf_bytes B v)"
proof (induction v arbitrary: d)
  case (ScArray es ps)
  have es: "writes lim (encode_with_depth lim B (d + 1)) v (scf_bytes B v)" if "Some v \<in> set es" for v
    using ScArray.IH(1) [of "Some v" v "d + 1"] ScArray.prems that by (auto simp: list_all_iff)
  have ps: "writes lim (encode_with_depth lim B (d + 1)) v (scf_bytes B v)" if "(k, v) \<in> set ps" for k v
    using ScArray.IH(2) [of "(k, v)" v "d + 1"] ScArray.prems that by (auto simp: list_all_iff)
  let ?ke = "encode_elements (encode_with_depth lim B (d + 1)) es 0"
  let ?kp = "\<lambda>e. encode_props (encode_with_depth lim B (d + 1)) ps (push_uvarint (length ps) e)"
  let ?e = "element_bytes 0 (map (map_option (scf_bytes B)) es)"
  let ?p = "uvar (length ps) @ prop_bytes (map (map_prod (\<lambda>k. k) (scf_bytes B)) ps)"
  have "wrote e ?p (?kp e)" if "length (se_buf e) + length ?p \<le> max_value_len lim" for e :: scf_encoder
    using ps that
    by (intro wrote_after [where e = "push_uvarint (length ps) e"] encode_props_wrote) (auto simp: scf_buf)
  then have "wrote e (?e @ ?p) (rbind (?ke e) ?kp)"
    if "length (se_buf e) + length (?e @ ?p) \<le> max_value_len lim" for e :: scf_encoder
    using es that by (intro wrote_rbind encode_elements_wrote) auto
  then have "writes lim (encode_with_depth lim B d) (ScArray es ps)
      ((SCF_ARRAY # uvar (length es) @ uvar (count_some es)) @ (?e @ ?p))"
    using ScArray.prems
    by (intro writes_container [where k = "\<lambda>e. rbind (?ke e) ?kp" and
          h = "\<lambda>e. push_uvarint (count_some es)
                (push_uvarint (length es) (push_byte SCF_ARRAY (snd (allocate_memo e))))"])
      (auto simp: scf_buf encode_with_depth.simps [of lim B d] check_size_def count_some_def)
  then show ?case by simp
next
  case (ScObject ps)
  have ps: "writes lim (encode_with_depth lim B (d + 1)) v (scf_bytes B v)" if "(k, v) \<in> set ps" for k v
    using ScObject.IH [of "(k, v)" v "d + 1"] ScObject.prems that by (auto simp: list_all_iff)
  have "writes lim (encode_with_depth lim B d) (ScObject ps)
      ((SCF_OBJECT # uvar (length ps)) @ prop_bytes (map (map_prod (\<lambda>k. k) (scf_bytes B)) ps))"
    using ps ScObject.prems
    by (intro writes_container [where k = "encode_props (encode_with_depth lim B (d + 1)) ps"
          and h = "\<lambda>e. push_uvarint (length ps) (push_byte SCF_OBJECT (snd (allocate_memo e)))"]
        encode_props_wrote)
      (auto simp: scf_buf encode_with_depth.simps [of lim B d] check_size_def)
  then show ?case by simp
next
  case (ScMap ps)
  have ps: "writes lim (encode_with_depth lim B (d + 1)) k (scf_bytes B k) \<and>
      writes lim (encode_with_depth lim B (d + 1)) v (scf_bytes B v)" if "(k, v) \<in> set ps" for k v
    using ScMap.IH(1) [of "(k, v)" k "d + 1"] ScMap.IH(2) [of "(k, v)" v "d + 1"] ScMap.prems that
    by (auto simp: list_all_iff)
  have "writes lim (encode_with_depth lim B d) (ScMap ps)
      ((SCF_MAP # uvar (length ps)) @ pair_bytes (map (map_prod (scf_bytes B) (scf_bytes B)) ps))"
    using ps ScMap.prems
    by (intro writes_container [where k = "encode_pairs (encode_with_depth lim B (d + 1)) ps"
          and h = "\<lambda>e. push_uvarint (length ps) (push_byte SCF_MAP (snd (allocate_memo e)))"]
        encode_pairs_wrote)
      (auto simp: scf_buf encode_with_depth.simps [of lim B d] check_size_def)
  then show ?case by simp
next
  case (ScSet vs)
  have vs: "writes lim (encode_with_depth lim B (d + 1)) v (scf_bytes B v)" if "v \<in> set vs" for v
    using ScSet.IH [of v "d + 1"] ScSet.prems that by (auto simp: list_all_iff)
  have "writes lim (encode_with_depth lim B d) (ScSet vs)
      ((SCF_SET # uvar (length vs)) @ concat (map (scf_bytes B) vs))"
    using vs ScSet.prems
    by (intro writes_container [where k = "encode_values (encode_with_depth lim B (d + 1)) vs"
          and h = "\<lambda>e. push_uvarint (length vs) (push_byte SCF_SET (snd (allocate_memo e)))"]
        encode_values_wrote)
      (auto simp: scf_buf encode_with_depth.simps [of lim B d] check_size_def)
  then show ?case by simp
next
  case (ScError kind message cause errors)
  let ?c = "case cause of None \<Rightarrow> [] | Some c \<Rightarrow> scf_bytes B c"
  let ?m = "case errors of None \<Rightarrow> [] | Some errs \<Rightarrow> uvar (length errs) @ concat (map (scf_bytes B) errs)"
  let ?kc = "\<lambda>e. case cause of Some c \<Rightarrow> encode_with_depth lim B (d + 1) c e | None \<Rightarrow> Inr e"
  let ?km = "\<lambda>e. case errors of None \<Rightarrow> Inr e
    | Some errs \<Rightarrow> encode_values (encode_with_depth lim B (d + 1)) errs (push_uvarint (length errs) e)"
  have c: "writes lim (encode_with_depth lim B (d + 1)) v (scf_bytes B v)" if "cause = Some v" for v
    using ScError.IH(1) [of v "d + 1"] ScError.prems that by simp
  have vs: "writes lim (encode_with_depth lim B (d + 1)) v (scf_bytes B v)"
    if "errors = Some errs" "v \<in> set errs" for errs v
    using ScError.IH(2) [of errs v "d + 1"] ScError.prems that by (auto simp: list_all_iff)
  have kc: "wrote e ?c (?kc e)" if "length (se_buf e) + length ?c \<le> max_value_len lim" for e :: scf_encoder
    using c that writes_call [of lim "encode_with_depth lim B (d + 1)" _ _ e e "[]"]
    by (cases cause) auto
  have km: "wrote e ?m (?km e)" if "length (se_buf e) + length ?m \<le> max_value_len lim" for e :: scf_encoder
  proof (cases errors)
    case (Some errs)
    then show ?thesis
      using vs that
      by (simp, intro wrote_after [where e = "push_uvarint (length errs) e"] encode_values_wrote)
        (auto simp: scf_buf)
  qed simp
  have "wrote e (?c @ ?m) (rbind (?kc e) ?km)"
    if "length (se_buf e) + length (?c @ ?m) \<le> max_value_len lim" for e :: scf_encoder
    using that kc km by (intro wrote_rbind) auto
  then have "writes lim (encode_with_depth lim B d) (ScError kind message cause errors)
      ((SCF_ERROR # sc_error_kind_u8 kind # error_flags message cause errors #
        (case message of None \<Rightarrow> [] | Some s \<Rightarrow> str_bytes s)) @ (?c @ ?m))"
    using ScError.prems
    by (intro writes_container [where k = "\<lambda>e. rbind (?kc e) ?km"
          and h = "encode_error_head kind message cause errors"])
      (auto simp: scf_buf encode_with_depth.simps [of lim B d] check_size_def split: option.split)
  then show ?case by (auto split: option.split)
next
  case (ScTypedArray kind off len buffer)
  then have "writes lim (encode_with_depth lim B d) (ScTypedArray kind off len buffer)
      ((SCF_TYPEDARRAY # sc_typed_array_kind_u8 kind # uvar off @ uvar len) @ scf_bytes B buffer)"
    by (intro writes_container [where k = "encode_with_depth lim B (d + 1) buffer" and
          h = "\<lambda>e. push_uvarint len (push_uvarint off (push_byte (sc_typed_array_kind_u8 kind)
                (push_byte SCF_TYPEDARRAY (snd (allocate_memo e)))))"])
      (auto simp: scf_buf encode_with_depth.simps [of lim B d] check_size_def writes_def)
  then show ?case by simp
next
  case (ScDataView off len buffer)
  then have "writes lim (encode_with_depth lim B d) (ScDataView off len buffer)
      ((SCF_DATAVIEW # uvar off @ uvar len) @ scf_bytes B buffer)"
    by (intro writes_container [where k = "encode_with_depth lim B (d + 1) buffer" and
          h = "\<lambda>e. push_uvarint len (push_uvarint off
                (push_byte SCF_DATAVIEW (snd (allocate_memo e))))"])
      (auto simp: scf_buf encode_with_depth.simps [of lim B d] check_size_def writes_def)
  then show ?case by simp
qed (simp_all add: writes_def encode_with_depth.simps [where lim = lim and B = B] check_size_def scf_buf)

section \<open>What the decoder reads\<close>

text \<open>A decoder that has read \<open>pre\<close> and still has \<open>r\<close> to read.\<close>

definition dst :: "bytes \<Rightarrow> bytes \<Rightarrow> 'b scvalue list \<Rightarrow> 'b scf_decoder" where
  "dst pre r memo = \<lparr>sd_data = pre @ r, sd_offset = length pre, sd_memo = memo\<rparr>"

named_theorems scf_read

lemma sd_remaining_dst [scf_read]: "sd_remaining (dst pre r memo) = length r"
  by (simp add: sd_remaining_def dst_def)

lemma sd_memo_dst [scf_read]: "sd_memo (dst pre r memo) = memo"
  by (simp add: dst_def)

lemma read_byte_dst [scf_read]: "read_byte (dst pre (b # r) memo) = Inr (b, dst (pre @ [b]) r memo)"
  by (simp add: read_byte_def dst_def)

lemma read_bytes_dst:
  "length bs = n \<Longrightarrow> length pre + n < 18446744073709551616 \<Longrightarrow>
     read_bytes n (dst pre (bs @ r) memo) = Inr (bs, dst (pre @ bs) r memo)"
  by (simp add: read_bytes_def dst_def)

lemma read_f64_dst [scf_read]:
  "length pre + 8 < 18446744073709551616 \<Longrightarrow>
     read_f64_le (dst pre (le_bytes 8 (unat n) @ r) memo) = Inr (n, dst (pre @ le_bytes 8 (unat n)) r memo)"
proof -
  have "of_le_bytes (le_bytes 8 (unat n)) = unat n"
    by (simp only: of_le_bytes_le_bytes) (simp add: mod_less [OF order_less_le_trans [OF unat_u64_less]])
  then show "length pre + 8 < 18446744073709551616 \<Longrightarrow> ?thesis"
    by (simp add: read_f64_le_def read_bytes_dst)
qed

lemma read_usize_dst [scf_read]:
  "n < 18446744073709551616 \<Longrightarrow> read_usize (dst pre (uvar n @ r) memo) = Inr (n, dst (pre @ uvar n) r memo)"
  unfolding read_usize_def read_uvarint_def uvar_def
  by (subst decode_uvarint_encode [of _ _ "word_of_nat n" r])
    (simp_all add: dst_def u64_to_usize_def unat_word_of_nat_u64)

lemma read_uvarint_dst [scf_read]:
  "n < 18446744073709551616 \<Longrightarrow>
     read_uvarint (dst pre (uvar n @ r) memo) = Inr (word_of_nat n, dst (pre @ uvar n) r memo)"
  unfolding read_uvarint_def uvar_def
  by (subst decode_uvarint_encode [of _ _ _ r]) (simp_all add: dst_def)

lemma read_ivarint_dst [scf_read]:
  "read_ivarint (dst pre (ivarint i @ r) memo) = Inr (i, dst (pre @ ivarint i) r memo)"
  unfolding read_ivarint_def
  by (subst decode_ivarint_encode [of _ _ _ r]) (simp_all add: dst_def)

lemma memo_dst [scf_read]:
  "memo_reserve (dst pre r memo) = (length memo, dst pre r (memo @ [ScUndefined]))"
  "memo_fill i v (dst pre r memo) = (v, dst pre r (memo[i := v]))"
  by (simp_all add: memo_reserve_def memo_fill_def dst_def)

lemma check_count_dst [scf_read]: "n \<le> length r \<Longrightarrow> check_count n (dst pre r memo) = Inr ()"
  by (simp add: check_count_def scf_read)

lemma read_units_dst:
  "length pre + length (units_bytes s) < 18446744073709551616 \<Longrightarrow>
     read_units (length s) acc (dst pre (units_bytes s @ r) memo) = Inr (acc @ s, dst (pre @ units_bytes s) r memo)"
proof (induction s arbitrary: pre acc)
  case (Cons u s)
  have "of_le_bytes (le_bytes 2 (unat u)) = unat u"
    by (simp only: of_le_bytes_le_bytes) simp
  then show ?case
    using Cons by (simp add: units_bytes_def read_bytes_dst)
qed (simp add: units_bytes_def)

lemma length_units_bytes [simp]: "length (units_bytes s) = 2 * length s"
  by (induction s) (simp_all add: units_bytes_def)

lemma decode_string_dst [scf_read]:
  "length pre + length (str_bytes s) < 18446744073709551616 \<Longrightarrow>
     decode_string_value (dst pre (str_bytes s @ r) memo) = Inr (ScString s, dst (pre @ str_bytes s) r memo)"
  by (simp add: decode_string_value_def str_bytes_def scf_read read_units_dst)

lemma read_string_dst [scf_read]:
  "length pre + length (str_bytes s) < 18446744073709551616 \<Longrightarrow>
     read_string (dst pre (str_bytes s @ r) memo) = Inr (s, dst (pre @ str_bytes s) r memo)"
  by (simp add: read_string_def scf_read)

section \<open>Primitive values round trip\<close>

lemma f64_eq_bits: "f64_eq a b \<Longrightarrow> f64_mag b \<noteq> 0 \<Longrightarrow> a = b"
  by (auto simp: f64_eq_def f64_ord_def f64_eq_iff split: if_splits)

lemma int32_exact:
  assumes "f64_eq (f64_of_int i) n" "\<not> f64_eq n f64_zero \<or> \<not> f64_neg n" "\<bar>i\<bar> \<le> 2 ^ 53"
  shows "f64_of_int i = n"
proof (cases "f64_mag n = 0")
  case True
  then have "n = f64_zero" using assms(2) by (simp add: f64_eq_zero_iff f64_eq_iff)
  moreover have "f64_mag (f64_of_int i) = 0"
    using assms(1) True by (simp add: f64_eq_def f64_ord_zero_iff flip: f64_ord_zero_iff [of "f64_of_int i"])
  then have "i = 0" using f64_mag_of_int_eq_0 assms(3) by blast
  ultimately show ?thesis by (simp add: f64_of_int_0)
next
  case False
  then show ?thesis by (rule f64_eq_bits [OF assms(1)])
qed

lemma f64_as_i32_range: "- (2 ^ 31) \<le> f64_as_i32 n" "f64_as_i32 n \<le> 2 ^ 31 - 1"
  by (simp_all add: f64_as_i32_def)

lemma sint_i32: "- (2 ^ 31) \<le> i \<Longrightarrow> i \<le> 2 ^ 31 - 1 \<Longrightarrow> sint (word_of_int i :: u64) = i"
  by (simp add: sint_sbintrunc' signed_take_bit_int_eq_self)

lemma number_bytes_cases:
  obtains (int) i where "number_bytes n = SCF_INT32 # ivarint i" "f64_of_int (sint i) = n"
  | (double) "number_bytes n = SCF_DOUBLE # le_bytes 8 (unat n)"
proof (cases "f64_eq (f64_fract n) f64_zero \<and> (\<not> f64_eq n f64_zero \<or> \<not> f64_neg n) \<and>
         f64_le (f64_of_int (- (2 ^ 31))) n \<and> f64_le n (f64_of_int (2 ^ 31 - 1)) \<and>
         f64_eq (f64_of_int (f64_as_i32 n)) n")
  case True
  then have "f64_of_int (f64_as_i32 n) = n"
    using f64_as_i32_range [of n] by (intro int32_exact) auto
  moreover have "number_bytes n = SCF_INT32 # ivarint (word_of_int (f64_as_i32 n))"
    using True unfolding number_bytes_def encode_number_def Let_def
    by (simp add: push_byte_def encode_ivarint_append [where out = "[_]"] del: de_Morgan_conj)
  ultimately show ?thesis
    using sint_i32 [OF f64_as_i32_range] by (intro int [of "word_of_int (f64_as_i32 n)"]) simp_all
next
  case False
  then show ?thesis
    unfolding number_bytes_def encode_number_def Let_def
    by (intro double) (simp only: number_bytes_def encode_number_def Let_def if_False, simp add: scf_buf)
qed

definition bigint_law :: "'b bigint_ops \<Rightarrow> bool" where
  "bigint_law B \<longleftrightarrow> (\<forall>bi sign bs. bi_to_bytes_le B bi = (sign, bs) \<longrightarrow>
     bi_from_bytes_le B (if sign = BiMinus then BiMinus else BiPlus) bs = bi)"

section \<open>Values round trip\<close>

definition dec_result ::
    "bytes \<Rightarrow> bytes \<Rightarrow> sc_error + 'a \<times> 'b scvalue list \<Rightarrow> sc_fault + 'a \<times> 'b scf_decoder" where
  "dec_result pre r res = (case res of Inl e \<Rightarrow> Inl (ScErr e) | Inr (w, memo) \<Rightarrow> Inr (w, dst pre r memo))"

lemma dec_result_simps [simp]:
  "dec_result pre r (Inl e) = Inl (ScErr e)"
  "dec_result pre r (Inr (w, memo)) = Inr (w, dst pre r memo)"
  by (simp_all add: dec_result_def)

definition reads :: "'b child_decoder \<Rightarrow> 'b scvalue \<Rightarrow> bytes \<Rightarrow> bool" where
  "reads dv v bs \<longleftrightarrow> (\<forall>pre r memo. length pre + length bs + length r < 2 ^ 64 \<longrightarrow>
     dv (dst pre (bs @ r) memo) = dec_result (pre @ bs) r (resolve v memo))"

lemma readsD:
  "reads dv v bs \<Longrightarrow> length pre + length bs + length r < 2 ^ 64 \<Longrightarrow>
     dv (dst pre (bs @ r) memo) = dec_result (pre @ bs) r (resolve v memo)"
  by (simp add: reads_def)

lemma res_cases:
  obtains (err) e where "x = Inl e" | (ok) w memo where "x = Inr (w, memo)"
  by (cases x) auto

lemma decode_values_dst:
  assumes "\<And>v. v \<in> set vs \<Longrightarrow> reads dv v (f v)"
    and "length pre + length (concat (map f vs)) + length r < 2 ^ 64"
  shows "decode_values dv (length vs) acc (dst pre (concat (map f vs) @ r) memo)
    = dec_result (pre @ concat (map f vs)) r
        (rbind (thread_values (map resolve vs) memo) (\<lambda>(ws, m). Inr (acc @ ws, m)))"
  using assms
proof (induction vs arbitrary: pre acc memo)
  case (Cons v vs)
  have "dv (dst pre (f v @ concat (map f vs) @ r) memo)
      = dec_result (pre @ f v) (concat (map f vs) @ r) (resolve v memo)"
    using Cons.prems by (intro readsD) auto
  then show ?case
  proof (cases "resolve v memo" rule: res_cases)
    case (ok w m)
    then show ?thesis
      using Cons.IH [of "pre @ f v" "acc @ [w]" m] Cons.prems \<open>dv _ = _\<close>
      by (cases "thread_values (map resolve vs) m" rule: res_cases) auto
  qed simp
qed simp

lemma decode_pairs_dst:
  assumes "\<And>k v. (k, v) \<in> set ps \<Longrightarrow> reads dv k (f k) \<and> reads dv v (f v)"
    and "length pre + length (pair_bytes (map (map_prod f f) ps)) + length r < 2 ^ 64"
  shows "decode_pairs dv (length ps) acc (dst pre (pair_bytes (map (map_prod f f) ps) @ r) memo)
    = dec_result (pre @ pair_bytes (map (map_prod f f) ps)) r
        (rbind (thread_pairs (map (map_prod resolve resolve) ps) memo) (\<lambda>(ws, m). Inr (acc @ ws, m)))"
  using assms
proof (induction ps arbitrary: pre acc memo)
  case (Cons p ps)
  obtain k v where p: "p = (k, v)" by (cases p)
  let ?R = "pair_bytes (map (map_prod f f) ps) @ r"
  have pb: "pair_bytes (map (map_prod f f) (p # ps)) = f k @ f v @ pair_bytes (map (map_prod f f) ps)"
    by (simp add: pair_bytes_def p)
  have k: "dv (dst pre (f k @ f v @ ?R) m) = dec_result (pre @ f k) (f v @ ?R) (resolve k m)" for m
    using Cons.prems unfolding pb by (intro readsD) (auto simp: p)
  have v: "dv (dst (pre @ f k) (f v @ ?R) m) = dec_result ((pre @ f k) @ f v) ?R (resolve v m)" for m
    using Cons.prems unfolding pb by (intro readsD) (auto simp: p)
  have IH: "decode_pairs dv (length ps) acc' (dst (pre @ f k @ f v) ?R m)
    = dec_result ((pre @ f k @ f v) @ pair_bytes (map (map_prod f f) ps)) r
        (rbind (thread_pairs (map (map_prod resolve resolve) ps) m) (\<lambda>(ws, m). Inr (acc' @ ws, m)))" for acc' m
  proof (rule Cons.IH)
    show "reads dv k' (f k') \<and> reads dv v' (f v')" if "(k', v') \<in> set ps" for k' v'
      using Cons.prems(1) [of k' v'] that by simp
  qed (use Cons.prems(2) [unfolded pb] in simp)
  show ?case
    unfolding pb
    using k v IH
    by (cases "resolve k memo" rule: res_cases; cases "resolve v (snd (projr (resolve k memo)))" rule: res_cases;
        cases "thread_pairs (map (map_prod resolve resolve) ps) (snd (projr (resolve v (snd (projr (resolve k memo))))))"
          rule: res_cases)
      (simp_all add: p)
qed (simp add: pair_bytes_def)

text \<open>The two property loops differ in how they collect the properties; distinct keys make
  insertion into the map the same as appending.\<close>

lemma im_insert_fresh: "k \<notin> fst ` set m \<Longrightarrow> im_insert k v m = m @ [(k, v)]"
  by (induction m) auto

lemma decode_extra_dst:
  assumes "\<And>k v. (k, v) \<in> set ps \<Longrightarrow> reads dv v (f v)"
    and "length pre + length (prop_bytes (map (map_prod (\<lambda>k. k) f) ps)) + length r < 2 ^ 64"
  shows "decode_extra dv (length ps) acc (dst pre (prop_bytes (map (map_prod (\<lambda>k. k) f) ps) @ r) memo)
    = dec_result (pre @ prop_bytes (map (map_prod (\<lambda>k. k) f) ps)) r
        (rbind (thread_props (map (map_prod (\<lambda>k. k) resolve) ps) memo) (\<lambda>(ws, m). Inr (acc @ ws, m)))"
  using assms
proof (induction ps arbitrary: pre acc memo)
  case (Cons p ps)
  obtain k v where p: "p = (k, v)" by (cases p)
  let ?R = "prop_bytes (map (map_prod (\<lambda>k. k) f) ps) @ r"
  have pb: "prop_bytes (map (map_prod (\<lambda>k. k) f) (p # ps)) = str_bytes k @ f v @ prop_bytes (map (map_prod (\<lambda>k. k) f) ps)"
    by (simp add: prop_bytes_def p)
  have v: "dv (dst (pre @ str_bytes k) (f v @ ?R) m)
      = dec_result ((pre @ str_bytes k) @ f v) ?R (resolve v m)" for m
    using Cons.prems unfolding pb by (intro readsD) (auto simp: p)
  have IH: "decode_extra dv (length ps) acc' (dst (pre @ str_bytes k @ f v) ?R m)
    = dec_result ((pre @ str_bytes k @ f v) @ prop_bytes (map (map_prod (\<lambda>k. k) f) ps)) r
        (rbind (thread_props (map (map_prod (\<lambda>k. k) resolve) ps) m) (\<lambda>(ws, m). Inr (acc' @ ws, m)))" for acc' m
  proof (rule Cons.IH)
    show "reads dv v' (f v')" if "(k', v') \<in> set ps" for k' v'
      using Cons.prems(1) [of k' v'] that by simp
  qed (use Cons.prems(2) [unfolded pb] in simp)
  have k: "read_string (dst pre (str_bytes k @ f v @ ?R) memo)
      = Inr (k, dst (pre @ str_bytes k) (f v @ ?R) memo)"
    using Cons.prems(2) unfolding pb by (intro read_string_dst) simp
  show ?case
    unfolding pb
    using v IH k
    by (cases "resolve v memo" rule: res_cases;
        cases "thread_props (map (map_prod (\<lambda>k. k) resolve) ps) (snd (projr (resolve v memo)))" rule: res_cases)
      (simp_all add: p)
qed (simp add: prop_bytes_def)

lemma decode_entries_dst:
  assumes "\<And>k v. (k, v) \<in> set ps \<Longrightarrow> reads dv v (f v)"
    and "distinct (map fst acc @ map fst ps)"
    and "length pre + length (prop_bytes (map (map_prod (\<lambda>k. k) f) ps)) + length r < 2 ^ 64"
  shows "decode_entries dv (length ps) acc (dst pre (prop_bytes (map (map_prod (\<lambda>k. k) f) ps) @ r) memo)
    = dec_result (pre @ prop_bytes (map (map_prod (\<lambda>k. k) f) ps)) r
        (rbind (thread_props (map (map_prod (\<lambda>k. k) resolve) ps) memo) (\<lambda>(ws, m). Inr (acc @ ws, m)))"
  using assms
proof (induction ps arbitrary: pre acc memo)
  case (Cons p ps)
  obtain k v where p: "p = (k, v)" by (cases p)
  let ?R = "prop_bytes (map (map_prod (\<lambda>k. k) f) ps) @ r"
  have pb: "prop_bytes (map (map_prod (\<lambda>k. k) f) (p # ps)) = str_bytes k @ f v @ prop_bytes (map (map_prod (\<lambda>k. k) f) ps)"
    by (simp add: prop_bytes_def p)
  have v: "dv (dst (pre @ str_bytes k) (f v @ ?R) m)
      = dec_result ((pre @ str_bytes k) @ f v) ?R (resolve v m)" for m
    using Cons.prems unfolding pb by (intro readsD) (auto simp: p)
  have IH: "decode_entries dv (length ps) acc' (dst (pre @ str_bytes k @ f v) ?R m)
    = dec_result ((pre @ str_bytes k @ f v) @ prop_bytes (map (map_prod (\<lambda>k. k) f) ps)) r
        (rbind (thread_props (map (map_prod (\<lambda>k. k) resolve) ps) m) (\<lambda>(ws, m). Inr (acc' @ ws, m)))"
    if "map fst acc' = map fst acc @ [k]" for acc' m
  proof (rule Cons.IH)
    show "reads dv v' (f v')" if "(k', v') \<in> set ps" for k' v'
      using Cons.prems(1) [of k' v'] that by simp
    show "distinct (map fst acc' @ map fst ps)" using Cons.prems(2) that by (simp add: p)
  qed (use Cons.prems(3) [unfolded pb] in simp)
  have k: "read_string (dst pre (str_bytes k @ f v @ ?R) memo)
      = Inr (k, dst (pre @ str_bytes k) (f v @ ?R) memo)"
    using Cons.prems(3) unfolding pb by (intro read_string_dst) simp
  have ins: "im_insert k w acc = acc @ [(k, w)]" for w
    using Cons.prems(2) by (intro im_insert_fresh) (auto simp: p)
  have "map fst (acc @ [(k, w)]) = map fst acc @ [k]" for w by simp
  note IH = IH [OF this]
  show ?case
    unfolding pb
    using v IH k ins
    by (cases "resolve v memo" rule: res_cases;
        cases "thread_props (map (map_prod (\<lambda>k. k) resolve) ps) (snd (projr (resolve v memo)))" rule: res_cases)
      (simp_all add: p)
qed (simp add: prop_bytes_def)

lemma elements_count: "length (filter (\<lambda>x. x \<noteq> None) es) = count_some es"
  by (simp add: count_some_def)

lemma decode_elements_dst:
  assumes "\<And>v. Some v \<in> set es \<Longrightarrow> reads dv v (f v)"
    and "length pre + length (element_bytes (length acc) (map (map_option f) es)) + length r < 2 ^ 64"
    and "len = length acc + length es" "len < 2 ^ 64"
  shows "decode_elements dv (count_some es) len (acc @ replicate (length es) None)
      (dst pre (element_bytes (length acc) (map (map_option f) es) @ r) memo)
    = dec_result (pre @ element_bytes (length acc) (map (map_option f) es)) r
        (rbind (thread_elements (map (map_option resolve) es) memo) (\<lambda>(ws, m). Inr (acc @ ws, m)))"
  using assms
proof (induction es arbitrary: pre acc memo)
  case (Cons x es)
  show ?case
  proof (cases x)
    case None
    then show ?thesis
      using Cons.IH [of pre "acc @ [None]" memo] Cons.prems
      by (cases "thread_elements (map (map_option resolve) es) memo" rule: res_cases)
        (simp_all add: count_some_def)
  next
    case (Some v)
    let ?i = "length acc"
    let ?E = "element_bytes (?i + 1) (map (map_option f) es)"
    have eb: "element_bytes ?i (map (map_option f) (x # es)) = uvar ?i @ f v @ ?E"
      using Some by simp
    have cs: "count_some (x # es) = Suc (count_some es)" using Some by (simp add: count_some_def)
    have i: "read_usize (dst pre (uvar ?i @ f v @ ?E @ r) memo) = Inr (?i, dst (pre @ uvar ?i) (f v @ ?E @ r) memo)"
      using Cons.prems by (intro read_usize_dst) simp
    have v: "dv (dst (pre @ uvar ?i) (f v @ ?E @ r) memo)
        = dec_result ((pre @ uvar ?i) @ f v) (?E @ r) (resolve v memo)"
      using Cons.prems Some unfolding eb by (intro readsD) auto
    have IH: "decode_elements dv (count_some es) len ((acc @ [Some w]) @ replicate (length es) None)
        (dst (pre @ uvar ?i @ f v) (?E @ r) m)
      = dec_result ((pre @ uvar ?i @ f v) @ ?E) r
        (rbind (thread_elements (map (map_option resolve) es) m) (\<lambda>(ws, m). Inr ((acc @ [Some w]) @ ws, m)))" for w m
      using Cons.IH [of "pre @ uvar ?i @ f v" "acc @ [Some w]" m] Cons.prems Some by simp
    have set: "(acc @ None # replicate (length es) None)[?i := Some w]
        = (acc @ [Some w]) @ replicate (length es) None" for w
      by (simp add: list_update_append)
    show ?thesis
      unfolding eb cs
      using i v IH Cons.prems(3)
      by (cases "resolve v memo" rule: res_cases;
          cases "thread_elements (map (map_option resolve) es) (snd (projr (resolve v memo)))" rule: res_cases)
        (simp_all add: Some set nth_append)
  qed
qed (simp add: count_some_def)

lemma decode_tagged_simps [simp]:
  "decode_tagged lim B dv SCF_UNDEFINED d = Inr (ScUndefined, d)"
  "decode_tagged lim B dv SCF_NULL d = Inr (ScNull, d)"
  "decode_tagged lim B dv SCF_FALSE d = Inr (ScBoolean False, d)"
  "decode_tagged lim B dv SCF_TRUE d = Inr (ScBoolean True, d)"
  "decode_tagged lim B dv SCF_INT32 d = rbind (read_ivarint d) (\<lambda>(val, d). Inr (ScNumber (f64_of_int (sint val)), d))"
  "decode_tagged lim B dv SCF_DOUBLE d = rbind (read_f64_le d) (\<lambda>(n, d). Inr (ScNumber n, d))"
  "decode_tagged lim B dv SCF_STRING d = decode_string_value d"
  "decode_tagged lim B dv SCF_BIGINT d = decode_bigint_value B d"
  "decode_tagged lim B dv SCF_DATE d = rbind (read_f64_le d) (\<lambda>(n, d). Inr (ScDate n, d))"
  "decode_tagged lim B dv SCF_REGEXP d = decode_regexp_value d"
  "decode_tagged lim B dv SCF_ARRAY d = decode_array_value lim dv d"
  "decode_tagged lim B dv SCF_OBJECT d = decode_object_value dv d"
  "decode_tagged lim B dv SCF_MAP d = decode_map_value dv d"
  "decode_tagged lim B dv SCF_SET d = decode_set_value dv d"
  "decode_tagged lim B dv SCF_ERROR d = decode_error_value dv d"
  "decode_tagged lim B dv SCF_ARRAYBUFFER d = decode_arraybuffer_value d"
  "decode_tagged lim B dv SCF_TYPEDARRAY d = decode_typedarray_value dv d"
  "decode_tagged lim B dv SCF_DATAVIEW d = decode_dataview_value dv d"
  "decode_tagged lim B dv SCF_BOXED d = decode_boxed_value dv d"
  "decode_tagged lim B dv SCF_MEMO_REF d = decode_memo_ref d"
  by (simp_all add: decode_tagged_def scf_tags)

lemma boxed_neq [simp]:
  "BOXED_NUM \<noteq> BOXED_BOOL" "BOXED_STR \<noteq> BOXED_BOOL" "BOXED_STR \<noteq> BOXED_NUM"
  "BOXED_BIGINT \<noteq> BOXED_BOOL" "BOXED_BIGINT \<noteq> BOXED_NUM" "BOXED_BIGINT \<noteq> BOXED_STR"
  by (simp_all add: scf_tags)

lemma readsI:
  assumes "d \<le> max_clone_depth lim"
    and "\<And>pre r memo. length pre + length bs + length r < 2 ^ 64 \<Longrightarrow>
      decode_tagged lim B (decode_value_depth lim B (d + 1)) tag (dst pre (bs @ r) memo)
        = dec_result (pre @ bs) r (resolve v memo)"
  shows "reads (decode_value_depth lim B d) v (tag # bs)"
  unfolding reads_def using assms
  by (simp add: decode_value_depth.simps [of lim B d] scf_read)

lemma uvar_ne [simp]: "uvar n \<noteq> []"
  by (simp add: uvar_def)

lemma scf_bytes_ne [simp]: "scf_bytes B v \<noteq> []"
proof (cases v)
  case (ScNumber n)
  show ?thesis unfolding ScNumber by (cases n rule: number_bytes_cases) simp_all
qed (simp_all add: bigint_bytes_def)

lemma length_concat_ge: "(\<And>x. x \<in> set xs \<Longrightarrow> f x \<noteq> []) \<Longrightarrow> length xs \<le> length (concat (map f xs))"
proof (induction xs)
  case (Cons x xs)
  then have "0 < length (f x)" "length xs \<le> length (concat (map f xs))" by auto
  then show ?case by (simp del: length_greater_0_conv)
qed simp

lemma length_pair_bytes: "length ps \<le> length (pair_bytes (map (map_prod (scf_bytes B) (scf_bytes B)) ps))"
  using length_concat_ge [of ps "\<lambda>p. scf_bytes B (fst p) @ scf_bytes B (snd p)"]
  by (simp add: pair_bytes_def o_def)

lemma length_prop_bytes: "length ps \<le> length (prop_bytes (map (map_prod (\<lambda>k. k) f) ps))"
  using length_concat_ge [of ps "\<lambda>p. str_bytes (fst p) @ f (snd p)"]
  by (simp add: prop_bytes_def o_def str_bytes_def)

lemma length_element_bytes: "count_some es \<le> length (element_bytes i (map (map_option f) es))"
proof (induction es arbitrary: i)
  case (Cons x es)
  show ?case
  proof (cases x)
    case (Some v)
    have "0 < length (uvar i)" by simp
    then show ?thesis
      using Cons [of "i + 1"] Some by (simp add: count_some_def del: length_greater_0_conv)
  qed (use Cons [of "i + 1"] in \<open>simp add: count_some_def\<close>)
qed (simp add: count_some_def)

lemma count_some_le: "count_some es \<le> length es"
  by (simp add: count_some_def)

lemma read_number: "reads (decode_value_depth lim B d) (ScNumber n) (number_bytes n)" if "d \<le> max_clone_depth lim"
proof (cases n rule: number_bytes_cases)
  case (int i)
  then show ?thesis using that by (auto intro!: readsI simp: scf_read)
next
  case double
  then show ?thesis using that by (auto intro!: readsI simp: scf_read)
qed

lemma read_bigint: "reads (decode_value_depth lim B d) (ScBigInt bi) (bigint_bytes B bi)"
  if "d \<le> max_clone_depth lim" "bigint_law B"
proof -
  obtain sign bs where bi: "bi_to_bytes_le B bi = (sign, bs)" by (cases "bi_to_bytes_le B bi")
  then have "bi_from_bytes_le B (if sign = BiMinus then BiMinus else BiPlus) bs = bi"
    using that(2) by (auto simp: bigint_law_def)
  then show ?thesis
    using that(1) unfolding bigint_bytes_def
    by (intro readsI) (auto simp: bi decode_bigint_value_def scf_read read_bytes_dst split: if_splits)
qed

lemma error_flags_bits:
  "error_flags message cause errors AND push_bit 0 1 \<noteq> 0 \<longleftrightarrow> message \<noteq> None"
  "error_flags message cause errors AND push_bit 1 1 \<noteq> 0 \<longleftrightarrow> cause \<noteq> None"
  "error_flags message cause errors AND push_bit 2 1 \<noteq> 0 \<longleftrightarrow> errors \<noteq> None"
  unfolding error_flags_def Let_def
  by (cases message; cases cause; cases errors; simp)+

lemma read_regexp:
  "d \<le> max_clone_depth lim \<Longrightarrow> reads (decode_value_depth lim B d) (ScRegExp p flags)
     (SCF_REGEXP # str_bytes p @ uvar (unat (to_bitfield flags)))"
proof (intro readsI)
  fix pre r :: bytes and memo
  assume len: "length pre + length (str_bytes p @ uvar (unat (to_bitfield flags))) + length r < 2 ^ 64"
  define n where "n = unat (to_bitfield flags)"
  have n: "n < 256" by (simp add: n_def)
  have u: "unat (word_of_nat n :: u64) = n"
    by (rule unat_word_of_nat_u64 [OF order_less_trans [OF n]]) simp
  moreover have "ucast (word_of_nat n :: u64) = to_bitfield flags"
    by (rule word_unat_eq_iff [THEN iffD2]) (simp only: unsigned_ucast_eq u take_bit_nat, simp add: n_def)
  ultimately show "decode_tagged lim B (decode_value_depth lim B (d + 1)) SCF_REGEXP
      (dst pre ((str_bytes p @ uvar (unat (to_bitfield flags))) @ r) memo)
    = dec_result (pre @ str_bytes p @ uvar (unat (to_bitfield flags))) r (resolve (ScRegExp p flags) memo)"
    using len n unfolding n_def [symmetric]
    by (simp add: decode_regexp_value_def str_bytes_def scf_read read_units_dst)
qed

lemma read_boxed:
  assumes "d + 1 \<le> max_clone_depth lim"
  shows "reads (decode_value_depth lim B d) (ScBoxedBoolean b)
      [SCF_BOXED, BOXED_BOOL, if b then SCF_TRUE else SCF_FALSE]"
    and "reads (decode_value_depth lim B d) (ScBoxedNumber n) (SCF_BOXED # BOXED_NUM # number_bytes n)"
    and "reads (decode_value_depth lim B d) (ScBoxedString s) (SCF_BOXED # BOXED_STR # SCF_STRING # str_bytes s)"
    and "bigint_law B \<Longrightarrow>
      reads (decode_value_depth lim B d) (ScBoxedBigInt bi) (SCF_BOXED # BOXED_BIGINT # bigint_bytes B bi)"
proof -
  note inner = readsD [of "decode_value_depth lim B (d + 1)"]
  have b: "reads (decode_value_depth lim B (d + 1)) (ScBoolean b) [if b then SCF_TRUE else SCF_FALSE]"
    using assms by (auto intro!: readsI [where bs = "[]"])
  show "reads (decode_value_depth lim B d) (ScBoxedBoolean b)
      [SCF_BOXED, BOXED_BOOL, if b then SCF_TRUE else SCF_FALSE]"
    using assms inner [OF b] by (intro readsI) (auto simp: decode_boxed_value_def scf_read Let_def)
  have n: "reads (decode_value_depth lim B (d + 1)) (ScNumber n) (number_bytes n)"
    using assms by (intro read_number) simp
  show "reads (decode_value_depth lim B d) (ScBoxedNumber n) (SCF_BOXED # BOXED_NUM # number_bytes n)"
    using assms inner [OF n] by (intro readsI) (auto simp: decode_boxed_value_def scf_read Let_def)
  have s: "reads (decode_value_depth lim B (d + 1)) (ScString s) (SCF_STRING # str_bytes s)"
    using assms by (intro readsI) (auto simp: scf_read)
  show "reads (decode_value_depth lim B d) (ScBoxedString s) (SCF_BOXED # BOXED_STR # SCF_STRING # str_bytes s)"
    using assms inner [OF s] by (intro readsI) (auto simp: decode_boxed_value_def scf_read Let_def)
  assume "bigint_law B"
  then have "reads (decode_value_depth lim B (d + 1)) (ScBigInt bi) (bigint_bytes B bi)"
    using assms by (intro read_bigint) simp_all
  from inner [OF this] assms
  show "reads (decode_value_depth lim B d) (ScBoxedBigInt bi) (SCF_BOXED # BOXED_BIGINT # bigint_bytes B bi)"
    by (intro readsI) (auto simp: decode_boxed_value_def scf_read Let_def)
qed

lemma decode_reads:
  fixes B :: "'b bigint_ops"
  assumes "bigint_law B" "max_value_len lim < 2 ^ 64"
  shows "storable v lim d \<Longrightarrow> reads (decode_value_depth lim B d) v (scf_bytes B v)"
proof (induction v arbitrary: d)
  case (ScArray es ps)
  let ?dv = "decode_value_depth lim B (d + 1)"
  have es: "reads ?dv v (scf_bytes B v)" if "Some v \<in> set es" for v
    using ScArray.IH(1) [of "Some v" v "d + 1"] ScArray.prems that by (auto simp: list_all_iff)
  have ps: "reads ?dv v (scf_bytes B v)" if "(k, v) \<in> set ps" for k v
    using ScArray.IH(2) [of "(k, v)" v "d + 1"] ScArray.prems that by (auto simp: list_all_iff)
  have small: "length es < 18446744073709551616" "d \<le> max_clone_depth lim" "length es \<le> max_value_len lim"
    using ScArray.prems assms(2) by auto
  have "reads (decode_value_depth lim B d) (ScArray es ps)
      (SCF_ARRAY # (uvar (length es) @ uvar (count_some es) @
       element_bytes 0 (map (map_option (scf_bytes B)) es) @
       uvar (length ps) @ prop_bytes (map (map_prod (\<lambda>k. k) (scf_bytes B)) ps)))"
  proof (intro readsI small)
    fix pre r :: bytes and memo :: "'b scvalue list"
    let ?E = "element_bytes 0 (map (map_option (scf_bytes B)) es)"
    let ?P = "prop_bytes (map (map_prod (\<lambda>k. k) (scf_bytes B)) ps)"
    let ?pre = "pre @ uvar (length es) @ uvar (count_some es)"
    let ?m = "memo @ [ScUndefined]"
    assume len: "length pre + length (uvar (length es) @ uvar (count_some es) @ ?E @ uvar (length ps) @ ?P)
      + length r < 2 ^ 64"
    have E: "decode_elements ?dv (count_some es) (length es) (replicate (length es) None)
        (dst ?pre (?E @ uvar (length ps) @ ?P @ r) ?m)
      = dec_result (?pre @ ?E) (uvar (length ps) @ ?P @ r) (thread_elements (map (map_option resolve) es) ?m)"
      using decode_elements_dst [where acc = "[]" and dv = ?dv and es = es and f = "scf_bytes B" and pre = ?pre
          and r = "uvar (length ps) @ ?P @ r" and memo = ?m] es len small
      by (cases "thread_elements (map (map_option resolve) es) ?m" rule: res_cases) simp_all
    have P: "decode_extra ?dv (length ps) [] (dst (?pre @ ?E @ uvar (length ps)) (?P @ r) m)
      = dec_result ((?pre @ ?E @ uvar (length ps)) @ ?P) r (thread_props (map (map_prod (\<lambda>k. k) resolve) ps) m)" for m
      using decode_extra_dst [where acc = "[]" and dv = ?dv and ps = ps and f = "scf_bytes B"
          and pre = "?pre @ ?E @ uvar (length ps)" and r = r and memo = m] ps len
      by (cases "thread_props (map (map_prod (\<lambda>k. k) resolve) ps) m" rule: res_cases) simp_all
    have counts: "count_some es < 18446744073709551616" "length ps < 18446744073709551616"
      "count_some es \<le> length ?E" "length ps \<le> length ?P" "count_some es \<le> length es"
      using length_element_bytes [of es 0 "scf_bytes B"] length_prop_bytes [of ps "scf_bytes B"]
        count_some_le [of es] len by simp_all
    then show "decode_tagged lim B ?dv SCF_ARRAY (dst pre ((uvar (length es) @ uvar (count_some es) @ ?E @
          uvar (length ps) @ ?P) @ r) memo)
      = dec_result (pre @ uvar (length es) @ uvar (count_some es) @ ?E @ uvar (length ps) @ ?P) r
          (resolve (ScArray es ps) memo)"
      using E P small
      by (cases "thread_elements (map (map_option resolve) es) ?m" rule: res_cases;
          cases "thread_props (map (map_prod (\<lambda>k. k) resolve) ps)
            (snd (projr (thread_elements (map (map_option resolve) es) ?m)))" rule: res_cases)
        (simp_all add: decode_array_value_def scf_read Let_def in_slot_def)
  qed
  then show ?case by simp
next
  case (ScObject ps)
  let ?dv = "decode_value_depth lim B (d + 1)"
  have ps: "reads ?dv v (scf_bytes B v)" if "(k, v) \<in> set ps" for k v
    using ScObject.IH [of "(k, v)" v "d + 1"] ScObject.prems that by (auto simp: list_all_iff)
  have "reads (decode_value_depth lim B d) (ScObject ps)
      (SCF_OBJECT # (uvar (length ps) @ prop_bytes (map (map_prod (\<lambda>k. k) (scf_bytes B)) ps)))"
  proof (intro readsI)
    fix pre r :: bytes and memo :: "'b scvalue list"
    let ?P = "prop_bytes (map (map_prod (\<lambda>k. k) (scf_bytes B)) ps)"
    let ?m = "memo @ [ScUndefined]"
    assume len: "length pre + length (uvar (length ps) @ ?P) + length r < 2 ^ 64"
    have P: "decode_entries ?dv (length ps) [] (dst (pre @ uvar (length ps)) (?P @ r) ?m)
      = dec_result ((pre @ uvar (length ps)) @ ?P) r (thread_props (map (map_prod (\<lambda>k. k) resolve) ps) ?m)"
      using decode_entries_dst [where acc = "[]" and dv = ?dv and ps = ps and f = "scf_bytes B"
          and pre = "pre @ uvar (length ps)" and r = r and memo = ?m] ps len ScObject.prems
      by (cases "thread_props (map (map_prod (\<lambda>k. k) resolve) ps) ?m" rule: res_cases) simp_all
    have "length ps < 18446744073709551616" "length ps \<le> length ?P"
      using length_prop_bytes [of ps "scf_bytes B"] len by simp_all
    then show "decode_tagged lim B ?dv SCF_OBJECT (dst pre ((uvar (length ps) @ ?P) @ r) memo)
      = dec_result (pre @ uvar (length ps) @ ?P) r (resolve (ScObject ps) memo)"
      using P
      by (cases "thread_props (map (map_prod (\<lambda>k. k) resolve) ps) ?m" rule: res_cases)
        (simp_all add: decode_object_value_def scf_read Let_def in_slot_def)
  qed (use ScObject.prems in simp)
  then show ?case by simp
next
  case (ScMap ps)
  let ?dv = "decode_value_depth lim B (d + 1)"
  have ps: "reads ?dv k (scf_bytes B k) \<and> reads ?dv v (scf_bytes B v)" if "(k, v) \<in> set ps" for k v
    using ScMap.IH(1) [of "(k, v)" k "d + 1"] ScMap.IH(2) [of "(k, v)" v "d + 1"] ScMap.prems that
    by (auto simp: list_all_iff)
  have "reads (decode_value_depth lim B d) (ScMap ps)
      (SCF_MAP # (uvar (length ps) @ pair_bytes (map (map_prod (scf_bytes B) (scf_bytes B)) ps)))"
  proof (intro readsI)
    fix pre r :: bytes and memo :: "'b scvalue list"
    let ?P = "pair_bytes (map (map_prod (scf_bytes B) (scf_bytes B)) ps)"
    let ?m = "memo @ [ScUndefined]"
    assume len: "length pre + length (uvar (length ps) @ ?P) + length r < 2 ^ 64"
    have P: "decode_pairs ?dv (length ps) [] (dst (pre @ uvar (length ps)) (?P @ r) ?m)
      = dec_result ((pre @ uvar (length ps)) @ ?P) r (thread_pairs (map (map_prod resolve resolve) ps) ?m)"
      using decode_pairs_dst [where acc = "[]" and dv = ?dv and ps = ps and f = "scf_bytes B"
          and pre = "pre @ uvar (length ps)" and r = r and memo = ?m] ps len
      by (cases "thread_pairs (map (map_prod resolve resolve) ps) ?m" rule: res_cases) simp_all
    have "length ps < 18446744073709551616" "length ps \<le> length ?P"
      using length_pair_bytes [of ps B] len by simp_all
    then show "decode_tagged lim B ?dv SCF_MAP (dst pre ((uvar (length ps) @ ?P) @ r) memo)
      = dec_result (pre @ uvar (length ps) @ ?P) r (resolve (ScMap ps) memo)"
      using P
      by (cases "thread_pairs (map (map_prod resolve resolve) ps) ?m" rule: res_cases)
        (simp_all add: decode_map_value_def scf_read Let_def in_slot_def)
  qed (use ScMap.prems in simp)
  then show ?case by simp
next
  case (ScSet vs)
  let ?dv = "decode_value_depth lim B (d + 1)"
  have vs: "reads ?dv v (scf_bytes B v)" if "v \<in> set vs" for v
    using ScSet.IH [of v "d + 1"] ScSet.prems that by (auto simp: list_all_iff)
  have "reads (decode_value_depth lim B d) (ScSet vs)
      (SCF_SET # (uvar (length vs) @ concat (map (scf_bytes B) vs)))"
  proof (intro readsI)
    fix pre r :: bytes and memo :: "'b scvalue list"
    let ?P = "concat (map (scf_bytes B) vs)"
    let ?m = "memo @ [ScUndefined]"
    assume len: "length pre + length (uvar (length vs) @ ?P) + length r < 2 ^ 64"
    have P: "decode_values ?dv (length vs) [] (dst (pre @ uvar (length vs)) (?P @ r) ?m)
      = dec_result ((pre @ uvar (length vs)) @ ?P) r (thread_values (map resolve vs) ?m)"
      using decode_values_dst [where acc = "[]" and dv = ?dv and vs = vs and f = "scf_bytes B"
          and pre = "pre @ uvar (length vs)" and r = r and memo = ?m] vs len
      by (cases "thread_values (map resolve vs) ?m" rule: res_cases) simp_all
    have "length vs < 18446744073709551616" "length vs \<le> length ?P"
      using length_concat_ge [of vs "scf_bytes B"] len by simp_all
    then show "decode_tagged lim B ?dv SCF_SET (dst pre ((uvar (length vs) @ ?P) @ r) memo)
      = dec_result (pre @ uvar (length vs) @ ?P) r (resolve (ScSet vs) memo)"
      using P
      by (cases "thread_values (map resolve vs) ?m" rule: res_cases)
        (simp_all add: decode_set_value_def scf_read Let_def in_slot_def)
  qed (use ScSet.prems in simp)
  then show ?case by simp
next
  case (ScError kind message cause errors)
  let ?dv = "decode_value_depth lim B (d + 1)"
  let ?fl = "error_flags message cause errors"
  let ?M = "case message of None \<Rightarrow> [] | Some s \<Rightarrow> str_bytes s"
  let ?C = "case map_option (scf_bytes B) cause of None \<Rightarrow> [] | Some bs \<Rightarrow> bs"
  let ?E = "case map_option (map (scf_bytes B)) errors of None \<Rightarrow> []
        | Some bss \<Rightarrow> uvar (length bss) @ concat bss"
  have cause: "reads ?dv v (scf_bytes B v)" if "cause = Some v" for v
    using ScError.IH(1) [of v "d + 1"] ScError.prems that by simp
  have errors: "reads ?dv v (scf_bytes B v)" if "errors = Some errs" "v \<in> set errs" for errs v
    using ScError.IH(2) [of errs v "d + 1"] ScError.prems that by (auto simp: list_all_iff)
  have "reads (decode_value_depth lim B d) (ScError kind message cause errors)
      (SCF_ERROR # (sc_error_kind_u8 kind # ?fl # ?M @ ?C @ ?E))"
  proof (intro readsI)
    fix pre r :: bytes and memo :: "'b scvalue list"
    assume len: "length pre + length (sc_error_kind_u8 kind # ?fl # ?M @ ?C @ ?E) + length r < 2 ^ 64"
    let ?p = "pre @ [sc_error_kind_u8 kind, ?fl]"
    let ?m = "memo @ [ScUndefined]"
    let ?rc = "case map_option resolve cause of None \<Rightarrow> Inr (None, ?m)
            | Some f \<Rightarrow> rbind (f ?m) (\<lambda>(c, m). Inr (Some c, m))"
    let ?re = "\<lambda>m. case map_option (map resolve) errors of None \<Rightarrow> Inr (None, m)
            | Some fs \<Rightarrow> rbind (thread_values fs m) (\<lambda>(vs, m). Inr (Some vs, m))"
    have M: "(if ?fl AND push_bit 0 1 \<noteq> 0 then rbind (read_string (dst ?p (?M @ ?C @ ?E @ r) ?m)) (\<lambda>(s, d). Inr (Some s, d))
        else Inr (None, dst ?p (?M @ ?C @ ?E @ r) ?m)) = Inr (message, dst (?p @ ?M) (?C @ ?E @ r) ?m)"
      unfolding error_flags_bits using len by (cases message) (simp_all add: scf_read)
    note bits = error_flags_bits [of message cause errors]
    have C: "(if ?fl AND push_bit 1 1 \<noteq> 0 then rbind (?dv (dst (?p @ ?M) (?C @ ?E @ r) ?m)) (\<lambda>(c, d). Inr (Some c, d))
        else Inr (None, dst (?p @ ?M) (?C @ ?E @ r) ?m)) = dec_result ((?p @ ?M) @ ?C) (?E @ r) ?rc"
    proof (cases cause)
      case (Some v)
      have "?dv (dst (?p @ ?M) (?C @ ?E @ r) ?m) = dec_result ((?p @ ?M) @ ?C) (?E @ r) (resolve v ?m)"
        using readsD [OF cause [OF Some], of "?p @ ?M" "?E @ r" ?m] len Some by simp
      then show ?thesis
        unfolding bits using Some by (cases "resolve v ?m" rule: res_cases) simp_all
    next
      case None
      then show ?thesis unfolding bits by simp
    qed
    have E: "(if ?fl AND push_bit 2 1 \<noteq> 0
          then rbind (read_usize (dst (?p @ ?M @ ?C) (?E @ r) m)) (\<lambda>(count, d).
               rbind (check_count count d) (\<lambda>_.
               rbind (decode_values ?dv count [] d) (\<lambda>(errs, d). Inr (Some errs, d))))
          else Inr (None, dst (?p @ ?M @ ?C) (?E @ r) m))
        = dec_result ((?p @ ?M @ ?C) @ ?E) r (?re m)" for m
    proof (cases errors)
      case (Some errs)
      have lens: "length errs < 18446744073709551616" "length errs \<le> length (concat (map (scf_bytes B) errs))"
        using length_concat_ge [of errs "scf_bytes B"] len Some by simp_all
      have "decode_values ?dv (length errs) []
          (dst (?p @ ?M @ ?C @ uvar (length errs)) (concat (map (scf_bytes B) errs) @ r) m)
        = dec_result ((?p @ ?M @ ?C @ uvar (length errs)) @ concat (map (scf_bytes B) errs)) r
            (thread_values (map resolve errs) m)"
        using decode_values_dst [where acc = "[]" and dv = ?dv and vs = errs and f = "scf_bytes B"
            and pre = "?p @ ?M @ ?C @ uvar (length errs)" and r = r and memo = m] errors [OF Some] len Some
        by (cases "thread_values (map resolve errs) m" rule: res_cases) simp_all
      then show ?thesis
        unfolding error_flags_bits using Some lens
        by (cases "thread_values (map resolve errs) m" rule: res_cases) (simp_all add: scf_read)
    next
      case None
      then show ?thesis unfolding bits by simp
    qed
    show "decode_tagged lim B ?dv SCF_ERROR
        (dst pre ((sc_error_kind_u8 kind # ?fl # ?M @ ?C @ ?E) @ r) memo)
      = dec_result (pre @ sc_error_kind_u8 kind # ?fl # ?M @ ?C @ ?E) r
          (resolve (ScError kind message cause errors) memo)"
      unfolding decode_tagged_simps decode_error_value_def resolve.simps
      using M C E
      by (cases ?rc rule: res_cases; cases "?re (snd (projr ?rc))" rule: res_cases)
        (simp_all only: memo_dst Let_def prod.case rbind.simps read_byte_dst append_Cons append_assoc
          sc_error_kind_round_trip option.case append_Nil dec_result_simps sum.sel snd_conv in_slot_def)
  qed (use ScError.prems in simp)
  then show ?case by simp
next
  case (ScTypedArray kind off len buffer)
  then have buf: "reads (decode_value_depth lim B (d + 1)) buffer (scf_bytes B buffer)" by simp
  have "reads (decode_value_depth lim B d) (ScTypedArray kind off len buffer)
      (SCF_TYPEDARRAY # (sc_typed_array_kind_u8 kind # uvar off @ uvar len @ scf_bytes B buffer))"
  proof (intro readsI)
    fix pre r :: bytes and memo :: "'b scvalue list"
    assume bound: "length pre + length (sc_typed_array_kind_u8 kind # uvar off @ uvar len @ scf_bytes B buffer)
      + length r < 2 ^ 64"
    then show "decode_tagged lim B (decode_value_depth lim B (d + 1)) SCF_TYPEDARRAY
        (dst pre ((sc_typed_array_kind_u8 kind # uvar off @ uvar len @ scf_bytes B buffer) @ r) memo)
      = dec_result (pre @ sc_typed_array_kind_u8 kind # uvar off @ uvar len @ scf_bytes B buffer) r
          (resolve (ScTypedArray kind off len buffer) memo)"
      using readsD [OF buf, of "pre @ sc_typed_array_kind_u8 kind # uvar off @ uvar len" r "memo @ [ScUndefined]"]
        ScTypedArray.prems
      by (cases "resolve buffer (memo @ [ScUndefined])" rule: res_cases)
        (simp_all add: decode_typedarray_value_def scf_read Let_def in_slot_def usize_ok_def)
  qed (use ScTypedArray.prems in simp)
  then show ?case by simp
next
  case (ScDataView off len buffer)
  then have buf: "reads (decode_value_depth lim B (d + 1)) buffer (scf_bytes B buffer)" by simp
  have "reads (decode_value_depth lim B d) (ScDataView off len buffer)
      (SCF_DATAVIEW # (uvar off @ uvar len @ scf_bytes B buffer))"
  proof (intro readsI)
    fix pre r :: bytes and memo :: "'b scvalue list"
    assume bound: "length pre + length (uvar off @ uvar len @ scf_bytes B buffer) + length r < 2 ^ 64"
    then show "decode_tagged lim B (decode_value_depth lim B (d + 1)) SCF_DATAVIEW
        (dst pre ((uvar off @ uvar len @ scf_bytes B buffer) @ r) memo)
      = dec_result (pre @ uvar off @ uvar len @ scf_bytes B buffer) r (resolve (ScDataView off len buffer) memo)"
      using readsD [OF buf, of "pre @ uvar off @ uvar len" r "memo @ [ScUndefined]"] ScDataView.prems
      by (cases "resolve buffer (memo @ [ScUndefined])" rule: res_cases)
        (simp_all add: decode_dataview_value_def scf_read Let_def in_slot_def usize_ok_def)
  qed (use ScDataView.prems in simp)
  then show ?case by simp
next
  case (ScArrayBuffer data m)
  then show ?case
    by (auto intro!: readsI simp: decode_arraybuffer_value_def scf_read read_bytes_dst Let_def usize_ok_def
        split: option.split)
next
  case (ScMemoRef i)
  then show ?case
    by (auto intro!: readsI simp: decode_memo_ref_def scf_read Let_def usize_ok_def)
next
  case (ScDate t)
  then show ?case by (auto intro!: readsI simp: scf_read)
next
  case (ScString s)
  then show ?case by (auto intro!: readsI simp: scf_read)
next
  case (ScBoolean b)
  then show ?case by (auto intro!: readsI [where bs = "[]"])
next
  case ScUndefined
  then show ?case by (auto intro!: readsI [where bs = "[]"])
next
  case ScNull
  then show ?case by (auto intro!: readsI [where bs = "[]"])
qed (simp_all add: read_number read_bigint [OF _ assms(1)] read_regexp read_boxed assms(1))

end
