(* ===== verification/Scf_Memo.thy ===== *)
theory Scf_Memo
  imports Scf_Round_Trip
begin

text \<open>
  What a memo reference means, apart from any decoder: the objects of a value are numbered in the order
  in which they begin, and a reference stands for the object of its number, with the references
  in it expanded in turn. For every value whose references point to objects that are complete, the
  resolution of the decoder yields that expansion.
\<close>

section \<open>Meaning of references\<close>

text \<open>The objects of a value, in the order in which they begin.\<close>

primrec memo_nodes :: "'b scvalue \<Rightarrow> 'b scvalue list" where
  "memo_nodes ScUndefined = []"
| "memo_nodes ScNull = []"
| "memo_nodes (ScBoolean b) = []"
| "memo_nodes (ScNumber n) = []"
| "memo_nodes (ScBigInt bi) = []"
| "memo_nodes (ScString s) = []"
| "memo_nodes (ScDate t) = []"
| "memo_nodes (ScRegExp p flags) = []"
| "memo_nodes (ScArray es ps) =
     ScArray es ps # concat (map (case_option [] id) (map (map_option memo_nodes) es)) @
       concat (map snd (map (map_prod (\<lambda>k. k) memo_nodes) ps))"
| "memo_nodes (ScObject ps) = ScObject ps # concat (map snd (map (map_prod (\<lambda>k. k) memo_nodes) ps))"
| "memo_nodes (ScMap ps) = ScMap ps # concat (map (\<lambda>p. fst p @ snd p) (map (map_prod memo_nodes memo_nodes) ps))"
| "memo_nodes (ScSet vs) = ScSet vs # concat (map memo_nodes vs)"
| "memo_nodes (ScError kind message cause errors) =
     ScError kind message cause errors # case_option [] id (map_option memo_nodes cause) @
       case_option [] concat (map_option (map memo_nodes) errors)"
| "memo_nodes (ScArrayBuffer data m) = [ScArrayBuffer data m]"
| "memo_nodes (ScTypedArray kind off len buffer) = ScTypedArray kind off len buffer # memo_nodes buffer"
| "memo_nodes (ScDataView off len buffer) = ScDataView off len buffer # memo_nodes buffer"
| "memo_nodes (ScBoxedBoolean b) = [ScBoxedBoolean b]"
| "memo_nodes (ScBoxedNumber n) = [ScBoxedNumber n]"
| "memo_nodes (ScBoxedString s) = [ScBoxedString s]"
| "memo_nodes (ScBoxedBigInt bi) = [ScBoxedBigInt bi]"
| "memo_nodes (ScMemoRef i) = []"

fun primitive :: "'b scvalue \<Rightarrow> bool" where
  "primitive (ScArray es ps) = False"
| "primitive (ScObject ps) = False"
| "primitive (ScMap ps) = False"
| "primitive (ScSet vs) = False"
| "primitive (ScError kind message cause errors) = False"
| "primitive (ScTypedArray kind off len buffer) = False"
| "primitive (ScDataView off len buffer) = False"
| "primitive (ScMemoRef i) = False"
| "primitive v = True"

inductive expands :: "'b scvalue list \<Rightarrow> 'b scvalue \<Rightarrow> 'b scvalue \<Rightarrow> bool" for ns where
  exp_primitive: "primitive v \<Longrightarrow> expands ns v v"
| exp_array: "list_all2 (rel_option (expands ns)) es es' \<Longrightarrow> list_all2 (rel_prod (=) (expands ns)) ps ps' \<Longrightarrow>
    expands ns (ScArray es ps) (ScArray es' ps')"
| exp_object: "list_all2 (rel_prod (=) (expands ns)) ps ps' \<Longrightarrow> expands ns (ScObject ps) (ScObject ps')"
| exp_map: "list_all2 (rel_prod (expands ns) (expands ns)) ps ps' \<Longrightarrow> expands ns (ScMap ps) (ScMap ps')"
| exp_set: "list_all2 (expands ns) vs vs' \<Longrightarrow> expands ns (ScSet vs) (ScSet vs')"
| exp_error: "rel_option (expands ns) cause cause' \<Longrightarrow> rel_option (list_all2 (expands ns)) errors errors' \<Longrightarrow>
    expands ns (ScError kind message cause errors) (ScError kind message cause' errors')"
| exp_typed: "expands ns b b' \<Longrightarrow> expands ns (ScTypedArray kind off len b) (ScTypedArray kind off len b')"
| exp_view: "expands ns b b' \<Longrightarrow> expands ns (ScDataView off len b) (ScDataView off len b')"
| exp_ref: "i < length ns \<Longrightarrow> expands ns (ns ! i) w \<Longrightarrow> expands ns (ScMemoRef i) w"

text \<open>The beginnings, ends and references of a value in order. A reference is to a complete object if the
  object has begun and is none of those that are still open.\<close>

datatype memo_event = MemoOpen | MemoClose | MemoUse nat

primrec memo_trace :: "'b scvalue \<Rightarrow> memo_event list" where
  "memo_trace ScUndefined = []"
| "memo_trace ScNull = []"
| "memo_trace (ScBoolean b) = []"
| "memo_trace (ScNumber n) = []"
| "memo_trace (ScBigInt bi) = []"
| "memo_trace (ScString s) = []"
| "memo_trace (ScDate t) = []"
| "memo_trace (ScRegExp p flags) = []"
| "memo_trace (ScArray es ps) =
     MemoOpen # (concat (map (case_option [] id) (map (map_option memo_trace) es)) @
       concat (map snd (map (map_prod (\<lambda>k. k) memo_trace) ps))) @ [MemoClose]"
| "memo_trace (ScObject ps) =
     MemoOpen # concat (map snd (map (map_prod (\<lambda>k. k) memo_trace) ps)) @ [MemoClose]"
| "memo_trace (ScMap ps) =
     MemoOpen # concat (map (\<lambda>p. fst p @ snd p) (map (map_prod memo_trace memo_trace) ps)) @ [MemoClose]"
| "memo_trace (ScSet vs) = MemoOpen # concat (map memo_trace vs) @ [MemoClose]"
| "memo_trace (ScError kind message cause errors) =
     MemoOpen # (case_option [] id (map_option memo_trace cause) @
       case_option [] concat (map_option (map memo_trace) errors)) @ [MemoClose]"
| "memo_trace (ScArrayBuffer data m) = [MemoOpen, MemoClose]"
| "memo_trace (ScTypedArray kind off len buffer) = MemoOpen # memo_trace buffer @ [MemoClose]"
| "memo_trace (ScDataView off len buffer) = MemoOpen # memo_trace buffer @ [MemoClose]"
| "memo_trace (ScBoxedBoolean b) = [MemoOpen, MemoClose]"
| "memo_trace (ScBoxedNumber n) = [MemoOpen, MemoClose]"
| "memo_trace (ScBoxedString s) = [MemoOpen, MemoClose]"
| "memo_trace (ScBoxedBigInt bi) = [MemoOpen, MemoClose]"
| "memo_trace (ScMemoRef i) = [MemoUse i]"

fun uses_complete :: "memo_event list \<Rightarrow> nat \<Rightarrow> nat list \<Rightarrow> bool" where
  "uses_complete [] n stack = True"
| "uses_complete (MemoOpen # es) n stack = uses_complete es (n + 1) (n # stack)"
| "uses_complete (MemoClose # es) n stack = uses_complete es n (tl stack)"
| "uses_complete (MemoUse i # es) n stack = (i < n \<and> i \<notin> set stack \<and> uses_complete es n stack)"

definition refs_complete :: "'b scvalue \<Rightarrow> bool" where
  "refs_complete v \<longleftrightarrow> uses_complete (memo_trace v) 0 []"

text \<open>A value has one expansion at most.\<close>

inductive_cases expands_arrayE: "expands ns (ScArray es ps) w"
inductive_cases expands_objectE: "expands ns (ScObject ps) w"
inductive_cases expands_mapE: "expands ns (ScMap ps) w"
inductive_cases expands_setE: "expands ns (ScSet vs) w"
inductive_cases expands_errorE: "expands ns (ScError kind message cause errors) w"
inductive_cases expands_typedE: "expands ns (ScTypedArray kind off len b) w"
inductive_cases expands_viewE: "expands ns (ScDataView off len b) w"
inductive_cases expands_refE: "expands ns (ScMemoRef i) w"

lemma expands_primitive: "primitive v \<Longrightarrow> expands ns v w \<Longrightarrow> w = v"
  by (erule expands.cases) simp_all

lemma list_all2_unique:
  assumes "list_all2 Q xs ys" "list_all2 R xs zs" "\<And>a b c. Q a b \<Longrightarrow> R a c \<Longrightarrow> b = c"
  shows "ys = zs"
  using assms(1,2)
proof (induction arbitrary: zs rule: list_all2_induct)
  case (Cons x xs y ys)
  then show ?case using assms(3) by (auto simp: list_all2_Cons1)
qed simp

lemma rel_option_unique:
  "rel_option Q x y \<Longrightarrow> rel_option R x z \<Longrightarrow> (\<And>a b c. Q a b \<Longrightarrow> R a c \<Longrightarrow> b = c) \<Longrightarrow> y = z"
  by (cases x; cases y; cases z) auto

lemma expands_unique: "expands ns v w \<Longrightarrow> expands ns v u \<Longrightarrow> w = u"
proof (induction arbitrary: u rule: expands.induct)
  case (exp_primitive v)
  then show ?case using expands_primitive by blast
next
  case (exp_array es es' ps ps')
  from exp_array.prems show ?case
  proof (rule expands_arrayE)
    fix es'' ps''
    assume u: "u = ScArray es'' ps''" "list_all2 (rel_option (expands ns)) es es''"
      "list_all2 (rel_prod (=) (expands ns)) ps ps''"
    have "es' = es''"
      by (rule list_all2_unique [OF exp_array.IH(1) u(2)], erule rel_option_unique, assumption, blast)
    moreover have "ps' = ps''" by (rule list_all2_unique [OF exp_array.IH(2) u(3)]) (auto elim!: rel_prod.cases)
    ultimately show ?thesis using u(1) by simp
  qed
next
  case (exp_object ps ps')
  from exp_object.prems show ?case
  proof (rule expands_objectE)
    fix ps''
    assume u: "u = ScObject ps''" "list_all2 (rel_prod (=) (expands ns)) ps ps''"
    have "ps' = ps''" by (rule list_all2_unique [OF exp_object.IH u(2)]) (auto elim!: rel_prod.cases)
    then show ?thesis using u(1) by simp
  qed
next
  case (exp_map ps ps')
  from exp_map.prems show ?case
  proof (rule expands_mapE)
    fix ps''
    assume u: "u = ScMap ps''" "list_all2 (rel_prod (expands ns) (expands ns)) ps ps''"
    have "ps' = ps''" by (rule list_all2_unique [OF exp_map.IH u(2)]) (auto elim!: rel_prod.cases)
    then show ?thesis using u(1) by simp
  qed
next
  case (exp_set vs vs')
  from exp_set.prems show ?case
  proof (rule expands_setE)
    fix vs''
    assume u: "u = ScSet vs''" "list_all2 (expands ns) vs vs''"
    have "vs' = vs''" by (rule list_all2_unique [OF exp_set.IH u(2)]) blast
    then show ?thesis using u(1) by simp
  qed
next
  case (exp_error cause cause' errors errors' kind message)
  from exp_error.prems show ?case
  proof (rule expands_errorE)
    fix cause'' errors''
    assume u: "u = ScError kind message cause'' errors''" "rel_option (expands ns) cause cause''"
      "rel_option (list_all2 (expands ns)) errors errors''"
    have "cause' = cause''" by (rule rel_option_unique [OF exp_error.IH(1) u(2)]) blast
    moreover have "errors' = errors''"
      by (rule rel_option_unique [OF exp_error.IH(2) u(3)], erule list_all2_unique, assumption, blast)
    ultimately show ?thesis using u(1) by simp
  qed
next
  case (exp_typed b b' kind off len)
  from exp_typed.prems show ?case by (rule expands_typedE) (use exp_typed.IH in auto)
next
  case (exp_view b b' off len)
  from exp_view.prems show ?case by (rule expands_viewE) (use exp_view.IH in auto)
next
  case (exp_ref i w)
  from exp_ref.prems show ?case by (rule expands_refE) (use exp_ref.IH in auto)
qed

section \<open>Resolution\<close>

text \<open>The memo table while a value is resolved: every slot that is not open holds the expansion of its
  object.\<close>

definition memo_sound :: "'b scvalue list \<Rightarrow> 'b scvalue list \<Rightarrow> nat list \<Rightarrow> bool" where
  "memo_sound ns memo stack \<longleftrightarrow> (\<forall>i < length memo. i \<notin> set stack \<longrightarrow> expands ns (ns ! i) (memo ! i))"

definition placed :: "'b scvalue list \<Rightarrow> nat \<Rightarrow> 'b scvalue list \<Rightarrow> bool" where
  "placed ns n vs \<longleftrightarrow> (\<exists>xs ys. ns = xs @ vs @ ys \<and> length xs = n)"

lemma placed_append:
  assumes "placed ns n (vs @ ws)"
  shows "placed ns n vs" "placed ns (n + length vs) ws"
proof -
  obtain xs ys where ns: "ns = xs @ (vs @ ws) @ ys" "length xs = n" using assms by (auto simp: placed_def)
  then show "placed ns n vs" unfolding placed_def by (intro exI [of _ xs] exI [of _ "ws @ ys"]) simp
  show "placed ns (n + length vs) ws"
    unfolding placed_def using ns by (intro exI [of _ "xs @ vs"] exI [of _ ys]) simp
qed

lemma placed_Cons:
  assumes "placed ns n (v # vs)"
  shows "n < length ns" "ns ! n = v" "placed ns (Suc n) vs"
proof -
  obtain xs ys where "ns = xs @ (v # vs) @ ys" "length xs = n" using assms by (auto simp: placed_def)
  then show "n < length ns" "ns ! n = v" by auto
  show "placed ns (Suc n) vs" using placed_append(2) [of ns n "[v]" vs] assms by simp
qed

lemma placed_Nil: "placed ns n [] \<Longrightarrow> n \<le> length ns"
  by (auto simp: placed_def)

definition resolves ::
    "'b scvalue list \<Rightarrow> ('b scvalue list \<Rightarrow> sc_error + 'x \<times> 'b scvalue list) \<Rightarrow> ('x \<Rightarrow> bool) \<Rightarrow> memo_event list \<Rightarrow>
       'b scvalue list \<Rightarrow> bool" where
  "resolves ns f R tr vs \<longleftrightarrow>
     (\<forall>memo stack rest. memo_sound ns memo stack \<and> uses_complete (tr @ rest) (length memo) stack \<and>
        placed ns (length memo) vs \<longrightarrow>
        (\<exists>x memo'. f memo = Inr (x, memo') \<and> R x \<and> memo_sound ns memo' stack \<and>
           length memo' = length memo + length vs \<and> uses_complete rest (length memo') stack))"

lemma resolvesI:
  assumes "\<And>memo stack rest. memo_sound ns memo stack \<Longrightarrow> uses_complete (tr @ rest) (length memo) stack \<Longrightarrow>
     placed ns (length memo) vs \<Longrightarrow>
     \<exists>x memo'. f memo = Inr (x, memo') \<and> R x \<and> memo_sound ns memo' stack \<and>
       length memo' = length memo + length vs \<and> uses_complete rest (length memo') stack"
  shows "resolves ns f R tr vs"
  using assms unfolding resolves_def by blast

lemma resolvesE:
  assumes "resolves ns f R tr vs" "memo_sound ns memo stack" "uses_complete (tr @ rest) (length memo) stack"
    "placed ns (length memo) vs"
  obtains x memo' where "f memo = Inr (x, memo')" "R x" "memo_sound ns memo' stack"
    "length memo' = length memo + length vs" "uses_complete rest (length memo') stack"
  using assms unfolding resolves_def by blast

lemma resolves_return: "R x \<Longrightarrow> resolves ns (\<lambda>m. Inr (x, m)) R [] []"
  by (simp add: resolves_def)

lemma resolves_bind:
  assumes f: "resolves ns f R tr vs" and g: "\<And>x. R x \<Longrightarrow> resolves ns (g x) Q tr' vs'"
  shows "resolves ns (\<lambda>m. rbind (f m) (\<lambda>(x, m). g x m)) Q (tr @ tr') (vs @ vs')"
proof (rule resolvesI)
  fix memo stack rest
  assume m: "memo_sound ns memo stack" "uses_complete ((tr @ tr') @ rest) (length memo) stack"
    "placed ns (length memo) (vs @ vs')"
  then have "uses_complete (tr @ tr' @ rest) (length memo) stack" "placed ns (length memo) vs"
    by (simp_all add: placed_append(1))
  from resolvesE [OF f m(1) this] obtain x memo1 where x: "f memo = Inr (x, memo1)" "R x" "memo_sound ns memo1 stack"
    "length memo1 = length memo + length vs" "uses_complete (tr' @ rest) (length memo1) stack" by blast
  have "placed ns (length memo1) vs'" using placed_append(2) [OF m(3)] x(4) by simp
  from resolvesE [OF g [OF x(2)] x(3,5) this] obtain y memo2 where y: "g x memo1 = Inr (y, memo2)" "Q y"
    "memo_sound ns memo2 stack" "length memo2 = length memo1 + length vs'" "uses_complete rest (length memo2) stack"
    by blast
  then show
    "\<exists>y memo'. rbind (f memo) (\<lambda>(x, m). g x m) = Inr (y, memo') \<and> Q y \<and> memo_sound ns memo' stack \<and>
       length memo' = length memo + length (vs @ vs') \<and> uses_complete rest (length memo') stack"
    using x(1,4) by (intro exI [of _ y] exI [of _ memo2]) simp
qed

lemma resolves_mono: "resolves ns f R tr vs \<Longrightarrow> (\<And>x. R x \<Longrightarrow> Q x) \<Longrightarrow> resolves ns f Q tr vs"
  unfolding resolves_def by meson

text \<open>An object: a slot is taken, the parts are resolved, the slot is filled.\<close>

lemma resolves_object:
  assumes f: "resolves ns f (\<lambda>x. expands ns v (build x)) tr vs"
  shows "resolves ns (\<lambda>memo. rbind (f (memo @ [ScUndefined])) (\<lambda>(x, m). in_slot memo (build x) m)) (expands ns v)
    (MemoOpen # tr @ [MemoClose]) (v # vs)"
proof (rule resolvesI)
  fix memo stack rest
  assume m: "memo_sound ns memo stack" "uses_complete ((MemoOpen # tr @ [MemoClose]) @ rest) (length memo) stack"
    "placed ns (length memo) (v # vs)"
  let ?memo = "memo @ [ScUndefined]"
  have "memo_sound ns ?memo (length memo # stack)" using m(1) by (auto simp: memo_sound_def nth_append)
  moreover have "uses_complete (tr @ MemoClose # rest) (length ?memo) (length memo # stack)" using m(2) by simp
  moreover have "placed ns (length ?memo) vs" "ns ! length memo = v" using placed_Cons [OF m(3)] by simp_all
  ultimately obtain x memo1 where x: "f ?memo = Inr (x, memo1)" "expands ns v (build x)"
    "memo_sound ns memo1 (length memo # stack)" "length memo1 = length ?memo + length vs"
    "uses_complete (MemoClose # rest) (length memo1) (length memo # stack)"
    using resolvesE [OF f] by metis
  have "memo_sound ns (memo1[length memo := build x]) stack"
    using x(2,3,4) \<open>ns ! length memo = v\<close> by (auto simp: memo_sound_def nth_list_update)
  then show "\<exists>y memo'. rbind (f ?memo) (\<lambda>(x, m). in_slot memo (build x) m) = Inr (y, memo') \<and> expands ns v y \<and>
      memo_sound ns memo' stack \<and> length memo' = length memo + length (v # vs) \<and> uses_complete rest (length memo') stack"
    using x by (simp add: in_slot_def)
qed

lemma resolves_leaf:
  assumes "primitive v"
  shows "resolves ns (\<lambda>memo. Inr (v, memo @ [v])) (expands ns v) [MemoOpen, MemoClose] [v]"
  using assms
  by (auto simp: resolves_def memo_sound_def nth_append less_Suc_eq dest: placed_Cons intro: exp_primitive)

lemma resolves_ref:
  "resolves ns (\<lambda>memo. if i < length memo then Inr (memo ! i, memo) else Inl (ScInvalidMemoRef i))
     (expands ns (ScMemoRef i)) [MemoUse i] []"
  by (auto simp: resolves_def memo_sound_def dest!: placed_Nil intro!: exp_ref)

lemma resolves_values:
  "(\<And>v. v \<in> set vs \<Longrightarrow> resolves ns (f v) (expands ns v) (memo_trace v) (memo_nodes v)) \<Longrightarrow>
     resolves ns (thread_values (map f vs)) (list_all2 (expands ns) vs)
       (concat (map memo_trace vs)) (concat (map memo_nodes vs))"
proof (induction vs)
  case Nil
  then show ?case using resolves_return [of "\<lambda>ws. ws = []" "[]"] by simp
next
  case (Cons v vs)
  have "resolves ns (\<lambda>m. rbind (f v m) (\<lambda>(w, m). rbind (thread_values (map f vs) m) (\<lambda>(ws, m). Inr (w # ws, m))))
      (list_all2 (expands ns) (v # vs)) (memo_trace v @ concat (map memo_trace vs) @ [])
      (memo_nodes v @ concat (map memo_nodes vs) @ [])"
    by (rule resolves_bind [OF Cons.prems], simp, rule resolves_bind [OF Cons.IH], simp add: Cons.prems)
      (rule resolves_return, simp)
  then show ?case by simp
qed

lemma resolves_elements:
  "(\<And>v. Some v \<in> set es \<Longrightarrow> resolves ns (f v) (expands ns v) (memo_trace v) (memo_nodes v)) \<Longrightarrow>
     resolves ns (thread_elements (map (map_option f) es)) (list_all2 (rel_option (expands ns)) es)
       (concat (map (case_option [] id) (map (map_option memo_trace) es)))
       (concat (map (case_option [] id) (map (map_option memo_nodes) es)))"
proof (induction es)
  case Nil
  then show ?case using resolves_return [of "\<lambda>ws. ws = []" "[]"] by simp
next
  case (Cons x es)
  let ?f = "\<lambda>m. case map_option f x of None \<Rightarrow> Inr (None, m) | Some g \<Rightarrow> rbind (g m) (\<lambda>(v, m). Inr (Some v, m))"
  have "resolves ns ?f (rel_option (expands ns) x) (case_option [] id (map_option memo_trace x))
      (case_option [] id (map_option memo_nodes x))"
  proof (cases x)
    case None
    then show ?thesis by (simp add: resolves_return)
  next
    case (Some v)
    have "resolves ns (\<lambda>m. rbind (f v m) (\<lambda>(v, m). Inr (Some v, m))) (rel_option (expands ns) x)
        (memo_trace v @ []) (memo_nodes v @ [])"
      by (rule resolves_bind [OF Cons.prems], simp add: Some) (rule resolves_return, simp add: Some)
    then show ?thesis using Some by simp
  qed
  then have "resolves ns (\<lambda>m. rbind (?f m) (\<lambda>(w, m).
        rbind (thread_elements (map (map_option f) es) m) (\<lambda>(ws, m). Inr (w # ws, m))))
      (list_all2 (rel_option (expands ns)) (x # es))
      (case_option [] id (map_option memo_trace x) @ concat (map (case_option [] id) (map (map_option memo_trace) es)) @ [])
      (case_option [] id (map_option memo_nodes x) @ concat (map (case_option [] id) (map (map_option memo_nodes) es)) @ [])"
    by (rule resolves_bind) (rule resolves_bind [OF Cons.IH], simp add: Cons.prems, rule resolves_return, simp)
  then show ?case by simp
qed

lemma resolves_props:
  "(\<And>k v. (k, v) \<in> set ps \<Longrightarrow> resolves ns (f v) (expands ns v) (memo_trace v) (memo_nodes v)) \<Longrightarrow>
     resolves ns (thread_props (map (map_prod (\<lambda>k. k) f) ps)) (list_all2 (rel_prod (=) (expands ns)) ps)
       (concat (map snd (map (map_prod (\<lambda>k. k) memo_trace) ps)))
       (concat (map snd (map (map_prod (\<lambda>k. k) memo_nodes) ps)))"
proof (induction ps)
  case Nil
  then show ?case using resolves_return [of "\<lambda>ws. ws = []" "[]"] by simp
next
  case (Cons p ps)
  obtain k v where p: "p = (k, v)" by (cases p)
  have v: "resolves ns (f v) (expands ns v) (memo_trace v) (memo_nodes v)" by (rule Cons.prems [of k]) (simp add: p)
  have rest: "resolves ns (f w) (expands ns w) (memo_trace w) (memo_nodes w)" if "(j, w) \<in> set ps" for j w
    using that by (intro Cons.prems [of j]) simp
  have "resolves ns (\<lambda>m. rbind (f v m) (\<lambda>(w, m).
        rbind (thread_props (map (map_prod (\<lambda>k. k) f) ps) m) (\<lambda>(ws, m). Inr ((k, w) # ws, m))))
      (list_all2 (rel_prod (=) (expands ns)) (p # ps))
      (memo_trace v @ concat (map snd (map (map_prod (\<lambda>k. k) memo_trace) ps)) @ [])
      (memo_nodes v @ concat (map snd (map (map_prod (\<lambda>k. k) memo_nodes) ps)) @ [])"
    by (rule resolves_bind [OF v], rule resolves_bind [OF Cons.IH], erule rest) (rule resolves_return, simp add: p)
  then show ?case by (simp add: p)
qed

lemma resolves_pairs:
  "(\<And>k v. (k, v) \<in> set ps \<Longrightarrow> resolves ns (f k) (expands ns k) (memo_trace k) (memo_nodes k) \<and>
       resolves ns (f v) (expands ns v) (memo_trace v) (memo_nodes v)) \<Longrightarrow>
     resolves ns (thread_pairs (map (map_prod f f) ps)) (list_all2 (rel_prod (expands ns) (expands ns)) ps)
       (concat (map (\<lambda>p. fst p @ snd p) (map (map_prod memo_trace memo_trace) ps)))
       (concat (map (\<lambda>p. fst p @ snd p) (map (map_prod memo_nodes memo_nodes) ps)))"
proof (induction ps)
  case Nil
  then show ?case using resolves_return [of "\<lambda>ws. ws = []" "[]"] by simp
next
  case (Cons p ps)
  obtain k v where p: "p = (k, v)" by (cases p)
  have kv: "resolves ns (f k) (expands ns k) (memo_trace k) (memo_nodes k)"
    "resolves ns (f v) (expands ns v) (memo_trace v) (memo_nodes v)" using Cons.prems [of k v] p by simp_all
  have "resolves ns (\<lambda>m. rbind (f k m) (\<lambda>(j, m). rbind (f v m) (\<lambda>(w, m).
        rbind (thread_pairs (map (map_prod f f) ps) m) (\<lambda>(ws, m). Inr ((j, w) # ws, m)))))
      (list_all2 (rel_prod (expands ns) (expands ns)) (p # ps))
      (memo_trace k @ memo_trace v @ concat (map (\<lambda>p. fst p @ snd p) (map (map_prod memo_trace memo_trace) ps)) @ [])
      (memo_nodes k @ memo_nodes v @ concat (map (\<lambda>p. fst p @ snd p) (map (map_prod memo_nodes memo_nodes) ps)) @ [])"
    by (rule resolves_bind [OF kv(1)], rule resolves_bind [OF kv(2)], rule resolves_bind [OF Cons.IH],
        rule Cons.prems, simp) (rule resolves_return, simp add: p)
  then show ?case by (simp add: p)
qed

lemma rbind_assoc: "rbind (rbind r f) g = rbind r (\<lambda>x. rbind (f x) g)"
  by (cases r) simp_all

lemma resolve_expands: "resolves ns (resolve v) (expands ns v) (memo_trace v) (memo_nodes v)"
proof (induction v)
  case (ScArray es ps)
  have "resolves ns (\<lambda>m. rbind (thread_elements (map (map_option resolve) es) m) (\<lambda>(es', m).
        rbind (thread_props (map (map_prod (\<lambda>k. k) resolve) ps) m) (\<lambda>(ps', m). Inr ((es', ps'), m))))
      (\<lambda>x. expands ns (ScArray es ps) (case_prod ScArray x))
      (concat (map (case_option [] id) (map (map_option memo_trace) es)) @
        concat (map snd (map (map_prod (\<lambda>k. k) memo_trace) ps)) @ [])
      (concat (map (case_option [] id) (map (map_option memo_nodes) es)) @
        concat (map snd (map (map_prod (\<lambda>k. k) memo_nodes) ps)) @ [])"
    by (rule resolves_bind [OF resolves_elements], rule ScArray.IH(1), assumption, simp,
        rule resolves_bind [OF resolves_props], rule ScArray.IH(2), assumption, simp)
      (rule resolves_return, simp add: exp_array)
  from resolves_object [OF this] show ?case by (simp add: rbind_assoc case_prod_unfold)
next
  case (ScObject ps)
  have "resolves ns (thread_props (map (map_prod (\<lambda>k. k) resolve) ps)) (\<lambda>ps'. expands ns (ScObject ps) (ScObject ps'))
      (concat (map snd (map (map_prod (\<lambda>k. k) memo_trace) ps)))
      (concat (map snd (map (map_prod (\<lambda>k. k) memo_nodes) ps)))"
    by (rule resolves_mono [OF resolves_props exp_object], rule ScObject.IH, assumption, simp)
  from resolves_object [OF this] show ?case by simp
next
  case (ScMap ps)
  have "resolves ns (thread_pairs (map (map_prod resolve resolve) ps)) (\<lambda>ps'. expands ns (ScMap ps) (ScMap ps'))
      (concat (map (\<lambda>p. fst p @ snd p) (map (map_prod memo_trace memo_trace) ps)))
      (concat (map (\<lambda>p. fst p @ snd p) (map (map_prod memo_nodes memo_nodes) ps)))"
    by (rule resolves_mono [OF resolves_pairs exp_map]) (auto intro: ScMap.IH)
  from resolves_object [OF this] show ?case by simp
next
  case (ScSet vs)
  have "resolves ns (thread_values (map resolve vs)) (\<lambda>vs'. expands ns (ScSet vs) (ScSet vs'))
      (concat (map memo_trace vs)) (concat (map memo_nodes vs))"
    by (rule resolves_mono [OF resolves_values exp_set]) (auto intro: ScSet.IH)
  from resolves_object [OF this] show ?case by simp
next
  case (ScError kind message cause errors)
  let ?c = "\<lambda>m. case map_option resolve cause of None \<Rightarrow> Inr (None, m)
    | Some f \<Rightarrow> rbind (f m) (\<lambda>(c, m). Inr (Some c, m))"
  let ?e = "\<lambda>m. case map_option (map resolve) errors of None \<Rightarrow> Inr (None, m)
    | Some fs \<Rightarrow> rbind (thread_values fs m) (\<lambda>(vs, m). Inr (Some vs, m))"
  have c: "resolves ns ?c (rel_option (expands ns) cause) (case_option [] id (map_option memo_trace cause))
      (case_option [] id (map_option memo_nodes cause))"
  proof (cases cause)
    case None
    then show ?thesis by (simp add: resolves_return)
  next
    case (Some v)
    have "resolves ns (\<lambda>m. rbind (resolve v m) (\<lambda>(c, m). Inr (Some c, m))) (rel_option (expands ns) cause)
        (memo_trace v @ []) (memo_nodes v @ [])"
      by (rule resolves_bind [OF ScError.IH(1)], simp add: Some) (rule resolves_return, simp add: Some)
    then show ?thesis using Some by simp
  qed
  have e: "resolves ns ?e (rel_option (list_all2 (expands ns)) errors)
      (case_option [] concat (map_option (map memo_trace) errors))
      (case_option [] concat (map_option (map memo_nodes) errors))"
  proof (cases errors)
    case None
    then show ?thesis by (simp add: resolves_return)
  next
    case (Some vs)
    have "resolves ns (\<lambda>m. rbind (thread_values (map resolve vs) m) (\<lambda>(vs, m). Inr (Some vs, m)))
        (rel_option (list_all2 (expands ns)) errors)
        (concat (map memo_trace vs) @ []) (concat (map memo_nodes vs) @ [])"
      by (rule resolves_bind [OF resolves_values], rule ScError.IH(2), simp add: Some, assumption)
        (rule resolves_return, simp add: Some)
    then show ?thesis using Some by simp
  qed
  have "resolves ns (\<lambda>m. rbind (?c m) (\<lambda>(cause', m). rbind (?e m) (\<lambda>(errors', m). Inr ((cause', errors'), m))))
      (\<lambda>x. expands ns (ScError kind message cause errors) (ScError kind message (fst x) (snd x)))
      (case_option [] id (map_option memo_trace cause) @ case_option [] concat (map_option (map memo_trace) errors) @ [])
      (case_option [] id (map_option memo_nodes cause) @ case_option [] concat (map_option (map memo_nodes) errors) @ [])"
    by (rule resolves_bind [OF c], rule resolves_bind [OF e]) (rule resolves_return, simp add: exp_error)
  from resolves_object [OF this] show ?case by (simp add: rbind_assoc case_prod_unfold)
next
  case (ScTypedArray kind off len buffer)
  from resolves_object [OF resolves_mono [OF ScTypedArray.IH exp_typed]] show ?case by simp
next
  case (ScDataView off len buffer)
  from resolves_object [OF resolves_mono [OF ScDataView.IH exp_view]] show ?case by simp
next
  case (ScMemoRef i)
  show ?case using resolves_ref by simp
qed (simp_all add: resolves_leaf [simplified] resolves_return exp_primitive)

lemma refs_complete_resolve:
  assumes "refs_complete v"
  shows "\<exists>w memo. resolve v [] = Inr (w, memo) \<and> expands (memo_nodes v) v w"
proof -
  have "memo_sound (memo_nodes v) [] []" "placed (memo_nodes v) (length []) (memo_nodes v)"
    by (simp_all add: memo_sound_def placed_def)
  moreover have "uses_complete (memo_trace v @ []) (length []) []" using assms by (simp add: refs_complete_def)
  ultimately show ?thesis using resolvesE [OF resolve_expands] by metis
qed

end
