(* ===== verification/Scf_Format.thy ===== *)
theory Scf_Format
  imports Scf_Memo
begin

text \<open>
  The blobs of the structured-clone format: header, payload, checksum. They decode to the value
  that was encoded, with its memo references expanded; no single corrupted byte goes unnoticed;
  and whatever is decoded has no memo references left.
\<close>

definition scf_header :: bytes where
  "scf_header = SCF_MAGIC @ [SCF_VERSION, 0, 0, 0]"

definition scf_blob :: "bytes \<Rightarrow> bytes" where
  "scf_blob payload =
     scf_header @ payload @ le_bytes 4 (unat (crc32c (scf_header @ payload)))"

lemma length_scf_header [simp]: "length scf_header = 8"
  by (simp add: scf_header_def SCF_MAGIC_def)

lemma encode_scf_blob:
  assumes "storable v lim 0" "8 + length (scf_bytes B v) \<le> max_value_len lim"
  shows "encode_scf lim B v = Inr (scf_blob (scf_bytes B v))"
proof -
  have buf: "se_buf scf_encoder_new = scf_header"
    by (simp add: scf_encoder_new_def scf_header_def)
  have "wrote scf_encoder_new (scf_bytes B v) (encode_with_depth lim B 0 v scf_encoder_new)"
    using encode_writes [OF assms(1), of B] assms(2) by (simp add: writes_def buf)
  then obtain e where "encode_with_depth lim B 0 v scf_encoder_new = Inr e"
    "se_buf e = scf_header @ scf_bytes B v"
    by (auto simp: wrote_def buf)
  then show ?thesis
    by (simp add: encode_scf_def scf_finish_def scf_blob_def Let_def)
qed

lemma crc_bytes [simp]: "(word_of_nat (of_le_bytes (le_bytes 4 (unat (c :: u32)))) :: u32) = c"
  by (simp only: of_le_bytes_le_bytes) simp

lemma decoder_new_dst [simp]: "scf_decoder_new payload = dst [] payload []"
  by (simp add: scf_decoder_new_def dst_def)

lemma decode_scf_blob:
  assumes "payload \<noteq> []" "length payload \<le> max_value_len lim"
  shows "decode_scf lim B (scf_blob payload) =
    rbind (decode_value_depth lim B 0 (dst [] payload [])) (\<lambda>(v, d). Inr v)"
proof -
  let ?b = "scf_blob payload"
  have len: "length ?b = 12 + length payload" "13 \<le> length ?b"
    using assms(1) by (simp_all add: scf_blob_def Suc_le_eq)
  have "take 4 ?b = SCF_MAGIC" "?b ! 4 = SCF_VERSION"
    by (simp_all add: scf_blob_def scf_header_def SCF_MAGIC_def)
  moreover have "take (length ?b - 4) ?b = scf_header @ payload"
    "drop (length ?b - 4) ?b = le_bytes 4 (unat (crc32c (scf_header @ payload)))"
    unfolding len(1) by (simp_all add: scf_blob_def)
  ultimately show ?thesis
    using len assms unfolding decode_scf_def Let_def by simp
qed

section \<open>Values without memo references\<close>

primrec memo_free :: "'b scvalue \<Rightarrow> bool" where
  "memo_free ScUndefined = True"
| "memo_free ScNull = True"
| "memo_free (ScBoolean b) = True"
| "memo_free (ScNumber n) = True"
| "memo_free (ScBigInt bi) = True"
| "memo_free (ScString s) = True"
| "memo_free (ScDate t) = True"
| "memo_free (ScRegExp p flags) = True"
| "memo_free (ScArray es ps) =
     (list_all (pred_option id) (map (map_option memo_free) es) \<and>
      list_all snd (map (map_prod (\<lambda>k. k) memo_free) ps))"
| "memo_free (ScObject ps) = list_all snd (map (map_prod (\<lambda>k. k) memo_free) ps)"
| "memo_free (ScMap ps) = list_all (\<lambda>p. fst p \<and> snd p) (map (map_prod memo_free memo_free) ps)"
| "memo_free (ScSet vs) = list_all id (map memo_free vs)"
| "memo_free (ScError kind message cause errors) =
     (pred_option id (map_option memo_free cause) \<and> pred_option (list_all id) (map_option (map memo_free) errors))"
| "memo_free (ScArrayBuffer data m) = True"
| "memo_free (ScTypedArray kind off len buffer) = memo_free buffer"
| "memo_free (ScDataView off len buffer) = memo_free buffer"
| "memo_free (ScBoxedBoolean b) = True"
| "memo_free (ScBoxedNumber n) = True"
| "memo_free (ScBoxedString s) = True"
| "memo_free (ScBoxedBigInt bi) = True"
| "memo_free (ScMemoRef i) = False"

text \<open>Such a value stands for itself.\<close>

definition itself :: "'b resolver \<Rightarrow> 'b scvalue \<Rightarrow> bool" where
  "itself f v \<longleftrightarrow> (\<forall>memo. \<exists>memo'. f memo = Inr (v, memo'))"

lemma thread_values_itself:
  "(\<And>v. v \<in> set vs \<Longrightarrow> itself (f v) v) \<Longrightarrow> \<exists>m. thread_values (map f vs) memo = Inr (vs, m)"
proof (induction vs arbitrary: memo)
  case (Cons v vs)
  obtain m where "f v memo = Inr (v, m)" using Cons.prems [of v] by (auto simp: itself_def)
  with Cons show ?case by fastforce
qed simp

lemma thread_elements_itself:
  "(\<And>v. Some v \<in> set es \<Longrightarrow> itself (f v) v) \<Longrightarrow>
     \<exists>m. thread_elements (map (map_option f) es) memo = Inr (es, m)"
proof (induction es arbitrary: memo)
  case (Cons x es)
  show ?case
  proof (cases x)
    case None
    with Cons show ?thesis by fastforce
  next
    case (Some v)
    then obtain m where "f v memo = Inr (v, m)" using Cons.prems [of v] by (auto simp: itself_def)
    with Cons Some show ?thesis by fastforce
  qed
qed simp

lemma thread_props_itself:
  "(\<And>k v. (k, v) \<in> set ps \<Longrightarrow> itself (f v) v) \<Longrightarrow>
     \<exists>m. thread_props (map (map_prod (\<lambda>k. k) f) ps) memo = Inr (ps, m)"
proof (induction ps arbitrary: memo)
  case (Cons p ps)
  obtain k v where p: "p = (k, v)" by (cases p)
  obtain m where 1: "f v memo = Inr (v, m)" using Cons.prems [of k v] p by (auto simp: itself_def)
  obtain m' where "thread_props (map (map_prod (\<lambda>k. k) f) ps) m = Inr (ps, m')"
    using Cons.IH [of m] Cons.prems by force
  with 1 show ?case by (simp add: p)
qed simp

lemma thread_pairs_itself:
  "(\<And>k v. (k, v) \<in> set ps \<Longrightarrow> itself (f k) k \<and> itself (f v) v) \<Longrightarrow>
     \<exists>m. thread_pairs (map (map_prod f f) ps) memo = Inr (ps, m)"
proof (induction ps arbitrary: memo)
  case (Cons p ps)
  obtain k v where p: "p = (k, v)" by (cases p)
  obtain m where 1: "f k memo = Inr (k, m)" using Cons.prems [of k v] p by (auto simp: itself_def)
  obtain m' where 2: "f v m = Inr (v, m')" using Cons.prems [of k v] p by (auto simp: itself_def)
  obtain m'' where "thread_pairs (map (map_prod f f) ps) m' = Inr (ps, m'')"
    using Cons.IH [of m'] Cons.prems by force
  with 1 2 show ?case by (simp add: p)
qed simp

lemma resolve_itself: "memo_free v \<Longrightarrow> itself (resolve v) v"
proof (induction v)
  case (ScArray es ps)
  have es: "itself (resolve v) v" if "Some v \<in> set es" for v
    using ScArray.IH(1) [of "Some v" v] ScArray.prems that by (auto simp: list_all_iff)
  have ps: "itself (resolve v) v" if "(k, v) \<in> set ps" for k v
    using ScArray.IH(2) [of "(k, v)" v] ScArray.prems that by (auto simp: list_all_iff)
  show ?case
    unfolding itself_def
  proof
    fix memo
    obtain m1 where 1: "thread_elements (map (map_option resolve) es) (memo @ [ScUndefined]) = Inr (es, m1)"
      using thread_elements_itself [of es resolve] es by blast
    obtain m2 where "thread_props (map (map_prod (\<lambda>k. k) resolve) ps) m1 = Inr (ps, m2)"
      using thread_props_itself [of ps resolve] ps by blast
    with 1 show "\<exists>memo'. resolve (ScArray es ps) memo = Inr (ScArray es ps, memo')"
      by (simp add: in_slot_def)
  qed
next
  case (ScObject ps)
  have ps: "itself (resolve v) v" if "(k, v) \<in> set ps" for k v
    using ScObject.IH [of "(k, v)" v] ScObject.prems that by (auto simp: list_all_iff)
  show ?case
    unfolding itself_def
  proof
    fix memo
    obtain m where "thread_props (map (map_prod (\<lambda>k. k) resolve) ps) (memo @ [ScUndefined]) = Inr (ps, m)"
      using thread_props_itself [of ps resolve] ps by blast
    then show "\<exists>memo'. resolve (ScObject ps) memo = Inr (ScObject ps, memo')" by (simp add: in_slot_def)
  qed
next
  case (ScMap ps)
  have ps: "itself (resolve k) k \<and> itself (resolve v) v" if "(k, v) \<in> set ps" for k v
    using ScMap.IH(1) [of "(k, v)" k] ScMap.IH(2) [of "(k, v)" v] ScMap.prems that by (auto simp: list_all_iff)
  show ?case
    unfolding itself_def
  proof
    fix memo
    obtain m where "thread_pairs (map (map_prod resolve resolve) ps) (memo @ [ScUndefined]) = Inr (ps, m)"
      using thread_pairs_itself [of ps resolve] ps by blast
    then show "\<exists>memo'. resolve (ScMap ps) memo = Inr (ScMap ps, memo')" by (simp add: in_slot_def)
  qed
next
  case (ScSet vs)
  have vs: "itself (resolve v) v" if "v \<in> set vs" for v
    using ScSet that by (auto simp: list_all_iff)
  show ?case
    unfolding itself_def
  proof
    fix memo
    obtain m where "thread_values (map resolve vs) (memo @ [ScUndefined]) = Inr (vs, m)"
      using thread_values_itself [of vs resolve] vs by blast
    then show "\<exists>memo'. resolve (ScSet vs) memo = Inr (ScSet vs, memo')" by (simp add: in_slot_def)
  qed
next
  case (ScError kind message cause errors)
  have c: "itself (resolve v) v" if "cause = Some v" for v
    using ScError.IH(1) [of v] ScError.prems that by simp
  have es: "itself (resolve v) v" if "errors = Some errs" "v \<in> set errs" for errs v
    using ScError.IH(2) [of errs v] ScError.prems that by (auto simp: list_all_iff)
  show ?case
    unfolding itself_def
  proof
    fix memo
    have "\<exists>m. (case map_option resolve cause of None \<Rightarrow> Inr (None, memo @ [ScUndefined])
        | Some f \<Rightarrow> rbind (f (memo @ [ScUndefined])) (\<lambda>(c, m). Inr (Some c, m))) = Inr (cause, m)"
    proof (cases cause)
      case (Some v)
      then obtain m where "resolve v (memo @ [ScUndefined]) = Inr (v, m)" using c by (auto simp: itself_def)
      then show ?thesis using Some by simp
    qed simp
    then obtain m1 where 1: "(case map_option resolve cause of None \<Rightarrow> Inr (None, memo @ [ScUndefined])
        | Some f \<Rightarrow> rbind (f (memo @ [ScUndefined])) (\<lambda>(c, m). Inr (Some c, m))) = Inr (cause, m1)" by blast
    have "\<exists>m. (case map_option (map resolve) errors of None \<Rightarrow> Inr (None, m1)
        | Some fs \<Rightarrow> rbind (thread_values fs m1) (\<lambda>(vs, m). Inr (Some vs, m))) = Inr (errors, m)"
    proof (cases errors)
      case (Some errs)
      then obtain m where "thread_values (map resolve errs) m1 = Inr (errs, m)"
        using thread_values_itself [of errs resolve] es by blast
      then show ?thesis using Some by simp
    qed simp
    with 1 show "\<exists>memo'. resolve (ScError kind message cause errors) memo
        = Inr (ScError kind message cause errors, memo')"
      by (auto simp: in_slot_def)
  qed
next
  case (ScTypedArray kind off len buffer)
  then show ?case unfolding itself_def by (fastforce simp: in_slot_def)
next
  case (ScDataView off len buffer)
  then show ?case unfolding itself_def by (fastforce simp: in_slot_def)
qed (simp_all add: itself_def)

section \<open>Round trip\<close>

lemma decode_scf_bytes:
  assumes "bigint_law B" "max_value_len lim < 2 ^ 63" "storable v lim 0"
    and "8 + length (scf_bytes B v) \<le> max_value_len lim"
  shows "decode_scf lim B (scf_blob (scf_bytes B v)) = rbind (map_err ScErr (resolve v [])) (\<lambda>(w, memo). Inr w)"
proof -
  have "reads (decode_value_depth lim B 0) v (scf_bytes B v)"
    using assms by (intro decode_reads) simp_all
  from readsD [OF this, of "[]" "[]" "[]"]
  have "decode_value_depth lim B 0 (dst [] (scf_bytes B v) []) = dec_result (scf_bytes B v) [] (resolve v [])"
    using assms(2,4) by simp
  then show ?thesis
    using assms(4) by (cases "resolve v []" rule: res_cases) (simp_all add: decode_scf_blob)
qed

text \<open>C18. Round trip of the structured-clone format: a value within the limits encodes; if it has no memo
  references the decoder returns it as it was; if all its references are to objects that are
  complete where they stand, the decoder returns its one expansion, in which every reference stands for
  the object of its number in the order in which the objects begin. References to an object that is
  still open, which cycles would need, are left out: they do not come back.\<close>

theorem scf_round_trip:
  assumes "bigint_law B" "max_value_len lim < 2 ^ 63" "storable v lim 0"
    and "8 + length (scf_bytes B v) \<le> max_value_len lim"
  shows "\<exists>bs. encode_scf lim B v = Inr bs \<and> (memo_free v \<longrightarrow> decode_scf lim B bs = Inr v) \<and>
    (refs_complete v \<longrightarrow>
       (\<exists>w. decode_scf lim B bs = Inr w \<and> (\<forall>u. expands (memo_nodes v) v u \<longleftrightarrow> u = w)))"
proof -
  let ?bs = "scf_blob (scf_bytes B v)"
  have plain: "decode_scf lim B ?bs = Inr v" if free: "memo_free v"
  proof -
    obtain memo where "resolve v [] = Inr (v, memo)" using resolve_itself [OF free] unfolding itself_def by blast
    then show ?thesis by (simp add: decode_scf_bytes [OF assms])
  qed
  have expanded: "\<exists>w. decode_scf lim B ?bs = Inr w \<and> (\<forall>u. expands (memo_nodes v) v u \<longleftrightarrow> u = w)"
    if complete: "refs_complete v"
  proof -
    obtain w memo where w: "resolve v [] = Inr (w, memo)" "expands (memo_nodes v) v w"
      using refs_complete_resolve [OF complete] by (elim exE conjE)
    have decoded: "decode_scf lim B ?bs = Inr w" by (simp add: decode_scf_bytes [OF assms] w(1))
    have unique: "\<forall>u. expands (memo_nodes v) v u \<longleftrightarrow> u = w"
    proof (intro allI iffI)
      fix u assume "expands (memo_nodes v) v u"
      then show "u = w" by (rule expands_unique [OF _ w(2)])
    next
      fix u assume "u = w"
      then show "expands (memo_nodes v) v u" using w(2) by (simp only:)
    qed
    show ?thesis by (rule exI [of _ w], rule conjI [OF decoded unique])
  qed
  show ?thesis
    by (rule exI [of _ ?bs], intro conjI impI, rule encode_scf_blob [OF assms(3,4)], erule plain, erule expanded)
qed

text \<open>The conversions of a concrete integer type satisfy the law, and an array that holds one object
  twice comes back with the object in both places.\<close>

definition int_bytes :: "int bigint_ops" where
  "int_bytes =
     \<lparr>bi_to_bytes_le = \<lambda>i. (if i < 0 then BiMinus else if i = 0 then BiNoSign else BiPlus,
        le_bytes (nat \<bar>i\<bar>) (nat \<bar>i\<bar>)),
      bi_from_bytes_le = \<lambda>s bs. if s = BiMinus then - int (of_le_bytes bs) else int (of_le_bytes bs)\<rparr>"

lemma int_bytes_law: "bigint_law int_bytes"
proof -
  have "n < 256 ^ n" for n :: nat by (induction n) simp_all
  then have "of_le_bytes (le_bytes n n) = n" for n by (simp add: of_le_bytes_le_bytes)
  then show ?thesis by (auto simp: bigint_law_def int_bytes_def)
qed

lemma shared_storable:
  "storable (ScArray [Some (ScObject []), Some (ScMemoRef 1)] [] :: int scvalue) default_limits 0"
  "8 + length (scf_bytes int_bytes (ScArray [Some (ScObject []), Some (ScMemoRef 1)] []))
     \<le> max_value_len default_limits"
  using length_uvarint_le [of 0] length_uvarint_le [of 1] length_uvarint_le [of 2]
  by (simp_all add: default_limits_def usize_ok_def uvar_def prop_bytes_def count_some_def)

theorem scf_round_trip_witness:
  "\<exists>bs. encode_scf default_limits int_bytes (ScArray [Some (ScObject []), Some (ScMemoRef 1)] []) = Inr bs \<and>
     decode_scf default_limits int_bytes bs = Inr (ScArray [Some (ScObject []), Some (ScObject [])] [])"
proof -
  let ?v = "ScArray [Some (ScObject []), Some (ScMemoRef 1)] [] :: int scvalue"
    and ?w = "ScArray [Some (ScObject []), Some (ScObject [])] [] :: int scvalue"
  have nodes: "memo_nodes ?v = [?v, ScObject []]" by simp
  have object: "expands ns (ScObject []) (ScObject [])" for ns :: "int scvalue list" by (simp add: exp_object)
  have "expands [?v, ScObject []] (ScMemoRef 1) (ScObject [])" by (rule exp_ref) (simp_all add: object)
  then have "expands (memo_nodes ?v) ?v ?w" unfolding nodes by (intro exp_array) (simp_all add: object)
  moreover have "refs_complete ?v" by (simp add: refs_complete_def)
  moreover have "max_value_len default_limits < 2 ^ 63" by (simp add: default_limits_def)
  from scf_round_trip [OF int_bytes_law this shared_storable]
  obtain bs where "encode_scf default_limits int_bytes ?v = Inr bs"
    "refs_complete ?v \<longrightarrow> (\<exists>w. decode_scf default_limits int_bytes bs = Inr w \<and> (\<forall>u. expands (memo_nodes ?v) ?v u \<longleftrightarrow> u = w))"
    by (elim exE conjE)
  ultimately show ?thesis by auto
qed

text \<open>A reference to an object that is still open is no error and no cycle: the array that holds itself
  comes back with \<open>undefined\<close> in its place.\<close>

theorem enclosing_reference_lost:
  "\<exists>bs. encode_scf default_limits int_bytes (ScArray [Some (ScMemoRef 0)] []) = Inr bs \<and>
     decode_scf default_limits int_bytes bs = Inr (ScArray [Some ScUndefined] [])"
proof -
  let ?v = "ScArray [Some (ScMemoRef 0)] [] :: int scvalue"
  have s: "storable ?v default_limits 0" "8 + length (scf_bytes int_bytes ?v) \<le> max_value_len default_limits"
    using length_uvarint_le [of 0] length_uvarint_le [of 1]
    by (simp_all add: default_limits_def usize_ok_def uvar_def prop_bytes_def count_some_def)
  have "decode_scf default_limits int_bytes (scf_blob (scf_bytes int_bytes ?v)) = Inr (ScArray [Some ScUndefined] [])"
    by (subst decode_scf_bytes [OF int_bytes_law _ s]) (simp_all add: default_limits_def in_slot_def)
  then show ?thesis using encode_scf_blob [OF s] by blast
qed

section \<open>Corruption\<close>

text \<open>C39. No single corrupted byte goes unnoticed: whatever byte of an encoded blob is changed to
  whatever else, the decoder returns an error.\<close>

theorem scf_corruption_detected:
  assumes "encode_scf lim B v = Inr bs" "i < length bs" "b \<noteq> bs ! i"
  shows "\<exists>e. decode_scf lim' B' (bs[i := b]) = Inl (ScErr e)"
proof -
  from assms(1) obtain buf where bs: "bs = sealed buf"
    by (auto simp: encode_scf_def scf_finish_def sealed_def Let_def)
  then show ?thesis
    using sealed_damage [of i buf b] assms(2,3) unfolding decode_scf_def Let_def by simp
qed

section \<open>What a decoder can return\<close>

definition memo_ok :: "'b scf_decoder \<Rightarrow> bool" where
  "memo_ok d \<longleftrightarrow> list_all memo_free (sd_memo d)"

text \<open>\<open>yields P r\<close>: a result that, if it is one, satisfies \<open>P\<close> and leaves the memo free of references.
  The rules \<open>yields\<close> walk through a decoder in the order it reads.\<close>

definition yields :: "('a \<Rightarrow> bool) \<Rightarrow> sc_fault + 'a \<times> 'b scf_decoder \<Rightarrow> bool" where
  "yields P r \<longleftrightarrow> (\<forall>x d. r = Inr (x, d) \<longrightarrow> P x \<and> memo_ok d)"

lemma yields_Inr [simp]: "yields P (Inr (x, d)) \<longleftrightarrow> P x \<and> memo_ok d"
  by (auto simp: yields_def)

lemma yields_Inl [simp]: "yields P (Inl e)"
  by (simp add: yields_def)

lemma yields_rbind:
  "yields P r \<Longrightarrow> (\<And>x d. P x \<Longrightarrow> memo_ok d \<Longrightarrow> yields Q (k (x, d))) \<Longrightarrow> yields Q (rbind r k)"
  by (cases r) (auto simp: yields_def)

lemma yields_check: "yields Q (k ()) \<Longrightarrow> yields Q (rbind (check_count n d) k)"
  by (simp add: check_count_def)

lemma yields_if: "(b \<Longrightarrow> yields P r) \<Longrightarrow> (\<not> b \<Longrightarrow> yields P s) \<Longrightarrow> yields P (if b then r else s)"
  by simp

definition clean :: "'b child_decoder \<Rightarrow> bool" where
  "clean dv \<longleftrightarrow> (\<forall>d. memo_ok d \<longrightarrow> yields memo_free (dv d))"

named_theorems reads_ok

lemma reads_yield [reads_ok]:
  assumes "memo_ok d"
  shows "yields (\<lambda>b. True) (read_byte d)" "yields (\<lambda>bs. True) (read_bytes n d)"
    "yields (\<lambda>x. True) (read_f64_le d)" "yields (\<lambda>w. True) (read_uvarint d)"
    "yields (\<lambda>w. True) (read_ivarint d)" "yields (\<lambda>n. True) (read_usize d)"
  using assms
  by (auto simp: yields_def memo_ok_def read_byte_def read_bytes_def read_f64_le_def read_uvarint_def
      read_ivarint_def read_usize_def split: if_splits)

lemma read_units_yields [reads_ok]: "memo_ok d \<Longrightarrow> yields (\<lambda>us. True) (read_units n acc d)"
  by (induction n arbitrary: acc d) (auto intro!: yields_rbind reads_ok)

lemma string_yields [reads_ok]:
  assumes "memo_ok d"
  shows "yields memo_free (decode_string_value d)" "yields (\<lambda>s. True) (read_string d)"
proof -
  show *: "yields memo_free (decode_string_value d)"
    unfolding decode_string_value_def
    by (auto intro!: yields_rbind [OF reads_yield(6)] yields_rbind [OF read_units_yields] assms)
  show "yields (\<lambda>s. True) (read_string d)"
    unfolding read_string_def by (rule yields_rbind [OF *]) (auto split: scvalue.split)
qed

lemma yields_slot:
  "memo_ok d \<Longrightarrow> (\<And>i d'. memo_ok d' \<Longrightarrow> yields P (k (i, d'))) \<Longrightarrow> yields P (case memo_reserve d of x \<Rightarrow> k x)"
  by (simp add: memo_reserve_def memo_ok_def)

lemma yields_fill: "memo_free v \<Longrightarrow> memo_ok d \<Longrightarrow> yields memo_free (Inr (memo_fill i v d))"
  by (auto simp: memo_fill_def memo_ok_def list_all_iff dest!: set_update_subset_insert [THEN subsetD])

lemma child_yields: "clean dv \<Longrightarrow> memo_ok d \<Longrightarrow> yields memo_free (dv d)"
  by (simp add: clean_def)

lemma im_insert_all: "list_all (\<lambda>p. P (snd p)) m \<Longrightarrow> P v \<Longrightarrow> list_all (\<lambda>p. P (snd p)) (im_insert k v m)"
  by (induction k v m rule: im_insert.induct) auto

lemma loops_yield:
  assumes "clean dv"
  shows "memo_ok d \<Longrightarrow> list_all memo_free acc \<Longrightarrow> yields (list_all memo_free) (decode_values dv n acc d)"
    and "memo_ok d \<Longrightarrow> list_all (\<lambda>p. memo_free (fst p) \<and> memo_free (snd p)) pacc \<Longrightarrow>
      yields (list_all (\<lambda>p. memo_free (fst p) \<and> memo_free (snd p))) (decode_pairs dv n pacc d)"
    and "memo_ok d \<Longrightarrow> list_all (\<lambda>p. memo_free (snd p)) kacc \<Longrightarrow>
      yields (list_all (\<lambda>p. memo_free (snd p))) (decode_extra dv n kacc d)"
    and "memo_ok d \<Longrightarrow> list_all (\<lambda>p. memo_free (snd p)) kacc \<Longrightarrow>
      yields (list_all (\<lambda>p. memo_free (snd p))) (decode_entries dv n kacc d)"
    and "memo_ok d \<Longrightarrow> list_all (pred_option memo_free) eacc \<Longrightarrow>
      yields (list_all (pred_option memo_free)) (decode_elements dv n len eacc d)"
proof (induction n arbitrary: d acc pacc kacc eacc)
  case (Suc n)
  note child = yields_rbind [OF child_yields [OF assms]]
  {
    case 1 with Suc(1) show ?case by (auto intro!: child)
  next
    case 2 with Suc(2) show ?case by (auto intro!: child)
  next
    case 3 with Suc(3) show ?case
      by (auto intro!: yields_rbind [OF string_yields(2)] child)
  next
    case 4 then show ?case
      by (auto intro!: yields_rbind [OF string_yields(2)] child Suc(4) im_insert_all [of memo_free])
  next
    case 5
    have upd: "list_all (pred_option memo_free) (eacc[i := Some v])" if "memo_free v" for i v
      using that 5(2) by (auto simp: list_all_iff dest!: set_update_subset_insert [THEN subsetD])
    show ?case
      using 5 Suc(5) upd
      by (auto intro!: yields_rbind [OF reads_yield(6)] yields_if child)
  }
qed simp_all

lemma memo_free_containers:
  "memo_free (ScArray es ps) \<longleftrightarrow> list_all (pred_option memo_free) es \<and> list_all (\<lambda>p. memo_free (snd p)) ps"
  "memo_free (ScObject ps) \<longleftrightarrow> list_all (\<lambda>p. memo_free (snd p)) ps"
  "memo_free (ScMap pps) \<longleftrightarrow> list_all (\<lambda>p. memo_free (fst p) \<and> memo_free (snd p)) pps"
  "memo_free (ScSet vs) \<longleftrightarrow> list_all memo_free vs"
  "memo_free (ScError kind message cause errors) \<longleftrightarrow>
     pred_option memo_free cause \<and> pred_option (list_all memo_free) errors"
  by (auto simp: list_all_iff pred_option_def)

declare memo_free.simps(9-13) [simp del] memo_free_containers [simp]

lemma containers_clean:
  assumes "clean dv"
  shows "clean (decode_array_value lim dv)" "clean (decode_object_value dv)" "clean (decode_map_value dv)"
    "clean (decode_set_value dv)" "clean (decode_typedarray_value dv)" "clean (decode_dataview_value dv)"
    "clean decode_arraybuffer_value"
proof -
  note steps = yields_rbind [OF reads_yield(1)] yields_rbind [OF reads_yield(2)] yields_rbind [OF reads_yield(6)]
    yields_rbind [OF string_yields(2)] yields_check yields_if yields_fill
    yields_rbind [OF child_yields [OF assms]] yields_rbind [OF loops_yield(1) [OF assms]]
    yields_rbind [OF loops_yield(2) [OF assms]] yields_rbind [OF loops_yield(3) [OF assms]]
    yields_rbind [OF loops_yield(4) [OF assms]] yields_rbind [OF loops_yield(5) [OF assms]]
  note defs = Let_def memo_reserve_def memo_ok_def [of "_\<lparr>sd_memo := _\<rparr>"]
  show "clean (decode_array_value lim dv)"
    unfolding clean_def decode_array_value_def
    by (auto simp: defs list_all_iff [of _ "replicate _ _"] intro!: steps) (simp_all add: memo_ok_def)
  show "clean (decode_object_value dv)"
    unfolding clean_def decode_object_value_def
    by (auto simp: defs intro!: steps) (simp_all add: memo_ok_def)
  show "clean (decode_map_value dv)"
    unfolding clean_def decode_map_value_def
    by (auto simp: defs intro!: steps) (simp_all add: memo_ok_def)
  show "clean (decode_set_value dv)"
    unfolding clean_def decode_set_value_def
    by (auto simp: defs intro!: steps) (simp_all add: memo_ok_def)
  show "clean (decode_typedarray_value dv)"
    unfolding clean_def decode_typedarray_value_def
    by (auto simp: defs intro!: steps split: option.split) (simp_all add: memo_ok_def)
  show "clean (decode_dataview_value dv)"
    unfolding clean_def decode_dataview_value_def
    by (auto simp: defs intro!: steps) (simp_all add: memo_ok_def)
  show "clean decode_arraybuffer_value"
    unfolding clean_def decode_arraybuffer_value_def
    by (auto simp: defs intro!: steps) (simp_all add: memo_ok_def)
qed

lemma yields_bind:
  "yields P r \<Longrightarrow> (\<And>x d. P x \<Longrightarrow> memo_ok d \<Longrightarrow> yields Q (f x d)) \<Longrightarrow> yields Q (rbind r (\<lambda>(x, d). f x d))"
  by (cases r) (auto simp: yields_def)

lemma yields_option:
  "(\<And>x. yields P (f x)) \<Longrightarrow> yields P (case z of None \<Rightarrow> Inl e | Some x \<Rightarrow> f x)"
  by (cases z) simp_all

lemma boxed_clean:
  assumes "clean dv"
  shows "clean (decode_boxed_value dv)"
proof -
  note inner = yields_bind [OF child_yields [OF assms]]
  have "yields memo_free (decode_boxed_value dv d)" if "memo_ok d" for d
    unfolding decode_boxed_value_def Let_def memo_reserve_def prod.case
  proof (intro yields_bind [OF reads_yield(1)] yields_bind [where P = memo_free] yields_if inner yields_fill)
    show "memo_ok (d\<lparr>sd_memo := sd_memo d @ [ScUndefined]\<rparr>)" using that by (simp add: memo_ok_def)
  qed (auto intro: child_yields [OF assms] split: scvalue.split)
  then show ?thesis by (simp add: clean_def)
qed

lemma error_clean:
  assumes "clean dv"
  shows "clean (decode_error_value dv)"
proof -
  note child = yields_bind [OF child_yields [OF assms]]
  have message: "yields (\<lambda>m. True) (if b then rbind (read_string d) (\<lambda>(s, d). Inr (Some s, d)) else Inr (None, d))"
    if "memo_ok d" for b d
    using that by (auto intro!: yields_if yields_bind [OF string_yields(2)])
  have cause: "yields (pred_option memo_free) (if b then rbind (dv d) (\<lambda>(c, d). Inr (Some c, d)) else Inr (None, d))"
    if "memo_ok d" for b d
    using that by (auto intro!: yields_if child)
  have errors: "yields (pred_option (list_all memo_free))
      (if b then rbind (read_usize d) (\<lambda>(count, d). rbind (check_count count d) (\<lambda>_.
         rbind (decode_values dv count [] d) (\<lambda>(errs, d). Inr (Some errs, d)))) else Inr (None, d))"
    if "memo_ok d" for b d
    using that
    by (auto intro!: yields_if yields_bind [OF reads_yield(6)] yields_check yields_bind [OF loops_yield(1) [OF assms]])
  have "yields memo_free (decode_error_value dv d)" if "memo_ok d" for d
    unfolding decode_error_value_def Let_def memo_reserve_def prod.case
  proof (intro yields_bind [OF reads_yield(1)] yields_option yields_bind [OF message]
      yields_bind [OF cause] yields_bind [OF errors] yields_fill)
    show "memo_ok (d\<lparr>sd_memo := sd_memo d @ [ScUndefined]\<rparr>)" using that by (simp add: memo_ok_def)
  qed auto
  then show ?thesis by (simp add: clean_def)
qed

lemma primitives_clean:
  "clean (decode_bigint_value B)" "clean decode_regexp_value" "clean decode_memo_ref"
proof -
  note steps = yields_rbind [OF reads_yield(1)] yields_rbind [OF reads_yield(2)] yields_rbind [OF reads_yield(4)]
    yields_rbind [OF reads_yield(6)] yields_rbind [OF read_units_yields] yields_if
  show "clean (decode_bigint_value B)"
    unfolding clean_def decode_bigint_value_def by (auto intro!: steps)
  show "clean decode_regexp_value"
    unfolding clean_def decode_regexp_value_def by (auto intro!: steps)
  show "clean decode_memo_ref"
    unfolding clean_def decode_memo_ref_def Let_def
    by (auto intro!: steps) (simp add: memo_ok_def list_all_iff)
qed

lemma tagged_clean:
  assumes "clean dv" "memo_ok d"
  shows "yields memo_free (decode_tagged lim B dv tag d)"
  unfolding decode_tagged_def
  using assms
  by (intro yields_if containers_clean [THEN child_yields] boxed_clean [THEN child_yields]
      error_clean [THEN child_yields] primitives_clean [THEN child_yields] string_yields
      yields_bind [OF reads_yield(3)] yields_bind [OF reads_yield(5)]; simp)

lemma decode_clean: "clean (decode_value_depth lim B depth)"
proof (induction "max_clone_depth lim + 1 - depth" arbitrary: depth rule: less_induct)
  case less
  have "yields memo_free (decode_value_depth lim B depth d)" if "memo_ok d" for d
  proof (cases "depth > max_clone_depth lim")
    case True
    then show ?thesis by (simp add: decode_value_depth.simps [of lim B depth])
  next
    case False
    then have "clean (decode_value_depth lim B (depth + 1))" by (intro less) simp
    then show ?thesis
      unfolding decode_value_depth.simps [of lim B depth]
      using that by (intro yields_if yields_bind [OF reads_yield(1)] tagged_clean; simp)
  qed
  then show ?case by (simp add: clean_def)
qed

text \<open>Type of the decoder: whatever bytes it is given, a value it returns contains no memo
  reference, so every consumer of decoded values may ignore that constructor.\<close>

theorem decoded_memo_free:
  assumes "decode_scf lim B data = Inr v"
  shows "memo_free v"
proof -
  obtain d bs where "decode_value_depth lim B 0 (scf_decoder_new bs) = Inr (v, d)"
    using assms by (auto simp: decode_scf_def Let_def split: if_splits)
  moreover have "yields memo_free (decode_value_depth lim B 0 (scf_decoder_new bs))"
    by (rule child_yields [OF decode_clean]) (simp add: memo_ok_def dst_def)
  ultimately show ?thesis by (simp add: yields_def)
qed

theorem decoded_memo_free_witness:
  "memo_free (ScArray [Some (ScObject []), Some (ScObject [])] [] :: int scvalue)"
proof (rule decoded_memo_free)
  show "decode_scf default_limits int_bytes
      (scf_blob (scf_bytes int_bytes (ScArray [Some (ScObject []), Some (ScMemoRef 1)] [])))
    = Inr (ScArray [Some (ScObject []), Some (ScObject [])] [])"
    by (subst decode_scf_bytes [OF int_bytes_law _ shared_storable])
      (simp_all add: default_limits_def in_slot_def)
qed

theorem scf_corruption_detected_witness:
  "\<exists>e. decode_scf default_limits int_bytes
     ((scf_blob (scf_bytes int_bytes (ScArray [Some (ScObject []), Some (ScMemoRef 1)] [])))[0 := 0]) = Inl (ScErr e)"
proof (rule scf_corruption_detected)
  let ?v = "ScArray [Some (ScObject []), Some (ScMemoRef 1)] [] :: int scvalue"
  show "encode_scf default_limits int_bytes ?v = Inr (scf_blob (scf_bytes int_bytes ?v))"
    by (rule encode_scf_blob [OF shared_storable])
  show "0 < length (scf_blob (scf_bytes int_bytes ?v))" "0 \<noteq> scf_blob (scf_bytes int_bytes ?v) ! 0"
    by (simp_all add: scf_blob_def scf_header_def SCF_MAGIC_def)
qed

section \<open>Where encoder and decoder disagree\<close>

text \<open>The encoder checks the size before each value, so a payload can end up above the limit the
  decoder enforces; it encodes the primitive inside a boxed value without a depth check, the
  decoder counts it as a level; and a length near the top of the \<open>usize\<close> range makes the decoder's
  bounds check overflow.\<close>

lemma oversized_payload:
  "\<exists>bs. encode_scf \<lparr>max_key_len = 2, max_key_depth = 2, max_value_len = 8, max_clone_depth = 2\<rparr> B
      (ScDate 0) = Inr bs \<and>
    decode_scf \<lparr>max_key_len = 2, max_key_depth = 2, max_value_len = 8, max_clone_depth = 2\<rparr> B bs
      = Inl (ScErr (ScValueTooLarge 8 9))"
proof -
  let ?lim = "\<lparr>max_key_len = 2, max_key_depth = 2, max_value_len = 8, max_clone_depth = 2\<rparr>"
  let ?p = "SCF_DATE # le_bytes 8 0"
  have "encode_scf ?lim B (ScDate 0) = Inr (scf_blob ?p)"
    by (simp add: encode_scf_def encode_with_depth.simps [of ?lim] check_size_def scf_encoder_new_def
        scf_finish_def scf_blob_def scf_header_def SCF_MAGIC_def Let_def scf_buf)
  moreover have "take 4 (scf_blob ?p) = SCF_MAGIC" "scf_blob ?p ! 4 = SCF_VERSION" "length (scf_blob ?p) = 21"
    "take 17 (scf_blob ?p) = scf_header @ ?p"
    "drop 17 (scf_blob ?p) = le_bytes 4 (unat (crc32c (scf_header @ ?p)))"
    by (simp_all add: scf_blob_def scf_header_def SCF_MAGIC_def)
  ultimately show ?thesis
    by (intro exI [of _ "scf_blob ?p"]) (simp add: decode_scf_def Let_def)
qed

lemma boxed_below_limit:
  assumes "max_clone_depth lim = 0" "8 \<le> max_value_len lim"
  shows "encode_scf lim B (ScBoxedBoolean b) = Inr (scf_blob (scf_bytes B (ScBoxedBoolean b)))"
    and "decode_scf lim B (scf_blob (scf_bytes B (ScBoxedBoolean b))) = Inl (ScErr (ScMaxDepthExceeded 0))"
proof -
  show "encode_scf lim B (ScBoxedBoolean b) = Inr (scf_blob (scf_bytes B (ScBoxedBoolean b)))"
    using assms
    by (simp add: encode_scf_def encode_with_depth.simps [of lim] check_size_def scf_encoder_new_def
        scf_finish_def scf_blob_def scf_header_def SCF_MAGIC_def Let_def scf_buf)
  have boxed: "dst [] [SCF_BOXED, BOXED_BOOL, t] [] = dst [] (SCF_BOXED # BOXED_BOOL # [t]) []" for t
    by simp
  show "decode_scf lim B (scf_blob (scf_bytes B (ScBoxedBoolean b))) = Inl (ScErr (ScMaxDepthExceeded 0))"
    using assms
    by (simp add: decode_scf_blob decode_value_depth.simps [of lim B] scf_read decode_boxed_value_def Let_def)
qed

lemma length_overflow_panics:
  fixes B :: "'b bigint_ops"
  assumes "12 \<le> max_value_len lim"
  shows "decode_scf lim B (scf_blob (SCF_BIGINT # 0 # uvar (2 ^ 64 - 1))) = Inl ScPanic"
proof -
  let ?p = "SCF_BIGINT # 0 # uvar (2 ^ 64 - 1)"
  have "length ?p \<le> 12" using length_uvarint_le [of "word_of_nat (2 ^ 64 - 1)"] by (simp add: uvar_def)
  moreover have "read_usize (dst [SCF_BIGINT, 0] (uvar (2 ^ 64 - 1) @ []) ([] :: 'b scvalue list))
      = Inr (2 ^ 64 - 1, dst ([SCF_BIGINT, 0] @ uvar (2 ^ 64 - 1)) [] [])"
    by (rule read_usize_dst) simp
  ultimately show ?thesis
    using assms
    by (simp add: decode_scf_blob decode_value_depth.simps [of lim B 0] scf_read decode_bigint_value_def
        read_bytes_def) (simp add: dst_def)
qed

text \<open>Resolving a memo reference copies the value, so nested references make the decoded value
  exponentially larger than its encoding.\<close>

primrec doubled :: "nat \<Rightarrow> nat \<Rightarrow> 'b scvalue" where
  "doubled 0 m = ScSet []"
| "doubled (Suc n) m = ScSet [doubled n (m + 1), ScMemoRef (m + 1)]"

primrec full_tree :: "nat \<Rightarrow> 'b scvalue" where
  "full_tree 0 = ScSet []"
| "full_tree (Suc n) = ScSet [full_tree n, full_tree n]"

lemma resolve_doubled:
  "\<exists>memo'. resolve (doubled n (length memo)) memo = Inr (full_tree n, memo') \<and>
     length memo < length memo' \<and> memo' ! length memo = full_tree n"
proof (induction n arbitrary: memo)
  case (Suc n)
  from Suc [of "memo @ [ScUndefined]"] obtain m where
    "resolve (doubled n (length memo + 1)) (memo @ [ScUndefined]) = Inr (full_tree n, m)"
    "length memo + 1 < length m" "m ! (length memo + 1) = full_tree n"
    by auto
  then show ?case by (simp add: in_slot_def)
qed (simp add: in_slot_def)

lemma size_full_tree: "2 ^ n \<le> size (full_tree n :: 'b scvalue)"
  by (induction n) simp_all

lemma length_doubled: "length (scf_bytes B (doubled n m)) \<le> 22 * n + 11"
proof (induction n arbitrary: m)
  case 0
  show ?case using length_uvarint_le [of 0] by (simp add: uvar_def)
next
  case (Suc n)
  show ?case
    using length_uvarint_le [of 2] length_uvarint_le [of "word_of_nat (m + 1)"] Suc [of "Suc m"]
    by (simp add: uvar_def)
qed

lemma decoding_blows_up:
  "length (scf_bytes B (doubled n 0)) \<le> 22 * n + 11 \<and>
   (\<exists>w memo. resolve (doubled n 0) [] = Inr (w, memo) \<and> 2 ^ n \<le> size (w :: 'b scvalue))"
  using length_doubled [of B n 0] resolve_doubled [of n "[]"] size_full_tree [of n] by fastforce

end
