(* ===== verification/Key_Path.thy ===== *)
theory Key_Path
  imports Sc_Value
begin

text \<open>
  Key paths, \<open>key/path.rs\<close>: parsing and validation over UTF-16 code units, extraction of a key
  from a value, and injection of a generated key. A Rust \<open>char\<close> is the number of its Unicode
  scalar value, and a \<open>&str\<close> argument is given by its UTF-16 encoding. A \<open>&mut\<close> argument is
  returned beside the result.
\<close>

datatype key_path = PathEmpty | PathSingle utf16 | PathArray "utf16 list"

section \<open>Splitting\<close>

fun split_path_units :: "utf16 \<Rightarrow> utf16 list" where
  "split_path_units [] = [[]]"
| "split_path_units (cu # units) =
     (if cu = 0x002E then [] # split_path_units units
      else case split_path_units units of
        [] \<Rightarrow> [[cu]]
      | step # steps \<Rightarrow> (cu # step) # steps)"

fun join_steps :: "utf16 list \<Rightarrow> utf16" where
  "join_steps [] = []"
| "join_steps [s] = s"
| "join_steps (s # ss) = s @ [0x002E] @ join_steps ss"

lemma split_not_Nil [simp]: "split_path_units units \<noteq> []"
  by (induction units) (auto split: list.splits)

lemma join_split: "join_steps (split_path_units units) = units"
proof (induction units)
  case (Cons cu units)
  obtain s ss where "split_path_units units = s # ss" by (meson split_not_Nil list.exhaust)
  with Cons show ?case by (cases ss) simp_all
qed simp

lemma split_no_dot: "s \<in> set (split_path_units units) \<Longrightarrow> 0x002E \<notin> set s"
  by (induction units arbitrary: s) (auto split: list.splits if_splits)

section \<open>Identifiers\<close>

definition unicode_id_start :: "nat \<Rightarrow> bool" where
  "unicode_id_start c \<longleftrightarrow>
     0x61 \<le> c \<and> c \<le> 0x7A \<or> 0x41 \<le> c \<and> c \<le> 0x5A \<or> 0xC0 \<le> c \<and> c \<le> 0xD6 \<or>
     0xD8 \<le> c \<and> c \<le> 0xF6 \<or> 0xF8 \<le> c \<and> c \<le> 0x2FF \<or> 0x370 \<le> c \<and> c \<le> 0x37D \<or>
     0x37F \<le> c \<and> c \<le> 0x1FFF \<or> 0x2070 \<le> c \<and> c \<le> 0x218F \<or> 0x2C00 \<le> c \<and> c \<le> 0x2FEF \<or>
     0x3001 \<le> c \<and> c \<le> 0xD7FF \<or> 0xF900 \<le> c \<and> c \<le> 0xFDCF \<or> 0xFDF0 \<le> c \<and> c \<le> 0xFFFD \<or>
     0x10000 \<le> c \<and> c \<le> 0xEFFFF"

definition unicode_id_continue :: "nat \<Rightarrow> bool" where
  "unicode_id_continue c \<longleftrightarrow> unicode_id_start c \<or>
     0x30 \<le> c \<and> c \<le> 0x39 \<or> 0x300 \<le> c \<and> c \<le> 0x36F \<or> 0x1DC0 \<le> c \<and> c \<le> 0x1DFF \<or>
     0x20D0 \<le> c \<and> c \<le> 0x20FF \<or> 0xFE20 \<le> c \<and> c \<le> 0xFE2F"

definition is_id_start :: "nat \<Rightarrow> bool" where
  "is_id_start c \<longleftrightarrow> c = 0x24 \<or> c = 0x5F \<or> unicode_id_start c"

definition is_id_continue :: "nat \<Rightarrow> bool" where
  "is_id_continue c \<longleftrightarrow> c = 0x24 \<or> c = 0x5F \<or> c = 0x200C \<or> c = 0x200D \<or> unicode_id_continue c"

text \<open>\<open>decode_unit\<close> reads one scalar value at the head of the remaining units; the arguments of
  \<open>char::from_u32\<close> are in range in every branch that reaches it.\<close>

fun decode_unit :: "utf16 \<Rightarrow> nat option \<times> nat" where
  "decode_unit [] = (None, 1)"
| "decode_unit (u # rest) =
     (if 0xD800 \<le> u \<and> u < 0xDC00 then
        (case rest of
           lo # _ \<Rightarrow>
             if 0xDC00 \<le> lo \<and> lo < 0xE000
             then (Some (0x10000 + unat (u - 0xD800) * 2 ^ 10 + unat (lo - 0xDC00)), 2)
             else (None, 1)
         | [] \<Rightarrow> (None, 1))
      else if 0xDC00 \<le> u \<and> u < 0xE000 then (None, 1)
      else (Some (unat u), 1))"

lemma decode_unit_consumed: "0 < snd (decode_unit units)"
  by (cases units) (auto split: list.splits)

function identifier_loop :: "utf16 \<Rightarrow> bool \<Rightarrow> key_path_error + unit" where
  "identifier_loop units first =
     (if units = [] then Inr ()
      else case decode_unit units of
        (None, consumed) \<Rightarrow> Inl KpInvalidSyntax
      | (Some c, consumed) \<Rightarrow>
          if \<not> (if first then is_id_start c else is_id_continue c) then Inl KpInvalidSyntax
          else identifier_loop (drop consumed units) False)"
  by pat_completeness auto
termination
  by (relation "measure (\<lambda>(units, first). length units)")
     (auto, metis decode_unit_consumed diff_less length_greater_0_conv snd_conv)

declare identifier_loop.simps [simp del]

definition validate_identifier_name :: "utf16 \<Rightarrow> key_path_error + unit" where
  "validate_identifier_name units =
     (if units = [] then Inl KpInvalidSyntax else identifier_loop units True)"

fun validate_parts :: "utf16 list \<Rightarrow> key_path_error + unit" where
  "validate_parts [] = Inr ()"
| "validate_parts (part # parts) =
     (if part = [] then Inl KpInvalidSyntax
      else rbind (validate_identifier_name part) (\<lambda>_. validate_parts parts))"

definition validate_key_path_units :: "utf16 \<Rightarrow> key_path_error + unit" where
  "validate_key_path_units units = validate_parts (split_path_units units)"

definition validate_key_path_str :: "utf16 \<Rightarrow> key_path_error + unit" where
  "validate_key_path_str s = (if s = [] then Inr () else validate_key_path_units s)"

definition parse_single :: "utf16 \<Rightarrow> key_path_error + key_path" where
  "parse_single s =
     (if s = [] then Inr PathEmpty
      else rbind (validate_key_path_str s) (\<lambda>_. Inr (PathSingle s)))"

definition parse_key_path :: "utf16 \<Rightarrow> key_path_error + key_path" where
  "parse_key_path s = parse_single s"

fun parse_array_loop :: "utf16 list \<Rightarrow> utf16 list \<Rightarrow> key_path_error + key_path" where
  "parse_array_loop [] result = Inr (PathArray result)"
| "parse_array_loop (p # ps) result =
     rbind (validate_key_path_str p) (\<lambda>_. parse_array_loop ps (result @ [p]))"

definition parse_array :: "utf16 list \<Rightarrow> key_path_error + key_path" where
  "parse_array paths = (if paths = [] then Inl KpEmptyArray else parse_array_loop paths [])"

section \<open>What a valid key path is\<close>

text \<open>The specification: identifier names are sequences of characters, encoded in UTF-16 and
  joined by dots.\<close>

definition encode_char :: "nat \<Rightarrow> utf16" where
  "encode_char c =
     (if c < 0x10000 then [of_nat c]
      else [of_nat (0xD800 + (c - 0x10000) div 2 ^ 10), of_nat (0xDC00 + (c - 0x10000) mod 2 ^ 10)])"

definition encode_utf16 :: "nat list \<Rightarrow> utf16" where
  "encode_utf16 cs = concat (map encode_char cs)"

definition identifier_name :: "nat list \<Rightarrow> bool" where
  "identifier_name cs \<longleftrightarrow> (\<exists>c ds. cs = c # ds \<and> is_id_start c \<and> list_all is_id_continue ds)"

definition scalar_value :: "nat \<Rightarrow> bool" where
  "scalar_value c \<longleftrightarrow> c < 0xD800 \<or> 0xE000 \<le> c \<and> c < 0x110000"

lemma id_char_scalar: "is_id_continue c \<Longrightarrow> scalar_value c" "is_id_start c \<Longrightarrow> scalar_value c"
  by (auto simp: is_id_continue_def is_id_start_def unicode_id_continue_def unicode_id_start_def
      scalar_value_def)

lemma id_start_continue: "is_id_start c \<Longrightarrow> is_id_continue c"
  by (auto simp: is_id_continue_def is_id_start_def unicode_id_continue_def)

lemma id_char_no_dot: "is_id_continue c \<Longrightarrow> c \<noteq> 0x2E"
  by (auto simp: is_id_continue_def unicode_id_continue_def unicode_id_start_def)

lemma u16_le_iff: "(x::u16) \<le> y \<longleftrightarrow> unat x \<le> unat y" "x < y \<longleftrightarrow> unat x < unat y"
  by (simp_all add: word_le_nat_alt word_less_nat_alt)

lemma unat_u16_of_nat: "n < 2 ^ 16 \<Longrightarrow> unat (of_nat n :: u16) = n"
  by (simp add: unsigned_of_nat take_bit_nat_eq_self)

lemma unat_u16_diff: "(y::u16) \<le> x \<Longrightarrow> unat (x - y) = unat x - unat y"
  by (simp add: unat_sub_if_size word_le_nat_alt)

lemma decode_encode_char:
  assumes "scalar_value c"
  shows "decode_unit (encode_char c @ rest) = (Some c, length (encode_char c))"
proof (cases "c < 0x10000")
  case True
  then show ?thesis
    using assms by (auto simp: encode_char_def u16_le_iff unat_u16_of_nat scalar_value_def)
next
  case False
  let ?h = "(c - 0x10000) div 2 ^ 10" and ?l = "(c - 0x10000) mod 2 ^ 10"
  have h: "?h < 0x400" using assms False by (simp add: scalar_value_def div_less_iff_less_mult)
  have l: "?l < 0x400" by simp
  have "unat (of_nat (0xD800 + ?h) :: u16) = 0xD800 + ?h" using h by (intro unat_u16_of_nat) simp
  moreover have "unat (of_nat (0xDC00 + ?l) :: u16) = 0xDC00 + ?l" using l by (intro unat_u16_of_nat) simp
  moreover have "0x10000 + ?h * 2 ^ 10 + ?l = c"
    using False div_mult_mod_eq [of "c - 0x10000" "2 ^ 10"] by linarith
  ultimately show ?thesis
    using False h l
    by (simp add: encode_char_def u16_le_iff unat_u16_diff del: of_nat_add of_nat_numeral)
qed

lemma decode_unit_Some:
  assumes "decode_unit units = (Some c, n)"
  shows "units = encode_char c @ drop n units \<and> scalar_value c"
proof -
  obtain u rest where u: "units = u # rest" using assms by (cases units) auto
  show ?thesis
  proof (cases "0xD800 \<le> u \<and> u < 0xDC00")
    case True
    then obtain lo rest' where lo: "rest = lo # rest'" "0xDC00 \<le> lo" "lo < 0xE000"
      and c: "c = 0x10000 + unat (u - 0xD800) * 2 ^ 10 + unat (lo - 0xDC00)" "n = 2"
      using assms u by (auto split: list.splits if_splits)
    define h l where "h = unat (u - 0xD800)" and "l = unat (lo - 0xDC00)"
    have hl: "unat u = 0xD800 + h" "unat lo = 0xDC00 + l" "h < 0x400" "l < 0x400"
      using True lo by (auto simp: h_def l_def u16_le_iff unat_u16_diff)
    have "(c - 0x10000) div 2 ^ 10 = h" "(c - 0x10000) mod 2 ^ 10 = l" "\<not> c < 0x10000"
      using hl by (simp_all add: c flip: h_def l_def)
    moreover have "u = of_nat (0xD800 + h)" "lo = of_nat (0xDC00 + l)"
      using arg_cong [OF hl(1), of "of_nat :: nat \<Rightarrow> u16"] arg_cong [OF hl(2), of "of_nat :: nat \<Rightarrow> u16"]
      by simp_all
    moreover have "scalar_value c" using hl by (simp add: c scalar_value_def flip: h_def l_def)
    ultimately show ?thesis using u lo c(2) by (simp add: encode_char_def del: of_nat_add of_nat_numeral)
  next
    case False
    then have c: "c = unat u" "n = 1" "\<not> (0xDC00 \<le> u \<and> u < 0xE000)"
      using assms u by (auto split: if_splits)
    have "unat u < 0x10000" by simp
    moreover have "scalar_value c"
      using False c(3) calculation unfolding c(1) u16_le_iff scalar_value_def by (simp, linarith)
    ultimately show ?thesis using u c by (simp add: encode_char_def)
  qed
qed

lemma encode_utf16_simps [simp]:
  "encode_utf16 [] = []" "encode_utf16 (c # cs) = encode_char c @ encode_utf16 cs"
  by (simp_all add: encode_utf16_def)

lemma encode_char_not_Nil [simp]: "encode_char c \<noteq> []"
  by (simp add: encode_char_def)

lemma identifier_loop_encode:
  "list_all is_id_continue cs \<Longrightarrow> identifier_loop (encode_utf16 cs) False = Inr ()"
proof (induction cs)
  case (Cons c cs)
  then show ?case
    using id_char_scalar(1) [of c]
    by (subst identifier_loop.simps) (simp add: decode_encode_char)
qed (simp add: identifier_loop.simps)

lemma identifier_loop_sound:
  "identifier_loop units first = Inr () \<Longrightarrow> units \<noteq> [] \<Longrightarrow>
     \<exists>c cs. units = encode_utf16 (c # cs) \<and> (if first then is_id_start c else is_id_continue c) \<and>
       list_all is_id_continue cs"
proof (induction units first rule: identifier_loop.induct)
  case (1 units first)
  obtain c n where d: "decode_unit units = (Some c, n)"
    and ok: "if first then is_id_start c else is_id_continue c"
    and rest: "identifier_loop (drop n units) False = Inr ()"
    using "1.prems" by (subst (asm) identifier_loop.simps) (auto split: prod.splits option.splits if_splits)
  have units: "units = encode_char c @ drop n units" using decode_unit_Some [OF d] by simp
  show ?case
  proof (cases "drop n units = []")
    case True
    then show ?thesis using units ok by (intro exI [of _ c] exI [of _ "[]"]) simp
  next
    case False
    obtain d ds where "drop n units = encode_utf16 (d # ds)" "is_id_continue d" "list_all is_id_continue ds"
      using "1.IH" [OF "1.prems"(2) d [symmetric] refl _ rest False] ok by auto
    then show ?thesis using units ok by (intro exI [of _ c] exI [of _ "d # ds"]) simp
  qed
qed

lemma validate_identifier_iff:
  "validate_identifier_name units = Inr () \<longleftrightarrow> (\<exists>cs. identifier_name cs \<and> units = encode_utf16 cs)"
proof
  assume "validate_identifier_name units = Inr ()"
  then obtain c cs where "units = encode_utf16 (c # cs)" "is_id_start c" "list_all is_id_continue cs"
    using identifier_loop_sound [of units True] by (auto simp: validate_identifier_name_def split: if_splits)
  then show "\<exists>cs. identifier_name cs \<and> units = encode_utf16 cs"
    unfolding identifier_name_def by blast
next
  assume "\<exists>cs. identifier_name cs \<and> units = encode_utf16 cs"
  then obtain c cs where "units = encode_char c @ encode_utf16 cs" "is_id_start c" "list_all is_id_continue cs"
    by (auto simp: identifier_name_def)
  then show "validate_identifier_name units = Inr ()"
    using id_char_scalar(2) [of c] identifier_loop_encode [of cs]
    by (simp add: validate_identifier_name_def, subst identifier_loop.simps, simp add: decode_encode_char)
qed

lemma encode_identifier_no_dot: "list_all is_id_continue cs \<Longrightarrow> 0x2E \<notin> set (encode_utf16 cs)"
proof (induction cs)
  case (Cons c cs)
  then have c: "scalar_value c" "c \<noteq> 0x2E" by (simp_all add: id_char_scalar id_char_no_dot)
  have "(0x2E :: u16) \<notin> set (encode_char c)"
  proof
    assume mem: "(0x2E :: u16) \<in> set (encode_char c)"
    have neq: "of_nat n \<noteq> (0x2E :: u16)" if "n < 2 ^ 16" "n \<noteq> 0x2E" for n
    proof
      assume "of_nat n = (0x2E :: u16)"
      then have "unat (of_nat n :: u16) = 0x2E" by simp
      then show False using that by (simp add: unat_u16_of_nat)
    qed
    have "(c - 0x10000) div 2 ^ 10 < 0x400"
      using c(1) by (auto simp: scalar_value_def div_less_iff_less_mult)
    moreover have "(c - 0x10000) mod 2 ^ 10 < 0x400" by simp
    ultimately show False
      using mem c(2) by (auto simp: encode_char_def neq simp del: of_nat_add of_nat_numeral split: if_splits)
  qed
  then show ?case using Cons by simp
qed simp

lemma split_append_no_dot:
  "0x2E \<notin> set s \<Longrightarrow> split_path_units (s @ units) =
     (case split_path_units units of [] \<Rightarrow> [s] | t # ts \<Rightarrow> (s @ t) # ts)"
  by (induction s) (auto split: list.splits)

lemma split_join: "list_all (\<lambda>s. 0x2E \<notin> set s) ss \<Longrightarrow> ss \<noteq> [] \<Longrightarrow> split_path_units (join_steps ss) = ss"
proof (induction ss rule: join_steps.induct)
  case (2 s)
  then show ?case using split_append_no_dot [of s "[]"] by simp
next
  case (3 s t ss)
  then show ?case using split_append_no_dot [of s "0x2E # join_steps (t # ss)"] by simp
qed simp

lemma validate_parts_iff:
  "validate_parts parts = Inr () \<longleftrightarrow> (\<forall>p \<in> set parts. \<exists>cs. identifier_name cs \<and> p = encode_utf16 cs)"
proof (induction parts)
  case (Cons p parts)
  have "\<not> (\<exists>cs. identifier_name cs \<and> [] = encode_utf16 cs)" by (auto simp: identifier_name_def)
  then show ?case using Cons.IH by (auto simp: validate_identifier_iff)
qed simp

lemma validate_path_iff:
  "validate_key_path_units units = Inr () \<longleftrightarrow>
     (\<exists>names. names \<noteq> [] \<and> list_all identifier_name names \<and> units = join_steps (map encode_utf16 names))"
proof
  assume "validate_key_path_units units = Inr ()"
  then have "\<forall>p \<in> set (split_path_units units). \<exists>cs. identifier_name cs \<and> p = encode_utf16 cs"
    by (simp add: validate_key_path_units_def validate_parts_iff)
  then obtain f where f: "\<forall>p \<in> set (split_path_units units). identifier_name (f p) \<and> p = encode_utf16 (f p)"
    by metis
  let ?names = "map f (split_path_units units)"
  have "map encode_utf16 ?names = split_path_units units" using f by (simp add: map_idI)
  then have "units = join_steps (map encode_utf16 ?names)" using join_split [of units] by (simp only:)
  then show "\<exists>names. names \<noteq> [] \<and> list_all identifier_name names \<and> units = join_steps (map encode_utf16 names)"
    using f by (intro exI [of _ ?names]) (simp add: list_all_iff)
next
  assume "\<exists>names. names \<noteq> [] \<and> list_all identifier_name names \<and> units = join_steps (map encode_utf16 names)"
  then obtain names where n: "names \<noteq> []" "list_all identifier_name names"
    "units = join_steps (map encode_utf16 names)" by blast
  have "0x2E \<notin> set (encode_utf16 cs)" if "identifier_name cs" for cs
    using that by (intro encode_identifier_no_dot) (auto simp: identifier_name_def id_start_continue)
  then have "split_path_units units = map encode_utf16 names"
    unfolding n(3) using n(1,2) by (intro split_join) (auto simp: list_all_iff)
  then show "validate_key_path_units units = Inr ()"
    using n(2) by (auto simp: validate_key_path_units_def validate_parts_iff list_all_iff)
qed

section \<open>Extraction\<close>

definition length_step :: utf16 where
  "length_step = [0x006C, 0x0065, 0x006E, 0x0067, 0x0074, 0x0068]"

definition is_length_step :: "utf16 \<Rightarrow> bool" where
  "is_length_step step \<longleftrightarrow> step = length_step"

fun extract_steps :: "utf16 list \<Rightarrow> 'b scvalue \<Rightarrow> key_error + key option" where
  "extract_steps [] cur = to_key cur"
| "extract_steps (step # steps) cur =
     (case cur of
        ScObject m \<Rightarrow>
          (case im_get m step of
             Some v \<Rightarrow> extract_steps steps v
           | None \<Rightarrow> Inr None)
      | ScArray elements extra \<Rightarrow>
          if is_length_step step then
            (if steps \<noteq> [] then Inr None
             else Inr (Some (KNumber (f64_of_int (int (length elements))))))
          else Inr None
      | ScString s \<Rightarrow>
          if is_length_step step then
            (if steps \<noteq> [] then Inr None
             else Inr (Some (KNumber (f64_of_int (int (length s))))))
          else Inr None
      | _ \<Rightarrow> Inr None)"

definition extract_single_path :: "utf16 \<Rightarrow> 'b scvalue \<Rightarrow> key_error + key option" where
  "extract_single_path path v =
     (if path = [] then to_key v else extract_steps (split_path_units path) v)"

fun extract_array_loop :: "utf16 list \<Rightarrow> 'b scvalue \<Rightarrow> key list \<Rightarrow> key_error + key option" where
  "extract_array_loop [] v result = Inr (Some (KArray result))"
| "extract_array_loop (p # ps) v result =
     rbind (extract_single_path p v) (\<lambda>r. case r of
       Some k \<Rightarrow> extract_array_loop ps v (result @ [k])
     | None \<Rightarrow> Inr None)"

fun kp_extract :: "key_path \<Rightarrow> 'b scvalue \<Rightarrow> key_error + key option" where
  "kp_extract PathEmpty v = to_key v"
| "kp_extract (PathSingle path) v = extract_single_path path v"
| "kp_extract (PathArray paths) v = extract_array_loop paths v []"

fun resolve_steps :: "utf16 list \<Rightarrow> 'b scvalue \<Rightarrow> 'b scvalue option" where
  "resolve_steps [] cur = Some cur"
| "resolve_steps (step # steps) cur =
     (case cur of
        ScObject m \<Rightarrow>
          (case im_get m step of
             Some v \<Rightarrow> resolve_steps steps v
           | None \<Rightarrow> None)
      | _ \<Rightarrow> None)"

definition resolve_single_path :: "utf16 \<Rightarrow> 'b scvalue \<Rightarrow> 'b scvalue option" where
  "resolve_single_path path v =
     (if path = [] then Some v else resolve_steps (split_path_units path) v)"

text \<open>The \<open>filter_map\<close> over the elements: holes, errors and \<open>None\<close> are skipped.\<close>

definition element_key :: "'b scvalue option \<Rightarrow> key option" where
  "element_key e =
     (case e of
        None \<Rightarrow> None
      | Some v \<Rightarrow> (case to_key v of Inl _ \<Rightarrow> None | Inr r \<Rightarrow> r))"

definition extract_multi_entry :: "key_path \<Rightarrow> 'b scvalue \<Rightarrow> key_error + key list" where
  "extract_multi_entry kp v =
     (let raw = (case kp of
                   PathEmpty \<Rightarrow> Some v
                 | PathSingle path \<Rightarrow> resolve_single_path path v
                 | PathArray _ \<Rightarrow> None)
      in case raw of
           None \<Rightarrow> Inr []
         | Some (ScArray elements extra) \<Rightarrow> Inr (List.map_filter element_key elements)
         | Some r \<Rightarrow> rbind (to_key r) (\<lambda>k. Inr (case k of None \<Rightarrow> [] | Some k \<Rightarrow> [k])))"

section \<open>Injection\<close>

text \<open>The walk over all steps but the last, and the check of the final node.\<close>

fun can_inject_steps :: "utf16 list \<Rightarrow> 'b scvalue \<Rightarrow> bool" where
  "can_inject_steps (step # next_step # steps) cur =
     (case cur of
        ScObject m \<Rightarrow>
          (case im_get m step of
             Some v \<Rightarrow> can_inject_steps (next_step # steps) v
           | None \<Rightarrow> True)
      | _ \<Rightarrow> False)"
| "can_inject_steps _ cur = (case cur of ScObject m \<Rightarrow> True | _ \<Rightarrow> False)"

definition can_inject_single :: "utf16 \<Rightarrow> 'b scvalue \<Rightarrow> bool" where
  "can_inject_single path target =
     (let steps = split_path_units path in
      if steps = [] then True else can_inject_steps steps target)"

fun can_inject :: "key_path \<Rightarrow> 'b scvalue \<Rightarrow> bool" where
  "can_inject PathEmpty target = True"
| "can_inject (PathSingle path) target = can_inject_single path target"
| "can_inject (PathArray paths) target = False"

fun inject_steps :: "utf16 list \<Rightarrow> 'b scvalue \<Rightarrow> key \<Rightarrow> (key_path_error + unit) \<times> 'b scvalue" where
  "inject_steps (step # next_step # steps) cur key =
     (case cur of
        ScObject m \<Rightarrow>
          let m = (if im_get m step = None then im_insert step (ScObject []) m else m) in
          (case im_get m step of
             Some v \<Rightarrow>
               let (r, v') = inject_steps (next_step # steps) v key
               in (r, ScObject (im_insert step v' m))
           | None \<Rightarrow> (Inl KpInvalidSyntax, ScObject m))
      | _ \<Rightarrow> (Inl KpCannotInjectIntoPrimitive, cur))"
| "inject_steps steps cur key =
     (let last_step = (case steps of [] \<Rightarrow> [] | s # _ \<Rightarrow> s) in
      case cur of
        ScObject m \<Rightarrow> (Inr (), ScObject (im_insert last_step (from_key key) m))
      | _ \<Rightarrow> (Inl KpCannotInjectIntoPrimitive, cur))"

definition inject_single_path :: "utf16 \<Rightarrow> 'b scvalue \<Rightarrow> key \<Rightarrow> (key_path_error + unit) \<times> 'b scvalue" where
  "inject_single_path path target key =
     (let steps = split_path_units path in
      if steps = [] then (Inr (), target) else inject_steps steps target key)"

fun inject :: "key_path \<Rightarrow> 'b scvalue \<Rightarrow> key \<Rightarrow> (key_path_error + unit) \<times> 'b scvalue" where
  "inject PathEmpty target key = (Inr (), from_key key)"
| "inject (PathSingle path) target key = inject_single_path path target key"
| "inject (PathArray paths) target key = (Inl KpInvalidSyntax, target)"

lemma can_inject_steps_iff:
  "steps \<noteq> [] \<Longrightarrow> can_inject_steps steps cur \<longleftrightarrow> fst (inject_steps steps cur key) = Inr ()"
proof (induction steps cur key rule: inject_steps.induct)
  case (1 step next_step steps cur key)
  show ?case
  proof (cases cur)
    case (ScObject m)
    have new: "can_inject_steps (next_step # steps) (ScObject [])"
      by (cases steps) simp_all
    show ?thesis
      using "1.IH" [OF ScObject refl] new ScObject
      by (cases "im_get m step") (auto simp: case_prod_beta Let_def)
  qed simp_all
qed (auto simp: Let_def split: scvalue.splits)

lemma im_insert_same: "im_get m k = Some v \<Longrightarrow> im_insert k v m = m"
  by (induction k v m rule: im_insert.induct) (auto simp: im_get_def split: if_splits)

text \<open>A failed injection leaves the target as it was, and after a successful one the path leads to
  the key.\<close>

lemma inject_steps_error:
  "fst (inject_steps steps cur key) \<noteq> Inr () \<Longrightarrow> snd (inject_steps steps cur key) = cur"
proof (induction steps cur key rule: inject_steps.induct)
  case (1 step next_step steps cur key)
  show ?case
  proof (cases cur)
    case (ScObject m)
    have new: "fst (inject_steps (next_step # steps) (ScObject []) key) = Inr ()"
      using can_inject_steps_iff [of "next_step # steps" "ScObject []" key] by (cases steps) simp_all
    show ?thesis
      using "1.IH" [OF ScObject refl] "1.prems" new ScObject
      by (cases "im_get m step") (auto simp: case_prod_beta Let_def im_insert_same)
  qed (use "1.prems" in simp_all)
qed (auto simp: Let_def split: scvalue.splits)

lemma extract_after_inject:
  "fst (inject_steps steps cur key) = Inr () \<Longrightarrow> steps \<noteq> [] \<Longrightarrow>
     extract_steps steps (snd (inject_steps steps cur key)) = to_key (from_key key :: 'b scvalue)"
  for cur :: "'b scvalue"
proof (induction steps cur key rule: inject_steps.induct)
  case (1 step next_step steps cur key)
  show ?case
  proof (cases cur)
    case (ScObject m)
    then show ?thesis
      using "1.IH" [OF ScObject refl] "1.prems"
      by (cases "im_get m step") (auto simp: case_prod_beta Let_def)
  qed (use "1.prems" in simp_all)
qed (auto simp: Let_def split: scvalue.splits)

section \<open>Properties\<close>

text \<open>C35. Parsing accepts exactly the empty path and the identifier names of ECMAScript (over the
  ranges the source lists), encoded in UTF-16 and joined by dots; everything else, lone surrogates
  and empty steps included, is refused.\<close>

theorem parse_single_iff:
  "parse_single s = Inr kp \<longleftrightarrow>
     s = [] \<and> kp = PathEmpty \<or>
     kp = PathSingle s \<and>
       (\<exists>names. names \<noteq> [] \<and> list_all identifier_name names \<and> s = join_steps (map encode_utf16 names))"
proof -
  have "join_steps (map encode_utf16 names) \<noteq> []"
    if ne: "names \<noteq> []" and all: "list_all identifier_name names" for names
  proof -
    obtain n ns where "names = n # ns" "identifier_name n" using ne all by (cases names) auto
    then show ?thesis by (cases ns) (auto simp: identifier_name_def)
  qed
  then have empty: "validate_key_path_units [] \<noteq> Inr ()"
    using validate_path_iff [of "[]"] by metis
  show ?thesis
    using empty by (auto simp: parse_single_def validate_key_path_str_def simp flip: validate_path_iff)
qed

text \<open>C36. Injection of a key at a key path: the side-effect free check predicts exactly whether
  it succeeds and a failure leaves the value unchanged; after the injection of a key that holds no
  binary key and no NaN the same key path extracts that key from the value. The path with no step,
  at which the value itself is the key, is left out.\<close>

theorem inject_extract:
  assumes "kp \<noteq> PathSingle []"
  shows "(can_inject kp v \<longleftrightarrow> fst (inject kp v key) = Inr ()) \<and>
    (fst (inject kp v key) \<noteq> Inr () \<longrightarrow> snd (inject kp v key) = v) \<and>
    (fst (inject kp v key) = Inr () \<and> key_invertible key \<longrightarrow>
       kp_extract kp (snd (inject kp v key)) = Inr (Some key))"
proof (cases kp)
  case (PathSingle path)
  then show ?thesis
    using assms can_inject_steps_iff [of "split_path_units path" v key]
      inject_steps_error [of "split_path_units path" v key]
      extract_after_inject [of "split_path_units path" v key]
    by (simp add: can_inject_single_def inject_single_path_def extract_single_path_def to_key_from_key Let_def)
qed (simp_all add: to_key_from_key)

theorem inject_extract_witness:
  "kp_extract (PathSingle [97, 0x2E, 98]) (snd (inject (PathSingle [97, 0x2E, 98])
     (ScObject [] :: unit scvalue) (KString [99]))) = Inr (Some (KString [99]))"
  using inject_extract [of "PathSingle [97, 0x2E, 98]" "ScObject [] :: unit scvalue" "KString [99]"]
  by (simp add: inject_single_path_def can_inject_single_def Let_def)

text \<open>A multiEntry index does not see the \<open>length\<close> pseudo-property that a plain index sees.\<close>

theorem multi_entry_ignores_length:
  "kp_extract (PathSingle length_step) (ScString s :: 'b scvalue) =
     Inr (Some (KNumber (f64_of_int (int (length s))))) \<and>
   extract_multi_entry (PathSingle length_step) (ScString s :: 'b scvalue) = Inr []"
  by (simp add: extract_single_path_def extract_multi_entry_def resolve_single_path_def
      is_length_step_def length_step_def)

end
