(* ===== verification/Backend.thy ===== *)
theory Backend
  imports Proto Key_Path
begin

text \<open>
  The metadata types that the engine and the storage backends share, \<open>backend/types.rs\<close>, the
  registry of databases, \<open>engine/registry.rs\<close>, and the request, connection and transaction
  states of the engine.
\<close>

record store_spec =
  ssp_name :: utf16
  ssp_key_path :: key_path
  ssp_auto_increment :: bool

record index_spec =
  isp_name :: utf16
  isp_key_path :: key_path
  isp_unique :: bool
  isp_multi_entry :: bool

record index_meta =
  ix_id :: index_id
  ix_store_id :: store_id
  ix_name :: utf16
  ix_key_path :: key_path
  ix_unique :: bool
  ix_multi_entry :: bool
  ix_deleted :: bool

record store_meta =
  st_id :: store_id
  st_name :: utf16
  st_key_path :: key_path
  st_auto_increment :: bool
  st_key_gen :: f64
  st_indexes :: "index_meta list"
  st_deleted :: bool

record database_meta =
  db_name :: utf16
  db_version :: u64
  db_stores :: "store_meta list"
  db_next_store_id :: store_id
  db_next_index_id :: index_id

datatype cursor_seek =
  SeekFirst
| SeekKey bytes
| SeekKeyAndPrimaryKey bytes bytes

text \<open>\<open>iter_mut().find(p)\<close> followed by an update of what was found: the first element that
  satisfies \<open>p\<close>.\<close>

fun update_first :: "('a \<Rightarrow> bool) \<Rightarrow> ('a \<Rightarrow> 'a) \<Rightarrow> 'a list \<Rightarrow> 'a list" where
  "update_first p f [] = []"
| "update_first p f (x # xs) = (if p x then f x # xs else x # update_first p f xs)"

lemma length_update_first [simp]: "length (update_first p f xs) = length xs"
  by (induction xs) auto

lemma map_update_first: "(\<And>x. g (f x) = g x) \<Longrightarrow> map g (update_first p f xs) = map g xs"
  by (induction xs) auto

lemma find_update_first:
  "(\<And>x. p x \<Longrightarrow> p (f x)) \<Longrightarrow> find p (update_first p f xs) = map_option f (find p xs)"
  by (induction xs) auto

text \<open>Of a set of index entries: no two records share a key of the index.\<close>

definition unique_index :: "(index_id \<times> bytes \<times> bytes) set \<Rightarrow> index_id \<Rightarrow> bool" where
  "unique_index V i \<longleftrightarrow> (\<forall>ik p q. (i, ik, p) \<in> V \<and> (i, ik, q) \<in> V \<longrightarrow> p = q)"

section \<open>Transactions and connections\<close>

datatype txn_state = TsActive | TsCommitting | TsCommitted | TsAborting | TsAborted | TsInactive

record transaction =
  tx_id :: txn_id
  tx_mode :: txn_mode
  tx_scope :: "store_id list"
  tx_durability :: durability
  tx_state :: txn_state

definition tx_new :: "txn_id \<Rightarrow> txn_mode \<Rightarrow> store_id list \<Rightarrow> durability \<Rightarrow> transaction" where
  "tx_new i mode scope durability =
     \<lparr>tx_id = i, tx_mode = mode, tx_scope = scope, tx_durability = durability, tx_state = TsActive\<rparr>"

definition is_active :: "transaction \<Rightarrow> bool" where
  "is_active t \<longleftrightarrow> tx_state t = TsActive"

definition is_finished :: "transaction \<Rightarrow> bool" where
  "is_finished t \<longleftrightarrow> tx_state t = TsCommitted \<or> tx_state t = TsAborted"

definition start_commit :: "transaction \<Rightarrow> bool \<times> transaction" where
  "start_commit t = (if tx_state t = TsActive then (True, t\<lparr>tx_state := TsCommitting\<rparr>) else (False, t))"

definition finish_commit :: "transaction \<Rightarrow> transaction" where
  "finish_commit t = t\<lparr>tx_state := TsCommitted\<rparr>"

definition start_abort :: "transaction \<Rightarrow> bool \<times> transaction" where
  "start_abort t =
     (if tx_state t \<noteq> TsCommitted \<and> tx_state t \<noteq> TsAborted
      then (True, t\<lparr>tx_state := TsAborting\<rparr>) else (False, t))"

definition finish_abort :: "transaction \<Rightarrow> transaction" where
  "finish_abort t = t\<lparr>tx_state := TsAborted\<rparr>"

definition includes_store :: "transaction \<Rightarrow> store_id \<Rightarrow> bool" where
  "includes_store t store \<longleftrightarrow> store \<in> set (tx_scope t)"

datatype connection_state = CnOpening | CnOpen | CnClosing | CnClosed

record connection =
  cn_id :: connection_id
  cn_database_name :: string
  cn_state :: connection_state

definition cn_new :: "connection_id \<Rightarrow> string \<Rightarrow> connection" where
  "cn_new i name = \<lparr>cn_id = i, cn_database_name = name, cn_state = CnOpening\<rparr>"

definition set_open :: "connection \<Rightarrow> connection" where
  "set_open c = c\<lparr>cn_state := CnOpen\<rparr>"

definition start_close :: "connection \<Rightarrow> connection" where
  "start_close c = c\<lparr>cn_state := CnClosing\<rparr>"

definition finish_close :: "connection \<Rightarrow> connection" where
  "finish_close c = c\<lparr>cn_state := CnClosed\<rparr>"

definition is_open :: "connection \<Rightarrow> bool" where
  "is_open c \<longleftrightarrow> cn_state c = CnOpen"

definition is_closed :: "connection \<Rightarrow> bool" where
  "is_closed c \<longleftrightarrow> cn_state c = CnClosing \<or> cn_state c = CnClosed"

section \<open>The registry\<close>

text \<open>The registry is keyed by the database name; the connection count is a \<open>u32\<close> whose increment
  panics on overflow in a debug build and wraps in a release build, so the model keeps the word
  (\<open>add_connection\<close> wraps) and its laws carry the bound.\<close>

record database_entry =
  de_meta :: database_meta
  de_connection_count :: u32

type_synonym registry = "utf16 \<rightharpoonup> database_entry"

definition registry_new :: registry where
  "registry_new = Map.empty"

definition reg_register :: "registry \<Rightarrow> database_meta \<Rightarrow> registry" where
  "reg_register r meta = r(db_name meta \<mapsto> \<lparr>de_meta = meta, de_connection_count = 0\<rparr>)"

definition reg_get :: "registry \<Rightarrow> utf16 \<Rightarrow> database_meta option" where
  "reg_get r name = map_option de_meta (r name)"

definition reg_add_connection :: "registry \<Rightarrow> utf16 \<Rightarrow> registry" where
  "reg_add_connection r name =
     (case r name of
        None \<Rightarrow> r
      | Some e \<Rightarrow> r(name \<mapsto> e\<lparr>de_connection_count := de_connection_count e + 1\<rparr>))"

definition reg_remove_connection :: "registry \<Rightarrow> utf16 \<Rightarrow> registry" where
  "reg_remove_connection r name =
     (case r name of
        None \<Rightarrow> r
      | Some e \<Rightarrow>
          r(name \<mapsto> e\<lparr>de_connection_count :=
                (if de_connection_count e = 0 then 0 else de_connection_count e - 1)\<rparr>))"

definition reg_connection_count :: "registry \<Rightarrow> utf16 \<Rightarrow> u32" where
  "reg_connection_count r name = (case r name of None \<Rightarrow> 0 | Some e \<Rightarrow> de_connection_count e)"

definition reg_unregister :: "registry \<Rightarrow> utf16 \<Rightarrow> database_entry option \<times> registry" where
  "reg_unregister r name = (r name, r(name := None))"

end
