(* ===== verification/Backend_Trait.thy ===== *)
theory Backend_Trait
  imports Backend Scf_Decode
begin

text \<open>
  The interface between the engine and a storage backend, the traits \<open>BackendTxn\<close> and
  \<open>BackendCursor\<close> of \<open>backend/traits.rs\<close>, as a record of operations on a transaction of any type
  \<open>'t\<close> with cursors of any type \<open>'c\<close>. A cursor borrows its transaction: it is moved against a
  transaction that does not change while the cursor lives. Reads leave the transaction alone, as
  they do in every backend here.
\<close>

record ('t, 'c) backend_txn =
  bk_begin_request :: "'t \<Rightarrow> (backend_error + unit) \<times> 't"
  bk_commit_request :: "'t \<Rightarrow> (backend_error + unit) \<times> 't"
  bk_rollback_request :: "'t \<Rightarrow> (backend_error + unit) \<times> 't"
  bk_set_version :: "'t \<Rightarrow> u64 \<Rightarrow> (backend_error + unit) \<times> 't"
  bk_create_store :: "'t \<Rightarrow> store_spec \<Rightarrow> (backend_error + store_id) \<times> 't"
  bk_delete_store :: "'t \<Rightarrow> store_id \<Rightarrow> (backend_error + unit) \<times> 't"
  bk_rename_store :: "'t \<Rightarrow> store_id \<Rightarrow> utf16 \<Rightarrow> (backend_error + unit) \<times> 't"
  bk_create_index :: "'t \<Rightarrow> store_id \<Rightarrow> index_spec \<Rightarrow> (backend_error + index_id) \<times> 't"
  bk_delete_index :: "'t \<Rightarrow> store_id \<Rightarrow> index_id \<Rightarrow> (backend_error + unit) \<times> 't"
  bk_rename_index :: "'t \<Rightarrow> store_id \<Rightarrow> index_id \<Rightarrow> utf16 \<Rightarrow> (backend_error + unit) \<times> 't"
  bk_put :: "'t \<Rightarrow> store_id \<Rightarrow> bytes \<Rightarrow> bytes \<Rightarrow> bool \<Rightarrow> (backend_error + unit) \<times> 't"
  bk_get :: "'t \<Rightarrow> store_id \<Rightarrow> bytes \<Rightarrow> backend_error + bytes option"
  bk_delete_record :: "'t \<Rightarrow> store_id \<Rightarrow> bytes \<Rightarrow> (backend_error + bool) \<times> 't"
  bk_delete_range :: "'t \<Rightarrow> store_id \<Rightarrow> encoded_range \<Rightarrow> (backend_error + nat) \<times> 't"
  bk_clear :: "'t \<Rightarrow> store_id \<Rightarrow> (backend_error + unit) \<times> 't"
  bk_count :: "'t \<Rightarrow> source_ref \<Rightarrow> encoded_range \<Rightarrow> backend_error + nat"
  bk_scan :: "'t \<Rightarrow> source_ref \<Rightarrow> encoded_range \<Rightarrow> direction \<Rightarrow> bool \<Rightarrow> backend_error + 'c"
  bk_key_gen_current :: "'t \<Rightarrow> store_id \<Rightarrow> backend_error + f64"
  bk_key_gen_set :: "'t \<Rightarrow> store_id \<Rightarrow> f64 \<Rightarrow> (backend_error + unit) \<times> 't"
  bk_index_put :: "'t \<Rightarrow> index_id \<Rightarrow> bytes \<Rightarrow> bytes \<Rightarrow> bool \<Rightarrow> (backend_error + unit) \<times> 't"
  bk_index_delete :: "'t \<Rightarrow> index_id \<Rightarrow> bytes \<Rightarrow> bytes \<Rightarrow> (backend_error + unit) \<times> 't"
  bk_index_delete_by_primary :: "'t \<Rightarrow> index_id \<Rightarrow> bytes \<Rightarrow> (backend_error + unit) \<times> 't"
  bk_seek :: "'t \<Rightarrow> cursor_seek \<Rightarrow> 'c \<Rightarrow> (backend_error + bool) \<times> 'c"
  bk_step :: "'t \<Rightarrow> nat \<Rightarrow> 'c \<Rightarrow> (backend_error + bool) \<times> 'c"
  bk_current_key :: "'c \<Rightarrow> bytes"
  bk_current_primary_key :: "'c \<Rightarrow> bytes"
  bk_current_value :: "'c \<Rightarrow> bytes option"

section \<open>Sequencing\<close>

text \<open>The question-mark operator on a computation that also changes a state, and a \<open>for\<close> loop whose
  body ends with it.\<close>

fun sbind :: "('e + 'a) \<times> 's \<Rightarrow> ('a \<Rightarrow> 's \<Rightarrow> ('e + 'b) \<times> 's) \<Rightarrow> ('e + 'b) \<times> 's" where
  "sbind (Inl e, s) f = (Inl e, s)"
| "sbind (Inr x, s) f = f x s"

lemma sbind_Inr:
  "sbind r f = (Inr y, s'') \<longleftrightarrow> (\<exists>x s'. r = (Inr x, s') \<and> f x s' = (Inr y, s''))"
  by (cases "(r, f)" rule: sbind.cases) auto

lemma sbind_state: "snd (sbind r f) = (case fst r of Inl e \<Rightarrow> snd r | Inr x \<Rightarrow> snd (f x (snd r)))"
  by (cases "(r, f)" rule: sbind.cases) auto

definition on_err :: "('e \<Rightarrow> 'f) \<Rightarrow> ('e + 'a) \<times> 's \<Rightarrow> ('f + 'a) \<times> 's" where
  "on_err h r = (map_err h (fst r), snd r)"

lemma on_err_Inr [simp]: "on_err h r = (Inr x, s) \<longleftrightarrow> r = (Inr x, s)"
  by (cases r) (simp add: on_err_def)

lemma snd_on_err [simp]: "snd (on_err h r) = snd r"
  by (simp add: on_err_def)

fun for_each :: "('x \<Rightarrow> 's \<Rightarrow> ('e + unit) \<times> 's) \<Rightarrow> 'x list \<Rightarrow> 's \<Rightarrow> ('e + unit) \<times> 's" where
  "for_each f [] s = (Inr (), s)"
| "for_each f (x # xs) s = sbind (f x s) (\<lambda>_. for_each f xs)"

text \<open>A relation that holds across every step holds across the loop.\<close>

lemma for_each_rel:
  assumes "\<And>s. P s s" "\<And>a b c. P a b \<Longrightarrow> P b c \<Longrightarrow> P a c" "\<And>x s. x \<in> set xs \<Longrightarrow> P s (snd (f x s))"
  shows "P s (snd (for_each f xs s))"
  using assms(3)
proof (induction xs arbitrary: s)
  case (Cons x xs)
  have "P s (snd (f x s))" by (rule Cons.prems) simp
  moreover have "P (snd (f x s)) (snd (for_each f xs (snd (f x s))))" by (rule Cons.IH) (simp add: Cons.prems)
  ultimately show ?case using assms(2) by (auto simp: sbind_state split: sum.splits)
qed (simp add: assms(1))

section \<open>Faults\<close>

text \<open>An operation of the engine ends with an error or, where the structured-clone decoder does, in a
  panic.\<close>

datatype op_fault = Fails idb_error | Panics

fun backend_err :: "backend_error \<Rightarrow> op_fault" where
  "backend_err BeConstraint = Fails IdbConstraint"
| "backend_err e = Fails IdbData"

definition scf_err :: "idb_error \<Rightarrow> sc_fault \<Rightarrow> op_fault" where
  "scf_err e f = (case f of ScErr _ \<Rightarrow> Fails e | ScPanic \<Rightarrow> Panics)"

text \<open>\<open>encode_key(&key, &mut bytes, limits)?\<close> into an empty vector.\<close>

definition encode_key_vec :: "limit_config \<Rightarrow> key \<Rightarrow> key_error + bytes" where
  "encode_key_vec lim k = rbind (fst (encode_key k [] lim)) (\<lambda>_. Inr (snd (encode_key k [] lim)))"

definition key_err :: "key_error \<Rightarrow> op_fault" where
  "key_err e = Fails (idb_of_key_error e)"

section \<open>The operations a transaction goes through\<close>

text \<open>One call of a data operation, and a sequence of them.\<close>

inductive bk_op :: "('t, 'c) backend_txn \<Rightarrow> 't \<Rightarrow> 't \<Rightarrow> bool" for B where
  "bk_op B t (snd (bk_put B t store k v no_overwrite))"
| "bk_op B t (snd (bk_delete_record B t store k))"
| "bk_op B t (snd (bk_delete_range B t store rng))"
| "bk_op B t (snd (bk_clear B t store))"
| "bk_op B t (snd (bk_key_gen_set B t store x))"
| "bk_op B t (snd (bk_index_put B t i ik pk unique))"
| "bk_op B t (snd (bk_index_delete B t i ik pk))"
| "bk_op B t (snd (bk_index_delete_by_primary B t i pk))"

abbreviation bk_ops :: "('t, 'c) backend_txn \<Rightarrow> 't \<Rightarrow> 't \<Rightarrow> bool" where
  "bk_ops B \<equiv> (bk_op B)\<^sup>*\<^sup>*"

lemma for_each_ops:
  "(\<And>x s. x \<in> set xs \<Longrightarrow> bk_ops B s (snd (f x s))) \<Longrightarrow> bk_ops B s (snd (for_each f xs s))"
  by (rule for_each_rel [where P = "bk_ops B"]) auto

lemma bk_ops_sbind:
  "bk_ops B s (snd r) \<Longrightarrow> (\<And>x. fst r = Inr x \<Longrightarrow> bk_ops B (snd r) (snd (f x (snd r)))) \<Longrightarrow>
     bk_ops B s (snd (sbind r f))"
  by (auto simp: sbind_state split: sum.splits intro: rtranclp_trans)

section \<open>A walk of a cursor\<close>

text \<open>The positions of a cursor that is stepped by one until it ends.\<close>

inductive trail :: "('t, 'c) backend_txn \<Rightarrow> 't \<Rightarrow> (backend_error + bool) \<times> 'c \<Rightarrow> 'c list \<Rightarrow> bool" for B t where
  trail_end: "trail B t (Inr False, c) []"
| trail_row: "trail B t (bk_step B t 1 c) cs \<Longrightarrow> trail B t (Inr True, c) (c # cs)"

inductive_cases trail_endE: "trail B t (Inr False, c) cs"
inductive_cases trail_rowE: "trail B t (Inr True, c) cs"

text \<open>The loop of every routine that reads rows: while the cursor is on a row, read it, stop where the
  limit is reached, step by one. A cursor that never ended would make it \<open>None\<close>.\<close>

definition reached :: "nat option \<Rightarrow> nat \<Rightarrow> bool" where
  "reached limit n = (case limit of None \<Rightarrow> False | Some l \<Rightarrow> l \<le> n)"

partial_function (option) scan_loop ::
    "('t, 'c) backend_txn \<Rightarrow> ('c \<Rightarrow> op_fault + 'r) \<Rightarrow> nat option \<Rightarrow> 't \<Rightarrow> (backend_error + bool) \<times> 'c \<Rightarrow>
       'r list \<Rightarrow> (op_fault + 'r list) option" where
  "scan_loop B row limit t at out =
     (case at of
        (Inl e, c) \<Rightarrow> Some (Inl (backend_err e))
      | (Inr active, c) \<Rightarrow>
          if \<not> active then Some (Inr out)
          else
            (case row c of
               Inl f \<Rightarrow> Some (Inl f)
             | Inr r \<Rightarrow>
                 if reached limit (Suc (length out)) then Some (Inr (out @ [r]))
                 else scan_loop B row limit t (bk_step B t 1 c) (out @ [r])))"

text \<open>What it computes from the positions of the cursor: the rows of the first of them, up to the first
  that cannot be read.\<close>

fun traverse :: "('c \<Rightarrow> 'e + 'r) \<Rightarrow> 'c list \<Rightarrow> 'e + 'r list" where
  "traverse f [] = Inr []"
| "traverse f (x # xs) = rbind (f x) (\<lambda>r. rbind (traverse f xs) (\<lambda>rs. Inr (r # rs)))"

lemma traverse_cong: "(\<And>x. x \<in> set xs \<Longrightarrow> f x = g x) \<Longrightarrow> traverse f xs = traverse g xs"
  by (induction xs) auto

lemma traverse_pure: "traverse (\<lambda>x. Inr (f x)) xs = Inr (map f xs)"
  by (induction xs) auto

lemma traverse_map: "traverse f (map g xs) = traverse (\<lambda>x. f (g x)) xs"
  by (induction xs) auto

definition rows_within :: "nat option \<Rightarrow> nat \<Rightarrow> 'c list \<Rightarrow> 'c list" where
  "rows_within limit n cs = (case limit of None \<Rightarrow> cs | Some l \<Rightarrow> take (max 1 (l - n)) cs)"

lemma scan_loop_trail:
  "trail B t at cs \<Longrightarrow>
     scan_loop B row limit t at out =
       Some (rbind (traverse row (rows_within limit (length out) cs)) (\<lambda>rs. Inr (out @ rs)))"
proof (induction arbitrary: out rule: trail.induct)
  case (trail_end c)
  show ?case by (subst scan_loop.simps) (simp add: rows_within_def split: option.split)
next
  case (trail_row c cs)
  show ?case
  proof (cases "row c")
    case (Inl f)
    have "rows_within limit (length out) (c # cs) = c # tl (rows_within limit (length out) (c # cs))"
      by (auto simp: rows_within_def max_def take_Cons' split: option.split)
    then have "traverse row (rows_within limit (length out) (c # cs)) = Inl f"
      using Inl by (metis rbind.simps(1) traverse.simps(2))
    then show ?thesis using Inl by (subst scan_loop.simps) simp
  next
    case (Inr r)
    show ?thesis
    proof (cases "reached limit (Suc (length out))")
      case True
      then have "rows_within limit (length out) (c # cs) = [c]"
        by (auto simp: reached_def rows_within_def max_absorb1 split: option.splits)
      then show ?thesis using Inr True by (subst scan_loop.simps) simp
    next
      case False
      then have "rows_within limit (length out) (c # cs) = c # rows_within limit (Suc (length out)) cs"
        by (auto simp: reached_def rows_within_def max_def take_Cons' split: option.splits)
      then show ?thesis
        using Inr False trail_row.IH [of "out @ [r]"]
        by (subst scan_loop.simps) (cases "traverse row (rows_within limit (Suc (length out)) cs)", auto)
    qed
  qed
qed

text \<open>A walk that ends, whatever it yields.\<close>

inductive walk_ends :: "('t, 'c) backend_txn \<Rightarrow> 't \<Rightarrow> (backend_error + bool) \<times> 'c \<Rightarrow> bool" for B t where
  ends_error: "walk_ends B t (Inl e, c)"
| ends_here: "walk_ends B t (Inr False, c)"
| ends_later: "walk_ends B t (bk_step B t 1 c) \<Longrightarrow> walk_ends B t (Inr True, c)"

lemma scan_loop_returns: "walk_ends B t at \<Longrightarrow> \<exists>r. scan_loop B row limit t at out = Some r"
proof (induction arbitrary: out rule: walk_ends.induct)
  case (ends_later c)
  show ?case
    using ends_later.IH
    by (subst scan_loop.simps) (simp split: sum.split)
qed (subst scan_loop.simps, simp)+

section \<open>What the engine relies on\<close>

text \<open>The laws of a backend, over what a transaction shows: its records \<open>recs\<close>, its index entries
  \<open>idx\<close> and its generator values \<open>gen\<close>. Each operation, where it succeeds, has the stated effect on
  them and no other; an ascending walk over a store visits the keys of the range in order; a
  request that is rolled back has changed nothing.\<close>

locale storage_backend =
  fixes B :: "('t, 'c) backend_txn"
    and recs :: "'t \<Rightarrow> store_id \<times> bytes \<rightharpoonup> bytes"
    and idx :: "'t \<Rightarrow> (index_id \<times> bytes \<times> bytes) set"
    and gen :: "'t \<Rightarrow> store_id \<Rightarrow> f64"
  assumes get_law: "bk_get B t store k = Inr r \<Longrightarrow> r = recs t (store, k)"
    and put_law: "bk_put B t store k v no_overwrite = (Inr u, t') \<Longrightarrow>
      recs t' = (recs t)((store, k) \<mapsto> v) \<and> idx t' = idx t \<and> gen t' = gen t"
    and delete_range_law: "bk_delete_range B t store rng = (Inr n, t') \<Longrightarrow>
      recs t' = (\<lambda>k. if fst k = store \<and> contains rng (snd k) then None else recs t k) \<and>
      idx t' = idx t \<and> gen t' = gen t"
    and clear_law: "bk_clear B t store = (Inr u, t') \<Longrightarrow>
      recs t' = (\<lambda>k. if fst k = store then None else recs t k) \<and> idx t' = idx t \<and> gen t' = gen t"
    and key_gen_set_law: "bk_key_gen_set B t store x = (Inr u, t') \<Longrightarrow>
      recs t' = recs t \<and> idx t' = idx t \<and> gen t' = (gen t)(store := x)"
    and index_put_law: "bk_index_put B t i ik pk unique = (Inr u, t') \<Longrightarrow>
      recs t' = recs t \<and> idx t' = insert (i, ik, pk) (idx t) \<and> gen t' = gen t \<and>
      (unique \<longrightarrow> (i, ik, pk) \<in> idx t \<or> (\<forall>q. (i, ik, q) \<notin> idx t))"
    and index_delete_law: "bk_index_delete B t i ik pk = (Inr u, t') \<Longrightarrow>
      recs t' = recs t \<and> idx t' = idx t - {(i, ik, pk)} \<and> gen t' = gen t"
    and delete_by_primary_law: "bk_index_delete_by_primary B t i pk = (Inr u, t') \<Longrightarrow>
      recs t' = recs t \<and> idx t' = {k \<in> idx t. \<not> (fst k = i \<and> snd (snd k) = pk)} \<and> gen t' = gen t"
    and walk_law: "bk_scan B t (SrcStore store) rng Next key_only = Inr c \<Longrightarrow>
      \<exists>cs. trail B t (bk_seek B t SeekFirst c) cs \<and>
        sorted_wrt (<) (map (bk_current_key B) cs) \<and>
        set (map (bk_current_key B) cs) = {k. recs t (store, k) \<noteq> None \<and> contains rng k} \<and>
        (\<forall>c \<in> set cs. bk_current_primary_key B c = bk_current_key B c \<and>
           bk_current_value B c = (if key_only then None else recs t (store, bk_current_key B c)))"
    and scan_law: "bk_scan B t src rng dir key_only = Inr c \<Longrightarrow> walk_ends B t (bk_seek B t target c)"
    and rollback_law: "bk_begin_request B t = (Inr u, t1) \<Longrightarrow> bk_ops B t1 t2 \<Longrightarrow>
      \<exists>t3. bk_rollback_request B t2 = (Inr (), t3) \<and> recs t3 = recs t \<and> idx t3 = idx t \<and> gen t3 = gen t"
    and commit_law: "bk_begin_request B t = (Inr u, t1) \<Longrightarrow> bk_ops B t1 t2 \<Longrightarrow>
      \<exists>t3. bk_commit_request B t2 = (Inr (), t3) \<and> recs t3 = recs t2 \<and> idx t3 = idx t2 \<and> gen t3 = gen t2"
    and begin_law: "bk_begin_request B t = (begun, t1) \<Longrightarrow> recs t1 = recs t \<and> idx t1 = idx t \<and> gen t1 = gen t"

end
