(* ===== verification/Core_Cursor.thy ===== *)
theory Core_Cursor
  imports Backend_Trait Key_Order
begin

text \<open>
  The core cursor of \<open>engine/cursor.rs\<close>: a backend cursor with a state of its own that decodes the
  keys and values it stands on. The transaction the backend cursor borrows is an argument.
\<close>

datatype cc_state = CcActive | CcExhausted | CcClosed

record 'c core_cursor =
  cc_id :: cursor_id
  cc_source :: source_ref
  cc_direction :: direction
  cc_key_only :: bool
  cc_state :: cc_state
  cc_backend :: 'c

definition cc_new :: "cursor_id \<Rightarrow> source_ref \<Rightarrow> direction \<Rightarrow> bool \<Rightarrow> 'c \<Rightarrow> 'c core_cursor" where
  "cc_new i source direction key_only backend =
     \<lparr>cc_id = i, cc_source = source, cc_direction = direction, cc_key_only = key_only,
      cc_state = CcActive, cc_backend = backend\<rparr>"

definition cc_moved :: "'c core_cursor \<Rightarrow> (backend_error + bool) \<times> 'c \<Rightarrow> (op_fault + bool) \<times> 'c core_cursor" where
  "cc_moved c result =
     (case result of
        (Inl e, b) \<Rightarrow> (Inl (Fails IdbData), c\<lparr>cc_backend := b\<rparr>)
      | (Inr found, b) \<Rightarrow>
          (Inr found, if found then c\<lparr>cc_backend := b\<rparr> else c\<lparr>cc_backend := b, cc_state := CcExhausted\<rparr>))"

definition cc_seek ::
    "('t, 'c) backend_txn \<Rightarrow> 't \<Rightarrow> cursor_seek \<Rightarrow> 'c core_cursor \<Rightarrow> (op_fault + bool) \<times> 'c core_cursor" where
  "cc_seek B t target c = cc_moved c (bk_seek B t target (cc_backend c))"

definition cc_advance ::
    "('t, 'c) backend_txn \<Rightarrow> 't \<Rightarrow> nat \<Rightarrow> 'c core_cursor \<Rightarrow> (op_fault + bool) \<times> 'c core_cursor" where
  "cc_advance B t count c =
     (if cc_state c \<noteq> CcActive then (Inr False, c) else cc_moved c (bk_step B t count (cc_backend c)))"

definition decode_current :: "bytes \<Rightarrow> op_fault + key option" where
  "decode_current bs =
     (if bs = [] then Inr None
      else map_err (\<lambda>_. Fails IdbData) (rbind (decode_key bs) (\<lambda>(key, _). Inr (Some key))))"

definition cc_current_key :: "('t, 'c) backend_txn \<Rightarrow> 'c core_cursor \<Rightarrow> op_fault + key option" where
  "cc_current_key B c =
     (if cc_state c \<noteq> CcActive then Inr None else decode_current (bk_current_key B (cc_backend c)))"

definition cc_current_primary_key :: "('t, 'c) backend_txn \<Rightarrow> 'c core_cursor \<Rightarrow> op_fault + key option" where
  "cc_current_primary_key B c =
     (if cc_state c \<noteq> CcActive then Inr None else decode_current (bk_current_primary_key B (cc_backend c)))"

definition cc_current_value ::
    "('t, 'c) backend_txn \<Rightarrow> limit_config \<Rightarrow> 'b bigint_ops \<Rightarrow> 'c core_cursor \<Rightarrow> op_fault + 'b scvalue option" where
  "cc_current_value B lim Bg c =
     (if cc_state c \<noteq> CcActive \<or> cc_key_only c then Inr None
      else case bk_current_value B (cc_backend c) of
        Some bs \<Rightarrow> map_err (scf_err IdbData) (rbind (decode_scf lim Bg bs) (\<lambda>v. Inr (Some v)))
      | None \<Rightarrow> Inr None)"

definition cc_close :: "'c core_cursor \<Rightarrow> 'c core_cursor" where
  "cc_close c = c\<lparr>cc_state := CcClosed\<rparr>"

section \<open>The end of a cursor\<close>

lemma cc_state_moved: "cc_state (snd (cc_moved c r)) = (if fst r = Inr False then CcExhausted else cc_state c)"
  by (auto simp: cc_moved_def split: prod.split sum.split)

text \<open>A cursor that is not active shows nothing and does not move forward.\<close>

lemma cc_inactive:
  assumes "cc_state c \<noteq> CcActive"
  shows "cc_advance B t n c = (Inr False, c)" "cc_current_key B c = Inr None"
    "cc_current_primary_key B c = Inr None" "cc_current_value B lim Bg c = Inr None"
  using assms by (simp_all add: cc_advance_def cc_current_key_def cc_current_primary_key_def cc_current_value_def)

text \<open>Seeking does not make it active again: an exhausted cursor that a seek puts on a row returns
  \<open>true\<close> and still shows no key.\<close>

lemma seek_leaves_exhausted:
  assumes "cc_state c = CcExhausted" "bk_seek B t target (cc_backend c) = (Inr True, b)"
  shows "fst (cc_seek B t target c) = Inr True \<and> cc_current_key B (snd (cc_seek B t target c)) = Inr None"
  using assms by (simp add: cc_seek_def cc_moved_def cc_current_key_def)

end
