(* ===== verification/Store_Ops.thy ===== *)
theory Store_Ops
  imports Backend_Trait Key_Generator Scf_Encode
begin

text \<open>
  The store operations \<open>put\<close>, \<open>delete\<close> and \<open>clear\<close> of \<open>engine/ops_store.rs\<close> and the index operations
  of \<open>ops_index.rs\<close>, against any backend. \<open>put\<close> determines the key, looks at the record it replaces,
  brings the index entries from those of the old value to those of the new one, stores the
  record and moves the key generator.
\<close>

section \<open>Index operations\<close>

definition oi_put ::
    "('t, 'c) backend_txn \<Rightarrow> index_id \<Rightarrow> bytes \<Rightarrow> bytes \<Rightarrow> bool \<Rightarrow> 't \<Rightarrow> (op_fault + unit) \<times> 't" where
  "oi_put B index idx_key primary_key unique t =
     on_err (\<lambda>e. case e of BeConstraint \<Rightarrow> Fails IdbConstraint | other \<Rightarrow> Fails IdbData)
       (bk_index_put B t index idx_key primary_key unique)"

definition oi_delete ::
    "('t, 'c) backend_txn \<Rightarrow> index_id \<Rightarrow> bytes \<Rightarrow> bytes \<Rightarrow> 't \<Rightarrow> (op_fault + unit) \<times> 't" where
  "oi_delete B index idx_key primary_key t =
     on_err (\<lambda>e. Fails IdbData) (bk_index_delete B t index idx_key primary_key)"

definition oi_delete_by_primary ::
    "('t, 'c) backend_txn \<Rightarrow> index_id \<Rightarrow> bytes \<Rightarrow> 't \<Rightarrow> (op_fault + unit) \<times> 't" where
  "oi_delete_by_primary B index primary_key t =
     on_err (\<lambda>e. Fails IdbData) (bk_index_delete_by_primary B t index primary_key)"

section \<open>The key of a record\<close>

text \<open>The match of \<open>determine_key\<close>; its last arm cannot be reached. The generator and the value are
  returned as the code leaves them, also where the injection fails.\<close>

definition generate_number :: "key_generator \<Rightarrow> (idb_error + key) \<times> key_generator" where
  "generate_number g =
     (case kg_generate g of (Inl e, g) \<Rightarrow> (Inl e, g) | (Inr n, g) \<Rightarrow> (Inr (KNumber n), g))"

definition determine_key ::
    "store_meta \<Rightarrow> key option \<Rightarrow> key_generator \<Rightarrow> 'b scvalue \<Rightarrow>
       (idb_error + key) \<times> key_generator \<times> 'b scvalue" where
  "determine_key meta explicit_key g v =
     (let kp = st_key_path meta in
      case explicit_key of
        Some k \<Rightarrow> if kp \<noteq> PathEmpty then (Inl IdbData, g, v) else (Inr k, g, v)
      | None \<Rightarrow>
          if kp \<noteq> PathEmpty then
            (case kp_extract kp v of
               Inl e \<Rightarrow> (Inl (idb_of_key_error e), g, v)
             | Inr (Some k) \<Rightarrow> (Inr k, g, v)
             | Inr None \<Rightarrow>
                 if st_auto_increment meta then
                   (case generate_number g of
                      (Inl e, g) \<Rightarrow> (Inl e, g, v)
                    | (Inr key, g) \<Rightarrow>
                        (case inject kp v key of
                           (Inl e, v) \<Rightarrow> (Inl IdbData, g, v)
                         | (Inr _, v) \<Rightarrow> (Inr key, g, v)))
                 else (Inl IdbData, g, v))
          else if st_auto_increment meta then
            (case generate_number g of (r, g) \<Rightarrow> (r, g, v))
          else
            (case to_key v of
               Inr (Some k) \<Rightarrow> (Inr k, g, v)
             | Inr None \<Rightarrow> (Inl IdbData, g, v)
             | Inl e \<Rightarrow> (Inl IdbData, g, v)))"

fun key_to_f64 :: "key \<Rightarrow> f64" where
  "key_to_f64 (KNumber n) = n"
| "key_to_f64 (KDate d) = d"
| "key_to_f64 _ = f64_of_int 0"

fun expand_multi_entry_key :: "key \<Rightarrow> key list" where
  "expand_multi_entry_key (KArray arr) = arr"
| "expand_multi_entry_key k = [k]"

section \<open>The keys an index derives from a value\<close>

fun encode_distinct :: "limit_config \<Rightarrow> key list \<Rightarrow> bytes list \<Rightarrow> key_error + bytes list" where
  "encode_distinct lim [] out = Inr out"
| "encode_distinct lim (k # ks) out =
     rbind (encode_key_vec lim k) (\<lambda>bs.
       encode_distinct lim ks (if bs \<in> set out then out else out @ [bs]))"

definition index_keys_for_value ::
    "limit_config \<Rightarrow> index_meta \<Rightarrow> 'b scvalue \<Rightarrow> key_error + bytes list" where
  "index_keys_for_value lim index v =
     (if ix_multi_entry index then
        rbind (extract_multi_entry (ix_key_path index) v) (\<lambda>keys. encode_distinct lim keys [])
      else
        (case kp_extract (ix_key_path index) v of
           Inr (Some idx_key) \<Rightarrow> encode_distinct lim [idx_key] []
         | _ \<Rightarrow> Inr []))"

definition sync_index ::
    "('t, 'c) backend_txn \<Rightarrow> limit_config \<Rightarrow> 'b scvalue option \<Rightarrow> 'b scvalue \<Rightarrow> bytes \<Rightarrow> index_meta \<Rightarrow>
       't \<Rightarrow> (op_fault + unit) \<times> 't" where
  "sync_index B lim old_value new_value encoded_pk index t =
     (if ix_deleted index then (Inr (), t)
      else
        sbind (map_err key_err (case old_value of
                                  Some v \<Rightarrow> index_keys_for_value lim index v | None \<Rightarrow> Inr []), t) (\<lambda>old_keys t.
        sbind (map_err key_err (index_keys_for_value lim index new_value), t) (\<lambda>new_keys t.
        sbind (for_each (\<lambda>old t. if old \<notin> set new_keys then oi_delete B (ix_id index) old encoded_pk t
                                 else (Inr (), t)) old_keys t) (\<lambda>_.
        for_each (\<lambda>new t. if new \<notin> set old_keys then oi_put B (ix_id index) new encoded_pk (ix_unique index) t
                          else (Inr (), t)) new_keys))))"

definition sync_indexes_on_put ::
    "('t, 'c) backend_txn \<Rightarrow> limit_config \<Rightarrow> store_meta \<Rightarrow> 'b scvalue option \<Rightarrow> 'b scvalue \<Rightarrow> key \<Rightarrow>
       't \<Rightarrow> (op_fault + unit) \<times> 't" where
  "sync_indexes_on_put B lim meta old_value new_value primary_key t =
     sbind (map_err key_err (encode_key_vec lim primary_key), t) (\<lambda>encoded_pk.
       for_each (sync_index B lim old_value new_value encoded_pk) (st_indexes meta))"

section \<open>Put\<close>

record put_result =
  pr_key :: key
  pr_inserted :: bool
  pr_value_bytes :: nat

text \<open>Steps 2 to 4 of \<open>put\<close>: they only change the transaction. The result is whether a record was
  inserted, and the size of the encoded value.\<close>

definition decode_existing :: "limit_config \<Rightarrow> 'b bigint_ops \<Rightarrow> bytes option \<Rightarrow> op_fault + 'b scvalue option" where
  "decode_existing lim Bg existing =
     (case existing of
        Some bs \<Rightarrow> map_err (scf_err IdbNotReadable) (rbind (decode_scf lim Bg bs) (\<lambda>v. Inr (Some v)))
      | None \<Rightarrow> Inr None)"

definition put_record ::
    "('t, 'c) backend_txn \<Rightarrow> limit_config \<Rightarrow> 'b bigint_ops \<Rightarrow> store_meta \<Rightarrow> 'b scvalue \<Rightarrow> key \<Rightarrow> bool \<Rightarrow>
       't \<Rightarrow> (op_fault + bool \<times> nat) \<times> 't" where
  "put_record B lim Bg meta v key no_overwrite t =
     sbind (map_err key_err (encode_key_vec lim key), t) (\<lambda>encoded t.
     sbind (map_err backend_err (bk_get B t (st_id meta) encoded), t) (\<lambda>existing t.
     if no_overwrite \<and> existing \<noteq> None then (Inl (Fails IdbConstraint), t)
     else
       sbind (decode_existing lim Bg existing, t) (\<lambda>old_value t.
       sbind (sync_indexes_on_put B lim meta old_value v key t) (\<lambda>_ t.
       sbind (map_err key_err (encode_key_vec lim key), t) (\<lambda>encoded_key t.
       sbind (map_err (\<lambda>e. Fails IdbDataClone) (encode_scf lim Bg v), t) (\<lambda>encoded_value t.
       sbind (on_err backend_err (bk_put B t (st_id meta) encoded_key encoded_value no_overwrite)) (\<lambda>_ t.
         (Inr (existing = None, length encoded_value), t))))))))"

definition os_put ::
    "('t, 'c) backend_txn \<Rightarrow> limit_config \<Rightarrow> 'b bigint_ops \<Rightarrow> store_meta \<Rightarrow> key option \<Rightarrow> bool \<Rightarrow>
       't \<times> key_generator \<times> 'b scvalue \<Rightarrow> (op_fault + put_result) \<times> 't \<times> key_generator \<times> 'b scvalue" where
  "os_put B lim Bg meta explicit_key no_overwrite args =
     (let (t, g, v) = args in
      case determine_key meta explicit_key g v of
        (Inl e, g, v) \<Rightarrow> (Inl (Fails e), t, g, v)
      | (Inr key, g, v) \<Rightarrow>
          (case put_record B lim Bg meta v key no_overwrite t of
             (Inl f, t) \<Rightarrow> (Inl f, t, g, v)
           | (Inr (inserted, value_bytes), t) \<Rightarrow>
               let g = kg_possibly_update g (key_to_f64 key) in
               (case bk_key_gen_set B t (st_id meta) (kg_current g) of
                  (Inl e, t) \<Rightarrow> (Inl (backend_err e), t, g, v)
                | (Inr _, t) \<Rightarrow>
                    (Inr \<lparr>pr_key = key, pr_inserted = inserted, pr_value_bytes = value_bytes\<rparr>, t, g, v))))"

section \<open>Delete and clear\<close>

definition collect_range_keys ::
    "('t, 'c) backend_txn \<Rightarrow> 't \<Rightarrow> store_id \<Rightarrow> encoded_range \<Rightarrow> (op_fault + bytes list) option" where
  "collect_range_keys B t store rng =
     (case bk_scan B t (SrcStore store) rng Next True of
        Inl e \<Rightarrow> Some (Inl (backend_err e))
      | Inr c \<Rightarrow> scan_loop B (\<lambda>c. Inr (bk_current_key B c)) None t (bk_seek B t SeekFirst c) [])"

definition delete_index_entries ::
    "('t, 'c) backend_txn \<Rightarrow> store_meta \<Rightarrow> bytes list \<Rightarrow> 't \<Rightarrow> (op_fault + unit) \<times> 't" where
  "delete_index_entries B meta doomed =
     for_each (\<lambda>pkey. for_each (\<lambda>index t. if ix_deleted index then (Inr (), t)
                                          else oi_delete_by_primary B (ix_id index) pkey t) (st_indexes meta))
       doomed"

definition os_delete ::
    "('t, 'c) backend_txn \<Rightarrow> store_meta \<Rightarrow> encoded_range \<Rightarrow> 't \<Rightarrow> ((op_fault + nat) \<times> 't) option" where
  "os_delete B meta rng t =
     map_option (\<lambda>collected.
       sbind (collected, t) (\<lambda>doomed t.
       sbind (on_err backend_err (bk_delete_range B t (st_id meta) rng)) (\<lambda>count t.
       sbind (delete_index_entries B meta doomed t) (\<lambda>_ t. (Inr count, t)))))
     (collect_range_keys B t (st_id meta) rng)"

definition os_clear ::
    "('t, 'c) backend_txn \<Rightarrow> store_meta \<Rightarrow> 't \<Rightarrow> ((op_fault + unit) \<times> 't) option" where
  "os_clear B meta t =
     map_option (\<lambda>collected.
       sbind (collected, t) (\<lambda>doomed t.
       sbind (on_err backend_err (bk_clear B t (st_id meta))) (\<lambda>_ t.
       delete_index_entries B meta doomed t)))
     (collect_range_keys B t (st_id meta) range_all)"

section \<open>The calls an operation makes\<close>

text \<open>Whatever its result, an operation has taken the transaction through data operations only.\<close>

lemmas one_op = bk_op.intros [THEN r_into_rtranclp [where r = "bk_op B" for B]]

lemma oi_ops [intro]:
  "bk_ops B t (snd (oi_put B i ik pk unique t))"
  "bk_ops B t (snd (oi_delete B i ik pk t))"
  "bk_ops B t (snd (oi_delete_by_primary B i pk t))"
  by (auto simp: oi_put_def oi_delete_def oi_delete_by_primary_def intro: one_op)

lemma sync_index_ops: "bk_ops B t (snd (sync_index B lim old v pk index t))"
  by (auto simp: sync_index_def intro!: bk_ops_sbind for_each_ops split: if_splits)

lemma sync_indexes_ops: "bk_ops B t (snd (sync_indexes_on_put B lim meta old v key t))"
  by (auto simp: sync_indexes_on_put_def intro!: bk_ops_sbind for_each_ops sync_index_ops)

lemma put_record_ops: "bk_ops B t (snd (put_record B lim Bg meta v key no_overwrite t))"
  by (auto simp: put_record_def intro!: bk_ops_sbind sync_indexes_ops one_op)

lemma os_put_ops: "bk_ops B t (fst (snd (os_put B lim Bg meta explicit_key no_overwrite (t, g, v))))"
proof -
  have set: "bk_ops B u (snd (bk_key_gen_set B u i x))" for u i x by (auto intro: one_op)
  show ?thesis
    using put_record_ops [of B t lim Bg meta] set
    by (auto simp: os_put_def Let_def split: prod.splits sum.splits)
      (metis rtranclp_trans snd_conv)+
qed

lemma delete_index_entries_ops: "bk_ops B t (snd (delete_index_entries B meta doomed t))"
  by (auto simp: delete_index_entries_def intro!: for_each_ops split: if_splits)

lemma os_delete_ops: "os_delete B meta rng t = Some r \<Longrightarrow> bk_ops B t (snd r)"
  by (auto simp: os_delete_def intro!: bk_ops_sbind delete_index_entries_ops one_op)

lemma os_clear_ops: "os_clear B meta t = Some r \<Longrightarrow> bk_ops B t (snd r)"
  by (auto simp: os_clear_def intro!: bk_ops_sbind delete_index_entries_ops one_op)

end
