(* ===== verification/Driver_State.thy ===== *)
theory Driver_State
  imports Store_Ops Key_Order
begin

text \<open>
  The state of the driver, \<open>boa_idb/src/driver.rs\<close>: transaction handles, requests queued on them and
  live cursors. A hash map of handles or cursors is a map; the generators of a handle, which are
  enumerated, are a list of pairs in the order of their enumeration. The fields that only serve
  tracing and timing are left out, and values are those of the structured-clone format.
\<close>

section \<open>Key ranges\<close>

datatype range_data =
  RangeAll
| RangeOnly key
| RangeBounds "(key \<times> bool) option" "(key \<times> bool) option"

definition enc_key :: "limit_config \<Rightarrow> key \<Rightarrow> op_fault + bytes" where
  "enc_key lim k = map_err (\<lambda>e. Fails IdbData) (encode_key_vec lim k)"

fun to_encoded :: "limit_config \<Rightarrow> range_data \<Rightarrow> op_fault + encoded_range" where
  "to_encoded lim RangeAll = Inr range_all"
| "to_encoded lim (RangeOnly k) = rbind (enc_key lim k) (\<lambda>bs. Inr (range_only bs))"
| "to_encoded lim (RangeBounds None None) = Inr range_all"
| "to_encoded lim (RangeBounds (Some (l, lo)) None) =
     rbind (enc_key lim l) (\<lambda>bs. Inr (range_lower_bound bs lo))"
| "to_encoded lim (RangeBounds None (Some (u, uo))) =
     rbind (enc_key lim u) (\<lambda>bs. Inr (range_upper_bound bs uo))"
| "to_encoded lim (RangeBounds (Some (l, lo)) (Some (u, uo))) =
     rbind (enc_key lim l) (\<lambda>lb. rbind (enc_key lim u) (\<lambda>ub. Inr (range_bound lb lo ub uo)))"

fun store_of :: "source_ref \<Rightarrow> store_id" where
  "store_of (SrcStore i) = i"
| "store_of (SrcIndex store _) = store"

text \<open>The derived equality of keys compares floating point numbers as numbers.\<close>

fun key_eq :: "key \<Rightarrow> key \<Rightarrow> bool" where
  "key_eq (KNumber a) (KNumber b) = f64_eq a b"
| "key_eq (KDate a) (KDate b) = f64_eq a b"
| "key_eq (KString a) (KString b) = (a = b)"
| "key_eq (KBinary a) (KBinary b) = (a = b)"
| "key_eq (KArray as) (KArray bs) = list_all2 key_eq as bs"
| "key_eq _ _ = False"

section \<open>Operations\<close>

datatype 'b cursor_action =
  ActAdvance nat
| ActContinue "key option"
| ActContinuePrimaryKey key key
| ActUpdate "'b scvalue"
| ActDelete

datatype 'b pending_op =
  OpGet source_ref range_data
| OpCount source_ref range_data
| OpGetKey source_ref range_data
| OpGetAll source_ref range_data "nat option" bool
| OpGetAllRecords source_ref range_data "nat option" direction
| OpPut store_id "'b scvalue" "key option" bool
| OpDelete store_id range_data
| OpClear store_id
| OpOpenCursor source_ref range_data direction bool
| OpCursorOp cursor_id "'b cursor_action"

record 'b row =
  rw_key :: key
  rw_primary_key :: key
  rw_value :: "'b scvalue option"

datatype 'b raw_outcome =
  OutEmpty
| OutKey key
| OutValue "'b scvalue option"
| OutKeys "key list"
| OutValues "'b scvalue list"
| OutRecords "'b row list"
| OutCount nat

datatype 'b op_exec =
  ExecOutcome "'b raw_outcome"
| ExecCursorOpened cursor_id
| ExecCursorContinued cursor_id bool

section \<open>Cursors\<close>

record 'b cursor_state =
  cu_cursor_id :: cursor_id
  cu_txn_id :: txn_id
  cu_request_id :: request_id
  cu_source :: source_ref
  cu_direction :: direction
  cu_key_only :: bool
  cu_rows :: "'b row list"
  cu_pos :: nat
  cu_pending :: bool

definition cu_current :: "'b cursor_state \<Rightarrow> 'b row option" where
  "cu_current c = (if cu_pos c < length (cu_rows c) then Some (cu_rows c ! cu_pos c) else None)"

text \<open>The \<open>for\<close> loop of the three seeks: the first row after the position that fits, or the end.\<close>

definition seek_row :: "('b row \<Rightarrow> bool) \<Rightarrow> 'b cursor_state \<Rightarrow> 'b cursor_state" where
  "seek_row fits c =
     (case find (\<lambda>i. fits (cu_rows c ! i)) [Suc (cu_pos c) ..< length (cu_rows c)] of
        Some i \<Rightarrow> c\<lparr>cu_pos := i\<rparr>
      | None \<Rightarrow> c\<lparr>cu_pos := length (cu_rows c)\<rparr>)"

definition cursor_seek_key_next :: "key \<Rightarrow> 'b cursor_state \<Rightarrow> 'b cursor_state" where
  "cursor_seek_key_next target = seek_row (\<lambda>r. compare_keys (rw_key r) target \<noteq> Less)"

definition cursor_seek_key_prev :: "key \<Rightarrow> 'b cursor_state \<Rightarrow> 'b cursor_state" where
  "cursor_seek_key_prev target = seek_row (\<lambda>r. compare_keys (rw_key r) target \<noteq> Greater)"

definition cursor_seek_key_primary :: "key \<Rightarrow> key \<Rightarrow> bool \<Rightarrow> 'b cursor_state \<Rightarrow> 'b cursor_state" where
  "cursor_seek_key_primary key primary desc =
     seek_row (\<lambda>r. let k = compare_keys (rw_key r) key; pk = compare_keys (rw_primary_key r) primary in
       if desc then k = Less \<or> k = Equal \<and> pk \<noteq> Greater
       else k = Greater \<or> k = Equal \<and> pk \<noteq> Less)"

text \<open>\<open>saturating_add\<close> on a 64-bit \<open>usize\<close>.\<close>

definition usize_add :: "nat \<Rightarrow> nat \<Rightarrow> nat" where
  "usize_add a b = min (a + b) (2 ^ 64 - 1)"

definition apply_cursor_action :: "'b cursor_action \<Rightarrow> 'b cursor_state \<Rightarrow> bool \<times> 'b cursor_state" where
  "apply_cursor_action action c =
     (let desc = is_prev (cu_direction c);
          c = (case action of
                 ActAdvance n \<Rightarrow> c\<lparr>cu_pos := usize_add (cu_pos c) n\<rparr>
               | ActContinue None \<Rightarrow> c\<lparr>cu_pos := usize_add (cu_pos c) 1\<rparr>
               | ActContinue (Some target) \<Rightarrow>
                   if desc then cursor_seek_key_prev target c else cursor_seek_key_next target c
               | ActContinuePrimaryKey key primary \<Rightarrow> cursor_seek_key_primary key primary desc c
               | ActUpdate _ \<Rightarrow> c
               | ActDelete \<Rightarrow> c)
      in (cu_pos c < length (cu_rows c), c))"

section \<open>Handles\<close>

record 't txn_handle =
  th_txn_id :: txn_id
  th_conn_id :: connection_id
  th_db_name :: utf16
  th_mode :: txn_mode
  th_scope :: "store_id list"
  th_durability :: durability
  th_meta :: database_meta
  th_backend :: "'t option"
  th_finished :: bool
  th_active :: bool
  th_active_epoch :: nat
  th_explicit_commit :: bool
  th_deleted_store_ids :: "store_id list"
  th_keygens :: "(store_id \<times> key_generator) list"
  th_bytes_read :: nat
  th_bytes_written :: nat

record ('t, 'b) driver =
  dr_txns :: "txn_id \<rightharpoonup> 't txn_handle"
  dr_txn_of_request :: "request_id \<rightharpoonup> txn_id"
  dr_ops :: "request_id \<rightharpoonup> 'b pending_op"
  dr_txn_queues :: "txn_id \<rightharpoonup> request_id list"
  dr_cursors :: "cursor_id \<rightharpoonup> 'b cursor_state"
  dr_next_request_id :: nat
  dr_next_txn_id :: nat
  dr_next_cursor_id :: nat
  dr_next_conn_id :: nat
  dr_task_epoch :: nat

definition alloc_request :: "('t, 'b) driver \<Rightarrow> nat \<times> ('t, 'b) driver" where
  "alloc_request d = (dr_next_request_id d, d\<lparr>dr_next_request_id := dr_next_request_id d + 1\<rparr>)"

definition alloc_txn :: "('t, 'b) driver \<Rightarrow> nat \<times> ('t, 'b) driver" where
  "alloc_txn d = (dr_next_txn_id d, d\<lparr>dr_next_txn_id := dr_next_txn_id d + 1\<rparr>)"

definition alloc_cursor :: "('t, 'b) driver \<Rightarrow> nat \<times> ('t, 'b) driver" where
  "alloc_cursor d = (dr_next_cursor_id d, d\<lparr>dr_next_cursor_id := dr_next_cursor_id d + 1\<rparr>)"

definition alloc_conn :: "('t, 'b) driver \<Rightarrow> nat \<times> ('t, 'b) driver" where
  "alloc_conn d = (dr_next_conn_id d, d\<lparr>dr_next_conn_id := dr_next_conn_id d + 1\<rparr>)"

definition enqueue :: "txn_id \<Rightarrow> request_id \<Rightarrow> 'b pending_op \<Rightarrow> ('t, 'b) driver \<Rightarrow> ('t, 'b) driver" where
  "enqueue txn_id request_id op d =
     d\<lparr>dr_txn_of_request := (dr_txn_of_request d)(request_id \<mapsto> txn_id),
       dr_ops := (dr_ops d)(request_id \<mapsto> op),
       dr_txn_queues := (dr_txn_queues d)(txn_id \<mapsto>
         (case dr_txn_queues d txn_id of None \<Rightarrow> [] | Some q \<Rightarrow> q) @ [request_id])\<rparr>"

definition txn_bytes :: "('t, 'b) driver \<Rightarrow> txn_id \<Rightarrow> nat \<times> nat" where
  "txn_bytes d i = (case dr_txns d i of None \<Rightarrow> (0, 0) | Some t \<Rightarrow> (th_bytes_read t, th_bytes_written t))"

definition with_handle :: "txn_id \<Rightarrow> ('t txn_handle \<Rightarrow> 't txn_handle) \<Rightarrow> ('t, 'b) driver \<Rightarrow> ('t, 'b) driver" where
  "with_handle i f d =
     (case dr_txns d i of None \<Rightarrow> d | Some h \<Rightarrow> d\<lparr>dr_txns := (dr_txns d)(i \<mapsto> f h)\<rparr>)"

definition add_bytes_read :: "txn_id \<Rightarrow> nat \<Rightarrow> ('t, 'b) driver \<Rightarrow> ('t, 'b) driver" where
  "add_bytes_read i n = with_handle i (\<lambda>h. h\<lparr>th_bytes_read := usize_add (th_bytes_read h) n\<rparr>)"

definition add_bytes_written :: "txn_id \<Rightarrow> nat \<Rightarrow> ('t, 'b) driver \<Rightarrow> ('t, 'b) driver" where
  "add_bytes_written i n = with_handle i (\<lambda>h. h\<lparr>th_bytes_written := usize_add (th_bytes_written h) n\<rparr>)"

section \<open>Where a cursor moves\<close>

text \<open>A seek lands on the first row after the position that fits, and exhausts the cursor where none
  does; it never moves back.\<close>

lemma seek_row_pos:
  assumes "seek_row fits c = c'"
  shows "cu_rows c' = cu_rows c \<and> cu_pos c' \<le> length (cu_rows c) \<and>
    (cu_pos c' < length (cu_rows c) \<longrightarrow> cu_pos c < cu_pos c' \<and> fits (cu_rows c ! cu_pos c')) \<and>
    (\<forall>i. cu_pos c < i \<and> i < cu_pos c' \<longrightarrow> \<not> fits (cu_rows c ! i))"
proof (cases "find (\<lambda>i. fits (cu_rows c ! i)) [Suc (cu_pos c) ..< length (cu_rows c)]")
  case None
  then have "c' = c\<lparr>cu_pos := length (cu_rows c)\<rparr>" using assms by (simp add: seek_row_def)
  then show ?thesis using None [unfolded find_None_iff] by auto
next
  case (Some p)
  then obtain n where n: "n < length [Suc (cu_pos c) ..< length (cu_rows c)]"
    "p = [Suc (cu_pos c) ..< length (cu_rows c)] ! n" "fits (cu_rows c ! p)"
    "\<forall>j < n. \<not> fits (cu_rows c ! ([Suc (cu_pos c) ..< length (cu_rows c)] ! j))"
    by (auto simp: find_Some_iff)
  have "\<not> fits (cu_rows c ! i)" if "cu_pos c < i" "i < p" for i
  proof -
    have "i - Suc (cu_pos c) < n" using that n by auto
    then have "\<not> fits (cu_rows c ! ([Suc (cu_pos c) ..< length (cu_rows c)] ! (i - Suc (cu_pos c))))"
      using n(4) by blast
    moreover have "p < length (cu_rows c)" using n(1,2) by auto
    then have "[Suc (cu_pos c) ..< length (cu_rows c)] ! (i - Suc (cu_pos c)) = i"
      using that by (subst nth_upt) auto
    ultimately show ?thesis by simp
  qed
  then show ?thesis using assms Some n(1-3) by (auto simp: seek_row_def)
qed

end
