(* ===== verification/Driver_Exec.thy ===== *)
theory Driver_Exec
  imports Driver_State
begin

text \<open>
  How the driver executes one request, \<open>execute_op\<close> and \<open>execute_op_inner\<close> of
  \<open>boa_idb/src/driver.rs\<close> with the routines that read rows: every request runs between a savepoint
  of the backend transaction and of its key generators, committed when the operation succeeds and
  rolled back when it fails.
\<close>

section \<open>Reading\<close>

definition decode_key_at :: "bytes \<Rightarrow> op_fault + key" where
  "decode_key_at bs = map_err (\<lambda>e. Fails IdbData) (rbind (decode_key bs) (\<lambda>(k, _). Inr k))"

definition decode_value :: "limit_config \<Rightarrow> 'b bigint_ops \<Rightarrow> bytes \<Rightarrow> op_fault + 'b scvalue" where
  "decode_value lim Bg bs = map_err (scf_err IdbData) (decode_scf lim Bg bs)"

text \<open>A failing \<open>seek\<close> counts as no record here: \<open>unwrap_or(false)\<close>.\<close>

definition first_value ::
    "('t, 'c) backend_txn \<Rightarrow> limit_config \<Rightarrow> 'b bigint_ops \<Rightarrow> 't \<Rightarrow> source_ref \<Rightarrow> range_data \<Rightarrow>
       op_fault + 'b scvalue option \<times> nat" where
  "first_value B lim Bg t source rng =
     rbind (to_encoded lim rng) (\<lambda>encoded.
     rbind (map_err backend_err (bk_scan B t source encoded Next True)) (\<lambda>c.
     case bk_seek B t SeekFirst c of
       (Inr True, c) \<Rightarrow>
         rbind (decode_key_at (bk_current_primary_key B c)) (\<lambda>pk.
         rbind (enc_key lim pk) (\<lambda>pk_bytes.
         rbind (map_err backend_err (bk_get B t (store_of source) pk_bytes)) (\<lambda>r.
         case r of
           Some bs \<Rightarrow> rbind (decode_value lim Bg bs) (\<lambda>sc. Inr (Some sc, length bs))
         | None \<Rightarrow> Inr (None, 0))))
     | _ \<Rightarrow> Inr (None, 0)))"

definition first_key ::
    "('t, 'c) backend_txn \<Rightarrow> limit_config \<Rightarrow> 't \<Rightarrow> source_ref \<Rightarrow> range_data \<Rightarrow> op_fault + key option" where
  "first_key B lim t source rng =
     rbind (to_encoded lim rng) (\<lambda>encoded.
     rbind (map_err backend_err (bk_scan B t source encoded Next True)) (\<lambda>c.
     case bk_seek B t SeekFirst c of
       (Inr True, c) \<Rightarrow> rbind (decode_key_at (bk_current_primary_key B c)) (\<lambda>k. Inr (Some k))
     | _ \<Rightarrow> Inr None))"

text \<open>A scan of a range that reads one value per row.\<close>

definition scan_rows ::
    "('t, 'c) backend_txn \<Rightarrow> limit_config \<Rightarrow> 't \<Rightarrow> source_ref \<Rightarrow> range_data \<Rightarrow> direction \<Rightarrow> bool \<Rightarrow>
       ('c \<Rightarrow> op_fault + 'r) \<Rightarrow> nat option \<Rightarrow> (op_fault + 'r list) option" where
  "scan_rows B lim t source rng dir key_only row limit =
     (case rbind (to_encoded lim rng) (\<lambda>encoded. map_err backend_err (bk_scan B t source encoded dir key_only)) of
        Inl f \<Rightarrow> Some (Inl f)
      | Inr c \<Rightarrow> scan_loop B row limit t (bk_seek B t SeekFirst c) [])"

definition collect_keys ::
    "('t, 'c) backend_txn \<Rightarrow> limit_config \<Rightarrow> 't \<Rightarrow> source_ref \<Rightarrow> range_data \<Rightarrow> nat option \<Rightarrow>
       (op_fault + key list) option" where
  "collect_keys B lim t source rng limit =
     scan_rows B lim t source rng Next True (\<lambda>c. decode_key_at (bk_current_primary_key B c)) limit"

fun fetch_values ::
    "('t, 'c) backend_txn \<Rightarrow> limit_config \<Rightarrow> 'b bigint_ops \<Rightarrow> 't \<Rightarrow> store_id \<Rightarrow> nat option \<Rightarrow> bytes list \<Rightarrow>
       'b scvalue list \<Rightarrow> nat \<Rightarrow> op_fault + 'b scvalue list \<times> nat" where
  "fetch_values B lim Bg t store limit [] out read = Inr (out, read)"
| "fetch_values B lim Bg t store limit (pk_bytes # pks) out read =
     rbind (map_err backend_err (bk_get B t store pk_bytes)) (\<lambda>r.
     rbind (case r of
              None \<Rightarrow> Inr (out, read)
            | Some bs \<Rightarrow> rbind (decode_value lim Bg bs) (\<lambda>sc. Inr (out @ [sc], usize_add read (length bs))))
       (\<lambda>(out, read).
          if reached limit (length out) then Inr (out, read)
          else fetch_values B lim Bg t store limit pks out read))"

definition collect_values ::
    "('t, 'c) backend_txn \<Rightarrow> limit_config \<Rightarrow> 'b bigint_ops \<Rightarrow> 't \<Rightarrow> source_ref \<Rightarrow> range_data \<Rightarrow> nat option \<Rightarrow>
       (op_fault + 'b scvalue list \<times> nat) option" where
  "collect_values B lim Bg t source rng limit =
     map_option (\<lambda>r. rbind r (\<lambda>pks. fetch_values B lim Bg t (store_of source) limit pks [] 0))
       (scan_rows B lim t source rng Next True
          (\<lambda>c. rbind (decode_key_at (bk_current_primary_key B c)) (enc_key lim)) limit)"

definition read_row ::
    "('t, 'c) backend_txn \<Rightarrow> limit_config \<Rightarrow> 'b bigint_ops \<Rightarrow> bool \<Rightarrow> 'c \<Rightarrow> op_fault + 'b row \<times> nat" where
  "read_row B lim Bg key_only c =
     rbind (decode_key_at (bk_current_key B c)) (\<lambda>key.
     rbind (decode_key_at (bk_current_primary_key B c)) (\<lambda>pk.
     rbind (if key_only then Inr (None, 0)
            else case bk_current_value B c of
              None \<Rightarrow> Inr (None, 0)
            | Some bs \<Rightarrow> rbind (decode_value lim Bg bs) (\<lambda>v. Inr (Some v, length bs)))
       (\<lambda>(v, n). Inr (\<lparr>rw_key = key, rw_primary_key = pk, rw_value = v\<rparr>, n))))"

definition materialize ::
    "('t, 'c) backend_txn \<Rightarrow> limit_config \<Rightarrow> 'b bigint_ops \<Rightarrow> 't \<Rightarrow> source_ref \<Rightarrow> range_data \<Rightarrow> direction \<Rightarrow>
       bool \<Rightarrow> (op_fault + 'b row list \<times> nat) option" where
  "materialize B lim Bg t source rng dir key_only =
     map_option (\<lambda>r. rbind r (\<lambda>rows. Inr (map fst rows, fold (\<lambda>(_, n) read. usize_add read n) rows 0)))
       (scan_rows B lim t source rng dir key_only (read_row B lim Bg key_only) None)"

section \<open>Executing an operation\<close>

text \<open>\<open>d.txns.get_mut(&txn_id)\<close> and the backend of the handle, which must both be there.\<close>

definition backend_of :: "('t, 'b) driver \<Rightarrow> txn_id \<Rightarrow> op_fault + 't" where
  "backend_of d i =
     (case dr_txns d i of
        None \<Rightarrow> Inl (Fails IdbTransactionInactive)
      | Some h \<Rightarrow> (case th_backend h of None \<Rightarrow> Inl (Fails IdbTransactionInactive) | Some t \<Rightarrow> Inr t))"

definition set_backend :: "txn_id \<Rightarrow> 't \<Rightarrow> ('t, 'b) driver \<Rightarrow> ('t, 'b) driver" where
  "set_backend i t = with_handle i (\<lambda>h. h\<lparr>th_backend := Some t\<rparr>)"

definition find_store :: "database_meta \<Rightarrow> store_id \<Rightarrow> op_fault + store_meta" where
  "find_store meta i =
     (case find (\<lambda>s. st_id s = i) (db_stores meta) of None \<Rightarrow> Inl (Fails IdbNotFound) | Some s \<Rightarrow> Inr s)"

definition set_keygen :: "store_id \<Rightarrow> key_generator \<Rightarrow> (store_id \<times> key_generator) list \<Rightarrow> (store_id \<times> key_generator) list" where
  "set_keygen i g = map (\<lambda>(j, g'). (j, if j = i then g else g'))"

text \<open>The common end of \<open>Put\<close> and \<open>Update\<close>: the generator of the store, made and opened where the
  transaction had none, and \<open>ops_store::put\<close>.\<close>

definition put_through ::
    "('t, 'c) backend_txn \<Rightarrow> limit_config \<Rightarrow> 'b bigint_ops \<Rightarrow> txn_id \<Rightarrow> store_meta \<Rightarrow> 'b scvalue \<Rightarrow>
       key option \<Rightarrow> bool \<Rightarrow> ('t, 'b) driver \<Rightarrow> (op_fault + 'b op_exec) \<times> ('t, 'b) driver" where
  "put_through B lim Bg i meta v explicit_key no_overwrite d =
     (case backend_of d i of
        Inl f \<Rightarrow> (Inl f, d)
      | Inr t \<Rightarrow>
          let store = st_id meta;
              base = (case bk_key_gen_current B t store of Inl _ \<Rightarrow> st_key_gen meta | Inr x \<Rightarrow> x);
              keygens = (case dr_txns d i of None \<Rightarrow> [] | Some h \<Rightarrow> th_keygens h);
              (keygens, g) = (case map_of keygens store of
                                Some g \<Rightarrow> (keygens, g)
                              | None \<Rightarrow> let g = kg_begin_request (kg_new base) in (keygens @ [(store, g)], g));
              (r, t, g, _) = os_put B lim Bg meta explicit_key no_overwrite (t, g, v);
              d = with_handle i (\<lambda>h. h\<lparr>th_backend := Some t, th_keygens := set_keygen store g keygens\<rparr>) d
          in case r of
               Inl f \<Rightarrow> (Inl f, d)
             | Inr res \<Rightarrow> (Inr (ExecOutcome (OutKey (pr_key res))), add_bytes_written i (pr_value_bytes res) d))"

definition delete_through ::
    "('t, 'c) backend_txn \<Rightarrow> txn_id \<Rightarrow> store_meta \<Rightarrow> encoded_range \<Rightarrow> ('t, 'b) driver \<Rightarrow>
       ((op_fault + 'b op_exec) \<times> ('t, 'b) driver) option" where
  "delete_through B i meta rng d =
     (case backend_of d i of
        Inl f \<Rightarrow> Some (Inl f, d)
      | Inr t \<Rightarrow>
          map_option (\<lambda>(r, t). (rbind r (\<lambda>_. Inr (ExecOutcome OutEmpty)), set_backend i t d)) (os_delete B meta rng t))"

definition cursor_row_of :: "('t, 'b) driver \<Rightarrow> cursor_id \<Rightarrow> op_fault + store_id \<times> key" where
  "cursor_row_of d cid =
     (case dr_cursors d cid of
        None \<Rightarrow> Inl (Fails IdbInvalidState)
      | Some c \<Rightarrow>
          (case cu_current c of
             None \<Rightarrow> Inl (Fails IdbInvalidState)
           | Some r \<Rightarrow> Inr (store_of (cu_source c), rw_primary_key r)))"

text \<open>What \<open>update\<close> stores into and under which explicit key: none for a store with a key path, whose
  key must then not change.\<close>

definition update_target ::
    "database_meta \<Rightarrow> cursor_id \<Rightarrow> 'b scvalue \<Rightarrow> ('t, 'b) driver \<Rightarrow> op_fault + store_meta \<times> key option" where
  "update_target meta cid v d =
     rbind (cursor_row_of d cid) (\<lambda>(store, pkey).
     rbind (find_store meta store) (\<lambda>store_meta.
       if st_key_path store_meta = PathEmpty then Inr (store_meta, Some pkey)
       else
         rbind (map_err key_err (kp_extract (st_key_path store_meta) v)) (\<lambda>r.
           case r of
             Some k \<Rightarrow> if \<not> key_eq k pkey then Inl (Fails IdbData) else Inr (store_meta, None)
           | None \<Rightarrow> Inr (store_meta, None))))"

definition exec_update ::
    "('t, 'c) backend_txn \<Rightarrow> limit_config \<Rightarrow> 'b bigint_ops \<Rightarrow> txn_id \<Rightarrow> database_meta \<Rightarrow> cursor_id \<Rightarrow>
       'b scvalue \<Rightarrow> ('t, 'b) driver \<Rightarrow> (op_fault + 'b op_exec) \<times> ('t, 'b) driver" where
  "exec_update B lim Bg i meta cid v d =
     (case update_target meta cid v d of
        Inl f \<Rightarrow> (Inl f, d)
      | Inr (store_meta, explicit_key) \<Rightarrow> put_through B lim Bg i store_meta v explicit_key False d)"

text \<open>The operations that only read the backend.\<close>

definition exec_read ::
    "('t, 'c) backend_txn \<Rightarrow> limit_config \<Rightarrow> 'b bigint_ops \<Rightarrow> txn_id \<Rightarrow> 'b pending_op \<Rightarrow> ('t, 'b) driver \<Rightarrow>
       (op_fault + 'b raw_outcome \<times> nat) option" where
  "exec_read B lim Bg i op d =
     (case op of
        OpGet source rng \<Rightarrow>
          Some (rbind (backend_of d i) (\<lambda>t. rbind (first_value B lim Bg t source rng) (\<lambda>(v, n). Inr (OutValue v, n))))
      | OpCount source rng \<Rightarrow>
          Some (rbind (to_encoded lim rng) (\<lambda>encoded. rbind (backend_of d i) (\<lambda>t.
            rbind (map_err backend_err (bk_count B t source encoded)) (\<lambda>n. Inr (OutCount n, 0)))))
      | OpGetKey source rng \<Rightarrow>
          Some (rbind (backend_of d i) (\<lambda>t. rbind (first_key B lim t source rng) (\<lambda>k.
            Inr (case k of Some k \<Rightarrow> OutKey k | None \<Rightarrow> OutValue None, 0))))
      | OpGetAll source rng limit keys_only \<Rightarrow>
          (case backend_of d i of
             Inl f \<Rightarrow> Some (Inl f)
           | Inr t \<Rightarrow>
               if keys_only
               then map_option (\<lambda>r. rbind r (\<lambda>ks. Inr (OutKeys ks, 0))) (collect_keys B lim t source rng limit)
               else map_option (\<lambda>r. rbind r (\<lambda>(vs, n). Inr (OutValues vs, n)))
                      (collect_values B lim Bg t source rng limit))
      | OpGetAllRecords source rng limit dir \<Rightarrow>
          (case backend_of d i of
             Inl f \<Rightarrow> Some (Inl f)
           | Inr t \<Rightarrow>
               map_option (\<lambda>r. rbind r (\<lambda>(rows, n).
                   Inr (OutRecords (case limit of None \<Rightarrow> rows | Some l \<Rightarrow> take l rows), n)))
                 (materialize B lim Bg t source rng dir False))
      | _ \<Rightarrow> Some (Inr (OutEmpty, 0)))"

definition exec_open_cursor ::
    "('t, 'c) backend_txn \<Rightarrow> limit_config \<Rightarrow> 'b bigint_ops \<Rightarrow> txn_id \<Rightarrow> request_id \<Rightarrow> source_ref \<Rightarrow> range_data \<Rightarrow>
       direction \<Rightarrow> bool \<Rightarrow> ('t, 'b) driver \<Rightarrow> ((op_fault + 'b op_exec) \<times> ('t, 'b) driver) option" where
  "exec_open_cursor B lim Bg i request_id source rng dir key_only d =
     (let (cid, d) = alloc_cursor d in
      case backend_of d i of
        Inl f \<Rightarrow> Some (Inl f, d)
      | Inr t \<Rightarrow>
          map_option (\<lambda>r. case r of
              Inl f \<Rightarrow> (Inl f, d)
            | Inr (rows, n) \<Rightarrow>
                let d = add_bytes_read i n d;
                    c = \<lparr>cu_cursor_id = cid, cu_txn_id = i, cu_request_id = request_id, cu_source = source,
                         cu_direction = dir, cu_key_only = key_only, cu_rows = rows, cu_pos = 0, cu_pending = False\<rparr>
                in (Inr (ExecCursorOpened cid), d\<lparr>dr_cursors := (dr_cursors d)(cid \<mapsto> c)\<rparr>))
            (materialize B lim Bg t source rng dir key_only))"

definition exec_cursor_op ::
    "('t, 'c) backend_txn \<Rightarrow> limit_config \<Rightarrow> 'b bigint_ops \<Rightarrow> txn_id \<Rightarrow> database_meta \<Rightarrow> cursor_id \<Rightarrow>
       'b cursor_action \<Rightarrow> ('t, 'b) driver \<Rightarrow> ((op_fault + 'b op_exec) \<times> ('t, 'b) driver) option" where
  "exec_cursor_op B lim Bg i meta cid action d =
     (case action of
        ActUpdate v \<Rightarrow> Some (exec_update B lim Bg i meta cid v d)
      | ActDelete \<Rightarrow>
          (case rbind (cursor_row_of d cid) (\<lambda>(store, pkey).
                  rbind (find_store meta store) (\<lambda>store_meta.
                  rbind (enc_key lim pkey) (\<lambda>pk. Inr (store_meta, pk)))) of
             Inl f \<Rightarrow> Some (Inl f, d)
           | Inr (store_meta, pk) \<Rightarrow> delete_through B i store_meta (range_only pk) d)
      | _ \<Rightarrow>
          Some (case dr_cursors d cid of
                  None \<Rightarrow> (Inl (Fails IdbInvalidState), d)
                | Some c \<Rightarrow>
                    let (more, c) = apply_cursor_action action c
                    in (Inr (ExecCursorContinued cid (\<not> more)), d\<lparr>dr_cursors := (dr_cursors d)(cid \<mapsto> c)\<rparr>)))"

definition execute_op_inner ::
    "('t, 'c) backend_txn \<Rightarrow> limit_config \<Rightarrow> 'b bigint_ops \<Rightarrow> txn_id \<Rightarrow> request_id \<Rightarrow> 'b pending_op \<Rightarrow>
       ('t, 'b) driver \<Rightarrow> ((op_fault + 'b op_exec) \<times> ('t, 'b) driver) option" where
  "execute_op_inner B lim Bg i request_id op d =
     (case dr_txns d i of
        None \<Rightarrow> Some (Inl (Fails IdbTransactionInactive), d)
      | Some h \<Rightarrow>
          if th_finished h then Some (Inl (Fails IdbTransactionInactive), d)
          else
            let meta = th_meta h in
            (case op of
               OpPut store v explicit_key no_overwrite \<Rightarrow>
                 Some (case find_store meta store of
                         Inl f \<Rightarrow> (Inl f, d)
                       | Inr store_meta \<Rightarrow> put_through B lim Bg i store_meta v explicit_key no_overwrite d)
             | OpDelete store rng \<Rightarrow>
                 (case rbind (find_store meta store) (\<lambda>s. rbind (to_encoded lim rng) (\<lambda>encoded. Inr (s, encoded))) of
                    Inl f \<Rightarrow> Some (Inl f, d)
                  | Inr (store_meta, encoded) \<Rightarrow> delete_through B i store_meta encoded d)
             | OpClear store \<Rightarrow>
                 (case rbind (find_store meta store) (\<lambda>s. rbind (backend_of d i) (\<lambda>t. Inr (s, t))) of
                    Inl f \<Rightarrow> Some (Inl f, d)
                  | Inr (store_meta, t) \<Rightarrow>
                      map_option (\<lambda>(r, t). (rbind r (\<lambda>_. Inr (ExecOutcome OutEmpty)), set_backend i t d))
                        (os_clear B store_meta t))
             | OpOpenCursor source rng dir key_only \<Rightarrow>
                 exec_open_cursor B lim Bg i request_id source rng dir key_only d
             | OpCursorOp cid action \<Rightarrow> exec_cursor_op B lim Bg i meta cid action d
             | _ \<Rightarrow>
                 map_option (\<lambda>r. case r of
                     Inl f \<Rightarrow> (Inl f, d)
                   | Inr (out, n) \<Rightarrow> (Inr (ExecOutcome out), add_bytes_read i n d))
                   (exec_read B lim Bg i op d)))"

section \<open>Savepoints\<close>

definition each_keygen :: "(key_generator \<Rightarrow> key_generator) \<Rightarrow> (store_id \<times> key_generator) list \<Rightarrow> (store_id \<times> key_generator) list" where
  "each_keygen f = map (\<lambda>(i, g). (i, f g))"

fun commit_keygens :: "(store_id \<times> key_generator) list \<Rightarrow> (idb_error + unit) \<times> (store_id \<times> key_generator) list" where
  "commit_keygens [] = (Inr (), [])"
| "commit_keygens ((i, g) # gs) =
     (case kg_commit_request g of
        (Inl e, g) \<Rightarrow> (Inl e, (i, g) # gs)
      | (Inr _, g) \<Rightarrow> (case commit_keygens gs of (r, gs) \<Rightarrow> (r, (i, g) # gs)))"

text \<open>Phase A opens the savepoints, phase C closes them; a failed commit of the backend leaves the
  generators as they are.\<close>

definition open_savepoints ::
    "('t, 'c) backend_txn \<Rightarrow> txn_id \<Rightarrow> ('t, 'b) driver \<Rightarrow> (op_fault + unit) \<times> ('t, 'b) driver" where
  "open_savepoints B i d =
     (case backend_of d i of
        Inl f \<Rightarrow> (Inl f, d)
      | Inr t \<Rightarrow>
          (case bk_begin_request B t of
             (Inl e, t) \<Rightarrow> (Inl (backend_err e), set_backend i t d)
           | (Inr _, t) \<Rightarrow>
               (Inr (), with_handle i (\<lambda>h. h\<lparr>th_backend := Some t, th_keygens := each_keygen kg_begin_request (th_keygens h)\<rparr>) d)))"

definition close_savepoints ::
    "('t, 'c) backend_txn \<Rightarrow> txn_id \<Rightarrow> bool \<Rightarrow> ('t, 'b) driver \<Rightarrow> (op_fault + unit) \<times> ('t, 'b) driver" where
  "close_savepoints B i success d =
     (case dr_txns d i of
        None \<Rightarrow> (Inl (Fails IdbTransactionInactive), d)
      | Some h \<Rightarrow>
          if success then
            (case (case th_backend h of
                     None \<Rightarrow> (Inr (), h)
                   | Some t \<Rightarrow> (case bk_commit_request B t of
                        (Inl e, t) \<Rightarrow> (Inl (backend_err e), h\<lparr>th_backend := Some t\<rparr>)
                      | (Inr _, t) \<Rightarrow> (Inr (), h\<lparr>th_backend := Some t\<rparr>))) of
               (Inl f, h) \<Rightarrow> (Inl f, d\<lparr>dr_txns := (dr_txns d)(i \<mapsto> h)\<rparr>)
             | (Inr _, h) \<Rightarrow>
                 (case commit_keygens (th_keygens h) of
                    (r, gs) \<Rightarrow> (map_err Fails r, d\<lparr>dr_txns := (dr_txns d)(i \<mapsto> h\<lparr>th_keygens := gs\<rparr>)\<rparr>)))
          else
            let t' = (case th_backend h of None \<Rightarrow> None | Some t \<Rightarrow> Some (snd (bk_rollback_request B t)))
            in (Inr (), d\<lparr>dr_txns := (dr_txns d)(i \<mapsto>
                  h\<lparr>th_backend := t', th_keygens := each_keygen (\<lambda>g. snd (kg_rollback_request g)) (th_keygens h)\<rparr>)\<rparr>))"

text \<open>A panic unwinds through both phases.\<close>

definition execute_op ::
    "('t, 'c) backend_txn \<Rightarrow> limit_config \<Rightarrow> 'b bigint_ops \<Rightarrow> txn_id \<Rightarrow> request_id \<Rightarrow> 'b pending_op \<Rightarrow>
       ('t, 'b) driver \<Rightarrow> ((op_fault + 'b op_exec) \<times> ('t, 'b) driver) option" where
  "execute_op B lim Bg i request_id op d =
     (case open_savepoints B i d of
        (Inl f, d) \<Rightarrow> Some (Inl f, d)
      | (Inr _, d) \<Rightarrow>
          map_option (\<lambda>(result, d).
              if result = Inl Panics then (result, d)
              else
                (case close_savepoints B i (is_ok result) d of
                   (Inl f, d) \<Rightarrow> (Inl f, d)
                 | (Inr _, d) \<Rightarrow> (result, d)))
            (execute_op_inner B lim Bg i request_id op d))"

end
