(* ===== verification/Index_Consistency.thy ===== *)
theory Index_Consistency
  imports Store_Ops
begin

text \<open>
  The index entries of a store are exactly those its records derive, and the unique indexes have no
  duplicates: the invariant that \<open>put\<close>, \<open>delete\<close> and \<open>clear\<close> of \<open>engine/ops_store.rs\<close> keep. It is
  proved once, from the laws of the storage backend.
\<close>

section \<open>The invariant\<close>

definition derived_keys :: "limit_config \<Rightarrow> 'b bigint_ops \<Rightarrow> index_meta \<Rightarrow> bytes \<Rightarrow> bytes set" where
  "derived_keys lim Bg index bs =
     (case decode_scf lim Bg bs of
        Inl _ \<Rightarrow> {}
      | Inr v \<Rightarrow> (case index_keys_for_value lim index v of Inl _ \<Rightarrow> {} | Inr ks \<Rightarrow> set ks))"

definition index_agrees ::
    "limit_config \<Rightarrow> 'b bigint_ops \<Rightarrow> store_id \<Rightarrow> (store_id \<times> bytes \<rightharpoonup> bytes) \<Rightarrow>
       (index_id \<times> bytes \<times> bytes) set \<Rightarrow> index_meta \<Rightarrow> bool" where
  "index_agrees lim Bg store R I index \<longleftrightarrow>
     (\<forall>pk. {ik. (ix_id index, ik, pk) \<in> I} =
        (case R (store, pk) of None \<Rightarrow> {} | Some bs \<Rightarrow> derived_keys lim Bg index bs)) \<and>
     (ix_unique index \<longrightarrow> unique_index I (ix_id index))"

definition live_indexes :: "store_meta \<Rightarrow> index_meta set" where
  "live_indexes meta = {index \<in> set (st_indexes meta). \<not> ix_deleted index}"

definition indexes_agree ::
    "limit_config \<Rightarrow> 'b bigint_ops \<Rightarrow> store_meta \<Rightarrow> (store_id \<times> bytes \<rightharpoonup> bytes) \<Rightarrow>
       (index_id \<times> bytes \<times> bytes) set \<Rightarrow> bool" where
  "indexes_agree lim Bg meta R I \<longleftrightarrow> (\<forall>index \<in> live_indexes meta. index_agrees lim Bg (st_id meta) R I index)"

text \<open>A value that the structured-clone format brings back as it was.\<close>

definition reads_back :: "limit_config \<Rightarrow> 'b bigint_ops \<Rightarrow> 'b scvalue \<Rightarrow> bool" where
  "reads_back lim Bg v \<longleftrightarrow> (case encode_scf lim Bg v of Inl _ \<Rightarrow> True | Inr bs \<Rightarrow> decode_scf lim Bg bs = Inr v)"

section \<open>Sets of entries\<close>

definition entries_of :: "index_id \<Rightarrow> bytes \<Rightarrow> bytes set \<Rightarrow> (index_id \<times> bytes \<times> bytes) set" where
  "entries_of i pk K = {(i, ik, pk) | ik. ik \<in> K}"

lemma entries_of_iff [simp]: "(j, ik, q) \<in> entries_of i pk K \<longleftrightarrow> j = i \<and> q = pk \<and> ik \<in> K"
  by (auto simp: entries_of_def)

lemma unique_index_mono: "unique_index I i \<Longrightarrow> I' \<subseteq> I \<Longrightarrow> unique_index I' i"
  unfolding unique_index_def by blast

lemma unique_index_insert:
  "unique_index I i \<Longrightarrow> (i, ik, pk) \<in> I \<or> (\<forall>q. (i, ik, q) \<notin> I) \<Longrightarrow> unique_index (insert (i, ik, pk) I) i"
  unfolding unique_index_def by blast

lemma unique_index_cong:
  "(\<And>ik pk. (i, ik, pk) \<in> I \<longleftrightarrow> (i, ik, pk) \<in> I') \<Longrightarrow> unique_index I i = unique_index I' i"
  unfolding unique_index_def by simp

section \<open>Synchronizing the indexes\<close>

context storage_backend
begin

text \<open>What a successful computation leaves: the same records and generators, and other entries.\<close>

definition only_entries :: "'t \<Rightarrow> 't \<Rightarrow> bool" where
  "only_entries t t' \<longleftrightarrow> recs t' = recs t \<and> gen t' = gen t"

lemma only_entries_trans: "only_entries a b \<Longrightarrow> only_entries b c \<Longrightarrow> only_entries a c"
  by (simp add: only_entries_def)

lemma only_entries_refl [simp]: "only_entries t t"
  by (simp add: only_entries_def)

lemma removal_loop:
  assumes "for_each f xs t = (Inr (), t')"
    and "\<And>x t t'. x \<in> set xs \<Longrightarrow> f x t = (Inr (), t') \<Longrightarrow> only_entries t t' \<and> idx t' = idx t - D x"
  shows "only_entries t t' \<and> idx t' = idx t - (\<Union>x \<in> set xs. D x)"
  using assms
proof (induction xs arbitrary: t)
  case (Cons x xs)
  then obtain u where u: "f x t = (Inr (), u)" "for_each f xs u = (Inr (), t')" by (auto simp: sbind_Inr)
  have "only_entries t u \<and> idx u = idx t - D x" using Cons.prems(2) [OF _ u(1)] by simp
  moreover have "only_entries u t' \<and> idx t' = idx u - (\<Union>x \<in> set xs. D x)"
    by (rule Cons.IH [OF u(2)]) (rule Cons.prems(2), auto)
  ultimately show ?case using only_entries_trans [of t u t'] by (simp add: Diff_Un Diff_eq Int_ac)
qed simp

lemma delete_loop:
  assumes "for_each (\<lambda>old t. if old \<notin> N then oi_delete B i old pk t else (Inr (), t)) xs t = (Inr (), t')"
  shows "only_entries t t' \<and> idx t' = idx t - entries_of i pk (set xs - N)"
proof -
  have "only_entries t t' \<and> idx t' = idx t - (\<Union>x \<in> set xs. entries_of i pk ({x} - N))"
  proof (rule removal_loop [OF assms])
    fix x t t'
    assume "(if x \<notin> N then oi_delete B i x pk t else (Inr (), t)) = (Inr (), t')"
    then show "only_entries t t' \<and> idx t' = idx t - entries_of i pk ({x} - N)"
      using index_delete_law [of t i x pk _ t']
      by (cases "x \<in> N") (auto simp: oi_delete_def only_entries_def entries_of_def)
  qed
  moreover have "(\<Union>x \<in> set xs. entries_of i pk ({x} - N)) = entries_of i pk (set xs - N)"
    by (auto simp: entries_of_def)
  ultimately show ?thesis by simp
qed

lemma insert_loop:
  assumes "for_each (\<lambda>new t. if new \<notin> N then oi_put B i new pk unique t else (Inr (), t)) xs t = (Inr (), t')"
  shows "only_entries t t' \<and> idx t' = idx t \<union> entries_of i pk (set xs - N) \<and>
    (unique \<longrightarrow> unique_index (idx t) i \<longrightarrow> unique_index (idx t') i)"
  using assms
proof (induction xs arbitrary: t)
  case (Cons x xs)
  have same: "set (x # xs) - N = set xs - N" if "x \<in> N" using that by auto
  show ?case
  proof (cases "x \<in> N")
    case True
    with Cons.prems have "for_each (\<lambda>new t. if new \<notin> N then oi_put B i new pk unique t else (Inr (), t)) xs t = (Inr (), t')"
      by simp
    from Cons.IH [OF this] show ?thesis unfolding same [OF True] .
  next
    case False
    with Cons.prems obtain u where u: "bk_index_put B t i x pk unique = (Inr (), u)"
      "for_each (\<lambda>new t. if new \<notin> N then oi_put B i new pk unique t else (Inr (), t)) xs u = (Inr (), t')"
      by (auto simp: sbind_Inr oi_put_def)
    have rest: "only_entries u t'" "idx t' = idx u \<union> entries_of i pk (set xs - N)"
      "unique \<longrightarrow> unique_index (idx u) i \<longrightarrow> unique_index (idx t') i"
      using Cons.IH [OF u(2)] by blast+
    have step: "only_entries t u" "idx u = insert (i, x, pk) (idx t)"
      "unique \<longrightarrow> unique_index (idx t) i \<longrightarrow> unique_index (idx u) i"
      using index_put_law [OF u(1)] unique_index_insert by (auto simp: only_entries_def)
    have "entries_of i pk (set (x # xs) - N) = insert (i, x, pk) (entries_of i pk (set xs - N))"
      using False by (auto simp: entries_of_def)
    then have "idx t' = idx t \<union> entries_of i pk (set (x # xs) - N)" using rest(2) step(2) by simp
    then show ?thesis using rest(3) step(3) only_entries_trans [OF step(1) rest(1)] by blast
  qed
qed (simp add: entries_of_def)

lemma sync_index_effect:
  assumes "sync_index B lim old v pk index t = (Inr (), t')" "\<not> ix_deleted index"
    and "\<And>ks. (case old of Some w \<Rightarrow> index_keys_for_value lim index w | None \<Rightarrow> Inr []) = Inr ks \<Longrightarrow>
      {ik. (ix_id index, ik, pk) \<in> idx t} = set ks"
  obtains ks where "index_keys_for_value lim index v = Inr ks" "only_entries t t'"
    "\<And>j ik q. (j, ik, q) \<in> idx t' \<longleftrightarrow>
       (if j = ix_id index \<and> q = pk then ik \<in> set ks else (j, ik, q) \<in> idx t)"
    "ix_unique index \<longrightarrow> unique_index (idx t) (ix_id index) \<longrightarrow> unique_index (idx t') (ix_id index)"
proof -
  obtain olds news u where o: "(case old of Some w \<Rightarrow> index_keys_for_value lim index w | None \<Rightarrow> Inr []) = Inr olds"
    and n: "index_keys_for_value lim index v = Inr news"
    and d: "for_each (\<lambda>old t. if old \<notin> set news then oi_delete B (ix_id index) old pk t else (Inr (), t)) olds t = (Inr (), u)"
    and p: "for_each (\<lambda>new t. if new \<notin> set olds then oi_put B (ix_id index) new pk (ix_unique index) t
                               else (Inr (), t)) news u = (Inr (), t')"
    using assms(1,2) by (auto simp: sync_index_def sbind_Inr)
  note del = delete_loop [OF d] and ins = insert_loop [OF p]
  have "(j, ik, q) \<in> idx t' \<longleftrightarrow> (if j = ix_id index \<and> q = pk then ik \<in> set news else (j, ik, q) \<in> idx t)" for j ik q
    using del ins assms(3) [OF o] by auto
  moreover have "unique_index (idx t) (ix_id index) \<longrightarrow> unique_index (idx u) (ix_id index)"
    using del unique_index_mono by blast
  ultimately show ?thesis
    using that [OF n] del ins only_entries_trans by blast
qed

text \<open>The loop over the indexes: each live index ends up with the keys of the new value for this primary
  key, and nothing else changes.\<close>

definition synced_entries ::
    "limit_config \<Rightarrow> 'b scvalue \<Rightarrow> bytes \<Rightarrow> 't \<Rightarrow> 't \<Rightarrow> index_meta \<Rightarrow> bool" where
  "synced_entries lim v pk t t' index \<longleftrightarrow>
     (\<exists>ks. index_keys_for_value lim index v = Inr ks \<and> {ik. (ix_id index, ik, pk) \<in> idx t'} = set ks) \<and>
     (ix_unique index \<longrightarrow> unique_index (idx t) (ix_id index) \<longrightarrow> unique_index (idx t') (ix_id index))"

lemma sync_loop:
  assumes "for_each (sync_index B lim old v pk) ixs t = (Inr (), t')" "distinct (map ix_id ixs)"
    and "\<And>index ks. index \<in> set ixs \<Longrightarrow> \<not> ix_deleted index \<Longrightarrow>
      (case old of Some w \<Rightarrow> index_keys_for_value lim index w | None \<Rightarrow> Inr []) = Inr ks \<Longrightarrow>
      {ik. (ix_id index, ik, pk) \<in> idx t} = set ks"
  shows "only_entries t t' \<and>
    (\<forall>index \<in> set ixs. \<not> ix_deleted index \<longrightarrow> synced_entries lim v pk t t' index) \<and>
    (\<forall>j ik q. q \<noteq> pk \<or> j \<notin> ix_id ` {index \<in> set ixs. \<not> ix_deleted index} \<longrightarrow>
       ((j, ik, q) \<in> idx t' \<longleftrightarrow> (j, ik, q) \<in> idx t))"
  using assms
proof (induction ixs arbitrary: t)
  case (Cons index ixs)
  obtain u where u: "sync_index B lim old v pk index t = (Inr (), u)"
    "for_each (sync_index B lim old v pk) ixs u = (Inr (), t')"
    using Cons.prems(1) by (auto simp: sbind_Inr)
  show ?case
  proof (cases "ix_deleted index")
    case True
    then have "u = t" using u(1) by (simp add: sync_index_def)
    moreover have "{x \<in> set (index # ixs). \<not> ix_deleted x} = {x \<in> set ixs. \<not> ix_deleted x}" using True by auto
    ultimately show ?thesis using Cons.IH [OF u(2)] Cons.prems(2,3) True by simp
  next
    case False
    obtain ks where ks: "index_keys_for_value lim index v = Inr ks" "only_entries t u"
      "\<And>j ik q. (j, ik, q) \<in> idx u \<longleftrightarrow>
         (if j = ix_id index \<and> q = pk then ik \<in> set ks else (j, ik, q) \<in> idx t)"
      "ix_unique index \<longrightarrow> unique_index (idx t) (ix_id index) \<longrightarrow> unique_index (idx u) (ix_id index)"
      using sync_index_effect [OF u(1) False] Cons.prems(3) [OF _ False] by auto
    have fresh: "ix_id index \<notin> ix_id ` set ixs" using Cons.prems(2) by simp
    have other: "(ix_id x, ik, q) \<in> idx u \<longleftrightarrow> (ix_id x, ik, q) \<in> idx t" if "x \<in> set ixs" for x ik q
      using ks(3) that fresh by (metis image_eqI)
    have rest: "only_entries u t'"
      "\<forall>x \<in> set ixs. \<not> ix_deleted x \<longrightarrow> synced_entries lim v pk u t' x"
      "\<And>j ik q. q \<noteq> pk \<or> j \<notin> ix_id ` {x \<in> set ixs. \<not> ix_deleted x} \<Longrightarrow>
         (j, ik, q) \<in> idx t' \<longleftrightarrow> (j, ik, q) \<in> idx u"
      using Cons.IH [OF u(2)] Cons.prems(2,3) other by auto
    have "synced_entries lim v pk t t' x" if "x \<in> set ixs" "\<not> ix_deleted x" for x
      using rest(2) that unique_index_cong [of "ix_id x" "idx u" "idx t", OF other [OF that(1)]]
      by (auto simp: synced_entries_def)
    moreover have "synced_entries lim v pk t t' index"
    proof -
      have same: "(ix_id index, ik, q) \<in> idx t' \<longleftrightarrow> (ix_id index, ik, q) \<in> idx u" for ik q
        using rest(3) fresh by blast
      then have "unique_index (idx t') (ix_id index) = unique_index (idx u) (ix_id index)"
        by (rule unique_index_cong)
      then show ?thesis using ks(1,3,4) same by (simp add: synced_entries_def)
    qed
    moreover have "(j, ik, q) \<in> idx t' \<longleftrightarrow> (j, ik, q) \<in> idx t"
      if "q \<noteq> pk \<or> j \<notin> ix_id ` {x \<in> set (index # ixs). \<not> ix_deleted x}" for j ik q
    proof -
      have "(j, ik, q) \<in> idx t' \<longleftrightarrow> (j, ik, q) \<in> idx u" using that by (intro rest(3)) auto
      moreover have "(j, ik, q) \<in> idx u \<longleftrightarrow> (j, ik, q) \<in> idx t" using that False by (auto simp: ks(3))
      ultimately show ?thesis by simp
    qed
    ultimately show ?thesis using only_entries_trans [OF ks(2) rest(1)] by auto
  qed
qed simp

section \<open>Put\<close>

lemma put_record_steps:
  assumes put: "put_record B lim Bg meta v key no_overwrite t = (Inr (inserted, n), t')"
  obtains k existing old u bs x where "encode_key_vec lim key = Inr k"
    "bk_get B t (st_id meta) k = Inr existing" "\<not> (no_overwrite \<and> existing \<noteq> None)"
    "decode_existing lim Bg existing = Inr old"
    "sync_indexes_on_put B lim meta old v key t = (Inr (), u)" "encode_scf lim Bg v = Inr bs"
    "bk_put B u (st_id meta) k bs no_overwrite = (Inr x, t')" "inserted = (existing = None)" "n = length bs"
proof -
  obtain k where k: "encode_key_vec lim key = Inr k" using put by (auto simp: put_record_def sbind_Inr)
  obtain existing where g: "bk_get B t (st_id meta) k = Inr existing"
    using put by (auto simp: put_record_def sbind_Inr k)
  have no: "\<not> (no_overwrite \<and> existing \<noteq> None)" using put by (auto simp: put_record_def sbind_Inr k g split: if_splits)
  obtain old where old: "decode_existing lim Bg existing = Inr old"
    using put no by (auto simp: put_record_def sbind_Inr k g split: if_splits)
  obtain u where u: "sync_indexes_on_put B lim meta old v key t = (Inr (), u)"
    using put no by (auto simp: put_record_def sbind_Inr k g old split: if_splits)
  obtain bs where bs: "encode_scf lim Bg v = Inr bs"
    using put no by (auto simp: put_record_def sbind_Inr k g old u split: if_splits)
  show ?thesis
    using put no that [OF k g no old u bs]
    by (auto simp: put_record_def sbind_Inr k g old u bs split: if_splits)
qed

lemma existing_keys:
  assumes "decode_existing lim Bg existing = Inr old"
    and "(case old of Some w \<Rightarrow> index_keys_for_value lim index w | None \<Rightarrow> Inr []) = Inr ks"
  shows "(case existing of None \<Rightarrow> {} | Some bs \<Rightarrow> derived_keys lim Bg index bs) = set ks"
proof (cases existing)
  case (Some bs)
  then obtain w where "decode_scf lim Bg bs = Inr w" "old = Some w"
    using assms(1) by (auto simp: decode_existing_def)
  then show ?thesis using assms(2) Some by (simp add: derived_keys_def)
qed (use assms in \<open>simp add: decode_existing_def\<close>)

lemma put_record_effect:
  assumes put: "put_record B lim Bg meta v key no_overwrite t = (Inr (inserted, n), t')"
    and ids: "distinct (map ix_id (st_indexes meta))"
    and agree: "indexes_agree lim Bg meta (recs t) (idx t)" and "reads_back lim Bg v"
  obtains k bs where "encode_key_vec lim key = Inr k" "encode_scf lim Bg v = Inr bs"
    "recs t' = (recs t)((st_id meta, k) \<mapsto> bs)" "gen t' = gen t"
    "indexes_agree lim Bg meta (recs t') (idx t')"
    "inserted \<longleftrightarrow> recs t (st_id meta, k) = None" "no_overwrite \<longrightarrow> inserted" "n = length bs"
    "\<forall>j ik q. j \<notin> ix_id ` live_indexes meta \<longrightarrow> ((j, ik, q) \<in> idx t' \<longleftrightarrow> (j, ik, q) \<in> idx t)"
proof -
  let ?R = "recs t" and ?st = "st_id meta"
  obtain k existing old u bs x where k: "encode_key_vec lim key = Inr k"
    and g: "bk_get B t ?st k = Inr existing" and no: "\<not> (no_overwrite \<and> existing \<noteq> None)"
    and old: "decode_existing lim Bg existing = Inr old"
    and sync: "sync_indexes_on_put B lim meta old v key t = (Inr (), u)"
    and bs: "encode_scf lim Bg v = Inr bs" and put: "bk_put B u ?st k bs no_overwrite = (Inr x, t')"
    and r: "inserted = (existing = None)" "n = length bs"
    using put_record_steps [OF put] .
  have ex: "existing = ?R (?st, k)" using get_law [OF g] .
  have loop: "for_each (sync_index B lim old v k) (st_indexes meta) t = (Inr (), u)"
    using sync by (simp add: sync_indexes_on_put_def k)
  have entries: "{ik. (ix_id index, ik, k) \<in> idx t} = set ks"
    if "index \<in> set (st_indexes meta)" "\<not> ix_deleted index"
      "(case old of Some w \<Rightarrow> index_keys_for_value lim index w | None \<Rightarrow> Inr []) = Inr ks" for index ks
  proof -
    have "{ik. (ix_id index, ik, k) \<in> idx t} =
        (case existing of None \<Rightarrow> {} | Some bs \<Rightarrow> derived_keys lim Bg index bs)"
      using agree that(1,2) by (simp add: indexes_agree_def index_agrees_def live_indexes_def ex)
    then show ?thesis unfolding existing_keys [OF old that(3)] .
  qed
  have looped: "only_entries t u \<and>
      (\<forall>index \<in> set (st_indexes meta). \<not> ix_deleted index \<longrightarrow> synced_entries lim v k t u index) \<and>
      (\<forall>j ik q. q \<noteq> k \<or> j \<notin> ix_id ` {index \<in> set (st_indexes meta). \<not> ix_deleted index} \<longrightarrow>
         ((j, ik, q) \<in> idx u \<longleftrightarrow> (j, ik, q) \<in> idx t))"
    by (rule sync_loop [OF loop ids]) (rule entries)
  note only = looped [THEN conjunct1]
  have sy: "synced_entries lim v k t u index" if "index \<in> live_indexes meta" for index
    using looped [THEN conjunct2, THEN conjunct1] that unfolding live_indexes_def by blast
  have frame: "(j, ik, q) \<in> idx u \<longleftrightarrow> (j, ik, q) \<in> idx t" if "q \<noteq> k \<or> j \<notin> ix_id ` live_indexes meta" for j ik q
    using looped [THEN conjunct2, THEN conjunct2] that unfolding live_indexes_def by blast
  note stored = put_law [OF put]
  have R': "recs t' = ?R((?st, k) \<mapsto> bs)" "gen t' = gen t" and I': "idx t' = idx u"
    using only stored by (simp_all add: only_entries_def)
  have intact: "decode_scf lim Bg bs = Inr v" using assms(4) bs by (simp add: reads_back_def)
  have "index_agrees lim Bg ?st (recs t') (idx t') index" if live: "index \<in> live_indexes meta" for index
  proof -
    have old_agree: "index_agrees lim Bg ?st ?R (idx t) index" using agree live by (simp add: indexes_agree_def)
    have synced: "synced_entries lim v k t u index" using sy [OF live] .
    have "{ik. (ix_id index, ik, pk) \<in> idx u} =
        (case (?R((?st, k) \<mapsto> bs)) (?st, pk) of None \<Rightarrow> {} | Some bs \<Rightarrow> derived_keys lim Bg index bs)" for pk
    proof (cases "pk = k")
      case True
      obtain ks where "index_keys_for_value lim index v = Inr ks" "{ik. (ix_id index, ik, k) \<in> idx u} = set ks"
        using synced unfolding synced_entries_def by blast
      then show ?thesis using True intact by (simp only: fun_upd_same option.case derived_keys_def sum.case)
    next
      case False
      then have "{ik. (ix_id index, ik, pk) \<in> idx u} = {ik. (ix_id index, ik, pk) \<in> idx t}" using frame by blast
      then show ?thesis using old_agree False by (simp add: index_agrees_def)
    qed
    then show ?thesis using old_agree synced by (simp add: index_agrees_def synced_entries_def R' I')
  qed
  then have agree': "indexes_agree lim Bg meta (recs t') (idx t')" by (simp add: indexes_agree_def)
  have "\<forall>j ik q. j \<notin> ix_id ` live_indexes meta \<longrightarrow> ((j, ik, q) \<in> idx t' \<longleftrightarrow> (j, ik, q) \<in> idx t)"
    using frame by (simp add: I')
  then show ?thesis
    by (intro that [OF k bs R' agree']) (use r no in \<open>simp_all add: ex\<close>)
qed

lemma os_put_effect:
  assumes put: "os_put B lim Bg meta explicit_key no_overwrite (t, g, v) = (Inr r, t', g', v')"
    and ids: "distinct (map ix_id (st_indexes meta))"
    and agree: "indexes_agree lim Bg meta (recs t) (idx t)" and intact: "reads_back lim Bg v'"
  obtains g1 k bs where "determine_key meta explicit_key g v = (Inr (pr_key r), g1, v')"
    "encode_key_vec lim (pr_key r) = Inr k" "encode_scf lim Bg v' = Inr bs"
    "recs t' = (recs t)((st_id meta, k) \<mapsto> bs)" "g' = kg_possibly_update g1 (key_to_f64 (pr_key r))"
    "gen t' = (gen t)(st_id meta := kg_current g')" "indexes_agree lim Bg meta (recs t') (idx t')"
    "pr_inserted r \<longleftrightarrow> recs t (st_id meta, k) = None" "no_overwrite \<longrightarrow> pr_inserted r"
    "pr_value_bytes r = length bs"
    "\<forall>j ik q. j \<notin> ix_id ` live_indexes meta \<longrightarrow> ((j, ik, q) \<in> idx t' \<longleftrightarrow> (j, ik, q) \<in> idx t)"
proof -
  obtain key g1 u inserted n x where k: "determine_key meta explicit_key g v = (Inr key, g1, v')"
    and p: "put_record B lim Bg meta v' key no_overwrite t = (Inr (inserted, n), u)"
    and g': "g' = kg_possibly_update g1 (key_to_f64 key)"
    and s: "bk_key_gen_set B u (st_id meta) (kg_current g') = (Inr x, t')"
    and r: "r = \<lparr>pr_key = key, pr_inserted = inserted, pr_value_bytes = n\<rparr>"
    using put by (auto simp: os_put_def Let_def split: prod.splits sum.splits)
  obtain k' bs where e: "encode_key_vec lim key = Inr k'" "encode_scf lim Bg v' = Inr bs"
    "recs u = (recs t)((st_id meta, k') \<mapsto> bs)" "gen u = gen t" "indexes_agree lim Bg meta (recs u) (idx u)"
    "inserted \<longleftrightarrow> recs t (st_id meta, k') = None" "no_overwrite \<longrightarrow> inserted" "n = length bs"
    "\<forall>j ik q. j \<notin> ix_id ` live_indexes meta \<longrightarrow> ((j, ik, q) \<in> idx u \<longleftrightarrow> (j, ik, q) \<in> idx t)"
    using put_record_effect [OF p ids agree intact] .
  note set = key_gen_set_law [OF s]
  show ?thesis by (rule that [of g1 k' bs]) (use k e set r g' in simp_all)
qed

section \<open>Delete and clear\<close>

lemma collect_trail:
  "trail B t at cs \<Longrightarrow>
     scan_loop B (\<lambda>c. Inr (bk_current_key B c)) None t at [] = Some (Inr (map (bk_current_key B) cs))"
  by (simp add: scan_loop_trail rows_within_def traverse_pure)

lemma collect_range_keys_returns: "\<exists>r. collect_range_keys B t store rng = Some r"
proof (cases "bk_scan B t (SrcStore store) rng Next True")
  case (Inr c)
  obtain cs where "trail B t (bk_seek B t SeekFirst c) cs" using walk_law [OF Inr] by blast
  from collect_trail [OF this] Inr show ?thesis by (simp add: collect_range_keys_def)
qed (simp add: collect_range_keys_def)

lemma collect_range_keys_set:
  assumes "collect_range_keys B t store rng = Some (Inr ks)"
  shows "set ks = {k. recs t (store, k) \<noteq> None \<and> contains rng k}"
proof -
  obtain c where c: "bk_scan B t (SrcStore store) rng Next True = Inr c"
    using assms by (auto simp: collect_range_keys_def split: sum.splits)
  obtain cs where cs: "trail B t (bk_seek B t SeekFirst c) cs"
    "set (map (bk_current_key B) cs) = {k. recs t (store, k) \<noteq> None \<and> contains rng k}"
    using walk_law [OF c] by blast
  have "ks = map (bk_current_key B) cs"
    using assms c collect_trail [OF cs(1)] by (simp add: collect_range_keys_def)
  then show ?thesis using cs(2) by simp
qed

definition doomed_entries :: "store_meta \<Rightarrow> bytes set \<Rightarrow> (index_id \<times> bytes \<times> bytes) set" where
  "doomed_entries meta K = {e. fst e \<in> ix_id ` live_indexes meta \<and> snd (snd e) \<in> K}"

lemma delete_index_entries_effect:
  assumes "delete_index_entries B meta doomed t = (Inr (), t')"
  shows "only_entries t t' \<and> idx t' = idx t - doomed_entries meta (set doomed)"
proof -
  have "only_entries t t' \<and> idx t' = idx t - (\<Union>pk \<in> set doomed. doomed_entries meta {pk})"
  proof (rule removal_loop [OF assms [unfolded delete_index_entries_def]])
    fix pk :: bytes and t t' :: 't
    let ?gone = "\<lambda>index. if ix_deleted index then {} else {e. fst e = ix_id index \<and> snd (snd e) = pk}"
    assume loop: "for_each (\<lambda>index t. if ix_deleted index then (Inr (), t)
                          else oi_delete_by_primary B (ix_id index) pk t) (st_indexes meta) t = (Inr (), t')"
    have "only_entries t t' \<and> idx t' = idx t - (\<Union>index \<in> set (st_indexes meta). ?gone index)"
    proof (rule removal_loop [OF loop])
      fix index u u'
      assume "(if ix_deleted index then (Inr (), u) else oi_delete_by_primary B (ix_id index) pk u) = (Inr (), u')"
      then show "only_entries u u' \<and> idx u' = idx u - ?gone index"
        using delete_by_primary_law [of u "ix_id index" pk _ u']
        by (cases "ix_deleted index") (auto simp: oi_delete_by_primary_def only_entries_def)
    qed
    moreover have "(\<Union>index \<in> set (st_indexes meta). ?gone index) = doomed_entries meta {pk}"
      by (auto simp: doomed_entries_def live_indexes_def split: if_splits)
    ultimately show "only_entries t t' \<and> idx t' = idx t - doomed_entries meta {pk}" by simp
  qed
  moreover have "(\<Union>pk \<in> set doomed. doomed_entries meta {pk}) = doomed_entries meta (set doomed)"
    by (auto simp: doomed_entries_def)
  ultimately show ?thesis by simp
qed

text \<open>Records leave and take their entries with them.\<close>

lemma agree_after_removal:
  assumes "indexes_agree lim Bg meta R I"
    and "\<And>pk. R' (st_id meta, pk) = (if pk \<in> K then None else R (st_id meta, pk))"
    and "I' = I - doomed_entries meta (K \<inter> {pk. R (st_id meta, pk) \<noteq> None})"
  shows "indexes_agree lim Bg meta R' I'"
proof -
  have "index_agrees lim Bg (st_id meta) R' I' index" if live: "index \<in> live_indexes meta" for index
  proof -
    have a: "index_agrees lim Bg (st_id meta) R I index" using assms(1) live by (simp add: indexes_agree_def)
    have "{ik. (ix_id index, ik, pk) \<in> I'} =
        (case R' (st_id meta, pk) of None \<Rightarrow> {} | Some bs \<Rightarrow> derived_keys lim Bg index bs)" for pk
    proof (cases "pk \<in> K")
      case True
      have "{ik. (ix_id index, ik, pk) \<in> I} = {}" if "R (st_id meta, pk) = None"
        using a that by (simp add: index_agrees_def)
      then show ?thesis using True live by (auto simp: assms(2,3) doomed_entries_def)
    next
      case False
      then show ?thesis using a by (simp add: assms(2,3) doomed_entries_def index_agrees_def)
    qed
    then show ?thesis using a unique_index_mono [of I "ix_id index" I'] assms(3) by (auto simp: index_agrees_def)
  qed
  then show ?thesis by (simp add: indexes_agree_def)
qed

lemma os_delete_effect:
  assumes "os_delete B meta rng t = Some (Inr count, t')" "indexes_agree lim Bg meta (recs t) (idx t)"
  shows "recs t' = (\<lambda>k. if fst k = st_id meta \<and> contains rng (snd k) then None else recs t k) \<and>
    gen t' = gen t \<and> indexes_agree lim Bg meta (recs t') (idx t') \<and>
    (\<forall>j ik q. j \<notin> ix_id ` live_indexes meta \<longrightarrow> ((j, ik, q) \<in> idx t' \<longleftrightarrow> (j, ik, q) \<in> idx t))"
proof -
  obtain ks u where ks: "set ks = {k. recs t (st_id meta, k) \<noteq> None \<and> contains rng k}"
    and d: "bk_delete_range B t (st_id meta) rng = (Inr count, u)" "delete_index_entries B meta ks u = (Inr (), t')"
    using assms(1) collect_range_keys_set [of t "st_id meta" rng] by (auto simp: os_delete_def sbind_Inr)
  note rng_law = delete_range_law [OF d(1)] and entries = delete_index_entries_effect [OF d(2)]
  have "indexes_agree lim Bg meta (recs t') (idx t')"
    using rng_law entries ks
    by (intro agree_after_removal [OF assms(2), where K = "{k. contains rng k}"])
      (auto simp: only_entries_def Int_def conj_commute)
  then show ?thesis using rng_law entries by (simp add: only_entries_def doomed_entries_def)
qed

lemma os_clear_effect:
  assumes "os_clear B meta t = Some (Inr u, t')" "indexes_agree lim Bg meta (recs t) (idx t)"
  shows "recs t' = (\<lambda>k. if fst k = st_id meta then None else recs t k) \<and>
    gen t' = gen t \<and> indexes_agree lim Bg meta (recs t') (idx t') \<and>
    (\<forall>j ik q. j \<notin> ix_id ` live_indexes meta \<longrightarrow> ((j, ik, q) \<in> idx t' \<longleftrightarrow> (j, ik, q) \<in> idx t))"
proof -
  obtain ks w where ks: "set ks = {k. recs t (st_id meta, k) \<noteq> None}"
    and d: "bk_clear B t (st_id meta) = (Inr (), w)" "delete_index_entries B meta ks w = (Inr (), t')"
    using assms(1) collect_range_keys_set [of t "st_id meta" range_all] by (auto simp: os_clear_def sbind_Inr)
  note clr = clear_law [OF d(1)] and entries = delete_index_entries_effect [OF d(2)]
  have "indexes_agree lim Bg meta (recs t') (idx t')"
    using clr entries ks
    by (intro agree_after_removal [OF assms(2), where K = UNIV]) (auto simp: only_entries_def)
  then show ?thesis using clr entries by (simp add: only_entries_def doomed_entries_def)
qed

lemma os_delete_returns: "\<exists>r. os_delete B meta rng t = Some r"
  using collect_range_keys_returns [of t "st_id meta" rng] by (auto simp: os_delete_def)

lemma os_clear_returns: "\<exists>r. os_clear B meta t = Some r"
  using collect_range_keys_returns [of t "st_id meta" range_all] by (auto simp: os_clear_def)

end

end
