(* ===== verification/Driver_Requests.thy ===== *)
theory Driver_Requests
  imports Driver_Exec Index_Consistency
begin

text \<open>
  A request of the driver is atomic and keeps the indexes in agreement with the records: proved from
  the laws of the storage backend, for every operation \<open>execute_op\<close> runs.
\<close>

section \<open>All the stores of a database\<close>

definition schema_ids_ok :: "database_meta \<Rightarrow> bool" where
  "schema_ids_ok meta \<longleftrightarrow> distinct (map st_id (db_stores meta)) \<and>
     distinct (concat (map (\<lambda>s. map ix_id (st_indexes s)) (db_stores meta)))"

definition all_agree ::
    "limit_config \<Rightarrow> 'b bigint_ops \<Rightarrow> database_meta \<Rightarrow> (store_id \<times> bytes \<rightharpoonup> bytes) \<Rightarrow>
       (index_id \<times> bytes \<times> bytes) set \<Rightarrow> bool" where
  "all_agree lim Bg meta R I \<longleftrightarrow> (\<forall>store \<in> set (db_stores meta). indexes_agree lim Bg store R I)"

lemma index_agrees_cong:
  assumes "\<And>pk. R' (store, pk) = R (store, pk)" "\<And>ik pk. (ix_id index, ik, pk) \<in> I' \<longleftrightarrow> (ix_id index, ik, pk) \<in> I"
  shows "index_agrees lim Bg store R' I' index = index_agrees lim Bg store R I index"
  using assms unique_index_cong [of "ix_id index" I' I] by (simp add: index_agrees_def)

lemma store_ids_distinct:
  "schema_ids_ok meta \<Longrightarrow> s \<in> set (db_stores meta) \<Longrightarrow> distinct (map ix_id (st_indexes s))"
  by (auto simp: schema_ids_ok_def distinct_concat_iff)

lemma store_ids_disjoint:
  assumes "distinct (map st_id ss)" "distinct (concat (map (\<lambda>s. map ix_id (st_indexes s)) ss))"
    and "s \<in> set ss" "s' \<in> set ss" "s \<noteq> s'"
  shows "st_id s \<noteq> st_id s' \<and> ix_id ` set (st_indexes s) \<inter> ix_id ` set (st_indexes s') = {}"
  using assms by (induction ss) (auto, (metis image_eqI)+)

text \<open>What one store does leaves the others in agreement.\<close>

lemma all_agree_update:
  assumes "schema_ids_ok meta" "all_agree lim Bg meta R I" "s \<in> set (db_stores meta)"
    and "indexes_agree lim Bg s R' I'"
    and "\<And>store pk. store \<noteq> st_id s \<Longrightarrow> R' (store, pk) = R (store, pk)"
    and "\<forall>j ik q. j \<notin> ix_id ` live_indexes s \<longrightarrow> ((j, ik, q) \<in> I' \<longleftrightarrow> (j, ik, q) \<in> I)"
  shows "all_agree lim Bg meta R' I'"
proof -
  have "indexes_agree lim Bg s' R' I'" if s': "s' \<in> set (db_stores meta)" for s'
  proof (cases "s' = s")
    case False
    have "distinct (map st_id (db_stores meta))"
      "distinct (concat (map (\<lambda>s. map ix_id (st_indexes s)) (db_stores meta)))"
      using assms(1) by (simp_all add: schema_ids_ok_def)
    note apart = store_ids_disjoint [OF this s' assms(3) False]
    have "index_agrees lim Bg (st_id s') R' I' index" if live: "index \<in> live_indexes s'" for index
    proof -
      have "ix_id index \<notin> ix_id ` live_indexes s"
        using apart live unfolding live_indexes_def by blast
      then have "index_agrees lim Bg (st_id s') R' I' index = index_agrees lim Bg (st_id s') R I index"
        using assms(5,6) apart by (intro index_agrees_cong) auto
      then show ?thesis using assms(2) s' live by (simp add: all_agree_def indexes_agree_def)
    qed
    then show ?thesis by (simp add: indexes_agree_def)
  qed (simp add: assms(4))
  then show ?thesis by (simp add: all_agree_def)
qed

section \<open>Generators\<close>

lemma determine_key_stack:
  "determine_key meta explicit_key g v = (r, g', v') \<Longrightarrow> kg_save_stack g' = kg_save_stack g"
proof -
  have "generate_number g = (r, g') \<Longrightarrow> kg_save_stack g' = kg_save_stack g" for r g'
    by (auto simp: generate_number_def dest: kg_generate_stack split: prod.splits sum.splits)
  then show "determine_key meta explicit_key g v = (r, g', v') \<Longrightarrow> kg_save_stack g' = kg_save_stack g"
    by (fastforce simp: determine_key_def Let_def split: option.splits sum.splits prod.splits if_splits)
qed

lemma os_put_stack:
  assumes "os_put B lim Bg meta explicit_key no_overwrite (t, g, v) = (r, t', g', v')"
  shows "kg_save_stack g' = kg_save_stack g"
proof -
  obtain r1 g1 v1 where k: "determine_key meta explicit_key g v = (r1, g1, v1)" by (metis prod_cases3)
  have "kg_save_stack g' = kg_save_stack g1"
    using assms k
    by (auto simp: os_put_def Let_def kg_possibly_update_def split: sum.splits prod.splits if_splits)
  then show ?thesis using determine_key_stack [OF k] by simp
qed

text \<open>What a request does to the generators of a handle: it moves them without touching their savepoints,
  and may add one that has one savepoint.\<close>

definition same_stack :: "store_id \<times> key_generator \<Rightarrow> store_id \<times> key_generator \<Rightarrow> bool" where
  "same_stack p q \<longleftrightarrow> fst q = fst p \<and> kg_save_stack (snd q) = kg_save_stack (snd p)"

definition keygens_moved :: "(store_id \<times> key_generator) list \<Rightarrow> (store_id \<times> key_generator) list \<Rightarrow> bool" where
  "keygens_moved gs gs' \<longleftrightarrow>
     (\<exists>new. list_all2 same_stack (gs @ new) gs' \<and> (\<forall>p \<in> set new. length (kg_save_stack (snd p)) = 1))"

lemma same_stack_refl: "list_all2 same_stack gs gs"
  by (induction gs) (auto simp: same_stack_def)

lemma keygens_moved_refl [simp]: "keygens_moved gs gs"
  by (auto simp: keygens_moved_def same_stack_refl intro!: exI [of _ "[]"])

lemma set_keygen_same:
  assumes "map_of gs i = Some g" "kg_save_stack g' = kg_save_stack g" "distinct (map fst gs)"
  shows "list_all2 same_stack gs (set_keygen i g' gs)"
proof -
  have "kg_save_stack (snd p) = kg_save_stack g" if "p \<in> set gs" "fst p = i" for p
    using assms(1,3) that map_of_eq_Some_iff [OF assms(3), of i "snd p"] by (cases p) auto
  then show ?thesis
    by (auto simp: set_keygen_def list_all2_map2 same_stack_def assms(2) split: prod.splits
        intro!: list.rel_refl_strong)
qed

lemma set_keygen_keys: "map fst (set_keygen i g gs) = map fst gs"
  by (auto simp: set_keygen_def)

text \<open>A rollback brings back every generator that was there, as it was.\<close>

lemma rollback_begun:
  "same_stack (i, kg_begin_request g) (j, g') \<Longrightarrow> (j, snd (kg_rollback_request g')) = (i, g)"
  by (simp add: same_stack_def kg_begin_request_def kg_rollback_request_def)

lemma rollback_moved:
  assumes "keygens_moved (each_keygen kg_begin_request gs) gs'"
  shows "\<exists>new. each_keygen (\<lambda>g. snd (kg_rollback_request g)) gs' = gs @ new"
proof -
  obtain new where "list_all2 same_stack (each_keygen kg_begin_request gs @ new) gs'"
    using assms by (auto simp: keygens_moved_def)
  then obtain gs1 gs2 where gs': "gs' = gs1 @ gs2" "list_all2 same_stack (each_keygen kg_begin_request gs) gs1"
    by (auto simp: list_all2_append1)
  from gs'(2) have "each_keygen (\<lambda>g. snd (kg_rollback_request g)) gs1 = gs"
  proof (induction gs arbitrary: gs1)
    case (Cons p gs)
    obtain i g where p: "p = (i, g)" by (cases p)
    obtain j g' gs3 where gs1: "gs1 = (j, g') # gs3" "same_stack (i, kg_begin_request g) (j, g')"
      "list_all2 same_stack (each_keygen kg_begin_request gs) gs3"
      using Cons.prems p by (auto simp: each_keygen_def list_all2_Cons1)
    show ?case using Cons.IH [OF gs1(3)] rollback_begun [OF gs1(2)] p gs1(1) by (simp add: each_keygen_def)
  qed (simp add: each_keygen_def)
  then show ?thesis by (simp add: gs'(1) each_keygen_def)
qed

text \<open>A commit closes them all.\<close>

lemma commit_keygens_open:
  "\<forall>p \<in> set gs. kg_save_stack (snd p) \<noteq> [] \<Longrightarrow>
     \<exists>gs'. commit_keygens gs = (Inr (), gs') \<and> map fst gs' = map fst gs"
  by (induction gs rule: commit_keygens.induct) (auto simp: kg_commit_request_def)

lemma moved_open:
  assumes "keygens_moved (each_keygen kg_begin_request gs) gs'" "q \<in> set gs'"
  shows "kg_save_stack (snd q) \<noteq> []"
proof -
  obtain new where new: "list_all2 same_stack (each_keygen kg_begin_request gs @ new) gs'"
    "\<forall>p \<in> set new. length (kg_save_stack (snd p)) = 1"
    using assms(1) by (auto simp: keygens_moved_def)
  obtain p where "p \<in> set (each_keygen kg_begin_request gs @ new)" "same_stack p q"
    using new(1) assms(2) by (metis in_set_conv_nth list_all2_conv_all_nth)
  then show ?thesis
    using new(2) by (auto simp: same_stack_def each_keygen_def kg_begin_request_def)
qed

section \<open>What an operation does to its handle\<close>

text \<open>Whatever its result, it takes the backend transaction through data operations, moves the
  generators and leaves the schema.\<close>

definition ran ::
    "('t, 'c) backend_txn \<Rightarrow> txn_id \<Rightarrow> 't txn_handle \<Rightarrow> 't \<Rightarrow> ('t, 'b) driver \<Rightarrow> bool" where
  "ran B i h t d \<longleftrightarrow>
     (\<exists>h' t'. dr_txns d i = Some h' \<and> th_backend h' = Some t' \<and> bk_ops B t t' \<and> th_meta h' = th_meta h \<and>
        keygens_moved (th_keygens h) (th_keygens h') \<and>
        (distinct (map fst (th_keygens h)) \<longrightarrow> distinct (map fst (th_keygens h'))))"

lemma ran_start: "dr_txns d i = Some h \<Longrightarrow> th_backend h = Some t \<Longrightarrow> ran B i h t d"
  by (auto simp: ran_def)

lemma ran_other [simp]:
  "ran B i h t (d\<lparr>dr_cursors := cs\<rparr>) = ran B i h t d"
  "ran B i h t (d\<lparr>dr_next_cursor_id := n\<rparr>) = ran B i h t d"
  by (simp_all add: ran_def)

lemma ran_bytes [simp]:
  "ran B i h t d \<Longrightarrow> ran B i h t (add_bytes_read i n d)"
  "ran B i h t d \<Longrightarrow> ran B i h t (add_bytes_written i n d)"
  by (auto simp: ran_def add_bytes_read_def add_bytes_written_def with_handle_def)

lemma ran_set_backend:
  "dr_txns d i = Some h \<Longrightarrow> bk_ops B t t' \<Longrightarrow> ran B i h t (set_backend i t' d)"
  by (simp add: ran_def set_backend_def with_handle_def)

lemma backend_of_Inr: "backend_of d i = Inr t \<longleftrightarrow> (\<exists>h. dr_txns d i = Some h \<and> th_backend h = Some t)"
  by (auto simp: backend_of_def split: option.splits)

lemma put_through_ran:
  assumes h: "dr_txns d i = Some h" "th_backend h = Some t" "distinct (map fst (th_keygens h))"
    and run: "put_through B lim Bg i meta v explicit_key no_overwrite d = (r, d')"
  shows "ran B i h t d'"
proof -
  have t: "backend_of d i = Inr t" using h by (simp add: backend_of_def)
  define start where "start = (case map_of (th_keygens h) (st_id meta) of
      Some g \<Rightarrow> (th_keygens h, g)
    | None \<Rightarrow> let g = kg_begin_request (kg_new (case bk_key_gen_current B t (st_id meta) of
                      Inl _ \<Rightarrow> st_key_gen meta | Inr x \<Rightarrow> x))
              in (th_keygens h @ [(st_id meta, g)], g))"
  obtain gs g where gs: "start = (gs, g)" by (cases start)
  obtain r1 t1 g1 v1 where put: "os_put B lim Bg meta explicit_key no_overwrite (t, g, v) = (r1, t1, g1, v1)"
    by (metis prod_cases4)
  have "ran B i h t (with_handle i (\<lambda>h. h\<lparr>th_backend := Some t1, th_keygens := set_keygen (st_id meta) g1 gs\<rparr>) d)"
  proof -
    have "map_of gs (st_id meta) = Some g"
      using gs unfolding start_def by (auto simp: Let_def map_add_def split: option.splits)
    moreover have uniq: "distinct (map fst gs)"
      using gs h(3) unfolding start_def by (auto simp: Let_def map_of_eq_None_iff split: option.splits)
    ultimately have "list_all2 same_stack gs (set_keygen (st_id meta) g1 gs)"
      using os_put_stack [OF put] by (intro set_keygen_same)
    moreover have "gs = th_keygens h \<or> (\<exists>p. gs = th_keygens h @ [p] \<and> length (kg_save_stack (snd p)) = 1)"
      using gs unfolding start_def
      by (auto simp: Let_def kg_begin_request_def kg_new_def split: option.splits)
    ultimately have "keygens_moved (th_keygens h) (set_keygen (st_id meta) g1 gs)"
      unfolding keygens_moved_def by (metis append_Nil2 empty_iff empty_set set_ConsD)
    moreover have "bk_ops B t t1" using os_put_ops [of B t lim Bg meta explicit_key no_overwrite g v] put by simp
    moreover have "distinct (map fst (set_keygen (st_id meta) g1 gs))" using uniq by (simp add: set_keygen_keys)
    ultimately show ?thesis using h by (simp add: ran_def with_handle_def)
  qed
  moreover have "d' = with_handle i (\<lambda>h. h\<lparr>th_backend := Some t1, th_keygens := set_keygen (st_id meta) g1 gs\<rparr>) d \<or>
      (\<exists>n. d' = add_bytes_written i n
        (with_handle i (\<lambda>h. h\<lparr>th_backend := Some t1, th_keygens := set_keygen (st_id meta) g1 gs\<rparr>) d))"
    using run gs [unfolded start_def] unfolding put_through_def t h(1)
    by (auto simp: Let_def put split: sum.splits prod.splits option.splits)
  ultimately show ?thesis by auto
qed

lemma delete_through_ran:
  assumes h: "dr_txns d i = Some h" "th_backend h = Some t" and run: "delete_through B i meta rng d = Some (r, d')"
  shows "ran B i h t d'"
proof -
  have "backend_of d i = Inr t" using h by (simp add: backend_of_def)
  then obtain r1 t1 where "os_delete B meta rng t = Some (r1, t1)" "d' = set_backend i t1 d"
    using run by (auto simp: delete_through_def)
  then show ?thesis using os_delete_ops [of B meta rng t "(r1, t1)"] ran_set_backend [OF h(1)] by auto
qed

lemma exec_cursor_op_ran:
  assumes h: "dr_txns d i = Some h" "th_backend h = Some t" "distinct (map fst (th_keygens h))"
    and run: "exec_cursor_op B lim Bg i meta cid action d = Some (r, d')"
  shows "ran B i h t d'"
proof -
  have other: "ran B i h t (d\<lparr>dr_cursors := cs\<rparr>)" "ran B i h t d" for cs using ran_start [OF h(1,2)] by simp_all
  note move = put_through_ran [OF h] delete_through_ran [OF h(1,2)]
  show ?thesis
  proof (cases action)
    case (ActUpdate v)
    then show ?thesis
      using run move(1) other(2)
      by (auto simp: exec_cursor_op_def exec_update_def split: sum.splits prod.splits)
  next
    case ActDelete
    then show ?thesis
      using run move(2) other(2)
      by (auto simp: exec_cursor_op_def split: sum.splits prod.splits)
  qed (use run other in \<open>auto simp: exec_cursor_op_def split: option.splits prod.splits\<close>)
qed

lemma exec_open_cursor_ran:
  assumes h: "dr_txns d i = Some h" "th_backend h = Some t"
    and run: "exec_open_cursor B lim Bg i request_id source rng dir key_only d = Some (r, d')"
  shows "ran B i h t d'"
proof -
  have here: "ran B i h t d" by (rule ran_start [OF h])
  obtain z where "materialize B lim Bg t source rng dir key_only = Some z"
    using run h by (auto simp: exec_open_cursor_def alloc_cursor_def backend_of_def)
  then show ?thesis
    using run h here
    by (cases z) (auto simp: exec_open_cursor_def alloc_cursor_def Let_def backend_of_def)
qed

lemma execute_op_inner_ran:
  assumes h: "dr_txns d i = Some h" "th_backend h = Some t" "distinct (map fst (th_keygens h))"
    and run: "execute_op_inner B lim Bg i request_id op d = Some (r, d')"
  shows "ran B i h t d'"
proof (cases "th_finished h")
  case False
  have here: "ran B i h t d" by (rule ran_start [OF h(1,2)])
  have reads: "ran B i h t d'"
    if outcome: "map_option (\<lambda>r. case r of Inl f \<Rightarrow> (Inl f, d)
          | Inr (out, n) \<Rightarrow> (Inr (ExecOutcome out), add_bytes_read i n d)) (exec_read B lim Bg i op d) = Some (r, d')"
  proof -
    obtain z where "exec_read B lim Bg i op d = Some z" using outcome by auto
    then show ?thesis using outcome here by (cases z) auto
  qed
  show ?thesis
  proof (cases op)
    case (OpPut store v explicit_key no_overwrite)
    then show ?thesis
      using run False here put_through_ran [OF h]
      by (auto simp: execute_op_inner_def h(1) Let_def split: sum.splits)
  next
    case (OpDelete store rng)
    then show ?thesis
      using run False here delete_through_ran [OF h(1,2)]
      by (auto simp: execute_op_inner_def h(1) Let_def split: sum.splits prod.splits)
  next
    case (OpClear store)
    have b: "backend_of d i = Inr t" using h by (simp add: backend_of_def)
    show ?thesis
    proof (cases "find_store (th_meta h) store")
      case (Inl f)
      then show ?thesis using run False here OpClear by (simp add: execute_op_inner_def h(1) Let_def)
    next
      case (Inr m)
      then obtain r1 t1 where "os_clear B m t = Some (r1, t1)" "d' = set_backend i t1 d"
        using run False OpClear b by (auto simp: execute_op_inner_def h(1) Let_def)
      then show ?thesis using os_clear_ops [of B m t "(r1, t1)"] ran_set_backend [OF h(1)] by auto
    qed
  next
    case (OpOpenCursor source rng dir key_only)
    then show ?thesis
      using run False exec_open_cursor_ran [OF h(1,2)] by (simp add: execute_op_inner_def h(1) Let_def)
  next
    case (OpCursorOp cid action)
    then show ?thesis
      using run False exec_cursor_op_ran [OF h] by (simp add: execute_op_inner_def h(1) Let_def)
  qed (use run False reads in \<open>simp_all add: execute_op_inner_def h(1) Let_def\<close>)
qed (use run ran_start [OF h(1,2)] in \<open>auto simp: execute_op_inner_def h(1)\<close>)

end
