(* ===== verification/Driver_Atomic.thy ===== *)
theory Driver_Atomic
  imports Driver_Requests
begin

text \<open>
  Requests as a whole: an operation that succeeds leaves the index entries of every store in
  agreement with its records, and one that fails leaves the records, the index entries and the key
  generators of the transaction as they were. Proved from the laws of the storage backend.
\<close>

text \<open>The value an operation stores, whatever key it is given, is one that reads back.\<close>

definition op_reads_back :: "limit_config \<Rightarrow> 'b bigint_ops \<Rightarrow> database_meta \<Rightarrow> 'b pending_op \<Rightarrow> bool" where
  "op_reads_back lim Bg meta op \<longleftrightarrow>
     (case op of
        OpPut _ v _ _ \<Rightarrow> \<forall>m \<in> set (db_stores meta). \<forall>k g. reads_back lim Bg (snd (snd (determine_key m k g v)))
      | OpCursorOp _ (ActUpdate v) \<Rightarrow>
          \<forall>m \<in> set (db_stores meta). \<forall>k g. reads_back lim Bg (snd (snd (determine_key m k g v)))
      | _ \<Rightarrow> True)"

definition backend_sat :: "txn_id \<Rightarrow> ('t \<Rightarrow> bool) \<Rightarrow> ('t, 'b) driver \<Rightarrow> bool" where
  "backend_sat i P d \<longleftrightarrow> (\<exists>h t. dr_txns d i = Some h \<and> th_backend h = Some t \<and> P t)"

lemma backend_sat_other [simp]:
  "backend_sat i P (d\<lparr>dr_cursors := cs\<rparr>) = backend_sat i P d"
  "backend_sat i P (d\<lparr>dr_next_cursor_id := n\<rparr>) = backend_sat i P d"
  by (simp_all add: backend_sat_def)

lemma backend_sat_bytes [simp]:
  "backend_sat i P (add_bytes_read i n d) = backend_sat i P d"
  "backend_sat i P (add_bytes_written i n d) = backend_sat i P d"
  by (auto simp: backend_sat_def add_bytes_read_def add_bytes_written_def with_handle_def split: option.splits)

lemma backend_sat_set [simp]: "dr_txns d i = Some h \<Longrightarrow> backend_sat i P (set_backend i t d) = P t"
  by (simp add: backend_sat_def set_backend_def with_handle_def)

lemma find_store_mem: "find_store meta i = Inr s \<Longrightarrow> s \<in> set (db_stores meta) \<and> st_id s = i"
  by (auto simp: find_store_def find_Some_iff split: option.splits)

lemma update_target_mem: "update_target meta cid v d = Inr (m, k) \<Longrightarrow> m \<in> set (db_stores meta)"
  by (auto simp: update_target_def dest: find_store_mem split: if_splits option.splits)

context storage_backend
begin

definition agrees :: "limit_config \<Rightarrow> 'b bigint_ops \<Rightarrow> database_meta \<Rightarrow> 't \<Rightarrow> bool" where
  "agrees lim Bg meta t \<longleftrightarrow> all_agree lim Bg meta (recs t) (idx t)"

lemma put_through_agrees:
  assumes h: "dr_txns d i = Some h" "th_backend h = Some t"
    and s: "schema_ids_ok meta" "s \<in> set (db_stores meta)" and agree: "agrees lim Bg meta t"
    and run: "put_through B lim Bg i s v explicit_key no_overwrite d = (Inr x, d')"
    and intact: "\<And>k g. reads_back lim Bg (snd (snd (determine_key s k g v)))"
  shows "backend_sat i (agrees lim Bg meta) d'"
proof -
  have t: "backend_of d i = Inr t" using h by (simp add: backend_of_def)
  obtain g r t1 g1 v1 kgs where put: "os_put B lim Bg s explicit_key no_overwrite (t, g, v) = (Inr r, t1, g1, v1)"
    and d': "d' = add_bytes_written i (pr_value_bytes r)
      (with_handle i (\<lambda>h. h\<lparr>th_backend := Some t1, th_keygens := kgs\<rparr>) d)"
    using run h(1) unfolding put_through_def t
    by (auto simp: Let_def split: sum.splits prod.splits option.splits)
  have a: "indexes_agree lim Bg s (recs t) (idx t)" using agree s(2) by (simp add: agrees_def all_agree_def)
  have "determine_key s explicit_key g v = (Inr (pr_key r), g2, v1) \<Longrightarrow> reads_back lim Bg v1" for g2
    using intact [of explicit_key g] by simp
  moreover have "\<exists>g2. determine_key s explicit_key g v = (Inr (pr_key r), g2, v1)"
    using put by (auto simp: os_put_def Let_def split: prod.splits sum.splits)
  ultimately have rb: "reads_back lim Bg v1" by blast
  obtain k bs where e: "recs t1 = (recs t)((st_id s, k) \<mapsto> bs)" "indexes_agree lim Bg s (recs t1) (idx t1)"
    "\<forall>j ik q. j \<notin> ix_id ` live_indexes s \<longrightarrow> ((j, ik, q) \<in> idx t1 \<longleftrightarrow> (j, ik, q) \<in> idx t)"
    using os_put_effect [OF put store_ids_distinct [OF s] a rb] .
  have "agrees lim Bg meta t1"
    unfolding agrees_def
    by (rule all_agree_update [OF s(1) agree [unfolded agrees_def] s(2) e(2) _ e(3)]) (simp add: e(1))
  then have "backend_sat i (agrees lim Bg meta) (with_handle i (\<lambda>h. h\<lparr>th_backend := Some t1, th_keygens := kgs\<rparr>) d)"
    using h by (simp add: backend_sat_def with_handle_def)
  then show ?thesis by (simp add: d')
qed

lemma delete_through_agrees:
  assumes h: "dr_txns d i = Some h" "th_backend h = Some t"
    and s: "schema_ids_ok meta" "s \<in> set (db_stores meta)" and agree: "agrees lim Bg meta t"
    and run: "delete_through B i s rng d = Some (Inr x, d')"
  shows "backend_sat i (agrees lim Bg meta) d'"
proof -
  have "backend_of d i = Inr t" using h by (simp add: backend_of_def)
  then obtain n t1 where r: "os_delete B s rng t = Some (Inr n, t1)" "d' = set_backend i t1 d"
    using run by (auto simp: delete_through_def)
  have a: "indexes_agree lim Bg s (recs t) (idx t)" using agree s(2) by (simp add: agrees_def all_agree_def)
  note e = os_delete_effect [OF r(1) a]
  have "agrees lim Bg meta t1"
    unfolding agrees_def
    by (rule all_agree_update [OF s(1) agree [unfolded agrees_def] s(2)]) (use e in \<open>auto\<close>)
  then show ?thesis using h(1) r(2) by simp
qed

lemma exec_cursor_op_agrees:
  assumes h: "dr_txns d i = Some h" "th_backend h = Some t"
    and s: "schema_ids_ok meta" and agree: "agrees lim Bg meta t"
    and run: "exec_cursor_op B lim Bg i meta cid action d = Some (Inr x, d')"
    and intact: "op_reads_back lim Bg meta (OpCursorOp cid action)"
  shows "backend_sat i (agrees lim Bg meta) d'"
proof -
  have here: "backend_sat i (agrees lim Bg meta) d" using h agree by (simp add: backend_sat_def)
  show ?thesis
  proof (cases action)
    case (ActUpdate v)
    then obtain m k where "m \<in> set (db_stores meta)" "put_through B lim Bg i m v k False d = (Inr x, d')"
      using run update_target_mem [of meta cid v d]
      by (auto simp: exec_cursor_op_def exec_update_def split: sum.splits prod.splits)
    then show ?thesis
      using put_through_agrees [OF h s _ agree] intact ActUpdate by (auto simp: op_reads_back_def)
  next
    case ActDelete
    then obtain m rng where "m \<in> set (db_stores meta)" "delete_through B i m rng d = Some (Inr x, d')"
      using run find_store_mem [of meta]
      by (auto simp: exec_cursor_op_def split: sum.splits prod.splits)
    then show ?thesis using delete_through_agrees [OF h s _ agree] by blast
  qed (use run here in \<open>auto simp: exec_cursor_op_def split: option.splits prod.splits\<close>)
qed

lemma execute_op_inner_agrees:
  assumes h: "dr_txns d i = Some h" "th_backend h = Some t"
    and s: "schema_ids_ok (th_meta h)" and agree: "agrees lim Bg (th_meta h) t"
    and run: "execute_op_inner B lim Bg i request_id op d = Some (Inr x, d')"
    and intact: "op_reads_back lim Bg (th_meta h) op"
  shows "backend_sat i (agrees lim Bg (th_meta h)) d'"
proof -
  let ?P = "agrees lim Bg (th_meta h)"
  have here: "backend_sat i ?P d" using h agree by (simp add: backend_sat_def)
  have live: "\<not> th_finished h" using run h by (auto simp: execute_op_inner_def)
  have reads: "backend_sat i ?P d'"
    if outcome: "map_option (\<lambda>r. case r of Inl f \<Rightarrow> (Inl f, d)
          | Inr (out, n) \<Rightarrow> (Inr (ExecOutcome out), add_bytes_read i n d)) (exec_read B lim Bg i op d) = Some (Inr x, d')"
  proof -
    obtain z where "exec_read B lim Bg i op d = Some z" using outcome by auto
    then show ?thesis using outcome here by (cases z) auto
  qed
  show ?thesis
  proof (cases op)
    case (OpPut store v explicit_key no_overwrite)
    then obtain m where "m \<in> set (db_stores (th_meta h))"
      "put_through B lim Bg i m v explicit_key no_overwrite d = (Inr x, d')"
      using run live find_store_mem [of "th_meta h"]
      by (auto simp: execute_op_inner_def h(1) Let_def split: sum.splits)
    then show ?thesis
      using put_through_agrees [OF h s _ agree] intact OpPut by (auto simp: op_reads_back_def)
  next
    case (OpDelete store rng)
    then obtain m r where "m \<in> set (db_stores (th_meta h))" "delete_through B i m r d = Some (Inr x, d')"
      using run live find_store_mem [of "th_meta h"]
      by (auto simp: execute_op_inner_def h(1) Let_def split: sum.splits prod.splits)
    then show ?thesis using delete_through_agrees [OF h s _ agree] by blast
  next
    case (OpClear store)
    have b: "backend_of d i = Inr t" using h by (simp add: backend_of_def)
    obtain m t1 where m: "m \<in> set (db_stores (th_meta h))" and r: "os_clear B m t = Some (Inr (), t1)"
      "d' = set_backend i t1 d"
      using run live OpClear b find_store_mem [of "th_meta h"]
      by (auto simp: execute_op_inner_def h(1) Let_def split: sum.splits prod.splits)
    have a: "indexes_agree lim Bg m (recs t) (idx t)" using agree m by (simp add: agrees_def all_agree_def)
    have "?P t1"
      unfolding agrees_def
      by (rule all_agree_update [OF s agree [unfolded agrees_def] m]) (use os_clear_effect [OF r(1) a] in \<open>auto\<close>)
    then show ?thesis using h(1) r(2) by simp
  next
    case (OpOpenCursor source rng dir key_only)
    then have run: "exec_open_cursor B lim Bg i request_id source rng dir key_only d = Some (Inr x, d')"
      using run live by (simp add: execute_op_inner_def h(1) Let_def)
    obtain z where "materialize B lim Bg t source rng dir key_only = Some z"
      using run h by (auto simp: exec_open_cursor_def alloc_cursor_def backend_of_def)
    then show ?thesis
      using run h here by (cases z) (auto simp: exec_open_cursor_def alloc_cursor_def Let_def backend_of_def)
  next
    case (OpCursorOp cid action)
    then show ?thesis
      using run live intact exec_cursor_op_agrees [OF h s agree]
      by (simp add: execute_op_inner_def h(1) Let_def)
  qed (use run live reads in \<open>simp_all add: execute_op_inner_def h(1) Let_def\<close>)
qed

section \<open>The savepoints\<close>

text \<open>What a transaction shows through its handle.\<close>

definition same_shown :: "'t \<Rightarrow> 't \<Rightarrow> bool" where
  "same_shown t t' \<longleftrightarrow> recs t' = recs t \<and> idx t' = idx t \<and> gen t' = gen t"

definition kept :: "txn_id \<Rightarrow> 't txn_handle \<Rightarrow> 't \<Rightarrow> ('t, 'b) driver \<Rightarrow> bool" where
  "kept i h t d \<longleftrightarrow>
     (\<exists>h' t' new. dr_txns d i = Some h' \<and> th_backend h' = Some t' \<and> same_shown t t' \<and>
        th_meta h' = th_meta h \<and> th_keygens h' = th_keygens h @ new \<and>
        (distinct (map fst (th_keygens h)) \<longrightarrow> distinct (map fst (th_keygens h'))))"

definition advanced_to :: "('t \<Rightarrow> bool) \<Rightarrow> txn_id \<Rightarrow> 't txn_handle \<Rightarrow> ('t, 'b) driver \<Rightarrow> bool" where
  "advanced_to P i h d \<longleftrightarrow>
     (\<exists>h' t'. dr_txns d i = Some h' \<and> th_backend h' = Some t' \<and> P t' \<and> th_meta h' = th_meta h \<and>
        (distinct (map fst (th_keygens h)) \<longrightarrow> distinct (map fst (th_keygens h'))))"

lemma each_keygen_keys [simp]: "map fst (each_keygen f gs) = map fst gs"
  by (auto simp: each_keygen_def)

lemma open_savepoints_cases:
  assumes h: "dr_txns d i = Some h" "th_backend h = Some t" and run: "open_savepoints B i d = (r, d')"
  obtains (failed) e where "r = Inl (backend_err e)" "kept i h t d'"
  | (opened) t1 h1 where "r = Inr ()" "bk_begin_request B t = (Inr (), t1)" "dr_txns d' i = Some h1"
      "th_backend h1 = Some t1" "th_meta h1 = th_meta h" "th_finished h1 = th_finished h"
      "th_keygens h1 = each_keygen kg_begin_request (th_keygens h)"
proof (cases "bk_begin_request B t")
  case (Pair r1 t1)
  have t: "backend_of d i = Inr t" using h by (simp add: backend_of_def)
  show ?thesis
  proof (cases r1)
    case (Inl e)
    have "kept i h t d'"
      using run h Pair Inl begin_law [OF Pair]
      by (auto simp: open_savepoints_def t kept_def same_shown_def set_backend_def with_handle_def)
    then show ?thesis using run Pair Inl by (intro failed) (auto simp: open_savepoints_def t)
  next
    case (Inr u)
    then show ?thesis
      using run h Pair opened [of t1]
      by (auto simp: open_savepoints_def t with_handle_def)
  qed
qed

lemma close_success:
  assumes b: "bk_begin_request B t0 = (Inr (), t)" and h: "dr_txns d i = Some h" "th_backend h = Some t"
    and gs: "th_keygens h = each_keygen kg_begin_request gs" and d1: "ran B i h t d1"
    and P: "\<And>t t'. P t \<Longrightarrow> same_shown t t' \<Longrightarrow> P t'" "backend_sat i P d1"
  shows "\<exists>d2. close_savepoints B i True d1 = (Inr (), d2) \<and> advanced_to P i h d2"
proof -
  obtain h1 t1 where h1: "dr_txns d1 i = Some h1" "th_backend h1 = Some t1" "bk_ops B t t1" "th_meta h1 = th_meta h"
    "keygens_moved (th_keygens h) (th_keygens h1)" "distinct (map fst (th_keygens h)) \<longrightarrow> distinct (map fst (th_keygens h1))"
    using d1 by (auto simp: ran_def)
  obtain t2 where t2: "bk_commit_request B t1 = (Inr (), t2)" "same_shown t1 t2"
    using commit_law [OF b h1(3)] by (auto simp: same_shown_def)
  have "\<forall>q \<in> set (th_keygens h1). kg_save_stack (snd q) \<noteq> []"
    using moved_open h1(5) gs by auto
  then obtain gs' where "commit_keygens (th_keygens h1) = (Inr (), gs')" "map fst gs' = map fst (th_keygens h1)"
    using commit_keygens_open by blast
  moreover have "P t2" using P t2(2) h1(1,2) by (auto simp: backend_sat_def)
  ultimately show ?thesis
    using h1 t2(1) by (simp add: close_savepoints_def advanced_to_def)
qed

lemma close_failure:
  assumes b: "bk_begin_request B t0 = (Inr (), t)" and h: "dr_txns d i = Some h" "th_backend h = Some t"
    and gs: "th_keygens h = each_keygen kg_begin_request (th_keygens h0)" "th_meta h = th_meta h0"
    and d1: "ran B i h t d1"
  shows "\<exists>d2. close_savepoints B i False d1 = (Inr (), d2) \<and> kept i h0 t0 d2"
proof -
  obtain h1 t1 where h1: "dr_txns d1 i = Some h1" "th_backend h1 = Some t1" "bk_ops B t t1" "th_meta h1 = th_meta h"
    "keygens_moved (th_keygens h) (th_keygens h1)" "distinct (map fst (th_keygens h)) \<longrightarrow> distinct (map fst (th_keygens h1))"
    using d1 by (auto simp: ran_def)
  obtain t2 where t2: "bk_rollback_request B t1 = (Inr (), t2)" "same_shown t0 t2"
    using rollback_law [OF b h1(3)] by (auto simp: same_shown_def)
  obtain new where new: "each_keygen (\<lambda>g. snd (kg_rollback_request g)) (th_keygens h1) = th_keygens h0 @ new"
    using rollback_moved h1(5) gs(1) by auto
  have "distinct (map fst (th_keygens h0)) \<longrightarrow> distinct (map fst (th_keygens h0 @ new))"
    using h1(6) gs(1) unfolding new [symmetric] by simp
  then show ?thesis
    using h1(1,2,4) t2 new gs(2) by (simp add: close_savepoints_def kept_def)
qed

section \<open>A request\<close>

text \<open>The three phases of a request whose savepoints open.\<close>

lemma execute_op_phases:
  assumes h: "dr_txns d i = Some h" "th_backend h = Some t" "distinct (map fst (th_keygens h))"
    and run: "execute_op B lim Bg i request_id op d = Some (r, d')" "r \<noteq> Inl Panics"
  obtains (unopened) e where "r = Inl e" "kept i h t d'"
  | (opened) t1 h1 d0 r1 d1 where "bk_begin_request B t = (Inr (), t1)" "dr_txns d0 i = Some h1"
      "th_backend h1 = Some t1" "th_meta h1 = th_meta h"
      "th_keygens h1 = each_keygen kg_begin_request (th_keygens h)"
      "execute_op_inner B lim Bg i request_id op d0 = Some (r1, d1)" "ran B i h1 t1 d1" "r1 \<noteq> Inl Panics"
      "(case close_savepoints B i (is_ok r1) d1 of (Inl f, d) \<Rightarrow> (Inl f, d) | (Inr _, d) \<Rightarrow> (r1, d)) = (r, d')"
proof -
  obtain r0 d0 where o: "open_savepoints B i d = (r0, d0)" by (metis prod.exhaust)
  from h(1,2) o show ?thesis
  proof (cases rule: open_savepoints_cases)
    case (failed e)
    then show ?thesis using run(1) by (intro unopened [of "backend_err e"]) (auto simp: execute_op_def o)
  next
    case (opened t1 h1)
    have distinct: "distinct (map fst (th_keygens h1))" using opened h(3) by simp
    obtain r1 d1 where inner: "execute_op_inner B lim Bg i request_id op d0 = Some (r1, d1)"
      using run(1) opened(1) by (auto simp: execute_op_def o)
    have res: "(if r1 = Inl Panics then (r1, d1)
        else case close_savepoints B i (is_ok r1) d1 of (Inl f, d) \<Rightarrow> (Inl f, d) | (Inr _, d) \<Rightarrow> (r1, d)) = (r, d')"
      using run(1) opened(1) inner by (simp add: execute_op_def o)
    then have "r1 \<noteq> Inl Panics" using run(2) by (auto split: if_splits)
    then show ?thesis
      using that(2) [OF opened(2,3,4,5,7) inner execute_op_inner_ran [OF opened(3,4) distinct inner]] res by simp
  qed
qed

lemma execute_op_failure:
  assumes h: "dr_txns d i = Some h" "th_backend h = Some t" "distinct (map fst (th_keygens h))"
    and run: "execute_op B lim Bg i request_id op d = Some (Inl f, d')" "f \<noteq> Panics"
  shows "kept i h t d'"
proof (rule execute_op_phases [OF h run(1)])
  show "Inl f \<noteq> Inl Panics" using run(2) by simp
next
  fix t1 h1 d0 r1 d1
  assume o: "bk_begin_request B t = (Inr (), t1)" "dr_txns d0 i = Some h1" "th_backend h1 = Some t1"
      "th_meta h1 = th_meta h" "th_keygens h1 = each_keygen kg_begin_request (th_keygens h)"
    and went: "ran B i h1 t1 d1"
    and res: "(case close_savepoints B i (is_ok r1) d1 of (Inl f, d) \<Rightarrow> (Inl f, d) | (Inr _, d) \<Rightarrow> (r1, d)) = (Inl f, d')"
  show ?thesis
  proof (cases r1)
    case (Inl g)
    obtain d2 where "close_savepoints B i False d1 = (Inr (), d2)" "kept i h t d2"
      using close_failure [OF o(1-3,5,4) went] by blast
    then show ?thesis using res Inl by auto
  next
    case (Inr x)
    have "\<exists>d2. close_savepoints B i True d1 = (Inr (), d2) \<and> advanced_to (\<lambda>_. True) i h1 d2"
      by (rule close_success [OF o(1-3,5) went]) (use went in \<open>auto simp: backend_sat_def ran_def\<close>)
    then show ?thesis using res Inr by auto
  qed
qed

lemma execute_op_success:
  assumes h: "dr_txns d i = Some h" "th_backend h = Some t" "distinct (map fst (th_keygens h))"
    and s: "schema_ids_ok (th_meta h)" and agree: "agrees lim Bg (th_meta h) t"
    and run: "execute_op B lim Bg i request_id op d = Some (Inr x, d')"
    and intact: "op_reads_back lim Bg (th_meta h) op"
  shows "advanced_to (agrees lim Bg (th_meta h)) i h d'"
proof (rule execute_op_phases [OF h run])
  let ?P = "agrees lim Bg (th_meta h)"
  fix t1 h1 d0 r1 d1
  assume o: "bk_begin_request B t = (Inr (), t1)" "dr_txns d0 i = Some h1" "th_backend h1 = Some t1"
      "th_meta h1 = th_meta h" "th_keygens h1 = each_keygen kg_begin_request (th_keygens h)"
    and inner: "execute_op_inner B lim Bg i request_id op d0 = Some (r1, d1)" and went: "ran B i h1 t1 d1"
    and res: "(case close_savepoints B i (is_ok r1) d1 of (Inl f, d) \<Rightarrow> (Inl f, d) | (Inr _, d) \<Rightarrow> (r1, d)) = (Inr x, d')"
  have r1: "r1 = Inr x" using res by (auto split: prod.splits sum.splits)
  have stable: "?P t'" if "?P u" "same_shown u t'" for u t'
    using that by (simp add: agrees_def same_shown_def)
  have "?P t1" using begin_law [OF o(1)] agree by (simp add: agrees_def)
  then have "backend_sat i ?P d1"
    using execute_op_inner_agrees [OF o(2,3), of lim Bg request_id op x d1] s intact inner r1 o(4) by simp
  then obtain d2 where "close_savepoints B i True d1 = (Inr (), d2)" "advanced_to ?P i h1 d2"
    using close_success [OF o(1-3,5) went, of ?P] stable by blast
  then show ?thesis using res r1 o(4,5) by (auto simp: advanced_to_def)
qed simp_all

section \<open>Requests return\<close>

text \<open>No walk of a request goes on for ever: a request always has an outcome.\<close>

lemma scan_rows_returns: "scan_rows B lim t source rng dir key_only row limit \<noteq> None"
proof (cases "rbind (to_encoded lim rng) (\<lambda>encoded. map_err backend_err (bk_scan B t source encoded dir key_only))")
  case (Inr c)
  then obtain encoded where e: "to_encoded lim rng = Inr encoded" "bk_scan B t source encoded dir key_only = Inr c"
    by auto
  show ?thesis using scan_loop_returns [OF scan_law [OF e(2)]] e by (simp add: scan_rows_def)
qed (simp add: scan_rows_def)

lemma delete_through_returns: "delete_through B i meta rng d \<noteq> None"
  by (simp add: os_delete_returns [unfolded not_None_eq [symmetric]] delete_through_def split: sum.split del: not_None_eq)

lemma read_returns:
  "collect_keys B lim t source rng limit \<noteq> None" "collect_values B lim Bg t source rng limit \<noteq> None"
  "materialize B lim Bg t source rng dir key_only \<noteq> None"
  by (simp_all add: collect_keys_def collect_values_def materialize_def scan_rows_returns del: not_None_eq)

lemma exec_read_returns: "exec_read B lim Bg i op d \<noteq> None"
  by (cases op) (simp_all add: read_returns exec_read_def split: sum.split del: not_None_eq)

lemma exec_cursor_op_returns: "exec_cursor_op B lim Bg i meta cid action d \<noteq> None"
  by (cases action) (simp_all add: delete_through_returns exec_cursor_op_def split: sum.split del: not_None_eq)

lemma execute_op_inner_returns: "execute_op_inner B lim Bg i request_id op d \<noteq> None"
proof (cases op)
  case (OpDelete store rng)
  then show ?thesis
    by (simp add: delete_through_returns execute_op_inner_def Let_def split: option.split sum.split del: not_None_eq)
next
  case (OpClear store)
  then show ?thesis
    by (simp add: os_clear_returns [unfolded not_None_eq [symmetric]] execute_op_inner_def Let_def split: option.split sum.split del: not_None_eq)
next
  case (OpOpenCursor source rng dir key_only)
  then show ?thesis
    by (simp add: read_returns(3) execute_op_inner_def exec_open_cursor_def Let_def split: option.split sum.split prod.split del: not_None_eq)
next
  case (OpCursorOp cid action)
  then show ?thesis
    by (simp add: exec_cursor_op_returns execute_op_inner_def Let_def split: option.split del: not_None_eq)
qed (simp_all add: exec_read_returns execute_op_inner_def Let_def split: option.split del: not_None_eq)

lemma execute_op_returns: "\<exists>r. execute_op B lim Bg i request_id op d = Some r"
  unfolding not_None_eq [symmetric]
  by (simp add: execute_op_inner_returns execute_op_def split: sum.split prod.split del: not_None_eq)

end

end
