(* ===== verification/Driver_Reads.thy ===== *)
theory Driver_Reads
  imports Driver_Exec Index_Consistency
begin

text \<open>
  What the reading operations of the driver return for a store: \<open>getKey\<close>, \<open>getAllKeys\<close> and an ascending
  cursor, as functions of the records the transaction shows. Proved from the laws of the backend.
\<close>

definition keys_in :: "(store_id \<times> bytes \<rightharpoonup> bytes) \<Rightarrow> store_id \<Rightarrow> encoded_range \<Rightarrow> bytes list" where
  "keys_in R store rng = sorted_list_of_set {k. R (store, k) \<noteq> None \<and> contains rng k}"

text \<open>The row of a key: the key itself as the primary key, and the value unless only keys are asked for.\<close>

definition stored_row ::
    "limit_config \<Rightarrow> 'b bigint_ops \<Rightarrow> (store_id \<times> bytes \<rightharpoonup> bytes) \<Rightarrow> store_id \<Rightarrow> bool \<Rightarrow> bytes \<Rightarrow> op_fault + 'b row \<times> nat" where
  "stored_row lim Bg R store key_only k =
     rbind (decode_key_at k) (\<lambda>key.
     rbind (if key_only then Inr (None, 0)
            else rbind (decode_value lim Bg (the (R (store, k)))) (\<lambda>v. Inr (Some v, length (the (R (store, k))))))
       (\<lambda>(v, n). Inr (\<lparr>rw_key = key, rw_primary_key = key, rw_value = v\<rparr>, n)))"

lemma rows_within_map: "rows_within limit n (map f cs) = map f (rows_within limit n cs)"
  by (simp add: rows_within_def take_map split: option.split)

lemma set_rows_within: "set (rows_within limit n cs) \<subseteq> set cs"
  by (simp add: rows_within_def set_take_subset split: option.split)

lemma rows_within_all [simp]: "rows_within None n cs = cs"
  by (simp add: rows_within_def)

lemma decode_twice: "rbind (decode_key_at k) (\<lambda>key. rbind (decode_key_at k) (f key)) = rbind (decode_key_at k) (\<lambda>key. f key key)"
  by (cases "decode_key_at k") simp_all

lemma rbind_id: "rbind r Inr = r"
  by (cases r) simp_all

context storage_backend
begin

text \<open>The positions of an ascending scan of a store.\<close>

lemma store_trail:
  assumes "bk_scan B t (SrcStore store) rng Next key_only = Inr c"
  shows "\<exists>cs. trail B t (bk_seek B t SeekFirst c) cs \<and> map (bk_current_key B) cs = keys_in (recs t) store rng \<and>
    (\<forall>c \<in> set cs. bk_current_primary_key B c = bk_current_key B c \<and> recs t (store, bk_current_key B c) \<noteq> None \<and>
       bk_current_value B c = (if key_only then None else recs t (store, bk_current_key B c)))"
proof -
  obtain cs where cs: "trail B t (bk_seek B t SeekFirst c) cs" "sorted_wrt (<) (map (bk_current_key B) cs)"
    "set (map (bk_current_key B) cs) = {k. recs t (store, k) \<noteq> None \<and> contains rng k}"
    "\<forall>c \<in> set cs. bk_current_primary_key B c = bk_current_key B c \<and>
       bk_current_value B c = (if key_only then None else recs t (store, bk_current_key B c))"
    using walk_law [OF assms] by blast
  have "map (bk_current_key B) cs = keys_in (recs t) store rng"
    unfolding keys_in_def cs(3) [symmetric]
    using cs(2) unfolding strict_sorted_iff
    by (intro sorted_list_of_set.idem_if_sorted_distinct [symmetric]) simp_all
  moreover have "recs t (store, bk_current_key B c) \<noteq> None" if "c \<in> set cs" for c
    using cs(3) that by auto
  ultimately show ?thesis using cs(1,4) by blast
qed

lemma collect_keys_store:
  assumes "to_encoded lim rng = Inr er" "bk_scan B t (SrcStore store) er Next True = Inr c"
  shows "collect_keys B lim t (SrcStore store) rng limit =
    Some (traverse decode_key_at (rows_within limit 0 (keys_in (recs t) store er)))"
proof -
  obtain cs where cs: "trail B t (bk_seek B t SeekFirst c) cs" "map (bk_current_key B) cs = keys_in (recs t) store er"
    "\<forall>c \<in> set cs. bk_current_primary_key B c = bk_current_key B c \<and> recs t (store, bk_current_key B c) \<noteq> None \<and>
       bk_current_value B c = (if True then None else recs t (store, bk_current_key B c))"
    using store_trail [OF assms(2)] by blast
  have "traverse (\<lambda>c. decode_key_at (bk_current_primary_key B c)) (rows_within limit 0 cs) =
      traverse (\<lambda>c. decode_key_at (bk_current_key B c)) (rows_within limit 0 cs)"
    using cs(3) set_rows_within [of limit 0 cs] by (intro traverse_cong) auto
  also have "\<dots> = traverse decode_key_at (rows_within limit 0 (keys_in (recs t) store er))"
    by (simp add: cs(2) [symmetric] rows_within_map traverse_map)
  finally show ?thesis
    using assms by (simp add: scan_loop_trail [OF cs(1)] rbind_id collect_keys_def scan_rows_def)
qed

lemma materialize_store:
  assumes "to_encoded lim rng = Inr er" "bk_scan B t (SrcStore store) er Next key_only = Inr c"
  shows "materialize B lim Bg t (SrcStore store) rng Next key_only =
    Some (rbind (traverse (stored_row lim Bg (recs t) store key_only) (keys_in (recs t) store er))
      (\<lambda>rows. Inr (map fst rows, fold (\<lambda>(_, n) read. usize_add read n) rows 0)))"
proof -
  obtain cs where cs: "trail B t (bk_seek B t SeekFirst c) cs" "map (bk_current_key B) cs = keys_in (recs t) store er"
    "\<forall>c \<in> set cs. bk_current_primary_key B c = bk_current_key B c \<and> recs t (store, bk_current_key B c) \<noteq> None \<and>
       bk_current_value B c = (if key_only then None else recs t (store, bk_current_key B c))"
    using store_trail [OF assms(2)] by blast
  have "read_row B lim Bg key_only c = stored_row lim Bg (recs t) store key_only (bk_current_key B c)" if "c \<in> set cs" for c
    using cs(3) that by (auto simp: read_row_def stored_row_def decode_twice)
  then have "traverse (read_row B lim Bg key_only) cs =
      traverse (\<lambda>c. stored_row lim Bg (recs t) store key_only (bk_current_key B c)) cs"
    by (rule traverse_cong)
  also have "\<dots> = traverse (stored_row lim Bg (recs t) store key_only) (keys_in (recs t) store er)"
    by (simp add: cs(2) [symmetric] traverse_map)
  finally show ?thesis
    using assms by (simp add: scan_loop_trail [OF cs(1)] rbind_id materialize_def scan_rows_def)
qed

lemma first_key_store:
  assumes "to_encoded lim rng = Inr er" "bk_scan B t (SrcStore store) er Next True = Inr c"
  shows "first_key B lim t (SrcStore store) rng =
    (case keys_in (recs t) store er of [] \<Rightarrow> Inr None | k # _ \<Rightarrow> rbind (decode_key_at k) (\<lambda>key. Inr (Some key)))"
proof -
  obtain cs where cs: "trail B t (bk_seek B t SeekFirst c) cs" "map (bk_current_key B) cs = keys_in (recs t) store er"
    "\<forall>c \<in> set cs. bk_current_primary_key B c = bk_current_key B c \<and> recs t (store, bk_current_key B c) \<noteq> None \<and>
       bk_current_value B c = (if True then None else recs t (store, bk_current_key B c))"
    using store_trail [OF assms(2)] by blast
  show ?thesis
    using cs(1)
    by cases (use cs(2) [symmetric] cs(3) assms in \<open>auto simp: first_key_def\<close>)
qed

end

end
