(* ===== verification/Driver_Schema.thy ===== *)
theory Driver_Schema
  imports Driver_Atomic Driver_Reads
begin

text \<open>
  The schema operations of an upgrade transaction, \<open>schema_create_store\<close> to \<open>schema_rename_index\<close> of
  \<open>boa_idb/src/driver.rs\<close>, with the lookups of stores and indexes by name. A new index is filled
  from the records that are already there; afterwards its entries are those the records derive,
  as the operations on records keep them. Names are UTF-16 strings here; the code converts them
  from strings where it looks them up.
\<close>

section \<open>Handles and names\<close>

text \<open>\<open>upgrade_handle_mut\<close>, with the backend its guard ensures.\<close>

definition upgrade_handle :: "('t, 'b) driver \<Rightarrow> txn_id \<Rightarrow> op_fault + 't txn_handle \<times> 't" where
  "upgrade_handle d i =
     (case dr_txns d i of
        None \<Rightarrow> Inl (Fails IdbTransactionInactive)
      | Some h \<Rightarrow>
          if th_finished h \<or> th_mode h \<noteq> VersionChange then Inl (Fails IdbInvalidState)
          else (case th_backend h of None \<Rightarrow> Inl (Fails IdbInvalidState) | Some t \<Rightarrow> Inr (h, t)))"

text \<open>A call of the backend of the handle.\<close>

definition on_backend ::
    "txn_id \<Rightarrow> ('t \<Rightarrow> (op_fault + 'a) \<times> 't) \<Rightarrow> ('t, 'b) driver \<Rightarrow> (op_fault + 'a) \<times> ('t, 'b) driver" where
  "on_backend i f d =
     (case upgrade_handle d i of
        Inl e \<Rightarrow> (Inl e, d)
      | Inr (h, t) \<Rightarrow> (case f t of (r, t) \<Rightarrow> (r, set_backend i t d)))"

definition edit_meta :: "txn_id \<Rightarrow> (database_meta \<Rightarrow> database_meta) \<Rightarrow> ('t, 'b) driver \<Rightarrow> ('t, 'b) driver" where
  "edit_meta i f = with_handle i (\<lambda>h. h\<lparr>th_meta := f (th_meta h)\<rparr>)"

definition edit_store :: "store_id \<Rightarrow> (store_meta \<Rightarrow> store_meta) \<Rightarrow> database_meta \<Rightarrow> database_meta" where
  "edit_store store f m = m\<lparr>db_stores := update_first (\<lambda>s. st_id s = store) f (db_stores m)\<rparr>"

definition edit_index :: "index_id \<Rightarrow> (index_meta \<Rightarrow> index_meta) \<Rightarrow> store_meta \<Rightarrow> store_meta" where
  "edit_index index f s = s\<lparr>st_indexes := update_first (\<lambda>x. ix_id x = index) f (st_indexes s)\<rparr>"

definition store_named :: "utf16 \<Rightarrow> database_meta \<Rightarrow> op_fault + store_meta" where
  "store_named name m =
     (case find (\<lambda>s. \<not> st_deleted s \<and> st_name s = name) (db_stores m) of
        None \<Rightarrow> Inl (Fails IdbNotFound) | Some s \<Rightarrow> Inr s)"

definition index_named :: "utf16 \<Rightarrow> store_meta \<Rightarrow> op_fault + index_meta" where
  "index_named name s =
     (case find (\<lambda>x. \<not> ix_deleted x \<and> ix_name x = name) (st_indexes s) of
        None \<Rightarrow> Inl (Fails IdbNotFound) | Some x \<Rightarrow> Inr x)"

definition store_exists :: "utf16 \<Rightarrow> database_meta \<Rightarrow> bool" where
  "store_exists name m \<longleftrightarrow> list_ex (\<lambda>s. \<not> st_deleted s \<and> st_name s = name) (db_stores m)"

definition index_exists :: "utf16 \<Rightarrow> store_meta \<Rightarrow> bool" where
  "index_exists name s \<longleftrightarrow> list_ex (\<lambda>x. \<not> ix_deleted x \<and> ix_name x = name) (st_indexes s)"

definition txn_store_id :: "('t, 'b) driver \<Rightarrow> txn_id \<Rightarrow> utf16 \<Rightarrow> op_fault + store_id" where
  "txn_store_id d i name =
     (case dr_txns d i of
        None \<Rightarrow> Inl (Fails IdbTransactionInactive)
      | Some h \<Rightarrow>
          if th_finished h then Inl (Fails IdbTransactionInactive)
          else
            (case find (\<lambda>s. st_name s = name)
                    (filter (\<lambda>s. th_mode h = VersionChange \<or> st_id s \<in> set (th_scope h))
                      (filter (\<lambda>s. \<not> st_deleted s) (db_stores (th_meta h)))) of
               None \<Rightarrow> Inl (Fails IdbNotFound)
             | Some s \<Rightarrow> Inr (st_id s)))"

definition live_handle :: "('t, 'b) driver \<Rightarrow> txn_id \<Rightarrow> 't txn_handle option" where
  "live_handle d i = (case dr_txns d i of None \<Rightarrow> None | Some h \<Rightarrow> if th_finished h then None else Some h)"

definition txn_store_view :: "('t, 'b) driver \<Rightarrow> txn_id \<Rightarrow> store_id \<Rightarrow> op_fault + store_meta" where
  "txn_store_view d i store =
     (case Option.bind (live_handle d i) (\<lambda>h. find (\<lambda>s. st_id s = store) (db_stores (th_meta h))) of
        None \<Rightarrow> Inl (Fails IdbNotFound) | Some s \<Rightarrow> Inr s)"

definition store_index_view :: "('t, 'b) driver \<Rightarrow> txn_id \<Rightarrow> store_id \<Rightarrow> utf16 \<Rightarrow> op_fault + index_meta" where
  "store_index_view d i store name =
     (case Option.bind (live_handle d i) (\<lambda>h.
             Option.bind (find (\<lambda>s. st_id s = store \<and> \<not> st_deleted s) (db_stores (th_meta h))) (\<lambda>s.
             find (\<lambda>x. \<not> ix_deleted x \<and> ix_name x = name) (st_indexes s))) of
        None \<Rightarrow> Inl (Fails IdbNotFound) | Some x \<Rightarrow> Inr x)"

definition store_index_names :: "('t, 'b) driver \<Rightarrow> txn_id \<Rightarrow> store_id \<Rightarrow> utf16 list" where
  "store_index_names d i store =
     (case Option.bind (dr_txns d i) (\<lambda>h.
             find (\<lambda>s. st_id s = store \<and> \<not> st_deleted s) (db_stores (th_meta h))) of
        None \<Rightarrow> []
      | Some s \<Rightarrow> map ix_name (filter (\<lambda>x. \<not> ix_deleted x) (st_indexes s)))"

text \<open>The committed metadata, if the database can be opened, is an argument.\<close>

definition db_store_names :: "database_meta option \<Rightarrow> ('t, 'b) driver \<Rightarrow> txn_id option \<Rightarrow> utf16 list" where
  "db_store_names opened d upgrade =
     (let names = (\<lambda>m. map st_name (filter (\<lambda>s. \<not> st_deleted s) (db_stores m))) in
      case Option.bind upgrade (live_handle d) of
        Some h \<Rightarrow> names (th_meta h)
      | None \<Rightarrow> (case opened of None \<Rightarrow> [] | Some m \<Rightarrow> names m))"

section \<open>Stores\<close>

definition schema_create_store ::
    "('t, 'c) backend_txn \<Rightarrow> txn_id \<Rightarrow> utf16 \<Rightarrow> key_path option \<Rightarrow> bool \<Rightarrow> ('t, 'b) driver \<Rightarrow>
       (op_fault + store_meta) \<times> ('t, 'b) driver" where
  "schema_create_store B i name key_path auto_increment d =
     (if auto_increment \<and> (case key_path of None \<Rightarrow> False | Some (PathSingle _) \<Rightarrow> False | Some _ \<Rightarrow> True)
      then (Inl (Fails IdbInvalidAccess), d)
      else
        let kp = (case key_path of None \<Rightarrow> PathEmpty | Some kp \<Rightarrow> kp) in
        sbind (upgrade_handle d i, d) (\<lambda>(h, _) d.
          if store_exists name (th_meta h) then (Inl (Fails IdbConstraint), d)
          else
            sbind (on_backend i (\<lambda>t. on_err backend_err (bk_create_store B t
                \<lparr>ssp_name = name, ssp_key_path = kp, ssp_auto_increment = auto_increment\<rparr>)) d) (\<lambda>store d.
              let meta = \<lparr>st_id = store, st_name = name, st_key_path = kp, st_auto_increment = auto_increment,
                          st_key_gen = f64_of_int 1, st_indexes = [], st_deleted = False\<rparr>
              in (Inr meta, edit_meta i (\<lambda>m. m\<lparr>
                   db_next_store_id := (if store \<ge> db_next_store_id m then store + 1 else db_next_store_id m),
                   db_stores := db_stores m @ [meta]\<rparr>) d))))"

fun dec_units :: "nat \<Rightarrow> utf16" where
  "dec_units n = (if n < 10 then [of_nat (48 + n)] else dec_units (n div 10) @ [of_nat (48 + n mod 10)])"

declare dec_units.simps [simp del]

text \<open>\<open>boa-deleted\<close> after a zero unit, and the two identifiers.\<close>

definition tombstone_name :: "txn_id \<Rightarrow> store_id \<Rightarrow> utf16" where
  "tombstone_name i store =
     [0, 98, 111, 97, 45, 100, 101, 108, 101, 116, 101, 100, 45] @ dec_units i @ [45] @ dec_units store"

definition schema_delete_store ::
    "('t, 'c) backend_txn \<Rightarrow> txn_id \<Rightarrow> utf16 \<Rightarrow> ('t, 'b) driver \<Rightarrow> (op_fault + unit) \<times> ('t, 'b) driver" where
  "schema_delete_store B i name d =
     sbind (rbind (upgrade_handle d i) (\<lambda>(h, _). store_named name (th_meta h)), d) (\<lambda>s d.
     sbind (on_backend i (\<lambda>t. on_err backend_err (bk_rename_store B t (st_id s) (tombstone_name i (st_id s)))) d)
       (\<lambda>_ d.
         (Inr (), with_handle i (\<lambda>h. h\<lparr>th_meta := edit_store (st_id s) (\<lambda>s. s\<lparr>st_deleted := True\<rparr>) (th_meta h),
                                     th_deleted_store_ids := th_deleted_store_ids h @ [st_id s]\<rparr>) d)))"

definition schema_rename_store ::
    "('t, 'c) backend_txn \<Rightarrow> txn_id \<Rightarrow> utf16 \<Rightarrow> utf16 \<Rightarrow> ('t, 'b) driver \<Rightarrow> (op_fault + unit) \<times> ('t, 'b) driver" where
  "schema_rename_store B i old_name new_name d =
     sbind (upgrade_handle d i, d) (\<lambda>(h, _) d.
     sbind (store_named old_name (th_meta h), d) (\<lambda>s d.
       if store_exists new_name (th_meta h) then (Inl (Fails IdbConstraint), d)
       else
         sbind (on_backend i (\<lambda>t. on_err backend_err (bk_rename_store B t (st_id s) new_name)) d) (\<lambda>_ d.
           (Inr (), edit_meta i (edit_store (st_id s) (\<lambda>s. s\<lparr>st_name := new_name\<rparr>)) d))))"

section \<open>Indexes\<close>

definition collect_store_pkeys ::
    "('t, 'c) backend_txn \<Rightarrow> 't \<Rightarrow> store_id \<Rightarrow> (op_fault + bytes list) option" where
  "collect_store_pkeys B t store =
     (case bk_scan B t (SrcStore store) range_all Next True of
        Inl e \<Rightarrow> Some (Inl (backend_err e))
      | Inr c \<Rightarrow> scan_loop B (\<lambda>c. Inr (bk_current_primary_key B c)) None t (bk_seek B t SeekFirst c) [])"

definition collect_store_rows ::
    "('t, 'c) backend_txn \<Rightarrow> 't \<Rightarrow> store_id \<Rightarrow> (op_fault + (bytes \<times> bytes) list) option" where
  "collect_store_rows B t store =
     (case bk_scan B t (SrcStore store) range_all Next False of
        Inl e \<Rightarrow> Some (Inl (backend_err e))
      | Inr c \<Rightarrow>
          scan_loop B (\<lambda>c. Inr (bk_current_primary_key B c,
                                case bk_current_value B c of None \<Rightarrow> [] | Some v \<Rightarrow> v))
            None t (bk_seek B t SeekFirst c) [])"

text \<open>The loop over the keys of one record; \<open>seen\<close> are the encoded keys it has already put.\<close>

fun backfill_keys ::
    "('t, 'c) backend_txn \<Rightarrow> limit_config \<Rightarrow> index_id \<Rightarrow> bool \<Rightarrow> bytes \<Rightarrow> key list \<Rightarrow> bytes list \<Rightarrow> 't \<Rightarrow>
       (op_fault + unit) \<times> 't" where
  "backfill_keys B lim index unique pkey [] seen t = (Inr (), t)"
| "backfill_keys B lim index unique pkey (k # ks) seen t =
     sbind (enc_key lim k, t) (\<lambda>encoded t.
       if encoded \<in> set seen then backfill_keys B lim index unique pkey ks seen t
       else
         sbind (oi_put B index encoded pkey unique t)
           (\<lambda>_. backfill_keys B lim index unique pkey ks (seen @ [encoded])))"

definition backfill_row ::
    "('t, 'c) backend_txn \<Rightarrow> limit_config \<Rightarrow> 'b bigint_ops \<Rightarrow> index_id \<Rightarrow> key_path \<Rightarrow> bool \<Rightarrow> bool \<Rightarrow>
       bytes \<times> bytes \<Rightarrow> 't \<Rightarrow> (op_fault + unit) \<times> 't" where
  "backfill_row B lim Bg index kp multi_entry unique r t =
     sbind (map_err (scf_err IdbNotReadable) (decode_scf lim Bg (snd r)), t) (\<lambda>v t.
     sbind (map_err key_err (kp_extract kp v), t) (\<lambda>k t.
       case k of
         None \<Rightarrow> (Inr (), t)
       | Some k \<Rightarrow>
           backfill_keys B lim index unique (fst r) (if multi_entry then expand_multi_entry_key k else [k]) [] t))"

definition backfill_index ::
    "('t, 'c) backend_txn \<Rightarrow> limit_config \<Rightarrow> 'b bigint_ops \<Rightarrow> store_id \<Rightarrow> index_id \<Rightarrow> key_path \<Rightarrow> bool \<Rightarrow>
       bool \<Rightarrow> 't \<Rightarrow> ((op_fault + unit) \<times> 't) option" where
  "backfill_index B lim Bg store index kp multi_entry unique t =
     map_option (\<lambda>rows.
       sbind (rows, t) (\<lambda>rows. for_each (backfill_row B lim Bg index kp multi_entry unique) rows))
     (collect_store_rows B t store)"

text \<open>The keys the backfill takes from one record, as a set. A \<open>multiEntry\<close> index takes the elements of an
  array key; what \<open>put\<close> derives goes through \<open>extract_multi_entry\<close> instead and can differ.\<close>

definition backfilled_keys :: "limit_config \<Rightarrow> 'b bigint_ops \<Rightarrow> index_meta \<Rightarrow> bytes \<Rightarrow> bytes set" where
  "backfilled_keys lim Bg index bs =
     (case decode_scf lim Bg bs of
        Inl _ \<Rightarrow> {}
      | Inr v \<Rightarrow>
          (case kp_extract (ix_key_path index) v of
             Inr (Some k) \<Rightarrow>
               (case encode_distinct lim (if ix_multi_entry index then expand_multi_entry_key k else [k]) [] of
                  Inl _ \<Rightarrow> {} | Inr ks \<Rightarrow> set ks)
           | _ \<Rightarrow> {}))"

lemma backfilled_single: "\<not> ix_multi_entry index \<Longrightarrow> backfilled_keys lim Bg index bs = derived_keys lim Bg index bs"
  by (auto simp: backfilled_keys_def derived_keys_def index_keys_for_value_def split: sum.split option.split)

text \<open>Everything but the scan of the backfill is straight-line: the operation is \<open>None\<close> exactly if that scan
  does not end.\<close>

definition schema_create_index ::
    "('t, 'c) backend_txn \<Rightarrow> limit_config \<Rightarrow> 'b bigint_ops \<Rightarrow> txn_id \<Rightarrow> utf16 \<Rightarrow> utf16 \<Rightarrow> key_path \<Rightarrow> bool \<Rightarrow>
       bool \<Rightarrow> ('t, 'b) driver \<Rightarrow> ((op_fault + index_meta) \<times> ('t, 'b) driver) option" where
  "schema_create_index B lim Bg i store_name name kp unique multi_entry d =
     (if multi_entry \<and> (case kp of PathArray _ \<Rightarrow> True | _ \<Rightarrow> False) then Some (Inl (Fails IdbInvalidAccess), d)
      else
        case rbind (upgrade_handle d i) (\<lambda>(h, _). store_named store_name (th_meta h)) of
          Inl f \<Rightarrow> Some (Inl f, d)
        | Inr s \<Rightarrow>
            let store = st_id s in
            case rbind (upgrade_handle d i) (\<lambda>(h, _). find_store (th_meta h) store) of
              Inl f \<Rightarrow> Some (Inl f, d)
            | Inr s \<Rightarrow>
                if index_exists name s then Some (Inl (Fails IdbConstraint), d)
                else
                  (case on_backend i (\<lambda>t. on_err backend_err (bk_create_index B t store
                          \<lparr>isp_name = name, isp_key_path = kp, isp_unique = unique, isp_multi_entry = multi_entry\<rparr>)) d of
                     (Inl f, d) \<Rightarrow> Some (Inl f, d)
                   | (Inr index, d) \<Rightarrow>
                       (case upgrade_handle d i of
                          Inl f \<Rightarrow> Some (Inl f, d)
                        | Inr (_, t) \<Rightarrow>
                            map_option (\<lambda>(r, t).
                              sbind (r, set_backend i t d) (\<lambda>_ d.
                                let meta = \<lparr>ix_id = index, ix_store_id = store, ix_name = name, ix_key_path = kp,
                                            ix_unique = unique, ix_multi_entry = multi_entry, ix_deleted = False\<rparr>
                                in (Inr meta, edit_meta i (\<lambda>m.
                                      edit_store store (\<lambda>s. s\<lparr>st_indexes := st_indexes s @ [meta]\<rparr>)
                                        (m\<lparr>db_next_index_id := (if index \<ge> db_next_index_id m then index + 1
                                                                else db_next_index_id m)\<rparr>)) d)))
                            (backfill_index B lim Bg store index kp multi_entry unique t))))"

definition drop_entries :: "('t, 'c) backend_txn \<Rightarrow> store_id \<Rightarrow> index_id \<Rightarrow> 't \<Rightarrow> ((op_fault + unit) \<times> 't) option" where
  "drop_entries B store index t =
     map_option (\<lambda>pkeys.
       sbind (pkeys, t) (\<lambda>pkeys t.
       sbind (for_each (\<lambda>pk t. on_err backend_err (bk_index_delete_by_primary B t index pk)) pkeys t) (\<lambda>_ t.
       on_err backend_err (bk_delete_index B t store index))))
     (collect_store_pkeys B t store)"

definition schema_delete_index ::
    "('t, 'c) backend_txn \<Rightarrow> txn_id \<Rightarrow> utf16 \<Rightarrow> utf16 \<Rightarrow> ('t, 'b) driver \<Rightarrow>
       ((op_fault + unit) \<times> ('t, 'b) driver) option" where
  "schema_delete_index B i store_name name d =
     (case rbind (upgrade_handle d i) (\<lambda>(h, t).
             rbind (store_named store_name (th_meta h)) (\<lambda>s.
             rbind (index_named name s) (\<lambda>x. Inr (st_id s, ix_id x, t)))) of
        Inl f \<Rightarrow> Some (Inl f, d)
      | Inr (store, index, t) \<Rightarrow>
          map_option (\<lambda>(r, t).
            sbind (r, set_backend i t d) (\<lambda>_ d.
              (Inr (), edit_meta i (edit_store store (edit_index index (\<lambda>x. x\<lparr>ix_deleted := True\<rparr>))) d)))
          (drop_entries B store index t))"

definition schema_rename_index ::
    "('t, 'c) backend_txn \<Rightarrow> txn_id \<Rightarrow> utf16 \<Rightarrow> utf16 \<Rightarrow> utf16 \<Rightarrow> ('t, 'b) driver \<Rightarrow>
       (op_fault + unit) \<times> ('t, 'b) driver" where
  "schema_rename_index B i store_name old_name new_name d =
     sbind (rbind (upgrade_handle d i) (\<lambda>(h, _). store_named store_name (th_meta h)), d) (\<lambda>s d.
       if index_exists new_name s then (Inl (Fails IdbConstraint), d)
       else
         sbind (index_named old_name s, d) (\<lambda>x d.
         sbind (on_backend i (\<lambda>t. on_err backend_err (bk_rename_index B t (st_id s) (ix_id x) new_name)) d) (\<lambda>_ d.
           (Inr (), edit_meta i (edit_store (st_id s) (edit_index (ix_id x) (\<lambda>x. x\<lparr>ix_name := new_name\<rparr>))) d))))"

section \<open>What a backfill puts\<close>

lemma encode_distinct_grows: "encode_distinct lim ks seen = Inr out \<Longrightarrow> set seen \<subseteq> set out"
proof (induction ks arbitrary: seen)
  case (Cons k ks)
  then obtain e where "encode_distinct lim ks (if e \<in> set seen then seen else seen @ [e]) = Inr out" by auto
  from Cons.IH [OF this] show ?case by (auto split: if_splits)
qed simp

lemma enc_key_Inr: "enc_key lim k = Inr e \<longleftrightarrow> encode_key_vec lim k = Inr e"
  by (simp add: enc_key_def)

locale schema_backend = storage_backend B recs idx gen
  for B :: "('t, 'c) backend_txn" and recs :: "'t \<Rightarrow> store_id \<times> bytes \<rightharpoonup> bytes"
    and idx :: "'t \<Rightarrow> (index_id \<times> bytes \<times> bytes) set" and gen :: "'t \<Rightarrow> store_id \<Rightarrow> f64" +
  assumes create_index_law: "bk_create_index B t store spec = (created, t') \<Longrightarrow>
      recs t' = recs t \<and> idx t' = idx t \<and> gen t' = gen t"
    and delete_index_law: "bk_delete_index B t store index = (deleted, t') \<Longrightarrow>
      recs t' = recs t \<and> idx t' = idx t \<and> gen t' = gen t"
begin

lemma backfill_keys_effect:
  assumes "backfill_keys B lim i unique pk ks seen t = (Inr (), t')"
  shows "\<exists>out. encode_distinct lim ks seen = Inr out \<and> only_entries t t' \<and>
    idx t' = idx t \<union> entries_of i pk (set out - set seen) \<and>
    (unique \<longrightarrow> unique_index (idx t) i \<longrightarrow> unique_index (idx t') i)"
  using assms
proof (induction ks arbitrary: seen t)
  case Nil
  then show ?case by (simp add: entries_of_def)
next
  case (Cons k ks)
  obtain e where ek: "enc_key lim k = Inr e" using Cons.prems by (cases "enc_key lim k") auto
  then have e: "encode_key_vec lim k = Inr e" by (simp add: enc_key_Inr)
  show ?case
  proof (cases "e \<in> set seen")
    case True
    then have "backfill_keys B lim i unique pk ks seen t = (Inr (), t')" using Cons.prems ek by simp
    from Cons.IH [OF this] show ?thesis using True e by simp
  next
    case False
    then obtain u where u: "bk_index_put B t i e pk unique = (Inr (), u)"
      "backfill_keys B lim i unique pk ks (seen @ [e]) u = (Inr (), t')"
      using Cons.prems ek by (auto simp: sbind_Inr oi_put_def)
    obtain out where out: "encode_distinct lim ks (seen @ [e]) = Inr out" "only_entries u t'"
      "idx t' = idx u \<union> entries_of i pk (set out - set (seen @ [e]))"
      "unique \<longrightarrow> unique_index (idx u) i \<longrightarrow> unique_index (idx t') i"
      using Cons.IH [OF u(2)] by blast
    have step: "only_entries t u" "idx u = insert (i, e, pk) (idx t)"
      "unique \<longrightarrow> unique_index (idx t) i \<longrightarrow> unique_index (idx u) i"
      using index_put_law [OF u(1)] unique_index_insert by (auto simp: only_entries_def)
    have "e \<in> set out" using encode_distinct_grows [OF out(1)] by simp
    then have "set out - set seen = insert e (set out - set (seen @ [e]))" using False by auto
    then have "entries_of i pk (set out - set seen) = insert (i, e, pk) (entries_of i pk (set out - set (seen @ [e])))"
      by (auto simp: entries_of_def)
    then have "idx t' = idx t \<union> entries_of i pk (set out - set seen)" using out(3) step(2) by simp
    moreover have "encode_distinct lim (k # ks) seen = Inr out" using out(1) e False by simp
    ultimately show ?thesis using out(4) step(3) only_entries_trans [OF step(1) out(2)] by blast
  qed
qed

text \<open>The keys of a record that a backfill puts are those the index derives from it, for an index that is
  not \<open>multiEntry\<close>.\<close>

definition fills :: "index_id \<Rightarrow> bytes \<Rightarrow> bytes set \<Rightarrow> bool \<Rightarrow> 't \<Rightarrow> 't \<Rightarrow> bool" where
  "fills i pk K unique t t' \<longleftrightarrow> only_entries t t' \<and> idx t' = idx t \<union> entries_of i pk K \<and>
     (unique \<longrightarrow> unique_index (idx t) i \<longrightarrow> unique_index (idx t') i)"

lemma backfill_row_effect:
  assumes run: "backfill_row B lim Bg (ix_id index) (ix_key_path index) (ix_multi_entry index) unique (pk, bs) t = (Inr (), t')"
  shows "fills (ix_id index) pk (backfilled_keys lim Bg index bs) unique t t'"
proof -
  obtain v r where v: "decode_scf lim Bg bs = Inr v" "kp_extract (ix_key_path index) v = Inr r"
    using run by (auto simp: backfill_row_def sbind_Inr)
  show ?thesis
  proof (cases r)
    case None
    then show ?thesis using run v by (simp add: backfill_row_def fills_def backfilled_keys_def entries_of_def)
  next
    case (Some k)
    let ?ks = "if ix_multi_entry index then expand_multi_entry_key k else [k]"
    have "backfill_keys B lim (ix_id index) unique pk ?ks [] t = (Inr (), t')"
      using run v Some by (simp add: backfill_row_def)
    then obtain out where out: "encode_distinct lim ?ks [] = Inr out" "only_entries t t'"
      "idx t' = idx t \<union> entries_of (ix_id index) pk (set out - set [])"
      "unique \<longrightarrow> unique_index (idx t) (ix_id index) \<longrightarrow> unique_index (idx t') (ix_id index)"
      using backfill_keys_effect by blast
    then have "backfilled_keys lim Bg index bs = set out" using v Some by (simp add: backfilled_keys_def)
    then show ?thesis using out by (simp add: fills_def)
  qed
qed

lemma backfill_loop:
  assumes "for_each (backfill_row B lim Bg (ix_id index) (ix_key_path index) (ix_multi_entry index) unique) rows t = (Inr (), t')"
  shows "only_entries t t' \<and>
    idx t' = idx t \<union> (\<Union>(pk, bs) \<in> set rows. entries_of (ix_id index) pk (backfilled_keys lim Bg index bs)) \<and>
    (unique \<longrightarrow> unique_index (idx t) (ix_id index) \<longrightarrow> unique_index (idx t') (ix_id index))"
  using assms(1)
proof (induction rows arbitrary: t)
  case (Cons r rows)
  obtain pk bs where r: "r = (pk, bs)" by (cases r)
  obtain u where u: "backfill_row B lim Bg (ix_id index) (ix_key_path index) (ix_multi_entry index) unique (pk, bs) t = (Inr (), u)"
    "for_each (backfill_row B lim Bg (ix_id index) (ix_key_path index) (ix_multi_entry index) unique) rows u = (Inr (), t')"
    using Cons.prems r by (auto simp: sbind_Inr)
  note here = backfill_row_effect [OF u(1), unfolded fills_def] and rest = Cons.IH [OF u(2)]
  have "idx t' = idx t \<union> (\<Union>(pk, bs) \<in> set (r # rows). entries_of (ix_id index) pk (backfilled_keys lim Bg index bs))"
    using here [THEN conjunct2, THEN conjunct1] rest [THEN conjunct2, THEN conjunct1] by (simp add: r Un_assoc)
  moreover have "only_entries t t'"
    by (rule only_entries_trans [OF here [THEN conjunct1] rest [THEN conjunct1]])
  ultimately show ?case using here [THEN conjunct2, THEN conjunct2] rest [THEN conjunct2, THEN conjunct2] by simp
qed simp

lemma collect_store_rows_eq:
  assumes "bk_scan B t (SrcStore store) range_all Next False = Inr c"
  shows "collect_store_rows B t store =
    Some (Inr (map (\<lambda>k. (k, the (recs t (store, k)))) (keys_in (recs t) store range_all)))"
proof -
  obtain cs where cs: "trail B t (bk_seek B t SeekFirst c) cs" "map (bk_current_key B) cs = keys_in (recs t) store range_all"
    "\<forall>c \<in> set cs. bk_current_primary_key B c = bk_current_key B c \<and> recs t (store, bk_current_key B c) \<noteq> None \<and>
       bk_current_value B c = recs t (store, bk_current_key B c)"
    using store_trail [OF assms] by auto
  have "map (\<lambda>c. (bk_current_primary_key B c, case bk_current_value B c of None \<Rightarrow> [] | Some v \<Rightarrow> v)) cs =
      map (\<lambda>c. (bk_current_key B c, the (recs t (store, bk_current_key B c)))) cs"
    using cs(3) by auto
  also have "\<dots> = map (\<lambda>k. (k, the (recs t (store, k)))) (keys_in (recs t) store range_all)"
    by (simp add: cs(2) [symmetric])
  finally show ?thesis
    using assms by (simp add: collect_store_rows_def scan_loop_trail [OF cs(1)] traverse_pure)
qed

lemma collect_store_rows_set:
  assumes "collect_store_rows B t store = Some (Inr rows)"
  shows "set rows = {(pk, bs). recs t (store, pk) = Some bs}"
proof -
  obtain c where c: "bk_scan B t (SrcStore store) range_all Next False = Inr c"
    using assms by (auto simp: collect_store_rows_def split: sum.splits)
  have "finite {k. recs t (store, k) \<noteq> None \<and> contains range_all k}"
    using walk_law [OF c] by (metis (no_types, lifting) List.finite_set)
  then have "set (keys_in (recs t) store range_all) = {k. recs t (store, k) \<noteq> None}" by (simp add: keys_in_def)
  then show ?thesis using assms collect_store_rows_eq [OF c] by (force simp: image_iff)
qed

lemma collect_rows_returns: "\<exists>r. collect_store_rows B t store = Some r"
  using scan_loop_returns [OF scan_law] by (auto simp: collect_store_rows_def split: sum.split)

lemma backfill_index_effect:
  assumes run: "backfill_index B lim Bg store (ix_id index) (ix_key_path index) (ix_multi_entry index) unique t = Some (Inr (), t')"
    and fresh: "\<forall>ik pk. (ix_id index, ik, pk) \<notin> idx t"
  shows "recs t' = recs t \<and> gen t' = gen t \<and>
    {ik. (ix_id index, ik, pk) \<in> idx t'} =
      (case recs t (store, pk) of None \<Rightarrow> {} | Some bs \<Rightarrow> backfilled_keys lim Bg index bs) \<and>
    (unique \<longrightarrow> unique_index (idx t') (ix_id index)) \<and>
    (\<forall>j ik q. j \<noteq> ix_id index \<longrightarrow> ((j, ik, q) \<in> idx t' \<longleftrightarrow> (j, ik, q) \<in> idx t))"
proof -
  obtain rows where rows: "collect_store_rows B t store = Some (Inr rows)"
    "for_each (backfill_row B lim Bg (ix_id index) (ix_key_path index) (ix_multi_entry index) unique) rows t = (Inr (), t')"
    using run by (auto simp: backfill_index_def sbind_Inr)
  note filled = backfill_loop [OF rows(2)]
  have recs: "recs t' = recs t" "gen t' = gen t" using filled by (simp_all add: only_entries_def)
  have I: "idx t' = idx t \<union> (\<Union>(pk, bs) \<in> {(pk, bs). recs t (store, pk) = Some bs}.
      entries_of (ix_id index) pk (backfilled_keys lim Bg index bs))"
    using filled unfolding collect_store_rows_set [OF rows(1)] by blast
  have "{ik. (ix_id index, ik, pk) \<in> idx t'} =
      (case recs t (store, pk) of None \<Rightarrow> {} | Some bs \<Rightarrow> backfilled_keys lim Bg index bs)"
    using fresh unfolding I by (auto split: option.split)
  moreover have "unique_index (idx t) (ix_id index)" using fresh by (simp add: unique_index_def)
  then have "unique \<longrightarrow> unique_index (idx t') (ix_id index)" using filled by blast
  moreover have "(j, ik, q) \<in> idx t' \<longleftrightarrow> (j, ik, q) \<in> idx t" if "j \<noteq> ix_id index" for j ik q
    using that unfolding I by auto
  ultimately show ?thesis using recs by blast
qed

text \<open>What creating an index does to the handle: the backend has been through the two calls, and the
  schema of the handle has the index.\<close>

lemma create_index_steps:
  assumes h: "dr_txns d i = Some h" "th_backend h = Some t"
    and run: "schema_create_index B lim Bg i store_name name kp unique multi_entry d = Some (Inr x, d')"
  obtains s t1 t2 m where "store_named store_name (th_meta h) = Inr s"
    "x = \<lparr>ix_id = ix_id x, ix_store_id = st_id s, ix_name = name, ix_key_path = kp, ix_unique = unique,
          ix_multi_entry = multi_entry, ix_deleted = False\<rparr>"
    "recs t1 = recs t" "idx t1 = idx t" "gen t1 = gen t"
    "backfill_index B lim Bg (st_id s) (ix_id x) kp multi_entry unique t1 = Some (Inr (), t2)"
    "dr_txns d' i = Some (h\<lparr>th_backend := Some t2, th_meta := m\<rparr>)"
    "db_stores m = update_first (\<lambda>s'. st_id s' = st_id s) (\<lambda>s. s\<lparr>st_indexes := st_indexes s @ [x]\<rparr>) (db_stores (th_meta h))"
proof -
  have nm: "\<not> (multi_entry \<and> (case kp of PathArray _ \<Rightarrow> True | _ \<Rightarrow> False))"
    using run by (auto simp: schema_create_index_def split: if_splits)
  note body = run [unfolded schema_create_index_def if_not_P [OF nm] Let_def]
  have up: "upgrade_handle d i = Inr (h, t)"
  proof -
    obtain y where "upgrade_handle d i = Inr y" using body by (cases "upgrade_handle d i") auto
    then show ?thesis using h by (auto simp: upgrade_handle_def split: if_splits)
  qed
  obtain s where s: "store_named store_name (th_meta h) = Inr s"
    using body up by (cases "store_named store_name (th_meta h)") auto
  obtain s' where s': "find_store (th_meta h) (st_id s) = Inr s'"
    using body up s by (cases "find_store (th_meta h) (st_id s)") auto
  have no: "\<not> index_exists name s'" using body up s s' by (auto split: if_splits)
  let ?spec = "\<lparr>isp_name = name, isp_key_path = kp, isp_unique = unique, isp_multi_entry = multi_entry\<rparr>"
  obtain r t1 where made: "bk_create_index B t (st_id s) ?spec = (r, t1)" by (cases "bk_create_index B t (st_id s) ?spec")
  obtain j where r: "r = Inr j"
    using body up s s' no made by (cases r) (auto simp: on_backend_def on_err_def)
  have up1: "upgrade_handle (set_backend i t1 d) i = Inr (h\<lparr>th_backend := Some t1\<rparr>, t1)"
    using up h by (auto simp: upgrade_handle_def set_backend_def with_handle_def split: if_splits)
  have on: "on_backend i (\<lambda>t. on_err backend_err (bk_create_index B t (st_id s) ?spec)) d = (Inr j, set_backend i t1 d)"
    by (simp add: on_backend_def up made r on_err_def)
  let ?x = "\<lparr>ix_id = j, ix_store_id = st_id s, ix_name = name, ix_key_path = kp, ix_unique = unique,
             ix_multi_entry = multi_entry, ix_deleted = False\<rparr>"
  let ?f = "\<lambda>m. edit_store (st_id s) (\<lambda>s. s\<lparr>st_indexes := st_indexes s @ [?x]\<rparr>)
    (m\<lparr>db_next_index_id := (if j \<ge> db_next_index_id m then j + 1 else db_next_index_id m)\<rparr>)"
  have "map_option (\<lambda>(r, t). sbind (r, set_backend i t (set_backend i t1 d)) (\<lambda>_ d. (Inr ?x, edit_meta i ?f d)))
      (backfill_index B lim Bg (st_id s) j kp multi_entry unique t1) = Some (Inr x, d')"
    using body up s s' no on up1 by simp
  then obtain t2 where fill: "backfill_index B lim Bg (st_id s) j kp multi_entry unique t1 = Some (Inr (), t2)"
    and x: "x = ?x" and d': "d' = edit_meta i ?f (set_backend i t2 (set_backend i t1 d))"
    by (auto simp: sbind_Inr)
  have "dr_txns d' i = Some (h\<lparr>th_backend := Some t2, th_meta := ?f (th_meta h)\<rparr>)"
    using h by (simp add: d' edit_meta_def set_backend_def with_handle_def)
  then show ?thesis
    using that [OF s, of t1 t2 "?f (th_meta h)"] create_index_law [OF made] fill
    by (simp add: x edit_store_def)
qed

text \<open>A new index agrees with the records of its store, and the other indexes still do.\<close>

lemma update_first_mem: "y \<in> set (update_first p f xs) \<Longrightarrow> y \<in> set xs \<or> (\<exists>x \<in> set xs. p x \<and> y = f x)"
  by (induction xs) (auto split: if_splits)

lemma update_first_hit: "x \<in> set xs \<Longrightarrow> p x \<Longrightarrow> \<exists>y \<in> set xs. p y \<and> f y \<in> set (update_first p f xs)"
  by (induction xs) auto

lemma schema_create_index_fills:
  assumes h: "dr_txns d i = Some h" "th_backend h = Some t"
    and run: "schema_create_index B lim Bg i store_name name kp unique multi_entry d = Some (Inr x, d')"
    and fresh: "\<forall>ik pk. (ix_id x, ik, pk) \<notin> idx t"
    and new: "\<forall>s \<in> set (db_stores (th_meta h)). ix_id x \<notin> ix_id ` set (st_indexes s)"
    and agree: "all_agree lim Bg (th_meta h) (recs t) (idx t)"
  shows "\<exists>h' t'. dr_txns d' i = Some h' \<and> th_backend h' = Some t' \<and> recs t' = recs t \<and> gen t' = gen t \<and>
    (\<forall>pk. {ik. (ix_id x, ik, pk) \<in> idx t'} =
       (case recs t (ix_store_id x, pk) of None \<Rightarrow> {} | Some bs \<Rightarrow> backfilled_keys lim Bg x bs)) \<and>
    (unique \<longrightarrow> unique_index (idx t') (ix_id x)) \<and> all_agree lim Bg (th_meta h) (recs t') (idx t') \<and>
    (all_agree lim Bg (th_meta h') (recs t') (idx t') \<longleftrightarrow>
       (\<forall>pk bs. recs t (ix_store_id x, pk) = Some bs \<longrightarrow> backfilled_keys lim Bg x bs = derived_keys lim Bg x bs))"
proof -
  obtain s t1 t2 m where s: "store_named store_name (th_meta h) = Inr s"
    and x: "x = \<lparr>ix_id = ix_id x, ix_store_id = st_id s, ix_name = name, ix_key_path = kp, ix_unique = unique,
          ix_multi_entry = multi_entry, ix_deleted = False\<rparr>"
    and t1: "recs t1 = recs t" "idx t1 = idx t" "gen t1 = gen t"
    and fill: "backfill_index B lim Bg (st_id s) (ix_id x) kp multi_entry unique t1 = Some (Inr (), t2)"
    and h': "dr_txns d' i = Some (h\<lparr>th_backend := Some t2, th_meta := m\<rparr>)"
    and m: "db_stores m = update_first (\<lambda>s'. st_id s' = st_id s) (\<lambda>s. s\<lparr>st_indexes := st_indexes s @ [x]\<rparr>) (db_stores (th_meta h))"
    by (rule create_index_steps [OF h run])
  have fields: "ix_key_path x = kp" "ix_unique x = unique" "ix_multi_entry x = multi_entry" "\<not> ix_deleted x"
    "ix_store_id x = st_id s"
    by (subst x, simp)+
  have e: "recs t2 = recs t1 \<and> gen t2 = gen t1 \<and>
      {ik. (ix_id x, ik, pk) \<in> idx t2} =
        (case recs t1 (st_id s, pk) of None \<Rightarrow> {} | Some bs \<Rightarrow> backfilled_keys lim Bg x bs) \<and>
      (unique \<longrightarrow> unique_index (idx t2) (ix_id x)) \<and>
      (\<forall>j ik q. j \<noteq> ix_id x \<longrightarrow> ((j, ik, q) \<in> idx t2 \<longleftrightarrow> (j, ik, q) \<in> idx t1))" for pk
    by (rule backfill_index_effect) (use fill fields fresh t1 in simp_all)
  have old: "index_agrees lim Bg (st_id y) (recs t2) (idx t2) index"
    if "y \<in> set (db_stores (th_meta h))" "index \<in> live_indexes y" for y index
  proof -
    have "ix_id index \<in> ix_id ` set (st_indexes y)" using that(2) by (simp add: live_indexes_def)
    then have "ix_id index \<noteq> ix_id x" using new that(1) by metis
    then have "index_agrees lim Bg (st_id y) (recs t2) (idx t2) index =
        index_agrees lim Bg (st_id y) (recs t) (idx t) index"
      using e t1 by (intro index_agrees_cong) auto
    then show ?thesis using agree that by (simp add: all_agree_def indexes_agree_def)
  qed
  let ?same = "\<forall>pk bs. recs t (st_id s, pk) = Some bs \<longrightarrow> backfilled_keys lim Bg x bs = derived_keys lim Bg x bs"
  have here: "index_agrees lim Bg (st_id s) (recs t2) (idx t2) x \<longleftrightarrow> ?same"
  proof -
    have "{ik. (ix_id x, ik, pk) \<in> idx t2} =
        (case recs t (st_id s, pk) of None \<Rightarrow> {} | Some bs \<Rightarrow> backfilled_keys lim Bg x bs)" for pk
      using e [of pk] t1 by simp
    moreover have "ix_unique x \<longrightarrow> unique_index (idx t2) (ix_id x)" "recs t2 = recs t"
      using e t1 fields(2) by simp_all
    ultimately have "index_agrees lim Bg (st_id s) (recs t2) (idx t2) x \<longleftrightarrow>
        (\<forall>pk. (case recs t (st_id s, pk) of None \<Rightarrow> {} | Some bs \<Rightarrow> backfilled_keys lim Bg x bs) =
          (case recs t (st_id s, pk) of None \<Rightarrow> {} | Some bs \<Rightarrow> derived_keys lim Bg x bs))"
      by (simp only: index_agrees_def) (rule iffI, erule conjunct1, erule conjI, assumption)
    also have "\<dots> \<longleftrightarrow> ?same" by (intro iff_allI) (simp split: option.split)
    finally show ?thesis .
  qed
  have "all_agree lim Bg m (recs t2) (idx t2) \<longleftrightarrow> ?same"
  proof
    assume all: "all_agree lim Bg m (recs t2) (idx t2)"
    have "s \<in> set (db_stores (th_meta h))" using s by (auto simp: store_named_def find_Some_iff split: option.splits)
    from update_first_hit [OF this, where p = "\<lambda>s'. st_id s' = st_id s" and f = "\<lambda>s. s\<lparr>st_indexes := st_indexes s @ [x]\<rparr>"]
    obtain z where z: "st_id z = st_id s" "z\<lparr>st_indexes := st_indexes z @ [x]\<rparr> \<in> set (db_stores m)"
      unfolding m [symmetric] by blast
    have "x \<in> live_indexes (z\<lparr>st_indexes := st_indexes z @ [x]\<rparr>)" using fields(4) by (simp add: live_indexes_def)
    then have "index_agrees lim Bg (st_id (z\<lparr>st_indexes := st_indexes z @ [x]\<rparr>)) (recs t2) (idx t2) x"
      using all z(2) unfolding all_agree_def indexes_agree_def by blast
    then have "index_agrees lim Bg (st_id s) (recs t2) (idx t2) x" using z(1) by simp
    then show ?same using here by simp
  next
    assume same: ?same
    have "indexes_agree lim Bg y (recs t2) (idx t2)" if "y \<in> set (db_stores m)" for y
      using update_first_mem [OF that [unfolded m]]
    proof
      assume "y \<in> set (db_stores (th_meta h))"
      then show ?thesis using old by (simp add: indexes_agree_def)
    next
      assume "\<exists>z \<in> set (db_stores (th_meta h)). st_id z = st_id s \<and> y = z\<lparr>st_indexes := st_indexes z @ [x]\<rparr>"
      then obtain z where z: "z \<in> set (db_stores (th_meta h))" "st_id z = st_id s" "y = z\<lparr>st_indexes := st_indexes z @ [x]\<rparr>"
        by blast
      then have "live_indexes y = insert x (live_indexes z)" using fields(4) by (auto simp: live_indexes_def)
      moreover have "st_id y = st_id z" using z(3) by simp
      ultimately show ?thesis using old [OF z(1)] z(2) here same by (simp add: indexes_agree_def)
    qed
    then show "all_agree lim Bg m (recs t2) (idx t2)" by (simp add: all_agree_def)
  qed
  moreover have "all_agree lim Bg (th_meta h) (recs t2) (idx t2)"
    using old by (simp add: all_agree_def indexes_agree_def)
  ultimately show ?thesis using h' e t1 fields(5) by simp
qed

lemma schema_index_returns:
  "\<exists>r. schema_create_index B lim Bg i store_name name kp unique multi_entry d = Some r"
  "\<exists>r. schema_delete_index B i store_name name d = Some r"
proof -
  have pkeys: "collect_store_pkeys B t store \<noteq> None" for t store
    using scan_loop_returns [OF scan_law] by (auto simp: collect_store_pkeys_def split: sum.split)
  have rows: "collect_store_rows B t store \<noteq> None" for t store using collect_rows_returns by auto
  show "\<exists>r. schema_create_index B lim Bg i store_name name kp unique multi_entry d = Some r"
    "\<exists>r. schema_delete_index B i store_name name d = Some r"
    unfolding not_None_eq [symmetric]
    by (simp_all add: schema_create_index_def schema_delete_index_def backfill_index_def drop_entries_def pkeys rows Let_def
        split: sum.split prod.split del: not_None_eq)
qed

end

end
