(* ===== verification/Btree.thy ===== *)
theory Btree
  imports Idb_Prelude
begin

text \<open>
  The ordered map of the Rust standard library (\<open>BTreeMap\<close>) as far as the sources use it: lookup,
  insertion, removal, ordered iteration, and the first or last entry of a range with one open
  end. A value of the type is a list of entries with strictly increasing keys, so no operation
  needs a well-formedness hypothesis.
\<close>

definition sorted_entries :: "('k::linorder \<times> 'v) list \<Rightarrow> bool" where
  "sorted_entries xs \<longleftrightarrow> sorted_wrt (<) (map fst xs)"

typedef (overloaded) ('k::linorder, 'v) btree = "{xs :: ('k \<times> 'v) list. sorted_entries xs}"
  morphisms bt_entries Abs_btree
  by (rule exI [of _ "[]"]) (simp add: sorted_entries_def)

setup_lifting type_definition_btree

fun ent_insert :: "'k::linorder \<Rightarrow> 'v \<Rightarrow> ('k \<times> 'v) list \<Rightarrow> ('k \<times> 'v) list" where
  "ent_insert k v [] = [(k, v)]"
| "ent_insert k v ((k', v') # xs) =
     (if k < k' then (k, v) # (k', v') # xs
      else if k = k' then (k, v) # xs
      else (k', v') # ent_insert k v xs)"

definition ent_remove :: "'k::linorder \<Rightarrow> ('k \<times> 'v) list \<Rightarrow> ('k \<times> 'v) list" where
  "ent_remove k xs = filter (\<lambda>(k', v). k' \<noteq> k) xs"

lemma set_ent_insert: "fst ` set (ent_insert k v xs) = insert k (fst ` set xs)"
  by (induction k v xs rule: ent_insert.induct) auto

lemma sorted_entries_Cons:
  "sorted_entries ((k, v) # xs) \<longleftrightarrow> (\<forall>x \<in> fst ` set xs. k < x) \<and> sorted_entries xs"
  by (simp add: sorted_entries_def)

lemma sorted_ent_insert: "sorted_entries xs \<Longrightarrow> sorted_entries (ent_insert k v xs)"
proof (induction k v xs rule: ent_insert.induct)
  case (2 k v k' v' xs)
  then have s: "\<forall>x \<in> fst ` set xs. k' < x" "sorted_entries xs"
    by (simp_all add: sorted_entries_Cons)
  consider "k < k'" | "k = k'" | "k' < k" by (rule linorder_cases)
  then show ?case
  proof cases
    case 1
    then have "\<forall>x \<in> fst ` set xs. k < x" using s(1) by (meson less_trans)
    with 1 s show ?thesis by (simp add: sorted_entries_Cons)
  next
    case 2
    with s show ?thesis by (simp add: sorted_entries_Cons)
  next
    case 3
    have "sorted_entries (ent_insert k v xs)" using 3 s(2) by (intro "2.IH") auto
    moreover have "\<forall>x \<in> fst ` set (ent_insert k v xs). k' < x"
      unfolding set_ent_insert using s(1) 3 by blast
    moreover have "\<not> k < k'" "k \<noteq> k'" using 3 by auto
    ultimately show ?thesis by (simp add: sorted_entries_Cons)
  qed
qed (simp add: sorted_entries_def)

lemma sorted_filter_entries: "sorted_entries xs \<Longrightarrow> sorted_entries (filter p xs)"
  by (induction xs) (auto simp: sorted_entries_def)

lemma sorted_ent_remove: "sorted_entries xs \<Longrightarrow> sorted_entries (ent_remove k xs)"
  unfolding ent_remove_def by (rule sorted_filter_entries)

lift_definition bt_empty :: "('k::linorder, 'v) btree" is "[]"
  by (simp add: sorted_entries_def)

lift_definition bt_insert :: "'k::linorder \<Rightarrow> 'v \<Rightarrow> ('k, 'v) btree \<Rightarrow> ('k, 'v) btree" is ent_insert
  by (rule sorted_ent_insert)

lift_definition bt_remove :: "'k::linorder \<Rightarrow> ('k, 'v) btree \<Rightarrow> ('k, 'v) btree" is ent_remove
  by (rule sorted_ent_remove)

definition bt_get :: "('k::linorder, 'v) btree \<Rightarrow> 'k \<Rightarrow> 'v option" where
  "bt_get m k = map_of (bt_entries m) k"

definition bt_keys :: "('k::linorder, 'v) btree \<Rightarrow> 'k list" where
  "bt_keys m = map fst (bt_entries m)"

definition bt_contains_key :: "('k::linorder, 'v) btree \<Rightarrow> 'k \<Rightarrow> bool" where
  "bt_contains_key m k \<longleftrightarrow> bt_get m k \<noteq> None"

text \<open>Bounds of a range, and the two range queries of the sources.\<close>

datatype 'k bound = Included 'k | Excluded 'k | Unbounded

fun after_bound :: "'k::linorder bound \<Rightarrow> 'k \<Rightarrow> bool" where
  "after_bound (Included b) k = (b \<le> k)"
| "after_bound (Excluded b) k = (b < k)"
| "after_bound Unbounded k = True"

fun before_bound :: "'k::linorder bound \<Rightarrow> 'k \<Rightarrow> bool" where
  "before_bound (Included b) k = (k \<le> b)"
| "before_bound (Excluded b) k = (k < b)"
| "before_bound Unbounded k = True"

definition bt_first_from :: "'k::linorder bound \<Rightarrow> ('k, 'v) btree \<Rightarrow> ('k \<times> 'v) option" where
  "bt_first_from b m = find (\<lambda>(k, v). after_bound b k) (bt_entries m)"

definition bt_last_upto :: "'k::linorder bound \<Rightarrow> ('k, 'v) btree \<Rightarrow> ('k \<times> 'v) option" where
  "bt_last_upto b m = find (\<lambda>(k, v). before_bound b k) (rev (bt_entries m))"

section \<open>Laws\<close>

lemma bt_sorted: "sorted_entries (bt_entries m)"
  using bt_entries [of m] by simp

lemma bt_keys_sorted: "sorted_wrt (<) (bt_keys m)"
  using bt_sorted [of m] by (simp add: bt_keys_def sorted_entries_def)

lemma bt_keys_distinct: "distinct (bt_keys m)"
  using bt_keys_sorted [of m] strict_sorted_iff by blast

lemma map_of_ent_insert: "map_of (ent_insert k v xs) = (map_of xs)(k \<mapsto> v)"
  by (induction k v xs rule: ent_insert.induct) (auto simp: fun_eq_iff)

lemma map_of_ent_remove: "map_of (ent_remove k xs) = (map_of xs)(k := None)"
  by (induction xs) (auto simp: ent_remove_def fun_eq_iff)

lemma bt_get_empty [simp]: "bt_get bt_empty k = None"
  by (simp add: bt_get_def bt_empty.rep_eq)

lemma bt_get_insert [simp]: "bt_get (bt_insert k v m) = (bt_get m)(k \<mapsto> v)"
  by (simp add: fun_eq_iff bt_get_def bt_insert.rep_eq map_of_ent_insert)

lemma bt_get_remove [simp]: "bt_get (bt_remove k m) = (bt_get m)(k := None)"
  by (simp add: fun_eq_iff bt_get_def bt_remove.rep_eq map_of_ent_remove)

lemma bt_entries_iff: "(k, v) \<in> set (bt_entries m) \<longleftrightarrow> bt_get m k = Some v"
  using bt_keys_distinct [of m] by (simp add: bt_get_def bt_keys_def)

lemma bt_keys_iff: "k \<in> set (bt_keys m) \<longleftrightarrow> bt_get m k \<noteq> None"
  by (auto simp: bt_keys_def bt_get_def map_of_eq_None_iff)

lemma bt_contains_key_iff [simp]: "bt_contains_key m k \<longleftrightarrow> bt_get m k \<noteq> None"
  by (simp add: bt_contains_key_def)

lemma bt_entries_keys: "bt_entries m = map (\<lambda>k. (k, the (bt_get m k))) (bt_keys m)"
proof -
  have "(k, the (bt_get m k)) = (k, v)" if "(k, v) \<in> set (bt_entries m)" for k v
    using that by (simp add: bt_entries_iff)
  then show ?thesis by (simp add: bt_keys_def) (rule sym, rule map_idI, auto)
qed

lemma bt_eqI: "bt_get m = bt_get m' \<Longrightarrow> m = m'"
proof -
  assume eq: "bt_get m = bt_get m'"
  then have "set (bt_keys m) = set (bt_keys m')" by (auto simp: bt_keys_iff)
  then have "bt_keys m = bt_keys m'" using bt_keys_sorted strict_sorted_equal by metis
  then have "bt_entries m = bt_entries m'" using eq by (simp add: bt_entries_keys)
  then show ?thesis by (simp add: bt_entries_inject)
qed

lemma find_sorted:
  assumes "sorted_wrt r (map fst xs)" "\<And>x. \<not> r x x" "transp r"
  shows "find (\<lambda>(k, v). p k) xs = Some (k, v) \<longleftrightarrow>
    (k, v) \<in> set xs \<and> p k \<and> (\<forall>k' \<in> fst ` set xs. p k' \<longrightarrow> k' = k \<or> r k k')"
  using assms(1)
proof (induction xs)
  case (Cons x xs)
  have all: "\<forall>k' \<in> fst ` set xs. r (fst x) k'" and s: "sorted_wrt r (map fst xs)"
    using Cons.prems by auto
  obtain a b where x: "x = (a, b)" by (cases x)
  show ?case
  proof (cases "p a")
    case True
    have "find (\<lambda>(k, v). p k) (x # xs) = Some (k, v) \<longleftrightarrow> k = a \<and> v = b" using True x by auto
    moreover have "k = a \<and> v = b"
      if mem: "(k, v) \<in> set (x # xs)" and least: "\<forall>k' \<in> fst ` set (x # xs). p k' \<longrightarrow> k' = k \<or> r k k'"
    proof (rule ccontr)
      assume "\<not> (k = a \<and> v = b)"
      then have "(k, v) \<in> set xs" using mem x by auto
      then have "r a k" using all x by force
      moreover have "a = k \<or> r k a" using least True x by simp
      ultimately show False using assms(2,3) by (blast dest: transpD)
    qed
    moreover have "\<forall>k' \<in> fst ` set (x # xs). p k' \<longrightarrow> k' = a \<or> r a k'" using all x by simp
    ultimately show ?thesis using True x by (metis list.set_intros(1))
  next
    case False
    have "find (\<lambda>(k, v). p k) (x # xs) = find (\<lambda>(k, v). p k) xs" using False x by simp
    moreover have "(k, v) \<in> set (x # xs) \<and> p k \<longleftrightarrow> (k, v) \<in> set xs \<and> p k" using False x by auto
    moreover have "(\<forall>k' \<in> fst ` set (x # xs). p k' \<longrightarrow> k' = k \<or> r k k') \<longleftrightarrow>
        (\<forall>k' \<in> fst ` set xs. p k' \<longrightarrow> k' = k \<or> r k k')" using False x by simp
    ultimately show ?thesis using Cons.IH [OF s] by metis
  qed
qed simp

lemma sorted_rev_entries: "sorted_wrt (\<lambda>a b. b < a) (map fst (rev (bt_entries m)))"
  using bt_keys_sorted [of m] unfolding bt_keys_def rev_map [symmetric] sorted_wrt_rev by simp

lemma fst_entries: "fst ` set (bt_entries m) = {k. bt_get m k \<noteq> None}"
  using bt_keys_iff by (force simp: bt_keys_def)

lemma bt_first_from_Some:
  "bt_first_from b m = Some (k, v) \<longleftrightarrow>
     bt_get m k = Some v \<and> after_bound b k \<and> (\<forall>k'. bt_get m k' \<noteq> None \<and> after_bound b k' \<longrightarrow> k \<le> k')"
  unfolding bt_first_from_def
  by (subst find_sorted [where r = "(<)"])
     (use bt_keys_sorted [of m] in \<open>auto simp: bt_keys_def transp_def bt_entries_iff fst_entries le_less\<close>)

lemma bt_last_upto_Some:
  "bt_last_upto b m = Some (k, v) \<longleftrightarrow>
     bt_get m k = Some v \<and> before_bound b k \<and> (\<forall>k'. bt_get m k' \<noteq> None \<and> before_bound b k' \<longrightarrow> k' \<le> k)"
  unfolding bt_last_upto_def
  by (subst find_sorted [where r = "\<lambda>a b. b < a"])
     (use sorted_rev_entries [of m] in \<open>auto simp: transp_def bt_entries_iff fst_entries le_less\<close>)

lemma bt_first_from_None: "bt_first_from b m = None \<longleftrightarrow> (\<forall>k. after_bound b k \<longrightarrow> bt_get m k = None)"
proof -
  have "bt_first_from b m = None \<longleftrightarrow> (\<forall>k \<in> fst ` set (bt_entries m). \<not> after_bound b k)"
    by (auto simp: bt_first_from_def find_None_iff split_beta)
  then show ?thesis unfolding fst_entries Ball_def mem_Collect_eq by metis
qed

lemma bt_last_upto_None: "bt_last_upto b m = None \<longleftrightarrow> (\<forall>k. before_bound b k \<longrightarrow> bt_get m k = None)"
proof -
  have "bt_last_upto b m = None \<longleftrightarrow> (\<forall>k \<in> fst ` set (bt_entries m). \<not> before_bound b k)"
    by (auto simp: bt_last_upto_def find_None_iff split_beta)
  then show ?thesis unfolding fst_entries Ball_def mem_Collect_eq by metis
qed

section \<open>Enumerations\<close>

lemma map_of_rev: "distinct (map fst xs) \<Longrightarrow> map_of (rev xs) = map_of xs"
  by (subst map_of_inject_set) (simp_all add: rev_map [symmetric])

lemma fold_map_upd: "fold (\<lambda>(k, v) m. m(k \<mapsto> v)) xs m0 = m0 ++ map_of (rev xs)"
  by (induction xs arbitrary: m0) (auto simp: fun_eq_iff map_add_def split: option.splits)

lemma bt_get_fold_insert: "bt_get (fold (\<lambda>(k, v). bt_insert k v) xs m0) = bt_get m0 ++ map_of (rev xs)"
  by (induction xs arbitrary: m0) (auto simp: fun_eq_iff map_add_def split: option.splits)

lemma fold_bt_insert: "fold (\<lambda>(k, v). bt_insert k v) (bt_entries m) bt_empty = m"
proof (rule bt_eqI)
  have "map_of (rev (bt_entries m)) = map_of (bt_entries m)"
    using bt_keys_distinct [of m] by (intro map_of_rev) (simp add: bt_keys_def)
  then show "bt_get (fold (\<lambda>(k, v). bt_insert k v) (bt_entries m) bt_empty) = bt_get m"
    by (auto simp: fun_eq_iff bt_get_fold_insert map_add_def bt_get_def [of m] split: option.splits)
qed

lemma fold_bt_insert_unit: "fold (\<lambda>k. bt_insert k ()) (bt_keys m) bt_empty = m"
proof -
  have "fold (\<lambda>(k, v). bt_insert k v) (bt_entries m) bt_empty = fold (\<lambda>k. bt_insert k ()) (bt_keys m) bt_empty"
    by (subst bt_entries_keys) (simp add: fold_map comp_def)
  then show ?thesis by (simp add: fold_bt_insert)
qed

lemma fold_bt_entries: "fold (\<lambda>(k, v) m. m(k \<mapsto> v)) (bt_entries b) m0 = m0 ++ bt_get b"
  using bt_keys_distinct [of b] by (simp add: fold_map_upd map_of_rev bt_keys_def bt_get_def [abs_def])

end
