(* ===== verification/Memory_Txn.thy ===== *)
theory Memory_Txn
  imports Backend Btree
begin

text \<open>
  The in-memory backend's storage state and transactions, \<open>boa_idb_memory/src/storage.rs\<close> and
  \<open>txn.rs\<close>. The committed state is shared (\<open>Arc<RwLock<..>>\<close>): operations that read it take it
  as an argument, and only \<open>mt_commit\<close> returns a new one. A transaction overlays it with pending
  records (\<open>None\<close> is a tombstone), pending index entries (\<open>False\<close> is a tombstone) and pending
  generator values, and logs the previous pending slots for every open request.
\<close>

type_synonym record_key = "store_id \<times> bytes"
type_synonym index_key = "index_id \<times> bytes \<times> bytes"

record storage_state =
  databases :: "utf16 \<rightharpoonup> database_meta"
  records :: "(record_key, bytes) btree"
  index_entries :: "(index_key, unit) btree"
  key_generators :: "store_id \<rightharpoonup> f64"

definition storage_default :: storage_state where
  "storage_default = \<lparr>databases = Map.empty, records = bt_empty, index_entries = bt_empty,
     key_generators = Map.empty\<rparr>"

text \<open>The metadata \<open>open_database\<close> gives a database that does not exist yet.\<close>

definition fresh_meta :: "utf16 \<Rightarrow> database_meta" where
  "fresh_meta name = \<lparr>db_name = name, db_version = 0, db_stores = [], db_next_store_id = 1,
     db_next_index_id = 1\<rparr>"

datatype pending_slot = SlotAbsent | SlotDeleted | SlotValue bytes

datatype undo_op =
  RestoreRecord record_key pending_slot
| RestoreIndex index_key "bool option"
| RestoreKeyGen store_id f64

record memory_txn =
  mt_mode :: txn_mode
  mt_scope :: "store_id list"
  mt_meta :: database_meta
  pending_records :: "(record_key, bytes option) btree"
  pending_index_entries :: "(index_key, bool) btree"
  pending_key_generators :: "(store_id, f64) btree"
  undo_stack :: "undo_op list list"

type_synonym 'a mt_result = "(backend_error + 'a) \<times> memory_txn"

definition mt_new :: "txn_mode \<Rightarrow> store_id list \<Rightarrow> database_meta \<Rightarrow> memory_txn" where
  "mt_new mode scope meta =
     \<lparr>mt_mode = mode, mt_scope = scope, mt_meta = meta, pending_records = bt_empty,
      pending_index_entries = bt_empty, pending_key_generators = bt_empty, undo_stack = []\<rparr>"

section \<open>Guards and reads\<close>

definition check_scope :: "memory_txn \<Rightarrow> store_id \<Rightarrow> backend_error + unit" where
  "check_scope t store =
     (if mt_mode t = VersionChange then Inr ()
      else if store \<notin> set (mt_scope t) then Inl BeInternal else Inr ())"

definition check_readwrite :: "memory_txn \<Rightarrow> backend_error + unit" where
  "check_readwrite t = (if mt_mode t = ReadOnly then Inl BeInternal else Inr ())"

definition read_record :: "storage_state \<Rightarrow> memory_txn \<Rightarrow> record_key \<Rightarrow> bytes option" where
  "read_record s t k =
     (case bt_get (pending_records t) k of
        Some v \<Rightarrow> v
      | None \<Rightarrow> bt_get (records s) k)"

definition pending_slot_of :: "memory_txn \<Rightarrow> record_key \<Rightarrow> pending_slot" where
  "pending_slot_of t k =
     (case bt_get (pending_records t) k of
        None \<Rightarrow> SlotAbsent
      | Some None \<Rightarrow> SlotDeleted
      | Some (Some v) \<Rightarrow> SlotValue v)"

definition record_exists :: "storage_state \<Rightarrow> memory_txn \<Rightarrow> record_key \<Rightarrow> bool" where
  "record_exists s t k =
     (case bt_get (pending_records t) k of
        Some v \<Rightarrow> v \<noteq> None
      | None \<Rightarrow> bt_contains_key (records s) k)"

definition index_entry_exists :: "storage_state \<Rightarrow> memory_txn \<Rightarrow> index_key \<Rightarrow> bool" where
  "index_entry_exists s t k =
     (case bt_get (pending_index_entries t) k of
        Some live \<Rightarrow> live
      | None \<Rightarrow> bt_contains_key (index_entries s) k)"

text \<open>The committed entries that are not overridden by a tombstone, then the live pending ones
  whose primary key is not among them.\<close>

definition find_index_entries :: "storage_state \<Rightarrow> memory_txn \<Rightarrow> index_id \<Rightarrow> bytes \<Rightarrow> (bytes \<times> bool) list" where
  "find_index_entries s t index idx_key =
     (let committed = [(pk, True). (iid, ik, pk) \<leftarrow> bt_keys (index_entries s),
                        iid = index \<and> ik = idx_key,
                        case bt_get (pending_index_entries t) (index, ik, pk) of
                          Some existed \<Rightarrow> existed | None \<Rightarrow> True]
      in fold (\<lambda>((iid, ik, pk), existed) results.
                 if iid = index \<and> ik = idx_key \<and> existed \<and> pk \<notin> fst ` set results
                 then results @ [(pk, True)] else results)
           (bt_entries (pending_index_entries t)) committed)"

definition find_index_entries_by_primary :: "storage_state \<Rightarrow> memory_txn \<Rightarrow> index_id \<Rightarrow> bytes \<Rightarrow> bytes list" where
  "find_index_entries_by_primary s t index primary_key =
     (let committed = [ik. (iid, ik, pk) \<leftarrow> bt_keys (index_entries s),
                        iid = index \<and> pk = primary_key,
                        case bt_get (pending_index_entries t) (index, ik, pk) of
                          Some existed \<Rightarrow> existed | None \<Rightarrow> True]
      in fold (\<lambda>((iid, ik, pk), existed) results.
                 if iid = index \<and> pk = primary_key \<and> existed \<and> ik \<notin> set results
                 then results @ [ik] else results)
           (bt_entries (pending_index_entries t)) committed)"

section \<open>Requests\<close>

text \<open>\<open>undo_stack.last_mut()\<close> followed by a push on the innermost log, where there is one.\<close>

definition push_undo :: "undo_op \<Rightarrow> memory_txn \<Rightarrow> memory_txn" where
  "push_undo op t =
     (if undo_stack t = [] then t
      else t\<lparr>undo_stack := butlast (undo_stack t) @ [last (undo_stack t) @ [op]]\<rparr>)"

definition mt_begin_request :: "memory_txn \<Rightarrow> unit mt_result" where
  "mt_begin_request t = (Inr (), t\<lparr>undo_stack := undo_stack t @ [[]]\<rparr>)"

definition mt_commit_request :: "memory_txn \<Rightarrow> unit mt_result" where
  "mt_commit_request t =
     (if undo_stack t = [] then (Inl BeInternal, t)
      else
        let ops = last (undo_stack t); rest = butlast (undo_stack t) in
        (Inr (), t\<lparr>undo_stack := (if rest = [] then [] else butlast rest @ [last rest @ ops])\<rparr>))"

fun undo_one :: "undo_op \<Rightarrow> memory_txn \<Rightarrow> memory_txn" where
  "undo_one (RestoreRecord k old) t =
     (case old of
        SlotValue v \<Rightarrow> t\<lparr>pending_records := bt_insert k (Some v) (pending_records t)\<rparr>
      | SlotDeleted \<Rightarrow> t\<lparr>pending_records := bt_insert k None (pending_records t)\<rparr>
      | SlotAbsent \<Rightarrow> t\<lparr>pending_records := bt_remove k (pending_records t)\<rparr>)"
| "undo_one (RestoreIndex k old) t =
     (case old of
        Some existed \<Rightarrow> t\<lparr>pending_index_entries := bt_insert k existed (pending_index_entries t)\<rparr>
      | None \<Rightarrow> t\<lparr>pending_index_entries := bt_remove k (pending_index_entries t)\<rparr>)"
| "undo_one (RestoreKeyGen store old) t =
     t\<lparr>pending_key_generators := bt_insert store old (pending_key_generators t)\<rparr>"

definition mt_rollback_request :: "memory_txn \<Rightarrow> unit mt_result" where
  "mt_rollback_request t =
     (if undo_stack t = [] then (Inl BeInternal, t)
      else (Inr (), fold undo_one (rev (last (undo_stack t))) (t\<lparr>undo_stack := butlast (undo_stack t)\<rparr>)))"

section \<open>Schema\<close>

definition mt_set_version :: "memory_txn \<Rightarrow> u64 \<Rightarrow> unit mt_result" where
  "mt_set_version t version =
     (if mt_mode t \<noteq> VersionChange then (Inl BeInternal, t)
      else (Inr (), t\<lparr>mt_meta := (mt_meta t)\<lparr>db_version := version\<rparr>\<rparr>))"

definition mt_create_store :: "memory_txn \<Rightarrow> store_spec \<Rightarrow> store_id mt_result" where
  "mt_create_store t spec =
     (if mt_mode t \<noteq> VersionChange then (Inl BeInternal, t)
      else
        let meta = mt_meta t; i = db_next_store_id meta in
        (Inr i, t\<lparr>mt_meta := meta\<lparr>db_next_store_id := i + 1,
                 db_stores := db_stores meta @
                   [\<lparr>st_id = i, st_name = ssp_name spec, st_key_path = ssp_key_path spec,
                     st_auto_increment = ssp_auto_increment spec, st_key_gen = f64_of_int 1,
                     st_indexes = [], st_deleted = False\<rparr>]\<rparr>\<rparr>))"

definition update_store :: "store_id \<Rightarrow> (store_meta \<Rightarrow> store_meta) \<Rightarrow> memory_txn \<Rightarrow> memory_txn" where
  "update_store i f t =
     t\<lparr>mt_meta := (mt_meta t)\<lparr>db_stores := update_first (\<lambda>s. st_id s = i) f (db_stores (mt_meta t))\<rparr>\<rparr>"

definition mt_delete_store :: "memory_txn \<Rightarrow> store_id \<Rightarrow> unit mt_result" where
  "mt_delete_store t i =
     (if mt_mode t \<noteq> VersionChange then (Inl BeInternal, t)
      else (Inr (), update_store i (\<lambda>s. s\<lparr>st_deleted := True\<rparr>) t))"

definition mt_rename_store :: "memory_txn \<Rightarrow> store_id \<Rightarrow> utf16 \<Rightarrow> unit mt_result" where
  "mt_rename_store t i new_name =
     (if mt_mode t \<noteq> VersionChange then (Inl BeInternal, t)
      else (Inr (), update_store i (\<lambda>s. s\<lparr>st_name := new_name\<rparr>) t))"

definition mt_create_index :: "memory_txn \<Rightarrow> store_id \<Rightarrow> index_spec \<Rightarrow> index_id mt_result" where
  "mt_create_index t store spec =
     (if mt_mode t \<noteq> VersionChange then (Inl BeInternal, t)
      else
        let i = db_next_index_id (mt_meta t);
            t = t\<lparr>mt_meta := (mt_meta t)\<lparr>db_next_index_id := i + 1\<rparr>\<rparr> in
        (Inr i, update_store store (\<lambda>s. s\<lparr>st_indexes := st_indexes s @
           [\<lparr>ix_id = i, ix_store_id = store, ix_name = isp_name spec, ix_key_path = isp_key_path spec,
             ix_unique = isp_unique spec, ix_multi_entry = isp_multi_entry spec, ix_deleted = False\<rparr>]\<rparr>) t))"

definition mt_delete_index :: "memory_txn \<Rightarrow> store_id \<Rightarrow> index_id \<Rightarrow> unit mt_result" where
  "mt_delete_index t store i =
     (if mt_mode t \<noteq> VersionChange then (Inl BeInternal, t)
      else (Inr (), update_store store (\<lambda>s. s\<lparr>st_indexes :=
              update_first (\<lambda>x. ix_id x = i) (\<lambda>x. x\<lparr>ix_deleted := True\<rparr>) (st_indexes s)\<rparr>) t))"

definition mt_rename_index :: "memory_txn \<Rightarrow> store_id \<Rightarrow> index_id \<Rightarrow> utf16 \<Rightarrow> unit mt_result" where
  "mt_rename_index t store i new_name =
     (if mt_mode t \<noteq> VersionChange then (Inl BeInternal, t)
      else (Inr (), update_store store (\<lambda>s. s\<lparr>st_indexes :=
              update_first (\<lambda>x. ix_id x = i) (\<lambda>x. x\<lparr>ix_name := new_name\<rparr>) (st_indexes s)\<rparr>) t))"

section \<open>Records\<close>

text \<open>Log the pending slot of a record, then overwrite it.\<close>

definition set_pending :: "record_key \<Rightarrow> bytes option \<Rightarrow> memory_txn \<Rightarrow> memory_txn" where
  "set_pending k v t =
     (let t = push_undo (RestoreRecord k (pending_slot_of t k)) t
      in t\<lparr>pending_records := bt_insert k v (pending_records t)\<rparr>)"

definition guard_write :: "memory_txn \<Rightarrow> store_id \<Rightarrow> backend_error + unit" where
  "guard_write t store = rbind (check_scope t store) (\<lambda>_. check_readwrite t)"

definition mt_put :: "storage_state \<Rightarrow> memory_txn \<Rightarrow> store_id \<Rightarrow> bytes \<Rightarrow> bytes \<Rightarrow> bool \<Rightarrow> unit mt_result" where
  "mt_put s t store key val no_overwrite =
     (case guard_write t store of
        Inl e \<Rightarrow> (Inl e, t)
      | Inr _ \<Rightarrow>
          if no_overwrite \<and> record_exists s t (store, key) then (Inl BeConstraint, t)
          else (Inr (), set_pending (store, key) (Some val) t))"

definition mt_get :: "storage_state \<Rightarrow> memory_txn \<Rightarrow> store_id \<Rightarrow> bytes \<Rightarrow> backend_error + bytes option" where
  "mt_get s t store key = rbind (check_scope t store) (\<lambda>_. Inr (read_record s t (store, key)))"

definition mt_delete_record :: "storage_state \<Rightarrow> memory_txn \<Rightarrow> store_id \<Rightarrow> bytes \<Rightarrow> bool mt_result" where
  "mt_delete_record s t store key =
     (case guard_write t store of
        Inl e \<Rightarrow> (Inl e, t)
      | Inr _ \<Rightarrow> (Inr (read_record s t (store, key) \<noteq> None), set_pending (store, key) None t))"

definition range_keys :: "store_id \<Rightarrow> encoded_range \<Rightarrow> (record_key, 'v) btree \<Rightarrow> record_key list" where
  "range_keys store rng m = filter (\<lambda>(sid, key). sid = store \<and> contains rng key) (bt_keys m)"

text \<open>The two loops of \<open>delete_range\<close>: tombstones for the committed keys, then removal of the live
  pending-only keys.\<close>

definition delete_committed :: "storage_state \<Rightarrow> record_key \<Rightarrow> nat \<times> memory_txn \<Rightarrow> nat \<times> memory_txn" where
  "delete_committed s k acc =
     (let (count, t) = acc
      in (if read_record s t k \<noteq> None then count + 1 else count, set_pending k None t))"

definition delete_pending :: "record_key list \<Rightarrow> record_key \<Rightarrow> nat \<times> memory_txn \<Rightarrow> nat \<times> memory_txn" where
  "delete_pending handled k acc =
     (let (count, t) = acc in
      if k \<in> set handled then (count, t)
      else case bt_get (pending_records t) k of
        Some (Some v) \<Rightarrow>
          let t = push_undo (RestoreRecord k (SlotValue v)) t
          in (count + 1, t\<lparr>pending_records := bt_remove k (pending_records t)\<rparr>)
      | _ \<Rightarrow> (count, t))"

definition mt_delete_range :: "storage_state \<Rightarrow> memory_txn \<Rightarrow> store_id \<Rightarrow> encoded_range \<Rightarrow> nat mt_result" where
  "mt_delete_range s t store rng =
     (case guard_write t store of
        Inl e \<Rightarrow> (Inl e, t)
      | Inr _ \<Rightarrow>
          let keys_in_range = range_keys store rng (records s);
              pending_keys = range_keys store rng (pending_records t);
              (count, t) = fold (delete_pending keys_in_range) pending_keys
                             (fold (delete_committed s) keys_in_range (0, t))
          in (Inr count, t))"

definition mt_clear :: "storage_state \<Rightarrow> memory_txn \<Rightarrow> store_id \<Rightarrow> unit mt_result" where
  "mt_clear s t store =
     (case guard_write t store of
        Inl e \<Rightarrow> (Inl e, t)
      | Inr _ \<Rightarrow>
          let keys = range_keys store range_all (records s);
              keys = keys @ filter (\<lambda>k. k \<notin> set keys) (range_keys store range_all (pending_records t))
          in (Inr (), fold (\<lambda>k. set_pending k None) keys t))"

definition mt_count :: "storage_state \<Rightarrow> memory_txn \<Rightarrow> source_ref \<Rightarrow> encoded_range \<Rightarrow> backend_error + nat" where
  "mt_count s t src rng =
     (case src of
        SrcStore store \<Rightarrow>
          rbind (check_scope t store) (\<lambda>_.
            Inr (length (filter (\<lambda>k. case bt_get (pending_records t) k of Some v \<Rightarrow> v \<noteq> None | None \<Rightarrow> True)
                           (range_keys store rng (records s))) +
                 length (filter (\<lambda>(k, v). fst k = store \<and> v \<noteq> None \<and> contains rng (snd k) \<and>
                                        \<not> bt_contains_key (records s) k)
                           (bt_entries (pending_records t)))))
      | SrcIndex store index \<Rightarrow>
          rbind (check_scope t store) (\<lambda>_.
            Inr (length (filter (\<lambda>k. fst k = index \<and> contains rng (fst (snd k)) \<and>
                                   (case bt_get (pending_index_entries t) k of Some live \<Rightarrow> live | None \<Rightarrow> True))
                           (bt_keys (index_entries s))) +
                 length (filter (\<lambda>(k, existed). fst k = index \<and> existed \<and> contains rng (fst (snd k)) \<and>
                                   \<not> bt_contains_key (index_entries s) k)
                           (bt_entries (pending_index_entries t))))))"

section \<open>Key generators\<close>

definition mt_key_gen_current :: "storage_state \<Rightarrow> memory_txn \<Rightarrow> store_id \<Rightarrow> f64" where
  "mt_key_gen_current s t store =
     (case bt_get (pending_key_generators t) store of
        Some v \<Rightarrow> v
      | None \<Rightarrow> (case key_generators s store of Some v \<Rightarrow> v | None \<Rightarrow> f64_of_int 1))"

definition mt_key_gen_set :: "storage_state \<Rightarrow> memory_txn \<Rightarrow> store_id \<Rightarrow> f64 \<Rightarrow> unit mt_result" where
  "mt_key_gen_set s t store val =
     (case check_readwrite t of
        Inl e \<Rightarrow> (Inl e, t)
      | Inr _ \<Rightarrow>
          let t = push_undo (RestoreKeyGen store (mt_key_gen_current s t store)) t
          in (Inr (), t\<lparr>pending_key_generators := bt_insert store val (pending_key_generators t)\<rparr>))"

section \<open>Index entries\<close>

definition set_pending_index :: "index_key \<Rightarrow> bool \<Rightarrow> memory_txn \<Rightarrow> memory_txn" where
  "set_pending_index k live t =
     (let t = push_undo (RestoreIndex k (bt_get (pending_index_entries t) k)) t
      in t\<lparr>pending_index_entries := bt_insert k live (pending_index_entries t)\<rparr>)"

definition mt_index_put ::
    "storage_state \<Rightarrow> memory_txn \<Rightarrow> index_id \<Rightarrow> bytes \<Rightarrow> bytes \<Rightarrow> bool \<Rightarrow> unit mt_result" where
  "mt_index_put s t index idx_key primary_key unique =
     (case check_readwrite t of
        Inl e \<Rightarrow> (Inl e, t)
      | Inr _ \<Rightarrow>
          let k = (index, idx_key, primary_key); existed = index_entry_exists s t k in
          if unique \<and> \<not> existed \<and> find_index_entries s t index idx_key \<noteq> []
          then (Inl BeConstraint, t)
          else (Inr (), set_pending_index k True t))"

definition mt_index_delete :: "memory_txn \<Rightarrow> index_id \<Rightarrow> bytes \<Rightarrow> bytes \<Rightarrow> unit mt_result" where
  "mt_index_delete t index idx_key primary_key =
     (case check_readwrite t of
        Inl e \<Rightarrow> (Inl e, t)
      | Inr _ \<Rightarrow> (Inr (), set_pending_index (index, idx_key, primary_key) False t))"

definition mt_index_delete_by_primary ::
    "storage_state \<Rightarrow> memory_txn \<Rightarrow> index_id \<Rightarrow> bytes \<Rightarrow> unit mt_result" where
  "mt_index_delete_by_primary s t index primary_key =
     (case check_readwrite t of
        Inl e \<Rightarrow> (Inl e, t)
      | Inr _ \<Rightarrow>
          (Inr (), fold (\<lambda>idx_key. set_pending_index (index, idx_key, primary_key) False)
             (find_index_entries_by_primary s t index primary_key) t))"

section \<open>Completion\<close>

definition mt_commit :: "storage_state \<Rightarrow> memory_txn \<Rightarrow> storage_state" where
  "mt_commit s t =
     s\<lparr>records := fold (\<lambda>(k, v) m. case v of Some val \<Rightarrow> bt_insert k val m | None \<Rightarrow> bt_remove k m)
                     (bt_entries (pending_records t)) (records s),
       index_entries := fold (\<lambda>(k, live) m. if live then bt_insert k () m else bt_remove k m)
                     (bt_entries (pending_index_entries t)) (index_entries s),
       key_generators := fold (\<lambda>(store, val) m. m(store \<mapsto> val)) (bt_entries (pending_key_generators t))
                     (key_generators s),
       databases := (databases s)(db_name (mt_meta t) \<mapsto> mt_meta t)\<rparr>"

definition mt_abort :: "storage_state \<Rightarrow> memory_txn \<Rightarrow> storage_state" where
  "mt_abort s t = s"

end
