(* ===== verification/Memory_View.thy ===== *)
theory Memory_View
  imports Memory_Txn
begin

text \<open>
  What a transaction reads: the view of the records and of the index entries, pending changes
  over committed ones. The theorems of this theory state every data operation of the in-memory
  transaction as an operation on these views, and a commit as making them the committed state.
\<close>

definition view :: "storage_state \<Rightarrow> memory_txn \<Rightarrow> record_key \<rightharpoonup> bytes" where
  "view s t = read_record s t"

definition index_view :: "storage_state \<Rightarrow> memory_txn \<Rightarrow> index_key set" where
  "index_view s t = {k. index_entry_exists s t k}"

lemma record_exists_iff: "record_exists s t k \<longleftrightarrow> view s t k \<noteq> None"
  by (simp add: view_def read_record_def record_exists_def split: option.splits)

lemma view_push [simp]: "view s (push_undo op t) = view s t"
  "index_view s (push_undo op t) = index_view s t"
  by (simp_all add: view_def index_view_def read_record_def index_entry_exists_def push_undo_def fun_eq_iff)

lemma view_set_pending [simp]: "view s (set_pending k v t) = (view s t)(k := v)"
  by (auto simp: view_def read_record_def set_pending_def push_undo_def fun_eq_iff)

lemma index_view_set_pending [simp]: "index_view s (set_pending k v t) = index_view s t"
  by (simp add: index_view_def index_entry_exists_def set_pending_def push_undo_def)

lemma view_set_pending_index [simp]: "view s (set_pending_index k live t) = view s t"
  by (auto simp: view_def read_record_def set_pending_index_def push_undo_def fun_eq_iff)

lemma index_view_set_pending_index [simp]:
  "index_view s (set_pending_index k live t) =
     (if live then insert k (index_view s t) else index_view s t - {k})"
  by (auto simp: index_view_def index_entry_exists_def set_pending_index_def push_undo_def)

lemma view_fold_set_pending:
  "view s (fold (\<lambda>k. set_pending k None) ks t) = (\<lambda>k. if k \<in> set ks then None else view s t k)"
  by (induction ks arbitrary: t) (auto simp: fun_eq_iff)

lemma index_view_fold_delete:
  "index_view s (fold (\<lambda>ik. set_pending_index (i, ik, pk) False) iks t) =
     index_view s t - {(i, ik, pk) | ik. ik \<in> set iks}"
  by (induction iks arbitrary: t) auto

lemma key_gen_pending [simp]:
  "mt_key_gen_current s (push_undo op t) = mt_key_gen_current s t"
  "mt_key_gen_current s (set_pending k v t) = mt_key_gen_current s t"
  "mt_key_gen_current s (set_pending_index i live t) = mt_key_gen_current s t"
  by (simp_all add: fun_eq_iff mt_key_gen_current_def push_undo_def set_pending_def set_pending_index_def)

text \<open>A loop whose steps keep a quantity keeps it.\<close>

lemma fold_keeps: "(\<And>x t. x \<in> set xs \<Longrightarrow> q (f x t) = q t) \<Longrightarrow> q (fold f xs t) = q t"
  by (induction xs arbitrary: t) auto

section \<open>Ranges of keys\<close>

definition in_range :: "store_id \<Rightarrow> encoded_range \<Rightarrow> record_key \<Rightarrow> bool" where
  "in_range store rng k \<longleftrightarrow> fst k = store \<and> contains rng (snd k)"

lemma range_keys_eq: "range_keys store rng m = filter (in_range store rng) (bt_keys m)"
  by (auto simp: range_keys_def in_range_def intro!: filter_cong)

lemma set_range_keys: "set (range_keys store rng m) = {k. in_range store rng k \<and> bt_get m k \<noteq> None}"
  by (auto simp: range_keys_eq bt_keys_iff)

lemma distinct_range_keys: "distinct (range_keys store rng m)"
  by (simp add: range_keys_eq bt_keys_distinct)

lemma contains_range_all [simp]: "contains range_all k"
  by (simp add: contains_def range_all_def)

text \<open>A live record of the view is committed or pending.\<close>

lemma view_dom: "view s t k \<noteq> None \<Longrightarrow> bt_get (records s) k \<noteq> None \<or> bt_get (pending_records t) k \<noteq> None"
  by (auto simp: view_def read_record_def split: option.splits)

lemma view_None: "bt_get (records s) k = None \<Longrightarrow> bt_get (pending_records t) k = None \<Longrightarrow> view s t k = None"
  by (simp add: view_def read_record_def)

lemma finite_view: "finite {k. view s t k \<noteq> None}"
proof (rule finite_subset)
  show "{k. view s t k \<noteq> None} \<subseteq> set (bt_keys (records s)) \<union> set (bt_keys (pending_records t))"
    unfolding subset_iff Un_iff bt_keys_iff mem_Collect_eq using view_dom by blast
qed simp

section \<open>Deletion of a range\<close>

lemma delete_committed_loop:
  "distinct ks \<Longrightarrow> fold (delete_committed s) ks (c, t) =
     (c + length (filter (\<lambda>k. view s t k \<noteq> None) ks), fold (\<lambda>k. set_pending k None) ks t)"
proof (induction ks arbitrary: c t)
  case (Cons k ks)
  have "filter (\<lambda>x. view s (set_pending k None t) x \<noteq> None) ks = filter (\<lambda>x. view s t x \<noteq> None) ks"
    using Cons.prems by (intro filter_cong) auto
  then show ?case
    using Cons by (simp add: delete_committed_def view_def [symmetric] del: not_None_eq)
qed simp

lemma pending_fold_set_pending:
  "bt_get (pending_records (fold (\<lambda>k. set_pending k None) ks t)) k =
     (if k \<in> set ks then Some None else bt_get (pending_records t) k)"
  by (induction ks arbitrary: t) (auto simp: set_pending_def push_undo_def)

lemma delete_pending_step:
  assumes "k \<notin> set handled \<Longrightarrow> bt_get (records s) k = None"
  shows "\<exists>t'. delete_pending handled k (c, t) =
      (if k \<notin> set handled \<and> view s t k \<noteq> None then c + 1 else c, t') \<and>
    view s t' = (if k \<in> set handled then view s t else (view s t)(k := None)) \<and>
    index_view s t' = index_view s t"
proof (cases "k \<in> set handled")
  case False
  then have c: "bt_get (records s) k = None" using assms by blast
  show ?thesis
  proof (cases "bt_get (pending_records t) k")
    case None
    then show ?thesis using False c by (auto simp: delete_pending_def view_def read_record_def fun_eq_iff)
  next
    case (Some slot)
    then show ?thesis
      using False c
      by (cases slot)
        (auto simp: delete_pending_def view_def index_view_def index_entry_exists_def read_record_def
          push_undo_def fun_eq_iff Let_def)
  qed
qed (simp add: delete_pending_def)

lemma delete_pending_loop:
  assumes "distinct ks" "\<And>k. k \<in> set ks \<Longrightarrow> k \<notin> set handled \<Longrightarrow> bt_get (records s) k = None"
  shows "\<exists>t'. fold (delete_pending handled) ks (c, t) =
      (c + length (filter (\<lambda>k. k \<notin> set handled \<and> view s t k \<noteq> None) ks), t') \<and>
    view s t' = (\<lambda>k. if k \<in> set ks - set handled then None else view s t k) \<and>
    index_view s t' = index_view s t"
  using assms
proof (induction ks arbitrary: c t)
  case (Cons k ks)
  obtain t1 where t1: "delete_pending handled k (c, t) =
      (if k \<notin> set handled \<and> view s t k \<noteq> None then c + 1 else c, t1)"
    "view s t1 = (if k \<in> set handled then view s t else (view s t)(k := None))"
    "index_view s t1 = index_view s t"
    using delete_pending_step [of k handled s c t] Cons.prems(2) by auto
  let ?c = "if k \<notin> set handled \<and> view s t k \<noteq> None then c + 1 else c"
  obtain t2 where t2: "fold (delete_pending handled) ks (?c, t1) =
      (?c + length (filter (\<lambda>k. k \<notin> set handled \<and> view s t1 k \<noteq> None) ks), t2)"
    "view s t2 = (\<lambda>k. if k \<in> set ks - set handled then None else view s t1 k)"
    "index_view s t2 = index_view s t1"
    using Cons.IH [of ?c t1] Cons.prems by auto
  have "filter (\<lambda>x. x \<notin> set handled \<and> view s t1 x \<noteq> None) ks =
      filter (\<lambda>x. x \<notin> set handled \<and> view s t x \<noteq> None) ks"
    using Cons.prems(1) t1(2) by (intro filter_cong) auto
  then have "fold (delete_pending handled) (k # ks) (c, t) =
      (c + length (filter (\<lambda>k. k \<notin> set handled \<and> view s t k \<noteq> None) (k # ks)), t2)"
    using t2(1) by (simp add: t1(1) del: not_None_eq)
  moreover have "view s t2 = (\<lambda>x. if x \<in> set (k # ks) - set handled then None else view s t x)"
    unfolding t2(2) t1(2) using Cons.prems(1) by (auto simp: fun_eq_iff)
  ultimately show ?case using t2(3) t1(3) by blast
qed simp

lemma card_filter: "distinct xs \<Longrightarrow> length (filter p xs) = card {x \<in> set xs. p x}"
  by (metis distinct_card distinct_filter set_filter)

text \<open>The keys that a range of a store holds in the view.\<close>

definition live_keys :: "storage_state \<Rightarrow> memory_txn \<Rightarrow> store_id \<Rightarrow> encoded_range \<Rightarrow> record_key set" where
  "live_keys s t store rng = {k. in_range store rng k \<and> view s t k \<noteq> None}"

lemma live_keys_split:
  "card (live_keys s t store rng) =
     card {k \<in> set (range_keys store rng (records s)). view s t k \<noteq> None} +
     card {k \<in> set (range_keys store rng (pending_records t)).
             k \<notin> set (range_keys store rng (records s)) \<and> view s t k \<noteq> None}"
  (is "_ = card ?A + card ?B")
proof -
  have "live_keys s t store rng = ?A \<union> ?B"
    unfolding live_keys_def set_range_keys using view_dom [of s t] by blast
  moreover have "?A \<inter> ?B = {}" by auto
  ultimately show ?thesis by (simp add: card_Un_disjoint)
qed

section \<open>Folds of a commit\<close>

lemma commit_records_fold:
  "distinct (map fst es) \<Longrightarrow>
     bt_get (fold (\<lambda>(k, v) m. case v of Some val \<Rightarrow> bt_insert k val m | None \<Rightarrow> bt_remove k m) es m) k =
       (case map_of es k of Some v \<Rightarrow> v | None \<Rightarrow> bt_get m k)"
proof (induction es arbitrary: m)
  case (Cons e es)
  obtain k' v where e: "e = (k', v)" by (cases e)
  have "map_of es k' = None" using Cons.prems e by (simp add: map_of_eq_None_iff)
  then show ?case using Cons e by (auto split: option.splits)
qed simp

lemma commit_index_fold:
  "distinct (map fst es) \<Longrightarrow>
     bt_get (fold (\<lambda>(k, live) m. if live then bt_insert k () m else bt_remove k m) es m) k \<noteq> None \<longleftrightarrow>
       (case map_of es k of Some live \<Rightarrow> live | None \<Rightarrow> bt_get m k \<noteq> None)"
proof (induction es arbitrary: m)
  case (Cons e es)
  obtain k' v where e: "e = (k', v)" by (cases e)
  have "map_of es k' = None" using Cons.prems e by (simp add: map_of_eq_None_iff)
  then show ?case using Cons e by (auto split: option.splits)
qed simp

lemma entries_distinct: "distinct (map fst (bt_entries m))"
  using bt_keys_distinct [of m] by (simp add: bt_keys_def)

lemma commit_records: "bt_get (records (mt_commit s t)) = view s t"
proof
  fix k
  show "bt_get (records (mt_commit s t)) k = view s t k"
    unfolding mt_commit_def view_def read_record_def
    using commit_records_fold [OF entries_distinct, of "pending_records t" "records s" k]
    by (simp add: bt_get_def [symmetric, of "pending_records t"])
qed

lemma commit_index: "bt_get (index_entries (mt_commit s t)) k \<noteq> None \<longleftrightarrow> k \<in> index_view s t"
  unfolding mt_commit_def index_view_def index_entry_exists_def bt_contains_key_def mem_Collect_eq
  using commit_index_fold [OF entries_distinct, of "pending_index_entries t" "index_entries s" k]
  unfolding bt_get_def [symmetric] by simp

section \<open>Index lookups\<close>

lemma find_fold:
  "fst ` set (fold (\<lambda>((iid, ik, pk), existed) results.
       if iid = index \<and> ik = idx_key \<and> existed \<and> pk \<notin> fst ` set results
       then results @ [(pk, True)] else results) es rs) =
     fst ` set rs \<union> {pk. ((index, idx_key, pk), True) \<in> set es}"
  by (induction es arbitrary: rs) (auto simp: split_beta split: if_splits, force)

lemma find_by_primary_fold:
  "set (fold (\<lambda>((iid, ik, pk), existed) results.
       if iid = index \<and> pk = primary_key \<and> existed \<and> ik \<notin> set results
       then results @ [ik] else results) es rs) =
     set rs \<union> {ik. ((index, ik, primary_key), True) \<in> set es}"
  by (induction es arbitrary: rs) (auto simp: split_beta split: if_splits)

lemma index_view_iff:
  "k \<in> index_view s t \<longleftrightarrow>
     bt_get (pending_index_entries t) k = Some True \<or>
     bt_get (pending_index_entries t) k \<noteq> Some False \<and> bt_get (index_entries s) k \<noteq> None"
  by (auto simp: index_view_def index_entry_exists_def split: option.splits)

lemma not_tombstone: "(case x of Some existed \<Rightarrow> existed | None \<Rightarrow> True) \<longleftrightarrow> x \<noteq> Some False"
  by (auto split: option.splits)

lemma find_index_entries_view:
  "fst ` set (find_index_entries s t index idx_key) = {pk. (index, idx_key, pk) \<in> index_view s t}"
proof -
  have "fst ` set [(pk, True). (iid, ik, pk) \<leftarrow> bt_keys (index_entries s), iid = index \<and> ik = idx_key,
            bt_get (pending_index_entries t) (index, ik, pk) \<noteq> Some False] =
          {pk. bt_get (index_entries s) (index, idx_key, pk) \<noteq> None \<and>
               bt_get (pending_index_entries t) (index, idx_key, pk) \<noteq> Some False}"
    by (force simp: bt_keys_iff [symmetric] simp del: not_None_eq)
  then show ?thesis
    unfolding find_index_entries_def Let_def find_fold not_tombstone
    by (auto simp: bt_entries_iff index_view_iff)
qed

lemma find_by_primary_view:
  "set (find_index_entries_by_primary s t index primary_key) =
     {ik. (index, ik, primary_key) \<in> index_view s t}"
proof -
  have "set [ik. (iid, ik, pk) \<leftarrow> bt_keys (index_entries s), iid = index \<and> pk = primary_key,
            bt_get (pending_index_entries t) (index, ik, pk) \<noteq> Some False] =
          {ik. bt_get (index_entries s) (index, ik, primary_key) \<noteq> None \<and>
               bt_get (pending_index_entries t) (index, ik, primary_key) \<noteq> Some False}"
    by (force simp: bt_keys_iff [symmetric] simp del: not_None_eq)
  then show ?thesis
    unfolding find_index_entries_by_primary_def Let_def find_by_primary_fold not_tombstone
    by (auto simp: bt_entries_iff index_view_iff)
qed

lemma find_index_entries_none:
  "find_index_entries s t i ik = [] \<longleftrightarrow> (\<forall>q. (i, ik, q) \<notin> index_view s t)"
proof -
  have "find_index_entries s t i ik = [] \<longleftrightarrow> {q. (i, ik, q) \<in> index_view s t} = {}"
    unfolding find_index_entries_view [symmetric] by simp
  then show ?thesis by auto
qed

lemma delete_by_primary_effect:
  "index_view s (fold (\<lambda>idx_key. set_pending_index (i, idx_key, pk) False)
     (find_index_entries_by_primary s t i pk) t) =
     {k \<in> index_view s t. \<not> (fst k = i \<and> snd (snd k) = pk)}"
  unfolding index_view_fold_delete find_by_primary_view by auto

section \<open>Counts\<close>

lemma not_Some_unit: "x \<noteq> Some () \<longleftrightarrow> x = None"
  by (cases x) simp_all

lemma card_filter_entries:
  "length (filter p (bt_entries m)) = card {k. \<exists>v. bt_get m k = Some v \<and> p (k, v)}"
proof -
  have "length (filter p (bt_entries m)) = card (fst ` set (filter p (bt_entries m)))"
    by (metis distinct_card distinct_map_filter entries_distinct length_map list.set_map)
  also have "fst ` set (filter p (bt_entries m)) = {k. \<exists>v. bt_get m k = Some v \<and> p (k, v)}"
    by (force simp: bt_entries_iff [symmetric])
  finally show ?thesis .
qed

lemma delete_range_effect:
  assumes "guard_write t store = Inr ()"
  shows "\<exists>t'. mt_delete_range s t store rng = (Inr (card (live_keys s t store rng)), t') \<and>
    view s t' = (\<lambda>k. if in_range store rng k then None else view s t k) \<and>
    index_view s t' = index_view s t"
proof -
  let ?ks = "range_keys store rng (records s)" and ?ps = "range_keys store rng (pending_records t)"
  let ?t1 = "fold (\<lambda>k. set_pending k None) ?ks t"
  let ?c1 = "length (filter (\<lambda>k. view s t k \<noteq> None) ?ks)"
  have loop1: "fold (delete_committed s) ?ks (0, t) = (?c1, ?t1)"
    using delete_committed_loop [OF distinct_range_keys, of s store rng "records s" 0 t] by simp
  have iv: "index_view s (fold (\<lambda>k. set_pending k None) ks t) = index_view s t" for ks
    by (induction ks arbitrary: t) simp_all
  obtain t2 where loop2: "fold (delete_pending ?ks) ?ps (?c1, ?t1) =
      (?c1 + length (filter (\<lambda>k. k \<notin> set ?ks \<and> view s ?t1 k \<noteq> None) ?ps), t2)"
    "view s t2 = (\<lambda>k. if k \<in> set ?ps - set ?ks then None else view s ?t1 k)"
    "index_view s t2 = index_view s ?t1"
    using delete_pending_loop [OF distinct_range_keys, of store rng "pending_records t" ?ks s ?c1 ?t1]
    by (auto simp: set_range_keys)
  have "filter (\<lambda>k. k \<notin> set ?ks \<and> view s ?t1 k \<noteq> None) ?ps = filter (\<lambda>k. k \<notin> set ?ks \<and> view s t k \<noteq> None) ?ps"
    by (intro filter_cong) (auto simp: view_fold_set_pending)
  then have "?c1 + length (filter (\<lambda>k. k \<notin> set ?ks \<and> view s ?t1 k \<noteq> None) ?ps) = card (live_keys s t store rng)"
    by (simp only: live_keys_split card_filter [OF distinct_range_keys])
  moreover have "view s t2 = (\<lambda>k. if in_range store rng k then None else view s t k)"
    unfolding loop2(2) view_fold_set_pending set_range_keys using view_dom [of s t] by (fastforce simp: fun_eq_iff)
  ultimately show "\<exists>t'. mt_delete_range s t store rng = (Inr (card (live_keys s t store rng)), t') \<and>
      view s t' = (\<lambda>k. if in_range store rng k then None else view s t k) \<and> index_view s t' = index_view s t"
    using assms loop1 loop2(1,3) iv by (simp add: mt_delete_range_def Let_def)
qed

lemma clear_effect:
  assumes "guard_write t store = Inr ()"
  shows "\<exists>t'. mt_clear s t store = (Inr (), t') \<and>
    view s t' = (\<lambda>k. if fst k = store then None else view s t k) \<and> index_view s t' = index_view s t"
proof -
  let ?all = "range_keys store range_all (records s)"
  let ?more = "filter (\<lambda>k. k \<notin> set ?all) (range_keys store range_all (pending_records t))"
  have "view s (fold (\<lambda>k. set_pending k None) (?all @ ?more) t) =
      (\<lambda>k. if fst k = store then None else view s t k)"
    unfolding view_fold_set_pending
    by (auto simp: fun_eq_iff set_range_keys in_range_def intro: view_None)
  moreover have "index_view s (fold (\<lambda>k. set_pending k None) (?all @ ?more) t) = index_view s t"
    by (rule fold_keeps) simp
  ultimately show "\<exists>t'. mt_clear s t store = (Inr (), t') \<and>
      view s t' = (\<lambda>k. if fst k = store then None else view s t k) \<and> index_view s t' = index_view s t"
    using assms by (simp add: mt_clear_def Let_def)
qed

text \<open>Neither touches the generators.\<close>

lemma delete_range_key_gen:
  "mt_key_gen_current s (snd (mt_delete_range s t store rng)) = mt_key_gen_current s t"
proof -
  have "mt_key_gen_current s (snd (fold (delete_pending ks) ps (fold (delete_committed s) cs (0, t)))) =
      mt_key_gen_current s t" for ks ps cs
  proof -
    have one: "mt_key_gen_current s (snd (delete_pending ks k acc)) = mt_key_gen_current s (snd acc)" for k acc
      by (auto simp: delete_pending_def Let_def mt_key_gen_current_def push_undo_def fun_eq_iff
          split: prod.splits option.splits)
    have two: "mt_key_gen_current s (snd (delete_committed s k acc)) = mt_key_gen_current s (snd acc)" for k acc
      by (simp add: delete_committed_def Let_def split: prod.splits)
    have "mt_key_gen_current s (snd (fold (delete_pending ks) ps acc)) = mt_key_gen_current s (snd acc)" for acc
      by (rule fold_keeps [where q = "\<lambda>acc. mt_key_gen_current s (snd acc)"]) (rule one)
    moreover have "mt_key_gen_current s (snd (fold (delete_committed s) cs acc)) = mt_key_gen_current s (snd acc)" for acc
      by (rule fold_keeps [where q = "\<lambda>acc. mt_key_gen_current s (snd acc)"]) (rule two)
    ultimately show ?thesis by simp
  qed
  then show ?thesis by (simp add: mt_delete_range_def Let_def split_beta split: sum.split)
qed

lemma clear_key_gen: "mt_key_gen_current s (snd (mt_clear s t store)) = mt_key_gen_current s t"
proof -
  have "mt_key_gen_current s (fold (\<lambda>k. set_pending k None) ks u) = mt_key_gen_current s u" for ks u
    by (rule fold_keeps) simp
  then show ?thesis by (simp add: mt_clear_def Let_def split: sum.split)
qed

section \<open>Properties\<close>

text \<open>Storing a record: refused without effect by the guards, or with a constraint error
  exactly when overwriting is forbidden and the view holds the key; otherwise the view maps the
  key to the value, every other record and all index entries stay, and a read returns the value.\<close>

theorem mt_put_view:
  "case mt_put s t store k v no_overwrite of
     (Inl e, t') \<Rightarrow> t' = t \<and>
       (guard_write t store = Inl e \<or> e = BeConstraint \<and> no_overwrite \<and> view s t (store, k) \<noteq> None)
   | (Inr _, t') \<Rightarrow>
       guard_write t store = Inr () \<and> \<not> (no_overwrite \<and> view s t (store, k) \<noteq> None) \<and>
       view s t' = (view s t)((store, k) \<mapsto> v) \<and> index_view s t' = index_view s t \<and>
       mt_get s t' store k = Inr (Some v)"
proof (cases "guard_write t store")
  case (Inr u)
  let ?t = "set_pending (store, k) (Some v) t"
  have "check_scope ?t store = check_scope t store" by (simp add: check_scope_def set_pending_def push_undo_def Let_def)
  moreover have "check_scope t store = Inr ()" using Inr by (cases "check_scope t store") (auto simp: guard_write_def)
  moreover have "read_record s ?t (store, k) = Some v" using view_set_pending [of s "(store, k)" "Some v" t] by (simp add: view_def)
  ultimately have "mt_get s ?t store k = Inr (Some v)" by (simp add: mt_get_def)
  then show ?thesis using Inr by (simp add: mt_put_def record_exists_iff)
qed (simp add: mt_put_def)

text \<open>Deleting a range of a store: the number returned is the number of records the view held
  in the range, those records are gone and no other record and no index entry changes; clearing a
  store does the same for all its records.\<close>

theorem mt_delete_range_view:
  "case guard_write t store of
     Inl e \<Rightarrow> mt_delete_range s t store rng = (Inl e, t) \<and> mt_clear s t store = (Inl e, t)
   | Inr _ \<Rightarrow>
       (\<exists>t'. mt_delete_range s t store rng = (Inr (card (live_keys s t store rng)), t') \<and>
          view s t' = (\<lambda>k. if in_range store rng k then None else view s t k) \<and>
          index_view s t' = index_view s t) \<and>
       (\<exists>t'. mt_clear s t store = (Inr (), t') \<and>
          view s t' = (\<lambda>k. if fst k = store then None else view s t k) \<and>
          index_view s t' = index_view s t)"
  using delete_range_effect [of t store s rng] clear_effect [of t store s]
  by (cases "guard_write t store") (simp_all add: mt_delete_range_def mt_clear_def)

text \<open>Counting returns the number of records of the view in the range of the store, and the
  number of entries of the index view whose index key is in the range: pending insertions and
  deletions are counted exactly once.\<close>

theorem mt_count_view:
  "mt_count s t (SrcStore store) rng =
     rbind (check_scope t store) (\<lambda>_. Inr (card (live_keys s t store rng))) \<and>
   mt_count s t (SrcIndex store i) rng =
     rbind (check_scope t store) (\<lambda>_.
       Inr (card {k \<in> index_view s t. fst k = i \<and> contains rng (fst (snd k))}))"
proof
  let ?A = "{k \<in> set (range_keys store rng (records s)).
      case bt_get (pending_records t) k of Some v \<Rightarrow> v \<noteq> None | None \<Rightarrow> True}"
  let ?B = "{k. \<exists>v. bt_get (pending_records t) k = Some v \<and> fst k = store \<and> v \<noteq> None \<and>
      contains rng (snd k) \<and> bt_get (records s) k = None}"
  have un: "?A \<union> ?B = live_keys s t store rng"
    by (auto simp: live_keys_def in_range_def set_range_keys view_def read_record_def split: option.splits)
  have "finite (live_keys s t store rng)"
    using finite_view [of s t] unfolding live_keys_def by (rule rev_finite_subset) auto
  then have "finite ?A" "finite ?B" unfolding un [symmetric] by simp_all
  moreover have "?A \<inter> ?B = {}" by (auto simp: set_range_keys)
  ultimately have "card ?A + card ?B = card (live_keys s t store rng)"
    unfolding un [symmetric] by (simp add: card_Un_disjoint)
  then show "mt_count s t (SrcStore store) rng =
      rbind (check_scope t store) (\<lambda>_. Inr (card (live_keys s t store rng)))"
    by (simp add: mt_count_def card_filter [OF distinct_range_keys] card_filter_entries)
next
  let ?A = "{k \<in> set (bt_keys (index_entries s)). fst k = i \<and> contains rng (fst (snd k)) \<and>
      (case bt_get (pending_index_entries t) k of Some live \<Rightarrow> live | None \<Rightarrow> True)}"
  let ?B = "{k. \<exists>live. bt_get (pending_index_entries t) k = Some live \<and> fst k = i \<and> live \<and>
      contains rng (fst (snd k)) \<and> bt_get (index_entries s) k = None}"
  let ?C = "{k \<in> index_view s t. fst k = i \<and> contains rng (fst (snd k))}"
  have un: "?A \<union> ?B = ?C"
    by (auto simp: bt_keys_iff index_view_iff split: option.splits)
  have "?B \<subseteq> set (bt_keys (pending_index_entries t))" by (auto simp: bt_keys_iff)
  then have "finite ?A" "finite ?B" by (auto intro: finite_subset)
  moreover have "?A \<inter> ?B = {}" by (auto simp: bt_keys_iff)
  ultimately have "card ?A + card ?B = card ?C" unfolding un [symmetric] by (simp add: card_Un_disjoint)
  then show "mt_count s t (SrcIndex store i) rng = rbind (check_scope t store) (\<lambda>_. Inr (card ?C))"
    by (simp add: mt_count_def card_filter [OF bt_keys_distinct] card_filter_entries not_Some_unit)
qed

text \<open>C37. A commit makes exactly what the transaction saw the committed state: a transaction begun
  afterwards reads the same records, index entries and generator values, and the metadata of the
  transaction is what the database stores under its name.\<close>

theorem mt_commit_view:
  "view (mt_commit s t) (mt_new mode scope meta) = view s t \<and>
   index_view (mt_commit s t) (mt_new mode scope meta) = index_view s t \<and>
   mt_key_gen_current (mt_commit s t) (mt_new mode scope meta) = mt_key_gen_current s t \<and>
   databases (mt_commit s t) (db_name (mt_meta t)) = Some (mt_meta t)"
proof -
  have "view (mt_commit s t) (mt_new mode scope meta) = bt_get (records (mt_commit s t))"
    by (simp add: fun_eq_iff view_def read_record_def mt_new_def)
  moreover have "index_view (mt_commit s t) (mt_new mode scope meta) =
      {k. bt_get (index_entries (mt_commit s t)) k \<noteq> None}"
    by (simp add: index_view_def index_entry_exists_def mt_new_def)
  moreover have "mt_key_gen_current (mt_commit s t) (mt_new mode scope meta) = mt_key_gen_current s t"
    by (auto simp: fun_eq_iff mt_key_gen_current_def mt_new_def mt_commit_def fold_bt_entries map_add_def split: option.splits)
  moreover have "databases (mt_commit s t) (db_name (mt_meta t)) = Some (mt_meta t)"
    by (simp add: mt_commit_def)
  ultimately show ?thesis unfolding commit_records commit_index by auto
qed

text \<open>C17. A unique index stays unique: an insertion is refused, without effect and with a constraint
  error, exactly when the index is declared unique and another primary key already has the index
  key; otherwise exactly the entry is added, so two primary keys never share an index key of a
  unique index. Deletion by primary key removes exactly the entries of that key.\<close>

theorem mt_index_put_unique:
  "(case mt_index_put s t i ik pk unique of
      (Inl e, t') \<Rightarrow> t' = t \<and>
        (check_readwrite t = Inl e \<or>
         e = BeConstraint \<and> unique \<and> (\<exists>q. q \<noteq> pk \<and> (i, ik, q) \<in> index_view s t) \<and> (i, ik, pk) \<notin> index_view s t)
    | (Inr _, t') \<Rightarrow>
        index_view s t' = insert (i, ik, pk) (index_view s t) \<and> view s t' = view s t \<and>
        (unique \<and> unique_index (index_view s t) i \<longrightarrow> unique_index (index_view s t') i)) \<and>
   (case mt_index_delete_by_primary s t i pk of
      (Inl e, t') \<Rightarrow> t' = t \<and> check_readwrite t = Inl e
    | (Inr _, t') \<Rightarrow> index_view s t' = {k \<in> index_view s t. \<not> (fst k = i \<and> snd (snd k) = pk)})"
proof (cases "check_readwrite t")
  case (Inr u)
  have none: "find_index_entries s t i ik = [] \<longleftrightarrow> {q. (i, ik, q) \<in> index_view s t} = {}"
    by (auto simp: find_index_entries_none)
  have mem: "index_entry_exists s t k \<longleftrightarrow> k \<in> index_view s t" for k by (simp add: index_view_def)
  note del = delete_by_primary_effect [of s i pk t]
  have put: "unique_index (insert (i, ik, pk) V) i"
    if "unique_index V i" "(i, ik, pk) \<in> V \<or> {q. (i, ik, q) \<in> V} = {}" for V
    using that by (auto simp: unique_index_def)
  show ?thesis
  proof
    show "case mt_index_put s t i ik pk unique of
        (Inl e, t') \<Rightarrow> t' = t \<and>
          (check_readwrite t = Inl e \<or>
           e = BeConstraint \<and> unique \<and> (\<exists>q. q \<noteq> pk \<and> (i, ik, q) \<in> index_view s t) \<and> (i, ik, pk) \<notin> index_view s t)
      | (Inr _, t') \<Rightarrow>
          index_view s t' = insert (i, ik, pk) (index_view s t) \<and> view s t' = view s t \<and>
          (unique \<and> unique_index (index_view s t) i \<longrightarrow> unique_index (index_view s t') i)"
    proof (cases "unique \<and> (i, ik, pk) \<notin> index_view s t \<and> {q. (i, ik, q) \<in> index_view s t} \<noteq> {}")
      case True
      then have "\<exists>q. q \<noteq> pk \<and> (i, ik, q) \<in> index_view s t" by auto
      with True Inr show ?thesis by (simp add: mt_index_put_def mem none)
    next
      case False
      then have "unique \<and> unique_index (index_view s t) i \<longrightarrow>
          unique_index (insert (i, ik, pk) (index_view s t)) i"
        using put [of "index_view s t"] by blast
      moreover have "mt_index_put s t i ik pk unique = (Inr (), set_pending_index (i, ik, pk) True t)"
        using False Inr unfolding mt_index_put_def mem none by (simp add: Let_def)
      ultimately show ?thesis by simp
    qed
  next
    show "case mt_index_delete_by_primary s t i pk of
        (Inl e, t') \<Rightarrow> t' = t \<and> check_readwrite t = Inl e
      | (Inr _, t') \<Rightarrow> index_view s t' = {k \<in> index_view s t. \<not> (fst k = i \<and> snd (snd k) = pk)}"
      using Inr del by (simp add: mt_index_delete_by_primary_def)
  qed
qed (simp add: mt_index_put_def mt_index_delete_by_primary_def)

theorem mt_index_put_unique_witness:
  "let t = snd (mt_index_put storage_default (mt_new ReadWrite [1] (fresh_meta [100])) 5 [1] [2] True) in
   mt_index_put storage_default t 5 [1] [3] True = (Inl BeConstraint, t)"
proof -
  let ?t = "set_pending_index (5, [1], [2]) True (mt_new ReadWrite [1] (fresh_meta [100]))"
  have first: "mt_index_put storage_default (mt_new ReadWrite [1] (fresh_meta [100])) 5 [1] [2] True = (Inr (), ?t)"
    by (simp add: mt_index_put_def check_readwrite_def mt_new_def index_entry_exists_def
        storage_default_def find_index_entries_def bt_keys_def bt_empty.rep_eq)
  have rw: "check_readwrite ?t = Inr ()"
    by (simp add: check_readwrite_def mt_new_def set_pending_index_def push_undo_def)
  have view: "index_view storage_default ?t = {(5, [1], [2])}"
    by (auto simp: index_view_iff storage_default_def mt_new_def set_pending_index_def push_undo_def
        split: if_splits)
  obtain r t' where put: "mt_index_put storage_default ?t 5 [1] [3] True = (r, t')"
    by (metis prod.exhaust)
  have "unique_index {(5, [1], [2])} 5" "\<not> unique_index {(5, [1], [3]), (5, [1], [2])} 5"
    unfolding unique_index_def by (blast, force)
  then have "r = Inl BeConstraint \<and> t' = ?t"
    using mt_index_put_unique [where s = storage_default and t = ?t and i = 5 and ik = "[1]"
        and pk = "[3]" and unique = True, THEN conjunct1] rw view
    by (cases r) (simp_all only: put prod.case sum.case, auto)
  then show ?thesis using put unfolding first Let_def snd_conv by blast
qed

end
