(* ===== verification/Memory_Cursor.thy ===== *)
theory Memory_Cursor
  imports Memory_View
begin

text \<open>
  The lazy cursor of the in-memory backend, \<open>boa_idb_memory/src/cursor.rs\<close>: a merge of the
  committed map and the pending overlay with one buffered row. The committed state and the
  transaction it borrows are arguments; the record holds the cursor's own fields.
\<close>

datatype cursor_kind =
  KindStore store_id
| KindIndex store_id index_id bool

record memory_cursor =
  mc_kind :: cursor_kind
  mc_range :: encoded_range
  mc_desc :: bool
  mc_key_only :: bool
  committed_record_pos :: "record_key option"
  pending_record_pos :: "record_key option"
  committed_index_pos :: "index_key option"
  pending_index_pos :: "index_key option"
  floor_record :: "(record_key \<times> bool) option"
  floor_index :: "(index_key \<times> bool) option"
  last_index_key :: "bytes option"
  mc_current :: "(bytes \<times> bytes \<times> bytes option) option"
  mc_exhausted :: bool

definition mc_open :: "cursor_kind \<Rightarrow> encoded_range \<Rightarrow> direction \<Rightarrow> bool \<Rightarrow> memory_cursor" where
  "mc_open kind rng dir key_only =
     \<lparr>mc_kind = kind, mc_range = rng, mc_desc = is_prev dir, mc_key_only = key_only,
      committed_record_pos = None, pending_record_pos = None, committed_index_pos = None,
      pending_index_pos = None, floor_record = None, floor_index = None, last_index_key = None,
      mc_current = None, mc_exhausted = True\<rparr>"

definition mc_open_store :: "store_id \<Rightarrow> encoded_range \<Rightarrow> direction \<Rightarrow> bool \<Rightarrow> memory_cursor" where
  "mc_open_store store = mc_open (KindStore store)"

definition mc_open_index :: "store_id \<Rightarrow> index_id \<Rightarrow> encoded_range \<Rightarrow> direction \<Rightarrow> bool \<Rightarrow> memory_cursor" where
  "mc_open_index store index rng dir = mc_open (KindIndex store index (is_unique dir)) rng dir"

definition mt_scan ::
    "memory_txn \<Rightarrow> source_ref \<Rightarrow> encoded_range \<Rightarrow> direction \<Rightarrow> bool \<Rightarrow> backend_error + memory_cursor" where
  "mt_scan t src rng dir key_only =
     (case src of
        SrcStore store \<Rightarrow>
          rbind (check_scope t store) (\<lambda>_. Inr (mc_open_store store rng dir key_only))
      | SrcIndex store index \<Rightarrow>
          rbind (check_scope t store) (\<lambda>_. Inr (mc_open_index store index rng dir key_only)))"

section \<open>Bounds of a record scan\<close>

definition mk_bound :: "'k \<Rightarrow> bool \<Rightarrow> 'k bound" where
  "mk_bound k inclusive = (if inclusive then Included k else Excluded k)"

text \<open>The lower end without a resume position: the narrower of the range's lower bound and the seek
  floor; ties keep the flag of the range.\<close>

definition lower_record :: "memory_cursor \<Rightarrow> store_id \<Rightarrow> record_key bound" where
  "lower_record c store =
     (let (key, inclusive) = (case lower (mc_range c) of
            Some (lo, op) \<Rightarrow> ((store, lo), \<not> op) | None \<Rightarrow> ((store, []), True));
          (key, inclusive) = (case floor_record c of
            Some (floor, _) \<Rightarrow> if snd floor > snd key then (floor, True) else (key, inclusive)
          | None \<Rightarrow> (key, inclusive))
      in mk_bound key inclusive)"

definition upper_record :: "memory_cursor \<Rightarrow> store_id \<Rightarrow> record_key bound" where
  "upper_record c store =
     (let (key, inclusive, bounded) = (case upper (mc_range c) of
            Some (hi, op) \<Rightarrow> ((store, hi), \<not> op, True) | None \<Rightarrow> ((store, []), False, False));
          (key, inclusive) = (case floor_record c of
            Some (floor, _) \<Rightarrow>
              if \<not> bounded \<or> snd floor < snd key then (floor, True) else (key, inclusive)
          | None \<Rightarrow> (key, inclusive))
      in if \<not> bounded \<and> floor_record c = None then Unbounded else mk_bound key inclusive)"

definition start_record_lower :: "memory_cursor \<Rightarrow> store_id \<Rightarrow> record_key bound" where
  "start_record_lower c store =
     (case committed_record_pos c of Some pos \<Rightarrow> Excluded pos | None \<Rightarrow> lower_record c store)"

definition start_record_upper :: "memory_cursor \<Rightarrow> store_id \<Rightarrow> record_key bound" where
  "start_record_upper c store =
     (case committed_record_pos c of Some pos \<Rightarrow> Excluded pos | None \<Rightarrow> upper_record c store)"

definition pending_start_record :: "memory_cursor \<Rightarrow> store_id \<Rightarrow> record_key bound" where
  "pending_start_record c store =
     (case pending_record_pos c of Some pos \<Rightarrow> Excluded pos | None \<Rightarrow> lower_record c store)"

definition pending_end_record :: "memory_cursor \<Rightarrow> store_id \<Rightarrow> record_key bound" where
  "pending_end_record c store =
     (case pending_record_pos c of Some pos \<Rightarrow> Excluded pos | None \<Rightarrow> upper_record c store)"

definition next_committed_record :: "storage_state \<Rightarrow> store_id \<Rightarrow> memory_cursor \<Rightarrow> record_key option" where
  "next_committed_record s store c =
     (case (if mc_desc c then bt_last_upto (start_record_upper c store) (records s)
            else bt_first_from (start_record_lower c store) (records s)) of
        None \<Rightarrow> None
      | Some (key, _) \<Rightarrow> if fst key \<noteq> store then None else Some key)"

definition peek_pending_record ::
    "memory_txn \<Rightarrow> store_id \<Rightarrow> memory_cursor \<Rightarrow> (record_key \<times> bytes option) option" where
  "peek_pending_record t store c =
     (case (if mc_desc c then bt_last_upto (pending_end_record c store) (pending_records t)
            else bt_first_from (pending_start_record c store) (pending_records t)) of
        None \<Rightarrow> None
      | Some (key, slot) \<Rightarrow> if fst key \<noteq> store then None else Some (key, slot))"

section \<open>The record merge\<close>

datatype merge_source = FromCommitted | FromPending

text \<open>What one pass of the loop picks: the end, a tie whose tombstone skips both sources, or a key
  with its value if pending, its source and whether it is a tombstone.\<close>

datatype record_pick =
  PickEnd
| PickTie memory_cursor
| Pick record_key "bytes option" merge_source bool memory_cursor

definition pick_record :: "storage_state \<Rightarrow> memory_txn \<Rightarrow> store_id \<Rightarrow> memory_cursor \<Rightarrow> record_pick" where
  "pick_record s t store c =
     (case (next_committed_record s store c, peek_pending_record t store c) of
        (None, None) \<Rightarrow> PickEnd
      | (Some ckey, None) \<Rightarrow>
          Pick ckey None FromCommitted (bt_get (pending_records t) ckey = Some None) c
      | (None, Some (pkey, slot)) \<Rightarrow> Pick pkey slot FromPending (slot = None) c
      | (Some ckey, Some (pkey, slot)) \<Rightarrow>
          (case cmp (snd pkey) (snd ckey) of
             Equal \<Rightarrow>
               let c = c\<lparr>committed_record_pos := Some ckey, pending_record_pos := Some pkey\<rparr> in
               if slot = None then PickTie c else Pick pkey slot FromPending False c
           | Less \<Rightarrow>
               if \<not> mc_desc c then Pick pkey slot FromPending (slot = None) c
               else Pick ckey None FromCommitted (bt_get (pending_records t) ckey = Some None) c
           | Greater \<Rightarrow>
               if mc_desc c then Pick pkey slot FromPending (slot = None) c
               else Pick ckey None FromCommitted (bt_get (pending_records t) ckey = Some None) c))"

definition advance_record_pos :: "merge_source \<Rightarrow> record_key \<Rightarrow> memory_cursor \<Rightarrow> memory_cursor" where
  "advance_record_pos source key c =
     (case source of
        FromCommitted \<Rightarrow> c\<lparr>committed_record_pos := Some key\<rparr>
      | FromPending \<Rightarrow> c\<lparr>pending_record_pos := Some key\<rparr>)"

text \<open>Whether a key is past the end of the range for the direction: \<open>past_upper\<close> and
  \<open>past_upper_index\<close> have the same body.\<close>

definition past_upper :: "memory_cursor \<Rightarrow> bytes \<Rightarrow> bool" where
  "past_upper c key =
     (if mc_desc c then
        (case lower (mc_range c) of
           Some (lo, op) \<Rightarrow> (case cmp key lo of Less \<Rightarrow> True | Equal \<Rightarrow> op | Greater \<Rightarrow> False)
         | None \<Rightarrow> False)
      else
        (case upper (mc_range c) of
           Some (hi, op) \<Rightarrow> (case cmp key hi of Greater \<Rightarrow> True | Equal \<Rightarrow> op | Less \<Rightarrow> False)
         | None \<Rightarrow> False))"

definition finish_cursor :: "memory_cursor \<Rightarrow> memory_cursor" where
  "finish_cursor c = c\<lparr>mc_exhausted := True, mc_current := None\<rparr>"

text \<open>How far a record scan may still go: the keys of each source that are ahead of its position.\<close>

definition committed_ahead :: "store_id \<Rightarrow> memory_cursor \<Rightarrow> record_key \<Rightarrow> bool" where
  "committed_ahead store c k =
     (if mc_desc c then before_bound (start_record_upper c store) k
      else after_bound (start_record_lower c store) k)"

definition pending_ahead :: "store_id \<Rightarrow> memory_cursor \<Rightarrow> record_key \<Rightarrow> bool" where
  "pending_ahead store c k =
     (if mc_desc c then before_bound (pending_end_record c store) k
      else after_bound (pending_start_record c store) k)"

definition records_left :: "storage_state \<Rightarrow> memory_txn \<Rightarrow> store_id \<Rightarrow> memory_cursor \<Rightarrow> nat" where
  "records_left s t store c =
     length (filter (committed_ahead store c) (bt_keys (records s))) +
     length (filter (pending_ahead store c) (bt_keys (pending_records t)))"

lemma next_committed_ahead:
  "next_committed_record s store c = Some k \<Longrightarrow>
     committed_ahead store c k \<and> bt_get (records s) k \<noteq> None \<and> fst k = store"
  by (auto simp: next_committed_record_def committed_ahead_def bt_last_upto_Some bt_first_from_Some
      split: option.splits if_splits)

lemma peek_pending_ahead:
  "peek_pending_record t store c = Some (k, slot) \<Longrightarrow>
     pending_ahead store c k \<and> bt_get (pending_records t) k = Some slot \<and> fst k = store"
  by (auto simp: peek_pending_record_def pending_ahead_def bt_last_upto_Some bt_first_from_Some
      split: option.splits if_splits)

lemma after_bound_trans: "after_bound b k \<Longrightarrow> k < k' \<Longrightarrow> after_bound b k'"
  by (cases b) auto

lemma before_bound_trans: "before_bound b k \<Longrightarrow> k' < k \<Longrightarrow> before_bound b k'"
  by (cases b) auto

lemma committed_ahead_pos:
  "committed_ahead store c k \<Longrightarrow>
     committed_ahead store (c\<lparr>committed_record_pos := Some k\<rparr>) k' \<Longrightarrow> committed_ahead store c k' \<and> k' \<noteq> k"
  by (auto simp: committed_ahead_def start_record_upper_def start_record_lower_def
      intro: after_bound_trans before_bound_trans split: if_splits)

lemma pending_ahead_pos:
  "pending_ahead store c k \<Longrightarrow>
     pending_ahead store (c\<lparr>pending_record_pos := Some k\<rparr>) k' \<Longrightarrow> pending_ahead store c k' \<and> k' \<noteq> k"
  by (auto simp: pending_ahead_def pending_end_record_def pending_start_record_def
      intro: after_bound_trans before_bound_trans split: if_splits)

lemma bounds_pos [simp]:
  "lower_record (c\<lparr>pending_record_pos := x\<rparr>) store = lower_record c store"
  "upper_record (c\<lparr>pending_record_pos := x\<rparr>) store = upper_record c store"
  "lower_record (c\<lparr>committed_record_pos := x\<rparr>) store = lower_record c store"
  "upper_record (c\<lparr>committed_record_pos := x\<rparr>) store = upper_record c store"
  by (simp_all add: lower_record_def upper_record_def)

lemma ahead_other_pos [simp]:
  "committed_ahead store (c\<lparr>pending_record_pos := x\<rparr>) = committed_ahead store c"
  "pending_ahead store (c\<lparr>committed_record_pos := x\<rparr>) = pending_ahead store c"
  by (rule ext, simp add: committed_ahead_def pending_ahead_def start_record_upper_def
      start_record_lower_def pending_end_record_def pending_start_record_def split: option.split)+

lemma length_filter_less:
  assumes "\<And>x. q x \<Longrightarrow> p x" "k \<in> set xs" "p k" "\<not> q k"
  shows "length (filter q xs) < length (filter p xs)"
  using assms(2)
proof (induction xs)
  case (Cons x xs)
  have le: "length (filter q ys) \<le> length (filter p ys)" for ys
    by (induction ys) (auto dest: assms(1))
  show ?case
  proof (cases "x = k")
    case True
    then show ?thesis using assms(3,4) le [of xs] by simp
  next
    case False
    then show ?thesis using Cons assms(1) by auto
  qed
qed simp

lemma committed_left_less:
  assumes "committed_ahead store c k" "bt_get (records s) k \<noteq> None"
  shows "length (filter (committed_ahead store (c\<lparr>committed_record_pos := Some k\<rparr>)) (bt_keys (records s)))
       < length (filter (committed_ahead store c) (bt_keys (records s)))"
  by (rule length_filter_less [of _ _ k])
     (use assms committed_ahead_pos [OF assms(1)] in \<open>blast | simp add: bt_keys_iff\<close>)+

lemma pending_left_less:
  assumes "pending_ahead store c k" "bt_get (pending_records t) k \<noteq> None"
  shows "length (filter (pending_ahead store (c\<lparr>pending_record_pos := Some k\<rparr>)) (bt_keys (pending_records t)))
       < length (filter (pending_ahead store c) (bt_keys (pending_records t)))"
  by (rule length_filter_less [of _ _ k])
     (use assms pending_ahead_pos [OF assms(1)] in \<open>blast | simp add: bt_keys_iff\<close>)+

text \<open>Every pick moves at least one source past the examined key.\<close>

lemma pick_record_cases:
  assumes "pick_record s t store c = p"
  obtains "p = PickEnd" "next_committed_record s store c = None" "peek_pending_record t store c = None"
  | (committed) k where "p = Pick k None FromCommitted (bt_get (pending_records t) k = Some None) c"
      "next_committed_record s store c = Some k"
      "\<And>pk slot. peek_pending_record t store c = Some (pk, slot) \<Longrightarrow>
         (if mc_desc c then snd pk < snd k else snd k < snd pk)"
  | (pending) k slot where "p = Pick k slot FromPending (slot = None) c"
      "peek_pending_record t store c = Some (k, slot)"
      "\<And>ck. next_committed_record s store c = Some ck \<Longrightarrow>
         (if mc_desc c then snd ck < snd k else snd k < snd ck)"
  | (tie) k slot c' where "c' = c\<lparr>committed_record_pos := Some k, pending_record_pos := Some k\<rparr>"
      "p = (if slot = None then PickTie c' else Pick k slot FromPending False c')"
      "next_committed_record s store c = Some k" "peek_pending_record t store c = Some (k, slot)"
proof (cases "next_committed_record s store c")
  case None
  then show ?thesis
    using assms that(1,3) by (cases "peek_pending_record t store c") (auto simp: pick_record_def)
next
  case (Some ck)
  show ?thesis
  proof (cases "peek_pending_record t store c")
    case None
    then show ?thesis using assms Some that(2) [of ck] by (simp add: pick_record_def)
  next
    case pend: (Some q)
    obtain pk slot where q: "q = (pk, slot)" by (cases q)
    have fst_eq: "fst pk = store" "fst ck = store"
      using next_committed_ahead [OF Some] peek_pending_ahead [OF pend [unfolded q]] by simp_all
    have pick: "p = (case cmp (snd pk) (snd ck) of
        Equal \<Rightarrow>
          let c = c\<lparr>committed_record_pos := Some ck, pending_record_pos := Some pk\<rparr> in
          if slot = None then PickTie c else Pick pk slot FromPending False c
      | Less \<Rightarrow>
          if \<not> mc_desc c then Pick pk slot FromPending (slot = None) c
          else Pick ck None FromCommitted (bt_get (pending_records t) ck = Some None) c
      | Greater \<Rightarrow>
          if mc_desc c then Pick pk slot FromPending (slot = None) c
          else Pick ck None FromCommitted (bt_get (pending_records t) ck = Some None) c)"
      using assms Some pend q by (simp add: pick_record_def)
    consider "cmp (snd pk) (snd ck) = Less" | "cmp (snd pk) (snd ck) = Equal" | "cmp (snd pk) (snd ck) = Greater"
      by (cases "cmp (snd pk) (snd ck)") auto
    then show ?thesis
    proof cases
      case 1
      then have lt: "snd pk < snd ck" by (simp add: cmp_Less_iff)
      show ?thesis
      proof (cases "mc_desc c")
        case True
        show ?thesis by (rule that(2) [of ck]) (use True pick [unfolded 1] Some pend q lt in auto)
      next
        case False
        show ?thesis by (rule that(3) [of pk slot]) (use False pick [unfolded 1] Some pend q lt in auto)
      qed
    next
      case 2
      then have "pk = ck" using fst_eq by (simp add: cmp_Equal_iff prod_eq_iff)
      then show ?thesis using Some pend q that(4) [OF refl, of slot ck] pick [unfolded 2] by (simp add: Let_def)
    next
      case 3
      then have lt: "snd ck < snd pk" by (simp add: cmp_Greater_iff)
      show ?thesis
      proof (cases "mc_desc c")
        case True
        show ?thesis by (rule that(3) [of pk slot]) (use True pick [unfolded 3] Some pend q lt in auto)
      next
        case False
        show ?thesis by (rule that(2) [of ck]) (use False pick [unfolded 3] Some pend q lt in auto)
      qed
    qed
  qed
qed

lemma tie_left_less:
  assumes "next_committed_record s store c = Some k" "peek_pending_record t store c = Some (k, slot)"
  shows "records_left s t store (c\<lparr>committed_record_pos := Some k, pending_record_pos := Some k\<rparr>)
       < records_left s t store c"
proof -
  let ?c = "c\<lparr>committed_record_pos := Some k\<rparr>"
  have "records_left s t store (?c\<lparr>pending_record_pos := Some k\<rparr>) < records_left s t store c"
    using committed_left_less [of store c k s] pending_left_less [of store ?c k t]
      next_committed_ahead [OF assms(1)] peek_pending_ahead [OF assms(2)]
    by (simp add: records_left_def)
  then show ?thesis by simp
qed

lemma pick_tie_less:
  assumes "pick_record s t store c = PickTie c'"
  shows "records_left s t store c' < records_left s t store c"
  by (rule pick_record_cases [OF assms]) (auto simp: tie_left_less split: if_splits)

lemma advance_pos_less:
  assumes "pick_record s t store c = Pick k v source tombstoned c'"
  shows "records_left s t store (advance_record_pos source k c') < records_left s t store c"
proof (rule pick_record_cases [OF assms])
  fix k'
  assume "Pick k v source tombstoned c' = Pick k' None FromCommitted (bt_get (pending_records t) k' = Some None) c"
    "next_committed_record s store c = Some k'"
  then show ?thesis
    using committed_left_less [of store c k' s] next_committed_ahead [of s store c k']
    by (simp add: advance_record_pos_def records_left_def)
next
  fix k' slot
  assume "Pick k v source tombstoned c' = Pick k' slot FromPending (slot = None) c"
    "peek_pending_record t store c = Some (k', slot)"
  then show ?thesis
    using pending_left_less [of store c k' t] peek_pending_ahead [of t store c k' slot]
    by (simp add: advance_record_pos_def records_left_def)
next
  fix k' slot c''
  assume "c'' = c\<lparr>committed_record_pos := Some k', pending_record_pos := Some k'\<rparr>"
    "Pick k v source tombstoned c' = (if slot = None then PickTie c'' else Pick k' slot FromPending False c'')"
    "next_committed_record s store c = Some k'" "peek_pending_record t store c = Some (k', slot)"
  then show ?thesis
    using tie_left_less [of s store c k' t slot]
    by (auto simp: advance_record_pos_def split: if_splits)
qed simp

text \<open>\<open>advance_store\<close>: the loop ends because every pass leaves fewer keys ahead.\<close>

function advance_store ::
    "storage_state \<Rightarrow> memory_txn \<Rightarrow> store_id \<Rightarrow> memory_cursor \<Rightarrow> (backend_error + bool) \<times> memory_cursor" where
  "advance_store s t store c =
     (case pick_record s t store c of
        PickEnd \<Rightarrow> (Inr False, finish_cursor c)
      | PickTie c \<Rightarrow> advance_store s t store c
      | Pick key v source tombstoned c \<Rightarrow>
          let c = advance_record_pos source key c in
          if tombstoned then advance_store s t store c
          else if \<not> contains (mc_range c) (snd key) then
            (if past_upper c (snd key) then (Inr False, finish_cursor c) else advance_store s t store c)
          else
            let v = (if mc_key_only c then None else if v \<noteq> None then v else read_record s t key)
            in (Inr True, c\<lparr>mc_current := Some (snd key, snd key, v)\<rparr>))"
  by pat_completeness auto
termination
  by (relation "measure (\<lambda>(s, t, store, c). records_left s t store c)")
     (auto simp: pick_tie_less advance_pos_less)

declare advance_store.simps [simp del]

section \<open>The index merge\<close>

definition lower_index :: "memory_cursor \<Rightarrow> index_id \<Rightarrow> index_key bound" where
  "lower_index c index =
     (let (key, inclusive) = (case lower (mc_range c) of
            Some (lo, op) \<Rightarrow> ((index, lo, []), \<not> op) | None \<Rightarrow> ((index, [], []), True));
          (key, inclusive) = (case floor_index c of
            Some (floor, _) \<Rightarrow> if snd floor > snd key then (floor, True) else (key, inclusive)
          | None \<Rightarrow> (key, inclusive))
      in mk_bound key inclusive)"

text \<open>There is no maximal byte string, so an inclusive upper end scans from the end of the map; a seek
  floor replaces the bound of the range.\<close>

definition upper_index :: "memory_cursor \<Rightarrow> index_id \<Rightarrow> index_key bound" where
  "upper_index c index =
     (case floor_index c of
        Some (floor, _) \<Rightarrow> Included floor
      | None \<Rightarrow>
          (case upper (mc_range c) of
             Some (hi, op) \<Rightarrow> if op then Excluded (index, hi, []) else Unbounded
           | None \<Rightarrow> Unbounded))"

definition start_index_lower :: "memory_cursor \<Rightarrow> index_id \<Rightarrow> index_key bound" where
  "start_index_lower c index =
     (case committed_index_pos c of Some pos \<Rightarrow> Excluded pos | None \<Rightarrow> lower_index c index)"

definition start_index_upper :: "memory_cursor \<Rightarrow> index_id \<Rightarrow> index_key bound" where
  "start_index_upper c index =
     (case committed_index_pos c of Some pos \<Rightarrow> Excluded pos | None \<Rightarrow> upper_index c index)"

definition pending_start_index :: "memory_cursor \<Rightarrow> index_id \<Rightarrow> index_key bound" where
  "pending_start_index c index =
     (case pending_index_pos c of Some pos \<Rightarrow> Excluded pos | None \<Rightarrow> lower_index c index)"

definition pending_end_index :: "memory_cursor \<Rightarrow> index_id \<Rightarrow> index_key bound" where
  "pending_end_index c index =
     (case pending_index_pos c of Some pos \<Rightarrow> Excluded pos | None \<Rightarrow> upper_index c index)"

definition peek_committed_index :: "storage_state \<Rightarrow> index_id \<Rightarrow> memory_cursor \<Rightarrow> index_key option" where
  "peek_committed_index s index c =
     (case (if mc_desc c then bt_last_upto (start_index_upper c index) (index_entries s)
            else bt_first_from (start_index_lower c index) (index_entries s)) of
        None \<Rightarrow> None
      | Some (key, _) \<Rightarrow> if fst key \<noteq> index then None else Some key)"

definition peek_pending_index :: "memory_txn \<Rightarrow> index_id \<Rightarrow> memory_cursor \<Rightarrow> (index_key \<times> bool) option" where
  "peek_pending_index t index c =
     (case (if mc_desc c then bt_last_upto (pending_end_index c index) (pending_index_entries t)
            else bt_first_from (pending_start_index c index) (pending_index_entries t)) of
        None \<Rightarrow> None
      | Some (key, live) \<Rightarrow> if fst key \<noteq> index then None else Some (key, live))"

datatype index_pick =
  IndexEnd
| IndexTie memory_cursor
| IndexPick bytes bytes merge_source bool memory_cursor

definition pick_index :: "storage_state \<Rightarrow> memory_txn \<Rightarrow> index_id \<Rightarrow> memory_cursor \<Rightarrow> index_pick" where
  "pick_index s t index c =
     (let pick_committed = (\<lambda>(i, ik, pk).
            IndexPick ik pk FromCommitted (bt_get (pending_index_entries t) (i, ik, pk) = Some False) c);
          pick_pending = (\<lambda>(i, ik, pk) live. IndexPick ik pk FromPending (\<not> live) c)
      in case (peek_committed_index s index c, peek_pending_index t index c) of
           (None, None) \<Rightarrow> IndexEnd
         | (Some ckey, None) \<Rightarrow> pick_committed ckey
         | (None, Some (pkey, live)) \<Rightarrow> pick_pending pkey live
         | (Some ckey, Some (pkey, live)) \<Rightarrow>
             (case cmp (snd pkey) (snd ckey) of
                Equal \<Rightarrow>
                  let c = c\<lparr>committed_index_pos := Some ckey, pending_index_pos := Some pkey\<rparr> in
                  if \<not> live then IndexTie c
                  else IndexPick (fst (snd pkey)) (snd (snd pkey)) FromPending False c
              | Less \<Rightarrow> if \<not> mc_desc c then pick_pending pkey live else pick_committed ckey
              | Greater \<Rightarrow> if mc_desc c then pick_pending pkey live else pick_committed ckey))"

definition advance_index_pos :: "merge_source \<Rightarrow> index_key \<Rightarrow> memory_cursor \<Rightarrow> memory_cursor" where
  "advance_index_pos source key c =
     (case source of
        FromCommitted \<Rightarrow> c\<lparr>committed_index_pos := Some key\<rparr>
      | FromPending \<Rightarrow> c\<lparr>pending_index_pos := Some key\<rparr>)"

text \<open>The smallest live primary key of an index-key group, over both sources.\<close>

definition group_keys :: "index_id \<Rightarrow> bytes \<Rightarrow> (index_key, 'v) btree \<Rightarrow> index_key list" where
  "group_keys index idx_key m =
     takeWhile (\<lambda>(iid, ik, pk). iid = index \<and> ik = idx_key)
       (filter (after_bound (Included (index, idx_key, []))) (bt_keys m))"

definition group_min ::
    "storage_state \<Rightarrow> memory_txn \<Rightarrow> store_id \<Rightarrow> index_id \<Rightarrow> bytes \<Rightarrow> bool \<Rightarrow> backend_error + (bytes \<times> bytes option)" where
  "group_min s t store index idx_key key_only =
     (let member_value = (\<lambda>pk. if key_only then None else read_record s t (store, pk));
          committed_min = find (\<lambda>k. bt_get (pending_index_entries t) k \<noteq> Some False)
                            (group_keys index idx_key (index_entries s));
          pending_min = find (\<lambda>k. bt_get (pending_index_entries t) k = Some True)
                            (group_keys index idx_key (pending_index_entries t))
      in case (committed_min, pending_min) of
           (Some (_, _, cpk), Some (_, _, ppk)) \<Rightarrow>
             if ppk < cpk then Inr (ppk, member_value ppk) else Inr (cpk, member_value cpk)
         | (Some (_, _, pk), None) \<Rightarrow> Inr (pk, member_value pk)
         | (None, Some (_, _, pk)) \<Rightarrow> Inr (pk, member_value pk)
         | (None, None) \<Rightarrow> Inl BeInternal)"

definition committed_index_ahead :: "index_id \<Rightarrow> memory_cursor \<Rightarrow> index_key \<Rightarrow> bool" where
  "committed_index_ahead index c k =
     (if mc_desc c then before_bound (start_index_upper c index) k
      else after_bound (start_index_lower c index) k)"

definition pending_index_ahead :: "index_id \<Rightarrow> memory_cursor \<Rightarrow> index_key \<Rightarrow> bool" where
  "pending_index_ahead index c k =
     (if mc_desc c then before_bound (pending_end_index c index) k
      else after_bound (pending_start_index c index) k)"

definition entries_left :: "storage_state \<Rightarrow> memory_txn \<Rightarrow> index_id \<Rightarrow> memory_cursor \<Rightarrow> nat" where
  "entries_left s t index c =
     length (filter (committed_index_ahead index c) (bt_keys (index_entries s))) +
     length (filter (pending_index_ahead index c) (bt_keys (pending_index_entries t)))"

lemma index_bounds_pos [simp]:
  "lower_index (c\<lparr>pending_index_pos := x\<rparr>) i = lower_index c i"
  "upper_index (c\<lparr>pending_index_pos := x\<rparr>) i = upper_index c i"
  "lower_index (c\<lparr>committed_index_pos := x\<rparr>) i = lower_index c i"
  "upper_index (c\<lparr>committed_index_pos := x\<rparr>) i = upper_index c i"
  by (simp_all add: lower_index_def upper_index_def split: option.split)

lemma index_ahead_other_pos [simp]:
  "committed_index_ahead i (c\<lparr>pending_index_pos := x\<rparr>) = committed_index_ahead i c"
  "pending_index_ahead i (c\<lparr>committed_index_pos := x\<rparr>) = pending_index_ahead i c"
  by (rule ext, simp add: committed_index_ahead_def pending_index_ahead_def start_index_upper_def
      start_index_lower_def pending_end_index_def pending_start_index_def split: option.split)+

lemma peek_committed_index_ahead:
  "peek_committed_index s i c = Some k \<Longrightarrow>
     committed_index_ahead i c k \<and> bt_get (index_entries s) k \<noteq> None \<and> fst k = i"
  by (auto simp: peek_committed_index_def committed_index_ahead_def bt_last_upto_Some bt_first_from_Some
      split: option.splits if_splits)

lemma peek_pending_index_ahead:
  "peek_pending_index t i c = Some (k, live) \<Longrightarrow>
     pending_index_ahead i c k \<and> bt_get (pending_index_entries t) k = Some live \<and> fst k = i"
  by (auto simp: peek_pending_index_def pending_index_ahead_def bt_last_upto_Some bt_first_from_Some
      split: option.splits if_splits)

lemma committed_index_left_less:
  assumes "committed_index_ahead i c k" "bt_get (index_entries s) k \<noteq> None"
  shows "entries_left s t i (c\<lparr>committed_index_pos := Some k\<rparr>) < entries_left s t i c"
proof -
  have "committed_index_ahead i (c\<lparr>committed_index_pos := Some k\<rparr>) k' \<Longrightarrow> committed_index_ahead i c k' \<and> k' \<noteq> k" for k'
    using assms(1) by (auto simp: committed_index_ahead_def start_index_upper_def start_index_lower_def
        intro: after_bound_trans before_bound_trans split: if_splits)
  then have "length (filter (committed_index_ahead i (c\<lparr>committed_index_pos := Some k\<rparr>)) (bt_keys (index_entries s)))
      < length (filter (committed_index_ahead i c) (bt_keys (index_entries s)))"
    using assms by (intro length_filter_less [of _ _ k]) (blast | simp add: bt_keys_iff)+
  then show ?thesis by (simp add: entries_left_def)
qed

lemma pending_index_left_less:
  assumes "pending_index_ahead i c k" "bt_get (pending_index_entries t) k \<noteq> None"
  shows "entries_left s t i (c\<lparr>pending_index_pos := Some k\<rparr>) < entries_left s t i c"
proof -
  have "pending_index_ahead i (c\<lparr>pending_index_pos := Some k\<rparr>) k' \<Longrightarrow> pending_index_ahead i c k' \<and> k' \<noteq> k" for k'
    using assms(1) by (auto simp: pending_index_ahead_def pending_end_index_def pending_start_index_def
        intro: after_bound_trans before_bound_trans split: if_splits)
  then have "length (filter (pending_index_ahead i (c\<lparr>pending_index_pos := Some k\<rparr>)) (bt_keys (pending_index_entries t)))
      < length (filter (pending_index_ahead i c) (bt_keys (pending_index_entries t)))"
    using assms by (intro length_filter_less [of _ _ k]) (blast | simp add: bt_keys_iff)+
  then show ?thesis by (simp add: entries_left_def)
qed

lemma index_tie_left_less:
  assumes "peek_committed_index s i c = Some k" "peek_pending_index t i c = Some (k, live)"
  shows "entries_left s t i (c\<lparr>committed_index_pos := Some k, pending_index_pos := Some k\<rparr>) < entries_left s t i c"
proof -
  let ?c = "c\<lparr>committed_index_pos := Some k\<rparr>"
  have "entries_left s t i (?c\<lparr>pending_index_pos := Some k\<rparr>) < entries_left s t i ?c"
    using peek_pending_index_ahead [OF assms(2)] by (intro pending_index_left_less) simp_all
  also have "... < entries_left s t i c"
    using peek_committed_index_ahead [OF assms(1)] by (intro committed_index_left_less) simp_all
  finally show ?thesis by simp
qed

lemma pick_index_less:
  assumes "pick_index s t i c = p"
  shows "case p of IndexEnd \<Rightarrow> True
    | IndexTie c' \<Rightarrow> entries_left s t i c' < entries_left s t i c
    | IndexPick ik pk source tombstoned c' \<Rightarrow>
        entries_left s t i (advance_index_pos source (i, ik, pk) c') < entries_left s t i c"
proof -
  have comm: "entries_left s t i (advance_index_pos FromCommitted (i, ik, pk) c) < entries_left s t i c"
    if "peek_committed_index s i c = Some (j, ik, pk)" for j ik pk
    using committed_index_left_less [of i c "(i, ik, pk)" s t] peek_committed_index_ahead [OF that]
    by (auto simp: advance_index_pos_def)
  have pend: "entries_left s t i (advance_index_pos FromPending (i, ik, pk) c) < entries_left s t i c"
    if "peek_pending_index t i c = Some ((j, ik, pk), live)" for j ik pk live
    using pending_index_left_less [of i c "(i, ik, pk)" t s] peek_pending_index_ahead [OF that]
    by (auto simp: advance_index_pos_def)
  have tie: "entries_left s t i (c\<lparr>committed_index_pos := Some (i, ik, pk), pending_index_pos := Some (i, ik, pk)\<rparr>)
      < entries_left s t i c"
    if "peek_committed_index s i c = Some (j, ik, pk)" "peek_pending_index t i c = Some ((l, ik, pk), live)"
    for j l ik pk live
    using index_tie_left_less [of s i c "(i, ik, pk)" t live] that peek_committed_index_ahead [OF that(1)]
      peek_pending_index_ahead [OF that(2)] by simp
  show ?thesis
  proof (cases "peek_committed_index s i c")
    case None
    then show ?thesis
      using assms pend by (cases "peek_pending_index t i c") (auto simp: pick_index_def)
  next
    case (Some ck)
    obtain j ik pk where ck: "ck = (j, ik, pk)" by (cases ck) auto
    show ?thesis
    proof (cases "peek_pending_index t i c")
      case None
      then show ?thesis using assms Some ck comm by (auto simp: pick_index_def)
    next
      case pk: (Some q)
      obtain l ik' pk' live where q: "q = ((l, ik', pk'), live)" by (metis prod.exhaust)
      have "j = i" "l = i"
        using peek_committed_index_ahead [OF Some] peek_pending_index_ahead [OF pk [unfolded q]] ck by simp_all
      then show ?thesis
        using assms Some ck pk q comm [OF Some [unfolded ck]] pend [OF pk [unfolded q]] tie
        by (auto simp: pick_index_def Let_def advance_index_pos_def cmp_def split: if_splits)
    qed
  qed
qed

text \<open>\<open>advance_index\<close>: a unique cursor yields one row per index key; in descending order it resolves
  the group's smallest primary key and jumps both positions to it.\<close>

function advance_index ::
    "storage_state \<Rightarrow> memory_txn \<Rightarrow> store_id \<Rightarrow> index_id \<Rightarrow> bool \<Rightarrow> memory_cursor \<Rightarrow>
       (backend_error + bool) \<times> memory_cursor" where
  "advance_index s t store index unique c =
     (case pick_index s t index c of
        IndexEnd \<Rightarrow> (Inr False, finish_cursor c)
      | IndexTie c \<Rightarrow> advance_index s t store index unique c
      | IndexPick idx_key pkey source tombstoned c \<Rightarrow>
          let c = advance_index_pos source (index, idx_key, pkey) c in
          if tombstoned then advance_index s t store index unique c
          else if \<not> contains (mc_range c) idx_key then
            (if past_upper c idx_key then (Inr False, finish_cursor c)
             else advance_index s t store index unique c)
          else if unique \<and> last_index_key c = Some idx_key then advance_index s t store index unique c
          else if unique \<and> mc_desc c then
            (case group_min s t store index idx_key (mc_key_only c) of
               Inl e \<Rightarrow> (Inl e, c)
             | Inr (min_pkey, v) \<Rightarrow>
                 (Inr True, c\<lparr>last_index_key := Some idx_key,
                             committed_index_pos := Some (index, idx_key, min_pkey),
                             pending_index_pos := Some (index, idx_key, min_pkey),
                             mc_current := Some (idx_key, min_pkey, if mc_key_only c then None else v)\<rparr>))
          else
            let c = (if unique then c\<lparr>last_index_key := Some idx_key\<rparr> else c);
                v = (if mc_key_only c then None else read_record s t (store, pkey))
            in (Inr True, c\<lparr>mc_current := Some (idx_key, pkey, v)\<rparr>))"
  by pat_completeness auto
termination
  by (relation "measure (\<lambda>(s, t, store, index, unique, c). entries_left s t index c)")
     (use pick_index_less in \<open>fastforce simp: Let_def\<close>)+

declare advance_index.simps [simp del]

section \<open>The cursor interface\<close>

definition mc_advance :: "storage_state \<Rightarrow> memory_txn \<Rightarrow> memory_cursor \<Rightarrow> (backend_error + bool) \<times> memory_cursor" where
  "mc_advance s t c =
     (case mc_kind c of
        KindStore store \<Rightarrow> advance_store s t store c
      | KindIndex store index unique \<Rightarrow> advance_index s t store index unique c)"

definition mc_seek ::
    "storage_state \<Rightarrow> memory_txn \<Rightarrow> cursor_seek \<Rightarrow> memory_cursor \<Rightarrow> (backend_error + bool) \<times> memory_cursor" where
  "mc_seek s t target c =
     (let c = c\<lparr>committed_record_pos := None, pending_record_pos := None, committed_index_pos := None,
                pending_index_pos := None, floor_record := None, floor_index := None,
                last_index_key := None, mc_exhausted := False\<rparr>;
          c = (case target of
                 SeekFirst \<Rightarrow> c
               | SeekKey key \<Rightarrow>
                   (case mc_kind c of
                      KindStore store \<Rightarrow> c\<lparr>floor_record := Some ((store, key), True)\<rparr>
                    | KindIndex _ index _ \<Rightarrow> c\<lparr>floor_index := Some ((index, key, []), True)\<rparr>)
               | SeekKeyAndPrimaryKey key pkey \<Rightarrow>
                   (case mc_kind c of
                      KindStore store \<Rightarrow> c\<lparr>floor_record := Some ((store, key), True)\<rparr>
                    | KindIndex _ index _ \<Rightarrow> c\<lparr>floor_index := Some ((index, key, pkey), True)\<rparr>))
      in mc_advance s t c)"

text \<open>The \<open>for\<close> loop of \<open>step\<close>: it stops at the first error or end.\<close>

fun mc_step_loop ::
    "storage_state \<Rightarrow> memory_txn \<Rightarrow> nat \<Rightarrow> memory_cursor \<Rightarrow> (backend_error + bool) \<times> memory_cursor" where
  "mc_step_loop s t 0 c = (Inr True, c)"
| "mc_step_loop s t (Suc n) c =
     (case mc_advance s t c of
        (Inl e, c) \<Rightarrow> (Inl e, c)
      | (Inr found, c) \<Rightarrow> if \<not> found then (Inr False, c) else mc_step_loop s t n c)"

definition mc_step ::
    "storage_state \<Rightarrow> memory_txn \<Rightarrow> nat \<Rightarrow> memory_cursor \<Rightarrow> (backend_error + bool) \<times> memory_cursor" where
  "mc_step s t count c = (if mc_exhausted c then (Inr False, c) else mc_step_loop s t count c)"

definition mc_current_key :: "memory_cursor \<Rightarrow> bytes" where
  "mc_current_key c =
     (if mc_exhausted c then [] else case mc_current c of None \<Rightarrow> [] | Some (k, _, _) \<Rightarrow> k)"

definition mc_current_primary_key :: "memory_cursor \<Rightarrow> bytes" where
  "mc_current_primary_key c =
     (if mc_exhausted c \<or> mc_current c = None then []
      else case mc_current c of None \<Rightarrow> [] | Some (_, pk, _) \<Rightarrow> pk)"

definition mc_current_value :: "memory_cursor \<Rightarrow> bytes option" where
  "mc_current_value c =
     (if mc_key_only c \<or> mc_exhausted c then None
      else case mc_current c of None \<Rightarrow> None | Some (_, _, v) \<Rightarrow> v)"

end
