(* ===== verification/Memory_Scan.thy ===== *)
theory Memory_Scan
  imports Memory_Cursor
begin

text \<open>
  The record scan of the in-memory cursor against its specification: the rows still to come are a
  set (\<open>remaining\<close>), one advance yields its first element in the direction of the cursor and
  removes it, and reports the end exactly when the set is empty.
\<close>

definition pos_ok :: "store_id \<Rightarrow> memory_cursor \<Rightarrow> bool" where
  "pos_ok store c \<longleftrightarrow>
     (\<forall>p. committed_record_pos c = Some p \<longrightarrow> fst p = store) \<and>
     (\<forall>p. pending_record_pos c = Some p \<longrightarrow> fst p = store) \<and>
     (\<forall>f b. floor_record c = Some (f, b) \<longrightarrow> fst f = store)"

text \<open>A key that both sources hold is ahead of both positions or of neither.\<close>

definition synced :: "storage_state \<Rightarrow> memory_txn \<Rightarrow> store_id \<Rightarrow> memory_cursor \<Rightarrow> bool" where
  "synced s t store c \<longleftrightarrow>
     (\<forall>k. bt_get (records s) k \<noteq> None \<and> bt_get (pending_records t) k \<noteq> None \<longrightarrow>
        committed_ahead store c k = pending_ahead store c k)"

text \<open>A descending scan needs an upper end, of the range or of a seek, or no records of a store with
  a higher identifier.\<close>

definition last_store :: "storage_state \<Rightarrow> memory_txn \<Rightarrow> store_id \<Rightarrow> bool" where
  "last_store s t store \<longleftrightarrow>
     (\<forall>k. store < fst k \<longrightarrow> bt_get (records s) k = None \<and> bt_get (pending_records t) k = None)"

definition scan_ok :: "storage_state \<Rightarrow> memory_txn \<Rightarrow> store_id \<Rightarrow> memory_cursor \<Rightarrow> bool" where
  "scan_ok s t store c \<longleftrightarrow>
     mc_desc c \<longrightarrow> upper (mc_range c) \<noteq> None \<or> floor_record c \<noteq> None \<or> last_store s t store"

definition mc_inv :: "storage_state \<Rightarrow> memory_txn \<Rightarrow> store_id \<Rightarrow> memory_cursor \<Rightarrow> bool" where
  "mc_inv s t store c \<longleftrightarrow> pos_ok store c \<and> synced s t store c \<and> scan_ok s t store c"

definition bound_in :: "store_id \<Rightarrow> record_key bound \<Rightarrow> bool" where
  "bound_in store b = (case b of Included k \<Rightarrow> fst k = store | Excluded k \<Rightarrow> fst k = store | Unbounded \<Rightarrow> False)"

lemma bound_in_mk [simp]: "bound_in store (mk_bound k inclusive) = (fst k = store)"
  by (simp add: bound_in_def mk_bound_def)

lemma bound_in_Excluded [simp]: "bound_in store (Excluded k) = (fst k = store)"
  by (simp add: bound_in_def)

lemma lower_record_in: "pos_ok store c \<Longrightarrow> bound_in store (lower_record c store)"
  by (auto simp: pos_ok_def lower_record_def Let_def split: option.splits prod.splits if_splits)

lemma upper_record_in:
  "pos_ok store c \<Longrightarrow>
     bound_in store (upper_record c store) \<or> upper (mc_range c) = None \<and> floor_record c = None"
  by (auto simp: pos_ok_def upper_record_def Let_def split: option.splits prod.splits if_splits)

text \<open>A range that is bounded within a store meets the store first.\<close>

lemma after_same_store: "bound_in store b \<Longrightarrow> after_bound b k0 \<Longrightarrow> k0 \<le> k \<Longrightarrow> fst k = store \<Longrightarrow> fst k0 = store"
  by (cases b; cases k0; cases k) (auto simp: bound_in_def less_eq_prod_def less_prod_def)

lemma before_same_store: "bound_in store b \<Longrightarrow> before_bound b k0 \<Longrightarrow> k \<le> k0 \<Longrightarrow> fst k = store \<Longrightarrow> fst k0 = store"
  by (cases b; cases k0; cases k) (auto simp: bound_in_def less_eq_prod_def less_prod_def)

lemma first_from_store:
  assumes "bound_in store b" "after_bound b k" "fst k = store" "bt_get m k \<noteq> None"
  shows "\<exists>k0 v. bt_first_from b m = Some (k0, v) \<and> fst k0 = store"
proof -
  obtain k0 v where k0: "bt_first_from b m = Some (k0, v)"
    using assms(2,4) bt_first_from_None by (metis option.exhaust prod.exhaust)
  then have "after_bound b k0" "k0 \<le> k" using assms(2,4) unfolding bt_first_from_Some by blast+
  then show ?thesis using after_same_store [OF assms(1)] assms(3) k0 by blast
qed

lemma last_upto_store:
  assumes "bound_in store b \<or> (\<forall>k. store < fst k \<longrightarrow> bt_get m k = None)"
    "before_bound b k" "fst k = store" "bt_get m k \<noteq> None"
  shows "\<exists>k0 v. bt_last_upto b m = Some (k0, v) \<and> fst k0 = store"
proof -
  obtain k0 v where k0: "bt_last_upto b m = Some (k0, v)"
    using assms(2,4) bt_last_upto_None by (metis option.exhaust prod.exhaust)
  then have le: "before_bound b k0" "k \<le> k0" "bt_get m k0 \<noteq> None"
    using assms(2,4) unfolding bt_last_upto_Some by (blast, blast, simp)
  have "fst k0 = store"
    using assms(1)
  proof
    assume "bound_in store b"
    then show ?thesis using before_same_store le(1,2) assms(3) by blast
  next
    assume "\<forall>k. store < fst k \<longrightarrow> bt_get m k = None"
    then have "\<not> store < fst k0" using le(3) by (auto simp del: split_paired_All)
    then show ?thesis using le(2) assms(3) by (cases k; cases k0) (auto simp: less_eq_prod_def)
  qed
  then show ?thesis using k0 by blast
qed

lemma start_lower_in: "pos_ok store c \<Longrightarrow> bound_in store (start_record_lower c store)"
  "pos_ok store c \<Longrightarrow> bound_in store (pending_start_record c store)"
  using lower_record_in [of store c]
  by (auto simp: start_record_lower_def pending_start_record_def pos_ok_def split: option.split)

lemma start_upper_in:
  assumes "pos_ok store c" "scan_ok s t store c" "mc_desc c"
  shows "bound_in store (start_record_upper c store) \<or> last_store s t store"
    "bound_in store (pending_end_record c store) \<or> last_store s t store"
  using upper_record_in [OF assms(1)] assms
  by (auto simp: start_record_upper_def pending_end_record_def pos_ok_def scan_ok_def split: option.split)

lemma no_committed_ahead:
  assumes "mc_inv s t store c" "next_committed_record s store c = None" "fst k = store"
    "bt_get (records s) k \<noteq> None"
  shows "\<not> committed_ahead store c k"
proof (cases "mc_desc c")
  case False
  then show ?thesis
    using first_from_store [OF start_lower_in(1) _ assms(3,4), of c] assms(1,2)
    by (auto simp: mc_inv_def committed_ahead_def next_committed_record_def)
next
  case True
  have "bound_in store (start_record_upper c store) \<or> (\<forall>k. store < fst k \<longrightarrow> bt_get (records s) k = None)"
    using start_upper_in(1) [of store c s t] assms(1) True unfolding mc_inv_def last_store_def by blast
  from last_upto_store [OF this _ assms(3,4)] True assms(2) show ?thesis
    by (auto simp: committed_ahead_def next_committed_record_def)
qed

lemma no_pending_ahead:
  assumes "mc_inv s t store c" "peek_pending_record t store c = None" "fst k = store"
    "bt_get (pending_records t) k \<noteq> None"
  shows "\<not> pending_ahead store c k"
proof (cases "mc_desc c")
  case False
  then show ?thesis
    using first_from_store [OF start_lower_in(2) _ assms(3,4), of c] assms(1,2)
    by (auto simp: mc_inv_def pending_ahead_def peek_pending_record_def)
next
  case True
  have "bound_in store (pending_end_record c store) \<or>
      (\<forall>k. store < fst k \<longrightarrow> bt_get (pending_records t) k = None)"
    using start_upper_in(2) [of store c s t] assms(1) True unfolding mc_inv_def last_store_def by blast
  from last_upto_store [OF this _ assms(3,4)] True assms(2) show ?thesis
    by (auto simp: pending_ahead_def peek_pending_record_def)
qed

section \<open>Order of the keys ahead\<close>

definition cursor_le :: "memory_cursor \<Rightarrow> record_key \<Rightarrow> record_key \<Rightarrow> bool" where
  "cursor_le c k k' \<longleftrightarrow> (if mc_desc c then k' \<le> k else k \<le> k')"

lemma next_committed_least:
  "next_committed_record s store c = Some k \<Longrightarrow> bt_get (records s) k' \<noteq> None \<Longrightarrow>
     committed_ahead store c k' \<Longrightarrow> cursor_le c k k'"
  unfolding next_committed_record_def committed_ahead_def cursor_le_def
  by (auto simp: bt_last_upto_Some bt_first_from_Some split: option.splits if_splits simp del: split_paired_All)

lemma peek_pending_least:
  "peek_pending_record t store c = Some (k, slot) \<Longrightarrow> bt_get (pending_records t) k' \<noteq> None \<Longrightarrow>
     pending_ahead store c k' \<Longrightarrow> cursor_le c k k'"
  unfolding peek_pending_record_def pending_ahead_def cursor_le_def
  by (auto simp: bt_last_upto_Some bt_first_from_Some split: option.splits if_splits simp del: split_paired_All)

lemma commit_move:
  assumes "next_committed_record s store c = Some k" "bt_get (records s) k' \<noteq> None"
  shows "committed_ahead store (c\<lparr>committed_record_pos := Some k\<rparr>) k' \<longleftrightarrow> committed_ahead store c k' \<and> k' \<noteq> k"
proof
  assume "committed_ahead store c k' \<and> k' \<noteq> k"
  then have "cursor_le c k k'" "k' \<noteq> k" using next_committed_least [OF assms] by simp_all
  then show "committed_ahead store (c\<lparr>committed_record_pos := Some k\<rparr>) k'"
    by (simp add: cursor_le_def committed_ahead_def start_record_upper_def start_record_lower_def split: if_splits)
qed (use committed_ahead_pos next_committed_ahead [OF assms(1)] in blast)

lemma pending_move:
  assumes "peek_pending_record t store c = Some (k, slot)" "bt_get (pending_records t) k' \<noteq> None"
  shows "pending_ahead store (c\<lparr>pending_record_pos := Some k\<rparr>) k' \<longleftrightarrow> pending_ahead store c k' \<and> k' \<noteq> k"
proof
  assume "pending_ahead store c k' \<and> k' \<noteq> k"
  then have "cursor_le c k k'" "k' \<noteq> k" using peek_pending_least [OF assms] by simp_all
  then show "pending_ahead store (c\<lparr>pending_record_pos := Some k\<rparr>) k'"
    by (simp add: cursor_le_def pending_ahead_def pending_end_record_def pending_start_record_def split: if_splits)
qed (use pending_ahead_pos peek_pending_ahead [OF assms(1)] in blast)

section \<open>The rows still to come\<close>

definition remaining :: "storage_state \<Rightarrow> memory_txn \<Rightarrow> store_id \<Rightarrow> memory_cursor \<Rightarrow> record_key set" where
  "remaining s t store c =
     {k. in_range store (mc_range c) k \<and> view s t k \<noteq> None \<and>
         (if bt_get (pending_records t) k \<noteq> None then pending_ahead store c k else committed_ahead store c k)}"

lemma view_pending: "bt_get (pending_records t) k = Some slot \<Longrightarrow> view s t k = slot"
  by (simp add: view_def read_record_def)

lemma view_committed: "bt_get (pending_records t) k = None \<Longrightarrow> view s t k = bt_get (records s) k"
  by (simp add: view_def read_record_def)

lemma cursor_le_trans: "cursor_le c a b \<Longrightarrow> cursor_le c b d \<Longrightarrow> cursor_le c a d"
  by (auto simp: cursor_le_def split: if_splits)

lemma cursor_le_antisym: "cursor_le c a b \<Longrightarrow> cursor_le c b a \<Longrightarrow> a = b"
  by (auto simp: cursor_le_def split: if_splits)

lemma cursor_leI:
  "fst k = fst k' \<Longrightarrow> (if mc_desc c then snd k' < snd k else snd k < snd k') \<Longrightarrow> cursor_le c k k' \<and> k \<noteq> k'"
  by (cases k; cases k') (auto simp: cursor_le_def less_eq_prod_def split: if_splits)

text \<open>Whichever source it comes from, a picked key is first among all keys ahead.\<close>

lemma ahead_least:
  assumes "mc_inv s t store c" "fst k' = store"
    "\<forall>ck. next_committed_record s store c = Some ck \<longrightarrow> cursor_le c k ck"
    "\<forall>pk slot. peek_pending_record t store c = Some (pk, slot) \<longrightarrow> cursor_le c k pk"
  shows "bt_get (records s) k' \<noteq> None \<Longrightarrow> committed_ahead store c k' \<Longrightarrow> cursor_le c k k'"
    "bt_get (pending_records t) k' \<noteq> None \<Longrightarrow> pending_ahead store c k' \<Longrightarrow> cursor_le c k k'"
proof -
  assume "bt_get (records s) k' \<noteq> None" "committed_ahead store c k'"
  moreover from this obtain ck where "next_committed_record s store c = Some ck"
    using no_committed_ahead [OF assms(1) _ assms(2)] by (metis option.exhaust)
  ultimately show "cursor_le c k k'" using next_committed_least assms(3) cursor_le_trans by blast
next
  assume "bt_get (pending_records t) k' \<noteq> None" "pending_ahead store c k'"
  moreover from this obtain pk slot where "peek_pending_record t store c = Some (pk, slot)"
    using no_pending_ahead [OF assms(1) _ assms(2)] by (metis option.exhaust prod.exhaust)
  ultimately show "cursor_le c k k'" using peek_pending_least assms(4) cursor_le_trans by blast
qed

lemma remaining_least:
  assumes "mc_inv s t store c" "k' \<in> remaining s t store c"
    "\<forall>ck. next_committed_record s store c = Some ck \<longrightarrow> cursor_le c k ck"
    "\<forall>pk slot. peek_pending_record t store c = Some (pk, slot) \<longrightarrow> cursor_le c k pk"
  shows "cursor_le c k k'"
proof -
  have st: "fst k' = store" using assms(2) by (simp add: remaining_def in_range_def)
  have "bt_get (pending_records t) k' \<noteq> None \<Longrightarrow> pending_ahead store c k'"
    and "bt_get (pending_records t) k' = None \<Longrightarrow> committed_ahead store c k' \<and> bt_get (records s) k' \<noteq> None"
    using assms(2) by (auto simp: remaining_def view_committed split: if_splits)
  then show ?thesis
    using ahead_least(1) [OF assms(1) st assms(3,4)] ahead_least(2) [OF assms(1) st assms(3,4)] by blast
qed

lemma pick_end:
  assumes "mc_inv s t store c" "next_committed_record s store c = None" "peek_pending_record t store c = None"
  shows "remaining s t store c = {}"
proof -
  have False if "k \<in> remaining s t store c" for k
  proof -
    have st: "fst k = store" using that by (simp add: remaining_def in_range_def)
    show False
      using that no_pending_ahead [OF assms(1,3) st] no_committed_ahead [OF assms(1,2) st]
      by (auto simp: remaining_def view_committed split: if_splits)
  qed
  then show ?thesis by blast
qed

text \<open>What one pick does to the invariant and to the rows still to come.\<close>

definition moved :: "storage_state \<Rightarrow> memory_txn \<Rightarrow> store_id \<Rightarrow> memory_cursor \<Rightarrow> record_key \<Rightarrow> memory_cursor \<Rightarrow> bool" where
  "moved s t store c k c' \<longleftrightarrow>
     mc_inv s t store c' \<and> fst k = store \<and> remaining s t store c' = remaining s t store c - {k} \<and>
     (\<forall>k' \<in> remaining s t store c. cursor_le c k k') \<and>
     (view s t k \<noteq> None \<and> contains (mc_range c) (snd k) \<longrightarrow> k \<in> remaining s t store c)"

lemma syncedD:
  "mc_inv s t store c \<Longrightarrow> bt_get (records s) k \<noteq> None \<Longrightarrow> bt_get (pending_records t) k \<noteq> None \<Longrightarrow>
     committed_ahead store c k = pending_ahead store c k"
  unfolding mc_inv_def synced_def by blast

lemma move_committed:
  assumes inv: "mc_inv s t store c" and nxt: "next_committed_record s store c = Some k"
    and strict: "\<And>pk slot. peek_pending_record t store c = Some (pk, slot) \<Longrightarrow>
         (if mc_desc c then snd pk < snd k else snd k < snd pk)"
  shows "moved s t store c k (c\<lparr>committed_record_pos := Some k\<rparr>) \<and> bt_get (pending_records t) k = None"
proof -
  have k: "committed_ahead store c k" "bt_get (records s) k \<noteq> None" "fst k = store"
    using next_committed_ahead [OF nxt] by simp_all
  have before: "cursor_le c k pk \<and> k \<noteq> pk" if "peek_pending_record t store c = Some (pk, slot)" for pk slot
    using strict [OF that] peek_pending_ahead [OF that] k(3) by (intro cursor_leI) simp_all
  have pend: "bt_get (pending_records t) k = None"
  proof (rule ccontr)
    assume some: "bt_get (pending_records t) k \<noteq> None"
    then have "pending_ahead store c k" using syncedD [OF inv k(2)] k(1) by blast
    moreover obtain pk slot where "peek_pending_record t store c = Some (pk, slot)"
      using no_pending_ahead [OF inv _ k(3) some] calculation by (metis option.exhaust prod.exhaust)
    ultimately show False
      using peek_pending_least [OF _ some] before cursor_le_antisym by blast
  qed
  let ?c = "c\<lparr>committed_record_pos := Some k\<rparr>"
  have "synced s t store ?c"
    using inv commit_move [OF nxt] pend by (auto simp: mc_inv_def synced_def)
  moreover have "pos_ok store ?c" "scan_ok s t store ?c"
    using inv k(3) by (simp_all add: mc_inv_def pos_ok_def scan_ok_def)
  moreover have "remaining s t store ?c = remaining s t store c - {k}"
    using commit_move [OF nxt] pend by (auto simp: remaining_def view_committed)
  moreover have "cursor_le c k k'" if "k' \<in> remaining s t store c" for k'
    by (rule remaining_least [OF inv that]) (use nxt before in \<open>auto simp: cursor_le_def\<close>)
  ultimately show ?thesis using k pend by (simp add: moved_def mc_inv_def remaining_def in_range_def)
qed

lemma move_pending:
  assumes inv: "mc_inv s t store c" and nxt: "peek_pending_record t store c = Some (k, slot)"
    and strict: "\<And>ck. next_committed_record s store c = Some ck \<Longrightarrow>
         (if mc_desc c then snd ck < snd k else snd k < snd ck)"
  shows "moved s t store c k (c\<lparr>pending_record_pos := Some k\<rparr>) \<and> view s t k = slot"
proof -
  have k: "pending_ahead store c k" "bt_get (pending_records t) k = Some slot" "fst k = store"
    using peek_pending_ahead [OF nxt] by simp_all
  have before: "cursor_le c k ck \<and> k \<noteq> ck" if "next_committed_record s store c = Some ck" for ck
    using strict [OF that] next_committed_ahead [OF that] k(3) by (intro cursor_leI) simp_all
  have comm: "bt_get (records s) k = None"
  proof (rule ccontr)
    assume some: "bt_get (records s) k \<noteq> None"
    then have ahead: "committed_ahead store c k" using syncedD [OF inv some] k(1,2) by simp
    moreover obtain ck where "next_committed_record s store c = Some ck"
      using no_committed_ahead [OF inv _ k(3) some] calculation by (metis option.exhaust)
    ultimately show False
      using next_committed_least [OF _ some] before cursor_le_antisym by blast
  qed
  let ?c = "c\<lparr>pending_record_pos := Some k\<rparr>"
  have "synced s t store ?c"
    unfolding synced_def
  proof (intro allI impI)
    fix k' assume both: "bt_get (records s) k' \<noteq> None \<and> bt_get (pending_records t) k' \<noteq> None"
    then have "k' \<noteq> k" using comm by auto
    then show "committed_ahead store ?c k' = pending_ahead store ?c k'"
      using both pending_move [OF nxt, of k'] syncedD [OF inv, of k'] by simp
  qed
  moreover have "pos_ok store ?c" "scan_ok s t store ?c"
    using inv k(3) by (simp_all add: mc_inv_def pos_ok_def scan_ok_def)
  moreover have "remaining s t store ?c = remaining s t store c - {k}"
  proof (rule set_eqI)
    fix k'
    show "k' \<in> remaining s t store ?c \<longleftrightarrow> k' \<in> remaining s t store c - {k}"
      using pending_move [OF nxt, of k'] k(2) by (cases "k' = k") (simp_all add: remaining_def)
  qed
  moreover have "cursor_le c k k'" if "k' \<in> remaining s t store c" for k'
    by (rule remaining_least [OF inv that]) (use nxt before in \<open>auto simp: cursor_le_def\<close>)
  ultimately show ?thesis using k by (simp add: moved_def mc_inv_def remaining_def in_range_def view_pending)
qed

lemma move_tie:
  assumes inv: "mc_inv s t store c" and cnxt: "next_committed_record s store c = Some k"
    and pnxt: "peek_pending_record t store c = Some (k, slot)"
  shows "moved s t store c k (c\<lparr>committed_record_pos := Some k, pending_record_pos := Some k\<rparr>) \<and>
    view s t k = slot"
proof -
  have k: "pending_ahead store c k" "bt_get (pending_records t) k = Some slot" "fst k = store"
    using peek_pending_ahead [OF pnxt] by simp_all
  let ?c = "c\<lparr>committed_record_pos := Some k, pending_record_pos := Some k\<rparr>"
  have ca: "committed_ahead store ?c k' \<longleftrightarrow> committed_ahead store c k' \<and> k' \<noteq> k"
    if "bt_get (records s) k' \<noteq> None" for k'
    using commit_move [OF cnxt that] by simp
  have pa: "pending_ahead store ?c k' \<longleftrightarrow> pending_ahead store c k' \<and> k' \<noteq> k"
    if "bt_get (pending_records t) k' \<noteq> None" for k'
  proof -
    have "?c = (c\<lparr>pending_record_pos := Some k\<rparr>)\<lparr>committed_record_pos := Some k\<rparr>" by simp
    then show ?thesis using pending_move [OF pnxt that] by (metis ahead_other_pos(2))
  qed
  have "synced s t store ?c"
    unfolding synced_def using ca pa syncedD [OF inv] by blast
  moreover have "pos_ok store ?c" "scan_ok s t store ?c"
    using inv k(3) by (simp_all add: mc_inv_def pos_ok_def scan_ok_def)
  moreover have "remaining s t store ?c = remaining s t store c - {k}"
  proof (rule set_eqI)
    fix k'
    show "k' \<in> remaining s t store ?c \<longleftrightarrow> k' \<in> remaining s t store c - {k}"
      using pa [of k'] ca [of k'] k(2)
      by (cases "bt_get (pending_records t) k'") (auto simp: remaining_def view_committed)
  qed
  moreover have "cursor_le c k k'" if "k' \<in> remaining s t store c" for k'
    by (rule remaining_least [OF inv that]) (use cnxt pnxt in \<open>auto simp: cursor_le_def\<close>)
  ultimately show ?thesis using k by (simp add: moved_def mc_inv_def remaining_def in_range_def view_pending)
qed

section \<open>One advance\<close>

definition frame :: "memory_cursor \<Rightarrow> memory_cursor \<Rightarrow> bool" where
  "frame c c' \<longleftrightarrow> mc_kind c' = mc_kind c \<and> mc_range c' = mc_range c \<and> mc_desc c' = mc_desc c \<and>
     mc_key_only c' = mc_key_only c \<and> mc_exhausted c' = mc_exhausted c"

lemma frame_simps [simp]:
  "frame c c" "frame c (c\<lparr>committed_record_pos := x\<rparr>)" "frame c (c\<lparr>pending_record_pos := x\<rparr>)"
  "frame c (c\<lparr>mc_current := y\<rparr>)"
  by (simp_all add: frame_def)

lemma frame_trans: "frame a b \<Longrightarrow> frame b c \<Longrightarrow> frame a c"
  by (simp add: frame_def)

lemma frame_cursor_le: "frame c c' \<Longrightarrow> cursor_le c' = cursor_le c"
  by (simp add: fun_eq_iff frame_def cursor_le_def)

lemma pick_moved:
  assumes "mc_inv s t store c"
  shows "case pick_record s t store c of
      PickEnd \<Rightarrow> remaining s t store c = {}
    | PickTie c' \<Rightarrow> (\<exists>k. moved s t store c k c' \<and> view s t k = None) \<and> frame c c'
    | Pick k v source tombstoned c' \<Rightarrow>
        moved s t store c k (advance_record_pos source k c') \<and> frame c (advance_record_pos source k c') \<and>
        (tombstoned \<longleftrightarrow> view s t k = None) \<and> (v \<noteq> None \<longrightarrow> v = view s t k)"
proof (cases rule: pick_record_cases [OF refl, of s t store c])
  case 1
  then show ?thesis using pick_end [OF assms] by simp
next
  case (2 k)
  then show ?thesis
    using move_committed [OF assms 2(2,3)] next_committed_ahead [OF 2(2)]
    by (auto simp: advance_record_pos_def view_committed)
next
  case (3 k slot)
  then show ?thesis
    using move_pending [OF assms 3(2,3)] by (auto simp: advance_record_pos_def)
next
  case (4 k slot c')
  have "frame c c'" unfolding 4(1) by (simp add: frame_def)
  moreover have "advance_record_pos FromPending k c' = c'" by (simp add: 4(1) advance_record_pos_def)
  ultimately show ?thesis
    using move_tie [OF assms 4(3,4)] 4(1,2) by (auto simp del: split_paired_Ex)
qed

lemma past_upper_iff:
  "past_upper c k \<longleftrightarrow> (if mc_desc c then \<not> above_lower (mc_range c) k else \<not> below_upper (mc_range c) k)"
  by (auto simp: past_upper_def above_lower_def below_upper_def cmp_def split: option.splits)

lemma past_upper_ends:
  assumes "past_upper c (snd k)" "cursor_le c k k'" "fst k = fst k'"
  shows "\<not> contains (mc_range c) (snd k')"
proof -
  have "if mc_desc c then snd k' \<le> snd k else snd k \<le> snd k'"
    using assms(2,3) by (cases k; cases k') (auto simp: cursor_le_def less_eq_prod_def)
  then show ?thesis
    using assms(1) above_lower_mono below_upper_mono
    by (auto simp: past_upper_iff contains_iff split: if_splits)
qed

lemma cursor_fields [simp]:
  "remaining s t store (c\<lparr>mc_current := x\<rparr>) = remaining s t store c"
  "mc_inv s t store (c\<lparr>mc_current := x\<rparr>) = mc_inv s t store c"
proof -
  have "committed_ahead store (c\<lparr>mc_current := x\<rparr>) = committed_ahead store c"
    "pending_ahead store (c\<lparr>mc_current := x\<rparr>) = pending_ahead store c"
    by (rule ext, simp add: committed_ahead_def pending_ahead_def start_record_upper_def
        start_record_lower_def pending_end_record_def pending_start_record_def lower_record_def
        upper_record_def split: option.split)+
  then show "remaining s t store (c\<lparr>mc_current := x\<rparr>) = remaining s t store c"
    "mc_inv s t store (c\<lparr>mc_current := x\<rparr>) = mc_inv s t store c"
    by (simp_all add: remaining_def mc_inv_def synced_def pos_ok_def scan_ok_def)
qed

definition advanced ::
    "storage_state \<Rightarrow> memory_txn \<Rightarrow> store_id \<Rightarrow> memory_cursor \<Rightarrow> (backend_error + bool) \<times> memory_cursor \<Rightarrow> bool" where
  "advanced s t store c result \<longleftrightarrow>
     (if remaining s t store c = {}
      then fst result = Inr False \<and> mc_exhausted (snd result) \<and> mc_current (snd result) = None
      else fst result = Inr True \<and> mc_inv s t store (snd result) \<and> frame c (snd result) \<and>
        (\<exists>k \<in> remaining s t store c. (\<forall>k' \<in> remaining s t store c. cursor_le c k k') \<and>
           remaining s t store (snd result) = remaining s t store c - {k} \<and>
           mc_current (snd result) =
             Some (snd k, snd k, if mc_key_only c then None else view s t k)))"

lemma advanced_skip:
  assumes "moved s t store c k c'" "frame c c'" "k \<notin> remaining s t store c" "advanced s t store c' result"
  shows "advanced s t store c result"
proof -
  have "remaining s t store c' = remaining s t store c" using assms(1,3) by (simp add: moved_def)
  then show ?thesis
    using assms(2,4) frame_trans [OF assms(2)] frame_cursor_le [OF assms(2)]
    by (auto simp: advanced_def frame_def split: if_splits)
qed

lemma advance_store_advanced:
  "mc_inv s t store c \<Longrightarrow> advanced s t store c (advance_store s t store c)"
proof (induction s t store c rule: advance_store.induct)
  case (1 s t store c)
  note moved = pick_moved [OF "1.prems"]
  show ?case
  proof (cases "pick_record s t store c")
    case PickEnd
    then show ?thesis
      using moved by (subst advance_store.simps) (simp add: advanced_def finish_cursor_def)
  next
    case (PickTie c')
    then obtain k where k: "moved s t store c k c'" "view s t k = None" "frame c c'" using moved by auto
    then have "k \<notin> remaining s t store c" "mc_inv s t store c'" by (simp_all add: remaining_def moved_def)
    then have "advanced s t store c (advance_store s t store c')"
      using k "1.IH"(1) [OF PickTie] by (blast intro: advanced_skip)
    then show ?thesis using PickTie by (subst advance_store.simps) simp
  next
    case (Pick k v source tombstoned c1)
    let ?c = "advance_record_pos source k c1"
    have m: "moved s t store c k ?c" "frame c ?c" "tombstoned \<longleftrightarrow> view s t k = None"
      "v \<noteq> None \<longrightarrow> v = view s t k"
      using moved Pick by simp_all
    have inv: "mc_inv s t store ?c" "fst k = store" using m(1) by (simp_all add: moved_def)
    have rng: "mc_range ?c = mc_range c" "mc_key_only ?c = mc_key_only c" using m(2) by (simp_all add: frame_def)
    show ?thesis
    proof (cases "tombstoned \<or> \<not> contains (mc_range ?c) (snd k) \<and> \<not> past_upper ?c (snd k)")
      case True
      then have "k \<notin> remaining s t store c" using m(3) rng by (auto simp: remaining_def in_range_def)
      moreover have "advanced s t store ?c (advance_store s t store ?c)"
        using True "1.IH"(2,3) [OF Pick refl] inv(1) by blast
      ultimately have "advanced s t store c (advance_store s t store ?c)"
        using m(1,2) by (blast intro: advanced_skip)
      then show ?thesis using True Pick by (subst advance_store.simps) (auto simp: Let_def)
    next
      case False
      then have live: "\<not> tombstoned" by simp
      show ?thesis
      proof (cases "contains (mc_range ?c) (snd k)")
        case True
        then have k: "k \<in> remaining s t store c" using m live rng by (simp add: moved_def)
        define shown where "shown = (if mc_key_only ?c then None else if v \<noteq> None then v else read_record s t k)"
        define row where "row = ?c\<lparr>mc_current := Some (snd k, snd k, shown)\<rparr>"
        have step: "advance_store s t store c = (Inr True, row)"
          using True live Pick by (subst advance_store.simps) (simp add: Let_def row_def shown_def)
        have "shown = (if mc_key_only c then None else view s t k)"
          using m(4) rng by (auto simp: shown_def view_def)
        moreover have "mc_inv s t store row" "remaining s t store row = remaining s t store c - {k}"
          using m(1) by (simp_all add: row_def moved_def)
        moreover have "frame c row" unfolding row_def by (rule frame_trans [OF m(2)]) simp
        moreover have "mc_current row = Some (snd k, snd k, shown)" by (simp add: row_def)
        moreover have "\<forall>k' \<in> remaining s t store c. cursor_le c k k'" using m(1) by (simp add: moved_def)
        ultimately show ?thesis using k unfolding advanced_def step by auto
      next
        case out: False
        then have past: "past_upper ?c (snd k)" using False by simp
        have "k' \<notin> remaining s t store c" for k'
        proof
          assume k': "k' \<in> remaining s t store c"
          then have "cursor_le ?c k k'" using m(1) frame_cursor_le [OF m(2)] by (simp add: moved_def)
          moreover have "fst k = fst k'" using k' inv(2) by (simp add: remaining_def in_range_def)
          ultimately show False
            using past_upper_ends [OF past] k' rng by (simp add: remaining_def in_range_def)
        qed
        then have "remaining s t store c = {}" by blast
        then show ?thesis
          using out past live Pick
          by (subst advance_store.simps) (simp add: Let_def advanced_def finish_cursor_def)
      qed
    qed
  qed
qed

section \<open>The whole walk\<close>

text \<open>Position on the first row, then step by one until the end, as the engine walks a cursor. A walk
  that never ended would be \<open>None\<close>.\<close>

type_synonym cursor_row = "bytes \<times> bytes \<times> bytes option"

partial_function (option) mc_collect ::
    "storage_state \<Rightarrow> memory_txn \<Rightarrow> (backend_error + bool) \<times> memory_cursor \<Rightarrow> cursor_row list \<Rightarrow>
       (backend_error + cursor_row list) option" where
  "mc_collect s t at rows =
     (case at of
        (Inl e, c) \<Rightarrow> Some (Inl e)
      | (Inr active, c) \<Rightarrow>
          if \<not> active then Some (Inr rows)
          else mc_collect s t (mc_step s t 1 c)
                 (rows @ [(mc_current_key c, mc_current_primary_key c, mc_current_value c)]))"

definition mc_walk ::
    "storage_state \<Rightarrow> memory_txn \<Rightarrow> memory_cursor \<Rightarrow> (backend_error + cursor_row list) option" where
  "mc_walk s t c = mc_collect s t (mc_seek s t SeekFirst c) []"

text \<open>The specification: the live rows of the range in the order of the cursor.\<close>

definition ordered :: "bool \<Rightarrow> record_key set \<Rightarrow> record_key list" where
  "ordered desc R = (if desc then rev (sorted_list_of_set R) else sorted_list_of_set R)"

definition row_of :: "storage_state \<Rightarrow> memory_txn \<Rightarrow> bool \<Rightarrow> record_key \<Rightarrow> cursor_row" where
  "row_of s t key_only k = (snd k, snd k, if key_only then None else view s t k)"

lemma sorted_list_of_set_Max:
  assumes "finite A" "A \<noteq> {}"
  shows "sorted_list_of_set A = sorted_list_of_set (A - {Max A}) @ [Max A]"
proof -
  have "\<forall>x \<in> A - {Max A}. x < Max A" using assms by (simp add: less_le)
  then have "sorted_wrt (<) (sorted_list_of_set (A - {Max A}) @ [Max A])"
    using assms by (simp add: sorted_wrt_append)
  moreover have "set (sorted_list_of_set (A - {Max A}) @ [Max A]) = set (sorted_list_of_set A)"
    using assms Max_in [OF assms] by (auto intro: Max_in)
  ultimately show ?thesis
    using strict_sorted_equal [of "sorted_list_of_set A"] by (metis strict_sorted_list_of_set)
qed

lemma ordered_step:
  assumes "finite R" "k \<in> R" "\<forall>k' \<in> R. cursor_le c k k'"
  shows "ordered (mc_desc c) R = k # ordered (mc_desc c) (R - {k})"
proof (cases "mc_desc c")
  case True
  then have "k = Max R" using assms by (intro Max_eqI [symmetric]) (auto simp: cursor_le_def)
  then show ?thesis using True sorted_list_of_set_Max [OF assms(1)] assms(2) by (auto simp: ordered_def)
next
  case False
  then have "k = Min R" using assms by (intro Min_eqI [symmetric]) (auto simp: cursor_le_def)
  then show ?thesis
    using False assms(1,2) sorted_list_of_set_nonempty [OF assms(1)] by (auto simp: ordered_def)
qed

lemma finite_remaining: "finite (remaining s t store c)"
  by (rule finite_subset [OF _ finite_view [of s t]]) (auto simp: remaining_def)

lemma collect_remaining:
  assumes "mc_inv s t store c" "mc_kind c = KindStore store" "\<not> mc_exhausted c"
  shows "mc_collect s t (mc_advance s t c) rows =
    Some (Inr (rows @ map (row_of s t (mc_key_only c)) (ordered (mc_desc c) (remaining s t store c))))"
  using assms
proof (induction "card (remaining s t store c)" arbitrary: c rows)
  case 0
  then have "remaining s t store c = {}" using finite_remaining by simp
  moreover have "mc_advance s t c = advance_store s t store c" using 0 by (simp add: mc_advance_def)
  ultimately show ?case
    using advance_store_advanced [OF 0(2)]
    by (subst mc_collect.simps) (auto simp: advanced_def ordered_def split: prod.splits)
next
  case (Suc n)
  obtain r c' where adv: "advance_store s t store c = (r, c')" by (metis prod.exhaust)
  then have step: "mc_advance s t c = (r, c')" using Suc.prems by (simp add: mc_advance_def)
  have ne: "remaining s t store c \<noteq> {}" using Suc.hyps(2) by auto
  then obtain k where k: "r = Inr True" "mc_inv s t store c'" "frame c c'" "k \<in> remaining s t store c"
    "\<forall>k' \<in> remaining s t store c. cursor_le c k k'" "remaining s t store c' = remaining s t store c - {k}"
    "mc_current c' = Some (row_of s t (mc_key_only c) k)"
    using advance_store_advanced [OF Suc.prems(1)] adv by (auto simp: advanced_def row_of_def)
  have f: "mc_kind c' = KindStore store" "\<not> mc_exhausted c'" "mc_key_only c' = mc_key_only c" "mc_desc c' = mc_desc c"
    using k(3) Suc.prems by (simp_all add: frame_def)
  have row: "(mc_current_key c', mc_current_primary_key c', mc_current_value c') = row_of s t (mc_key_only c) k"
    using k(7) f by (simp add: mc_current_key_def mc_current_primary_key_def mc_current_value_def row_of_def)
  have "n = card (remaining s t store c')"
    using Suc.hyps(2) k(4,6) finite_remaining [of s t store c] by simp
  then have IH: "mc_collect s t (mc_advance s t c') rows' =
      Some (Inr (rows' @ map (row_of s t (mc_key_only c)) (ordered (mc_desc c) (remaining s t store c'))))" for rows'
    using Suc.hyps(1) [OF _ k(2) f(1,2)] f(3,4) by simp
  have one: "mc_collect s t (mc_step s t 1 c') rows' = mc_collect s t (mc_advance s t c') rows'" for rows'
    using f(2)
    by (cases "mc_advance s t c'"; cases "fst (mc_advance s t c')")
       (simp_all add: mc_step_def mc_collect.simps)
  show ?case
    unfolding step k(1) using ordered_step [OF finite_remaining k(4,5)]
    by (subst mc_collect.simps) (simp add: row one [simplified] IH k(6))
qed

section \<open>Property\<close>

lemma in_range_after_lower:
  assumes "in_range store (mc_range c) k" "floor_record c = None"
  shows "after_bound (lower_record c store) k"
  using assms
  by (cases k) (auto simp: in_range_def contains_iff above_lower_def lower_record_def mk_bound_def
      less_eq_prod_def less_prod_def Let_def split: option.splits if_splits)

lemma in_range_before_upper:
  assumes "in_range store (mc_range c) k" "floor_record c = None"
  shows "before_bound (upper_record c store) k"
  using assms
  by (cases k) (auto simp: in_range_def contains_iff below_upper_def upper_record_def mk_bound_def
      less_eq_prod_def less_prod_def Let_def split: option.splits if_splits)

lemma remaining_fresh:
  assumes "committed_record_pos c = None" "pending_record_pos c = None" "floor_record c = None"
  shows "remaining s t store c = live_keys s t store (mc_range c)"
  using assms in_range_after_lower [of store c] in_range_before_upper [of store c]
  by (auto simp: remaining_def live_keys_def committed_ahead_def pending_ahead_def start_record_lower_def
      start_record_upper_def pending_start_record_def pending_end_record_def)

lemma collect_store:
  assumes "is_prev dir \<longrightarrow> upper rng \<noteq> None \<or> last_store s t store"
  shows "mc_collect s t (mc_seek s t SeekFirst (mc_open_store store rng dir key_only)) [] =
    Some (Inr (map (row_of s t key_only) (ordered (is_prev dir) (live_keys s t store rng))))"
proof -
  let ?c = "(mc_open_store store rng dir key_only)\<lparr>mc_exhausted := False\<rparr>"
  have c: "committed_record_pos ?c = None" "pending_record_pos ?c = None" "floor_record ?c = None"
    "mc_kind ?c = KindStore store" "mc_range ?c = rng" "mc_desc ?c = is_prev dir" "mc_key_only ?c = key_only"
    by (simp_all add: mc_open_store_def mc_open_def)
  have "mc_inv s t store ?c"
    using assms c
    by (simp add: mc_inv_def pos_ok_def synced_def scan_ok_def committed_ahead_def pending_ahead_def
        start_record_lower_def start_record_upper_def pending_start_record_def pending_end_record_def)
  then have "mc_collect s t (mc_advance s t ?c) [] =
      Some (Inr (map (row_of s t key_only) (ordered (is_prev dir) (live_keys s t store rng))))"
    using collect_remaining [of s t store ?c "[]"] c remaining_fresh [of ?c s t store] by simp
  moreover have "mc_seek s t SeekFirst (mc_open_store store rng dir key_only) = mc_advance s t ?c"
    by (simp add: mc_seek_def mc_open_store_def mc_open_def)
  ultimately show ?thesis by simp
qed

text \<open>C12. Walking a store cursor yields exactly the records that the transaction sees in the range,
  each once, with its value unless the cursor is key-only, in ascending or descending key order:
  pending insertions and overwrites appear, deleted records do not, and the walk ends. A descending
  walk needs the range to have an upper bound, or no records of a store with a higher identifier.\<close>

theorem store_walk:
  assumes "is_prev dir \<longrightarrow> upper rng \<noteq> None \<or> last_store s t store"
  shows "mc_walk s t (mc_open_store store rng dir key_only) =
    Some (Inr (map (row_of s t key_only) (ordered (is_prev dir) (live_keys s t store rng))))"
  unfolding mc_walk_def by (rule collect_store [OF assms])

theorem store_walk_witness:
  "mc_walk storage_default (set_pending (1, [5]) (Some [6]) (mt_new ReadWrite [1] (fresh_meta [100])))
     (mc_open_store 1 range_all Prev False) = Some (Inr [([5], [5], Some [6])])"
proof -
  let ?t = "set_pending (1, [5]) (Some [6]) (mt_new ReadWrite [1] (fresh_meta [100]))"
  have "view storage_default (mt_new ReadWrite [1] (fresh_meta [100])) = Map.empty"
    by (simp add: fun_eq_iff view_def read_record_def storage_default_def mt_new_def)
  then have view: "view storage_default ?t = [(1, [5]) \<mapsto> [6]]" by (simp del: One_nat_def)
  have "live_keys storage_default ?t 1 range_all = {(1, [5])}"
    unfolding live_keys_def in_range_def view by (auto split: if_splits)
  moreover have "last_store storage_default ?t 1"
    by (auto simp: last_store_def storage_default_def set_pending_def push_undo_def mt_new_def)
  ultimately show ?thesis
    using store_walk [of Prev range_all storage_default ?t 1 False]
    by (simp add: ordered_def row_of_def view)
qed

text \<open>The condition of the descending walk is needed: with no upper bound the walk starts at the last
  entry of the whole map, and if that belongs to another store it ends at once.\<close>

theorem descending_walk_misses_records:
  "let s = storage_default\<lparr>records := bt_insert (1, [5]) [6] (bt_insert (2, [5]) [6] bt_empty)\<rparr>
   in view s (mt_new ReadOnly [1] (fresh_meta [100])) (1, [5]) = Some [6] \<and>
      mc_walk s (mt_new ReadOnly [1] (fresh_meta [100])) (mc_open_store 1 range_all Prev False) = Some (Inr [])"
proof -
  let ?m = "bt_insert (1 :: nat, [5 :: u8]) [6 :: u8] (bt_insert (2, [5]) [6] bt_empty)"
  let ?s = "storage_default\<lparr>records := ?m\<rparr>" and ?t = "mt_new ReadOnly [1] (fresh_meta [100])"
  let ?c = "(mc_open_store 1 range_all Prev False)\<lparr>mc_exhausted := False\<rparr>"
  have "bt_last_upto Unbounded ?m = Some ((2, [5]), [6])"
    by (auto simp: bt_last_upto_Some less_eq_prod_def)
  then have "next_committed_record ?s 1 ?c = None"
    by (simp add: next_committed_record_def start_record_upper_def upper_record_def mc_open_store_def
        mc_open_def range_all_def)
  moreover have "peek_pending_record ?t 1 ?c = None"
    by (simp add: peek_pending_record_def mt_new_def bt_last_upto_def bt_empty.rep_eq mc_open_store_def mc_open_def)
  ultimately have "advance_store ?s ?t 1 ?c = (Inr False, finish_cursor ?c)"
    by (subst advance_store.simps) (simp add: pick_record_def)
  moreover have "mc_seek ?s ?t SeekFirst (mc_open_store 1 range_all Prev False) = advance_store ?s ?t 1 ?c"
    by (simp add: mc_seek_def mc_advance_def mc_open_store_def mc_open_def)
  ultimately have "mc_walk ?s ?t (mc_open_store 1 range_all Prev False) = Some (Inr [])"
    by (simp add: mc_walk_def mc_collect.simps)
  moreover have "view ?s ?t (1, [5]) = Some [6]"
    by (simp add: view_def read_record_def mt_new_def)
  ultimately show ?thesis by (simp add: Let_def)
qed

end
