(* ===== verification/Memory_Savepoint.thy ===== *)
theory Memory_Savepoint
  imports Memory_Txn
begin

text \<open>
  The savepoints of the in-memory transaction: every operation logs what its undo needs
  (\<open>logs\<close>), logs compose, and so rolling a request back restores the data the transaction held
  when the request began, whatever the request did, nested requests included.
\<close>

text \<open>Equality of the data two transactions expose: pending records and index entries, and the
  generator values they read. A restored generator may be pending where it was only committed
  before, which no read can tell.\<close>

definition same_data :: "storage_state \<Rightarrow> memory_txn \<Rightarrow> memory_txn \<Rightarrow> bool" where
  "same_data s t u \<longleftrightarrow>
     pending_records t = pending_records u \<and> pending_index_entries t = pending_index_entries u \<and>
     (\<forall>store. mt_key_gen_current s t store = mt_key_gen_current s u store)"

lemma same_data_refl [simp, intro]: "same_data s t t"
  by (simp add: same_data_def)

lemma same_data_trans [trans]: "same_data s t u \<Longrightarrow> same_data s u v \<Longrightarrow> same_data s t v"
  by (simp add: same_data_def)

lemma same_data_stack [simp]:
  "same_data s (t\<lparr>undo_stack := x\<rparr>) u = same_data s t u"
  "same_data s t (u\<lparr>undo_stack := x\<rparr>) = same_data s t u"
  by (simp_all add: same_data_def mt_key_gen_current_def)

lemma same_data_meta [simp]:
  "same_data s (t\<lparr>mt_meta := x\<rparr>) u = same_data s t u"
  "same_data s t (u\<lparr>mt_meta := x\<rparr>) = same_data s t u"
  by (simp_all add: same_data_def mt_key_gen_current_def)

lemma undo_one_same_data: "same_data s t u \<Longrightarrow> same_data s (undo_one op t) (undo_one op u)"
  by (cases op) (auto simp: same_data_def mt_key_gen_current_def split: pending_slot.splits option.splits)

definition undo_all :: "undo_op list \<Rightarrow> memory_txn \<Rightarrow> memory_txn" where
  "undo_all ops t = fold undo_one (rev ops) t"

lemma undo_all_simps [simp]:
  "undo_all [] t = t"
  "undo_all (ops @ ops') t = undo_all ops (undo_all ops' t)"
  by (simp_all add: undo_all_def)

lemma undo_all_single [simp]: "undo_all [op] t = undo_one op t"
  by (simp add: undo_all_def)

lemma undo_all_same_data: "same_data s t u \<Longrightarrow> same_data s (undo_all ops t) (undo_all ops u)"
  unfolding undo_all_def
proof (induction "rev ops" arbitrary: t u ops)
  case (Cons op ops')
  then show ?case by (metis fold_simps(2) rev_rev_ident undo_one_same_data)
qed simp

lemma undo_one_stack [simp]: "undo_stack (undo_one op t) = undo_stack t"
  by (cases op) (auto split: pending_slot.splits option.splits)

lemma undo_all_stack [simp]: "undo_stack (undo_all ops t) = undo_stack t"
  unfolding undo_all_def by (induction "rev ops" arbitrary: t ops) (auto, metis fold_simps(2) rev_rev_ident undo_one_stack)

lemma undo_one_update: "undo_one op (t\<lparr>undo_stack := x\<rparr>) = (undo_one op t)\<lparr>undo_stack := x\<rparr>"
  by (cases op) (auto split: pending_slot.splits option.splits)

lemma undo_all_update [simp]: "undo_all ops (t\<lparr>undo_stack := x\<rparr>) = (undo_all ops t)\<lparr>undo_stack := x\<rparr>"
proof -
  have "fold undo_one os (t\<lparr>undo_stack := x\<rparr>) = (fold undo_one os t)\<lparr>undo_stack := x\<rparr>" for os
    by (induction os arbitrary: t) (simp_all add: undo_one_update)
  then show ?thesis by (simp add: undo_all_def)
qed

section \<open>Logs\<close>

definition extend_log :: "undo_op list \<Rightarrow> undo_op list list \<Rightarrow> undo_op list list" where
  "extend_log ops stack = (if stack = [] then [] else butlast stack @ [last stack @ ops])"

lemma extend_log_Nil [simp]: "extend_log [] stack = stack"
  by (simp add: extend_log_def)

lemma extend_log_append [simp]: "extend_log ops' (extend_log ops stack) = extend_log (ops @ ops') stack"
  by (simp add: extend_log_def)

definition logs :: "storage_state \<Rightarrow> memory_txn \<Rightarrow> memory_txn \<Rightarrow> bool" where
  "logs s t u \<longleftrightarrow> (\<exists>ops. undo_stack u = extend_log ops (undo_stack t) \<and> same_data s (undo_all ops u) t)"

lemma logsI: "undo_stack u = extend_log ops (undo_stack t) \<Longrightarrow> same_data s (undo_all ops u) t \<Longrightarrow> logs s t u"
  by (auto simp: logs_def)

lemma logs_refl [simp, intro]: "logs s t t"
  by (rule logsI [of _ "[]"]) simp_all

lemma logs_trans [trans]: "logs s t u \<Longrightarrow> logs s u v \<Longrightarrow> logs s t v"
proof -
  assume "logs s t u" "logs s u v"
  then obtain a b where a: "undo_stack u = extend_log a (undo_stack t)" "same_data s (undo_all a u) t"
    and b: "undo_stack v = extend_log b (undo_stack u)" "same_data s (undo_all b v) u"
    by (auto simp: logs_def)
  have "same_data s (undo_all a (undo_all b v)) t"
    using undo_all_same_data [OF b(2)] a(2) by (rule same_data_trans)
  then show ?thesis using a(1) b(1) by (intro logsI [of _ "a @ b"]) simp_all
qed

lemma logs_fold:
  assumes "\<And>x t. logs s t (f x t)"
  shows "logs s t (fold f xs t)"
  by (induction xs arbitrary: t) (auto intro: logs_trans assms)

lemma push_undo_simps [simp]:
  "pending_records (push_undo op t) = pending_records t"
  "pending_index_entries (push_undo op t) = pending_index_entries t"
  "pending_key_generators (push_undo op t) = pending_key_generators t"
  "mt_meta (push_undo op t) = mt_meta t" "mt_mode (push_undo op t) = mt_mode t"
  "mt_scope (push_undo op t) = mt_scope t"
  "undo_stack (push_undo op t) = extend_log [op] (undo_stack t)"
  by (simp_all add: push_undo_def extend_log_def)

lemma mt_key_gen_push [simp]: "mt_key_gen_current s (push_undo op t) = mt_key_gen_current s t"
  by (simp add: fun_eq_iff mt_key_gen_current_def)

lemma bt_insert_undo [simp]:
  "bt_get m k = Some old \<Longrightarrow> bt_insert k old (bt_insert k v m) = m"
  "bt_get m k = Some old \<Longrightarrow> bt_insert k old (bt_remove k m) = m"
  "bt_get m k = None \<Longrightarrow> bt_remove k (bt_insert k v m) = m"
  by (auto intro!: bt_eqI)

lemma logs_set_pending: "logs s t (set_pending k v t)"
  by (rule logsI [of _ "[RestoreRecord k (pending_slot_of t k)]"])
     (auto simp: set_pending_def same_data_def mt_key_gen_current_def pending_slot_of_def split: option.splits)

lemma logs_set_pending_index: "logs s t (set_pending_index k v t)"
  by (rule logsI [of _ "[RestoreIndex k (bt_get (pending_index_entries t) k)]"])
     (auto simp: set_pending_index_def same_data_def mt_key_gen_current_def split: option.splits)

lemma logs_delete_committed: "logs s (snd acc) (snd (delete_committed s k acc))"
  by (simp add: delete_committed_def split_beta logs_set_pending)

lemma logs_delete_pending: "logs s (snd acc) (snd (delete_pending ks k acc))"
proof (cases acc)
  case (Pair count t)
  have "logs s t (push_undo (RestoreRecord k (SlotValue v)) t
      \<lparr>pending_records := bt_remove k (pending_records t)\<rparr>)"
    if "bt_get (pending_records t) k = Some (Some v)" for v
    using that by (intro logsI [of _ "[RestoreRecord k (SlotValue v)]"])
      (auto simp: same_data_def mt_key_gen_current_def)
  with Pair show ?thesis by (auto simp: delete_pending_def Let_def split: option.splits)
qed

lemma logs_fold_snd:
  assumes "\<And>x acc. logs s (snd acc) (snd (f x acc))"
  shows "logs s (snd acc) (snd (fold f xs acc))"
proof (induction xs arbitrary: acc)
  case (Cons x xs)
  show ?case using logs_trans [OF assms Cons.IH] by simp
qed simp

lemma logs_key_gen_set: "mt_key_gen_set s t store v = (r, u) \<Longrightarrow> logs s t u"
  by (cases r)
     (auto simp: mt_key_gen_set_def check_readwrite_def Let_def same_data_def mt_key_gen_current_def
       split: if_splits intro!: logsI [of _ "[RestoreKeyGen store (mt_key_gen_current s t store)]"])

section \<open>What a request may do\<close>

text \<open>One operation of the transaction, its result ignored.\<close>

inductive mt_op :: "storage_state \<Rightarrow> memory_txn \<Rightarrow> memory_txn \<Rightarrow> bool" for s where
  op_put: "mt_put s t store k v no = (r, u) \<Longrightarrow> mt_op s t u"
| op_delete_record: "mt_delete_record s t store k = (r, u) \<Longrightarrow> mt_op s t u"
| op_delete_range: "mt_delete_range s t store rng = (r, u) \<Longrightarrow> mt_op s t u"
| op_clear: "mt_clear s t store = (r, u) \<Longrightarrow> mt_op s t u"
| op_key_gen_set: "mt_key_gen_set s t store v = (r, u) \<Longrightarrow> mt_op s t u"
| op_index_put: "mt_index_put s t i ik pk unique = (r, u) \<Longrightarrow> mt_op s t u"
| op_index_delete: "mt_index_delete t i ik pk = (r, u) \<Longrightarrow> mt_op s t u"
| op_index_delete_by_primary: "mt_index_delete_by_primary s t i pk = (r, u) \<Longrightarrow> mt_op s t u"
| op_set_version: "mt_set_version t v = (r, u) \<Longrightarrow> mt_op s t u"
| op_create_store: "mt_create_store t spec = (r, u) \<Longrightarrow> mt_op s t u"
| op_delete_store: "mt_delete_store t store = (r, u) \<Longrightarrow> mt_op s t u"
| op_rename_store: "mt_rename_store t store name = (r, u) \<Longrightarrow> mt_op s t u"
| op_create_index: "mt_create_index t store ispec = (r, u) \<Longrightarrow> mt_op s t u"
| op_delete_index: "mt_delete_index t store i = (r, u) \<Longrightarrow> mt_op s t u"
| op_rename_index: "mt_rename_index t store i name = (r, u) \<Longrightarrow> mt_op s t u"

text \<open>A request body: operations and nested requests that commit or roll back.\<close>

inductive mt_body :: "storage_state \<Rightarrow> memory_txn \<Rightarrow> memory_txn \<Rightarrow> bool" for s where
  body_nil: "mt_body s t t"
| body_op: "mt_body s t u \<Longrightarrow> mt_op s u v \<Longrightarrow> mt_body s t v"
| body_commit: "mt_body s t u \<Longrightarrow> mt_begin_request u = (Inr (), v) \<Longrightarrow> mt_body s v w \<Longrightarrow>
    mt_commit_request w = (r, x) \<Longrightarrow> mt_body s t x"
| body_rollback: "mt_body s t u \<Longrightarrow> mt_begin_request u = (Inr (), v) \<Longrightarrow> mt_body s v w \<Longrightarrow>
    mt_rollback_request w = (r, x) \<Longrightarrow> mt_body s t x"

lemma update_store_simps [simp]:
  "same_data s (update_store i f t) u = same_data s t u"
  "undo_stack (update_store i f t) = undo_stack t"
  by (simp_all add: update_store_def)

lemma logs_meta: "undo_stack u = undo_stack t \<Longrightarrow> same_data s u t \<Longrightarrow> logs s t u"
  by (rule logsI [of _ "[]"]) simp_all

lemma logs_update_meta: "logs s t (t\<lparr>mt_meta := m\<rparr>)" "logs s t (update_store i f t)"
  "logs s t (update_store i f (t\<lparr>mt_meta := m\<rparr>))"
  by (rule logs_meta; simp)+

lemma logs_clear: "logs s t (fold (\<lambda>k. set_pending k None) xs (fold (\<lambda>k. set_pending k None) ys t))"
  by (intro logs_trans [OF logs_fold logs_fold] logs_set_pending)

lemma logs_op: "mt_op s t u \<Longrightarrow> logs s t u"
proof (induction rule: mt_op.induct)
  case (op_delete_range t store rng r u)
  define f g where "f = delete_pending (range_keys store rng (records s))" and "g = delete_committed s"
  have "logs s t (snd (fold f xs (fold g ys (0, t))))" for xs ys
    using logs_fold_snd [of s f "fold g ys (0, t)" xs] logs_fold_snd [of s g "(0, t)" ys]
    by (auto simp: f_def g_def logs_delete_pending logs_delete_committed intro: logs_trans)
  then show ?case
    using op_delete_range
    by (auto simp: mt_delete_range_def Let_def f_def g_def split: sum.splits prod.splits)
      (metis snd_conv)+
qed (auto simp: mt_put_def mt_delete_record_def mt_clear_def mt_index_put_def mt_index_delete_def
      mt_index_delete_by_primary_def mt_set_version_def mt_create_store_def mt_delete_store_def
      mt_rename_store_def mt_create_index_def mt_delete_index_def mt_rename_index_def Let_def
      split: sum.splits if_splits
      intro: logs_set_pending logs_set_pending_index logs_fold logs_key_gen_set logs_update_meta logs_clear)

lemma begin_logs:
  assumes "mt_begin_request u = (Inr (), v)" "logs s v w"
  obtains ops where "undo_stack w = undo_stack u @ [ops]" "same_data s (undo_all ops w) u"
proof -
  have v: "v = u\<lparr>undo_stack := undo_stack u @ [[]]\<rparr>" using assms(1) by (simp add: mt_begin_request_def)
  then show ?thesis using assms(2) that by (auto simp: logs_def extend_log_def)
qed

lemma rollback_restores:
  assumes "undo_stack w = undo_stack u @ [ops]" "same_data s (undo_all ops w) u"
  shows "\<exists>x. mt_rollback_request w = (Inr (), x) \<and> same_data s x u \<and> undo_stack x = undo_stack u"
proof -
  have "mt_rollback_request w = (Inr (), undo_all ops (w\<lparr>undo_stack := undo_stack u\<rparr>))"
    by (simp add: mt_rollback_request_def undo_all_def assms(1))
  then show ?thesis using assms(2) by simp
qed

lemma commit_merges:
  assumes "undo_stack w = undo_stack u @ [ops]"
  shows "mt_commit_request w = (Inr (), w\<lparr>undo_stack := extend_log ops (undo_stack u)\<rparr>)"
  by (simp add: mt_commit_request_def Let_def assms extend_log_def)

lemma logs_body: "mt_body s t u \<Longrightarrow> logs s t u"
proof (induction rule: mt_body.induct)
  case (body_op t u v)
  then show ?case by (blast intro: logs_trans logs_op)
next
  case (body_commit t u v w r x)
  obtain ops where ops: "undo_stack w = undo_stack u @ [ops]" "same_data s (undo_all ops w) u"
    using begin_logs [OF body_commit.hyps(2) body_commit.IH(2)] .
  have "logs s u x"
    using commit_merges [OF ops(1)] body_commit.hyps(4) ops(2) by (intro logsI [of _ ops]) auto
  with body_commit.IH(1) show ?case by (rule logs_trans)
next
  case (body_rollback t u v w r x)
  obtain ops where ops: "undo_stack w = undo_stack u @ [ops]" "same_data s (undo_all ops w) u"
    using begin_logs [OF body_rollback.hyps(2) body_rollback.IH(2)] .
  have "logs s u x" using rollback_restores [OF ops] body_rollback.hyps(4) by (auto intro: logs_meta)
  with body_rollback.IH(1) show ?case by (rule logs_trans)
qed simp

section \<open>Property\<close>

text \<open>C15. A request is atomic: after any body of operations and nested requests, its rollback
  succeeds and restores exactly the pending records and index entries and every generator value
  that the transaction held when the request began, and closes only its own savepoint. Its commit
  keeps the data and hands its undo log to the enclosing request, so that an outer rollback still
  undoes it.\<close>

theorem mt_request_atomic:
  assumes "mt_begin_request t = (Inr (), u)" "mt_body s u w"
  shows "\<exists>x y ops. mt_rollback_request w = (Inr (), x) \<and> same_data s x t \<and> undo_stack x = undo_stack t \<and>
    mt_commit_request w = (Inr (), y) \<and> same_data s y w \<and>
    undo_stack y = extend_log ops (undo_stack t) \<and> same_data s (undo_all ops y) t"
proof -
  obtain ops where ops: "undo_stack w = undo_stack t @ [ops]" "same_data s (undo_all ops w) t"
    using begin_logs [OF assms(1) logs_body [OF assms(2)]] .
  show ?thesis
    using rollback_restores [OF ops] commit_merges [OF ops(1)] ops(2)
    by (auto intro!: exI [of _ ops])
qed

theorem mt_request_atomic_witness:
  "let u = snd (mt_begin_request (mt_new ReadWrite [1] (fresh_meta [100])));
       w = snd (mt_put storage_default u 1 [7] [8] False);
       x = snd (mt_rollback_request w)
   in mt_get storage_default w 1 [7] = Inr (Some [8]) \<and> pending_records x = bt_empty"
proof -
  let ?t = "mt_new ReadWrite [1] (fresh_meta [100])" and ?s = storage_default
  let ?u = "snd (mt_begin_request ?t)"
  let ?w = "snd (mt_put ?s ?u 1 [7] [8] False)"
  have opened: "mt_begin_request ?t = (Inr (), ?u)" by (simp add: mt_begin_request_def)
  have "mt_body ?s ?u ?w"
    using body_op [OF body_nil op_put [OF prod.collapse [symmetric]]] by simp
  then obtain x where "mt_rollback_request ?w = (Inr (), x)" "same_data ?s x ?t"
    using mt_request_atomic [OF opened] by blast
  moreover have "mt_get ?s ?w 1 [7] = Inr (Some [8])"
    by (simp add: mt_get_def mt_put_def guard_write_def check_scope_def check_readwrite_def
        mt_begin_request_def mt_new_def set_pending_def push_undo_def read_record_def Let_def)
  ultimately show ?thesis by (simp add: same_data_def mt_new_def)
qed

end
