(* ===== verification/Memory_Walk.thy ===== *)
theory Memory_Walk
  imports Memory_Cursor
begin

text \<open>
  Every walk of an in-memory cursor ends: an advance that yields a row leaves fewer keys ahead of the
  cursor. For a unique cursor that walks an index backwards, which jumps both of its positions to
  the first entry of the group it yields, that is so once the two positions agree, as they do after
  its first row.
\<close>

section \<open>Store cursors\<close>

lemma pos_kind [simp]:
  "mc_kind (advance_record_pos source k c) = mc_kind c" "mc_kind (advance_index_pos source i c) = mc_kind c"
  "mc_desc (advance_index_pos source i c) = mc_desc c"
  by (cases source; simp add: advance_record_pos_def advance_index_pos_def)+

lemma records_left_current [simp]: "records_left s t store (c\<lparr>mc_current := x\<rparr>) = records_left s t store c"
proof -
  have "committed_ahead store (c\<lparr>mc_current := x\<rparr>) = committed_ahead store c"
    "pending_ahead store (c\<lparr>mc_current := x\<rparr>) = pending_ahead store c"
    by (rule ext, simp add: committed_ahead_def pending_ahead_def start_record_upper_def start_record_lower_def
        pending_end_record_def pending_start_record_def lower_record_def upper_record_def split: option.split)+
  then show ?thesis by (simp add: records_left_def)
qed

lemma pick_record_kind:
  "pick_record s t store c = PickTie c' \<Longrightarrow> mc_kind c' = mc_kind c"
  "pick_record s t store c = Pick k v source tombstoned c' \<Longrightarrow> mc_kind c' = mc_kind c"
  by (erule pick_record_cases, auto split: if_splits)+

lemma advance_store_less:
  "advance_store s t store c = (Inr True, c') \<Longrightarrow>
     records_left s t store c' < records_left s t store c \<and> mc_kind c' = mc_kind c"
proof (induction s t store c rule: advance_store.induct)
  case (1 s t store c)
  show ?case
  proof (cases "pick_record s t store c")
    case PickEnd
    then show ?thesis using "1.prems" by (subst (asm) advance_store.simps) simp
  next
    case (PickTie c1)
    then have "advance_store s t store c1 = (Inr True, c')"
      using "1.prems" by (subst (asm) advance_store.simps) simp
    from "1.IH"(1) [OF PickTie this] show ?thesis
      using pick_tie_less [OF PickTie] pick_record_kind(1) [OF PickTie] by simp
  next
    case (Pick k v source tombstoned c1)
    define c2 where "c2 = advance_record_pos source k c1"
    have less: "records_left s t store c2 < records_left s t store c"
      unfolding c2_def by (rule advance_pos_less [OF Pick])
    have kind: "mc_kind c2 = mc_kind c" using pick_record_kind(2) [OF Pick] by (simp add: c2_def)
    show ?thesis
    proof (cases "tombstoned \<or> \<not> contains (mc_range c2) (snd k) \<and> \<not> past_upper c2 (snd k)")
      case True
      then have run: "advance_store s t store c2 = (Inr True, c')"
        using "1.prems" Pick by (subst (asm) advance_store.simps) (auto simp: Let_def c2_def split: if_splits)
      have "records_left s t store c' < records_left s t store c2 \<and> mc_kind c' = mc_kind c2"
        using True "1.IH"(2) [OF Pick c2_def _ run] "1.IH"(3) [OF Pick c2_def _ _ _ run] by blast
      then show ?thesis using less kind by simp
    next
      case False
      then have "\<exists>x. c' = c2\<lparr>mc_current := x\<rparr>"
        using "1.prems" Pick by (subst (asm) advance_store.simps) (auto simp: Let_def c2_def split: if_splits)
      then show ?thesis using less kind by auto
    qed
  qed
qed

section \<open>Index cursors\<close>

definition entry_ahead :: "storage_state \<Rightarrow> memory_txn \<Rightarrow> index_id \<Rightarrow> memory_cursor \<Rightarrow> index_key \<Rightarrow> bool" where
  "entry_ahead s t i c k \<longleftrightarrow>
     committed_index_ahead i c k \<and> bt_get (index_entries s) k \<noteq> None \<or>
     pending_index_ahead i c k \<and> bt_get (pending_index_entries t) k \<noteq> None"

definition entry_live :: "storage_state \<Rightarrow> memory_txn \<Rightarrow> index_key \<Rightarrow> bool" where
  "entry_live s t k \<longleftrightarrow>
     bt_get (index_entries s) k \<noteq> None \<and> bt_get (pending_index_entries t) k \<noteq> Some False \<or>
     bt_get (pending_index_entries t) k = Some True"

lemma index_ahead_fields [simp]:
  "committed_index_ahead i (c\<lparr>mc_current := x\<rparr>) = committed_index_ahead i c"
  "pending_index_ahead i (c\<lparr>mc_current := x\<rparr>) = pending_index_ahead i c"
  "committed_index_ahead i (c\<lparr>last_index_key := y\<rparr>) = committed_index_ahead i c"
  "pending_index_ahead i (c\<lparr>last_index_key := y\<rparr>) = pending_index_ahead i c"
  by (rule ext, simp add: committed_index_ahead_def pending_index_ahead_def start_index_upper_def
      start_index_lower_def pending_end_index_def pending_start_index_def lower_index_def upper_index_def
      split: option.split)+

lemma entries_left_fields [simp]:
  "entries_left s t i (c\<lparr>mc_current := x\<rparr>) = entries_left s t i c"
  "entries_left s t i (c\<lparr>last_index_key := y\<rparr>) = entries_left s t i c"
  by (simp_all add: entries_left_def)

text \<open>What a pick examines was ahead, and what is ahead afterwards was ahead before.\<close>

definition shrinks :: "index_id \<Rightarrow> memory_cursor \<Rightarrow> memory_cursor \<Rightarrow> bool" where
  "shrinks i c c' \<longleftrightarrow>
     (\<forall>k. committed_index_ahead i c' k \<longrightarrow> committed_index_ahead i c k) \<and>
     (\<forall>k. pending_index_ahead i c' k \<longrightarrow> pending_index_ahead i c k) \<and>
     mc_desc c' = mc_desc c \<and> mc_kind c' = mc_kind c"

lemma shrinks_trans: "shrinks i a b \<Longrightarrow> shrinks i b c \<Longrightarrow> shrinks i a c"
  by (simp add: shrinks_def)

lemma shrinks_ahead: "shrinks i c c' \<Longrightarrow> entry_ahead s t i c' k \<Longrightarrow> entry_ahead s t i c k"
  unfolding shrinks_def entry_ahead_def by blast

lemma shrinks_pos:
  "committed_index_ahead i c k \<Longrightarrow> shrinks i c (c\<lparr>committed_index_pos := Some k\<rparr>)"
  "pending_index_ahead i c k \<Longrightarrow> shrinks i c (c\<lparr>pending_index_pos := Some k\<rparr>)"
  by (auto simp: shrinks_def committed_index_ahead_def pending_index_ahead_def start_index_upper_def
      start_index_lower_def pending_end_index_def pending_start_index_def
      intro: after_bound_trans before_bound_trans split: if_splits)

lemma pick_index_shrinks:
  "case pick_index s t i c of IndexEnd \<Rightarrow> True
     | IndexTie c' \<Rightarrow> shrinks i c c'
     | IndexPick ik pk source tombstoned c' \<Rightarrow>
         shrinks i c (advance_index_pos source (i, ik, pk) c') \<and> entry_ahead s t i c (i, ik, pk) \<and>
         (\<not> tombstoned \<longrightarrow> entry_live s t (i, ik, pk))"
proof -
  have comm: "shrinks i c (advance_index_pos FromCommitted (i, ik, pk) c)" "entry_ahead s t i c (i, ik, pk)" "j = i"
      "bt_get (index_entries s) (i, ik, pk) \<noteq> None"
    if "peek_committed_index s i c = Some (j, ik, pk)" for j ik pk
    using shrinks_pos(1) peek_committed_index_ahead [OF that] by (auto simp: advance_index_pos_def entry_ahead_def)
  have pend: "shrinks i c (advance_index_pos FromPending (i, ik, pk) c)" "entry_ahead s t i c (i, ik, pk)" "j = i"
      "bt_get (pending_index_entries t) (i, ik, pk) = Some live"
    if "peek_pending_index t i c = Some ((j, ik, pk), live)" for j ik pk live
    using shrinks_pos(2) peek_pending_index_ahead [OF that] by (auto simp: advance_index_pos_def entry_ahead_def)
  have tie: "shrinks i c (c\<lparr>committed_index_pos := Some (i, ik, pk), pending_index_pos := Some (i, ik, pk)\<rparr>)"
    if "peek_committed_index s i c = Some (i, ik, pk)" "peek_pending_index t i c = Some ((i, ik, pk), live)"
    for ik pk live
  proof -
    let ?c = "c\<lparr>committed_index_pos := Some (i, ik, pk)\<rparr>"
    have "shrinks i c ?c" using peek_committed_index_ahead [OF that(1)] by (intro shrinks_pos) simp
    moreover have "shrinks i ?c (?c\<lparr>pending_index_pos := Some (i, ik, pk)\<rparr>)"
      using peek_pending_index_ahead [OF that(2)] by (intro shrinks_pos) simp
    ultimately show ?thesis using shrinks_trans by fastforce
  qed
  show ?thesis
  proof (cases "peek_committed_index s i c")
    case None
    then show ?thesis
      using pend by (cases "peek_pending_index t i c") (auto simp: pick_index_def entry_live_def)
  next
    case (Some ck)
    obtain j ik pk where ck: "ck = (j, ik, pk)" by (cases ck) auto
    note C = comm [OF Some [unfolded ck]]
    show ?thesis
    proof (cases "peek_pending_index t i c")
      case None
      then show ?thesis using Some ck C by (auto simp: pick_index_def entry_live_def)
    next
      case pk: (Some q)
      obtain l ik' pk' live where q: "q = ((l, ik', pk'), live)" by (metis prod.exhaust)
      note P = pend [OF pk [unfolded q]]
      show ?thesis
        using Some ck pk q C P tie
        by (auto simp: pick_index_def Let_def advance_index_pos_def cmp_def entry_live_def split: if_splits)
    qed
  qed
qed

text \<open>The smallest member of a group is not above any live member.\<close>

lemma bt_keys_sorted': "sorted (bt_keys m)"
  by (rule strict_sorted_imp_sorted [OF bt_keys_sorted])

lemma find_sorted_le: "sorted xs \<Longrightarrow> k \<in> set xs \<Longrightarrow> p k \<Longrightarrow> \<exists>x. find p xs = Some x \<and> x \<le> k"
  by (induction xs) auto

lemma takeWhile_sorted:
  "sorted xs \<Longrightarrow> k \<in> set xs \<Longrightarrow> (\<And>x. x \<in> set xs \<Longrightarrow> x \<le> k \<Longrightarrow> q x) \<Longrightarrow> k \<in> set (takeWhile q xs)"
  by (induction xs) auto

lemma group_keys_member:
  assumes "bt_get m (i, ik, pk) \<noteq> None"
  shows "(i, ik, pk) \<in> set (group_keys i ik m)"
  unfolding group_keys_def
proof (rule takeWhile_sorted)
  show "sorted (filter (after_bound (Included (i, ik, []))) (bt_keys m))"
    by (rule sorted_wrt_filter [OF bt_keys_sorted'])
  show "(i, ik, pk) \<in> set (filter (after_bound (Included (i, ik, []))) (bt_keys m))"
    using assms by (simp add: bt_keys_iff less_eq_prod_def)
  fix x
  assume "x \<in> set (filter (after_bound (Included (i, ik, []))) (bt_keys m))" "x \<le> (i, ik, pk)"
  then show "case x of (iid, ik', pk') \<Rightarrow> iid = i \<and> ik' = ik"
    by (auto simp: less_eq_prod_def less_prod_def)
qed

lemma group_keys_group: "x \<in> set (group_keys i ik m) \<Longrightarrow> fst x = i \<and> fst (snd x) = ik"
  unfolding group_keys_def by (auto dest: set_takeWhileD)

lemma group_keys_sorted: "sorted (group_keys i ik m)"
  unfolding group_keys_def
  by (intro sorted_takeWhile sorted_wrt_filter bt_keys_sorted')

lemma find_group_le:
  assumes "bt_get m (i, ik, pk) \<noteq> None" "p (i, ik, pk)"
  shows "\<exists>x. find p (group_keys i ik m) = Some (i, ik, x) \<and> x \<le> pk"
proof -
  obtain y where y: "find p (group_keys i ik m) = Some y" "y \<le> (i, ik, pk)"
    using find_sorted_le [where p = p, OF group_keys_sorted group_keys_member [OF assms(1)] assms(2)] by blast
  then have "fst y = i \<and> fst (snd y) = ik" using group_keys_group by (metis find_Some_iff nth_mem)
  then show ?thesis using y by (cases y) (auto simp: less_eq_prod_def less_prod_def)
qed

lemma group_min_le:
  assumes "entry_live s t (i, ik, pk)" "group_min s t store i ik key_only = Inr (mpk, v)"
  shows "mpk \<le> pk"
  using assms(1) unfolding entry_live_def
proof
  assume "bt_get (index_entries s) (i, ik, pk) \<noteq> None \<and> bt_get (pending_index_entries t) (i, ik, pk) \<noteq> Some False"
  then obtain x where "find (\<lambda>k. bt_get (pending_index_entries t) k \<noteq> Some False) (group_keys i ik (index_entries s)) =
      Some (i, ik, x)" "x \<le> pk"
    using find_group_le [of "index_entries s" i ik pk "\<lambda>k. bt_get (pending_index_entries t) k \<noteq> Some False"] by blast
  then show ?thesis
    using assms(2) by (auto simp: group_min_def Let_def split: option.splits if_splits)
next
  assume "bt_get (pending_index_entries t) (i, ik, pk) = Some True"
  then obtain x where "find (\<lambda>k. bt_get (pending_index_entries t) k = Some True)
      (group_keys i ik (pending_index_entries t)) = Some (i, ik, x)" "x \<le> pk"
    using find_group_le [of "pending_index_entries t" i ik pk "\<lambda>k. bt_get (pending_index_entries t) k = Some True"]
    by auto
  then show ?thesis
    using assms(2) by (auto simp: group_min_def Let_def split: option.splits if_splits)
qed

text \<open>A row of an index walk is an entry that was ahead and is live; the cursor it leaves sees no more than
  before, with either fewer entries ahead or, for a descending unique walk, both positions at or
  below that entry.\<close>

definition jumped :: "storage_state \<Rightarrow> memory_txn \<Rightarrow> index_id \<Rightarrow> memory_cursor \<Rightarrow> memory_cursor \<Rightarrow> bool" where
  "jumped s t i c c' \<longleftrightarrow>
     (\<exists>k P. entry_ahead s t i c k \<and> P \<le> k \<and> committed_index_pos c' = Some P \<and> pending_index_pos c' = Some P)"

definition row_left :: "storage_state \<Rightarrow> memory_txn \<Rightarrow> index_id \<Rightarrow> bool \<Rightarrow> memory_cursor \<Rightarrow> memory_cursor \<Rightarrow> bool" where
  "row_left s t i unique c c' \<longleftrightarrow> mc_kind c' = mc_kind c \<and> mc_desc c' = mc_desc c \<and>
     (if unique \<and> mc_desc c then jumped s t i c c' else entries_left s t i c' < entries_left s t i c)"

lemma jumped_later: "shrinks i c c1 \<Longrightarrow> jumped s t i c1 c' \<Longrightarrow> jumped s t i c c'"
  unfolding jumped_def using shrinks_ahead [of i c c1 s t] by blast

lemma row_left_later:
  "shrinks i c c1 \<Longrightarrow> entries_left s t i c1 < entries_left s t i c \<Longrightarrow> row_left s t i unique c1 c' \<Longrightarrow>
     row_left s t i unique c c'"
  unfolding row_left_def using jumped_later [of i c c1 s t c'] by (auto simp: shrinks_def split: if_splits)

lemma advance_index_less:
  "advance_index s t store i unique c = (Inr True, c') \<Longrightarrow> row_left s t i unique c c'"
proof (induction s t store i unique c rule: advance_index.induct)
  case (1 s t store i unique c)
  show ?case
  proof (cases "pick_index s t i c")
    case IndexEnd
    then show ?thesis using "1.prems" by (subst (asm) advance_index.simps) simp
  next
    case (IndexTie c1)
    then have "advance_index s t store i unique c1 = (Inr True, c')"
      using "1.prems" by (subst (asm) advance_index.simps) simp
    from "1.IH"(1) [OF IndexTie this] show ?thesis
      using pick_index_less [OF IndexTie] pick_index_shrinks [where s = s and t = t and i = i and c = c] IndexTie
      by (intro row_left_later [of i c c1]) simp_all
  next
    case (IndexPick ik pk source tombstoned c1)
    define c2 where "c2 = advance_index_pos source (i, ik, pk) c1"
    have less: "entries_left s t i c2 < entries_left s t i c"
      using pick_index_less [OF IndexPick] by (simp add: c2_def)
    have picked: "shrinks i c c2" "entry_ahead s t i c (i, ik, pk)" "\<not> tombstoned \<longrightarrow> entry_live s t (i, ik, pk)"
      using pick_index_shrinks [where s = s and t = t and i = i and c = c] IndexPick by (simp_all add: c2_def)
    note body = "1.prems" [unfolded advance_index.simps [of s t store i unique c] IndexPick, simplified, folded c2_def,
        unfolded Let_def]
    show ?thesis
    proof (cases "tombstoned \<or> \<not> contains (mc_range c2) ik \<and> \<not> past_upper c2 ik \<or>
        contains (mc_range c2) ik \<and> unique \<and> last_index_key c2 = Some ik")
      case True
      then have run: "advance_index s t store i unique c2 = (Inr True, c')"
        using body by (auto split: if_splits)
      have "row_left s t i unique c2 c'"
        using True "1.IH"(2) [OF IndexPick c2_def _ run] "1.IH"(3) [OF IndexPick c2_def _ _ _ run]
          "1.IH"(4) [OF IndexPick c2_def _ _ _ run] by blast
      then show ?thesis by (rule row_left_later [OF picked(1) less])
    next
      case row: False
      show ?thesis
      proof (cases "unique \<and> mc_desc c2")
        case True
        then obtain mpk v where "group_min s t store i ik (mc_key_only c2) = Inr (mpk, v)"
          "committed_index_pos c' = Some (i, ik, mpk)" "pending_index_pos c' = Some (i, ik, mpk)"
          "mc_kind c' = mc_kind c2" "mc_desc c' = mc_desc c2"
          using body row by (auto split: if_splits sum.splits)
        moreover have "(i, ik, mpk) \<le> (i, ik, pk)"
          using group_min_le [OF _ calculation(1)] picked(3) row by simp
        ultimately show ?thesis
          using picked(1,2) True unfolding row_left_def jumped_def shrinks_def by auto
      next
        case False
        then have "entries_left s t i c' = entries_left s t i c2 \<and> mc_kind c' = mc_kind c2 \<and> mc_desc c' = mc_desc c2"
          using body row by (auto split: if_splits)
        then show ?thesis using picked(1) less False by (auto simp: row_left_def shrinks_def)
      qed
    qed
  qed
qed

lemma jump_less:
  assumes "jumped s t i c c'" "mc_desc c" "mc_desc c'"
    and pos: "committed_index_pos c = Some Q" "pending_index_pos c = Some Q"
  shows "entries_left s t i c' < entries_left s t i c"
proof -
  obtain k P where jump: "entry_ahead s t i c k" "P \<le> k"
    "committed_index_pos c' = Some P" "pending_index_pos c' = Some P"
    using assms(1) unfolding jumped_def by blast
  have c: "committed_index_ahead i c = (\<lambda>x. x < Q)" "pending_index_ahead i c = (\<lambda>x. x < Q)"
    and c': "committed_index_ahead i c' = (\<lambda>x. x < P)" "pending_index_ahead i c' = (\<lambda>x. x < P)"
    using pos jump assms(2,3)
    by (simp_all add: fun_eq_iff committed_index_ahead_def pending_index_ahead_def start_index_upper_def
        pending_end_index_def)
  have k: "k < Q" "bt_get (index_entries s) k \<noteq> None \<or> bt_get (pending_index_entries t) k \<noteq> None"
    using jump(1) unfolding entry_ahead_def c by blast+
  have "P < Q" by (rule le_less_trans [OF jump(2) k(1)])
  have le: "length (filter (\<lambda>x. x < P) xs) \<le> length (filter (\<lambda>x. x < Q) xs)" for xs :: "index_key list"
    using \<open>P < Q\<close> by (induction xs) auto
  have less: "length (filter (\<lambda>x. x < P) xs) < length (filter (\<lambda>x. x < Q) xs)" if "k \<in> set xs" for xs
    by (rule length_filter_less [of _ _ k]) (use that k(1) jump(2) \<open>P < Q\<close> in auto)
  show ?thesis
    unfolding entries_left_def c c' using k(2)
  proof
    assume "bt_get (index_entries s) k \<noteq> None"
    then show "length (filter (\<lambda>x. x < P) (bt_keys (index_entries s))) +
        length (filter (\<lambda>x. x < P) (bt_keys (pending_index_entries t)))
      < length (filter (\<lambda>x. x < Q) (bt_keys (index_entries s))) +
        length (filter (\<lambda>x. x < Q) (bt_keys (pending_index_entries t)))"
      by (intro add_less_le_mono less le) (simp only: bt_keys_iff not_False_eq_True)
  next
    assume "bt_get (pending_index_entries t) k \<noteq> None"
    then show "length (filter (\<lambda>x. x < P) (bt_keys (index_entries s))) +
        length (filter (\<lambda>x. x < P) (bt_keys (pending_index_entries t)))
      < length (filter (\<lambda>x. x < Q) (bt_keys (index_entries s))) +
        length (filter (\<lambda>x. x < Q) (bt_keys (pending_index_entries t)))"
      by (intro add_le_less_mono less le) (simp only: bt_keys_iff not_False_eq_True)
  qed
qed

section \<open>Walks end\<close>

text \<open>How far a cursor may go, and when the count is sure to drop.\<close>

definition rows_left :: "storage_state \<Rightarrow> memory_txn \<Rightarrow> memory_cursor \<Rightarrow> nat" where
  "rows_left s t c = (case mc_kind c of
     KindStore store \<Rightarrow> records_left s t store c | KindIndex _ i _ \<Rightarrow> entries_left s t i c)"

definition on_course :: "memory_cursor \<Rightarrow> bool" where
  "on_course c \<longleftrightarrow> (case mc_kind c of KindStore _ \<Rightarrow> True
     | KindIndex _ _ unique \<Rightarrow> unique \<and> mc_desc c \<longrightarrow>
         (\<exists>P. committed_index_pos c = Some P \<and> pending_index_pos c = Some P))"

lemma mc_advance_on_course: "mc_advance s t c = (Inr True, c') \<Longrightarrow> on_course c'"
  by (cases "mc_kind c")
     (auto simp: mc_advance_def on_course_def row_left_def jumped_def dest!: advance_store_less advance_index_less split: if_splits)

lemma mc_advance_less:
  assumes "mc_advance s t c = (Inr True, c')" "on_course c"
  shows "rows_left s t c' < rows_left s t c"
proof (cases "mc_kind c")
  case (KindStore store)
  then show ?thesis
    using advance_store_less [of s t store c c'] assms(1) by (simp add: mc_advance_def rows_left_def)
next
  case (KindIndex store i unique)
  then have row: "row_left s t i unique c c'"
    using advance_index_less [of s t store i unique c c'] assms(1) by (simp add: mc_advance_def)
  show ?thesis
  proof (cases "unique \<and> mc_desc c")
    case True
    then obtain Q where "committed_index_pos c = Some Q" "pending_index_pos c = Some Q"
      using assms(2) KindIndex by (auto simp: on_course_def)
    then show ?thesis
      using row True KindIndex jump_less [of s t i c c' Q] by (simp add: row_left_def rows_left_def)
  next
    case False
    then show ?thesis using row KindIndex by (auto simp: row_left_def rows_left_def)
  qed
qed

lemma mc_step_one: "mc_step s t 1 c = (if mc_exhausted c then (Inr False, c) else mc_advance s t c)"
  by (simp add: mc_step_def split: sum.split prod.split)

end
