(* ===== verification/Memory_Backend.thy ===== *)
theory Memory_Backend
  imports Driver_Schema Memory_Scan Memory_Savepoint Memory_Walk
begin

text \<open>
  The in-memory backend satisfies the laws the engine relies on: the trait implementations of
  \<open>boa_idb_memory/src/txn.rs\<close> and \<open>cursor.rs\<close> as a record of operations, for every committed
  state behind the lock, and the interpretation of the interface on them. The theorems about
  \<open>put\<close>, \<open>delete\<close> and \<open>clear\<close> over this backend follow.
\<close>

definition mem_backend :: "storage_state \<Rightarrow> (memory_txn, memory_cursor) backend_txn" where
  "mem_backend s =
     \<lparr>bk_begin_request = mt_begin_request, bk_commit_request = mt_commit_request,
      bk_rollback_request = mt_rollback_request, bk_set_version = mt_set_version,
      bk_create_store = mt_create_store, bk_delete_store = mt_delete_store,
      bk_rename_store = mt_rename_store, bk_create_index = mt_create_index,
      bk_delete_index = mt_delete_index, bk_rename_index = mt_rename_index,
      bk_put = mt_put s, bk_get = mt_get s, bk_delete_record = mt_delete_record s,
      bk_delete_range = mt_delete_range s, bk_clear = mt_clear s, bk_count = mt_count s,
      bk_scan = mt_scan, bk_key_gen_current = (\<lambda>t store. Inr (mt_key_gen_current s t store)),
      bk_key_gen_set = mt_key_gen_set s, bk_index_put = mt_index_put s,
      bk_index_delete = mt_index_delete, bk_index_delete_by_primary = mt_index_delete_by_primary s,
      bk_seek = mc_seek s, bk_step = mc_step s, bk_current_key = mc_current_key,
      bk_current_primary_key = mc_current_primary_key, bk_current_value = mc_current_value\<rparr>"

lemma mem_backend_simps [simp]:
  "bk_begin_request (mem_backend s) = mt_begin_request" "bk_commit_request (mem_backend s) = mt_commit_request"
  "bk_rollback_request (mem_backend s) = mt_rollback_request" "bk_put (mem_backend s) = mt_put s"
  "bk_get (mem_backend s) = mt_get s" "bk_delete_record (mem_backend s) = mt_delete_record s"
  "bk_delete_range (mem_backend s) = mt_delete_range s" "bk_clear (mem_backend s) = mt_clear s"
  "bk_count (mem_backend s) = mt_count s" "bk_scan (mem_backend s) = mt_scan"
  "bk_key_gen_set (mem_backend s) = mt_key_gen_set s" "bk_index_put (mem_backend s) = mt_index_put s"
  "bk_key_gen_current (mem_backend s) = (\<lambda>t store. Inr (mt_key_gen_current s t store))"
  "bk_index_delete (mem_backend s) = mt_index_delete"
  "bk_index_delete_by_primary (mem_backend s) = mt_index_delete_by_primary s"
  "bk_seek (mem_backend s) = mc_seek s" "bk_step (mem_backend s) = mc_step s"
  "bk_current_key (mem_backend s) = mc_current_key"
  "bk_current_primary_key (mem_backend s) = mc_current_primary_key"
  "bk_current_value (mem_backend s) = mc_current_value"
  "bk_create_store (mem_backend s) = mt_create_store" "bk_create_index (mem_backend s) = mt_create_index"
  "bk_rename_store (mem_backend s) = mt_rename_store" "bk_delete_index (mem_backend s) = mt_delete_index"
  "bk_rename_index (mem_backend s) = mt_rename_index"
  by (simp_all add: mem_backend_def)

section \<open>Walks\<close>

definition cursor_row :: "memory_cursor \<Rightarrow> cursor_row" where
  "cursor_row c = (mc_current_key c, mc_current_primary_key c, mc_current_value c)"

lemma collect_trail_rows:
  "mc_collect s t at rows = Some y \<Longrightarrow>
     y = Inr out \<longrightarrow> (\<exists>cs. trail (mem_backend s) t at cs \<and> out = rows @ map cursor_row cs)"
proof (rule mc_collect.raw_induct [where P = "\<lambda>s t at rows y. y = Inr out \<longrightarrow>
    (\<exists>cs. trail (mem_backend s) t at cs \<and> out = rows @ map cursor_row cs)"])
  fix collect s t and at :: "(backend_error + bool) \<times> memory_cursor" and rows y
  assume IH: "\<And>s t at rows y. collect s t at rows = Some y \<Longrightarrow> y = Inr out \<longrightarrow>
      (\<exists>cs. trail (mem_backend s) t at cs \<and> out = rows @ map cursor_row cs)"
    and body: "(case at of
        (Inl e, c) \<Rightarrow> Some (Inl e)
      | (Inr active, c) \<Rightarrow>
          if \<not> active then Some (Inr rows)
          else collect s t (mc_step s t 1 c)
                 (rows @ [(mc_current_key c, mc_current_primary_key c, mc_current_value c)])) = Some y"
  obtain r c where at: "at = (r, c)" by (cases at)
  show "y = Inr out \<longrightarrow> (\<exists>cs. trail (mem_backend s) t at cs \<and> out = rows @ map cursor_row cs)"
  proof (cases "r = Inr True")
    case True
    then have "collect s t (mc_step s t 1 c) (rows @ [cursor_row c]) = Some y"
      using body at by (simp add: cursor_row_def)
    from IH [OF this] show ?thesis
      using trail_row [of "mem_backend s" t c] True at by fastforce
  next
    case False
    then show ?thesis
      using body at trail_end [of "mem_backend s" t c]
      by (cases r) (auto intro: exI [of _ "[]"])
  qed
qed

lemma sorted_live_keys:
  "sorted_wrt (<) (map snd (ordered False (live_keys s t store rng)))"
  "set (map snd (ordered False (live_keys s t store rng))) = {k. view s t (store, k) \<noteq> None \<and> contains rng k}"
proof -
  have fin: "finite (live_keys s t store rng)"
    using finite_view [of s t] unfolding live_keys_def by (rule rev_finite_subset) auto
  have "sorted_wrt (<) (ordered False (live_keys s t store rng))"
    by (simp add: ordered_def)
  moreover have "k \<in> set (ordered False (live_keys s t store rng)) \<longleftrightarrow> k \<in> live_keys s t store rng" for k
    by (simp add: ordered_def fin)
  ultimately show "sorted_wrt (<) (map snd (ordered False (live_keys s t store rng)))"
    unfolding sorted_wrt_map
    by (elim sorted_wrt_mono_rel [rotated]) (auto simp: live_keys_def in_range_def less_prod_def')
  show "set (map snd (ordered False (live_keys s t store rng))) = {k. view s t (store, k) \<noteq> None \<and> contains rng k}"
    using fin by (auto simp: ordered_def live_keys_def in_range_def intro: image_eqI [where x = "(store, k)" for k])
qed

lemma mem_walk:
  assumes "mt_scan t (SrcStore store) rng Next key_only = Inr c"
  shows "\<exists>cs. trail (mem_backend s) t (mc_seek s t SeekFirst c) cs \<and>
    sorted_wrt (<) (map mc_current_key cs) \<and>
    set (map mc_current_key cs) = {k. view s t (store, k) \<noteq> None \<and> contains rng k} \<and>
    (\<forall>c \<in> set cs. mc_current_primary_key c = mc_current_key c \<and>
       mc_current_value c = (if key_only then None else view s t (store, mc_current_key c)))"
proof -
  have c: "c = mc_open_store store rng Next key_only" using assms by (simp add: mt_scan_def)
  let ?ks = "ordered False (live_keys s t store rng)"
  have "mc_collect s t (mc_seek s t SeekFirst c) [] = Some (Inr (map (row_of s t key_only) ?ks))"
    using collect_store [of Next rng s t store key_only] c by simp
  then obtain cs where cs: "trail (mem_backend s) t (mc_seek s t SeekFirst c) cs"
    "map (row_of s t key_only) ?ks = map cursor_row cs"
    using collect_trail_rows [of s t "mc_seek s t SeekFirst c" "[]" _ "map (row_of s t key_only) ?ks"] by auto
  have keys: "map mc_current_key cs = map snd ?ks"
  proof -
    have "map fst (map cursor_row cs) = map fst (map (row_of s t key_only) ?ks)" using cs(2) by simp
    then show ?thesis by (simp add: comp_def cursor_row_def row_of_def)
  qed
  have "mc_current_primary_key x = mc_current_key x \<and>
      mc_current_value x = (if key_only then None else view s t (store, mc_current_key x))"
    if "x \<in> set cs" for x
  proof -
    have "finite (live_keys s t store rng)"
      using finite_view [of s t] unfolding live_keys_def by (rule rev_finite_subset) auto
    moreover have "cursor_row x \<in> set (map (row_of s t key_only) ?ks)" using that unfolding cs(2) by simp
    ultimately obtain k where "k \<in> live_keys s t store rng" "cursor_row x = row_of s t key_only k"
      by (auto simp: ordered_def)
    then show ?thesis by (cases k) (auto simp: cursor_row_def row_of_def live_keys_def in_range_def)
  qed
  moreover have "sorted_wrt (<) (map mc_current_key cs)"
    "set (map mc_current_key cs) = {k. view s t (store, k) \<noteq> None \<and> contains rng k}"
    unfolding keys by (rule sorted_live_keys)+
  ultimately show ?thesis using cs(1) by blast
qed

text \<open>Every walk ends, by the number of rows left; its first advance brings a cursor on course.\<close>

lemma course_ends: "on_course c \<Longrightarrow> walk_ends (mem_backend s) t (mc_advance s t c)"
proof (induction "rows_left s t c" arbitrary: c rule: less_induct)
  case less
  obtain r c' where adv: "mc_advance s t c = (r, c')" by (cases "mc_advance s t c")
  show ?case
  proof (cases "r = Inr True")
    case True
    then have adv': "mc_advance s t c = (Inr True, c')" using adv by simp
    have "walk_ends (mem_backend s) t (mc_step s t 1 c')"
      using less.hyps [OF mc_advance_less [OF adv' less.prems] mc_advance_on_course [OF adv']]
      by (simp only: mc_step_one) (simp add: walk_ends.ends_here)
    then show ?thesis unfolding adv' by (intro walk_ends.ends_later) simp
  next
    case False
    then show ?thesis using adv by (cases r) (auto intro: walk_ends.intros)
  qed
qed

lemma mem_walk_ends: "walk_ends (mem_backend s) t (mc_advance s t c)"
proof -
  obtain r c' where adv: "mc_advance s t c = (r, c')" by (cases "mc_advance s t c")
  show ?thesis
  proof (cases "r = Inr True")
    case True
    then have adv': "mc_advance s t c = (Inr True, c')" using adv by simp
    have "walk_ends (mem_backend s) t (mc_step s t 1 c')"
      using course_ends [OF mc_advance_on_course [OF adv'], of s t]
      by (simp only: mc_step_one) (simp add: walk_ends.ends_here)
    then show ?thesis unfolding adv' by (intro walk_ends.ends_later) simp
  next
    case False
    then show ?thesis using adv by (cases r) (auto intro: walk_ends.intros)
  qed
qed

section \<open>Requests\<close>

lemma mem_ops_logs: "bk_ops (mem_backend s) t u \<Longrightarrow> logs s t u"
proof (induction rule: rtranclp_induct)
  case (step u v)
  have "mt_op s u v"
    using step.hyps(2)
    by cases (auto intro: mt_op.intros [OF prod.collapse [symmetric]])
  then show ?case using step.IH logs_op logs_trans by blast
qed simp

lemma same_data_views:
  "same_data s t u \<Longrightarrow> view s t = view s u \<and> index_view s t = index_view s u \<and>
     mt_key_gen_current s t = mt_key_gen_current s u"
  by (auto simp: same_data_def view_def index_view_def read_record_def index_entry_exists_def fun_eq_iff)

lemma views_generators:
  "view s (t\<lparr>pending_key_generators := g\<rparr>) = view s t"
  "index_view s (t\<lparr>pending_key_generators := g\<rparr>) = index_view s t"
  "mt_key_gen_current s (t\<lparr>pending_key_generators := bt_insert store x (pending_key_generators t')\<rparr>) =
     (mt_key_gen_current s (t\<lparr>pending_key_generators := pending_key_generators t'\<rparr>))(store := x)"
  "mt_key_gen_current s (push_undo op t\<lparr>pending_key_generators := pending_key_generators t\<rparr>) =
     mt_key_gen_current s t"
  by (auto simp: view_def index_view_def read_record_def index_entry_exists_def mt_key_gen_current_def fun_eq_iff push_undo_def)

section \<open>The laws\<close>

interpretation mem: storage_backend "mem_backend s" "view s" "index_view s" "mt_key_gen_current s" for s
proof
  fix t t' :: memory_txn and store k v no_overwrite and u :: unit
  assume "bk_put (mem_backend s) t store k v no_overwrite = (Inr u, t')"
  then show "view s t' = (view s t)((store, k) \<mapsto> v) \<and> index_view s t' = index_view s t \<and>
      mt_key_gen_current s t' = mt_key_gen_current s t"
    by (auto simp: mt_put_def split: sum.splits if_splits)
next
  fix t store k r
  assume "bk_get (mem_backend s) t store k = Inr r"
  then show "r = view s t (store, k)" by (simp add: mt_get_def view_def)
next
  fix t t' :: memory_txn and store rng n
  assume run: "bk_delete_range (mem_backend s) t store rng = (Inr n, t')"
  then have "guard_write t store = Inr ()" by (auto simp: mt_delete_range_def split: sum.splits)
  then show "view s t' = (\<lambda>k. if fst k = store \<and> contains rng (snd k) then None else view s t k) \<and>
      index_view s t' = index_view s t \<and> mt_key_gen_current s t' = mt_key_gen_current s t"
    using delete_range_effect [of t store s rng] delete_range_key_gen [of s t store rng] run
    by (auto simp: in_range_def)
next
  fix t t' :: memory_txn and store and u :: unit
  assume run: "bk_clear (mem_backend s) t store = (Inr u, t')"
  then have "guard_write t store = Inr ()" by (auto simp: mt_clear_def split: sum.splits)
  then show "view s t' = (\<lambda>k. if fst k = store then None else view s t k) \<and>
      index_view s t' = index_view s t \<and> mt_key_gen_current s t' = mt_key_gen_current s t"
    using clear_effect [of t store s] clear_key_gen [of s t store] run by auto
next
  fix t t' :: memory_txn and store x and u :: unit
  assume "bk_key_gen_set (mem_backend s) t store x = (Inr u, t')"
  then show "view s t' = view s t \<and> index_view s t' = index_view s t \<and>
      mt_key_gen_current s t' = (mt_key_gen_current s t)(store := x)"
    by (auto simp: mt_key_gen_set_def Let_def views_generators split: sum.splits)
next
  fix t t' :: memory_txn and i ik pk unique and u :: unit
  assume "bk_index_put (mem_backend s) t i ik pk unique = (Inr u, t')"
  moreover have "index_entry_exists s t k \<longleftrightarrow> k \<in> index_view s t" for k by (simp add: index_view_def)
  ultimately show "view s t' = view s t \<and> index_view s t' = insert (i, ik, pk) (index_view s t) \<and>
      mt_key_gen_current s t' = mt_key_gen_current s t \<and>
      (unique \<longrightarrow> (i, ik, pk) \<in> index_view s t \<or> (\<forall>q. (i, ik, q) \<notin> index_view s t))"
    by (auto simp: mt_index_put_def Let_def find_index_entries_none split: sum.splits if_splits)
next
  fix t t' :: memory_txn and i ik pk and u :: unit
  assume "bk_index_delete (mem_backend s) t i ik pk = (Inr u, t')"
  then show "view s t' = view s t \<and> index_view s t' = index_view s t - {(i, ik, pk)} \<and>
      mt_key_gen_current s t' = mt_key_gen_current s t"
    by (auto simp: mt_index_delete_def split: sum.splits)
next
  fix t t' :: memory_txn and i pk and u :: unit
  assume run: "bk_index_delete_by_primary (mem_backend s) t i pk = (Inr u, t')"
  let ?f = "\<lambda>ik. set_pending_index (i, ik, pk) False"
  have "view s (fold ?f iks t) = view s t" "mt_key_gen_current s (fold ?f iks t) = mt_key_gen_current s t" for iks
    by (rule fold_keeps, simp)+
  then show "view s t' = view s t \<and> index_view s t' = {k \<in> index_view s t. \<not> (fst k = i \<and> snd (snd k) = pk)} \<and>
      mt_key_gen_current s t' = mt_key_gen_current s t"
    using run delete_by_primary_effect [of s i pk t]
    by (auto simp: mt_index_delete_by_primary_def split: sum.splits)
next
  fix t :: memory_txn and store rng key_only c
  assume "bk_scan (mem_backend s) t (SrcStore store) rng Next key_only = Inr c"
  from mem_walk [OF this [simplified]]
  show "\<exists>cs. trail (mem_backend s) t (bk_seek (mem_backend s) t SeekFirst c) cs \<and>
      sorted_wrt (<) (map (bk_current_key (mem_backend s)) cs) \<and>
      set (map (bk_current_key (mem_backend s)) cs) = {k. view s t (store, k) \<noteq> None \<and> contains rng k} \<and>
      (\<forall>c \<in> set cs. bk_current_primary_key (mem_backend s) c = bk_current_key (mem_backend s) c \<and>
         bk_current_value (mem_backend s) c =
           (if key_only then None else view s t (store, bk_current_key (mem_backend s) c)))"
    unfolding mem_backend_simps .
next
  fix t :: memory_txn and src rng dir key_only target c
  show "walk_ends (mem_backend s) t (bk_seek (mem_backend s) t target c)"
    unfolding mem_backend_simps mc_seek_def Let_def by (rule mem_walk_ends)
next
  fix t t1 t2 :: memory_txn and u :: unit
  assume b: "bk_begin_request (mem_backend s) t = (Inr u, t1)" and ops: "bk_ops (mem_backend s) t1 t2"
  have b': "mt_begin_request t = (Inr (), t1)" using b by simp
  obtain log where log: "undo_stack t2 = undo_stack t @ [log]" "same_data s (undo_all log t2) t"
    using begin_logs [OF b' mem_ops_logs [OF ops]] .
  show "\<exists>t3. bk_rollback_request (mem_backend s) t2 = (Inr (), t3) \<and> view s t3 = view s t \<and>
      index_view s t3 = index_view s t \<and> mt_key_gen_current s t3 = mt_key_gen_current s t"
    using rollback_restores [OF log] same_data_views by fastforce
  have "same_data s (t2\<lparr>undo_stack := extend_log log (undo_stack t)\<rparr>) t2" by simp
  then show "\<exists>t3. bk_commit_request (mem_backend s) t2 = (Inr (), t3) \<and> view s t3 = view s t2 \<and>
      index_view s t3 = index_view s t2 \<and> mt_key_gen_current s t3 = mt_key_gen_current s t2"
    using commit_merges [OF log(1)] same_data_views by fastforce
next
  fix t t1 :: memory_txn and r
  assume "bk_begin_request (mem_backend s) t = (r, t1)"
  then have "same_data s t1 t" by (auto simp: mt_begin_request_def)
  then show "view s t1 = view s t \<and> index_view s t1 = index_view s t \<and>
      mt_key_gen_current s t1 = mt_key_gen_current s t"
    by (rule same_data_views)
qed

text \<open>Schema operations change only the metadata of the transaction.\<close>

interpretation mem_schema: schema_backend "mem_backend s" "view s" "index_view s" "mt_key_gen_current s" for s
proof
  fix t t' :: memory_txn and store spec r
  assume "bk_create_index (mem_backend s) t store spec = (r, t')"
  then have "same_data s t t'"
    by (auto simp: mt_create_index_def update_store_def Let_def split: if_splits)
  then show "view s t' = view s t \<and> index_view s t' = index_view s t \<and>
      mt_key_gen_current s t' = mt_key_gen_current s t"
    using same_data_views by simp
next
  fix t t' :: memory_txn and store index r
  assume "bk_delete_index (mem_backend s) t store index = (r, t')"
  then have "same_data s t t'" by (auto simp: mt_delete_index_def update_store_def split: if_splits)
  then show "view s t' = view s t \<and> index_view s t' = index_view s t \<and>
      mt_key_gen_current s t' = mt_key_gen_current s t"
    using same_data_views by simp
qed

end
