(* ===== verification/Memory_Requests.thy ===== *)
theory Memory_Requests
  imports Memory_Backend Scf_Format
begin

text \<open>
  Requests of the driver over the in-memory backend: the properties of \<open>execute_op\<close> and of the store
  operations, from the laws that \<open>Memory_Backend\<close> proves of that backend.
\<close>

section \<open>A small database\<close>

text \<open>One store with a unique index on the value itself, and a transaction over it.\<close>

definition demo_index :: index_meta where
  "demo_index =
     \<lparr>ix_id = 3, ix_store_id = 2, ix_name = [105], ix_key_path = PathSingle [], ix_unique = True,
      ix_multi_entry = False, ix_deleted = False\<rparr>"

definition demo_store :: store_meta where
  "demo_store =
     \<lparr>st_id = 2, st_name = [115], st_key_path = PathEmpty, st_auto_increment = False, st_key_gen = f64_zero,
      st_indexes = [demo_index], st_deleted = False\<rparr>"

definition demo_schema :: database_meta where
  "demo_schema = (fresh_meta [100])\<lparr>db_stores := [demo_store]\<rparr>"

definition demo_begun :: memory_txn where
  "demo_begun = mt_new ReadWrite [2] demo_schema"

definition demo_handle :: "memory_txn txn_handle" where
  "demo_handle =
     \<lparr>th_txn_id = 7, th_conn_id = 1, th_db_name = [100], th_mode = ReadWrite, th_scope = [2],
      th_durability = DurRelaxed, th_meta = demo_schema, th_backend = Some demo_begun, th_finished = False,
      th_active = True, th_active_epoch = 0, th_explicit_commit = False, th_deleted_store_ids = [],
      th_keygens = [], th_bytes_read = 0, th_bytes_written = 0\<rparr>"

definition demo_driver :: "(memory_txn, int) driver" where
  "demo_driver =
     \<lparr>dr_txns = [7 \<mapsto> demo_handle], dr_txn_of_request = Map.empty, dr_ops = Map.empty,
      dr_txn_queues = Map.empty, dr_cursors = Map.empty, dr_next_request_id = 2, dr_next_txn_id = 8,
      dr_next_cursor_id = 1, dr_next_conn_id = 2, dr_task_epoch = 0\<rparr>"

definition demo_put :: "int pending_op" where
  "demo_put = OpPut 2 (ScString []) (Some (KBinary [])) False"

lemma demo_keys:
  "encode_key_vec (default_limits\<lparr>max_value_len := n\<rparr>) (KBinary []) = Inr [TAG_BINARY, 0, 0]"
  "encode_key_vec (default_limits\<lparr>max_value_len := n\<rparr>) (KString []) = Inr [TAG_STRING, 0, 0]"
  by (simp_all add: encode_key_vec_def encode_key_def validate_def validate_recursive.simps encode_key_internal.simps
      encode_binary_def encode_string_cesu8_def Let_def
      default_limits_def)

lemma demo_value:
  "index_keys_for_value (default_limits\<lparr>max_value_len := n\<rparr>) demo_index (ScString [])
     = Inr [[TAG_STRING, 0, 0]]"
  by (simp add: index_keys_for_value_def demo_index_def extract_single_path_def demo_keys)

lemma demo_encoded:
  obtains bs where "encode_scf default_limits int_bytes (ScString []) = Inr bs"
    "decode_scf default_limits int_bytes bs = Inr (ScString [])"
proof -
  have v: "storable (ScString [] :: int scvalue) default_limits 0"
    "8 + length (scf_bytes int_bytes (ScString [])) \<le> max_value_len default_limits"
    using length_uvarint_le [of 0] by (simp_all add: usize_ok_def str_bytes_def uvar_def units_bytes_def)
  show ?thesis
    by (rule that [OF encode_scf_blob [OF v]], subst decode_scf_bytes [OF int_bytes_law _ v]) simp_all
qed

lemma demo_unencoded:
  obtains e where "encode_scf (default_limits\<lparr>max_value_len := 0\<rparr>) int_bytes (ScString []) = Inl e"
  by (simp add: encode_scf_def encode_with_depth.simps check_size_def scf_encoder_new_def)

definition demo_open :: memory_txn where
  "demo_open = demo_begun\<lparr>undo_stack := [[]]\<rparr>"

definition demo_indexed :: memory_txn where
  "demo_indexed = set_pending_index (3, [TAG_STRING, 0, 0], [TAG_BINARY, 0, 0]) True demo_open"

lemma demo_put_record:
  assumes "lim = default_limits\<lparr>max_value_len := n\<rparr>"
  shows "put_record (mem_backend storage_default) lim Bg demo_store (ScString []) (KBinary []) False demo_open =
    (case encode_scf lim Bg (ScString []) of
       Inl e \<Rightarrow> (Inl (Fails IdbDataClone), demo_indexed)
     | Inr bs \<Rightarrow> (Inr (True, length bs), set_pending (2, [TAG_BINARY, 0, 0]) (Some bs) demo_indexed))"
proof -
  have fields: "st_id demo_store = 2" "st_indexes demo_store = [demo_index]"
    "ix_id demo_index = 3" "\<not> ix_deleted demo_index"
    by (simp_all add: demo_store_def demo_index_def)
  have get: "mt_get storage_default demo_open 2 [TAG_BINARY, 0, 0] = Inr None"
    by (simp add: mt_get_def demo_open_def demo_begun_def mt_new_def check_scope_def read_record_def storage_default_def)
  have idx: "mt_index_put storage_default demo_open 3 [TAG_STRING, 0, 0] [TAG_BINARY, 0, 0] u = (Inr (), demo_indexed)" for u
    by (simp add: mt_index_put_def demo_indexed_def demo_open_def demo_begun_def mt_new_def check_readwrite_def
        find_index_entries_def index_entry_exists_def storage_default_def bt_keys_def bt_empty.rep_eq Let_def)
  have put: "mt_put storage_default demo_indexed 2 [TAG_BINARY, 0, 0] bs False =
      (Inr (), set_pending (2, [TAG_BINARY, 0, 0]) (Some bs) demo_indexed)" for bs
    by (simp add: mt_put_def guard_write_def check_scope_def check_readwrite_def demo_indexed_def set_pending_index_def
        push_undo_def demo_open_def demo_begun_def mt_new_def Let_def)
  show ?thesis
    unfolding assms
    by (subst put_record_def, subst sync_indexes_on_put_def, subst fields(2))
      (simp add: demo_keys demo_value fields(1,3,4) get idx put sync_index_def oi_put_def on_err_def decode_existing_def
        split: sum.split)
qed

lemma demo_opened:
  "open_savepoints (mem_backend s) 7 demo_driver = (Inr (), demo_driver\<lparr>dr_txns := [7 \<mapsto> demo_handle\<lparr>th_backend := Some demo_open\<rparr>]\<rparr>)"
  by (simp add: open_savepoints_def backend_of_def demo_driver_def demo_handle_def mt_begin_request_def with_handle_def
      each_keygen_def demo_open_def demo_begun_def mt_new_def)

lemma demo_determined: "determine_key demo_store (Some k) g v = (Inr k, g, v)"
  by (simp add: determine_key_def demo_store_def)

lemma demo_os_put:
  assumes "lim = default_limits\<lparr>max_value_len := n\<rparr>"
  shows "\<exists>u g'. os_put (mem_backend storage_default) lim int_bytes demo_store (Some (KBinary [])) False
      (demo_open, g, ScString []) =
    (case encode_scf lim int_bytes (ScString []) of
       Inl e \<Rightarrow> (Inl (Fails IdbDataClone), u, g', ScString [])
     | Inr bs \<Rightarrow> (Inr \<lparr>pr_key = KBinary [], pr_inserted = True, pr_value_bytes = length bs\<rparr>, u, g', ScString [])) \<and>
    undo_stack u \<noteq> [] \<and> kg_save_stack g' = kg_save_stack g"
proof (cases "encode_scf lim int_bytes (ScString [])")
  case (Inl e)
  have "undo_stack demo_indexed \<noteq> []" by (simp add: demo_indexed_def set_pending_index_def push_undo_def demo_open_def)
  then show ?thesis
    using Inl by (intro exI [of _ demo_indexed] exI [of _ g])
      (simp add: os_put_def demo_determined demo_put_record [OF assms] Let_def)
next
  case (Inr bs)
  let ?u = "set_pending (2, [TAG_BINARY, 0, 0]) (Some bs) demo_indexed"
  let ?g = "kg_possibly_update g (f64_of_int 0)"
  have set: "\<exists>u. mt_key_gen_set storage_default ?u 2 x = (Inr (), u) \<and> undo_stack u \<noteq> []" for x
    by (simp add: mt_key_gen_set_def check_readwrite_def demo_indexed_def set_pending_index_def set_pending_def
        push_undo_def demo_open_def demo_begun_def mt_new_def Let_def)
  obtain u where "mt_key_gen_set storage_default ?u 2 (kg_current ?g) = (Inr (), u)" "undo_stack u \<noteq> []"
    using set by blast
  moreover have "st_id demo_store = 2" by (simp add: demo_store_def)
  ultimately show ?thesis
    using Inr by (intro exI [of _ u] exI [of _ ?g])
      (simp add: os_put_def demo_determined demo_put_record [OF assms] Let_def kg_possibly_update_def)
qed

lemma demo_inner:
  assumes "lim = default_limits\<lparr>max_value_len := n\<rparr>"
  shows "\<exists>d h u. execute_op_inner (mem_backend storage_default) lim int_bytes 7 8 demo_put
      (demo_driver\<lparr>dr_txns := [7 \<mapsto> demo_handle\<lparr>th_backend := Some demo_open\<rparr>]\<rparr>) =
    Some (case encode_scf lim int_bytes (ScString []) of
       Inl e \<Rightarrow> (Inl (Fails IdbDataClone), d) | Inr bs \<Rightarrow> (Inr (ExecOutcome (OutKey (KBinary []))), d)) \<and>
    dr_txns d 7 = Some h \<and> th_backend h = Some u \<and> undo_stack u \<noteq> [] \<and> (\<exists>g. th_keygens h = [(2, g)] \<and> kg_save_stack g \<noteq> [])"
proof -
  let ?g = "kg_begin_request (kg_new (mt_key_gen_current storage_default demo_open 2))"
  obtain u g' where put: "os_put (mem_backend storage_default) lim int_bytes demo_store (Some (KBinary [])) False
      (demo_open, ?g, ScString []) =
    (case encode_scf lim int_bytes (ScString []) of
       Inl e \<Rightarrow> (Inl (Fails IdbDataClone), u, g', ScString [])
     | Inr bs \<Rightarrow> (Inr \<lparr>pr_key = KBinary [], pr_inserted = True, pr_value_bytes = length bs\<rparr>, u, g', ScString []))"
    "undo_stack u \<noteq> []" "kg_save_stack g' = kg_save_stack ?g"
    using demo_os_put [OF assms, of ?g] by blast
  have "kg_save_stack g' \<noteq> []" using put(3) by (simp add: kg_begin_request_def)
  moreover have store: "find_store demo_schema 2 = Inr demo_store" "st_id demo_store = 2"
    by (simp_all add: find_store_def demo_schema_def demo_store_def)
  ultimately show ?thesis
    using put(1,2)
    by (cases "encode_scf lim int_bytes (ScString [])")
      (simp_all add: execute_op_inner_def demo_put_def demo_driver_def demo_handle_def store put_through_def
        backend_of_def Let_def with_handle_def set_keygen_def add_bytes_written_def)
qed

lemma demo_run:
  assumes "lim = default_limits\<lparr>max_value_len := n\<rparr>"
  obtains d where "execute_op (mem_backend storage_default) lim int_bytes 7 8 demo_put demo_driver =
    Some (case encode_scf lim int_bytes (ScString []) of
       Inl e \<Rightarrow> (Inl (Fails IdbDataClone), d) | Inr bs \<Rightarrow> (Inr (ExecOutcome (OutKey (KBinary []))), d))"
proof -
  obtain d h u g where inner: "execute_op_inner (mem_backend storage_default) lim int_bytes 7 8 demo_put
      (demo_driver\<lparr>dr_txns := [7 \<mapsto> demo_handle\<lparr>th_backend := Some demo_open\<rparr>]\<rparr>) =
    Some (case encode_scf lim int_bytes (ScString []) of
       Inl e \<Rightarrow> (Inl (Fails IdbDataClone), d) | Inr bs \<Rightarrow> (Inr (ExecOutcome (OutKey (KBinary []))), d))"
    and d: "dr_txns d 7 = Some h" "th_backend h = Some u" "undo_stack u \<noteq> []" "th_keygens h = [(2, g)]"
      "kg_save_stack g \<noteq> []"
    using demo_inner [OF assms] by blast
  have closed: "\<exists>d'. close_savepoints (mem_backend storage_default) 7 b d = (Inr (), d')" for b
    using d by (auto simp: close_savepoints_def mt_commit_request_def kg_commit_request_def Let_def)
  then obtain d1 d2 where c: "close_savepoints (mem_backend storage_default) 7 True d = (Inr (), d1)"
    "close_savepoints (mem_backend storage_default) 7 False d = (Inr (), d2)" by blast
  show ?thesis
    by (rule that [of "if is_ok (encode_scf lim int_bytes (ScString [])) then d1 else d2"])
      (use inner c in \<open>simp add: execute_op_def demo_opened split: sum.split\<close>)
qed

section \<open>Properties\<close>

text \<open>C1. A request that fails leaves nothing behind: the records, the index entries and the generator
  values that the transaction shows are those it showed before, however far the operation had come,
  and so are the generators of the handle, to which one may have been added. It holds for every
  operation the driver runs, over every committed state.\<close>

theorem request_failure_atomic:
  assumes "dr_txns d i = Some h" "th_backend h = Some t" "distinct (map fst (th_keygens h))"
    and "execute_op (mem_backend s) lim Bg i request_id op d = Some (Inl f, d')" "f \<noteq> Panics"
  shows "\<exists>h' t' new. dr_txns d' i = Some h' \<and> th_backend h' = Some t' \<and> view s t' = view s t \<and>
    index_view s t' = index_view s t \<and> mt_key_gen_current s t' = mt_key_gen_current s t \<and>
    th_keygens h' = th_keygens h @ new"
  using mem.execute_op_failure [OF assms] unfolding mem.kept_def mem.same_shown_def by blast

theorem request_failure_atomic_witness:
  "\<exists>d' h' t'. execute_op (mem_backend storage_default) (default_limits\<lparr>max_value_len := 0\<rparr>) int_bytes 7 8 demo_put
       demo_driver = Some (Inl (Fails IdbDataClone), d') \<and>
     dr_txns d' 7 = Some h' \<and> th_backend h' = Some t' \<and>
     view storage_default t' = view storage_default demo_begun \<and>
     index_view storage_default t' = index_view storage_default demo_begun"
proof -
  obtain e where "encode_scf (default_limits\<lparr>max_value_len := 0\<rparr>) int_bytes (ScString []) = Inl e"
    by (rule demo_unencoded)
  then obtain d' where run: "execute_op (mem_backend storage_default) (default_limits\<lparr>max_value_len := 0\<rparr>) int_bytes 7 8
      demo_put demo_driver = Some (Inl (Fails IdbDataClone), d')"
    using demo_run [OF refl, of 0] by auto
  have "dr_txns demo_driver 7 = Some demo_handle" "th_backend demo_handle = Some demo_begun"
    "distinct (map fst (th_keygens demo_handle))"
    by (simp_all add: demo_driver_def demo_handle_def)
  from request_failure_atomic [OF this run] show ?thesis using run by blast
qed

text \<open>C2. A request that succeeds keeps the indexes true to the records: if, before it, the entries of every
  live index of the transaction's stores are exactly the keys its records derive, with no duplicate
  in a unique index, then so they are after it. The stores and indexes have distinct identifiers,
  and the value to be stored reads back as it was encoded.\<close>

theorem request_keeps_indexes:
  assumes "dr_txns d i = Some h" "th_backend h = Some t" "distinct (map fst (th_keygens h))"
    and "schema_ids_ok (th_meta h)" "all_agree lim Bg (th_meta h) (view s t) (index_view s t)"
    and "execute_op (mem_backend s) lim Bg i request_id op d = Some (Inr x, d')"
    and "op_reads_back lim Bg (th_meta h) op"
  shows "\<exists>h' t'. dr_txns d' i = Some h' \<and> th_backend h' = Some t' \<and> th_meta h' = th_meta h \<and>
    all_agree lim Bg (th_meta h) (view s t') (index_view s t')"
  using mem.execute_op_success [OF assms(1-4) _ assms(6,7)] assms(5)
  unfolding mem.advanced_to_def mem.agrees_def by blast

theorem request_keeps_indexes_witness:
  "\<exists>d' h' t'. execute_op (mem_backend storage_default) default_limits int_bytes 7 8 demo_put demo_driver =
       Some (Inr (ExecOutcome (OutKey (KBinary []))), d') \<and>
     dr_txns d' 7 = Some h' \<and> th_backend h' = Some t' \<and>
     all_agree default_limits int_bytes demo_schema (view storage_default t') (index_view storage_default t')"
proof -
  obtain bs where bs: "encode_scf default_limits int_bytes (ScString []) = Inr bs"
    "decode_scf default_limits int_bytes bs = Inr (ScString [])" by (rule demo_encoded)
  have lim: "default_limits = default_limits\<lparr>max_value_len := max_value_len default_limits\<rparr>" by simp
  obtain d' where run: "execute_op (mem_backend storage_default) default_limits int_bytes 7 8 demo_put demo_driver =
      Some (Inr (ExecOutcome (OutKey (KBinary []))), d')"
    using demo_run [OF lim] bs(1) by auto
  have h: "dr_txns demo_driver 7 = Some demo_handle" "th_backend demo_handle = Some demo_begun"
    "distinct (map fst (th_keygens demo_handle))" "th_meta demo_handle = demo_schema"
    by (simp_all add: demo_driver_def demo_handle_def)
  have ids: "schema_ids_ok (th_meta demo_handle)"
    by (simp add: h(4) schema_ids_ok_def demo_schema_def demo_store_def)
  have agree: "all_agree default_limits int_bytes (th_meta demo_handle) (view storage_default demo_begun)
      (index_view storage_default demo_begun)"
    by (simp add: h(4) all_agree_def indexes_agree_def index_agrees_def unique_index_def view_def index_view_def
        read_record_def index_entry_exists_def storage_default_def demo_begun_def mt_new_def)
  have "snd (snd (determine_key demo_store k g (ScString [] :: int scvalue))) = ScString []" for k g
    by (simp add: determine_key_def demo_store_def generate_number_def split: option.split sum.split prod.split)
  then have intact: "op_reads_back default_limits int_bytes (th_meta demo_handle) demo_put"
    using bs by (simp add: op_reads_back_def demo_put_def h(4) demo_schema_def reads_back_def)
  show ?thesis
    using request_keeps_indexes [OF h(1-3) ids agree run intact] run by (auto simp: h(4))
qed

text \<open>C14. Every request returns: whatever the operation, the state of the driver and the records, no scan
  and no cursor walk of \<open>execute_op\<close> goes on for ever.\<close>

theorem request_returns: "\<exists>r d'. execute_op (mem_backend s) lim Bg i request_id op d = Some (r, d')"
  using mem.execute_op_returns [of s lim Bg i request_id op d] by auto

text \<open>C8. \<open>put\<close> as a function of what the transaction shows. Where it succeeds, it has stored the encoding
  of the value, with a generated key injected where there was one to inject, under the encoded key,
  and nothing else has changed in the records; the result says whether the key was new, which
  \<open>add\<close> requires; the entries of the store's live indexes are those of its records and the entries of
  all other indexes are untouched; and the generator of the store has been written back.\<close>

theorem store_put:
  assumes "os_put (mem_backend s) lim Bg meta explicit_key no_overwrite (t, g, v) = (Inr r, t', g', v')"
    and "distinct (map ix_id (st_indexes meta))" "indexes_agree lim Bg meta (view s t) (index_view s t)"
    and "reads_back lim Bg v'"
  shows "\<exists>k bs. encode_key_vec lim (pr_key r) = Inr k \<and> encode_scf lim Bg v' = Inr bs \<and>
    view s t' = (view s t)((st_id meta, k) \<mapsto> bs) \<and> pr_value_bytes r = length bs \<and>
    (pr_inserted r \<longleftrightarrow> view s t (st_id meta, k) = None) \<and> (no_overwrite \<longrightarrow> pr_inserted r) \<and>
    indexes_agree lim Bg meta (view s t') (index_view s t') \<and>
    (\<forall>j ik q. j \<notin> ix_id ` live_indexes meta \<longrightarrow> ((j, ik, q) \<in> index_view s t' \<longleftrightarrow> (j, ik, q) \<in> index_view s t)) \<and>
    mt_key_gen_current s t' = (mt_key_gen_current s t)(st_id meta := kg_current g')"
proof (rule mem.os_put_effect [OF assms])
  fix k bs
  assume "encode_key_vec lim (pr_key r) = Inr k" "encode_scf lim Bg v' = Inr bs"
    "view s t' = (view s t)((st_id meta, k) \<mapsto> bs)"
    "mt_key_gen_current s t' = (mt_key_gen_current s t)(st_id meta := kg_current g')"
    "indexes_agree lim Bg meta (view s t') (index_view s t')"
    "pr_inserted r = (view s t (st_id meta, k) = None)" "no_overwrite \<longrightarrow> pr_inserted r" "pr_value_bytes r = length bs"
    "\<forall>j ik q. j \<notin> ix_id ` live_indexes meta \<longrightarrow> ((j, ik, q) \<in> index_view s t') = ((j, ik, q) \<in> index_view s t)"
  then show ?thesis by (intro exI [of _ k] exI [of _ bs] conjI)
qed

theorem store_put_witness:
  "\<exists>r t' g' bs. os_put (mem_backend storage_default) default_limits int_bytes demo_store (Some (KBinary [])) False
      (demo_open, kg_new f64_zero, ScString []) = (Inr r, t', g', ScString []) \<and>
    view storage_default t' = [(2, [TAG_BINARY, 0, 0]) \<mapsto> bs] \<and> pr_inserted r"
proof -
  obtain bs where bs: "encode_scf default_limits int_bytes (ScString []) = Inr bs"
    "decode_scf default_limits int_bytes bs = Inr (ScString [])" by (rule demo_encoded)
  have lim: "default_limits = default_limits\<lparr>max_value_len := max_value_len default_limits\<rparr>" by simp
  obtain u g' where put: "os_put (mem_backend storage_default) default_limits int_bytes demo_store (Some (KBinary []))
      False (demo_open, kg_new f64_zero, ScString []) =
      (Inr \<lparr>pr_key = KBinary [], pr_inserted = True, pr_value_bytes = length bs\<rparr>, u, g', ScString [])"
    using demo_os_put [OF lim, of "kg_new f64_zero"] bs(1) by auto
  have empty: "view storage_default demo_open = Map.empty" "index_view storage_default demo_open = {}"
    by (simp_all add: fun_eq_iff view_def index_view_def read_record_def index_entry_exists_def storage_default_def
        demo_open_def demo_begun_def mt_new_def)
  have "indexes_agree default_limits int_bytes demo_store (view storage_default demo_open) (index_view storage_default demo_open)"
    by (simp add: empty indexes_agree_def index_agrees_def unique_index_def)
  moreover have "distinct (map ix_id (st_indexes demo_store))" "st_id demo_store = 2" by (simp_all add: demo_store_def)
  moreover have "reads_back default_limits int_bytes (ScString [])" using bs by (simp add: reads_back_def)
  moreover have "encode_key_vec default_limits (KBinary []) = Inr [TAG_BINARY, 0, 0]"
    by (subst lim) (rule demo_keys)
  ultimately have "\<exists>bs. view storage_default u = [(2, [TAG_BINARY, 0, 0]) \<mapsto> bs]"
    using store_put [OF put] by (auto simp: empty)
  then show ?thesis using put by auto
qed

text \<open>C13. Reading a store returns what it holds: \<open>getKey\<close> its first key of the range, \<open>getAllKeys\<close> all of
  them up to the limit, and an ascending cursor one row for each, in the order of the keys, with the
  value the record has unless it is a key cursor. A key or value that does not decode makes
  the whole request fail.\<close>

theorem store_reads:
  assumes "check_scope t store = Inr ()" "to_encoded lim rng = Inr er"
  shows "first_key (mem_backend s) lim t (SrcStore store) rng =
      (case keys_in (view s t) store er of [] \<Rightarrow> Inr None | k # _ \<Rightarrow> rbind (decode_key_at k) (\<lambda>key. Inr (Some key))) \<and>
    collect_keys (mem_backend s) lim t (SrcStore store) rng limit =
      Some (traverse decode_key_at (rows_within limit 0 (keys_in (view s t) store er))) \<and>
    materialize (mem_backend s) lim Bg t (SrcStore store) rng Next key_only =
      Some (rbind (traverse (stored_row lim Bg (view s t) store key_only) (keys_in (view s t) store er))
        (\<lambda>rows. Inr (map fst rows, fold (\<lambda>(_, n) read. usize_add read n) rows 0)))"
proof -
  have scan: "bk_scan (mem_backend s) t (SrcStore store) er Next b = Inr (mc_open_store store er Next b)" for b
    using assms(1) by (simp add: mt_scan_def)
  show ?thesis
    using mem.first_key_store [OF assms(2) scan] mem.collect_keys_store [OF assms(2) scan]
      mem.materialize_store [OF assms(2) scan] by simp
qed

theorem store_reads_witness:
  "collect_keys (mem_backend storage_default) default_limits
     (set_pending (2, [TAG_BINARY, 0, 0]) (Some [9]) demo_begun) (SrcStore 2) RangeAll None = Some (Inr [KBinary []])"
proof -
  let ?t = "set_pending (2, [TAG_BINARY, 0, 0]) (Some [9]) demo_begun"
  have "view storage_default demo_begun = Map.empty"
    by (simp add: fun_eq_iff view_def read_record_def storage_default_def demo_begun_def mt_new_def)
  then have "view storage_default ?t = [(2, [TAG_BINARY, 0, 0]) \<mapsto> [9]]" by simp
  then have "{k. view storage_default ?t (2, k) \<noteq> None \<and> contains range_all k} = {[TAG_BINARY, 0, 0]}"
    by auto
  then have keys: "keys_in (view storage_default ?t) 2 range_all = [[TAG_BINARY, 0, 0]]" by (simp add: keys_in_def)
  have scope: "check_scope ?t 2 = Inr ()"
    by (simp add: check_scope_def set_pending_def push_undo_def demo_begun_def mt_new_def)
  have "decode_key_at [TAG_BINARY, 0, 0] = Inr (KBinary [])"
    by (simp add: decode_key_at_def decode_key_def decode_key_internal.simps MAX_KEY_DECODE_DEPTH_def key_tags
        decode_binary_escaped_def)
  then show ?thesis
    using store_reads [OF scope, of default_limits RangeAll range_all storage_default None int_bytes False, THEN conjunct2, THEN conjunct1]
    by (simp only: to_encoded.simps keys rows_within_all) simp
qed

text \<open>C22. \<open>continue(key)\<close> and \<open>continuePrimaryKey(key, primaryKey)\<close> move a cursor to the first row after the
  current one that has fits the target in the direction of the cursor, and exhaust it exactly
  if there is none; the rows stay as they are.\<close>

theorem continue_lands:
  assumes "apply_cursor_action action c = (found, c')"
    and "action = ActContinue (Some target) \<and>
        fits = (\<lambda>row. compare_keys (rw_key row) target \<noteq> (if is_prev (cu_direction c) then Greater else Less)) \<or>
      action = ActContinuePrimaryKey target primary \<and>
        fits = (\<lambda>row. compare_keys (rw_key row) target = (if is_prev (cu_direction c) then Less else Greater) \<or>
          compare_keys (rw_key row) target = Equal \<and>
          compare_keys (rw_primary_key row) primary \<noteq> (if is_prev (cu_direction c) then Greater else Less))"
  shows "cu_rows c' = cu_rows c \<and>
    (found \<longleftrightarrow> (\<exists>j < length (cu_rows c). cu_pos c < j \<and> fits (cu_rows c ! j))) \<and>
    (found \<longrightarrow> cu_pos c' = (LEAST j. j < length (cu_rows c) \<and> cu_pos c < j \<and> fits (cu_rows c ! j))) \<and>
    cu_current c' = (if found then Some (cu_rows c ! cu_pos c') else None)"
proof -
  have c': "c' = seek_row fits c" and found: "found \<longleftrightarrow> cu_pos c' < length (cu_rows c')"
    using assms by (auto simp: apply_cursor_action_def cursor_seek_key_next_def cursor_seek_key_prev_def
        cursor_seek_key_primary_def Let_def)
  have p: "cu_rows c' = cu_rows c" "cu_pos c' \<le> length (cu_rows c)"
    "cu_pos c' < length (cu_rows c) \<Longrightarrow> cu_pos c < cu_pos c' \<and> fits (cu_rows c ! cu_pos c')"
    "\<And>i. cu_pos c < i \<Longrightarrow> i < cu_pos c' \<Longrightarrow> \<not> fits (cu_rows c ! i)"
    using seek_row_pos [OF c' [symmetric]] by auto
  have least: "cu_pos c' = (LEAST j. j < length (cu_rows c) \<and> cu_pos c < j \<and> fits (cu_rows c ! j))" if found
    by (rule Least_equality [symmetric]) (use p that found in \<open>auto simp: not_less [symmetric]\<close>)
  have "found \<longleftrightarrow> (\<exists>j < length (cu_rows c). cu_pos c < j \<and> fits (cu_rows c ! j))"
    using p found by (metis le_neq_implies_less nat_neq_iff)
  then show ?thesis using p(1) found least unfolding cu_current_def by auto
qed

theorem continue_lands_witness:
  "let row = (\<lambda>n. \<lparr>rw_key = KBinary [n], rw_primary_key = KBinary [n], rw_value = None :: int scvalue option\<rparr>);
       c = \<lparr>cu_cursor_id = 1, cu_txn_id = 7, cu_request_id = 8, cu_source = SrcStore 2, cu_direction = Next,
            cu_key_only = True, cu_rows = [row 1, row 3, row 5], cu_pos = 0, cu_pending = False\<rparr>
   in cu_current (snd (apply_cursor_action (ActContinue (Some (KBinary [4]))) c)) = Some (row 5)"
proof -
  define row :: "u8 \<Rightarrow> int row" where "row = (\<lambda>n. \<lparr>rw_key = KBinary [n], rw_primary_key = KBinary [n], rw_value = None\<rparr>)"
  define c :: "int cursor_state" where
    "c = \<lparr>cu_cursor_id = 1, cu_txn_id = 7, cu_request_id = 8, cu_source = SrcStore 2, cu_direction = Next,
          cu_key_only = True, cu_rows = [row 1, row 3, row 5], cu_pos = 0, cu_pending = False\<rparr>"
  let ?at = "\<lambda>r. compare_keys (rw_key r) (KBinary [4]) \<noteq> Less"
  have at: "?at (row n) \<longleftrightarrow> 4 \<le> n" for n
    by (auto simp: row_def compare_keys.simps cmp_def not_less)
  obtain found c' where run: "apply_cursor_action (ActContinue (Some (KBinary [4]))) c = (found, c')" by fastforce
  have "(LEAST j. j < length (cu_rows c) \<and> cu_pos c < j \<and> ?at (cu_rows c ! j)) = 2"
    by (rule Least_equality) (auto simp: c_def at less_Suc_eq nth_Cons split: nat.splits)
  moreover have "\<exists>j < length (cu_rows c). cu_pos c < j \<and> ?at (cu_rows c ! j)"
    by (rule exI [of _ 2]) (simp add: c_def at)
  ultimately have "cu_current c' = Some (row 5)"
    using continue_lands [OF run, of "KBinary [4]" ?at "KBinary []"] by (simp add: c_def)
  then have "cu_current (snd (apply_cursor_action (ActContinue (Some (KBinary [4]))) c)) = Some (row 5)"
    by (simp add: run)
  then show ?thesis unfolding c_def row_def Let_def .
qed

text \<open>A cursor update whose value has no in-line key is not refused: in a store with a key generator the
  put gets no explicit key and stores the value under a new one.\<close>

lemma update_without_key:
  assumes "cursor_row_of d cid = Inr (store, pkey)" "find_store meta store = Inr m" "st_key_path m \<noteq> PathEmpty"
    and "kp_extract (st_key_path m) v = Inr None" "st_auto_increment m"
    and "kg_generate g = (Inr n, g')" "inject (st_key_path m) v (KNumber n) = (Inr (), v')"
  shows "update_target meta cid v d = Inr (m, None) \<and> determine_key m None g v = (Inr (KNumber n), g', v')"
  using assms by (simp add: update_target_def determine_key_def generate_number_def)

end
