(* ===== verification/Memory_Schema.thy ===== *)
theory Memory_Schema
  imports Memory_Requests
begin

text \<open>
  The schema operations of the driver over the in-memory backend: a created index agrees with the
  records that were there before it, and what a failed \<open>createIndex\<close> leaves behind.
\<close>

section \<open>A small upgrade\<close>

definition upgrade_schema :: database_meta where
  "upgrade_schema = (fresh_meta [100])\<lparr>db_stores := [demo_store\<lparr>st_indexes := []\<rparr>], db_next_index_id := 5\<rparr>"

definition upgrade_txn :: "(bytes \<times> bytes) list \<Rightarrow> memory_txn" where
  "upgrade_txn rows = fold (\<lambda>(k, v). set_pending (2, k) (Some v)) rows (mt_new VersionChange [] upgrade_schema)"

definition upgrade_handle_of :: "memory_txn \<Rightarrow> memory_txn txn_handle" where
  "upgrade_handle_of t =
     demo_handle\<lparr>th_mode := VersionChange, th_meta := upgrade_schema, th_backend := Some t\<rparr>"

definition upgrade_driver :: "memory_txn \<Rightarrow> (memory_txn, int) driver" where
  "upgrade_driver t = demo_driver\<lparr>dr_txns := [7 \<mapsto> upgrade_handle_of t]\<rparr>"

definition upgrade_spec :: index_spec where
  "upgrade_spec = \<lparr>isp_name = [105], isp_key_path = PathSingle [], isp_unique = True, isp_multi_entry = False\<rparr>"

lemma upgrade_txn_fields [simp]:
  "mt_mode (upgrade_txn rows) = VersionChange" "mt_meta (upgrade_txn rows) = upgrade_schema"
  "pending_index_entries (upgrade_txn rows) = bt_empty"
proof -
  have "mt_mode (fold (\<lambda>(k, v). set_pending (2, k) (Some v)) rows t) = mt_mode t \<and>
      mt_meta (fold (\<lambda>(k, v). set_pending (2, k) (Some v)) rows t) = mt_meta t \<and>
      pending_index_entries (fold (\<lambda>(k, v). set_pending (2, k) (Some v)) rows t) = pending_index_entries t" for t
    by (induction rows arbitrary: t) (auto simp: set_pending_def push_undo_def)
  then show "mt_mode (upgrade_txn rows) = VersionChange" "mt_meta (upgrade_txn rows) = upgrade_schema"
    "pending_index_entries (upgrade_txn rows) = bt_empty"
    by (simp_all add: upgrade_txn_def mt_new_def)
qed

definition upgrade_made :: "(bytes \<times> bytes) list \<Rightarrow> memory_txn" where
  "upgrade_made rows = snd (mt_create_index (upgrade_txn rows) 2 upgrade_spec)"

lemma upgrade_made: "mt_create_index (upgrade_txn rows) 2 upgrade_spec = (Inr 5, upgrade_made rows)"
  by (simp add: upgrade_made_def mt_create_index_def Let_def upgrade_schema_def)

lemma upgrade_made_fields [simp]:
  "mt_mode (upgrade_made rows) = VersionChange" "pending_index_entries (upgrade_made rows) = bt_empty"
  "view s (upgrade_made rows) = view s (upgrade_txn rows)"
  by (simp_all add: upgrade_made_def mt_create_index_def Let_def update_store_def view_def read_record_def fun_eq_iff)

lemma view_new: "view storage_default (mt_new mode scope meta) k = None"
  by (simp add: view_def read_record_def storage_default_def mt_new_def)

lemma upgrade_view:
  "view storage_default (upgrade_txn []) = Map.empty"
  "view storage_default (upgrade_txn (rows @ [(k, v)])) = (view storage_default (upgrade_txn rows))((2, k) \<mapsto> v)"
  by (simp_all add: upgrade_txn_def fun_eq_iff view_new)

lemma upgrade_run:
  assumes "backfill_index (mem_backend storage_default) default_limits int_bytes 2 5 (PathSingle []) False True
    (upgrade_made rows) = Some (r, t2)"
  shows "(\<forall>f. r = Inl f \<longrightarrow> schema_create_index (mem_backend storage_default) default_limits int_bytes 7 [115] [105]
      (PathSingle []) True False (upgrade_driver (upgrade_txn rows)) = Some (Inl f, upgrade_driver t2)) \<and>
    (r = Inr () \<longrightarrow> (\<exists>x d'. schema_create_index (mem_backend storage_default) default_limits int_bytes 7 [115] [105]
      (PathSingle []) True False (upgrade_driver (upgrade_txn rows)) = Some (Inr x, d') \<and> ix_id x = 5))"
proof -
  have up: "upgrade_handle (upgrade_driver t) 7 = Inr (upgrade_handle_of t, t)" for t
    by (simp add: upgrade_handle_def upgrade_driver_def upgrade_handle_of_def demo_handle_def)
  have set: "set_backend 7 t' (upgrade_driver t) = upgrade_driver t'" for t t'
    by (simp add: set_backend_def with_handle_def upgrade_driver_def upgrade_handle_of_def)
  have names: "store_named [115] upgrade_schema = Inr (demo_store\<lparr>st_indexes := []\<rparr>)"
    "find_store upgrade_schema 2 = Inr (demo_store\<lparr>st_indexes := []\<rparr>)"
    "index_exists [105] (demo_store\<lparr>st_indexes := []\<rparr>) = False" "th_meta (upgrade_handle_of t) = upgrade_schema"
    "st_id (demo_store\<lparr>st_indexes := []\<rparr>) = 2" for t
    by (simp_all add: store_named_def find_store_def index_exists_def upgrade_schema_def demo_store_def upgrade_handle_of_def)
  have on: "on_backend 7 (\<lambda>t. on_err backend_err (mt_create_index t 2
      \<lparr>isp_name = [105], isp_key_path = PathSingle [], isp_unique = True, isp_multi_entry = False\<rparr>)) (upgrade_driver (upgrade_txn rows)) =
      (Inr 5, upgrade_driver (upgrade_made rows))"
    using upgrade_made [of rows] unfolding upgrade_spec_def by (simp add: on_backend_def up set on_err_def)
  show ?thesis
    using assms by (cases r) (auto simp: schema_create_index_def up names on Let_def set)
qed

text \<open>Two records with the same value.\<close>

definition demo_bytes :: bytes where
  "demo_bytes = (case encode_scf default_limits int_bytes (ScString []) of Inr bs \<Rightarrow> bs | Inl _ \<Rightarrow> [])"

lemma demo_bytes: "decode_scf default_limits int_bytes demo_bytes = Inr (ScString [])"
proof -
  obtain bs where "encode_scf default_limits int_bytes (ScString []) = Inr bs"
    "decode_scf default_limits int_bytes bs = Inr (ScString [])" by (rule demo_encoded)
  then show ?thesis by (simp add: demo_bytes_def)
qed

lemma twin_rows:
  assumes "keys_in (view storage_default (upgrade_txn rows)) 2 range_all = ks"
  shows "collect_store_rows (mem_backend storage_default) (upgrade_made rows) 2 =
    Some (Inr (map (\<lambda>k. (k, the (view storage_default (upgrade_txn rows) (2, k)))) ks))"
proof -
  have "bk_scan (mem_backend storage_default) (upgrade_made rows) (SrcStore 2) range_all Next False =
      Inr (mc_open_store 2 range_all Next False)"
    by (simp add: mt_scan_def check_scope_def)
  from mem_schema.collect_store_rows_eq [OF this] show ?thesis using assms by simp
qed

lemma sbind_unit: "(\<And>x s. f x s = (Inr (), s)) \<Longrightarrow> sbind r f = r" for r :: "('e + unit) \<times> 's"
  by (cases "fst r"; cases r) auto

lemma backfill_first:
  "backfill_row (mem_backend storage_default) default_limits int_bytes 5 (PathSingle []) False True (k, demo_bytes) t =
    oi_put (mem_backend storage_default) 5 [TAG_STRING, 0, 0] k True t"
proof -
  have lim: "default_limits = default_limits\<lparr>max_value_len := max_value_len default_limits\<rparr>" by simp
  have "encode_key_vec default_limits (KString []) = Inr [TAG_STRING, 0, 0]" by (subst lim) (rule demo_keys)
  then have "enc_key default_limits (KString []) = Inr [TAG_STRING, 0, 0]" by (simp add: enc_key_def)
  then show ?thesis by (simp add: backfill_row_def demo_bytes extract_single_path_def) (simp add: sbind_unit)
qed

text \<open>One record, and two that a unique index cannot tell apart.\<close>

definition indexed_one :: memory_txn where
  "indexed_one = set_pending_index (5, [TAG_STRING, 0, 0], [TAG_BINARY, 0, 0]) True
     (upgrade_made [([TAG_BINARY, 0, 0], demo_bytes)])"

lemma one_row:
  "backfill_index (mem_backend storage_default) default_limits int_bytes 2 5 (PathSingle []) False True
     (upgrade_made [([TAG_BINARY, 0, 0], demo_bytes)]) = Some (Inr (), indexed_one)"
proof -
  let ?rows = "[([TAG_BINARY, 0, 0], demo_bytes)]"
  have view: "view storage_default (upgrade_txn ?rows) = [(2, [TAG_BINARY, 0, 0]) \<mapsto> demo_bytes]"
    using upgrade_view(2) [of "[]"] upgrade_view(1) by simp
  have "{k. view storage_default (upgrade_txn ?rows) (2, k) \<noteq> None \<and> contains range_all k} = {[TAG_BINARY, 0, 0]}"
    by (auto simp: view)
  then have "keys_in (view storage_default (upgrade_txn ?rows)) 2 range_all = [[TAG_BINARY, 0, 0]]"
    by (simp add: keys_in_def)
  from twin_rows [OF this]
  have rows: "collect_store_rows (mem_backend storage_default) (upgrade_made ?rows) 2 =
      Some (Inr [([TAG_BINARY, 0, 0], demo_bytes)])"
    by (simp add: view)
  have "mt_index_put storage_default (upgrade_made ?rows) 5 [TAG_STRING, 0, 0] [TAG_BINARY, 0, 0] True = (Inr (), indexed_one)"
    by (simp add: mt_index_put_def check_readwrite_def index_entry_exists_def find_index_entries_def storage_default_def
        bt_keys_def bt_empty.rep_eq indexed_one_def Let_def)
  then show ?thesis by (simp add: backfill_index_def rows backfill_first oi_put_def on_err_def)
qed

definition indexed_two :: memory_txn where
  "indexed_two = set_pending_index (5, [TAG_STRING, 0, 0], [TAG_STRING, 0, 0]) True
     (upgrade_made [([TAG_STRING, 0, 0], demo_bytes), ([TAG_BINARY, 0, 0], demo_bytes)])"

lemma two_rows:
  "backfill_index (mem_backend storage_default) default_limits int_bytes 2 5 (PathSingle []) False True
     (upgrade_made [([TAG_STRING, 0, 0], demo_bytes), ([TAG_BINARY, 0, 0], demo_bytes)]) =
   Some (Inl (Fails IdbConstraint), indexed_two)"
proof -
  let ?rows = "[([TAG_STRING, 0, 0], demo_bytes), ([TAG_BINARY, 0, 0], demo_bytes)]"
  have less: "TAG_STRING < TAG_BINARY" by (simp add: key_tags)
  have view: "view storage_default (upgrade_txn ?rows) =
      [(2, [TAG_STRING, 0, 0]) \<mapsto> demo_bytes, (2, [TAG_BINARY, 0, 0]) \<mapsto> demo_bytes]"
    using upgrade_view(2) [of "[([TAG_STRING, 0, 0], demo_bytes)]"] upgrade_view(2) [of "[]"] upgrade_view(1) by simp
  have "{k. view storage_default (upgrade_txn ?rows) (2, k) \<noteq> None \<and> contains range_all k} =
      {[TAG_STRING, 0, 0], [TAG_BINARY, 0, 0]}"
    by (auto simp: view)
  then have "keys_in (view storage_default (upgrade_txn ?rows)) 2 range_all = [[TAG_STRING, 0, 0], [TAG_BINARY, 0, 0]]"
    using less by (simp add: keys_in_def sorted_list_of_set_insert_remove)
  from twin_rows [OF this]
  have rows: "collect_store_rows (mem_backend storage_default) (upgrade_made ?rows) 2 =
      Some (Inr [([TAG_STRING, 0, 0], demo_bytes), ([TAG_BINARY, 0, 0], demo_bytes)])"
    using less by (simp add: view)
  have fst_put: "mt_index_put storage_default (upgrade_made ?rows) 5 [TAG_STRING, 0, 0] [TAG_STRING, 0, 0] True = (Inr (), indexed_two)"
    by (simp add: mt_index_put_def check_readwrite_def index_entry_exists_def find_index_entries_def storage_default_def
        bt_keys_def bt_empty.rep_eq indexed_two_def Let_def)
  have pend: "pending_index_entries indexed_two = bt_insert (5, [TAG_STRING, 0, 0], [TAG_STRING, 0, 0]) True bt_empty"
    "mt_mode indexed_two = VersionChange"
    by (simp_all add: indexed_two_def set_pending_index_def push_undo_def Let_def)
  have snd_put: "mt_index_put storage_default indexed_two 5 [TAG_STRING, 0, 0] [TAG_BINARY, 0, 0] True = (Inl BeConstraint, indexed_two)"
    using less by (simp add: mt_index_put_def check_readwrite_def index_entry_exists_def find_index_entries_def
        storage_default_def bt_keys_def bt_empty.rep_eq bt_insert.rep_eq pend Let_def)
  show ?thesis by (simp add: backfill_index_def rows backfill_first oi_put_def on_err_def fst_put snd_put)
qed

section \<open>Properties\<close>

text \<open>A \<open>multiEntry\<close> index on \<open>length\<close>: the backfill finds a key in a string, what \<open>put\<close> derives is nothing.\<close>

lemma multi_entry_length_differs:
  assumes "decode_scf lim Bg bs = Inr (ScString u)" "ix_key_path index = PathSingle length_step" "ix_multi_entry index"
    and "encode_key_vec lim (KNumber (f64_of_int (int (length u)))) = Inr k"
  shows "backfilled_keys lim Bg index bs = {k}" "derived_keys lim Bg index bs = {}"
  using assms
  by (simp_all add: backfilled_keys_def derived_keys_def index_keys_for_value_def extract_single_path_def
      extract_multi_entry_def resolve_single_path_def is_length_step_def length_step_def)

text \<open>C9. \<open>createIndex\<close> over records that are already there. Where it succeeds, the entries of the new index
  are exactly the keys the backfill takes from those records, with no duplicate if it is unique, the
  records and generators are untouched and every index there was still agrees with its records. Under
  the schema that now has the index all indexes agree with what \<open>put\<close> would derive precisely if, for each
  record, that is what the backfill took; so it is for every index that is not \<open>multiEntry\<close>, while a
  \<open>multiEntry\<close> index can start out wrong. The new identifier is one that no index or entry has.\<close>

theorem create_index_agrees:
  assumes "dr_txns d i = Some h" "th_backend h = Some t"
    and "schema_create_index (mem_backend s) lim Bg i store_name name kp unique multi_entry d = Some (Inr x, d')"
    and "\<forall>ik pk. (ix_id x, ik, pk) \<notin> index_view s t"
    and "\<forall>store \<in> set (db_stores (th_meta h)). ix_id x \<notin> ix_id ` set (st_indexes store)"
    and "all_agree lim Bg (th_meta h) (view s t) (index_view s t)"
  shows "\<exists>h' t'. dr_txns d' i = Some h' \<and> th_backend h' = Some t' \<and> view s t' = view s t \<and>
    mt_key_gen_current s t' = mt_key_gen_current s t \<and>
    (\<forall>pk. {ik. (ix_id x, ik, pk) \<in> index_view s t'} =
       (case view s t (ix_store_id x, pk) of None \<Rightarrow> {} | Some bs \<Rightarrow> backfilled_keys lim Bg x bs)) \<and>
    (unique \<longrightarrow> unique_index (index_view s t') (ix_id x)) \<and>
    all_agree lim Bg (th_meta h) (view s t') (index_view s t') \<and>
    (all_agree lim Bg (th_meta h') (view s t') (index_view s t') \<longleftrightarrow>
       (\<forall>pk bs. view s t (ix_store_id x, pk) = Some bs \<longrightarrow> backfilled_keys lim Bg x bs = derived_keys lim Bg x bs)) \<and>
    (\<not> ix_multi_entry x \<longrightarrow> all_agree lim Bg (th_meta h') (view s t') (index_view s t'))"
proof -
  obtain h' t' where here: "dr_txns d' i = Some h'" "th_backend h' = Some t'" "view s t' = view s t"
    "mt_key_gen_current s t' = mt_key_gen_current s t"
    "\<forall>pk. {ik. (ix_id x, ik, pk) \<in> index_view s t'} =
       (case view s t (ix_store_id x, pk) of None \<Rightarrow> {} | Some bs \<Rightarrow> backfilled_keys lim Bg x bs)"
    "unique \<longrightarrow> unique_index (index_view s t') (ix_id x)"
    "all_agree lim Bg (th_meta h) (view s t') (index_view s t')"
    "all_agree lim Bg (th_meta h') (view s t') (index_view s t') \<longleftrightarrow>
       (\<forall>pk bs. view s t (ix_store_id x, pk) = Some bs \<longrightarrow> backfilled_keys lim Bg x bs = derived_keys lim Bg x bs)"
    using mem_schema.schema_create_index_fills [OF assms] by blast
  moreover have "\<not> ix_multi_entry x \<longrightarrow> all_agree lim Bg (th_meta h') (view s t') (index_view s t')"
    unfolding here(8) using backfilled_single [of x lim Bg] by blast
  ultimately show ?thesis by (intro exI [of _ h'] exI [of _ t'] conjI)
qed

lemma created_single:
  "schema_create_index B lim Bg i store_name name kp unique False d = Some (Inr x, d') \<Longrightarrow> \<not> ix_multi_entry x"
  by (auto simp: schema_create_index_def Let_def sbind_Inr split: sum.splits prod.splits if_splits)

theorem create_index_agrees_witness:
  "\<exists>x d' h' t'. schema_create_index (mem_backend storage_default) default_limits int_bytes 7 [115] [105] (PathSingle [])
       True False (upgrade_driver (upgrade_txn [([TAG_BINARY, 0, 0], demo_bytes)])) = Some (Inr x, d') \<and>
     dr_txns d' 7 = Some h' \<and> th_backend h' = Some t' \<and>
     all_agree default_limits int_bytes (th_meta h') (view storage_default t') (index_view storage_default t')"
proof -
  let ?t = "upgrade_txn [([TAG_BINARY, 0, 0], demo_bytes)]"
  obtain x d' where run: "schema_create_index (mem_backend storage_default) default_limits int_bytes 7 [115] [105]
      (PathSingle []) True False (upgrade_driver ?t) = Some (Inr x, d')" "ix_id x = 5"
    using upgrade_run [OF one_row] by blast
  have h: "dr_txns (upgrade_driver ?t) 7 = Some (upgrade_handle_of ?t)" "th_backend (upgrade_handle_of ?t) = Some ?t"
    "th_meta (upgrade_handle_of ?t) = upgrade_schema"
    by (simp_all add: upgrade_driver_def upgrade_handle_of_def)
  have fresh: "\<forall>ik pk. (ix_id x, ik, pk) \<notin> index_view storage_default ?t"
    by (simp add: index_view_def index_entry_exists_def storage_default_def)
  have new: "\<forall>store \<in> set (db_stores (th_meta (upgrade_handle_of ?t))). ix_id x \<notin> ix_id ` set (st_indexes store)"
    by (simp add: h(3) upgrade_schema_def)
  have agree: "all_agree default_limits int_bytes (th_meta (upgrade_handle_of ?t)) (view storage_default ?t)
      (index_view storage_default ?t)"
    by (simp add: h(3) all_agree_def indexes_agree_def live_indexes_def upgrade_schema_def)
  have single: "\<not> ix_multi_entry x" using run(1) by (rule created_single)
  show ?thesis using create_index_agrees [OF h(1,2) run(1) fresh new agree] run(1) single by blast
qed

lemma sbind_Inl: "sbind r f = (Inl e, s') \<longleftrightarrow> r = (Inl e, s') \<or> (\<exists>x s. r = (Inr x, s) \<and> f x s = (Inl e, s'))"
  by (cases "(r, f)" rule: sbind.cases) auto

lemma backfill_keys_meta: "mt_meta (snd (backfill_keys (mem_backend s) lim index unique pk ks seen t)) = mt_meta t"
proof (induction ks arbitrary: seen t)
  case (Cons k ks)
  have "mt_meta (snd (oi_put (mem_backend s) index ik pk unique t)) = mt_meta t" for ik t
    by (simp add: oi_put_def mt_index_put_def Let_def set_pending_index_def push_undo_def split: sum.split)
  then show ?case by (simp add: sbind_state Cons.IH split: sum.split)
qed simp

lemma backfill_meta:
  assumes "backfill_index (mem_backend s) lim Bg store index kp multi_entry unique t = Some (r, t')"
  shows "mt_meta t' = mt_meta t"
proof -
  have row: "mt_meta (snd (backfill_row (mem_backend s) lim Bg index kp multi_entry unique x t)) = mt_meta t" for x t
    by (simp add: backfill_row_def sbind_state backfill_keys_meta split: sum.split option.split)
  have "mt_meta (snd (for_each (backfill_row (mem_backend s) lim Bg index kp multi_entry unique) xs t)) = mt_meta t" for xs
    by (rule for_each_rel [where P = "\<lambda>t t'. mt_meta t' = mt_meta t"]) (simp_all add: row)
  then have "mt_meta (snd (sbind (z, t) (for_each (backfill_row (mem_backend s) lim Bg index kp multi_entry unique)))) = mt_meta t"
    for z by (simp add: sbind_state split: sum.split)
  then show ?thesis using assms by (auto simp: backfill_index_def) (metis snd_conv)
qed

text \<open>C23. A \<open>createIndex\<close> that fails after the arguments were found good, that is in an upgrade whose backend is
  one, on a store that exists, under a name that is free, and not \<open>multiEntry\<close> over an array of paths.
  The error is one of the backfill, such as two records that a unique index cannot hold. It is reported
  with the schema of the transaction as it was, but the metadata of the backend transaction keeps the
  index, which a commit of the upgrade would then make permanent.\<close>

theorem create_index_failure:
  assumes "upgrade_handle d i = Inr (h, t)" "mt_mode t = VersionChange"
    and "store_named store_name (th_meta h) = Inr st" "find_store (th_meta h) (st_id st) = Inr st'"
    and "\<not> index_exists name st'" "\<not> (multi_entry \<and> (\<exists>paths. kp = PathArray paths))"
    and "schema_create_index (mem_backend s) lim Bg i store_name name kp unique multi_entry d = Some (Inl f, d')"
  shows "\<exists>t'. dr_txns d' i = Some (h\<lparr>th_backend := Some t'\<rparr>) \<and>
    mt_meta t' = mt_meta (snd (mt_create_index t (st_id st)
      \<lparr>isp_name = name, isp_key_path = kp, isp_unique = unique, isp_multi_entry = multi_entry\<rparr>))"
proof -
  let ?spec = "\<lparr>isp_name = name, isp_key_path = kp, isp_unique = unique, isp_multi_entry = multi_entry\<rparr>"
  have h: "dr_txns d i = Some h" "th_backend h = Some t" "\<not> th_finished h" "th_mode h = VersionChange"
    using assms(1) by (auto simp: upgrade_handle_def split: option.splits if_splits)
  obtain j t1 where made: "mt_create_index t (st_id st) ?spec = (Inr j, t1)"
    using assms(2) by (simp add: mt_create_index_def Let_def)
  have on: "on_backend i (\<lambda>t. on_err backend_err (mt_create_index t (st_id st) ?spec)) d = (Inr j, set_backend i t1 d)"
    by (simp add: on_backend_def assms(1) made on_err_def)
  have up1: "upgrade_handle (set_backend i t1 d) i = Inr (h\<lparr>th_backend := Some t1\<rparr>, t1)"
    using h by (simp add: upgrade_handle_def set_backend_def with_handle_def)
  have nm: "\<not> (multi_entry \<and> (case kp of PathArray _ \<Rightarrow> True | _ \<Rightarrow> False))"
    using assms(6) by (auto split: key_path.splits)
  obtain t2 where fill: "backfill_index (mem_backend s) lim Bg (st_id st) j kp multi_entry unique t1 = Some (Inl f, t2)"
    "d' = set_backend i t2 (set_backend i t1 d)"
    using assms(1,3-5,7) nm on up1 by (auto simp: schema_create_index_def Let_def sbind_Inl)
  then show ?thesis
    using backfill_meta [OF fill(1)] fill(2) made h(1)
    by (intro exI [of _ t2]) (simp add: set_backend_def with_handle_def)
qed

theorem create_index_failure_witness:
  "\<exists>d' t'. schema_create_index (mem_backend storage_default) default_limits int_bytes 7 [115] [105] (PathSingle []) True
       False (upgrade_driver (upgrade_txn [([TAG_STRING, 0, 0], demo_bytes), ([TAG_BINARY, 0, 0], demo_bytes)])) =
       Some (Inl (Fails IdbConstraint), d') \<and>
     dr_txns d' 7 = Some (upgrade_handle_of t') \<and>
     map ix_id (concat (map st_indexes (db_stores (mt_meta t')))) = [5]"
proof -
  let ?t = "upgrade_txn [([TAG_STRING, 0, 0], demo_bytes), ([TAG_BINARY, 0, 0], demo_bytes)]"
  have run: "schema_create_index (mem_backend storage_default) default_limits int_bytes 7 [115] [105] (PathSingle []) True
      False (upgrade_driver ?t) = Some (Inl (Fails IdbConstraint), upgrade_driver indexed_two)"
    using upgrade_run [OF two_rows] by blast
  have h: "upgrade_handle (upgrade_driver ?t) 7 = Inr (upgrade_handle_of ?t, ?t)" "mt_mode ?t = VersionChange"
    "store_named [115] (th_meta (upgrade_handle_of ?t)) = Inr (demo_store\<lparr>st_indexes := []\<rparr>)"
    "find_store (th_meta (upgrade_handle_of ?t)) (st_id (demo_store\<lparr>st_indexes := []\<rparr>)) = Inr (demo_store\<lparr>st_indexes := []\<rparr>)"
    "\<not> index_exists [105] (demo_store\<lparr>st_indexes := []\<rparr>)"
    "\<not> (False \<and> (\<exists>paths. PathSingle [] = PathArray paths))"
    by (simp_all add: upgrade_handle_def upgrade_driver_def upgrade_handle_of_def demo_handle_def store_named_def
        find_store_def index_exists_def upgrade_schema_def demo_store_def)
  obtain t' where t': "dr_txns (upgrade_driver indexed_two) 7 = Some ((upgrade_handle_of ?t)\<lparr>th_backend := Some t'\<rparr>)"
    "mt_meta t' = mt_meta (snd (mt_create_index ?t (st_id (demo_store\<lparr>st_indexes := []\<rparr>))
      \<lparr>isp_name = [105], isp_key_path = PathSingle [], isp_unique = True, isp_multi_entry = False\<rparr>))"
    using create_index_failure [OF h run] by blast
  have "map ix_id (concat (map st_indexes (db_stores (mt_meta t')))) = [5]"
    by (simp add: t'(2) mt_create_index_def update_store_def Let_def upgrade_schema_def demo_store_def)
  moreover have "(upgrade_handle_of ?t)\<lparr>th_backend := Some t'\<rparr> = upgrade_handle_of t'"
    by (simp add: upgrade_handle_of_def)
  ultimately show ?thesis using run t'(1) by auto
qed

text \<open>A record whose value at the key path is no valid key makes the backfill fail, where storing the same
  record under an existing index skips it.\<close>

lemma backfill_refuses_invalid:
  assumes "decode_scf lim Bg bs = Inr v" "kp_extract (ix_key_path index) v = Inl e" "\<not> ix_multi_entry index"
  shows "backfill_row B lim Bg (ix_id index) (ix_key_path index) False unique (pk, bs) t = (Inl (key_err e), t) \<and>
    index_keys_for_value lim index v = Inr []"
  using assms by (simp add: backfill_row_def index_keys_for_value_def)

end
