(* ===== verification/Wal.thy ===== *)
theory Wal
  imports Proto Varint Crc32c
begin

text \<open>
  The write-ahead log of the filesystem backend, \<open>boa_idb_fs/src/wal.rs\<close>: operations, frames,
  their encoder and decoder. Readers take a slice and return the value with the rest of the
  slice. Store and index ids are natural numbers, written and read as the \<open>u64\<close> they are in the
  code; \<open>usize\<close> is 64 bits wide.
\<close>

definition WAL_MAGIC :: u32 where
  "WAL_MAGIC = word_of_nat (of_le_bytes [0x49, 0x57, 0x41, 0x4C])"

definition FLAG_CONTINUES :: u8 where "FLAG_CONTINUES = 0x01"
definition FLAG_COMMIT :: u8 where "FLAG_COMMIT = 0x02"

definition MAX_FRAME_PAYLOAD :: u32 where
  "MAX_FRAME_PAYLOAD = 64 * 1024 * 1024"

datatype wal_op =
  WalPut store_id bytes bytes
| WalDelete store_id bytes
| WalClear store_id
| WalIndexPut index_id bytes bytes
| WalIndexDelete index_id bytes bytes
| WalKeyGenSet store_id u64
| WalMetaReplace bytes

definition OP_PUT :: u8 where "OP_PUT = 1"
definition OP_DELETE :: u8 where "OP_DELETE = 2"
definition OP_CLEAR :: u8 where "OP_CLEAR = 3"
definition OP_INDEX_PUT :: u8 where "OP_INDEX_PUT = 4"
definition OP_INDEX_DELETE :: u8 where "OP_INDEX_DELETE = 5"
definition OP_KEY_GEN :: u8 where "OP_KEY_GEN = 6"
definition OP_META :: u8 where "OP_META = 7"

lemmas wal_tags = OP_PUT_def OP_DELETE_def OP_CLEAR_def OP_INDEX_PUT_def OP_INDEX_DELETE_def
  OP_KEY_GEN_def OP_META_def

record wal_frame =
  fr_txn_seq :: u64
  fr_flags :: u8
  fr_ops :: "wal_op list"

definition is_commit :: "wal_frame \<Rightarrow> bool" where
  "is_commit f = (fr_flags f AND FLAG_COMMIT \<noteq> 0)"

definition continues :: "wal_frame \<Rightarrow> bool" where
  "continues f = (fr_flags f AND FLAG_CONTINUES \<noteq> 0)"

datatype codec_error =
  CeTorn
| CeBadMagic u32
| CeBadCrc u32 u32
| CePayloadTooLarge nat
| CeMalformed string

section \<open>Varints and byte strings\<close>

function write_varint :: "bytes \<Rightarrow> u64 \<Rightarrow> bytes" where
  "write_varint out v =
     (let b = (ucast (v AND 0x7F) :: u8); v' = drop_bit 7 v in
      if v' \<noteq> 0 then write_varint (out @ [b OR 0x80]) v' else out @ [b])"
  by pat_completeness auto
termination write_varint
  by (relation "measure (\<lambda>(out, v). unat v)") (auto intro: shifted_less)

fun read_varint_loop :: "bytes \<Rightarrow> u64 \<Rightarrow> nat \<Rightarrow> codec_error + u64 \<times> bytes" where
  "read_varint_loop [] result shift = Inl (CeMalformed ''truncated varint'')"
| "read_varint_loop (b # rest) result shift =
     (if shift \<ge> 64 then Inl (CeMalformed ''varint overflow'')
      else
        let result' = result OR push_bit shift (ucast (b AND 0x7F)) in
        if b AND 0x80 = 0 then Inr (result', rest)
        else read_varint_loop rest result' (shift + 7))"

definition read_varint :: "bytes \<Rightarrow> codec_error + u64 \<times> bytes" where
  "read_varint input = read_varint_loop input 0 0"

definition write_bytes :: "bytes \<Rightarrow> bytes \<Rightarrow> bytes" where
  "write_bytes out bs = write_varint out (word_of_nat (length bs)) @ bs"

definition read_wal_bytes :: "bytes \<Rightarrow> codec_error + bytes \<times> bytes" where
  "read_wal_bytes input =
     rbind (read_varint input) (\<lambda>(len, rest).
       if length rest < unat len then Inl (CeMalformed ''truncated bytes'')
       else Inr (take (unat len) rest, drop (unat len) rest))"

section \<open>Operations\<close>

fun encode_op :: "bytes \<Rightarrow> wal_op \<Rightarrow> bytes" where
  "encode_op out (WalPut store key val) =
     write_bytes (write_bytes (write_varint (out @ [OP_PUT]) (word_of_nat store)) key) val"
| "encode_op out (WalDelete store key) =
     write_bytes (write_varint (out @ [OP_DELETE]) (word_of_nat store)) key"
| "encode_op out (WalClear store) = write_varint (out @ [OP_CLEAR]) (word_of_nat store)"
| "encode_op out (WalIndexPut index idx_key primary_key) =
     write_bytes (write_bytes (write_varint (out @ [OP_INDEX_PUT]) (word_of_nat index)) idx_key) primary_key"
| "encode_op out (WalIndexDelete index idx_key primary_key) =
     write_bytes (write_bytes (write_varint (out @ [OP_INDEX_DELETE]) (word_of_nat index)) idx_key) primary_key"
| "encode_op out (WalKeyGenSet store value_bits) =
     write_varint (out @ [OP_KEY_GEN]) (word_of_nat store) @ le_bytes 8 (unat value_bits)"
| "encode_op out (WalMetaReplace bs) = write_bytes (out @ [OP_META]) bs"

text \<open>The body of the loop of \<open>decode_ops\<close>: one operation and the rest of the payload.\<close>

definition decode_op :: "bytes \<Rightarrow> codec_error + wal_op \<times> bytes" where
  "decode_op payload =
     (case payload of
        [] \<Rightarrow> Inl (CeMalformed ''truncated ops'')
      | kind # payload \<Rightarrow>
          if kind = OP_PUT then
            rbind (read_varint payload) (\<lambda>(store, r).
            rbind (read_wal_bytes r) (\<lambda>(key, r).
            rbind (read_wal_bytes r) (\<lambda>(val, r). Inr (WalPut (unat store) key val, r))))
          else if kind = OP_DELETE then
            rbind (read_varint payload) (\<lambda>(store, r).
            rbind (read_wal_bytes r) (\<lambda>(key, r). Inr (WalDelete (unat store) key, r)))
          else if kind = OP_CLEAR then
            rbind (read_varint payload) (\<lambda>(store, r). Inr (WalClear (unat store), r))
          else if kind = OP_INDEX_PUT then
            rbind (read_varint payload) (\<lambda>(index, r).
            rbind (read_wal_bytes r) (\<lambda>(idx_key, r).
            rbind (read_wal_bytes r) (\<lambda>(primary_key, r).
              Inr (WalIndexPut (unat index) idx_key primary_key, r))))
          else if kind = OP_INDEX_DELETE then
            rbind (read_varint payload) (\<lambda>(index, r).
            rbind (read_wal_bytes r) (\<lambda>(idx_key, r).
            rbind (read_wal_bytes r) (\<lambda>(primary_key, r).
              Inr (WalIndexDelete (unat index) idx_key primary_key, r))))
          else if kind = OP_KEY_GEN then
            rbind (read_varint payload) (\<lambda>(store, r).
              if length r < 8 then Inl (CeMalformed ''keygen bits'')
              else Inr (WalKeyGenSet (unat store) (word_of_nat (of_le_bytes (take 8 r))), drop 8 r))
          else if kind = OP_META then
            rbind (read_wal_bytes payload) (\<lambda>(bs, r). Inr (WalMetaReplace bs, r))
          else Inl (CeMalformed ''unknown op kind''))"

fun decode_ops_loop :: "nat \<Rightarrow> wal_op list \<Rightarrow> bytes \<Rightarrow> codec_error + wal_op list \<times> bytes" where
  "decode_ops_loop 0 ops payload = Inr (ops, payload)"
| "decode_ops_loop (Suc n) ops payload =
     rbind (decode_op payload) (\<lambda>(op, r). decode_ops_loop n (ops @ [op]) r)"

definition decode_ops :: "bytes \<Rightarrow> codec_error + wal_op list" where
  "decode_ops payload =
     rbind (read_varint payload) (\<lambda>(count, rest).
     rbind (decode_ops_loop (unat count) [] rest) (\<lambda>(ops, payload).
       if payload \<noteq> [] then Inl (CeMalformed ''trailing payload bytes'') else Inr ops))"

section \<open>Frames\<close>

definition encode_payload :: "wal_op list \<Rightarrow> bytes" where
  "encode_payload ops = foldl encode_op (write_varint [] (word_of_nat (length ops))) ops"

definition payload_len :: "wal_op list \<Rightarrow> nat" where
  "payload_len ops = length (encode_payload ops)"

definition encode_frame_limited :: "wal_frame \<Rightarrow> u32 \<Rightarrow> codec_error + bytes" where
  "encode_frame_limited frame max_payload =
     (let payload = encode_payload (fr_ops frame) in
      if length payload > unat max_payload then Inl (CePayloadTooLarge (length payload))
      else
        let out = le_bytes 4 (unat WAL_MAGIC) @ le_bytes 4 (unat (word_of_nat (length payload) :: u32)) @
                  le_bytes 8 (unat (fr_txn_seq frame)) @ [fr_flags frame] @ payload
        in Inr (out @ le_bytes 4 (unat (crc32c out))))"

definition encode_frame :: "wal_frame \<Rightarrow> codec_error + bytes" where
  "encode_frame frame = encode_frame_limited frame MAX_FRAME_PAYLOAD"

text \<open>The little-endian \<open>u32\<close> at an offset of a slice.\<close>

definition u32_at :: "bytes \<Rightarrow> nat \<Rightarrow> u32" where
  "u32_at input off = word_of_nat (of_le_bytes (take 4 (drop off input)))"

definition decode_frame :: "bytes \<Rightarrow> codec_error + (wal_frame \<times> nat) option" where
  "decode_frame input =
     (if input = [] then Inr None
      else if length input < 4 + 4 + 8 + 1 + 4 then Inl CeTorn
      else
        let magic = u32_at input 0 in
        if magic \<noteq> WAL_MAGIC then Inl (CeBadMagic magic)
        else
          let len = u32_at input 4 in
          if len > MAX_FRAME_PAYLOAD then Inl (CePayloadTooLarge (unat len))
          else
            let header_and_payload = 4 + 4 + 8 + 1 + unat len; total = header_and_payload + 4 in
            if length input < total then Inl CeTorn
            else
              let body = take header_and_payload input;
                  expected = u32_at input header_and_payload;
                  actual = crc32c body in
              if expected \<noteq> actual then Inl (CeBadCrc expected actual)
              else
                rbind (decode_ops (drop 17 body)) (\<lambda>ops.
                  Inr (Some (\<lparr>fr_txn_seq = word_of_nat (of_le_bytes (take 8 (drop 8 input))),
                              fr_flags = input ! 16, fr_ops = ops\<rparr>, total))))"

section \<open>The encodings as pure functions\<close>

declare write_varint.simps [simp del]

named_theorems wal_bytes

lemma write_varint_append [wal_bytes]: "write_varint out v = out @ uvarint v"
proof (induction out v rule: write_varint.induct)
  case (1 out v)
  then show ?case
    by (subst write_varint.simps, subst uvarint_rec) (simp add: Let_def)
qed

definition sized :: "bytes \<Rightarrow> bytes" where
  "sized bs = uvarint (word_of_nat (length bs)) @ bs"

lemma write_bytes_append [wal_bytes]: "write_bytes out bs = out @ sized bs"
  by (simp add: write_bytes_def sized_def wal_bytes)

fun op_bytes :: "wal_op \<Rightarrow> bytes" where
  "op_bytes (WalPut store key val) = OP_PUT # uvarint (word_of_nat store) @ sized key @ sized val"
| "op_bytes (WalDelete store key) = OP_DELETE # uvarint (word_of_nat store) @ sized key"
| "op_bytes (WalClear store) = OP_CLEAR # uvarint (word_of_nat store)"
| "op_bytes (WalIndexPut index ik pk) = OP_INDEX_PUT # uvarint (word_of_nat index) @ sized ik @ sized pk"
| "op_bytes (WalIndexDelete index ik pk) = OP_INDEX_DELETE # uvarint (word_of_nat index) @ sized ik @ sized pk"
| "op_bytes (WalKeyGenSet store bits) = OP_KEY_GEN # uvarint (word_of_nat store) @ le_bytes 8 (unat bits)"
| "op_bytes (WalMetaReplace bs) = OP_META # sized bs"

lemma encode_op_append [wal_bytes]: "encode_op out op = out @ op_bytes op"
  by (cases op) (simp_all add: wal_bytes)

lemma op_bytes_ne [simp]: "op_bytes op \<noteq> []"
  by (cases op) simp_all

lemma foldl_encode_op: "foldl encode_op out ops = out @ concat (map op_bytes ops)"
  by (induction ops arbitrary: out) (simp_all add: wal_bytes)

lemma encode_payload_eq:
  "encode_payload ops = uvarint (word_of_nat (length ops)) @ concat (map op_bytes ops)"
  by (simp add: encode_payload_def foldl_encode_op wal_bytes)

definition frame_body :: "wal_frame \<Rightarrow> bytes" where
  "frame_body f = le_bytes 4 (unat WAL_MAGIC) @
     le_bytes 4 (unat (word_of_nat (payload_len (fr_ops f)) :: u32)) @
     le_bytes 8 (unat (fr_txn_seq f)) @ [fr_flags f] @ encode_payload (fr_ops f)"

definition frame_bytes :: "wal_frame \<Rightarrow> bytes" where
  "frame_bytes f = sealed (frame_body f)"

lemma encode_frame_limited_iff:
  "encode_frame_limited f max_payload =
     (if payload_len (fr_ops f) \<le> unat max_payload then Inr (frame_bytes f)
      else Inl (CePayloadTooLarge (payload_len (fr_ops f))))"
  by (simp add: encode_frame_limited_def frame_bytes_def sealed_def frame_body_def payload_len_def Let_def)

lemma length_frame_body [simp]: "length (frame_body f) = 17 + payload_len (fr_ops f)"
  by (simp add: frame_body_def payload_len_def)

lemma length_frame_bytes [simp]: "length (frame_bytes f) = 21 + payload_len (fr_ops f)"
  by (simp add: frame_bytes_def)

section \<open>Reading back\<close>

text \<open>Where the varint decoder of the structured-clone format accepts, so does the one of the log,
  with the same value and the same rest.\<close>

lemma read_varint_loop_decode:
  "decode_uvarint_loop bs off result shift = Inr (v, off') \<Longrightarrow> shift < 64 \<Longrightarrow>
   read_varint_loop (drop off bs) result shift = Inr (v, drop off' bs)"
proof (induction bs off result shift rule: decode_uvarint_loop.induct)
  case (1 bs off result shift)
  have lt: "off < length bs"
    using 1(2) by (subst (asm) decode_uvarint_loop.simps) (simp split: if_splits)
  then have d: "drop off bs = bs ! off # drop (Suc off) bs" by (simp add: Cons_nth_drop_Suc)
  let ?r = "result OR push_bit shift (ucast (bs ! off AND 0x7F))"
  show ?case
  proof (cases "bs ! off AND 0x80 = 0 \<or> 64 \<le> shift + 7")
    case True
    then show ?thesis
      using 1(2,3) lt unfolding d
      by (subst (asm) decode_uvarint_loop.simps) (auto simp: Let_def split: if_splits)
  next
    case False
    then have "decode_uvarint_loop bs (off + 1) ?r (shift + 7) = Inr (v, off')"
      using 1(2) lt by (subst (asm) decode_uvarint_loop.simps) (simp add: Let_def)
    then have "read_varint_loop (drop (off + 1) bs) ?r (shift + 7) = Inr (v, drop off' bs)"
      using 1(1) [OF _ refl refl] lt False by auto
    then show ?thesis using False 1(3) unfolding d by (simp add: Let_def)
  qed
qed

named_theorems wal_read

lemma read_varint_append [wal_read]: "read_varint (uvarint v @ rest) = Inr (v, rest)"
  using read_varint_loop_decode [of "uvarint v @ rest" 0 0 0] decode_uvarint_encode [of 0 "uvarint v @ rest" v rest]
  by (simp add: read_varint_def decode_uvarint_def)

lemma read_wal_bytes_append [wal_read]:
  "length bs < 2 ^ 64 \<Longrightarrow> read_wal_bytes (sized bs @ rest) = Inr (bs, rest)"
  by (simp add: read_wal_bytes_def sized_def wal_read)

fun op_ok :: "wal_op \<Rightarrow> bool" where
  "op_ok (WalPut store _ _) = (store < 2 ^ 64)"
| "op_ok (WalDelete store _) = (store < 2 ^ 64)"
| "op_ok (WalClear store) = (store < 2 ^ 64)"
| "op_ok (WalIndexPut index _ _) = (index < 2 ^ 64)"
| "op_ok (WalIndexDelete index _ _) = (index < 2 ^ 64)"
| "op_ok (WalKeyGenSet store _) = (store < 2 ^ 64)"
| "op_ok (WalMetaReplace _) = True"

lemma of_le_bytes_u64 [simp]: "word_of_nat (of_le_bytes (le_bytes 8 (unat (w :: u64)))) = w"
  by (simp add: of_le_bytes_le_bytes)

lemma of_le_bytes_u32 [simp]: "word_of_nat (of_le_bytes (le_bytes 4 (unat (w :: u32)))) = w"
  by (simp add: of_le_bytes_le_bytes)

lemma length_sized: "length (sized bs) = length (uvarint (word_of_nat (length bs))) + length bs"
  by (simp add: sized_def)

lemma decode_op_append [wal_read]:
  "op_ok op \<Longrightarrow> length (op_bytes op) < 2 ^ 64 \<Longrightarrow> decode_op (op_bytes op @ rest) = Inr (op, rest)"
  by (cases op) (simp_all add: decode_op_def wal_read wal_tags length_sized)

lemma decode_ops_loop_append:
  "list_all op_ok ops \<Longrightarrow> length (concat (map op_bytes ops)) < 2 ^ 64 \<Longrightarrow>
   decode_ops_loop (length ops) done (concat (map op_bytes ops) @ rest) = Inr (done @ ops, rest)"
  by (induction ops arbitrary: "done") (simp_all add: wal_read)

lemma length_ops_bytes: "length ops \<le> length (concat (map op_bytes ops))"
proof (induction ops)
  case (Cons op ops)
  have "0 < length (op_bytes op)" by simp
  with Cons show ?case by (simp del: length_greater_0_conv)
qed simp

lemma decode_ops_payload:
  assumes "list_all op_ok ops" "payload_len ops < 2 ^ 64"
  shows "decode_ops (encode_payload ops) = Inr ops"
proof -
  have len: "length (concat (map op_bytes ops)) < 2 ^ 64"
    using assms(2) by (simp add: payload_len_def encode_payload_eq)
  then have "length ops < 2 ^ 64" using length_ops_bytes [of ops] by linarith
  then show ?thesis
    using decode_ops_loop_append [OF assms(1) len, of "[]" "[]"]
    by (simp add: decode_ops_def encode_payload_eq wal_read)
qed

lemma u32_at_append: "length pre = off \<Longrightarrow> u32_at (pre @ le_bytes 4 (unat w) @ rest) off = w"
  by (simp add: u32_at_def)

definition frame_ok :: "wal_frame \<Rightarrow> bool" where
  "frame_ok f = (list_all op_ok (fr_ops f) \<and> payload_len (fr_ops f) \<le> unat MAX_FRAME_PAYLOAD)"

lemma decode_frame_append:
  assumes "frame_ok f"
  shows "decode_frame (frame_bytes f @ rest) = Inr (Some (f, length (frame_bytes f)))"
proof -
  let ?n = "payload_len (fr_ops f)"
  define input where "input = frame_bytes f @ rest"
  have le: "?n \<le> 67108864" using assms by (simp add: frame_ok_def MAX_FRAME_PAYLOAD_def)
  then have n: "unat (word_of_nat ?n :: u32) = ?n" by (simp add: unat_of_nat take_bit_nat_eq_self)
  have magic: "u32_at input 0 = WAL_MAGIC"
    unfolding input_def frame_bytes_def sealed_def frame_body_def by (simp add: u32_at_append [of "[]", simplified])
  have len: "u32_at input 4 = word_of_nat ?n"
    unfolding input_def frame_bytes_def sealed_def frame_body_def by (simp add: u32_at_def)
  have small: "\<not> word_of_nat ?n > MAX_FRAME_PAYLOAD"
    using le n by (simp add: word_less_nat_alt MAX_FRAME_PAYLOAD_def)
  have body: "take (17 + ?n) input = frame_body f" by (simp add: input_def frame_bytes_def sealed_def)
  have crc: "u32_at input (17 + ?n) = crc32c (frame_body f)"
    unfolding input_def frame_bytes_def sealed_def by (simp add: u32_at_def)
  have seq: "word_of_nat (of_le_bytes (take 8 (drop 8 input))) = fr_txn_seq f" "input ! 16 = fr_flags f"
    unfolding input_def frame_bytes_def sealed_def frame_body_def by (simp_all add: nth_append)
  have "drop 17 (frame_body f) = encode_payload (fr_ops f)" by (simp add: frame_body_def)
  then have ops: "decode_ops (drop 17 (frame_body f)) = Inr (fr_ops f)"
    using assms le by (simp add: frame_ok_def decode_ops_payload)
  have ne: "input \<noteq> []" "\<not> length input < 4 + 4 + 8 + 1 + 4" by (auto simp: input_def frame_bytes_def sealed_def frame_body_def)
  have total: "\<not> length input < 17 + ?n + 4" by (simp add: input_def)
  show ?thesis
    unfolding decode_frame_def Let_def input_def [symmetric] magic len if_not_P [OF ne(1)] if_not_P [OF ne(2)]
    using small total by (simp add: n body crc seq ops)
qed

section \<open>Torn and damaged frames\<close>

lemma frame_bytes_ne [simp]: "frame_bytes f \<noteq> []"
  by (simp add: frame_bytes_def sealed_def frame_body_def)

lemma decode_frame_torn:
  assumes "frame_ok f" "0 < m" "m < length (frame_bytes f)"
  shows "decode_frame (take m (frame_bytes f)) = Inl CeTorn"
proof -
  let ?n = "payload_len (fr_ops f)"
  define input where "input = take m (frame_bytes f)"
  have le: "?n \<le> 67108864" using assms by (simp add: frame_ok_def MAX_FRAME_PAYLOAD_def)
  then have n: "unat (word_of_nat ?n :: u32) = ?n" by (simp add: unat_of_nat take_bit_nat_eq_self)
  have length: "length input = m" "input \<noteq> []" using assms by (auto simp: input_def)
  show ?thesis
  proof (cases "m < 21")
    case True
    then show ?thesis using length by (simp add: decode_frame_def flip: input_def)
  next
    case False
    have magic: "u32_at input 0 = WAL_MAGIC"
      using False unfolding input_def frame_bytes_def sealed_def frame_body_def
      by (simp add: u32_at_append [of "[]", simplified])
    have len: "u32_at input 4 = word_of_nat ?n"
      using False unfolding input_def frame_bytes_def sealed_def frame_body_def by (simp add: u32_at_def)
    have small: "\<not> word_of_nat ?n > MAX_FRAME_PAYLOAD"
      using le n by (simp add: word_less_nat_alt MAX_FRAME_PAYLOAD_def)
    show ?thesis
      using False length small assms(3)
      unfolding decode_frame_def Let_def input_def [symmetric] magic len by (simp add: n)
  qed
qed

lemma frame_ok_if_encoded:
  assumes "encode_frame_limited f max_payload = Inr bs" "max_payload \<le> MAX_FRAME_PAYLOAD"
    "list_all op_ok (fr_ops f)"
  shows "frame_ok f" "bs = frame_bytes f"
  using assms
  by (auto simp: encode_frame_limited_iff frame_ok_def word_le_nat_alt split: if_splits)

text \<open>Round trip of a log frame: an encoded frame followed by anything decodes to itself and
  consumes exactly its own bytes; every proper non-empty prefix of it is reported as torn.\<close>

theorem wal_round_trip:
  assumes "encode_frame f = Inr bs" "list_all op_ok (fr_ops f)"
  shows "decode_frame (bs @ rest) = Inr (Some (f, length bs)) \<and>
    (\<forall>m. 0 < m \<and> m < length bs \<longrightarrow> decode_frame (take m bs) = Inl CeTorn)"
proof -
  have ok: "frame_ok f" "bs = frame_bytes f"
    using frame_ok_if_encoded [OF assms(1) [unfolded encode_frame_def] order_refl assms(2)] .
  then show ?thesis
    using decode_frame_append [OF ok(1)] decode_frame_torn [OF ok(1)] by blast
qed

lemma wal_round_trip_witness:
  "\<exists>bs. encode_frame \<lparr>fr_txn_seq = 7, fr_flags = FLAG_COMMIT, fr_ops = [WalPut 3 [107] [118], WalClear 300]\<rparr> = Inr bs \<and>
     decode_frame (bs @ [9]) =
       Inr (Some (\<lparr>fr_txn_seq = 7, fr_flags = FLAG_COMMIT, fr_ops = [WalPut 3 [107] [118], WalClear 300]\<rparr>, length bs)) \<and>
     decode_frame (take 30 bs) = Inl CeTorn"
proof -
  define f where "f = \<lparr>fr_txn_seq = 7, fr_flags = FLAG_COMMIT, fr_ops = [WalPut 3 [107] [118], WalClear 300]\<rparr>"
  have len: "payload_len (fr_ops f) = 10" unfolding f_def by code_simp
  then have enc: "encode_frame f = Inr (frame_bytes f)"
    by (simp add: encode_frame_def encode_frame_limited_iff MAX_FRAME_PAYLOAD_def)
  moreover have "list_all op_ok (fr_ops f)" by (simp add: f_def)
  ultimately show ?thesis
    using wal_round_trip [of f "frame_bytes f" "[9]"] len by (simp flip: f_def)
qed

text \<open>Damage to a log frame: whichever single byte of an encoded frame changes, outside the four
  bytes of its length field, the decoder reports an error and never a frame.\<close>

theorem wal_corruption_detected:
  assumes "encode_frame f = Inr bs" "list_all op_ok (fr_ops f)" "i < length bs" "i \<notin> {4..<8}" "b \<noteq> bs ! i"
  shows "\<exists>e. decode_frame (bs[i := b] @ rest) = Inl e"
proof -
  let ?n = "payload_len (fr_ops f)"
  have ok: "frame_ok f" and bs: "bs = frame_bytes f"
    using frame_ok_if_encoded [OF assms(1) [unfolded encode_frame_def] order_refl assms(2)] .
  define input where "input = bs[i := b] @ rest"
  have n: "unat (word_of_nat ?n :: u32) = ?n" and small: "\<not> word_of_nat ?n > MAX_FRAME_PAYLOAD"
    using ok by (simp_all add: frame_ok_def MAX_FRAME_PAYLOAD_def unat_of_nat take_bit_nat_eq_self word_less_nat_alt)
  have length: "length bs = 21 + ?n" by (simp add: bs)
  have len: "u32_at input 4 = word_of_nat ?n"
  proof -
    have "take 4 (drop 4 input) = take 4 (drop 4 bs)"
      using assms(3,4) length unfolding input_def
      by (intro nth_equalityI) (auto simp: nth_append)
    then show ?thesis unfolding u32_at_def bs frame_bytes_def sealed_def frame_body_def by simp
  qed
  have cut: "take (17 + ?n) input = take (17 + ?n) (bs[i := b])"
    "u32_at input (17 + ?n) = word_of_nat (of_le_bytes (drop (17 + ?n) (bs[i := b])))"
    using length by (simp_all add: input_def u32_at_def)
  have "u32_at input (17 + ?n) \<noteq> crc32c (take (17 + ?n) input)"
    using sealed_damage [of i "frame_body f" b] assms(3,5) unfolding cut
    by (simp add: bs frame_bytes_def)
  moreover have "input \<noteq> []" "\<not> length input < 4 + 4 + 8 + 1 + 4" using length by (auto simp: input_def)
  ultimately show ?thesis
    using small unfolding decode_frame_def Let_def input_def [symmetric] len n by simp
qed

lemma wal_corruption_detected_witness:
  "\<exists>bs e. encode_frame \<lparr>fr_txn_seq = 7, fr_flags = FLAG_COMMIT, fr_ops = [WalClear 300]\<rparr> = Inr bs \<and>
     decode_frame (bs[19 := 0]) = Inl e"
proof -
  define f where "f = \<lparr>fr_txn_seq = 7, fr_flags = FLAG_COMMIT, fr_ops = [WalClear 300]\<rparr>"
  have len: "payload_len (fr_ops f) = 4" unfolding f_def by code_simp
  then have enc: "encode_frame f = Inr (frame_bytes f)"
    by (simp add: encode_frame_def encode_frame_limited_iff MAX_FRAME_PAYLOAD_def)
  have "list_all op_ok (fr_ops f)" by (simp add: f_def)
  moreover have "frame_bytes f ! 19 \<noteq> 0"
  proof -
    have "encode_payload (fr_ops f) ! 2 \<noteq> 0" unfolding f_def by code_simp
    then show ?thesis using len by (simp add: frame_bytes_def sealed_def frame_body_def nth_append payload_len_def)
  qed
  ultimately have "\<exists>e. decode_frame ((frame_bytes f)[19 := 0] @ []) = Inl e"
    using len by (intro wal_corruption_detected [OF enc]) auto
  with enc show ?thesis unfolding f_def by auto
qed

end
