(* ===== verification/Wal_Recovery.thy ===== *)
theory Wal_Recovery
  imports Wal
begin

text \<open>
  Packing a transaction into frames and recovering the committed prefix of a log,
  \<open>boa_idb_fs/src/wal.rs\<close>. A transaction is one \<open>COMMIT\<close> frame or a chain of \<open>CONTINUES\<close>
  frames closed by a \<open>COMMIT\<close> frame with the same sequence number.
\<close>

section \<open>Packing\<close>

function varint_len_loop :: "nat \<Rightarrow> u64 \<Rightarrow> nat" where
  "varint_len_loop len v = (if v \<ge> 0x80 then varint_len_loop (len + 1) (drop_bit 7 v) else len)"
  by pat_completeness auto
termination varint_len_loop
  by (relation "measure (\<lambda>(len, v). unat v)")
    (auto simp: word_le_nat_alt unat_drop_bit_eq drop_bit_nat)

definition varint_len :: "u64 \<Rightarrow> nat" where
  "varint_len v = varint_len_loop 1 v"

definition bytes_len :: "bytes \<Rightarrow> nat" where
  "bytes_len bs = varint_len (word_of_nat (length bs)) + length bs"

fun op_encoded_len :: "wal_op \<Rightarrow> nat" where
  "op_encoded_len (WalPut store key val) =
     1 + varint_len (word_of_nat store) + bytes_len key + bytes_len val"
| "op_encoded_len (WalDelete store key) = 1 + varint_len (word_of_nat store) + bytes_len key"
| "op_encoded_len (WalClear store) = 1 + varint_len (word_of_nat store)"
| "op_encoded_len (WalIndexPut index idx_key primary_key) =
     1 + varint_len (word_of_nat index) + bytes_len idx_key + bytes_len primary_key"
| "op_encoded_len (WalIndexDelete index idx_key primary_key) =
     1 + varint_len (word_of_nat index) + bytes_len idx_key + bytes_len primary_key"
| "op_encoded_len (WalKeyGenSet store bits) = 1 + varint_len (word_of_nat store) + 8"
| "op_encoded_len (WalMetaReplace bs) = 1 + bytes_len bs"

text \<open>The loop of \<open>encode_txn_frames_limited\<close> with its three variables, and the push of the last
  group after it.\<close>

fun pack_loop :: "nat \<Rightarrow> wal_op list \<Rightarrow> wal_op list list \<Rightarrow> wal_op list \<Rightarrow> nat \<Rightarrow> codec_error + wal_op list list" where
  "pack_loop limit [] groups current current_len =
     Inr (if current \<noteq> [] then groups @ [current] else groups)"
| "pack_loop limit (op # ops) groups current current_len =
     (let op_len = op_encoded_len op in
      if current = [] then
        if op_len + 1 > limit then Inl (CePayloadTooLarge (op_len + 1))
        else pack_loop limit ops groups [op] op_len
      else if current_len + op_len + varint_len (word_of_nat (length current) + 1) \<le> limit
      then pack_loop limit ops groups (current @ [op]) (current_len + op_len)
      else if op_len + 1 > limit then Inl (CePayloadTooLarge (op_len + 1))
      else pack_loop limit ops (groups @ [current]) [op] op_len)"

text \<open>The loop over the groups: every frame but the last continues the transaction, the last one
  commits it.\<close>

fun encode_groups :: "u64 \<Rightarrow> u32 \<Rightarrow> wal_op list list \<Rightarrow> bytes list \<Rightarrow> codec_error + bytes list" where
  "encode_groups txn_seq max_payload [] out = Inr out"
| "encode_groups txn_seq max_payload (grp # groups) out =
     rbind (encode_frame_limited
              \<lparr>fr_txn_seq = txn_seq,
               fr_flags = (if groups = [] then FLAG_COMMIT else FLAG_CONTINUES),
               fr_ops = grp\<rparr> max_payload)
       (\<lambda>bs. encode_groups txn_seq max_payload groups (out @ [bs]))"

definition encode_txn_frames_limited :: "u64 \<Rightarrow> wal_op list \<Rightarrow> u32 \<Rightarrow> codec_error + bytes list" where
  "encode_txn_frames_limited txn_seq ops max_payload =
     (if ops = [] then Inr []
      else
        rbind (pack_loop (unat max_payload) ops [] [] 0) (\<lambda>groups.
          encode_groups txn_seq max_payload groups []))"

definition encode_txn_frames :: "u64 \<Rightarrow> wal_op list \<Rightarrow> codec_error + bytes list" where
  "encode_txn_frames txn_seq ops = encode_txn_frames_limited txn_seq ops MAX_FRAME_PAYLOAD"

section \<open>Recovery\<close>

record recovered_wal =
  rw_frames :: "wal_frame list"
  rw_valid_prefix_len :: nat

lemma decode_frame_consumed:
  "decode_frame input = Inr (Some (f, n)) \<Longrightarrow> 21 \<le> n \<and> n \<le> length input"
  by (auto simp: decode_frame_def Let_def split: if_splits)

text \<open>The while loop, with its five variables; where the code breaks it returns what is committed.\<close>

function recover_loop ::
    "bytes \<Rightarrow> nat \<Rightarrow> wal_frame list \<Rightarrow> wal_frame list \<Rightarrow> u64 option \<Rightarrow> nat \<Rightarrow> recovered_wal" where
  "recover_loop buf offset committed pending pending_seq valid_prefix =
     (let stop = \<lparr>rw_frames = committed, rw_valid_prefix_len = valid_prefix\<rparr> in
      if offset < length buf then
        case decode_frame (drop offset buf) of
          Inr (Some (frame, consumed)) \<Rightarrow>
            let next = offset + consumed;
                is_commit = (fr_flags frame = FLAG_COMMIT);
                is_continues = (fr_flags frame = FLAG_CONTINUES) in
            if \<not> is_commit \<and> \<not> is_continues then stop
            else
              (case pending_seq of
                 None \<Rightarrow>
                   if is_commit then recover_loop buf next (committed @ [frame]) pending None next
                   else recover_loop buf next committed (pending @ [frame]) (Some (fr_txn_seq frame)) valid_prefix
               | Some seq \<Rightarrow>
                   if fr_txn_seq frame \<noteq> seq then stop
                   else if is_continues
                   then recover_loop buf next committed (pending @ [frame]) (Some seq) valid_prefix
                   else recover_loop buf next (committed @ pending @ [frame]) [] None next)
        | Inr None \<Rightarrow> stop
        | Inl _ \<Rightarrow> stop
      else stop)"
  by pat_completeness auto
termination recover_loop
  by (relation "measure (\<lambda>(buf, offset, _). length buf - offset)")
    (auto dest!: decode_frame_consumed)

definition recover_committed_frames :: "bytes \<Rightarrow> recovered_wal" where
  "recover_committed_frames buf = recover_loop buf 0 [] [] None 0"

declare varint_len_loop.simps [simp del] recover_loop.simps [simp del]

section \<open>Exact lengths\<close>

lemma varint_len_loop_eq: "Suc (varint_len_loop n v) = n + length (uvarint v)"
proof (induction n v rule: varint_len_loop.induct)
  case (1 n v)
  have "unat (drop_bit 7 v) = unat v div 128" by (simp add: unat_drop_bit_eq drop_bit_nat)
  then have d: "drop_bit 7 v = 0 \<longleftrightarrow> unat v div 128 = 0" by (metis unsigned_eq_0_iff)
  show ?case
  proof (cases "v \<ge> 0x80")
    case True
    then have "drop_bit 7 v \<noteq> 0" by (simp add: d word_le_nat_alt)
    with True 1 show ?thesis by (subst varint_len_loop.simps, subst uvarint_rec) simp
  next
    case False
    then have "drop_bit 7 v = 0" by (simp add: d word_le_nat_alt)
    with False show ?thesis by (subst varint_len_loop.simps, subst uvarint_rec) simp
  qed
qed

lemma varint_len_eq: "varint_len v = length (uvarint v)"
  using varint_len_loop_eq [of 1 v] by (simp add: varint_len_def)

lemma op_encoded_len_eq: "op_encoded_len op = length (op_bytes op)"
  by (cases op) (simp_all add: bytes_len_def varint_len_eq sized_def)

definition ops_len :: "wal_op list \<Rightarrow> nat" where
  "ops_len ops = sum_list (map op_encoded_len ops)"

lemma payload_len_eq: "payload_len ops = varint_len (word_of_nat (length ops)) + ops_len ops"
  by (simp add: payload_len_def encode_payload_eq varint_len_eq ops_len_def length_concat comp_def
      op_encoded_len_eq [abs_def])

lemma payload_len_single: "payload_len [op] = op_encoded_len op + 1"
proof -
  have "varint_len 1 = 1" unfolding varint_len_eq by code_simp
  then show ?thesis by (simp add: payload_len_eq ops_len_def)
qed

lemma payload_len_snoc:
  "payload_len (ops @ [op]) = ops_len ops + op_encoded_len op + varint_len (word_of_nat (length ops) + 1)"
  by (simp add: payload_len_eq ops_len_def add.commute)

section \<open>Packing is exact\<close>

definition fits :: "nat \<Rightarrow> wal_op list \<Rightarrow> bool" where
  "fits limit grp \<longleftrightarrow> grp \<noteq> [] \<and> payload_len grp \<le> limit"

lemma pack_loop_groups:
  assumes "pack_loop limit ops groups current current_len = Inr gs"
    "list_all (fits limit) groups" "current \<noteq> [] \<Longrightarrow> fits limit current \<and> current_len = ops_len current"
    "current = [] \<Longrightarrow> groups = []"
  shows "list_all (fits limit) gs \<and> concat gs = concat groups @ current @ ops"
  using assms
proof (induction limit ops groups current current_len rule: pack_loop.induct)
  case (2 limit op ops groups current current_len)
  have single: "\<not> op_encoded_len op + 1 > limit \<Longrightarrow> fits limit [op]" "ops_len [op] = op_encoded_len op"
    by (simp_all add: fits_def payload_len_single ops_len_def)
  consider "current = []" | "current \<noteq> []" "payload_len (current @ [op]) \<le> limit"
    | "current \<noteq> []" "\<not> payload_len (current @ [op]) \<le> limit" by blast
  then show ?case
  proof cases
    case 1
    then have ok: "\<not> op_encoded_len op + 1 > limit"
      using "2.prems"(1) by (simp add: Let_def split: if_splits)
    then have "pack_loop limit ops groups [op] (op_encoded_len op) = Inr gs"
      using "2.prems"(1) 1 by (simp add: Let_def)
    then have "list_all (fits limit) gs \<and> concat gs = concat groups @ [op] @ ops"
      by (rule "2.IH"(1) [OF refl 1 ok]) (use "2.prems"(2) single ok in simp_all)
    then show ?thesis using 1 by simp
  next
    case c: 2
    then have fit: "current_len + op_encoded_len op + varint_len (word_of_nat (length current) + 1) \<le> limit"
      using "2.prems"(3) by (simp add: payload_len_snoc)
    then have "pack_loop limit ops groups (current @ [op]) (current_len + op_encoded_len op) = Inr gs"
      using "2.prems"(1) c(1) by (simp add: Let_def)
    moreover have "fits limit (current @ [op])" using c by (simp add: fits_def)
    moreover have "current_len + op_encoded_len op = ops_len (current @ [op])"
      using "2.prems"(3) c(1) by (simp add: ops_len_def)
    ultimately have "list_all (fits limit) gs \<and> concat gs = concat groups @ (current @ [op]) @ ops"
      by (intro "2.IH"(2) [OF refl c(1) fit]) (use "2.prems"(2) in simp_all)
    then show ?thesis by simp
  next
    case c: 3
    then have fit: "\<not> current_len + op_encoded_len op + varint_len (word_of_nat (length current) + 1) \<le> limit"
      using "2.prems"(3) by (simp add: payload_len_snoc)
    then have ok: "\<not> op_encoded_len op + 1 > limit"
      using "2.prems"(1) c(1) by (simp add: Let_def split: if_splits)
    then have "pack_loop limit ops (groups @ [current]) [op] (op_encoded_len op) = Inr gs"
      using "2.prems"(1) c(1) fit by (simp add: Let_def)
    moreover have "list_all (fits limit) (groups @ [current])" using "2.prems"(2,3) c(1) by simp
    ultimately have "list_all (fits limit) gs \<and> concat gs = concat (groups @ [current]) @ [op] @ ops"
      by (intro "2.IH"(3) [OF refl c(1) fit ok]) (use single ok in simp_all)
    then show ?thesis by simp
  qed
qed (auto split: if_splits)

lemma pack_loop_error:
  "pack_loop limit ops groups current current_len = Inl e \<Longrightarrow>
   \<exists>op \<in> set ops. limit < op_encoded_len op + 1 \<and> e = CePayloadTooLarge (op_encoded_len op + 1)"
  by (induction limit ops groups current current_len rule: pack_loop.induct)
    (auto simp: Let_def split: if_splits)

lemma fits_op: "fits limit grp \<Longrightarrow> op \<in> set grp \<Longrightarrow> op_encoded_len op + 1 \<le> limit"
proof -
  assume "fits limit grp" "op \<in> set grp"
  moreover from this have "op_encoded_len op \<le> ops_len grp"
    by (simp add: ops_len_def member_le_sum_list)
  moreover have "0 < length (uvarint (word_of_nat (length grp)))" by simp
  ultimately show ?thesis by (simp add: fits_def payload_len_eq varint_len_eq del: length_greater_0_conv)
qed

text \<open>The frames of a packed transaction.\<close>

fun txn_frames :: "u64 \<Rightarrow> wal_op list list \<Rightarrow> wal_frame list" where
  "txn_frames seq [] = []"
| "txn_frames seq (g # gs) =
     \<lparr>fr_txn_seq = seq, fr_flags = (if gs = [] then FLAG_COMMIT else FLAG_CONTINUES), fr_ops = g\<rparr> # txn_frames seq gs"

lemma encode_groups_eq:
  "list_all (fits (unat max_payload)) gs \<Longrightarrow>
   encode_groups seq max_payload gs out = Inr (out @ map frame_bytes (txn_frames seq gs))"
  by (induction gs arbitrary: out) (simp_all add: encode_frame_limited_iff fits_def)

lemma encode_txn_frames_limited_cases:
  assumes "ops \<noteq> []"
  obtains (fits) gs where "encode_txn_frames_limited seq ops max_payload = Inr (map frame_bytes (txn_frames seq gs))"
      "list_all (fits (unat max_payload)) gs" "concat gs = ops"
      "\<And>op. op \<in> set ops \<Longrightarrow> op_encoded_len op + 1 \<le> unat max_payload"
    | (too_large) op where
      "encode_txn_frames_limited seq ops max_payload = Inl (CePayloadTooLarge (op_encoded_len op + 1))"
      "op \<in> set ops" "unat max_payload < op_encoded_len op + 1"
proof (cases "pack_loop (unat max_payload) ops [] [] 0")
  case (Inl e)
  then show ?thesis
    using pack_loop_error [OF Inl] assms too_large by (auto simp: encode_txn_frames_limited_def)
next
  case (Inr gs)
  have gs: "list_all (fits (unat max_payload)) gs" "concat gs = ops"
    using pack_loop_groups [OF Inr] by auto
  then have "\<And>op. op \<in> set ops \<Longrightarrow> op_encoded_len op + 1 \<le> unat max_payload"
    by (force simp: list_all_iff dest: fits_op)
  then show ?thesis
    using Inr gs assms fits by (simp add: encode_txn_frames_limited_def encode_groups_eq)
qed

section \<open>Recovery of chains\<close>

lemma flags_neq [simp]: "FLAG_COMMIT \<noteq> FLAG_CONTINUES" "FLAG_CONTINUES \<noteq> FLAG_COMMIT"
  by (simp_all add: FLAG_COMMIT_def FLAG_CONTINUES_def)

lemma recover_loop_stop:
  assumes "off = length buf \<or> (\<forall>f n. decode_frame (drop off buf) \<noteq> Inr (Some (f, n)))"
  shows "recover_loop buf off com pend ps vp = \<lparr>rw_frames = com, rw_valid_prefix_len = vp\<rparr>"
  using assms
  by (subst recover_loop.simps) (auto simp: Let_def split: sum.split option.split)

text \<open>One good frame.\<close>

lemma recover_loop_frame:
  assumes "frame_ok f" "drop off buf = frame_bytes f @ rest"
  shows "recover_loop buf off com pend ps vp =
    (let stop = \<lparr>rw_frames = com, rw_valid_prefix_len = vp\<rparr>; next = off + length (frame_bytes f) in
     if fr_flags f \<noteq> FLAG_COMMIT \<and> fr_flags f \<noteq> FLAG_CONTINUES then stop
     else case ps of
       None \<Rightarrow>
         if fr_flags f = FLAG_COMMIT then recover_loop buf next (com @ [f]) pend None next
         else recover_loop buf next com (pend @ [f]) (Some (fr_txn_seq f)) vp
     | Some seq \<Rightarrow>
         if fr_txn_seq f \<noteq> seq then stop
         else if fr_flags f = FLAG_CONTINUES then recover_loop buf next com (pend @ [f]) (Some seq) vp
         else recover_loop buf next (com @ pend @ [f]) [] None next)"
proof -
  have "off < length buf" using assms(2) by (metis append_is_Nil_conv drop_all frame_bytes_ne not_le)
  then show ?thesis
    using decode_frame_append [OF assms(1), of rest]
    by (subst recover_loop.simps) (simp add: assms(2) Let_def del: length_frame_bytes)
qed

definition frames_bytes :: "wal_frame list \<Rightarrow> bytes" where
  "frames_bytes fs = concat (map frame_bytes fs)"

lemma frames_bytes_simps [simp]:
  "frames_bytes [] = []" "frames_bytes (f # fs) = frame_bytes f @ frames_bytes fs"
  by (simp_all add: frames_bytes_def)

text \<open>The frames of a transaction, or what is left of them, when \<open>pend\<close> has been read.\<close>

lemma recover_loop_chain:
  assumes "list_all frame_ok (txn_frames seq gs)" "gs \<noteq> []"
    "drop off buf = frames_bytes (txn_frames seq gs) @ rest"
    "ps = (if pend = [] then None else Some seq)"
  shows "\<exists>next. recover_loop buf off com pend ps vp
      = recover_loop buf next (com @ pend @ txn_frames seq gs) [] None next \<and>
    next = off + length (frames_bytes (txn_frames seq gs))"
  using assms
proof (induction gs arbitrary: off pend ps)
  case (Cons g gs)
  let ?f = "\<lparr>fr_txn_seq = seq, fr_flags = (if gs = [] then FLAG_COMMIT else FLAG_CONTINUES), fr_ops = g\<rparr>"
  have d: "drop off buf = frame_bytes ?f @ (frames_bytes (txn_frames seq gs) @ rest)"
    using Cons.prems(3) by simp
  have ok: "frame_ok ?f" using Cons.prems(1) by simp
  show ?case
  proof (cases "gs = []")
    case True
    then show ?thesis
      using recover_loop_frame [OF ok d, of com pend ps vp] Cons.prems(4)
      by (simp add: Let_def del: length_frame_bytes)
  next
    case False
    let ?next = "off + length (frame_bytes ?f)"
    have "drop ?next buf = drop (length (frame_bytes ?f)) (drop off buf)" by (simp only: drop_drop add.commute)
    then have d': "drop ?next buf = frames_bytes (txn_frames seq gs) @ rest" unfolding d by simp
    have "recover_loop buf off com pend ps vp = recover_loop buf ?next com (pend @ [?f]) (Some seq) vp"
      using recover_loop_frame [OF ok d, of com pend ps vp] Cons.prems(4) False
      by (simp add: Let_def del: length_frame_bytes)
    moreover have "\<exists>next. recover_loop buf ?next com (pend @ [?f]) (Some seq) vp
        = recover_loop buf next (com @ (pend @ [?f]) @ txn_frames seq gs) [] None next \<and>
      next = ?next + length (frames_bytes (txn_frames seq gs))"
      by (rule Cons.IH) (use Cons.prems(1) False d' in simp_all)
    ultimately show ?thesis using False by (simp add: add.assoc del: length_frame_bytes)
  qed
qed simp

text \<open>A chain cut short leaves nothing behind.\<close>

lemma decode_frame_Nil: "decode_frame [] = Inr None"
  by (simp add: decode_frame_def)

lemma recover_loop_torn:
  assumes "list_all frame_ok (txn_frames seq gs)" "drop off buf = take m (frames_bytes (txn_frames seq gs))"
    "m < length (frames_bytes (txn_frames seq gs))" "ps = (if pend = [] then None else Some seq)"
  shows "recover_loop buf off com pend ps vp = \<lparr>rw_frames = com, rw_valid_prefix_len = vp\<rparr>"
  using assms
proof (induction gs arbitrary: off pend ps m)
  case (Cons g gs)
  let ?f = "\<lparr>fr_txn_seq = seq, fr_flags = (if gs = [] then FLAG_COMMIT else FLAG_CONTINUES), fr_ops = g\<rparr>"
  have ok: "frame_ok ?f" using Cons.prems(1) by simp
  show ?case
  proof (cases "m < length (frame_bytes ?f)")
    case True
    then have "drop off buf = take m (frame_bytes ?f)" using Cons.prems(2) by (simp del: length_frame_bytes)
    then have "\<forall>f n. decode_frame (drop off buf) \<noteq> Inr (Some (f, n))"
      using decode_frame_torn [OF ok _ True] by (cases m) (simp_all add: decode_frame_Nil)
    then show ?thesis by (intro recover_loop_stop) blast
  next
    case False
    define m' where "m' = m - length (frame_bytes ?f)"
    have d: "drop off buf = frame_bytes ?f @ take m' (frames_bytes (txn_frames seq gs))"
      using Cons.prems(2) False by (simp add: m'_def del: length_frame_bytes)
    have m': "m' < length (frames_bytes (txn_frames seq gs))"
      using Cons.prems(3) False by (simp add: m'_def del: length_frame_bytes)
    then have ne: "gs \<noteq> []" by auto
    let ?next = "off + length (frame_bytes ?f)"
    have "drop ?next buf = drop (length (frame_bytes ?f)) (drop off buf)" by (simp only: drop_drop add.commute)
    then have d': "drop ?next buf = take m' (frames_bytes (txn_frames seq gs))" unfolding d by simp
    have "recover_loop buf off com pend ps vp = recover_loop buf ?next com (pend @ [?f]) (Some seq) vp"
      using recover_loop_frame [OF ok d, of com pend ps vp] Cons.prems(4) ne
      by (simp add: Let_def del: length_frame_bytes)
    also have "\<dots> = \<lparr>rw_frames = com, rw_valid_prefix_len = vp\<rparr>"
      by (rule Cons.IH) (use Cons.prems(1) d' m' in simp_all)
    finally show ?thesis .
  qed
qed simp

section \<open>Logs of transactions\<close>

text \<open>A log: the frames of packed transactions, in the order of their commits.\<close>

definition packed :: "u64 \<times> wal_op list list \<Rightarrow> bool" where
  "packed t = (snd t \<noteq> [] \<and> list_all frame_ok (txn_frames (fst t) (snd t)))"

definition log_frames :: "(u64 \<times> wal_op list list) list \<Rightarrow> wal_frame list" where
  "log_frames ts = concat (map (\<lambda>(seq, gs). txn_frames seq gs) ts)"

lemma frames_bytes_append [simp]: "frames_bytes (xs @ ys) = frames_bytes xs @ frames_bytes ys"
  by (simp add: frames_bytes_def)

lemma recover_loop_log:
  assumes "list_all packed ts" "drop off buf = frames_bytes (log_frames ts) @ rest"
  shows "\<exists>next. recover_loop buf off com [] None off = recover_loop buf next (com @ log_frames ts) [] None next \<and>
    next = off + length (frames_bytes (log_frames ts))"
  using assms
proof (induction ts arbitrary: off com)
  case (Cons t ts)
  obtain seq gs where t: "t = (seq, gs)" by (cases t)
  have chain: "list_all frame_ok (txn_frames seq gs)" "gs \<noteq> []"
    using Cons.prems(1) by (simp_all add: t packed_def)
  let ?next = "off + length (frames_bytes (txn_frames seq gs))"
  have d: "drop off buf = frames_bytes (txn_frames seq gs) @ (frames_bytes (log_frames ts) @ rest)"
    using Cons.prems(2) by (simp add: t log_frames_def)
  have "drop ?next buf = drop (length (frames_bytes (txn_frames seq gs))) (drop off buf)"
    by (simp only: drop_drop add.commute)
  then have d': "drop ?next buf = frames_bytes (log_frames ts) @ rest" unfolding d by simp
  have "recover_loop buf off com [] None off = recover_loop buf ?next (com @ txn_frames seq gs) [] None ?next"
    using recover_loop_chain [OF chain d, of None "[]" com off] by auto
  with Cons.IH [OF _ d', of "com @ txn_frames seq gs"] Cons.prems(1) show ?case
    by (auto simp: t log_frames_def add.assoc)
qed (simp add: log_frames_def)

text \<open>What is committed stays committed, whatever follows.\<close>

lemma recover_loop_mono:
  "vp \<le> off \<Longrightarrow> off \<le> length buf \<Longrightarrow>
   (\<exists>more. rw_frames (recover_loop buf off com pend ps vp) = com @ more) \<and>
   vp \<le> rw_valid_prefix_len (recover_loop buf off com pend ps vp) \<and>
   rw_valid_prefix_len (recover_loop buf off com pend ps vp) \<le> length buf"
proof (induction "length buf - off" arbitrary: off com pend ps vp rule: less_induct)
  case less
  let ?kept = "\<lambda>r com vp. (\<exists>more. rw_frames r = com @ more) \<and> vp \<le> rw_valid_prefix_len r \<and>
    rw_valid_prefix_len r \<le> length buf"
  show ?case
  proof (cases "\<exists>f n. off < length buf \<and> decode_frame (drop off buf) = Inr (Some (f, n))")
    case True
    then obtain f n where f: "off < length buf" "decode_frame (drop off buf) = Inr (Some (f, n))" by blast
    then have n: "21 \<le> n" "off + n \<le> length buf" using decode_frame_consumed [OF f(2)] f(1) by auto
    then have IH: "?kept (recover_loop buf (off + n) com' pend' ps' vp') com' vp'"
      if "vp' \<le> off + n" for com' pend' ps' vp'
      using f(1) by (intro less.hyps that) simp_all
    have commit: "?kept (recover_loop buf (off + n) (com @ xs) pend' None (off + n)) com vp" for xs pend'
      using IH [of "off + n" "com @ xs" pend' None] less.prems by auto
    have cont: "?kept (recover_loop buf (off + n) com pend' ps' vp) com vp" for pend' ps'
      using IH [of vp] less.prems by simp
    have stop: "?kept \<lparr>rw_frames = com, rw_valid_prefix_len = vp\<rparr> com vp"
      using less.prems by simp
    show ?thesis
      using f less.prems commit [of "[f]"] commit [of "pend @ [f]"] cont stop
      by (subst (1 2 3) recover_loop.simps) (auto simp: Let_def split: option.split)
  next
    case False
    then have "recover_loop buf off com pend ps vp = \<lparr>rw_frames = com, rw_valid_prefix_len = vp\<rparr>"
      using less.prems by (intro recover_loop_stop) (auto simp: order_le_less)
    then show ?thesis using less.prems by simp
  qed
qed

section \<open>Crash safety of the log\<close>

text \<open>\<open>log_of max ts bss\<close>: the transactions \<open>ts\<close> have been encoded, each into the frames at its
  position in \<open>bss\<close>.\<close>

definition log_of :: "u32 \<Rightarrow> (u64 \<times> wal_op list) list \<Rightarrow> bytes list list \<Rightarrow> bool" where
  "log_of max_payload ts bss =
     list_all2 (\<lambda>(seq, ops) bs. ops \<noteq> [] \<and> list_all op_ok ops \<and>
       encode_txn_frames_limited seq ops max_payload = Inr bs) ts bss"

lemma txn_frames_ok:
  assumes "list_all (fits (unat max_payload)) gs" "max_payload \<le> MAX_FRAME_PAYLOAD" "list_all op_ok (concat gs)"
  shows "list_all frame_ok (txn_frames seq gs)"
  using assms by (induction gs) (auto simp: frame_ok_def fits_def word_le_nat_alt)

lemma concat_txn_ops [simp]: "concat (map fr_ops (txn_frames seq gs)) = concat gs"
  by (induction gs) simp_all

lemma encoded_packed:
  assumes "ops \<noteq> []" "list_all op_ok ops" "encode_txn_frames_limited seq ops max_payload = Inr bs"
    "max_payload \<le> MAX_FRAME_PAYLOAD"
  obtains gs where "packed (seq, gs)" "concat gs = ops" "concat bs = frames_bytes (txn_frames seq gs)"
  using assms(1)
proof (cases rule: encode_txn_frames_limited_cases [where seq = seq and max_payload = max_payload])
  case (fits gs)
  then have "packed (seq, gs)" using assms by (auto simp: packed_def intro: txn_frames_ok)
  then show ?thesis using that fits assms(3) by (simp add: frames_bytes_def)
qed (use assms(3) in simp)

lemma log_packed:
  assumes "log_of max_payload ts bss" "max_payload \<le> MAX_FRAME_PAYLOAD"
  shows "\<exists>ps. list_all packed ps \<and> concat (concat bss) = frames_bytes (log_frames ps) \<and>
    concat (map fr_ops (log_frames ps)) = concat (map snd ts)"
  using assms(1) unfolding log_of_def
proof (induction rule: list_all2_induct)
  case Nil
  then show ?case by (intro exI [of _ "[]"]) (simp add: log_frames_def)
next
  case (Cons t ts bs bss)
  obtain seq ops where t: "t = (seq, ops)" by (cases t)
  obtain gs where "packed (seq, gs)" "concat gs = ops" "concat bs = frames_bytes (txn_frames seq gs)"
    by (rule encoded_packed [of ops seq max_payload bs]) (use Cons.hyps(1) assms(2) in \<open>auto simp: t\<close>)
  moreover obtain ps where "list_all packed ps" "concat (concat bss) = frames_bytes (log_frames ps)"
    "concat (map fr_ops (log_frames ps)) = concat (map snd ts)"
    using Cons.IH by auto
  ultimately show ?case
    by (intro exI [of _ "(seq, gs) # ps"]) (simp add: t log_frames_def)
qed

lemma recover_log:
  assumes "list_all packed ps" "buf = frames_bytes (log_frames ps) @ rest"
  shows "recover_committed_frames buf =
    recover_loop buf (length (frames_bytes (log_frames ps))) (log_frames ps) [] None (length (frames_bytes (log_frames ps)))"
  using recover_loop_log [OF assms(1), of 0 buf rest "[]"] assms(2) by (simp add: recover_committed_frames_def)

text \<open>Packing is exact: encoding a transaction fails exactly when one of its operations does not
  fit into a frame of its own, with the size of that frame; otherwise it writes all operations in
  order, split into non-empty frames that all respect the limit.\<close>

theorem pack_exact:
  "case encode_txn_frames_limited seq ops max_payload of
     Inl e \<Rightarrow> \<exists>op \<in> set ops. unat max_payload < payload_len [op] \<and> e = CePayloadTooLarge (payload_len [op])
   | Inr bss \<Rightarrow> (\<forall>op \<in> set ops. payload_len [op] \<le> unat max_payload) \<and>
       (\<exists>gs. concat gs = ops \<and> bss = map frame_bytes (txn_frames seq gs) \<and>
          (\<forall>grp \<in> set gs. grp \<noteq> [] \<and> payload_len grp \<le> unat max_payload))"
proof (cases "ops = []")
  case False
  then show ?thesis
  proof (cases rule: encode_txn_frames_limited_cases [where seq = seq and max_payload = max_payload])
    case (fits gs)
    then show ?thesis by (auto simp: payload_len_single list_all_iff fits_def)
  next
    case (too_large op)
    then show ?thesis by (auto simp: payload_len_single)
  qed
qed (auto simp: encode_txn_frames_limited_def intro!: exI [of _ "[]"])

lemma payload_len_clear: "payload_len [WalClear 3] = 3" "payload_len [WalClear 4] = 3"
  by code_simp+

lemma encode_clear:
  assumes "op \<in> {WalClear 3, WalClear 4}" "3 \<le> unat max_payload"
  obtains bs where "encode_txn_frames_limited seq [op] max_payload = Inr bs"
  by (rule encode_txn_frames_limited_cases [of "[op]" seq max_payload])
    (use assms payload_len_clear in \<open>auto simp: payload_len_single\<close>)

lemma pack_exact_witness:
  "\<exists>bss. encode_txn_frames_limited 9 [WalClear 3] 3 = Inr bss \<and>
     (\<exists>gs. concat gs = [WalClear 3] \<and> bss = map frame_bytes (txn_frames 9 gs))"
proof -
  obtain bss where bss: "encode_txn_frames_limited 9 [WalClear 3] 3 = Inr bss"
    by (rule encode_clear [of "WalClear 3" 3 9]) auto
  show ?thesis
    using pack_exact [where seq = 9 and ops = "[WalClear 3]" and max_payload = 3] by (simp only: bss sum.case) blast
qed

text \<open>C19. Crash safety of the log: when the transactions \<open>ts\<close> are in the log and a crash cuts the
  append of another one short, recovery returns exactly the operations of \<open>ts\<close>; once the last byte
  of its frames is there, it returns them and its own.\<close>

theorem wal_crash_atomic:
  assumes "log_of max_payload ts bss" "max_payload \<le> MAX_FRAME_PAYLOAD"
    "ops \<noteq> []" "list_all op_ok ops" "encode_txn_frames_limited seq ops max_payload = Inr bs"
  defines "committed \<equiv> concat (concat bss)"
  shows "\<forall>m. let r = recover_committed_frames (committed @ take m (concat bs)) in
    if m < length (concat bs)
    then concat (map fr_ops (rw_frames r)) = concat (map snd ts) \<and> rw_valid_prefix_len r = length committed
    else concat (map fr_ops (rw_frames r)) = concat (map snd ts) @ ops \<and>
         rw_valid_prefix_len r = length committed + length (concat bs)"
proof
  fix m
  obtain ps where ps: "list_all packed ps" "committed = frames_bytes (log_frames ps)"
    "concat (map fr_ops (log_frames ps)) = concat (map snd ts)"
    using log_packed [OF assms(1,2)] unfolding committed_def by auto
  obtain gs where gs: "packed (seq, gs)" "concat gs = ops" "concat bs = frames_bytes (txn_frames seq gs)"
    using encoded_packed [OF assms(3,4,5,2)] .
  show "let r = recover_committed_frames (committed @ take m (concat bs)) in
    if m < length (concat bs)
    then concat (map fr_ops (rw_frames r)) = concat (map snd ts) \<and> rw_valid_prefix_len r = length committed
    else concat (map fr_ops (rw_frames r)) = concat (map snd ts) @ ops \<and>
         rw_valid_prefix_len r = length committed + length (concat bs)"
  proof (cases "m < length (concat bs)")
    case True
    have buf: "committed @ take m (concat bs) = frames_bytes (log_frames ps) @ take m (concat bs)"
      by (simp only: ps(2))
    have "recover_committed_frames (committed @ take m (concat bs)) =
        \<lparr>rw_frames = log_frames ps, rw_valid_prefix_len = length (frames_bytes (log_frames ps))\<rparr>"
      unfolding recover_log [OF ps(1) buf]
      using gs True by (intro recover_loop_torn [of seq gs _ _ m]) (simp_all add: packed_def ps(2))
    then have "recover_committed_frames (committed @ take m (concat bs)) =
        \<lparr>rw_frames = log_frames ps, rw_valid_prefix_len = length committed\<rparr>"
      by (simp only: ps(2))
    with True ps(3) show ?thesis by simp
  next
    case False
    define all where "all = ps @ [(seq, gs)]"
    have all: "list_all packed all" using ps(1) gs(1) by (simp add: all_def)
    have buf: "committed @ concat bs = frames_bytes (log_frames all) @ []"
      by (simp add: all_def log_frames_def ps(2) gs(3))
    have "recover_committed_frames (committed @ concat bs) =
        \<lparr>rw_frames = log_frames all, rw_valid_prefix_len = length (committed @ concat bs)\<rparr>"
      unfolding recover_log [OF all buf] by (subst recover_loop_stop) (simp_all add: buf)
    with False ps(3) gs(2) show ?thesis by (simp add: all_def log_frames_def)
  qed
qed

lemma wal_crash_atomic_witness:
  "\<exists>bss bs. let r = recover_committed_frames (concat (concat bss) @ take 5 (concat bs)) in
     log_of MAX_FRAME_PAYLOAD [(1, [WalClear 3])] bss \<and>
     encode_txn_frames_limited 2 [WalClear 4] MAX_FRAME_PAYLOAD = Inr bs \<and> 5 < length (concat bs) \<and>
     concat (map fr_ops (rw_frames r)) = [WalClear 3]"
proof -
  have big: "3 \<le> unat MAX_FRAME_PAYLOAD" by (simp add: MAX_FRAME_PAYLOAD_def)
  obtain b1 where "encode_txn_frames_limited 1 [WalClear 3] MAX_FRAME_PAYLOAD = Inr b1"
    by (rule encode_clear [OF _ big, of "WalClear 3" 1]) auto
  then have l: "log_of MAX_FRAME_PAYLOAD [(1, [WalClear 3])] [b1]" by (simp add: log_of_def)
  obtain b2 where b2: "encode_txn_frames_limited 2 [WalClear 4] MAX_FRAME_PAYLOAD = Inr b2"
    by (rule encode_clear [OF _ big, of "WalClear 4" 2]) auto
  obtain gs where gs: "packed (2, gs)" "concat b2 = frames_bytes (txn_frames 2 gs)"
    by (rule encoded_packed [of "[WalClear 4]" 2 MAX_FRAME_PAYLOAD b2]) (use b2 in auto)
  then have "5 < length (concat b2)" by (cases gs) (simp_all add: packed_def)
  with l b2 show ?thesis
    using spec [OF wal_crash_atomic [OF l order_refl _ _ b2], of 5]
    by (intro exI [of _ "[b1]"] exI [of _ b2]) (simp add: Let_def)
qed

text \<open>What is committed stays committed: whatever follows the frames of complete transactions in
  the log, recovery returns these frames first and keeps their bytes.\<close>

theorem wal_committed_kept:
  assumes "log_of max_payload ts bss" "max_payload \<le> MAX_FRAME_PAYLOAD"
  shows "\<exists>fs more. rw_frames (recover_committed_frames (concat (concat bss) @ tail)) = fs @ more \<and>
    concat (map fr_ops fs) = concat (map snd ts) \<and>
    length (concat (concat bss)) \<le> rw_valid_prefix_len (recover_committed_frames (concat (concat bss) @ tail))"
proof -
  obtain ps where ps: "list_all packed ps" "concat (concat bss) = frames_bytes (log_frames ps)"
    "concat (map fr_ops (log_frames ps)) = concat (map snd ts)"
    using log_packed [OF assms] by auto
  show ?thesis
    unfolding recover_log [OF ps(1) arg_cong2 [OF ps(2) refl, of append]]
    using recover_loop_mono [of "length (frames_bytes (log_frames ps))" "length (frames_bytes (log_frames ps))"
        "concat (concat bss) @ tail" "log_frames ps" "[]" None] ps(2,3)
    by fastforce
qed

lemma wal_committed_kept_witness:
  "\<exists>bss fs more. log_of MAX_FRAME_PAYLOAD [(1, [WalClear 3])] bss \<and>
     rw_frames (recover_committed_frames (concat (concat bss) @ [7, 7])) = fs @ more \<and>
     concat (map fr_ops fs) = [WalClear 3]"
proof -
  obtain b1 where "encode_txn_frames_limited 1 [WalClear 3] MAX_FRAME_PAYLOAD = Inr b1"
    by (rule encode_clear) (auto simp: MAX_FRAME_PAYLOAD_def)
  then have l: "log_of MAX_FRAME_PAYLOAD [(1, [WalClear 3])] [b1]" by (simp add: log_of_def)
  show ?thesis
    using wal_committed_kept [OF l order_refl, of "[7, 7]"] l by (intro exI [of _ "[b1]"]) auto
qed

end
