(* ===== verification/Fs_Meta.thy ===== *)
theory Fs_Meta
  imports Backend Crc32c
begin

text \<open>
  The metadata and manifest files of the filesystem backend, \<open>boa_idb_fs/src/meta.rs\<close>: their
  byte formats. The \<open>Reader\<close>, a buffer with a position, is the rest of the buffer; its methods
  return the value read and the new rest. Numbers are read as natural numbers of their width.
\<close>

definition META_MAGIC :: nat where "META_MAGIC = of_le_bytes [0x49, 0x4D, 0x45, 0x54]"
definition META_VERSION :: nat where "META_VERSION = 1"
definition MANIFEST_MAGIC :: nat where "MANIFEST_MAGIC = of_le_bytes [0x49, 0x4D, 0x41, 0x4E]"
definition MANIFEST_VERSION :: nat where "MANIFEST_VERSION = 1"

section \<open>Reader\<close>

type_synonym 'a reader = "bytes \<Rightarrow> backend_error + 'a \<times> bytes"

definition rd_take :: "nat \<Rightarrow> bytes reader" where
  "rd_take n r = (if length r < n then Inl BeCorrupted else Inr (take n r, drop n r))"

definition rd_u8 :: "nat reader" where
  "rd_u8 r = rbind (rd_take 1 r) (\<lambda>(bs, r). Inr (unat (bs ! 0), r))"

definition rd_u32 :: "nat reader" where
  "rd_u32 r = rbind (rd_take 4 r) (\<lambda>(bs, r). Inr (of_le_bytes bs, r))"

definition rd_u64 :: "nat reader" where
  "rd_u64 r = rbind (rd_take 8 r) (\<lambda>(bs, r). Inr (of_le_bytes bs, r))"

fun chunk_units :: "bytes \<Rightarrow> utf16" where
  "chunk_units (a # b # bs) = word_of_nat (of_le_bytes [a, b]) # chunk_units bs"
| "chunk_units _ = []"

definition rd_utf16 :: "utf16 reader" where
  "rd_utf16 r =
     rbind (rd_u32 r) (\<lambda>(len, r).
     rbind (rd_take (len * 2) r) (\<lambda>(bs, r). Inr (chunk_units bs, r)))"

text \<open>A loop that pushes \<open>n\<close> values read by the same reader.\<close>

fun rd_many :: "nat \<Rightarrow> 'a reader \<Rightarrow> 'a list reader" where
  "rd_many 0 rd r = Inr ([], r)"
| "rd_many (Suc n) rd r = rbind (rd r) (\<lambda>(x, r). rbind (rd_many n rd r) (\<lambda>(xs, r). Inr (x # xs, r)))"

section \<open>Database metadata\<close>

definition write_utf16 :: "bytes \<Rightarrow> utf16 \<Rightarrow> bytes" where
  "write_utf16 out s = fold (\<lambda>u out. out @ le_bytes 2 (unat u)) s (out @ le_bytes 4 (length s))"

fun encode_key_path :: "bytes \<Rightarrow> key_path \<Rightarrow> bytes" where
  "encode_key_path out PathEmpty = out @ [0]"
| "encode_key_path out (PathSingle s) = write_utf16 (out @ [1]) s"
| "encode_key_path out (PathArray items) =
     fold (\<lambda>item out. write_utf16 out item) items (out @ [2] @ le_bytes 4 (length items))"

definition decode_key_path :: "key_path reader" where
  "decode_key_path r =
     rbind (rd_u8 r) (\<lambda>(tag, r).
       if tag = 0 then Inr (PathEmpty, r)
       else if tag = 1 then rbind (rd_utf16 r) (\<lambda>(s, r). Inr (PathSingle s, r))
       else if tag = 2 then
         rbind (rd_u32 r) (\<lambda>(n, r). rbind (rd_many n rd_utf16 r) (\<lambda>(items, r). Inr (PathArray items, r)))
       else Inl BeCorrupted)"

definition encode_index :: "bytes \<Rightarrow> index_meta \<Rightarrow> bytes" where
  "encode_index out index =
     encode_key_path
       (write_utf16 (out @ le_bytes 8 (ix_id index) @ le_bytes 8 (ix_store_id index)) (ix_name index))
       (ix_key_path index) @
     [of_bool (ix_unique index)] @ [of_bool (ix_multi_entry index)] @ [of_bool (ix_deleted index)]"

definition decode_index :: "index_meta reader" where
  "decode_index r =
     rbind (rd_u64 r) (\<lambda>(i, r).
     rbind (rd_u64 r) (\<lambda>(store_id, r).
     rbind (rd_utf16 r) (\<lambda>(name, r).
     rbind (decode_key_path r) (\<lambda>(key_path, r).
     rbind (rd_u8 r) (\<lambda>(unique, r).
     rbind (rd_u8 r) (\<lambda>(multi_entry, r).
     rbind (rd_u8 r) (\<lambda>(deleted, r).
       Inr (\<lparr>ix_id = i, ix_store_id = store_id, ix_name = name, ix_key_path = key_path,
             ix_unique = (unique \<noteq> 0), ix_multi_entry = (multi_entry \<noteq> 0),
             ix_deleted = (deleted \<noteq> 0)\<rparr>, r))))))))"

definition encode_store :: "bytes \<Rightarrow> store_meta \<Rightarrow> bytes" where
  "encode_store out store =
     fold (\<lambda>index out. encode_index out index) (st_indexes store)
       (encode_key_path (write_utf16 (out @ le_bytes 8 (st_id store)) (st_name store)) (st_key_path store) @
        [of_bool (st_auto_increment store)] @ le_bytes 8 (unat (st_key_gen store)) @
        [of_bool (st_deleted store)] @ le_bytes 4 (length (st_indexes store)))"

definition decode_store :: "store_meta reader" where
  "decode_store r =
     rbind (rd_u64 r) (\<lambda>(i, r).
     rbind (rd_utf16 r) (\<lambda>(name, r).
     rbind (decode_key_path r) (\<lambda>(key_path, r).
     rbind (rd_u8 r) (\<lambda>(auto_increment, r).
     rbind (rd_u64 r) (\<lambda>(key_gen, r).
     rbind (rd_u8 r) (\<lambda>(deleted, r).
     rbind (rd_u32 r) (\<lambda>(n, r).
     rbind (rd_many n decode_index r) (\<lambda>(indexes, r).
       Inr (\<lparr>st_id = i, st_name = name, st_key_path = key_path,
             st_auto_increment = (auto_increment \<noteq> 0), st_key_gen = word_of_nat key_gen,
             st_indexes = indexes, st_deleted = (deleted \<noteq> 0)\<rparr>, r)))))))))"

definition encode_meta :: "database_meta \<Rightarrow> bytes" where
  "encode_meta meta =
     fold (\<lambda>store out. encode_store out store) (db_stores meta)
       (write_utf16 (le_bytes 4 META_MAGIC @ le_bytes 4 META_VERSION) (db_name meta) @
        le_bytes 8 (unat (db_version meta)) @ le_bytes 8 (db_next_store_id meta) @
        le_bytes 8 (db_next_index_id meta) @ le_bytes 4 (length (db_stores meta)))"

definition decode_meta :: "bytes \<Rightarrow> backend_error + database_meta" where
  "decode_meta bs =
     rbind (rd_u32 bs) (\<lambda>(magic, r).
     if magic \<noteq> META_MAGIC then Inl BeCorrupted else
     rbind (rd_u32 r) (\<lambda>(ver, r).
     if ver \<noteq> META_VERSION then Inl BeCorrupted else
     rbind (rd_utf16 r) (\<lambda>(name, r).
     rbind (rd_u64 r) (\<lambda>(version, r).
     rbind (rd_u64 r) (\<lambda>(next_store_id, r).
     rbind (rd_u64 r) (\<lambda>(next_index_id, r).
     rbind (rd_u32 r) (\<lambda>(store_count, r).
     rbind (rd_many store_count decode_store r) (\<lambda>(stores, r).
       if r \<noteq> [] then Inl BeCorrupted
       else Inr \<lparr>db_name = name, db_version = word_of_nat version, db_stores = stores,
                 db_next_store_id = next_store_id, db_next_index_id = next_index_id\<rparr>))))))))"

section \<open>Manifests\<close>

record manifest_data =
  md_manifest_seq :: nat
  md_wal_seq :: nat
  md_segments :: "nat list"

definition encode_manifest :: "manifest_data \<Rightarrow> bytes" where
  "encode_manifest data =
     (let body = fold (\<lambda>seq body. body @ le_bytes 8 seq) (md_segments data)
                   (le_bytes 4 MANIFEST_MAGIC @ le_bytes 4 MANIFEST_VERSION @
                    le_bytes 8 (md_manifest_seq data) @ le_bytes 8 (md_wal_seq data) @
                    le_bytes 4 (length (md_segments data)))
      in body @ le_bytes 4 (unat (crc32c body)))"

text \<open>The loop over the segment numbers at position \<open>pos\<close> of the body.\<close>

fun manifest_segments :: "nat \<Rightarrow> bytes \<Rightarrow> nat \<Rightarrow> nat list \<Rightarrow> backend_error + nat list \<times> nat" where
  "manifest_segments 0 body pos segments = Inr (segments, pos)"
| "manifest_segments (Suc n) body pos segments =
     (if pos + 8 > length body then Inl BeCorrupted
      else manifest_segments n body (pos + 8) (segments @ [of_le_bytes (take 8 (drop pos body))]))"

definition decode_manifest :: "bytes \<Rightarrow> backend_error + manifest_data" where
  "decode_manifest bs =
     (if length bs < 4 + 4 + 8 + 8 + 4 + 4 then Inl BeCorrupted
      else
        let body = take (length bs - 4) bs;
            expected = (word_of_nat (of_le_bytes (drop (length bs - 4) bs)) :: u32);
            actual = crc32c body;
            field = (\<lambda>off n. of_le_bytes (take n (drop off body))) in
        if expected \<noteq> actual then Inl BeCorrupted
        else if field 0 4 \<noteq> MANIFEST_MAGIC then Inl BeCorrupted
        else if field 4 4 \<noteq> MANIFEST_VERSION then Inl BeCorrupted
        else
          rbind (manifest_segments (field 24 4) body 28 []) (\<lambda>(segments, pos).
            if pos \<noteq> length body then Inl BeCorrupted
            else Inr \<lparr>md_manifest_seq = field 8 8, md_wal_seq = field 16 8, md_segments = segments\<rparr>))"

section \<open>The encodings as pure functions\<close>

named_theorems fs_bytes
named_theorems fs_read

lemma fold_out_concat: "fold (\<lambda>x out. out @ f x) xs out = out @ concat (map f xs)"
  by (induction xs arbitrary: out) simp_all

definition utf16_bytes :: "utf16 \<Rightarrow> bytes" where
  "utf16_bytes s = le_bytes 4 (length s) @ concat (map (\<lambda>u. le_bytes 2 (unat u)) s)"

lemma write_utf16_append [fs_bytes]: "write_utf16 out s = out @ utf16_bytes s"
  by (simp add: write_utf16_def utf16_bytes_def fold_out_concat)

fun key_path_bytes :: "key_path \<Rightarrow> bytes" where
  "key_path_bytes PathEmpty = [0]"
| "key_path_bytes (PathSingle s) = 1 # utf16_bytes s"
| "key_path_bytes (PathArray items) = 2 # le_bytes 4 (length items) @ concat (map utf16_bytes items)"

lemma encode_key_path_append [fs_bytes]: "encode_key_path out p = out @ key_path_bytes p"
  by (cases p) (simp_all add: fs_bytes fold_out_concat)

definition index_bytes :: "index_meta \<Rightarrow> bytes" where
  "index_bytes x = le_bytes 8 (ix_id x) @ le_bytes 8 (ix_store_id x) @ utf16_bytes (ix_name x) @
     key_path_bytes (ix_key_path x) @ [of_bool (ix_unique x), of_bool (ix_multi_entry x), of_bool (ix_deleted x)]"

lemma encode_index_append [fs_bytes]: "encode_index out x = out @ index_bytes x"
  by (simp add: encode_index_def index_bytes_def fs_bytes)

definition store_bytes :: "store_meta \<Rightarrow> bytes" where
  "store_bytes s = le_bytes 8 (st_id s) @ utf16_bytes (st_name s) @ key_path_bytes (st_key_path s) @
     [of_bool (st_auto_increment s)] @ le_bytes 8 (unat (st_key_gen s)) @ [of_bool (st_deleted s)] @
     le_bytes 4 (length (st_indexes s)) @ concat (map index_bytes (st_indexes s))"

lemma encode_store_append [fs_bytes]: "encode_store out s = out @ store_bytes s"
  by (simp add: encode_store_def store_bytes_def fs_bytes fold_out_concat)

lemma encode_meta_eq:
  "encode_meta m = le_bytes 4 META_MAGIC @ le_bytes 4 META_VERSION @ utf16_bytes (db_name m) @
     le_bytes 8 (unat (db_version m)) @ le_bytes 8 (db_next_store_id m) @ le_bytes 8 (db_next_index_id m) @
     le_bytes 4 (length (db_stores m)) @ concat (map store_bytes (db_stores m))"
  by (simp add: encode_meta_def fs_bytes fold_out_concat)

section \<open>Reading back\<close>

lemma rd_take_append [fs_read]: "length bs = n \<Longrightarrow> rd_take n (bs @ rest) = Inr (bs, rest)"
  by (simp add: rd_take_def)

lemma rd_u8_Cons [fs_read]: "rd_u8 (b # rest) = Inr (unat b, rest)"
  by (simp add: rd_u8_def rd_take_def)

lemma rd_u32_append [fs_read]: "n < 2 ^ 32 \<Longrightarrow> rd_u32 (le_bytes 4 n @ rest) = Inr (n, rest)"
  by (simp add: rd_u32_def fs_read of_le_bytes_le_bytes)

lemma rd_u64_append [fs_read]: "n < 2 ^ 64 \<Longrightarrow> rd_u64 (le_bytes 8 n @ rest) = Inr (n, rest)"
  by (simp add: rd_u64_def fs_read of_le_bytes_le_bytes)

lemma rd_u64_word [fs_read]: "rd_u64 (le_bytes 8 (unat (w :: u64)) @ rest) = Inr (unat w, rest)"
  using unat_u64_less [of w] by (intro rd_u64_append) simp

lemma chunk_units_concat: "chunk_units (concat (map (\<lambda>u. le_bytes 2 (unat u)) s)) = s"
proof (induction s)
  case (Cons u s)
  have two: "le_bytes 2 (unat u) = [byte (unat u mod 256), byte (unat u div 256 mod 256)]"
    unfolding numeral_2_eq_2 by (simp only: le_bytes.simps)
  have "of_le_bytes (le_bytes 2 (unat u)) = unat u" by (simp add: of_le_bytes_le_bytes)
  with Cons show ?case unfolding list.map concat.simps two by simp
qed simp

lemma rd_utf16_append [fs_read]: "length s < 2 ^ 32 \<Longrightarrow> rd_utf16 (utf16_bytes s @ rest) = Inr (s, rest)"
  by (simp add: rd_utf16_def utf16_bytes_def fs_read length_concat comp_def sum_list_triv chunk_units_concat)

lemma rd_many_append:
  "(\<And>x rest. x \<in> set xs \<Longrightarrow> rd (f x @ rest) = Inr (x, rest)) \<Longrightarrow>
   rd_many (length xs) rd (concat (map f xs) @ rest) = Inr (xs, rest)"
  by (induction xs) simp_all

fun key_path_ok :: "key_path \<Rightarrow> bool" where
  "key_path_ok PathEmpty = True"
| "key_path_ok (PathSingle s) = (length s < 2 ^ 32)"
| "key_path_ok (PathArray items) = (length items < 2 ^ 32 \<and> list_all (\<lambda>s. length s < 2 ^ 32) items)"

lemma decode_key_path_append [fs_read]:
  "key_path_ok p \<Longrightarrow> decode_key_path (key_path_bytes p @ rest) = Inr (p, rest)"
  by (cases p) (simp_all add: decode_key_path_def fs_read rd_many_append list_all_iff)

definition index_ok :: "index_meta \<Rightarrow> bool" where
  "index_ok x \<longleftrightarrow> ix_id x < 2 ^ 64 \<and> ix_store_id x < 2 ^ 64 \<and> length (ix_name x) < 2 ^ 32 \<and> key_path_ok (ix_key_path x)"

definition store_ok :: "store_meta \<Rightarrow> bool" where
  "store_ok s \<longleftrightarrow> st_id s < 2 ^ 64 \<and> length (st_name s) < 2 ^ 32 \<and> key_path_ok (st_key_path s) \<and>
     length (st_indexes s) < 2 ^ 32 \<and> list_all index_ok (st_indexes s)"

definition meta_ok :: "database_meta \<Rightarrow> bool" where
  "meta_ok m \<longleftrightarrow> length (db_name m) < 2 ^ 32 \<and> db_next_store_id m < 2 ^ 64 \<and> db_next_index_id m < 2 ^ 64 \<and>
     length (db_stores m) < 2 ^ 32 \<and> list_all store_ok (db_stores m)"

lemma unat_of_bool [simp]: "unat (of_bool b :: u8) = of_bool b"
  by simp

lemma decode_index_append [fs_read]: "index_ok x \<Longrightarrow> decode_index (index_bytes x @ rest) = Inr (x, rest)"
  by (simp add: decode_index_def index_bytes_def index_ok_def fs_read)

lemma decode_store_append [fs_read]: "store_ok s \<Longrightarrow> decode_store (store_bytes s @ rest) = Inr (s, rest)"
  by (simp add: decode_store_def store_bytes_def store_ok_def fs_read rd_many_append list_all_iff)

lemma magic_less: "META_MAGIC < 2 ^ 32" "META_VERSION < 2 ^ 32" "MANIFEST_MAGIC < 2 ^ 32" "MANIFEST_VERSION < 2 ^ 32"
  by (simp_all add: META_MAGIC_def META_VERSION_def MANIFEST_MAGIC_def MANIFEST_VERSION_def)

lemma decode_encode_meta: "meta_ok m \<Longrightarrow> decode_meta (encode_meta m) = Inr m"
  using rd_many_append [of "db_stores m" decode_store store_bytes "[]"]
  by (simp add: decode_meta_def encode_meta_eq meta_ok_def fs_read magic_less [simplified] list_all_iff)

section \<open>Manifests\<close>

definition manifest_body :: "manifest_data \<Rightarrow> bytes" where
  "manifest_body d = le_bytes 4 MANIFEST_MAGIC @ le_bytes 4 MANIFEST_VERSION @
     le_bytes 8 (md_manifest_seq d) @ le_bytes 8 (md_wal_seq d) @ le_bytes 4 (length (md_segments d)) @
     concat (map (le_bytes 8) (md_segments d))"

lemma encode_manifest_eq: "encode_manifest d = sealed (manifest_body d)"
  by (simp add: encode_manifest_def manifest_body_def sealed_def Let_def fold_out_concat)

definition manifest_ok :: "manifest_data \<Rightarrow> bool" where
  "manifest_ok d \<longleftrightarrow> md_manifest_seq d < 2 ^ 64 \<and> md_wal_seq d < 2 ^ 64 \<and> length (md_segments d) < 2 ^ 32 \<and>
     list_all (\<lambda>n. n < 2 ^ 64) (md_segments d)"

lemma manifest_segments_append:
  "drop pos body = concat (map (le_bytes 8) segs) \<Longrightarrow> pos \<le> length body \<Longrightarrow> list_all (\<lambda>n. n < 2 ^ 64) segs \<Longrightarrow>
   manifest_segments (length segs) body pos acc = Inr (acc @ segs, length body)"
proof (induction segs arbitrary: pos acc)
  case (Cons n segs)
  have len: "length body = pos + 8 + length (concat (map (le_bytes 8) segs))"
  proof -
    have "length (drop pos body) = 8 + length (concat (map (le_bytes 8) segs))"
      unfolding Cons.prems(1) by simp
    with Cons.prems(2) show ?thesis by simp
  qed
  have "drop (pos + 8) body = drop 8 (drop pos body)" by (simp add: add.commute)
  then have "drop (pos + 8) body = concat (map (le_bytes 8) segs)" using Cons.prems(1) by simp
  from Cons.IH [OF this] Cons.prems len show ?case by (simp add: of_le_bytes_le_bytes)
qed simp

lemma decode_encode_manifest: "manifest_ok d \<Longrightarrow> decode_manifest (encode_manifest d) = Inr d"
proof -
  assume ok: "manifest_ok d"
  have segs: "manifest_segments (length (md_segments d)) (manifest_body d) 28 [] =
      Inr (md_segments d, length (manifest_body d))"
    using ok manifest_segments_append [of 28 "manifest_body d" "md_segments d" "[]"]
    by (simp add: manifest_body_def manifest_ok_def)
  have body: "take (length (encode_manifest d) - 4) (encode_manifest d) = manifest_body d"
    by (simp add: encode_manifest_eq sealed_def)
  have crc: "word_of_nat (of_le_bytes (drop (length (encode_manifest d) - 4) (encode_manifest d))) = crc32c (manifest_body d)"
    by (simp add: encode_manifest_eq sealed_def sealed_field)
  have long: "\<not> length (encode_manifest d) < 4 + 4 + 8 + 8 + 4 + 4"
    by (simp add: encode_manifest_eq manifest_body_def)
  have fields: "of_le_bytes (take 4 (drop 0 (manifest_body d))) = MANIFEST_MAGIC"
    "of_le_bytes (take 4 (drop 4 (manifest_body d))) = MANIFEST_VERSION"
    "of_le_bytes (take 8 (drop 8 (manifest_body d))) = md_manifest_seq d"
    "of_le_bytes (take 8 (drop 16 (manifest_body d))) = md_wal_seq d"
    "of_le_bytes (take 4 (drop 24 (manifest_body d))) = length (md_segments d)"
    using ok magic_less by (simp_all add: manifest_body_def manifest_ok_def of_le_bytes_le_bytes)
  show ?thesis
    unfolding decode_manifest_def Let_def body crc if_not_P [OF long] fields segs by simp
qed

text \<open>Round trip of the metadata and manifest files, and damage to a manifest: what is written
  reads back as itself, with every name, key path, flag and generator of every store and index; a
  manifest in which a single byte has changed is refused.\<close>

theorem meta_files_round_trip:
  "(meta_ok m \<longrightarrow> decode_meta (encode_meta m) = Inr m) \<and>
   (manifest_ok d \<longrightarrow> decode_manifest (encode_manifest d) = Inr d) \<and>
   (\<forall>i < length (encode_manifest d). \<forall>b. b \<noteq> encode_manifest d ! i \<longrightarrow>
      decode_manifest ((encode_manifest d)[i := b]) = Inl BeCorrupted)"
proof (intro conjI impI allI)
  fix i b
  assume "i < length (encode_manifest d)" "b \<noteq> encode_manifest d ! i"
  then show "decode_manifest ((encode_manifest d)[i := b]) = Inl BeCorrupted"
    using sealed_damage [of i "manifest_body d" b]
    unfolding encode_manifest_eq decode_manifest_def Let_def by simp
qed (simp_all add: decode_encode_meta decode_encode_manifest)

lemma meta_files_round_trip_witness:
  "let m = \<lparr>db_name = [100, 98], db_version = 3,
         db_stores = [\<lparr>st_id = 2, st_name = [115], st_key_path = PathSingle [105], st_auto_increment = True,
           st_key_gen = f64_of_int 2, st_indexes = [], st_deleted = False\<rparr>],
         db_next_store_id = 3, db_next_index_id = 2\<rparr>;
       d = \<lparr>md_manifest_seq = 5, md_wal_seq = 6, md_segments = [7]\<rparr> in
   decode_meta (encode_meta m) = Inr m \<and> decode_manifest (encode_manifest d) = Inr d \<and>
   decode_manifest ((encode_manifest d)[0 := encode_manifest d ! 0 + 1]) = Inl BeCorrupted"
proof -
  define m where "m = \<lparr>db_name = [100, 98], db_version = 3,
         db_stores = [\<lparr>st_id = 2, st_name = [115], st_key_path = PathSingle [105], st_auto_increment = True,
           st_key_gen = f64_of_int 2, st_indexes = [], st_deleted = False\<rparr>],
         db_next_store_id = 3, db_next_index_id = 2\<rparr>"
  define d where "d = \<lparr>md_manifest_seq = 5, md_wal_seq = 6, md_segments = [7]\<rparr>"
  have "meta_ok m" "manifest_ok d"
    by (simp_all add: m_def d_def meta_ok_def store_ok_def manifest_ok_def)
  moreover have "0 < length (encode_manifest d)" unfolding encode_manifest_eq length_sealed by simp
  ultimately show ?thesis
    using meta_files_round_trip [of m d] unfolding Let_def m_def [symmetric] d_def [symmetric] by auto
qed

end
