(* ===== verification/Fs_State.thy ===== *)
theory Fs_State
  imports Fs_Meta Wal_Recovery Memory_Txn
begin

text \<open>
  The database state the filesystem backend keeps in memory, \<open>boa_idb_fs/src/state.rs\<close>, and the
  replay of log operations on it, \<open>apply.rs\<close>. The maps of the \<open>rpds\<close> package are ordered
  maps, used here through the same operations as the ones of the standard library; their shared
  structure is not observable. Sequence numbers are natural numbers whose increments saturate at
  the largest \<open>u64\<close>. A segment guard is the number of its segment.
\<close>

definition saturating_inc :: "nat \<Rightarrow> nat" where
  "saturating_inc n = min (n + 1) (2 ^ 64 - 1)"

record db_state =
  ds_meta :: "database_meta option"
  ds_records :: "(record_key, bytes) btree"
  ds_index_entries :: "(index_key, unit) btree"
  ds_key_generators :: "store_id \<rightharpoonup> f64"
  ds_next_txn_seq :: nat
  ds_manifest_seq :: nat
  ds_wal_seq :: nat
  ds_wal_bytes_since_compact :: nat
  ds_wal_frames_since_compact :: nat
  ds_segments :: "nat list"

definition db_state_default :: db_state where
  "db_state_default =
     \<lparr>ds_meta = None, ds_records = bt_empty, ds_index_entries = bt_empty, ds_key_generators = Map.empty,
      ds_next_txn_seq = 1, ds_manifest_seq = 1, ds_wal_seq = 1, ds_wal_bytes_since_compact = 0,
      ds_wal_frames_since_compact = 0, ds_segments = []\<rparr>"

definition key_count :: "db_state \<Rightarrow> nat" where
  "key_count st = length (bt_keys (ds_records st))"

definition ds_usage_bytes :: "db_state \<Rightarrow> nat" where
  "ds_usage_bytes st =
     256 + sum_list (map (\<lambda>(k, v). 8 + length (snd k) + length v) (bt_entries (ds_records st))) +
     sum_list (map (\<lambda>(_, ik, pk). 8 + length ik + length pk) (bt_keys (ds_index_entries st)))"

section \<open>Replay\<close>

definition set_key_gen :: "store_id \<Rightarrow> f64 \<Rightarrow> database_meta \<Rightarrow> database_meta" where
  "set_key_gen store val meta =
     meta\<lparr>db_stores := update_first (\<lambda>s. st_id s = store) (\<lambda>s. s\<lparr>st_key_gen := val\<rparr>) (db_stores meta)\<rparr>"

fun apply_op :: "db_state \<Rightarrow> wal_op \<Rightarrow> backend_error + db_state" where
  "apply_op st (WalPut store key val) = Inr (st\<lparr>ds_records := bt_insert (store, key) val (ds_records st)\<rparr>)"
| "apply_op st (WalDelete store key) = Inr (st\<lparr>ds_records := bt_remove (store, key) (ds_records st)\<rparr>)"
| "apply_op st (WalClear store) =
     (let keys = filter (\<lambda>k. fst k = store) (bt_keys (ds_records st))
      in Inr (st\<lparr>ds_records := fold bt_remove keys (ds_records st)\<rparr>))"
| "apply_op st (WalIndexPut index ik pk) =
     Inr (st\<lparr>ds_index_entries := bt_insert (index, ik, pk) () (ds_index_entries st)\<rparr>)"
| "apply_op st (WalIndexDelete index ik pk) =
     Inr (st\<lparr>ds_index_entries := bt_remove (index, ik, pk) (ds_index_entries st)\<rparr>)"
| "apply_op st (WalKeyGenSet store value_bits) =
     Inr (st\<lparr>ds_key_generators := (ds_key_generators st)(store \<mapsto> value_bits),
             ds_meta := map_option (set_key_gen store value_bits) (ds_meta st)\<rparr>)"
| "apply_op st (WalMetaReplace bs) =
     rbind (decode_meta bs) (\<lambda>meta. Inr (st\<lparr>ds_meta := Some meta\<rparr>))"

fun apply_ops :: "db_state \<Rightarrow> wal_op list \<Rightarrow> backend_error + db_state" where
  "apply_ops st [] = Inr st"
| "apply_ops st (op # ops) = rbind (apply_op st op) (\<lambda>st. apply_ops st ops)"

fun apply_frames :: "db_state \<Rightarrow> wal_frame list \<Rightarrow> backend_error + db_state" where
  "apply_frames st [] = Inr st"
| "apply_frames st (frame # frames) =
     rbind (apply_ops st (fr_ops frame)) (\<lambda>st.
       apply_frames (st\<lparr>ds_next_txn_seq := max (ds_next_txn_seq st) (saturating_inc (unat (fr_txn_seq frame)))\<rparr>)
         frames)"

section \<open>Laws of replay\<close>

lemma apply_ops_append: "apply_ops st (xs @ ys) = rbind (apply_ops st xs) (\<lambda>st. apply_ops st ys)"
proof (induction xs arbitrary: st)
  case (Cons op xs)
  then show ?case by (cases "apply_op st op") auto
qed simp

lemma apply_frames_append:
  "apply_frames st (xs @ ys) = rbind (apply_frames st xs) (\<lambda>st. apply_frames st ys)"
proof (induction xs arbitrary: st)
  case (Cons f xs)
  then show ?case by (cases "apply_ops st (fr_ops f)") auto
qed simp

text \<open>The fields that replay does not look at pass through.\<close>

definition with_txn_seq :: "nat \<Rightarrow> db_state \<Rightarrow> db_state" where
  "with_txn_seq n st = st\<lparr>ds_next_txn_seq := n\<rparr>"

lemma apply_op_txn_seq: "apply_op (with_txn_seq n st) op = rbind (apply_op st op) (\<lambda>st. Inr (with_txn_seq n st))"
proof (cases op)
  case (WalMetaReplace bs)
  then show ?thesis by (cases "decode_meta bs") (simp_all add: with_txn_seq_def)
qed (simp_all add: with_txn_seq_def Let_def)

lemma apply_ops_txn_seq: "apply_ops (with_txn_seq n st) ops = rbind (apply_ops st ops) (\<lambda>st. Inr (with_txn_seq n st))"
proof (induction ops arbitrary: st)
  case (Cons op ops)
  then show ?case by (cases "apply_op st op") (simp_all add: apply_op_txn_seq)
qed simp

end
