(* ===== verification/Fs_Txn.thy ===== *)
theory Fs_Txn
  imports Fs_State Memory_View Memory_Savepoint
begin

text \<open>
  Transactions of the filesystem backend, \<open>boa_idb_fs/src/txn.rs\<close>, up to their commit. The overlay
  of pending changes, the undo logs and the scope are those of the in-memory backend, whose code
  the two crates share word for word: they are a nested \<open>memory_txn\<close>, and the operations on them
  are its operations. What this backend adds is modelled here: the record quota with its running
  key count, the mark of a changed schema, and the log operations a commit writes. The state
  behind the shared lock is an argument.
\<close>

record fs_txn =
  ft_base :: memory_txn
  ft_durability :: durability
  ft_max_keys_in_memory :: nat
  ft_max_frame_payload :: u32
  ft_schema_dirty :: bool
  ft_key_delta :: int
  ft_key_delta_stack :: "int list"

type_synonym 'a ft_result = "(backend_error + 'a) \<times> fs_txn"

definition ft_new ::
    "txn_mode \<Rightarrow> store_id list \<Rightarrow> database_meta \<Rightarrow> durability \<Rightarrow> nat \<Rightarrow> u32 \<Rightarrow> fs_txn" where
  "ft_new mode scope meta dur max_keys max_payload =
     \<lparr>ft_base = mt_new mode scope meta, ft_durability = dur, ft_max_keys_in_memory = max_keys,
      ft_max_frame_payload = max_payload, ft_schema_dirty = False, ft_key_delta = 0,
      ft_key_delta_stack = []\<rparr>"

text \<open>The maps of the state that the overlay is read against.\<close>

definition committed :: "db_state \<Rightarrow> storage_state" where
  "committed st = \<lparr>databases = Map.empty, records = ds_records st, index_entries = ds_index_entries st,
     key_generators = ds_key_generators st\<rparr>"

definition wants_sync :: "fs_txn \<Rightarrow> bool" where
  "wants_sync t = (ft_durability t = DurStrict)"

definition apply_record_transition :: "int \<Rightarrow> bool \<Rightarrow> bool \<Rightarrow> int" where
  "apply_record_transition delta before after =
     (if \<not> before \<and> after then delta + 1 else if before \<and> \<not> after then delta - 1 else delta)"

definition projected_key_count_for_insert :: "db_state \<Rightarrow> fs_txn \<Rightarrow> nat" where
  "projected_key_count_for_insert st t = nat (max (int (key_count st) + ft_key_delta t + 1) 0)"

text \<open>An operation of the overlay that leaves the key count alone.\<close>

definition on_base :: "'a mt_result \<Rightarrow> fs_txn \<Rightarrow> 'a ft_result" where
  "on_base r t = (fst r, t\<lparr>ft_base := snd r\<rparr>)"

section \<open>Requests\<close>

definition ft_begin_request :: "fs_txn \<Rightarrow> unit ft_result" where
  "ft_begin_request t =
     on_base (mt_begin_request (ft_base t)) (t\<lparr>ft_key_delta_stack := ft_key_delta_stack t @ [ft_key_delta t]\<rparr>)"

definition ft_commit_request :: "fs_txn \<Rightarrow> unit ft_result" where
  "ft_commit_request t =
     (if undo_stack (ft_base t) = [] then (Inl BeInternal, t)
      else on_base (mt_commit_request (ft_base t)) (t\<lparr>ft_key_delta_stack := butlast (ft_key_delta_stack t)\<rparr>))"

definition ft_rollback_request :: "fs_txn \<Rightarrow> unit ft_result" where
  "ft_rollback_request t =
     (if undo_stack (ft_base t) = [] then (Inl BeInternal, t)
      else
        let t = (if ft_key_delta_stack t = [] then t
                 else t\<lparr>ft_key_delta := last (ft_key_delta_stack t),
                        ft_key_delta_stack := butlast (ft_key_delta_stack t)\<rparr>)
        in on_base (mt_rollback_request (ft_base t)) t)"

section \<open>Schema\<close>

text \<open>Every schema operation fails outside a version change, without effect, and marks the schema as
  changed otherwise.\<close>

definition dirty :: "'a mt_result \<Rightarrow> fs_txn \<Rightarrow> 'a ft_result" where
  "dirty r t =
     (case fst r of
        Inl e \<Rightarrow> (Inl e, t)
      | Inr x \<Rightarrow> (Inr x, t\<lparr>ft_base := snd r, ft_schema_dirty := True\<rparr>))"

definition ft_set_version :: "fs_txn \<Rightarrow> u64 \<Rightarrow> unit ft_result" where
  "ft_set_version t version = dirty (mt_set_version (ft_base t) version) t"

definition ft_create_store :: "fs_txn \<Rightarrow> store_spec \<Rightarrow> store_id ft_result" where
  "ft_create_store t spec = dirty (mt_create_store (ft_base t) spec) t"

definition ft_delete_store :: "fs_txn \<Rightarrow> store_id \<Rightarrow> unit ft_result" where
  "ft_delete_store t i = dirty (mt_delete_store (ft_base t) i) t"

definition ft_rename_store :: "fs_txn \<Rightarrow> store_id \<Rightarrow> utf16 \<Rightarrow> unit ft_result" where
  "ft_rename_store t i name = dirty (mt_rename_store (ft_base t) i name) t"

definition ft_create_index :: "fs_txn \<Rightarrow> store_id \<Rightarrow> index_spec \<Rightarrow> index_id ft_result" where
  "ft_create_index t store spec = dirty (mt_create_index (ft_base t) store spec) t"

definition ft_delete_index :: "fs_txn \<Rightarrow> store_id \<Rightarrow> index_id \<Rightarrow> unit ft_result" where
  "ft_delete_index t store i = dirty (mt_delete_index (ft_base t) store i) t"

definition ft_rename_index :: "fs_txn \<Rightarrow> store_id \<Rightarrow> index_id \<Rightarrow> utf16 \<Rightarrow> unit ft_result" where
  "ft_rename_index t store i name = dirty (mt_rename_index (ft_base t) store i name) t"

section \<open>Records\<close>

definition ft_put :: "db_state \<Rightarrow> fs_txn \<Rightarrow> store_id \<Rightarrow> bytes \<Rightarrow> bytes \<Rightarrow> bool \<Rightarrow> unit ft_result" where
  "ft_put st t store key val no_overwrite =
     (case guard_write (ft_base t) store of
        Inl e \<Rightarrow> (Inl e, t)
      | Inr _ \<Rightarrow>
          let map_key = (store, key); existed = record_exists (committed st) (ft_base t) map_key in
          if no_overwrite \<and> existed then (Inl BeConstraint, t)
          else if \<not> existed \<and> projected_key_count_for_insert st t > ft_max_keys_in_memory t
          then (Inl (BeQuotaExceeded (projected_key_count_for_insert st t) (ft_max_keys_in_memory t)), t)
          else (Inr (), t\<lparr>ft_base := set_pending map_key (Some val) (ft_base t),
                          ft_key_delta := apply_record_transition (ft_key_delta t) existed True\<rparr>))"

definition ft_get :: "db_state \<Rightarrow> fs_txn \<Rightarrow> store_id \<Rightarrow> bytes \<Rightarrow> backend_error + bytes option" where
  "ft_get st t store key = mt_get (committed st) (ft_base t) store key"

definition ft_delete_record :: "db_state \<Rightarrow> fs_txn \<Rightarrow> store_id \<Rightarrow> bytes \<Rightarrow> bool ft_result" where
  "ft_delete_record st t store key =
     (case guard_write (ft_base t) store of
        Inl e \<Rightarrow> (Inl e, t)
      | Inr _ \<Rightarrow>
          let map_key = (store, key); existed = (read_record (committed st) (ft_base t) map_key \<noteq> None)
          in (Inr existed, t\<lparr>ft_base := set_pending map_key None (ft_base t),
                             ft_key_delta := apply_record_transition (ft_key_delta t) existed False\<rparr>))"

text \<open>The two loops of \<open>delete_range\<close>, and the loop of \<open>clear\<close>. The first runs over a hash set, in an
  order that is not specified; the model takes the order of the keys.\<close>

definition ft_delete_committed :: "db_state \<Rightarrow> record_key \<Rightarrow> nat \<times> fs_txn \<Rightarrow> nat \<times> fs_txn" where
  "ft_delete_committed st k acc =
     (let (count, t) = acc; before = (read_record (committed st) (ft_base t) k \<noteq> None)
      in (if before then count + 1 else count,
          t\<lparr>ft_base := set_pending k None (ft_base t),
            ft_key_delta := apply_record_transition (ft_key_delta t) before False\<rparr>))"

definition ft_delete_pending :: "record_key list \<Rightarrow> record_key \<Rightarrow> nat \<times> fs_txn \<Rightarrow> nat \<times> fs_txn" where
  "ft_delete_pending handled k acc =
     (let (count, t) = acc in
      if k \<in> set handled then (count, t)
      else case bt_get (pending_records (ft_base t)) k of
        Some (Some v) \<Rightarrow>
          let base = push_undo (RestoreRecord k (SlotValue v)) (ft_base t)
          in (count + 1, t\<lparr>ft_base := base\<lparr>pending_records := bt_remove k (pending_records base)\<rparr>,
                           ft_key_delta := apply_record_transition (ft_key_delta t) True False\<rparr>)
      | _ \<Rightarrow> (count, t))"

definition ft_delete_range :: "db_state \<Rightarrow> fs_txn \<Rightarrow> store_id \<Rightarrow> encoded_range \<Rightarrow> nat ft_result" where
  "ft_delete_range st t store rng =
     (case guard_write (ft_base t) store of
        Inl e \<Rightarrow> (Inl e, t)
      | Inr _ \<Rightarrow>
          let keys_in_range = range_keys store rng (ds_records st);
              pending_keys = range_keys store rng (pending_records (ft_base t));
              (count, t) = fold (ft_delete_pending keys_in_range) pending_keys
                             (fold (ft_delete_committed st) keys_in_range (0, t))
          in (Inr count, t))"

definition ft_clear_one :: "db_state \<Rightarrow> record_key \<Rightarrow> fs_txn \<Rightarrow> fs_txn" where
  "ft_clear_one st k t =
     (let before = (case pending_slot_of (ft_base t) k of
                      SlotAbsent \<Rightarrow> bt_contains_key (ds_records st) k
                    | SlotDeleted \<Rightarrow> False
                    | SlotValue _ \<Rightarrow> True)
      in t\<lparr>ft_base := set_pending k None (ft_base t),
           ft_key_delta := apply_record_transition (ft_key_delta t) before False\<rparr>)"

definition ft_clear :: "db_state \<Rightarrow> fs_txn \<Rightarrow> store_id \<Rightarrow> unit ft_result" where
  "ft_clear st t store =
     (case guard_write (ft_base t) store of
        Inl e \<Rightarrow> (Inl e, t)
      | Inr _ \<Rightarrow>
          let keys = range_keys store range_all (ds_records st);
              keys = keys @ filter (\<lambda>k. k \<notin> set keys) (range_keys store range_all (pending_records (ft_base t)))
          in (Inr (), fold (ft_clear_one st) keys t))"

definition ft_count :: "db_state \<Rightarrow> fs_txn \<Rightarrow> source_ref \<Rightarrow> encoded_range \<Rightarrow> backend_error + nat" where
  "ft_count st t src rng = mt_count (committed st) (ft_base t) src rng"

section \<open>Key generators and index entries\<close>

definition ft_key_gen_current :: "db_state \<Rightarrow> fs_txn \<Rightarrow> store_id \<Rightarrow> f64" where
  "ft_key_gen_current st t store = mt_key_gen_current (committed st) (ft_base t) store"

definition ft_key_gen_set :: "db_state \<Rightarrow> fs_txn \<Rightarrow> store_id \<Rightarrow> f64 \<Rightarrow> unit ft_result" where
  "ft_key_gen_set st t store val = on_base (mt_key_gen_set (committed st) (ft_base t) store val) t"

definition ft_index_put :: "db_state \<Rightarrow> fs_txn \<Rightarrow> index_id \<Rightarrow> bytes \<Rightarrow> bytes \<Rightarrow> bool \<Rightarrow> unit ft_result" where
  "ft_index_put st t index idx_key primary_key unique =
     on_base (mt_index_put (committed st) (ft_base t) index idx_key primary_key unique) t"

definition ft_index_delete :: "fs_txn \<Rightarrow> index_id \<Rightarrow> bytes \<Rightarrow> bytes \<Rightarrow> unit ft_result" where
  "ft_index_delete t index idx_key primary_key = on_base (mt_index_delete (ft_base t) index idx_key primary_key) t"

definition ft_index_delete_by_primary :: "db_state \<Rightarrow> fs_txn \<Rightarrow> index_id \<Rightarrow> bytes \<Rightarrow> unit ft_result" where
  "ft_index_delete_by_primary st t index primary_key =
     on_base (mt_index_delete_by_primary (committed st) (ft_base t) index primary_key) t"

section \<open>What a commit writes\<close>

definition build_commit_payload :: "fs_txn \<Rightarrow> wal_op list \<times> database_meta \<times> bool" where
  "build_commit_payload t =
     (let b = ft_base t;
          ops = map (\<lambda>(k, v). case v of Some val \<Rightarrow> WalPut (fst k) (snd k) val | None \<Rightarrow> WalDelete (fst k) (snd k))
                  (bt_entries (pending_records b));
          ops = ops @ map (\<lambda>((index, ik, pk), exists). if exists then WalIndexPut index ik pk else WalIndexDelete index ik pk)
                  (bt_entries (pending_index_entries b));
          ops = ops @ map (\<lambda>(store, val). WalKeyGenSet store val) (bt_entries (pending_key_generators b));
          meta = fold (\<lambda>(store, val). set_key_gen store val) (bt_entries (pending_key_generators b)) (mt_meta b);
          schema_dirty = (ft_schema_dirty t \<or> bt_entries (pending_key_generators b) \<noteq> []);
          ops = (if schema_dirty then ops @ [WalMetaReplace (encode_meta meta)] else ops)
      in (ops, meta, schema_dirty))"

definition apply_pending_to_state :: "fs_txn \<Rightarrow> database_meta \<Rightarrow> nat \<Rightarrow> bool \<Rightarrow> db_state \<Rightarrow> db_state" where
  "apply_pending_to_state t meta txn_seq bump_seq st =
     (let st = (if bump_seq then st\<lparr>ds_next_txn_seq := saturating_inc txn_seq\<rparr> else st) in
      st\<lparr>ds_records := fold (\<lambda>(k, v) m. case v of Some val \<Rightarrow> bt_insert k val m | None \<Rightarrow> bt_remove k m)
                      (bt_entries (pending_records (ft_base t))) (ds_records st),
         ds_index_entries := fold (\<lambda>(k, live) m. if live then bt_insert k () m else bt_remove k m)
                      (bt_entries (pending_index_entries (ft_base t))) (ds_index_entries st),
         ds_key_generators := fold (\<lambda>(store, val) m. m(store \<mapsto> val))
                      (bt_entries (pending_key_generators (ft_base t))) (ds_key_generators st),
         ds_meta := Some meta\<rparr>)"

section \<open>Replaying a commit\<close>

lemma apply_ops_records:
  "apply_ops st (map (\<lambda>(k, v). case v of Some val \<Rightarrow> WalPut (fst k) (snd k) val | None \<Rightarrow> WalDelete (fst k) (snd k)) es) =
     Inr (st\<lparr>ds_records := fold (\<lambda>(k, v) m. case v of Some val \<Rightarrow> bt_insert k val m | None \<Rightarrow> bt_remove k m)
                           es (ds_records st)\<rparr>)"
  by (induction es arbitrary: st) (auto split: option.split)

lemma apply_ops_index:
  "apply_ops st (map (\<lambda>((index, ik, pk), exists). if exists then WalIndexPut index ik pk else WalIndexDelete index ik pk) es) =
     Inr (st\<lparr>ds_index_entries := fold (\<lambda>(k, live) m. if live then bt_insert k () m else bt_remove k m)
                                 es (ds_index_entries st)\<rparr>)"
  by (induction es arbitrary: st) auto

lemma apply_ops_key_gens:
  "apply_ops st (map (\<lambda>(store, val). WalKeyGenSet store val) es) =
     Inr (st\<lparr>ds_key_generators := fold (\<lambda>(store, val) m. m(store \<mapsto> val)) es (ds_key_generators st),
             ds_meta := map_option (fold (\<lambda>(store, val). set_key_gen store val) es) (ds_meta st)\<rparr>)"
  by (induction es arbitrary: st) (auto simp: option.map_comp comp_def option.map_ident option.map_id)

text \<open>Applying the log operations of a commit to a state does to its data what the commit does in
  memory; the metadata follow when the schema or a generator has changed.\<close>

lemma apply_commit_payload:
  assumes "build_commit_payload t = (ops, meta, schema_dirty)" "meta_ok meta"
  shows "apply_ops st ops =
    Inr ((apply_pending_to_state t meta seq False st)\<lparr>ds_meta := (if schema_dirty then Some meta else ds_meta st)\<rparr>)"
proof (cases schema_dirty)
  case True
  then show ?thesis
    using assms
    by (auto simp: build_commit_payload_def Let_def apply_ops_append apply_ops_records apply_ops_index
        apply_ops_key_gens apply_pending_to_state_def decode_encode_meta)
next
  case False
  then have "bt_entries (pending_key_generators (ft_base t)) = []"
    using assms(1) by (simp add: build_commit_payload_def Let_def)
  then show ?thesis
    using assms False
    by (auto simp: build_commit_payload_def Let_def apply_ops_append apply_ops_records apply_ops_index
        apply_pending_to_state_def)
qed

lemma apply_pending_bump:
  "apply_pending_to_state t meta seq True st =
     (apply_pending_to_state t meta seq False st)\<lparr>ds_next_txn_seq := saturating_inc seq\<rparr>"
  by (simp add: apply_pending_to_state_def Let_def)

end
