(* ===== verification/Fs_Quota.thy ===== *)
theory Fs_Quota
  imports Fs_Txn
begin

text \<open>
  The record quota of the filesystem transaction, \<open>boa_idb_fs/src/txn.rs\<close>: the running difference
  \<open>key_delta\<close> always is the number of live records minus the number of committed ones, through
  every operation, nested request and rollback, so the projection that an insertion is checked
  against is the exact number of records after it.
\<close>

definition live :: "db_state \<Rightarrow> memory_txn \<Rightarrow> record_key set" where
  "live st b = {k. view (committed st) b k \<noteq> None}"

definition counted :: "db_state \<Rightarrow> nat \<Rightarrow> memory_txn \<Rightarrow> int \<Rightarrow> bool" where
  "counted st max_keys b d \<longleftrightarrow>
     int (card (live st b)) = int (key_count st) + d \<and> card (live st b) \<le> max_keys"

text \<open>At every open request, undoing the changes since its begin leaves a transaction whose count is
  the one saved at that begin.\<close>

inductive delta_inv :: "db_state \<Rightarrow> nat \<Rightarrow> memory_txn \<Rightarrow> int \<Rightarrow> int list \<Rightarrow> bool" for st max_keys where
  delta_base: "counted st max_keys b d \<Longrightarrow> undo_stack b = [] \<Longrightarrow> delta_inv st max_keys b d []"
| delta_level: "counted st max_keys b d \<Longrightarrow> undo_stack b = stack @ [log] \<Longrightarrow>
    delta_inv st max_keys (undo_all log (b\<lparr>undo_stack := stack\<rparr>)) d' ds \<Longrightarrow>
    delta_inv st max_keys b d (ds @ [d'])"

inductive_cases delta_inv_Nil: "delta_inv st max_keys b d []"
inductive_cases delta_inv_snoc: "delta_inv st max_keys b d (ds @ [d'])"

lemma finite_live [simp]: "finite (live st b)"
  unfolding live_def by (rule finite_view)

lemma live_same: "same_data s b b' \<Longrightarrow> live st b = live st b'"
  by (simp add: live_def view_def read_record_def same_data_def)

lemma counted_same: "same_data s b b' \<Longrightarrow> counted st m b d = counted st m b' d"
  by (simp add: counted_def live_same)

lemma delta_inv_counted: "delta_inv st m b d ds \<Longrightarrow> counted st m b d"
  by (induction rule: delta_inv.induct) auto

lemma delta_inv_same:
  "delta_inv st m b d ds \<Longrightarrow> same_data s b b' \<Longrightarrow> undo_stack b' = undo_stack b \<Longrightarrow> delta_inv st m b' d ds"
proof (induction arbitrary: b' rule: delta_inv.induct)
  case (delta_base b d)
  then show ?case by (auto intro: delta_inv.delta_base simp flip: counted_same)
next
  case (delta_level b d stack log d' ds)
  have "same_data s (undo_all log (b\<lparr>undo_stack := stack\<rparr>)) (undo_all log (b'\<lparr>undo_stack := stack\<rparr>))"
    using delta_level.prems(1) by (intro undo_all_same_data) simp
  then have "delta_inv st m (undo_all log (b'\<lparr>undo_stack := stack\<rparr>)) d' ds"
    by (rule delta_level.IH) simp
  moreover have "counted st m b' d" using delta_level by (simp flip: counted_same)
  ultimately show ?case using delta_level by (intro delta_inv.delta_level) auto
qed

text \<open>An operation that logs what it does keeps every saved count.\<close>

lemma delta_inv_logs:
  assumes "delta_inv st m b d ds" "logs s b b'" "counted st m b' d'"
  shows "delta_inv st m b' d' ds"
proof -
  obtain ops where ops: "undo_stack b' = extend_log ops (undo_stack b)" "same_data s (undo_all ops b') b"
    using assms(2) by (auto simp: logs_def)
  from assms(1) show ?thesis
  proof cases
    case delta_base
    then show ?thesis using ops assms(3) by (auto intro: delta_inv.delta_base simp: extend_log_def)
  next
    case (delta_level stack log d0 ds0)
    have "same_data s (undo_all log (b\<lparr>undo_stack := stack\<rparr>)) (undo_all (log @ ops) (b'\<lparr>undo_stack := stack\<rparr>))"
    proof -
      have "same_data s (undo_all log b) (undo_all log (undo_all ops b'))"
        using ops(2) by (intro undo_all_same_data) (simp add: same_data_def)
      then show ?thesis by simp
    qed
    then have "delta_inv st m (undo_all (log @ ops) (b'\<lparr>undo_stack := stack\<rparr>)) d0 ds0"
      by (rule delta_inv_same [OF delta_level(4)]) simp
    then show ?thesis
      using delta_level ops(1) assms(3) by (auto intro!: delta_inv.delta_level simp: extend_log_def)
  qed
qed

section \<open>Operations\<close>

definition quota_inv :: "db_state \<Rightarrow> nat \<Rightarrow> fs_txn \<Rightarrow> bool" where
  "quota_inv st m t \<longleftrightarrow> ft_max_keys_in_memory t = m \<and>
     delta_inv st m (ft_base t) (ft_key_delta t) (ft_key_delta_stack t)"

lemma live_upd: "live st (set_pending k v b) = (if v = None then live st b - {k} else insert k (live st b))"
  by (auto simp: live_def)

lemma view_live: "view (committed st) b k \<noteq> None \<longleftrightarrow> k \<in> live st b"
  by (simp add: live_def)

lemma counted_remove:
  assumes "counted st m b d" "live st b' = live st b - {k}"
  shows "counted st m b' (apply_record_transition d (k \<in> live st b) False)"
proof (cases "k \<in> live st b")
  case True
  then have "card (live st b) = card (live st b') + 1"
    unfolding assms(2) using card_Suc_Diff1 [OF finite_live True] by simp
  then show ?thesis using assms(1) True by (simp add: counted_def apply_record_transition_def)
next
  case False
  then have "live st b' = live st b" using assms(2) by auto
  then show ?thesis using assms(1) False by (simp add: counted_def apply_record_transition_def)
qed

lemma counted_delete:
  "counted st m b d \<Longrightarrow>
   counted st m (set_pending k None b) (apply_record_transition d (view (committed st) b k \<noteq> None) False)"
  unfolding view_live by (rule counted_remove) (simp_all add: live_upd)

lemma quota_keeps:
  assumes "quota_inv st m t" "logs s (ft_base t) b'" "counted st m b' d'"
  shows "quota_inv st m (t\<lparr>ft_base := b', ft_key_delta := d'\<rparr>)"
  using assms delta_inv_logs [of st m "ft_base t" "ft_key_delta t" "ft_key_delta_stack t"]
  by (simp add: quota_inv_def)

lemma quota_counted: "quota_inv st m t \<Longrightarrow> counted st m (ft_base t) (ft_key_delta t)"
  by (auto simp: quota_inv_def dest: delta_inv_counted)

lemma quota_on_base:
  assumes "quota_inv st m t" "logs s (ft_base t) b'" "pending_records b' = pending_records (ft_base t)"
  shows "quota_inv st m (t\<lparr>ft_base := b'\<rparr>)"
proof -
  have "counted st m b' (ft_key_delta t)"
    using quota_counted [OF assms(1)] assms(3) by (simp add: counted_def live_def view_def read_record_def)
  from quota_keeps [OF assms(1,2) this] show ?thesis by simp
qed

lemma quota_put:
  assumes "quota_inv st m t" "ft_put st t store key val no = (r, u)"
  shows "quota_inv st m u"
proof -
  let ?k = "(store, key)" let ?e = "record_exists (committed st) (ft_base t) ?k"
  have c: "counted st m (ft_base t) (ft_key_delta t)" using assms(1) by (rule quota_counted)
  have e: "?e \<longleftrightarrow> ?k \<in> live st (ft_base t)" by (simp add: record_exists_iff live_def)
  show ?thesis
  proof (cases "r = Inr ()")
    case True
    then have u: "u = t\<lparr>ft_base := set_pending ?k (Some val) (ft_base t),
        ft_key_delta := apply_record_transition (ft_key_delta t) ?e True\<rparr>"
      and room: "\<not> ?e \<longrightarrow> projected_key_count_for_insert st t \<le> m"
      using assms by (auto simp: ft_put_def Let_def quota_inv_def split: sum.splits if_splits)
    have "counted st m (set_pending ?k (Some val) (ft_base t)) (apply_record_transition (ft_key_delta t) ?e True)"
    proof (cases ?e)
      case True
      then have "insert ?k (live st (ft_base t)) = live st (ft_base t)" using e by auto
      then show ?thesis using True c by (simp add: counted_def live_upd apply_record_transition_def)
    next
      case False
      then have "card (insert ?k (live st (ft_base t))) = card (live st (ft_base t)) + 1" using e by simp
      moreover have "card (live st (ft_base t)) + 1 \<le> m"
        using room False c unfolding projected_key_count_for_insert_def counted_def by linarith
      ultimately show ?thesis
        using False c by (simp add: counted_def live_upd apply_record_transition_def)
    qed
    then show ?thesis unfolding u using assms(1) logs_set_pending by (intro quota_keeps)
  next
    case False
    then have "u = t" using assms(2) by (auto simp: ft_put_def Let_def split: sum.splits if_splits)
    then show ?thesis using assms(1) by simp
  qed
qed

lemma quota_delete_one:
  assumes "quota_inv st m t"
  shows "quota_inv st m (t\<lparr>ft_base := set_pending k None (ft_base t),
    ft_key_delta := apply_record_transition (ft_key_delta t) (view (committed st) (ft_base t) k \<noteq> None) False\<rparr>)"
  using assms counted_delete [OF quota_counted [OF assms]] logs_set_pending by (intro quota_keeps)

lemma quota_fold:
  assumes "\<And>x t. quota_inv st m t \<Longrightarrow> quota_inv st m (f x t)" "quota_inv st m t"
  shows "quota_inv st m (fold f xs t)"
  using assms(2) by (induction xs arbitrary: t) (auto intro: assms(1))

lemma quota_fold_snd:
  assumes "\<And>x acc. x \<in> set xs \<Longrightarrow> quota_inv st m (snd acc) \<Longrightarrow> quota_inv st m (snd (f x acc))"
    "quota_inv st m (snd acc)"
  shows "quota_inv st m (snd (fold f xs acc))"
  using assms by (induction xs arbitrary: acc) auto

lemma quota_delete_committed:
  "quota_inv st m (snd acc) \<Longrightarrow> quota_inv st m (snd (ft_delete_committed st k acc))"
  using quota_delete_one [of st m "snd acc" k] by (simp add: ft_delete_committed_def Let_def split_beta view_def)

lemma quota_delete_pending:
  assumes "quota_inv st m (snd acc)" "k \<notin> set handled \<Longrightarrow> bt_get (ds_records st) k = None"
  shows "quota_inv st m (snd (ft_delete_pending handled k acc))"
proof -
  obtain c t where acc: "acc = (c, t)" by (cases acc)
  have inv: "quota_inv st m t" using assms(1) acc by simp
  show ?thesis
  proof (cases "\<exists>v. k \<notin> set handled \<and> bt_get (pending_records (ft_base t)) k = Some (Some v)")
    case True
    then obtain v where v: "k \<notin> set handled" "bt_get (pending_records (ft_base t)) k = Some (Some v)" by blast
    define b where "b = snd (delete_pending handled k (c, ft_base t))"
    have logs: "logs (committed st) (ft_base t) b"
      using logs_delete_pending [of "committed st" "(c, ft_base t)" handled k] by (simp add: b_def)
    have b: "b = (push_undo (RestoreRecord k (SlotValue v)) (ft_base t))
        \<lparr>pending_records := bt_remove k (pending_records (ft_base t))\<rparr>"
      using v by (simp add: b_def delete_pending_def Let_def)
    have "view (committed st) b = (view (committed st) (ft_base t))(k := None)"
      using v(1) assms(2) by (auto simp: b view_def read_record_def committed_def fun_eq_iff)
    then have "live st b = live st (ft_base t) - {k}" by (auto simp: live_def)
    moreover have "k \<in> live st (ft_base t)" using v(2) by (simp add: live_def view_def read_record_def)
    ultimately have "counted st m b (apply_record_transition (ft_key_delta t) True False)"
      using counted_remove [OF quota_counted [OF inv], of b k] by simp
    from quota_keeps [OF inv logs this] show ?thesis
      using v by (simp add: acc b ft_delete_pending_def Let_def)
  next
    case False
    then have "ft_delete_pending handled k acc = acc"
      by (auto simp: acc ft_delete_pending_def split: option.splits)
    with assms(1) show ?thesis by simp
  qed
qed

lemma quota_clear_one: "quota_inv st m t \<Longrightarrow> quota_inv st m (ft_clear_one st k t)"
proof -
  assume inv: "quota_inv st m t"
  have "(case pending_slot_of (ft_base t) k of SlotAbsent \<Rightarrow> bt_contains_key (ds_records st) k
      | SlotDeleted \<Rightarrow> False | SlotValue _ \<Rightarrow> True) \<longleftrightarrow> view (committed st) (ft_base t) k \<noteq> None"
    by (auto simp: pending_slot_of_def view_def read_record_def committed_def split: option.splits)
  with quota_delete_one [OF inv, of k] show ?thesis by (simp add: ft_clear_one_def)
qed

lemma quota_delete_record:
  "quota_inv st m t \<Longrightarrow> ft_delete_record st t store key = (r, u) \<Longrightarrow> quota_inv st m u"
  using quota_delete_one [of st m t "(store, key)"]
  by (auto simp: ft_delete_record_def Let_def view_def split: sum.splits)

lemma quota_delete_range:
  assumes "quota_inv st m t" "ft_delete_range st t store rng = (r, u)"
  shows "quota_inv st m u"
proof (cases "guard_write (ft_base t) store")
  case (Inl e)
  with assms show ?thesis by (simp add: ft_delete_range_def)
next
  case (Inr x)
  let ?keys = "range_keys store rng (ds_records st)"
  let ?pend = "range_keys store rng (pending_records (ft_base t))"
  let ?acc = "fold (ft_delete_committed st) ?keys (0, t)"
  have "quota_inv st m (snd ?acc)"
    by (rule quota_fold_snd) (simp_all add: assms(1) quota_delete_committed)
  then have "quota_inv st m (snd (fold (ft_delete_pending ?keys) ?pend ?acc))"
    by (rule quota_fold_snd [rotated], intro quota_delete_pending) (auto simp: set_range_keys in_range_def)
  then show ?thesis
    using assms(2) Inr by (auto simp: ft_delete_range_def Let_def split: prod.splits)
qed

lemma quota_clear: "quota_inv st m t \<Longrightarrow> ft_clear st t store = (r, u) \<Longrightarrow> quota_inv st m u"
  by (auto simp: ft_clear_def Let_def intro!: quota_fold quota_clear_one split: sum.splits)

lemma quota_dirty:
  assumes "quota_inv st m t" "dirty (x, b') t = (r, u)" "logs (committed st) (ft_base t) b'"
    "pending_records b' = pending_records (ft_base t)"
  shows "quota_inv st m u"
proof -
  have "quota_inv st m (t\<lparr>ft_base := b'\<rparr>)" using assms by (intro quota_on_base)
  then show ?thesis using assms(1,2) by (auto simp: dirty_def quota_inv_def split: sum.splits)
qed

section \<open>Requests\<close>

lemma quota_begin: "quota_inv st m t \<Longrightarrow> ft_begin_request t = (r, u) \<Longrightarrow> quota_inv st m u"
proof -
  assume inv: "quota_inv st m t" and u: "ft_begin_request t = (r, u)"
  let ?b = "ft_base t"
  have "counted st m (?b\<lparr>undo_stack := undo_stack ?b @ [[]]\<rparr>) (ft_key_delta t)"
    using quota_counted [OF inv] by (simp add: counted_def live_def view_def read_record_def)
  moreover have "delta_inv st m ?b (ft_key_delta t) (ft_key_delta_stack t)"
    using inv by (simp add: quota_inv_def)
  ultimately have "delta_inv st m (?b\<lparr>undo_stack := undo_stack ?b @ [[]]\<rparr>) (ft_key_delta t)
      (ft_key_delta_stack t @ [ft_key_delta t])"
    by (intro delta_level [where stack = "undo_stack ?b" and log = "[]"]) simp_all
  then show ?thesis using inv u by (auto simp: ft_begin_request_def on_base_def mt_begin_request_def quota_inv_def)
qed

lemma quota_level:
  assumes "quota_inv st m t" "undo_stack (ft_base t) \<noteq> []"
  obtains stack log ds d' where "undo_stack (ft_base t) = stack @ [log]" "ft_key_delta_stack t = ds @ [d']"
    "delta_inv st m (undo_all log ((ft_base t)\<lparr>undo_stack := stack\<rparr>)) d' ds"
proof -
  have "delta_inv st m (ft_base t) (ft_key_delta t) (ft_key_delta_stack t)"
    using assms(1) by (simp add: quota_inv_def)
  then show ?thesis using assms(2) that by cases auto
qed

lemma quota_rollback: "quota_inv st m t \<Longrightarrow> ft_rollback_request t = (r, u) \<Longrightarrow> quota_inv st m u"
proof (cases "undo_stack (ft_base t) = []")
  case False
  assume inv: "quota_inv st m t" and u: "ft_rollback_request t = (r, u)"
  obtain stack log ds d' where lev: "undo_stack (ft_base t) = stack @ [log]" "ft_key_delta_stack t = ds @ [d']"
    "delta_inv st m (undo_all log ((ft_base t)\<lparr>undo_stack := stack\<rparr>)) d' ds"
    using quota_level [OF inv False] .
  then have "u = t\<lparr>ft_key_delta := d', ft_key_delta_stack := ds,
      ft_base := undo_all log ((ft_base t)\<lparr>undo_stack := stack\<rparr>)\<rparr>"
    using u by (simp add: ft_rollback_request_def on_base_def mt_rollback_request_def undo_all_def Let_def eq_commute)
  then show ?thesis using lev(3) inv by (simp add: quota_inv_def)
qed (simp add: ft_rollback_request_def)

lemma quota_commit_request: "quota_inv st m t \<Longrightarrow> ft_commit_request t = (r, u) \<Longrightarrow> quota_inv st m u"
proof (cases "undo_stack (ft_base t) = []")
  case False
  assume inv: "quota_inv st m t" and u: "ft_commit_request t = (r, u)"
  let ?b = "ft_base t" let ?d = "ft_key_delta t"
  obtain stack log ds d' where lev: "undo_stack ?b = stack @ [log]" "ft_key_delta_stack t = ds @ [d']"
    "delta_inv st m (undo_all log (?b\<lparr>undo_stack := stack\<rparr>)) d' ds"
    using quota_level [OF inv False] .
  have c: "counted st m (?b\<lparr>undo_stack := x\<rparr>) ?d" for x
    using quota_counted [OF inv] by (simp add: counted_def live_def view_def read_record_def)
  have u: "u = t\<lparr>ft_key_delta_stack := ds,
      ft_base := ?b\<lparr>undo_stack := (if stack = [] then [] else butlast stack @ [last stack @ log])\<rparr>\<rparr>"
    using u lev by (simp add: ft_commit_request_def on_base_def mt_commit_request_def Let_def eq_commute)
  have "delta_inv st m (?b\<lparr>undo_stack := (if stack = [] then [] else butlast stack @ [last stack @ log])\<rparr>) ?d ds"
    using lev(3)
  proof cases
    case delta_base
    then show ?thesis using c by (auto intro: delta_inv.delta_base)
  next
    case (delta_level stack0 log0 d0 ds0)
    then show ?thesis using c by (auto intro!: delta_inv.delta_level [where stack = stack0 and log = "log0 @ log"])
  qed
  then show ?thesis using inv u by (simp add: quota_inv_def)
qed (simp add: ft_commit_request_def)

section \<open>Runs\<close>

text \<open>One call on the transaction, requests included, whatever its result.\<close>

inductive ft_op :: "db_state \<Rightarrow> fs_txn \<Rightarrow> fs_txn \<Rightarrow> bool" for st where
  "ft_begin_request t = (r, u) \<Longrightarrow> ft_op st t u"
| "ft_commit_request t = (r, u) \<Longrightarrow> ft_op st t u"
| "ft_rollback_request t = (r, u) \<Longrightarrow> ft_op st t u"
| "ft_set_version t v = (r, u) \<Longrightarrow> ft_op st t u"
| "ft_create_store t spec = (r', u) \<Longrightarrow> ft_op st t u"
| "ft_delete_store t i = (r, u) \<Longrightarrow> ft_op st t u"
| "ft_rename_store t i name = (r, u) \<Longrightarrow> ft_op st t u"
| "ft_create_index t i ispec = (r', u) \<Longrightarrow> ft_op st t u"
| "ft_delete_index t i j = (r, u) \<Longrightarrow> ft_op st t u"
| "ft_rename_index t i j name = (r, u) \<Longrightarrow> ft_op st t u"
| "ft_put st t i key val no = (r, u) \<Longrightarrow> ft_op st t u"
| "ft_delete_record st t i key = (rb, u) \<Longrightarrow> ft_op st t u"
| "ft_delete_range st t i rng = (rn, u) \<Longrightarrow> ft_op st t u"
| "ft_clear st t i = (r, u) \<Longrightarrow> ft_op st t u"
| "ft_key_gen_set st t i v' = (r, u) \<Longrightarrow> ft_op st t u"
| "ft_index_put st t i ik pk unique = (r, u) \<Longrightarrow> ft_op st t u"
| "ft_index_delete t i ik pk = (r, u) \<Longrightarrow> ft_op st t u"
| "ft_index_delete_by_primary st t i pk = (r, u) \<Longrightarrow> ft_op st t u"

inductive ft_run :: "db_state \<Rightarrow> fs_txn \<Rightarrow> fs_txn \<Rightarrow> bool" for st where
  run_nil: "ft_run st t t"
| run_step: "ft_run st t u \<Longrightarrow> ft_op st u v \<Longrightarrow> ft_run st t v"

lemma schema_keeps:
  "logs s t (snd (mt_set_version t v))" "pending_records (snd (mt_set_version t v)) = pending_records t"
  "logs s t (snd (mt_create_store t spec))" "pending_records (snd (mt_create_store t spec)) = pending_records t"
  "logs s t (snd (mt_delete_store t i))" "pending_records (snd (mt_delete_store t i)) = pending_records t"
  "logs s t (snd (mt_rename_store t i name))" "pending_records (snd (mt_rename_store t i name)) = pending_records t"
  "logs s t (snd (mt_create_index t i ispec))" "pending_records (snd (mt_create_index t i ispec)) = pending_records t"
  "logs s t (snd (mt_delete_index t i j))" "pending_records (snd (mt_delete_index t i j)) = pending_records t"
  "logs s t (snd (mt_rename_index t i j name))" "pending_records (snd (mt_rename_index t i j name)) = pending_records t"
  using logs_op [OF op_set_version, of t v _ _ s] logs_op [OF op_create_store, of t spec _ _ s]
    logs_op [OF op_delete_store, of t i _ _ s] logs_op [OF op_rename_store, of t i name _ _ s]
    logs_op [OF op_create_index, of t i ispec _ _ s] logs_op [OF op_delete_index, of t i j _ _ s]
    logs_op [OF op_rename_index, of t i j name _ _ s]
  by (simp_all add: prod_eq_iff mt_set_version_def mt_create_store_def mt_delete_store_def
      mt_rename_store_def mt_create_index_def mt_delete_index_def mt_rename_index_def update_store_def Let_def)

lemma pending_fold_index: "pending_records (fold (\<lambda>ik. set_pending_index (i, ik, pk) False) iks t) = pending_records t"
  by (induction iks arbitrary: t) (simp_all add: set_pending_index_def Let_def)

lemma entry_keeps:
  "logs s t (snd (mt_key_gen_set s t i v))" "pending_records (snd (mt_key_gen_set s t i v)) = pending_records t"
  "logs s t (snd (mt_index_put s t i ik pk unique))" "pending_records (snd (mt_index_put s t i ik pk unique)) = pending_records t"
  "logs s t (snd (mt_index_delete t i ik pk))" "pending_records (snd (mt_index_delete t i ik pk)) = pending_records t"
  "logs s t (snd (mt_index_delete_by_primary s t i pk))"
  "pending_records (snd (mt_index_delete_by_primary s t i pk)) = pending_records t"
  using logs_op [OF op_key_gen_set, of s t i v] logs_op [OF op_index_put, of s t i ik pk unique]
    logs_op [OF op_index_delete, of t i ik pk _ _ s] logs_op [OF op_index_delete_by_primary, of s t i pk]
  by (auto simp: prod_eq_iff mt_key_gen_set_def mt_index_put_def mt_index_delete_def
      mt_index_delete_by_primary_def set_pending_index_def pending_fold_index Let_def split: sum.split)

lemma quota_schema:
  "quota_inv st m t \<Longrightarrow> dirty r' t = (r, u) \<Longrightarrow> logs (committed st) (ft_base t) (snd r') \<Longrightarrow>
   pending_records (snd r') = pending_records (ft_base t) \<Longrightarrow> quota_inv st m u"
  by (cases r') (auto intro: quota_dirty)

lemma quota_entry:
  "quota_inv st m t \<Longrightarrow> on_base r' t = (r, u) \<Longrightarrow> logs (committed st) (ft_base t) (snd r') \<Longrightarrow>
   pending_records (snd r') = pending_records (ft_base t) \<Longrightarrow> quota_inv st m u"
  by (auto simp: on_base_def intro: quota_on_base)

lemmas quota_schema_ops =
  quota_schema [OF _ _ schema_keeps(1) schema_keeps(2), folded ft_set_version_def]
  quota_schema [OF _ _ schema_keeps(3) schema_keeps(4), folded ft_create_store_def]
  quota_schema [OF _ _ schema_keeps(5) schema_keeps(6), folded ft_delete_store_def]
  quota_schema [OF _ _ schema_keeps(7) schema_keeps(8), folded ft_rename_store_def]
  quota_schema [OF _ _ schema_keeps(9) schema_keeps(10), folded ft_create_index_def]
  quota_schema [OF _ _ schema_keeps(11) schema_keeps(12), folded ft_delete_index_def]
  quota_schema [OF _ _ schema_keeps(13) schema_keeps(14), folded ft_rename_index_def]

lemmas quota_entry_ops =
  quota_entry [OF _ _ entry_keeps(1) entry_keeps(2), folded ft_key_gen_set_def]
  quota_entry [OF _ _ entry_keeps(3) entry_keeps(4), folded ft_index_put_def]
  quota_entry [OF _ _ entry_keeps(5) entry_keeps(6), folded ft_index_delete_def]
  quota_entry [OF _ _ entry_keeps(7) entry_keeps(8), folded ft_index_delete_by_primary_def]

lemma quota_op: "ft_op st t u \<Longrightarrow> quota_inv st m t \<Longrightarrow> quota_inv st m u"
  by (induction rule: ft_op.induct)
    (blast intro: quota_begin quota_commit_request quota_rollback quota_put quota_delete_record
      quota_delete_range quota_clear quota_schema_ops quota_entry_ops)+

lemma quota_new:
  "key_count st \<le> m \<Longrightarrow> quota_inv st m (ft_new mode scope meta dur m payload)"
proof -
  assume le: "key_count st \<le> m"
  have "live st (mt_new mode scope meta) = set (bt_keys (ds_records st))"
    by (auto simp: live_def view_def read_record_def mt_new_def committed_def bt_keys_iff)
  then have "card (live st (mt_new mode scope meta)) = key_count st"
    by (simp add: key_count_def distinct_card bt_keys_distinct)
  then have "counted st m (mt_new mode scope meta) 0" using le by (simp add: counted_def)
  then have "delta_inv st m (mt_new mode scope meta) 0 []" by (rule delta_base) (simp add: mt_new_def)
  then show ?thesis by (simp add: quota_inv_def ft_new_def)
qed

lemma quota_run: "ft_run st t u \<Longrightarrow> quota_inv st m t \<Longrightarrow> quota_inv st m u"
  by (induction rule: ft_run.induct) (auto intro: quota_op)

text \<open>C21. The record quota is exact and is never exceeded: in whatever way a transaction is used,
  nested requests and rollbacks included, the committed count plus the running difference is the
  number of records it sees, which never passes the limit; inserting a new record is refused, with the
  exact numbers, precisely when it would; and writing over a record is never refused for the quota,
  even at the limit, only by \<open>add\<close>, as a constraint.\<close>

theorem quota_exact:
  assumes "key_count st \<le> max_keys" "ft_run st (ft_new mode scope meta dur max_keys payload) t"
  defines "n \<equiv> card {k. view (committed st) (ft_base t) k \<noteq> None}"
  shows "int (key_count st) + ft_key_delta t = int n \<and> n \<le> max_keys \<and>
    (\<forall>store key val no. guard_write (ft_base t) store = Inr () \<longrightarrow>
       fst (ft_put st t store key val no) =
         (if view (committed st) (ft_base t) (store, key) = None
          then if n + 1 > max_keys then Inl (BeQuotaExceeded (n + 1) max_keys) else Inr ()
          else if no then Inl BeConstraint else Inr ()))"
proof -
  have inv: "quota_inv st max_keys t" using quota_run [OF assms(2) quota_new [OF assms(1)]] .
  have n: "n = card (live st (ft_base t))" by (simp add: n_def live_def)
  have c: "int n = int (key_count st) + ft_key_delta t" "n \<le> max_keys"
    using quota_counted [OF inv] by (simp_all add: n counted_def)
  have "nat (max (int (key_count st) + ft_key_delta t + 1) 0) = n + 1" using c(1) by linarith
  then have p: "projected_key_count_for_insert st t = n + 1" by (simp add: projected_key_count_for_insert_def)
  have m: "ft_max_keys_in_memory t = max_keys" using inv by (simp add: quota_inv_def)
  show ?thesis
    using c by (auto simp: ft_put_def Let_def record_exists_iff p m)
qed

theorem quota_exact_witness:
  "let t = ft_new ReadWrite [2] (fresh_meta [100]) DurDefault 1 MAX_FRAME_PAYLOAD;
       u = snd (ft_put db_state_default t 2 [7] [8] False) in
   fst (ft_put db_state_default u 2 [9] [8] False) = Inl (BeQuotaExceeded 2 1) \<and>
   fst (ft_put db_state_default u 2 [7] [6] False) = Inr () \<and>
   fst (ft_put db_state_default u 2 [7] [6] True) = Inl BeConstraint"
proof -
  let ?st = db_state_default
  let ?t = "ft_new ReadWrite [2] (fresh_meta [100]) DurDefault 1 MAX_FRAME_PAYLOAD"
  let ?u = "snd (ft_put ?st ?t 2 [7] [8] False)"
  have empty: "bt_keys (bt_empty :: ('a::linorder, 'b) btree) = []" by (simp add: bt_keys_def bt_empty.rep_eq)
  have zero: "key_count ?st \<le> 1" by (simp add: key_count_def db_state_default_def empty)
  have "ft_run ?st ?t ?u"
    by (rule run_step [OF run_nil]) (rule ft_op.intros(11) [OF prod.collapse [symmetric]])
  note q = quota_exact [OF zero this]
  have u: "ft_base ?u = set_pending (2, [7]) (Some [8]) (mt_new ReadWrite [2] (fresh_meta [100]))"
    by (simp add: ft_put_def ft_new_def guard_write_def check_scope_def check_readwrite_def mt_new_def
        record_exists_def committed_def db_state_default_def projected_key_count_for_insert_def
        key_count_def empty Let_def)
  have base: "view (committed ?st) (mt_new ReadWrite [2] (fresh_meta [100])) = Map.empty"
    by (simp add: fun_eq_iff view_def read_record_def mt_new_def committed_def db_state_default_def)
  have v: "view (committed ?st) (ft_base ?u) = [(2, [7]) \<mapsto> [8]]"
    unfolding u by (simp add: base)
  have "{k. view (committed ?st) (ft_base ?u) k \<noteq> None} = {(2, [7])}"
    unfolding v by auto
  moreover have "guard_write (ft_base ?u) 2 = Inr ()"
    unfolding u by (simp add: set_pending_def mt_new_def guard_write_def check_scope_def check_readwrite_def push_undo_def)
  ultimately show ?thesis using q v by simp
qed

end
