(* ===== verification/Fs_Segment.thy ===== *)
theory Fs_Segment
  imports Fs_State
begin

text \<open>
  Segments, \<open>boa_idb_fs/src/segment.rs\<close>: the byte format of a full snapshot of the state. The
  order in which a hash map enumerates the key generators is not specified: the enumeration is an
  argument of the encoder, a list of the entries of the map.
\<close>

definition SEG_MAGIC :: nat where "SEG_MAGIC = of_le_bytes [0x49, 0x53, 0x45, 0x47]"
definition SEG_VERSION :: nat where "SEG_VERSION = 1"

definition write_seg_bytes :: "bytes \<Rightarrow> bytes \<Rightarrow> bytes" where
  "write_seg_bytes out bs = out @ le_bytes 4 (length bs) @ bs"

definition read_seg_bytes :: "bytes reader" where
  "read_seg_bytes r = rbind (rd_u32 r) (\<lambda>(len, r). rd_take len r)"

definition write_record_key :: "bytes \<Rightarrow> record_key \<Rightarrow> bytes" where
  "write_record_key out k = write_seg_bytes (out @ le_bytes 8 (fst k)) (snd k)"

definition read_record_key :: "record_key reader" where
  "read_record_key r =
     rbind (rd_u64 r) (\<lambda>(store, r). rbind (read_seg_bytes r) (\<lambda>(key, r). Inr ((store, key), r)))"

definition write_index_key :: "bytes \<Rightarrow> index_key \<Rightarrow> bytes" where
  "write_index_key out k =
     (case k of (index, ik, pk) \<Rightarrow> write_seg_bytes (write_seg_bytes (out @ le_bytes 8 index) ik) pk)"

definition read_index_key :: "index_key reader" where
  "read_index_key r =
     rbind (rd_u64 r) (\<lambda>(index, r).
     rbind (read_seg_bytes r) (\<lambda>(idx_key, r).
     rbind (read_seg_bytes r) (\<lambda>(primary, r). Inr ((index, idx_key, primary), r))))"

definition encode_segment :: "(store_id \<times> f64) list \<Rightarrow> nat \<Rightarrow> db_state \<Rightarrow> backend_error + bytes" where
  "encode_segment generators seq st =
     (case ds_meta st of
        None \<Rightarrow> Inl BeInternal
      | Some meta \<Rightarrow>
          let body = le_bytes 4 SEG_MAGIC @ le_bytes 4 SEG_VERSION @ le_bytes 8 seq @ le_bytes 8 (ds_next_txn_seq st);
              meta_bytes = encode_meta meta;
              body = body @ le_bytes 4 (length meta_bytes) @ meta_bytes;
              body = body @ le_bytes 4 (length (bt_entries (ds_records st)));
              body = fold (\<lambda>(k, v) body. write_seg_bytes (write_record_key body k) v) (bt_entries (ds_records st)) body;
              body = body @ le_bytes 4 (length (bt_keys (ds_index_entries st)));
              body = fold (\<lambda>k body. write_index_key body k) (bt_keys (ds_index_entries st)) body;
              body = body @ le_bytes 4 (length generators);
              body = fold (\<lambda>(store, val) body. body @ le_bytes 8 store @ le_bytes 8 (unat val)) generators body
          in Inr (body @ le_bytes 4 (unat (crc32c body))))"

definition decode_segment :: "bytes \<Rightarrow> db_state \<Rightarrow> backend_error + nat \<times> db_state" where
  "decode_segment bs st =
     (if length bs < 4 + 4 + 8 + 8 + 4 + 4 then Inl BeCorrupted
      else
        let body = take (length bs - 4) bs;
            expected = (word_of_nat (of_le_bytes (drop (length bs - 4) bs)) :: u32);
            actual = crc32c body in
        if expected \<noteq> actual then Inl BeCorrupted
        else
          rbind (rd_u32 body) (\<lambda>(magic, r).
          if magic \<noteq> SEG_MAGIC then Inl BeCorrupted else
          rbind (rd_u32 r) (\<lambda>(ver, r).
          if ver \<noteq> SEG_VERSION then Inl BeCorrupted else
          rbind (rd_u64 r) (\<lambda>(seq, r).
          rbind (rd_u64 r) (\<lambda>(next_txn_seq, r).
          rbind (rd_u32 r) (\<lambda>(meta_len, r).
          rbind (rd_take meta_len r) (\<lambda>(meta_bytes, r).
          rbind (decode_meta meta_bytes) (\<lambda>meta.
          rbind (rd_u32 r) (\<lambda>(n_records, r).
          rbind (rd_many n_records (\<lambda>r. rbind (read_record_key r) (\<lambda>(k, r).
                   rbind (read_seg_bytes r) (\<lambda>(v, r). Inr ((k, v), r)))) r) (\<lambda>(recs, r).
          rbind (rd_u32 r) (\<lambda>(n_index, r).
          rbind (rd_many n_index read_index_key r) (\<lambda>(index, r).
          rbind (rd_u32 r) (\<lambda>(n_kg, r).
          rbind (rd_many n_kg (\<lambda>r. rbind (rd_u64 r) (\<lambda>(store, r).
                   rbind (rd_u64 r) (\<lambda>(bits, r). Inr ((store, word_of_nat bits :: f64), r)))) r) (\<lambda>(kgs, r).
          if r \<noteq> [] then Inl BeCorrupted
          else Inr (seq, st\<lparr>ds_next_txn_seq := next_txn_seq, ds_meta := Some meta,
                           ds_records := fold (\<lambda>(k, v). bt_insert k v) recs bt_empty,
                           ds_index_entries := fold (\<lambda>k. bt_insert k ()) index bt_empty,
                           ds_key_generators := fold (\<lambda>(store, val) m. m(store \<mapsto> val)) kgs Map.empty\<rparr>)))))))))))))))"

section \<open>Round trip\<close>

definition sized32 :: "bytes \<Rightarrow> bytes" where
  "sized32 bs = le_bytes 4 (length bs) @ bs"

definition record_bytes :: "record_key \<times> bytes \<Rightarrow> bytes" where
  "record_bytes = (\<lambda>((store, key), v). le_bytes 8 store @ sized32 key @ sized32 v)"

definition index_key_bytes :: "index_key \<Rightarrow> bytes" where
  "index_key_bytes = (\<lambda>(index, ik, pk). le_bytes 8 index @ sized32 ik @ sized32 pk)"

definition generator_bytes :: "store_id \<times> f64 \<Rightarrow> bytes" where
  "generator_bytes = (\<lambda>(store, val). le_bytes 8 store @ le_bytes 8 (unat val))"

lemma write_seg_append [fs_bytes]:
  "write_seg_bytes out bs = out @ sized32 bs"
  "write_seg_bytes (write_record_key out (fst kv)) (snd kv) = out @ record_bytes kv"
  "write_index_key out k = out @ index_key_bytes k"
  by (auto simp: write_seg_bytes_def sized32_def write_record_key_def record_bytes_def
      write_index_key_def index_key_bytes_def split: prod.split)

definition segment_body :: "(store_id \<times> f64) list \<Rightarrow> nat \<Rightarrow> database_meta \<Rightarrow> db_state \<Rightarrow> bytes" where
  "segment_body generators seq meta st =
     le_bytes 4 SEG_MAGIC @ le_bytes 4 SEG_VERSION @ le_bytes 8 seq @ le_bytes 8 (ds_next_txn_seq st) @
     sized32 (encode_meta meta) @
     le_bytes 4 (length (bt_entries (ds_records st))) @ concat (map record_bytes (bt_entries (ds_records st))) @
     le_bytes 4 (length (bt_keys (ds_index_entries st))) @ concat (map index_key_bytes (bt_keys (ds_index_entries st))) @
     le_bytes 4 (length generators) @ concat (map generator_bytes generators)"

lemma fold_record_bytes:
  "fold (\<lambda>(k, v) body. write_seg_bytes (write_record_key body k) v) xs out = out @ concat (map record_bytes xs)"
  "fold (\<lambda>(store, val) body. body @ le_bytes 8 store @ le_bytes 8 (unat val)) gs out
     = out @ concat (map generator_bytes gs)"
proof -
  have "(\<lambda>(k, v) body. write_seg_bytes (write_record_key body k) v) = (\<lambda>kv body. body @ record_bytes kv)"
    by (auto simp: fun_eq_iff write_seg_append(2) [of _ "(_, _)", simplified])
  then show "fold (\<lambda>(k, v) body. write_seg_bytes (write_record_key body k) v) xs out = out @ concat (map record_bytes xs)"
    by (simp add: fold_out_concat)
  have "(\<lambda>(store, val) body. body @ le_bytes 8 store @ le_bytes 8 (unat val)) = (\<lambda>g body. body @ generator_bytes g)"
    by (auto simp: fun_eq_iff generator_bytes_def)
  then show "fold (\<lambda>(store, val) body. body @ le_bytes 8 store @ le_bytes 8 (unat val)) gs out
     = out @ concat (map generator_bytes gs)"
    by (simp add: fold_out_concat)
qed

lemma encode_segment_eq:
  "encode_segment generators seq st =
     (case ds_meta st of None \<Rightarrow> Inl BeInternal | Some meta \<Rightarrow> Inr (sealed (segment_body generators seq meta st)))"
  unfolding encode_segment_def Let_def fold_record_bytes
  by (simp add: segment_body_def sealed_def sized32_def write_seg_append(3) fold_out_concat split: option.split)

definition segment_ok :: "nat \<Rightarrow> db_state \<Rightarrow> bool" where
  "segment_ok seq st \<longleftrightarrow> seq < 2 ^ 64 \<and> ds_next_txn_seq st < 2 ^ 64 \<and>
     (\<forall>meta. ds_meta st = Some meta \<longrightarrow> meta_ok meta \<and> length (encode_meta meta) < 2 ^ 32) \<and>
     length (bt_entries (ds_records st)) < 2 ^ 32 \<and> length (bt_keys (ds_index_entries st)) < 2 ^ 32 \<and>
     list_all (\<lambda>((store, key), v). store < 2 ^ 64 \<and> length key < 2 ^ 32 \<and> length v < 2 ^ 32) (bt_entries (ds_records st)) \<and>
     list_all (\<lambda>(index, ik, pk). index < 2 ^ 64 \<and> length ik < 2 ^ 32 \<and> length pk < 2 ^ 32) (bt_keys (ds_index_entries st))"

definition enumerates :: "(store_id \<times> f64) list \<Rightarrow> db_state \<Rightarrow> bool" where
  "enumerates generators st \<longleftrightarrow> map_of generators = ds_key_generators st \<and> distinct (map fst generators) \<and>
     length generators < 2 ^ 32 \<and> list_all (\<lambda>(store, _). store < 2 ^ 64) generators"

lemma read_seg_bytes_append [fs_read]: "length bs < 2 ^ 32 \<Longrightarrow> read_seg_bytes (sized32 bs @ rest) = Inr (bs, rest)"
  by (simp add: read_seg_bytes_def sized32_def fs_read)

lemma read_index_key_append:
  "(case k of (index, ik, pk) \<Rightarrow> index < 2 ^ 64 \<and> length ik < 2 ^ 32 \<and> length pk < 2 ^ 32) \<Longrightarrow>
   read_index_key (index_key_bytes k @ rest) = Inr (k, rest)"
  by (cases k) (simp add: read_index_key_def index_key_bytes_def fs_read)

lemma read_record_append:
  "(case kv of ((store, key), v) \<Rightarrow> store < 2 ^ 64 \<and> length key < 2 ^ 32 \<and> length v < 2 ^ 32) \<Longrightarrow>
   rbind (read_record_key (record_bytes kv @ rest)) (\<lambda>(k, r).
     rbind (read_seg_bytes r) (\<lambda>(v, r). Inr ((k, v), r))) = Inr (kv, rest)"
  by (cases kv) (auto simp: read_record_key_def record_bytes_def fs_read)

lemma read_generator_append:
  "(case g of (store, _) \<Rightarrow> store < 2 ^ 64) \<Longrightarrow>
   rbind (rd_u64 (generator_bytes g @ rest)) (\<lambda>(store, r).
     rbind (rd_u64 r) (\<lambda>(bits, r). Inr ((store, word_of_nat bits :: f64), r))) = Inr (g, rest)"
  by (cases g) (simp add: generator_bytes_def fs_read)

lemma seg_magic_less: "SEG_MAGIC < 2 ^ 32" "SEG_VERSION < 2 ^ 32"
  by (simp_all add: SEG_MAGIC_def SEG_VERSION_def)

lemma decode_segment_body:
  assumes "ds_meta st = Some meta" "segment_ok seq st" "enumerates generators st"
  shows "decode_segment (sealed (segment_body generators seq meta st)) st0 =
    Inr (seq, st0\<lparr>ds_next_txn_seq := ds_next_txn_seq st, ds_meta := Some meta, ds_records := ds_records st,
      ds_index_entries := ds_index_entries st, ds_key_generators := ds_key_generators st\<rparr>)"
proof -
  let ?body = "segment_body generators seq meta st"
  have body: "take (length (sealed ?body) - 4) (sealed ?body) = ?body"
    "word_of_nat (of_le_bytes (drop (length (sealed ?body) - 4) (sealed ?body))) = crc32c ?body"
    by (simp_all add: sealed_def sealed_field)
  have long: "\<not> length (sealed ?body) < 4 + 4 + 8 + 8 + 4 + 4" by (simp add: segment_body_def sized32_def)
  have ok: "meta_ok meta" "length (encode_meta meta) < 4294967296" "seq < 18446744073709551616"
    "ds_next_txn_seq st < 18446744073709551616" "length (bt_entries (ds_records st)) < 4294967296"
    "length (bt_keys (ds_index_entries st)) < 4294967296" "length generators < 4294967296"
    using assms unfolding segment_ok_def enumerates_def by simp_all
  have recs: "rd_many (length (bt_entries (ds_records st)))
      (\<lambda>r. rbind (read_record_key r) (\<lambda>(k, r). rbind (read_seg_bytes r) (\<lambda>(v, r). Inr ((k, v), r))))
      (concat (map record_bytes (bt_entries (ds_records st))) @ rest) = Inr (bt_entries (ds_records st), rest)" for rest
    using assms(2) unfolding segment_ok_def list_all_iff
    by (intro rd_many_append read_record_append) blast
  have index: "rd_many (length (bt_keys (ds_index_entries st))) read_index_key
      (concat (map index_key_bytes (bt_keys (ds_index_entries st))) @ rest) = Inr (bt_keys (ds_index_entries st), rest)" for rest
    using assms(2) unfolding segment_ok_def list_all_iff
    by (intro rd_many_append read_index_key_append) blast
  have gens: "rd_many (length generators)
      (\<lambda>r. rbind (rd_u64 r) (\<lambda>(store, r). rbind (rd_u64 r) (\<lambda>(bits, r). Inr ((store, word_of_nat bits :: f64), r))))
      (concat (map generator_bytes generators)) = Inr (generators, [])"
    using assms(3) rd_many_append [of generators _ generator_bytes "[]"] read_generator_append
    unfolding enumerates_def list_all_iff by (simp add: split_beta)
  have kg: "fold (\<lambda>(store, val) m. m(store \<mapsto> val)) generators Map.empty = ds_key_generators st"
    using assms(3) by (simp add: fold_map_upd enumerates_def map_of_rev)
  show ?thesis
    unfolding decode_segment_def Let_def body if_not_P [OF long]
    by (simp add: segment_body_def sized32_def fs_read ok seg_magic_less [simplified] decode_encode_meta
        recs index gens kg fold_bt_insert fold_bt_insert_unit)
qed

text \<open>C40. Round trip of segments: a segment that encodes a state reads back, into whatever state, as its
  number, records, index entries, generators, metadata and next sequence number, in whatever order
  the generators were enumerated; a segment in which a single byte has changed is refused.\<close>

theorem segment_round_trip:
  assumes "encode_segment generators seq st = Inr bs" "segment_ok seq st" "enumerates generators st"
  shows "decode_segment bs st0 =
      Inr (seq, st0\<lparr>ds_next_txn_seq := ds_next_txn_seq st, ds_meta := ds_meta st, ds_records := ds_records st,
        ds_index_entries := ds_index_entries st, ds_key_generators := ds_key_generators st\<rparr>) \<and>
    (\<forall>i < length bs. \<forall>b. b \<noteq> bs ! i \<longrightarrow> decode_segment (bs[i := b]) st0 = Inl BeCorrupted)"
proof -
  obtain meta where meta: "ds_meta st = Some meta" "bs = sealed (segment_body generators seq meta st)"
    using assms(1) by (auto simp: encode_segment_eq split: option.splits)
  have "decode_segment (bs[i := b]) st0 = Inl BeCorrupted" if "i < length bs" "b \<noteq> bs ! i" for i b
    using sealed_damage [of i "segment_body generators seq meta st" b] that
    unfolding meta(2) decode_segment_def Let_def by simp
  then show ?thesis
    using decode_segment_body [OF meta(1) assms(2,3)] meta by auto
qed

lemma segment_round_trip_witness:
  "\<exists>bs. let st = db_state_default\<lparr>ds_meta := Some (fresh_meta [100]), ds_key_generators := [2 \<mapsto> f64_of_int 5]\<rparr> in
     encode_segment [(2, f64_of_int 5)] 7 st = Inr bs \<and>
     decode_segment bs db_state_default = Inr (7, st) \<and>
     decode_segment (bs[3 := bs ! 3 + 1]) db_state_default = Inl BeCorrupted"
proof -
  define st where "st = db_state_default\<lparr>ds_meta := Some (fresh_meta [100]), ds_key_generators := [2 \<mapsto> f64_of_int 5]\<rparr>"
  obtain bs where bs: "encode_segment [(2, f64_of_int 5)] 7 st = Inr bs"
    by (auto simp: encode_segment_eq st_def)
  have empty: "bt_entries (bt_empty :: ('a::linorder, 'b) btree) = []" by (rule bt_empty.rep_eq)
  have "segment_ok 7 st"
    by (simp add: segment_ok_def st_def db_state_default_def bt_keys_def empty meta_ok_def fresh_meta_def
        encode_meta_eq utf16_bytes_def)
  moreover have "enumerates [(2, f64_of_int 5)] st" by (simp add: enumerates_def st_def)
  moreover have "3 < length bs" using bs by (auto simp: encode_segment_eq st_def segment_body_def)
  ultimately show ?thesis
    using segment_round_trip [OF bs, of db_state_default] bs
    by (intro exI [of _ bs]) (simp add: Let_def st_def [symmetric], simp add: st_def db_state_default_def)
qed

end
