(* ===== verification/Vfs.thy ===== *)
theory Vfs
  imports Idb_Error Idb_Prelude
begin

text \<open>
  The file system interface of the filesystem backend, \<open>boa_idb_fs/src/vfs.rs\<close>, as its operating
  system implementation behaves with injected faults: every call may work, fail without effect, or,
  where it writes, leave a prefix of its data behind and fail. What each call does is decided by a
  plan, a sequence of outcomes. Paths are strings relative to the database directory; directories
  are not modelled, so creating one has no effect. Files survive the end of the process with the
  content they have in the page cache.
\<close>

type_synonym path = string

datatype io_error = IoNotFound | IoStorageFull | IoOther

definition io_to_backend :: "io_error \<Rightarrow> backend_error" where
  "io_to_backend err = (if err = IoStorageFull then BeQuotaExceeded 0 0 else BeIo)"

datatype outcome = Works | Fails io_error | Short nat

type_synonym files = "path \<rightharpoonup> bytes"

record vfs =
  vf_files :: files
  vf_plan :: "nat \<Rightarrow> outcome"
  vf_step :: nat
  vf_locked :: bool

type_synonym ('e, 'a) io = "vfs \<Rightarrow> ('e + 'a) \<times> vfs"

definition io_ok :: "'a \<Rightarrow> ('e, 'a) io" where
  "io_ok x fs = (Inr x, fs)"

definition io_err :: "'e \<Rightarrow> ('e, 'a) io" where
  "io_err e fs = (Inl e, fs)"

text \<open>\<open>io_catch m f\<close> hands the result of \<open>m\<close> to \<open>f\<close>; \<open>io_try\<close> is the question-mark operator;
  \<open>io_be\<close> is \<open>map_err(io_to_backend)\<close>.\<close>

definition io_catch :: "('d, 'a) io \<Rightarrow> ('d + 'a \<Rightarrow> ('e, 'b) io) \<Rightarrow> ('e, 'b) io" where
  "io_catch m f fs = (let (r, fs) = m fs in f r fs)"

definition io_try :: "('e, 'a) io \<Rightarrow> ('a \<Rightarrow> ('e, 'b) io) \<Rightarrow> ('e, 'b) io" where
  "io_try m f = io_catch m (\<lambda>r. case r of Inl e \<Rightarrow> io_err e | Inr x \<Rightarrow> f x)"

definition io_be :: "(io_error, 'a) io \<Rightarrow> (backend_error, 'a) io" where
  "io_be m = io_catch m (\<lambda>r. case r of Inl e \<Rightarrow> io_err (io_to_backend e) | Inr x \<Rightarrow> io_ok x)"

text \<open>A pure result in the middle of a computation.\<close>

definition io_lift :: "'e + 'a \<Rightarrow> ('e, 'a) io" where
  "io_lift r fs = (r, fs)"

section \<open>The calls\<close>

definition next_outcome :: "vfs \<Rightarrow> outcome \<times> vfs" where
  "next_outcome fs = (vf_plan fs (vf_step fs), fs\<lparr>vf_step := vf_step fs + 1\<rparr>)"

text \<open>A call that has no partial effect: what it does to the files, with its result, if it works.\<close>

definition call :: "(files \<Rightarrow> (io_error + 'a) \<times> files) \<Rightarrow> (io_error, 'a) io" where
  "call body fs =
     (let (o', fs) = next_outcome fs in
      case o' of
        Works \<Rightarrow> (let (r, files) = body (vf_files fs) in (r, fs\<lparr>vf_files := files\<rparr>))
      | Fails e \<Rightarrow> (Inl e, fs)
      | Short _ \<Rightarrow> (Inl IoOther, fs))"

text \<open>A call that stores data: \<open>store d\<close> is what the files are when \<open>d\<close> has been written.\<close>

definition write_call :: "(bytes \<Rightarrow> files \<Rightarrow> files) \<Rightarrow> bytes \<Rightarrow> (io_error, unit) io" where
  "write_call store data fs =
     (let (o', fs) = next_outcome fs in
      case o' of
        Works \<Rightarrow> (Inr (), fs\<lparr>vf_files := store data (vf_files fs)\<rparr>)
      | Fails e \<Rightarrow> (Inl e, fs)
      | Short n \<Rightarrow> (Inl IoOther, fs\<lparr>vf_files := store (take n data) (vf_files fs)\<rparr>))"

definition fs_create_dir_all :: "path \<Rightarrow> (io_error, unit) io" where
  "fs_create_dir_all p = call (\<lambda>files. (Inr (), files))"

definition fs_read :: "path \<Rightarrow> (io_error, bytes) io" where
  "fs_read p = call (\<lambda>files. (case files p of None \<Rightarrow> Inl IoNotFound | Some d \<Rightarrow> Inr d, files))"

definition fs_write_truncate :: "path \<Rightarrow> bytes \<Rightarrow> (io_error, unit) io" where
  "fs_write_truncate p data = write_call (\<lambda>d files. files(p \<mapsto> d)) data"

definition fs_append :: "path \<Rightarrow> bytes \<Rightarrow> (io_error, unit) io" where
  "fs_append p data =
     write_call (\<lambda>d files. files(p \<mapsto> (case files p of None \<Rightarrow> [] | Some old \<Rightarrow> old) @ d)) data"

definition fs_set_len :: "path \<Rightarrow> nat \<Rightarrow> (io_error, unit) io" where
  "fs_set_len p len = call (\<lambda>files.
     case files p of
       None \<Rightarrow> (Inl IoNotFound, files)
     | Some d \<Rightarrow> (Inr (), files(p \<mapsto> take len d @ replicate (len - length d) 0)))"

definition fs_rename :: "path \<Rightarrow> path \<Rightarrow> (io_error, unit) io" where
  "fs_rename src dst = call (\<lambda>files.
     case files src of
       None \<Rightarrow> (Inl IoNotFound, files)
     | Some d \<Rightarrow> (Inr (), (files(src := None))(dst \<mapsto> d)))"

definition fs_remove_file :: "path \<Rightarrow> (io_error, unit) io" where
  "fs_remove_file p = call (\<lambda>files.
     case files p of None \<Rightarrow> (Inl IoNotFound, files) | Some _ \<Rightarrow> (Inr (), files(p := None)))"

definition fs_metadata_len :: "path \<Rightarrow> (io_error, nat) io" where
  "fs_metadata_len p = call (\<lambda>files.
     (case files p of None \<Rightarrow> Inl IoNotFound | Some d \<Rightarrow> Inr (length d), files))"

text \<open>\<open>Path::exists\<close> answers no when it cannot tell.\<close>

definition fs_exists :: "path \<Rightarrow> vfs \<Rightarrow> bool \<times> vfs" where
  "fs_exists p fs =
     (let (o', fs) = next_outcome fs in (o' = Works \<and> vf_files fs p \<noteq> None, fs))"

definition io_if :: "(vfs \<Rightarrow> bool \<times> vfs) \<Rightarrow> ('e, 'a) io \<Rightarrow> ('e, 'a) io \<Rightarrow> ('e, 'a) io" where
  "io_if c m1 m2 fs = (let (b, fs) = c fs in if b then m1 fs else m2 fs)"

definition fs_sync_path :: "path \<Rightarrow> (io_error, unit) io" where
  "fs_sync_path p = call (\<lambda>files.
     (case files p of None \<Rightarrow> Inl IoNotFound | Some _ \<Rightarrow> Inr (), files))"

definition fs_sync_dir :: "path \<Rightarrow> (io_error, unit) io" where
  "fs_sync_dir p = call (\<lambda>files. (Inr (), files))"

definition fs_ensure_file :: "path \<Rightarrow> (io_error, unit) io" where
  "fs_ensure_file p = call (\<lambda>files. (Inr (), case files p of None \<Rightarrow> files(p \<mapsto> []) | Some _ \<Rightarrow> files))"

definition fs_try_lock_exclusive :: "path \<Rightarrow> (backend_error, unit) io" where
  "fs_try_lock_exclusive p =
     io_try (io_be (fs_ensure_file p)) (\<lambda>_ fs.
       if vf_locked fs then (Inl BeLocked, fs) else (Inr (), fs\<lparr>vf_locked := True\<rparr>))"

section \<open>Atomic replacement\<close>

text \<open>\<open>atomic.rs\<close>. The parent of a path and its last component.\<close>

definition file_name :: "path \<Rightarrow> string" where
  "file_name p = rev (takeWhile (\<lambda>c. c \<noteq> CHR ''/'') (rev p))"

definition parent :: "path \<Rightarrow> path" where
  "parent p = rev (dropWhile (\<lambda>c. c \<noteq> CHR ''/'') (rev p))"

definition temp_path_for :: "path \<Rightarrow> path" where
  "temp_path_for target = parent target @ ''.'' @ file_name target @ ''.tmp''"

definition atomic_write :: "path \<Rightarrow> bytes \<Rightarrow> bool \<Rightarrow> (backend_error, unit) io" where
  "atomic_write target data sync =
     io_try (io_be (fs_create_dir_all (parent target))) (\<lambda>_.
     let tmp = temp_path_for target in
     io_try (io_be (fs_write_truncate tmp data)) (\<lambda>_.
     io_try (if sync then io_be (fs_sync_path tmp) else io_ok ()) (\<lambda>_.
     io_try (io_be (fs_rename tmp target)) (\<lambda>_.
     if sync then io_be (fs_sync_dir (parent target)) else io_ok ()))))"

definition append_and_maybe_sync :: "path \<Rightarrow> bytes \<Rightarrow> bool \<Rightarrow> (backend_error, unit) io" where
  "append_and_maybe_sync p data sync =
     io_try (io_be (fs_append p data)) (\<lambda>_.
     if sync then io_be (fs_sync_path p) else io_ok ())"

definition truncate_file :: "path \<Rightarrow> nat \<Rightarrow> (backend_error, unit) io" where
  "truncate_file p len = io_be (fs_set_len p len)"

definition ensure_file :: "path \<Rightarrow> (backend_error, unit) io" where
  "ensure_file p = io_be (fs_ensure_file p)"

section \<open>Runs that are killed\<close>

text \<open>A plan by which the process is killed: all calls work, up to one that may go wrong in any way,
  after which nothing has an effect any more; or all calls work.\<close>

definition dead :: "vfs \<Rightarrow> bool" where
  "dead fs \<longleftrightarrow> (\<forall>i \<ge> vf_step fs. vf_plan fs i = Fails IoOther)"

definition doomed :: "vfs \<Rightarrow> bool" where
  "doomed fs \<longleftrightarrow> (\<forall>i \<ge> vf_step fs. vf_plan fs i = Works \<or>
     (\<forall>j > i. vf_plan fs j = Fails IoOther))"

definition healthy :: "vfs \<Rightarrow> bool" where
  "healthy fs \<longleftrightarrow> (\<forall>i \<ge> vf_step fs. vf_plan fs i = Works)"

end
