(* ===== verification/Fs_Disk.thy ===== *)
theory Fs_Disk
  imports Vfs Fs_Segment Fs_Txn
begin

text \<open>
  The files of a database and the operations on them: names and manifest publication
  (\<open>boa_idb_fs/src/meta.rs\<close>), segment files (\<open>segment.rs\<close>), compaction (\<open>compact.rs\<close>), opening with
  recovery (\<open>database.rs\<close>) and the commit of a transaction (\<open>txn.rs\<close>). \<open>gens\<close> is the order in
  which a hash map of generators is enumerated, and \<open>held\<close> lists the segments that a read-only
  snapshot still keeps alive.
\<close>

section \<open>File names\<close>

definition digit_char :: "nat \<Rightarrow> char" where
  "digit_char d = char_of (48 + d)"

fun decimal :: "nat \<Rightarrow> string" where
  "decimal n = (if n < 10 then [digit_char n] else decimal (n div 10) @ [digit_char (n mod 10)])"

declare decimal.simps [simp del]

definition decimal6 :: "nat \<Rightarrow> string" where
  "decimal6 n = replicate (6 - length (decimal n)) (CHR ''0'') @ decimal n"

definition wal_path :: "nat \<Rightarrow> path" where
  "wal_path seq = ''wal/'' @ decimal6 seq @ ''.log''"

definition segment_path :: "nat \<Rightarrow> path" where
  "segment_path seq = ''seg/'' @ decimal6 seq @ ''.seg''"

definition manifest_name :: "nat \<Rightarrow> path" where
  "manifest_name seq = ''MANIFEST-'' @ decimal6 seq"

definition CURRENT :: path where "CURRENT = ''CURRENT''"
definition META_FILE :: path where "META_FILE = ''meta.scf''"
definition LOCK_FILE :: path where "LOCK_FILE = ''LOCK''"

section \<open>Text files\<close>

definition string_bytes :: "string \<Rightarrow> bytes" where
  "string_bytes s = map (\<lambda>c. word_of_nat (of_char c)) s"

text \<open>\<open>read_to_string\<close>: the code only ever writes ASCII, so bytes beyond it count as invalid text.\<close>

definition fs_read_to_string :: "path \<Rightarrow> (io_error, string) io" where
  "fs_read_to_string p =
     io_try (fs_read p) (\<lambda>bs.
       if list_all (\<lambda>b. unat b < 128) bs then io_ok (map (\<lambda>b. char_of (unat b)) bs) else io_err IoOther)"

definition is_space :: "char \<Rightarrow> bool" where
  "is_space c \<longleftrightarrow> of_char c \<in> {9, 10, 11, 12, 13, 32 :: nat}"

definition trim :: "string \<Rightarrow> string" where
  "trim s = rev (dropWhile is_space (rev (dropWhile is_space s)))"

fun has_dots :: "string \<Rightarrow> bool" where
  "has_dots (a # b # s) = (a = CHR ''.'' \<and> b = CHR ''.'' \<or> has_dots (b # s))"
| "has_dots _ = False"

section \<open>Manifest and metadata files\<close>

definition read_current_manifest :: "(backend_error, path) io" where
  "read_current_manifest =
     io_try (io_be (fs_read_to_string CURRENT)) (\<lambda>name.
       let name = trim name in
       if name = [] \<or> CHR ''/'' \<in> set name \<or> CHR 0x5C \<in> set name \<or> has_dots name
       then io_err BeCorrupted else io_ok name)"

definition load_manifest :: "(backend_error, manifest_data) io" where
  "load_manifest =
     io_try read_current_manifest (\<lambda>p.
     io_try (io_be (fs_read p)) (\<lambda>bs. io_lift (decode_manifest bs)))"

definition write_manifest :: "manifest_data \<Rightarrow> bool \<Rightarrow> (backend_error, unit) io" where
  "write_manifest data sync =
     (let name = manifest_name (md_manifest_seq data) in
      io_try (atomic_write name (encode_manifest data) sync) (\<lambda>_.
      atomic_write CURRENT (string_bytes (name @ [CHR 0x0A])) sync))"

definition write_meta_file :: "database_meta \<Rightarrow> bool \<Rightarrow> (backend_error, unit) io" where
  "write_meta_file meta sync = atomic_write META_FILE (encode_meta meta) sync"

definition read_meta_file :: "(backend_error, database_meta option) io" where
  "read_meta_file =
     io_if (fs_exists META_FILE)
       (io_try (io_be (fs_read META_FILE)) (\<lambda>bs. io_try (io_lift (decode_meta bs)) (\<lambda>m. io_ok (Some m))))
       (io_ok None)"

definition load_meta_with_wal :: "(backend_error, database_meta option) io" where
  "load_meta_with_wal =
     (\<lambda>fs. let (has_current, fs) = fs_exists CURRENT fs; (has_meta, fs) = fs_exists META_FILE fs in
      if \<not> has_current \<and> \<not> has_meta then io_ok None fs
      else
        io_try read_meta_file (\<lambda>meta.
        let st = db_state_default\<lparr>ds_meta := meta\<rparr> in
        io_try (if has_current then io_try load_manifest (\<lambda>md. io_ok (md_wal_seq md)) else io_ok 1) (\<lambda>wal_seq.
        io_if (fs_exists (wal_path wal_seq))
          (io_try (io_be (fs_read (wal_path wal_seq))) (\<lambda>bs.
           io_try (io_lift (apply_frames st (rw_frames (recover_committed_frames bs)))) (\<lambda>st. io_ok (ds_meta st))))
          (io_ok (ds_meta st)))) fs)"

section \<open>Segment files\<close>

definition write_segment_file :: "(store_id \<times> f64) list \<Rightarrow> nat \<Rightarrow> db_state \<Rightarrow> bool \<Rightarrow> (backend_error, nat) io" where
  "write_segment_file generators seq st sync =
     io_try (io_be (fs_create_dir_all ''seg'')) (\<lambda>_.
     io_try (io_lift (encode_segment generators seq st)) (\<lambda>bs.
     io_try (atomic_write (segment_path seq) bs sync) (\<lambda>_. io_ok seq)))"

definition load_segment_file :: "nat \<Rightarrow> db_state \<Rightarrow> (backend_error, nat \<times> db_state) io" where
  "load_segment_file seq st =
     io_try (io_be (fs_read (segment_path seq))) (\<lambda>bs.
     io_try (io_lift (decode_segment bs st)) (\<lambda>(decoded, st).
       if decoded \<noteq> seq then io_err BeCorrupted else io_ok (seq, st)))"

section \<open>Compaction\<close>

record compact_config =
  cc_wal_bytes :: nat
  cc_wal_frames :: nat

definition should_compact :: "compact_config \<Rightarrow> db_state \<Rightarrow> bool" where
  "should_compact cfg st \<longleftrightarrow>
     cc_wal_bytes cfg \<le> ds_wal_bytes_since_compact st \<or> cc_wal_frames cfg \<le> ds_wal_frames_since_compact st"

text \<open>Dropping guards marked as reclaimable: the files of those nobody holds are removed, errors
  ignored.\<close>

fun drop_segments :: "nat list \<Rightarrow> nat list \<Rightarrow> ('e, unit) io" where
  "drop_segments held [] = io_ok ()"
| "drop_segments held (seq # seqs) =
     io_catch (if seq \<in> set held then io_ok () else fs_remove_file (segment_path seq)) (\<lambda>_.
       drop_segments held seqs)"

definition next_segment_seq :: "db_state \<Rightarrow> nat" where
  "next_segment_seq st = saturating_inc (fold max (ds_segments st) 0)"

text \<open>\<open>compact_now\<close> in its two halves: steps 1 to 3, up to the publication of \<open>CURRENT\<close>, and steps 4 to 6.\<close>

definition new_generation :: "db_state \<Rightarrow> manifest_data" where
  "new_generation st =
     \<lparr>md_manifest_seq = saturating_inc (ds_manifest_seq st), md_wal_seq = saturating_inc (ds_wal_seq st),
      md_segments = [next_segment_seq st]\<rparr>"

definition publish_generation ::
    "((store_id \<rightharpoonup> f64) \<Rightarrow> (store_id \<times> f64) list) \<Rightarrow> db_state \<Rightarrow> (backend_error, nat) io" where
  "publish_generation gens st =
     (let new_wal = wal_path (saturating_inc (ds_wal_seq st)) in
      io_try (write_segment_file (gens (ds_key_generators st)) (next_segment_seq st) st True) (\<lambda>guard.
      io_try (ensure_file new_wal) (\<lambda>_.
      io_try (truncate_file new_wal 0) (\<lambda>_.
      io_try (write_manifest (new_generation st) True) (\<lambda>_. io_ok guard)))))"

definition finish_compaction ::
    "nat list \<Rightarrow> db_state \<Rightarrow> nat \<Rightarrow> vfs \<Rightarrow> ((backend_error + unit) \<times> db_state) \<times> vfs" where
  "finish_compaction held st guard fs =
     (let old_segments = ds_segments st; old_wal_seq = ds_wal_seq st;
          st = st\<lparr>ds_segments := [guard], ds_manifest_seq := md_manifest_seq (new_generation st),
                  ds_wal_seq := md_wal_seq (new_generation st),
                  ds_wal_bytes_since_compact := 0, ds_wal_frames_since_compact := 0\<rparr>;
          (_, fs) = (drop_segments held old_segments :: (backend_error, unit) io) fs;
          (meta_res, fs) = (case ds_meta st of Some meta \<Rightarrow> write_meta_file meta True | None \<Rightarrow> io_ok ()) fs;
          (_, fs) = fs_remove_file (wal_path old_wal_seq) fs
      in ((meta_res, st), fs))"

definition compact_now ::
    "((store_id \<rightharpoonup> f64) \<Rightarrow> (store_id \<times> f64) list) \<Rightarrow> nat list \<Rightarrow> db_state \<Rightarrow>
     vfs \<Rightarrow> ((backend_error + unit) \<times> db_state) \<times> vfs" where
  "compact_now gens held st fs =
     (case publish_generation gens st fs of
        (Inl e, fs) \<Rightarrow> ((Inl e, st), fs)
      | (Inr guard, fs) \<Rightarrow> finish_compaction held st guard fs)"

definition maybe_compact ::
    "((store_id \<rightharpoonup> f64) \<Rightarrow> (store_id \<times> f64) list) \<Rightarrow> nat list \<Rightarrow> compact_config \<Rightarrow> db_state \<Rightarrow>
     vfs \<Rightarrow> ((backend_error + bool) \<times> db_state) \<times> vfs" where
  "maybe_compact gens held cfg st fs =
     (if \<not> should_compact cfg st then ((Inr False, st), fs)
      else (case compact_now gens held st fs of
              ((Inl e, st), fs) \<Rightarrow> ((Inl e, st), fs)
            | ((Inr _, st), fs) \<Rightarrow> ((Inr True, st), fs)))"

section \<open>Commit\<close>

text \<open>The loop that appends the frames; when a call fails the log is cut back to where it was.\<close>

fun append_frames :: "path \<Rightarrow> nat \<Rightarrow> bool \<Rightarrow> bytes list \<Rightarrow> (backend_error, nat) io" where
  "append_frames wal_file wal_len_before wal_sync [] = io_ok 0"
| "append_frames wal_file wal_len_before wal_sync (bs # frames) =
     io_catch (append_and_maybe_sync wal_file bs (wal_sync \<and> frames = [])) (\<lambda>r.
       case r of
         Inl err \<Rightarrow> io_catch (truncate_file wal_file wal_len_before) (\<lambda>_. io_err err)
       | Inr _ \<Rightarrow>
           io_try (append_frames wal_file wal_len_before wal_sync frames) (\<lambda>n. io_ok (length bs + n)))"

definition append_payload :: "fs_txn \<Rightarrow> wal_op list \<Rightarrow> bool \<Rightarrow> path \<Rightarrow> nat \<Rightarrow> nat \<Rightarrow> (backend_error, nat) io" where
  "append_payload t ops schema_dirty wal_file wal_len_before txn_seq =
     (if ops = [] then io_ok 0
      else case encode_txn_frames_limited (word_of_nat txn_seq) ops (ft_max_frame_payload t) of
        Inl (CePayloadTooLarge needed) \<Rightarrow> io_err (BeQuotaExceeded needed (unat (ft_max_frame_payload t)))
      | Inl _ \<Rightarrow> io_err BeInternal
      | Inr frames \<Rightarrow> append_frames wal_file wal_len_before (wants_sync t \<or> schema_dirty) frames)"

text \<open>What follows once the log is written: the state in memory changes, and compaction may run; its
  result is ignored.\<close>

definition ft_finish_commit ::
    "((store_id \<rightharpoonup> f64) \<Rightarrow> (store_id \<times> f64) list) \<Rightarrow> nat list \<Rightarrow> compact_config \<Rightarrow> fs_txn \<Rightarrow> wal_op list \<Rightarrow>
     database_meta \<Rightarrow> nat \<Rightarrow> db_state \<Rightarrow> vfs \<Rightarrow> ((backend_error + unit) \<times> db_state) \<times> vfs" where
  "ft_finish_commit gens held cfg t ops meta appended st fs =
     (let st = apply_pending_to_state t meta (ds_next_txn_seq st) (ops \<noteq> []) st in
      if ops = [] then ((Inr (), st), fs)
      else
        let st = st\<lparr>ds_wal_bytes_since_compact := ds_wal_bytes_since_compact st + appended,
                    ds_wal_frames_since_compact := ds_wal_frames_since_compact st + 1\<rparr>;
            ((_, st), fs) = maybe_compact gens held cfg st fs
        in ((Inr (), st), fs))"

definition ft_commit ::
    "((store_id \<rightharpoonup> f64) \<Rightarrow> (store_id \<times> f64) list) \<Rightarrow> nat list \<Rightarrow> compact_config \<Rightarrow> fs_txn \<Rightarrow> db_state \<Rightarrow>
     vfs \<Rightarrow> ((backend_error + unit) \<times> db_state) \<times> vfs" where
  "ft_commit gens held cfg t st fs =
     (if mt_mode (ft_base t) = ReadOnly then ((Inr (), st), fs)
      else
        let (ops, meta, schema_dirty) = build_commit_payload t;
            wal_file = wal_path (ds_wal_seq st);
            (len, fs) = fs_metadata_len wal_file fs;
            wal_len_before = (case len of Inl _ \<Rightarrow> 0 | Inr n \<Rightarrow> n) in
        case append_payload t ops schema_dirty wal_file wal_len_before (ds_next_txn_seq st) fs of
          (Inl err, fs) \<Rightarrow> ((Inl err, st), fs)
        | (Inr appended, fs) \<Rightarrow>
            (case (if schema_dirty then write_meta_file meta (wants_sync t) else io_ok ()) fs of
               (Inl err, fs) \<Rightarrow>
                 let (_, fs) = truncate_file wal_file wal_len_before fs in ((Inl err, st), fs)
             | (Inr _, fs) \<Rightarrow> ft_finish_commit gens held cfg t ops meta appended st fs))"

definition ft_abort :: "fs_txn \<Rightarrow> db_state \<Rightarrow> vfs \<Rightarrow> ((backend_error + unit) \<times> db_state) \<times> vfs" where
  "ft_abort t st fs = ((Inr (), st), fs)"

section \<open>Opening\<close>

definition empty_meta :: "utf16 \<Rightarrow> database_meta" where
  "empty_meta name = \<lparr>db_name = name, db_version = 0, db_stores = [], db_next_store_id = 1, db_next_index_id = 1\<rparr>"

fun load_segments :: "nat list \<Rightarrow> db_state \<Rightarrow> (backend_error, db_state) io" where
  "load_segments [] st = io_ok st"
| "load_segments (seq # seqs) st =
     io_try (load_segment_file seq st) (\<lambda>(guard, st).
       load_segments seqs (st\<lparr>ds_segments := ds_segments st @ [guard]\<rparr>))"

text \<open>\<open>entry(id).or_insert(key_gen)\<close> for every store of the metadata.\<close>

definition seed_generators :: "database_meta \<Rightarrow> (store_id \<rightharpoonup> f64) \<Rightarrow> (store_id \<rightharpoonup> f64)" where
  "seed_generators meta = fold (\<lambda>s m. if m (st_id s) = None then m(st_id s \<mapsto> st_key_gen s) else m) (db_stores meta)"

definition init_database :: "utf16 \<Rightarrow> (backend_error, unit) io" where
  "init_database name =
     io_try (ensure_file (wal_path 1)) (\<lambda>_.
     io_try (write_meta_file (empty_meta name) True) (\<lambda>_.
     write_manifest \<lparr>md_manifest_seq = 1, md_wal_seq = 1, md_segments = []\<rparr> True))"

text \<open>The state before the log is replayed.\<close>

definition load_base :: "utf16 \<Rightarrow> manifest_data \<Rightarrow> (backend_error, db_state) io" where
  "load_base name manifest =
     (let st = db_state_default\<lparr>ds_manifest_seq := md_manifest_seq manifest, ds_wal_seq := md_wal_seq manifest\<rparr> in
      io_try (load_segments (md_segments manifest) st) (\<lambda>st.
      io_try (if ds_meta st = None then read_meta_file else io_ok (ds_meta st)) (\<lambda>meta_opt.
      let meta = (case meta_opt of None \<Rightarrow> empty_meta name | Some m \<Rightarrow> m)
      in io_ok (st\<lparr>ds_meta := Some meta, ds_key_generators := seed_generators meta (ds_key_generators st)\<rparr>))))"

text \<open>The part of \<open>open\<close> that runs once \<open>CURRENT\<close> is known to be there.\<close>

definition fs_load :: "utf16 \<Rightarrow> (backend_error, db_state) io" where
  "fs_load name =
     io_try load_manifest (\<lambda>manifest.
     io_try (load_base name manifest) (\<lambda>st.
     let wal = wal_path (ds_wal_seq st) in
     io_try (ensure_file wal) (\<lambda>_.
     io_try (io_be (fs_read wal)) (\<lambda>wal_bytes.
     let recovered = recover_committed_frames wal_bytes in
     io_try (io_lift (apply_frames st (rw_frames recovered))) (\<lambda>st.
     let st = st\<lparr>ds_wal_bytes_since_compact := rw_valid_prefix_len recovered,
                 ds_wal_frames_since_compact := length (rw_frames recovered)\<rparr> in
     io_try (if rw_valid_prefix_len recovered < length wal_bytes
             then truncate_file wal (rw_valid_prefix_len recovered) else io_ok ()) (\<lambda>_.
     case ds_meta st of
       None \<Rightarrow> io_err BeInternal
     | Some meta \<Rightarrow>
         io_try read_meta_file (\<lambda>disk_meta.
         io_try (if disk_meta \<noteq> Some meta then write_meta_file meta True else io_ok ()) (\<lambda>_.
         io_ok st))))))))"

definition fs_open :: "utf16 \<Rightarrow> (backend_error, db_state) io" where
  "fs_open name =
     io_try (io_be (fs_create_dir_all ''wal'')) (\<lambda>_.
     io_try (io_be (fs_create_dir_all ''seg'')) (\<lambda>_.
     io_try (fs_try_lock_exclusive LOCK_FILE) (\<lambda>_.
     io_try (io_if (fs_exists CURRENT) (io_ok ()) (init_database name)) (\<lambda>_.
     fs_load name))))"

text \<open>\<open>FsDatabase::begin\<close>: a transaction starts from the metadata of the shared state; a read-only one
  reads a snapshot of it, which is the state itself at that moment.\<close>

definition fs_begin :: "db_state \<Rightarrow> database_meta \<Rightarrow> txn_mode \<Rightarrow> store_id list \<Rightarrow> durability \<Rightarrow> nat \<Rightarrow> u32 \<Rightarrow> fs_txn" where
  "fs_begin st handle_meta mode scope dur max_keys max_payload =
     ft_new mode scope (case ds_meta st of Some meta \<Rightarrow> meta | None \<Rightarrow> handle_meta) dur max_keys max_payload"

definition fs_flush :: "db_state \<Rightarrow> (backend_error, unit) io" where
  "fs_flush st = io_be (fs_sync_path (wal_path (ds_wal_seq st)))"

end
