(* ===== verification/Vfs_Logic.thy ===== *)
theory Vfs_Logic
  imports Vfs
begin

text \<open>
  Reasoning about runs that may be killed. \<open>exec h v m r v' C\<close> describes one computation from one
  starting point: it ends with the result \<open>r\<close> and files that look like \<open>v'\<close>, or it is killed and
  leaves files in \<open>C\<close>. \<open>h\<close> is how one looks at the files: \<open>id\<close>, or \<open>disk_view\<close>, which does not see temporary
  files. The rules run a computation symbolically, one call after the other.
\<close>

section \<open>Orderly computations\<close>

text \<open>A computation only moves forward in the plan, and has no effect once the process is dead.\<close>

definition orderly :: "(vfs \<Rightarrow> 'a \<times> vfs) \<Rightarrow> bool" where
  "orderly m \<longleftrightarrow> (\<forall>fs. vf_plan (snd (m fs)) = vf_plan fs \<and> vf_step fs \<le> vf_step (snd (m fs)) \<and>
     (dead fs \<longrightarrow> vf_files (snd (m fs)) = vf_files fs))"

named_theorems orderly "computations that are orderly"

lemma orderlyD:
  assumes "orderly m" "m fs = (r, fs')"
  shows "vf_plan fs' = vf_plan fs" "vf_step fs \<le> vf_step fs'"
    "dead fs \<Longrightarrow> vf_files fs' = vf_files fs" "dead fs \<Longrightarrow> dead fs'"
  using assms unfolding orderly_def dead_def by (metis snd_conv order_trans)+

lemma orderly_let:
  assumes "orderly m" "\<And>x. orderly (f x)"
  shows "orderly (\<lambda>fs. case m fs of (x, fs) \<Rightarrow> f x fs)"
  unfolding orderly_def
proof
  fix fs
  obtain r fs1 where m: "m fs = (r, fs1)" by (cases "m fs")
  obtain q fs2 where f: "f r fs1 = (q, fs2)" by (cases "f r fs1")
  show "vf_plan (snd (case m fs of (x, fs) \<Rightarrow> f x fs)) = vf_plan fs \<and>
      vf_step fs \<le> vf_step (snd (case m fs of (x, fs) \<Rightarrow> f x fs)) \<and>
      (dead fs \<longrightarrow> vf_files (snd (case m fs of (x, fs) \<Rightarrow> f x fs)) = vf_files fs)"
    using orderlyD [OF assms(1) m] orderlyD [OF assms(2) f] m f by simp
qed

lemma orderly_pure [orderly]: "orderly (io_ok x)" "orderly (io_err e)" "orderly (io_lift r)" "orderly (Pair y)"
  by (simp_all add: orderly_def io_ok_def io_err_def io_lift_def)

lemma orderly_catch [orderly]: "orderly m \<Longrightarrow> (\<And>r. orderly (f r)) \<Longrightarrow> orderly (io_catch m f)"
  using orderly_let [of m f] by (simp add: orderly_def io_catch_def split_beta Let_def)

lemma orderly_try [orderly]: "orderly m \<Longrightarrow> (\<And>x. orderly (f x)) \<Longrightarrow> orderly (io_try m f)"
  unfolding io_try_def by (intro orderly_catch) (auto split: sum.split intro: orderly_pure)

lemma orderly_be [orderly]: "orderly m \<Longrightarrow> orderly (io_be m)"
  unfolding io_be_def by (intro orderly_catch) (auto split: sum.split intro: orderly_pure)

lemma orderly_if [orderly]: "orderly c \<Longrightarrow> orderly m1 \<Longrightarrow> orderly m2 \<Longrightarrow> orderly (io_if c m1 m2)"
  using orderly_let [of c "\<lambda>b. if b then m1 else m2"]
  by (simp add: orderly_def io_if_def split_beta Let_def if_distrib [of "\<lambda>m. m _"])

lemma orderly_call [orderly]: "orderly (call body)"
  by (auto simp: orderly_def call_def next_outcome_def dead_def split: outcome.split prod.split)

lemma orderly_write_call [orderly]: "orderly (write_call store data)"
  by (auto simp: orderly_def write_call_def next_outcome_def dead_def split: outcome.split)

lemma orderly_exists [orderly]: "orderly (fs_exists p)"
  by (simp add: orderly_def fs_exists_def next_outcome_def)

lemma orderly_calls [orderly]:
  "orderly (fs_create_dir_all p)" "orderly (fs_read p)" "orderly (fs_write_truncate p d)" "orderly (fs_append p d)"
  "orderly (fs_set_len p n)" "orderly (fs_rename p q)" "orderly (fs_remove_file p)" "orderly (fs_metadata_len p)"
  "orderly (fs_sync_path p)" "orderly (fs_sync_dir p)" "orderly (fs_ensure_file p)"
  by (auto simp: fs_create_dir_all_def fs_read_def fs_write_truncate_def fs_append_def fs_set_len_def fs_rename_def
      fs_remove_file_def fs_metadata_len_def fs_sync_path_def fs_sync_dir_def fs_ensure_file_def intro: orderly)

lemma orderly_atomic_write [orderly]: "orderly (atomic_write target data sync)"
  unfolding atomic_write_def Let_def by (intro orderly_try orderly_be orderly_calls) (auto intro!: orderly)

lemma orderly_files [orderly]:
  "orderly (append_and_maybe_sync p d sync)" "orderly (truncate_file p n)" "orderly (ensure_file p)"
  by (auto simp: append_and_maybe_sync_def truncate_file_def ensure_file_def intro!: orderly)

section \<open>Symbolic execution\<close>

definition exec :: "(files \<Rightarrow> 'v) \<Rightarrow> 'v \<Rightarrow> (vfs \<Rightarrow> 'a \<times> vfs) \<Rightarrow> 'a \<Rightarrow> 'v \<Rightarrow> ('v \<Rightarrow> bool) \<Rightarrow> bool" where
  "exec h v m r v' C \<longleftrightarrow> orderly m \<and>
     (\<forall>fs. doomed fs \<and> h (vf_files fs) = v \<longrightarrow>
        (case m fs of (r0, fs') \<Rightarrow>
          doomed fs' \<and> r0 = r \<and> h (vf_files fs') = v' \<or> dead fs' \<and> C (h (vf_files fs'))))"

lemma exec_orderly: "exec h v m r v' C \<Longrightarrow> orderly m"
  by (simp add: exec_def)

lemma exec_weaken: "exec h v m r v' C \<Longrightarrow> (\<And>w. C w \<Longrightarrow> D w) \<Longrightarrow> exec h v m r v' D"
  unfolding exec_def by fastforce

lemma exec_let:
  assumes "exec h v m x v1 C" "exec h v1 (f x) r v2 C" "\<And>y. orderly (f y)"
  shows "exec h v (\<lambda>fs. case m fs of (y, fs) \<Rightarrow> f y fs) r v2 C"
  unfolding exec_def
proof (intro conjI allI impI)
  show "orderly (\<lambda>fs. case m fs of (y, fs) \<Rightarrow> f y fs)"
    using exec_orderly [OF assms(1)] assms(3) by (rule orderly_let)
next
  fix fs
  assume fs: "doomed fs \<and> h (vf_files fs) = v"
  obtain y fs1 where m: "m fs = (y, fs1)" by (cases "m fs")
  obtain q fs2 where f: "f y fs1 = (q, fs2)" by (cases "f y fs1")
  have "doomed fs1 \<and> y = x \<and> h (vf_files fs1) = v1 \<or> dead fs1 \<and> C (h (vf_files fs1))"
    using assms(1) fs m unfolding exec_def by fastforce
  then have "doomed fs2 \<and> q = r \<and> h (vf_files fs2) = v2 \<or> dead fs2 \<and> C (h (vf_files fs2))"
  proof
    assume "doomed fs1 \<and> y = x \<and> h (vf_files fs1) = v1"
    then show ?thesis using assms(2) f unfolding exec_def by fastforce
  next
    assume "dead fs1 \<and> C (h (vf_files fs1))"
    then show ?thesis using orderlyD [OF assms(3) f] by auto
  qed
  then show "case case m fs of (y, fs) \<Rightarrow> f y fs of (r0, fs') \<Rightarrow>
      doomed fs' \<and> r0 = r \<and> h (vf_files fs') = v2 \<or> dead fs' \<and> C (h (vf_files fs'))"
    by (simp add: m f)
qed

lemma exec_pure: "exec h v (io_ok x) (Inr x) v C" "exec h v (io_err e) (Inl e) v C" "exec h v (io_lift q) q v C"
    "exec h v (Pair y) y v C"
  by (simp_all add: exec_def orderly io_ok_def io_err_def io_lift_def)

lemma exec_catch:
  "exec h v m x v1 C \<Longrightarrow> exec h v1 (f x) r v2 C \<Longrightarrow> (\<And>y. orderly (f y)) \<Longrightarrow> exec h v (io_catch m f) r v2 C"
  using exec_let [of h v m x v1 C f r v2]
  by (simp add: io_catch_def [abs_def] Let_def)

lemma exec_try:
  "exec h v m (Inr x) v1 C \<Longrightarrow> exec h v1 (f x) r v2 C \<Longrightarrow> (\<And>y. orderly (f y)) \<Longrightarrow> exec h v (io_try m f) r v2 C"
  unfolding io_try_def by (rule exec_catch) (auto split: sum.split intro: orderly_pure)

lemma exec_be: "exec h v m (Inr x) v1 C \<Longrightarrow> exec h v (io_be m) (Inr x) v1 C"
  unfolding io_be_def by (rule exec_catch) (auto split: sum.split intro: orderly_pure exec_pure)

lemma exec_if:
  "exec h v c b v1 C \<Longrightarrow> exec h v1 (if b then m1 else m2) r v2 C \<Longrightarrow> orderly m1 \<Longrightarrow> orderly m2 \<Longrightarrow>
   exec h v (io_if c m1 m2) r v2 C"
  using exec_let [of h v c b v1 C "\<lambda>b. if b then m1 else m2" r v2]
  by (simp add: io_if_def [abs_def] Let_def if_distrib [of "\<lambda>m. m _"] cong: if_cong)

section \<open>Calls\<close>

lemma doomed_step:
  "doomed fs \<Longrightarrow> doomed (fs\<lparr>vf_step := Suc (vf_step fs)\<rparr>)"
  "doomed fs \<Longrightarrow> vf_plan fs (vf_step fs) \<noteq> Works \<Longrightarrow> dead (fs\<lparr>vf_step := Suc (vf_step fs)\<rparr>)"
  by (auto simp: doomed_def dead_def)

lemma step_files [simp]: "doomed (fs\<lparr>vf_files := f\<rparr>) = doomed fs" "dead (fs\<lparr>vf_files := f\<rparr>) = dead fs"
    "doomed (fs\<lparr>vf_step := n, vf_files := f\<rparr>) = doomed (fs\<lparr>vf_step := n\<rparr>)"
    "dead (fs\<lparr>vf_step := n, vf_files := f\<rparr>) = dead (fs\<lparr>vf_step := n\<rparr>)"
  by (simp_all add: doomed_def dead_def)

lemma exec_call:
  assumes "\<And>f. h f = v \<Longrightarrow> fst (body f) = r \<and> h (snd (body f)) = v'" "C v"
  shows "exec h v (call body) r v' C"
  using assms doomed_step
  by (fastforce simp: exec_def orderly call_def next_outcome_def split: outcome.split prod.split)

lemma exec_write_call:
  assumes "\<And>f. h f = v \<Longrightarrow> h (store data f) = v'" "C v" "\<And>f n. h f = v \<Longrightarrow> C (h (store (take n data) f))"
  shows "exec h v (write_call store data) (Inr ()) v' C"
  using assms doomed_step
  by (fastforce simp: exec_def orderly write_call_def next_outcome_def split: outcome.split)

lemma exec_exists:
  assumes "\<And>f. h f = v \<Longrightarrow> (f p \<noteq> None) = b" "C v"
  shows "exec h v (fs_exists p) b v C"
  using assms doomed_step
  by (cases b) (fastforce simp: exec_def orderly fs_exists_def next_outcome_def)+

section \<open>The view without temporary files\<close>

definition is_temp :: "path \<Rightarrow> bool" where
  "is_temp p \<longleftrightarrow> drop (length p - 4) p = ''.tmp''"

definition disk_view :: "files \<Rightarrow> files" where
  "disk_view f = (\<lambda>p. if is_temp p then None else f p)"

lemma view_apply: "\<not> is_temp p \<Longrightarrow> disk_view f p = f p"
  by (simp add: disk_view_def)

lemma view_upd: "\<not> is_temp p \<Longrightarrow> disk_view (f(p := x)) = (disk_view f)(p := x)" "is_temp p \<Longrightarrow> disk_view (f(p := x)) = disk_view f"
  by (auto simp: disk_view_def)

lemma is_temp_suffix: "is_temp (s @ ''.tmp'')"
  by (simp add: is_temp_def)

lemma is_temp_path_for: "is_temp (temp_path_for target)"
  using is_temp_suffix [of "parent target @ ''.'' @ file_name target"] by (simp add: temp_path_for_def)

lemma exec_view:
  assumes "\<And>f. disk_view f = v \<Longrightarrow> \<exists>f'. exec id f m r f' (\<lambda>g. C (disk_view g)) \<and> disk_view f' = v'" "orderly m"
  shows "exec disk_view v m r v' C"
  using assms unfolding exec_def by (fastforce split: prod.split)

text \<open>The calls on files that are not temporary.\<close>

lemma exec_dirs: "C v \<Longrightarrow> exec h v (fs_create_dir_all p) (Inr ()) v C" "C v \<Longrightarrow> exec h v (fs_sync_dir p) (Inr ()) v C"
  by (auto simp: fs_create_dir_all_def fs_sync_dir_def intro: exec_call)

lemma exec_read:
  "v p = Some d \<Longrightarrow> \<not> is_temp p \<Longrightarrow> C v \<Longrightarrow> exec disk_view v (fs_read p) (Inr d) v C"
  unfolding fs_read_def by (rule exec_call) (auto simp: view_apply)

lemma exec_metadata_len:
  "v p = Some d \<Longrightarrow> \<not> is_temp p \<Longrightarrow> C v \<Longrightarrow> exec disk_view v (fs_metadata_len p) (Inr (length d)) v C"
  unfolding fs_metadata_len_def by (rule exec_call) (auto simp: view_apply)

lemma exec_exists_view:
  "\<not> is_temp p \<Longrightarrow> C v \<Longrightarrow> exec disk_view v (fs_exists p) (v p \<noteq> None) v C"
  by (rule exec_exists) (auto simp: view_apply)

lemma exec_sync_path:
  "v p \<noteq> None \<Longrightarrow> \<not> is_temp p \<Longrightarrow> C v \<Longrightarrow> exec disk_view v (fs_sync_path p) (Inr ()) v C"
  unfolding fs_sync_path_def by (rule exec_call) (auto simp: view_apply)

lemma exec_append:
  "v p = Some old \<Longrightarrow> \<not> is_temp p \<Longrightarrow> C v \<Longrightarrow> (\<And>n. C (v(p \<mapsto> old @ take n d))) \<Longrightarrow>
   exec disk_view v (fs_append p d) (Inr ()) (v(p \<mapsto> old @ d)) C"
  unfolding fs_append_def by (rule exec_write_call) (auto simp: view_apply view_upd)

lemma exec_set_len:
  "v p = Some d \<Longrightarrow> \<not> is_temp p \<Longrightarrow> n \<le> length d \<Longrightarrow> C v \<Longrightarrow>
   exec disk_view v (fs_set_len p n) (Inr ()) (v(p \<mapsto> take n d)) C"
  unfolding fs_set_len_def by (rule exec_call) (auto simp: view_apply view_upd)

lemma exec_ensure_file:
  "\<not> is_temp p \<Longrightarrow> C v \<Longrightarrow>
   exec disk_view v (fs_ensure_file p) (Inr ()) (case v p of None \<Rightarrow> v(p \<mapsto> []) | Some _ \<Rightarrow> v) C"
  unfolding fs_ensure_file_def by (rule exec_call) (auto simp: view_apply view_upd split: option.split)

text \<open>Removing a file, whether it is there or not, with the result ignored.\<close>

lemma exec_remove:
  "\<not> is_temp p \<Longrightarrow> C v \<Longrightarrow>
   exec disk_view v (fs_remove_file p) (if v p = None then Inl IoNotFound else Inr ()) (v(p := None)) C"
  unfolding fs_remove_file_def by (rule exec_call) (auto simp: view_apply view_upd fun_upd_idem split: option.split)

text \<open>An atomic replacement: the file has the old content or the new one.\<close>

lemma exec_atomic_write:
  assumes "\<not> is_temp target" "C v" "C (v(target \<mapsto> data))"
  shows "exec disk_view v (atomic_write target data sync) (Inr ()) (v(target \<mapsto> data)) C"
proof (rule exec_view)
  fix f
  assume v: "disk_view f = v"
  let ?tmp = "temp_path_for target"
  let ?D = "\<lambda>g. C (disk_view g)"
  have tmp: "is_temp ?tmp" "?tmp \<noteq> target" using is_temp_path_for [of target] assms(1) by auto
  have D: "?D f" "?D (f(?tmp \<mapsto> x))" "?D ((f(?tmp := None))(target \<mapsto> data))" for x
    using assms v by (simp_all add: view_upd tmp)
  have wr: "exec id f (fs_write_truncate ?tmp data) (Inr ()) (f(?tmp \<mapsto> data)) ?D"
    unfolding fs_write_truncate_def by (rule exec_write_call) (simp_all add: D)
  have sync1: "exec id (f(?tmp \<mapsto> data)) (fs_sync_path ?tmp) (Inr ()) (f(?tmp \<mapsto> data)) ?D"
    unfolding fs_sync_path_def by (rule exec_call) (auto simp: D)
  have rename: "exec id (f(?tmp \<mapsto> data)) (fs_rename ?tmp target) (Inr ()) ((f(?tmp := None))(target \<mapsto> data)) ?D"
    unfolding fs_rename_def by (rule exec_call) (auto simp: D tmp)
  have tail: "exec id ((f(?tmp := None))(target \<mapsto> data)) (if sync then io_be (fs_sync_dir (parent target)) else io_ok ())
      (Inr ()) ((f(?tmp := None))(target \<mapsto> data)) ?D"
    by (simp add: exec_pure exec_be exec_dirs D)
  have middle: "exec id (f(?tmp \<mapsto> data)) (if sync then io_be (fs_sync_path ?tmp) else io_ok ()) (Inr ()) (f(?tmp \<mapsto> data)) ?D"
    by (simp add: exec_pure exec_be sync1)
  have "exec id f (atomic_write target data sync) (Inr ()) ((f(?tmp := None))(target \<mapsto> data)) ?D"
    unfolding atomic_write_def Let_def
    by (rule exec_try [OF exec_be [OF exec_dirs(1)]], rule D(1), rule exec_try [OF exec_be [OF wr]],
        rule exec_try [OF middle], rule exec_try [OF exec_be [OF rename]], rule tail)
      (auto intro!: orderly)
  moreover have "disk_view ((f(?tmp := None))(target \<mapsto> data)) = v(target \<mapsto> data)"
    using assms v by (simp add: view_upd tmp)
  ultimately show "\<exists>f'. exec id f (atomic_write target data sync) (Inr ()) f' ?D \<and> disk_view f' = v(target \<mapsto> data)"
    by blast
qed (rule orderly_atomic_write)

end
