(* ===== verification/Fs_Layout.thy ===== *)
theory Fs_Layout
  imports Fs_Disk Vfs_Logic
begin

text \<open>
  The files of a database as a data structure: the names are distinct, the published manifest is
  found through \<open>CURRENT\<close>, and the base state and the log that it names determine the data. This is
  the invariant that the crash safety of the filesystem backend rests on.
\<close>

section \<open>File names\<close>

definition undecimal :: "string \<Rightarrow> nat" where
  "undecimal s = foldl (\<lambda>a c. 10 * a + (of_char c - 48)) 0 s"

definition is_digit :: "char \<Rightarrow> bool" where
  "is_digit c \<longleftrightarrow> 48 \<le> (of_char c :: nat) \<and> (of_char c :: nat) \<le> 57"

lemma digit_char: "d < 10 \<Longrightarrow> of_char (digit_char d) = 48 + d"
  by (simp add: digit_char_def)

lemma decimal_digits: "list_all is_digit (decimal n)" "decimal n \<noteq> []" "undecimal (decimal n) = n"
proof -
  have "list_all is_digit (decimal n) \<and> decimal n \<noteq> [] \<and> undecimal (decimal n) = n"
  proof (induction n rule: decimal.induct)
    case (1 n)
    then show ?case by (subst (1 2 3) decimal.simps) (auto simp: undecimal_def is_digit_def [of "digit_char _"] digit_char)
  qed
  then show "list_all is_digit (decimal n)" "decimal n \<noteq> []" "undecimal (decimal n) = n" by simp_all
qed

lemma undecimal_zeros: "undecimal (replicate k (CHR ''0'') @ s) = undecimal s"
  by (induction k) (simp_all add: undecimal_def)

lemma decimal6_digits: "list_all is_digit (decimal6 n)" "decimal6 n \<noteq> []" "undecimal (decimal6 n) = n"
  using decimal_digits [of n]
  by (auto simp: decimal6_def undecimal_zeros list_all_iff is_digit_def)

lemma decimal6_inject [simp]: "decimal6 m = decimal6 n \<longleftrightarrow> m = n"
  using decimal6_digits(3) by metis

lemma path_inject [simp]:
  "wal_path m = wal_path n \<longleftrightarrow> m = n" "segment_path m = segment_path n \<longleftrightarrow> m = n" "manifest_name m = manifest_name n \<longleftrightarrow> m = n"
  by (simp_all add: wal_path_def segment_path_def manifest_name_def)

lemma path_distinct [simp]:
  "wal_path m \<noteq> segment_path n" "wal_path m \<noteq> manifest_name n" "wal_path m \<noteq> CURRENT" "wal_path m \<noteq> META_FILE"
  "wal_path m \<noteq> LOCK_FILE"
  "segment_path n \<noteq> wal_path m" "segment_path n \<noteq> manifest_name k" "segment_path n \<noteq> CURRENT" "segment_path n \<noteq> META_FILE"
  "segment_path n \<noteq> LOCK_FILE"
  "manifest_name k \<noteq> wal_path m" "manifest_name k \<noteq> segment_path n" "manifest_name k \<noteq> CURRENT" "manifest_name k \<noteq> META_FILE"
  "manifest_name k \<noteq> LOCK_FILE"
  "CURRENT \<noteq> wal_path m" "CURRENT \<noteq> segment_path n" "CURRENT \<noteq> manifest_name k" "CURRENT \<noteq> META_FILE" "CURRENT \<noteq> LOCK_FILE"
  "META_FILE \<noteq> wal_path m" "META_FILE \<noteq> segment_path n" "META_FILE \<noteq> manifest_name k" "META_FILE \<noteq> CURRENT"
  "META_FILE \<noteq> LOCK_FILE"
  "LOCK_FILE \<noteq> wal_path m" "LOCK_FILE \<noteq> segment_path n" "LOCK_FILE \<noteq> manifest_name k" "LOCK_FILE \<noteq> CURRENT"
  "LOCK_FILE \<noteq> META_FILE"
  by (simp_all add: wal_path_def segment_path_def manifest_name_def CURRENT_def META_FILE_def LOCK_FILE_def)

lemma is_temp_last: "is_temp p \<Longrightarrow> last p = CHR ''p''"
  unfolding is_temp_def by (metis append_take_drop_id last_appendR last_ConsL last_ConsR list.distinct(1))

lemma not_temp [simp]:
  "\<not> is_temp (wal_path n)" "\<not> is_temp (segment_path n)" "\<not> is_temp (manifest_name n)" "\<not> is_temp CURRENT"
  "\<not> is_temp META_FILE" "\<not> is_temp LOCK_FILE"
proof -
  have "is_digit (last (decimal6 n))" using decimal6_digits [of n] by (simp add: list_all_iff)
  then show "\<not> is_temp (manifest_name n)"
    using decimal6_digits(2) [of n] by (auto simp: manifest_name_def is_digit_def dest!: is_temp_last)
qed (auto simp: wal_path_def segment_path_def CURRENT_def META_FILE_def LOCK_FILE_def dest!: is_temp_last)

section \<open>Reading the manifest\<close>

lemma string_bytes_back:
  "list_all (\<lambda>c. (of_char c :: nat) < 128) s \<Longrightarrow>
   list_all (\<lambda>b. unat b < 128) (string_bytes s) \<and> map (\<lambda>b. char_of (unat b)) (string_bytes s) = s"
  by (induction s) (simp_all add: string_bytes_def unat_of_nat)

lemma has_dots_append: "has_dots (xs @ ys) \<Longrightarrow> CHR ''.'' \<notin> set xs \<Longrightarrow> has_dots ys"
  by (induction xs rule: has_dots.induct) (auto, metis has_dots.simps(1) list.exhaust has_dots.simps(3))

lemma no_dots: "CHR ''.'' \<notin> set xs \<Longrightarrow> \<not> has_dots xs"
  by (induction xs rule: has_dots.induct) auto

lemma manifest_name_chars:
  "c \<in> set (manifest_name n) \<Longrightarrow> (of_char c :: nat) < 128 \<and> \<not> is_space c \<and> c \<noteq> CHR ''/'' \<and> c \<noteq> CHR 0x5C \<and> c \<noteq> CHR ''.''"
  using decimal6_digits(1) [of n] by (auto simp: manifest_name_def is_space_def list_all_iff is_digit_def)

lemma trim_line:
  "s \<noteq> [] \<Longrightarrow> (\<And>c. c \<in> set s \<Longrightarrow> \<not> is_space c) \<Longrightarrow> trim (s @ [CHR 0x0A]) = s"
proof -
  assume s: "s \<noteq> []" "\<And>c. c \<in> set s \<Longrightarrow> \<not> is_space c"
  then have "dropWhile is_space (s @ [CHR 0x0A]) = s @ [CHR 0x0A]" by (cases s) auto
  moreover have "dropWhile is_space (rev s) = rev s" using s by (cases "rev s") (auto simp: dropWhile_eq_self_iff)
  ultimately show ?thesis by (simp add: trim_def is_space_def)
qed

definition current_line :: "nat \<Rightarrow> bytes" where
  "current_line n = string_bytes (manifest_name n @ [CHR 0x0A])"

lemma exec_read_current:
  assumes "v CURRENT = Some (current_line n)" "C v"
  shows "exec disk_view v read_current_manifest (Inr (manifest_name n)) v C"
proof -
  let ?line = "manifest_name n @ [CHR 0x0A]"
  have ascii: "list_all (\<lambda>c. (of_char c :: nat) < 128) ?line" using manifest_name_chars by (auto simp: list_all_iff)
  have ne: "manifest_name n \<noteq> []" by (simp add: manifest_name_def)
  have trim: "trim ?line = manifest_name n" using ne manifest_name_chars by (intro trim_line) auto
  have clean: "\<not> (manifest_name n = [] \<or> CHR ''/'' \<in> set (manifest_name n) \<or> CHR 0x5C \<in> set (manifest_name n) \<or>
      has_dots (manifest_name n))"
    using ne manifest_name_chars no_dots by blast
  have "exec disk_view v (fs_read_to_string CURRENT) (Inr ?line) v C"
    unfolding fs_read_to_string_def
    by (rule exec_try [OF exec_read [where v = v and C = C and p = CURRENT, OF assms(1)]])
      (use string_bytes_back [OF ascii] assms(2) in \<open>auto simp: current_line_def intro!: orderly exec_pure\<close>)
  then show ?thesis
    unfolding read_current_manifest_def
    by (rule exec_try [OF exec_be]) (use clean in \<open>auto simp: Let_def trim intro!: orderly exec_pure\<close>)
qed

lemma exec_load_manifest:
  assumes "v CURRENT = Some (current_line (md_manifest_seq md))"
    "v (manifest_name (md_manifest_seq md)) = Some (encode_manifest md)" "manifest_ok md" "C v"
  shows "exec disk_view v load_manifest (Inr md) v C"
  unfolding load_manifest_def
  by (rule exec_try [OF exec_read_current [where v = v and C = C, OF assms(1,4)]], rule exec_try [OF exec_be [OF exec_read [where p = "manifest_name _"]]])
    (use assms in \<open>auto simp: decode_encode_manifest intro!: orderly exec_pure\<close>)

lemma exec_read_meta:
  assumes "v META_FILE = Some (encode_meta m)" "meta_ok m" "C v"
  shows "exec disk_view v read_meta_file (Inr (Some m)) v C"
  unfolding read_meta_file_def
  by (rule exec_if [OF exec_exists_view [where p = META_FILE]])
    (use assms in \<open>auto simp: decode_encode_meta intro!: orderly exec_pure exec_try [OF exec_be [OF exec_read]] exec_try [OF exec_pure(3)]\<close>)

end
