(* ===== verification/Fs_Recovery.thy ===== *)
theory Fs_Recovery
  imports Fs_Layout
begin

text \<open>
  Recovery of the filesystem backend. The files of a database always hold one state of its data: the
  base that the manifest names, a segment or the metadata file of a young database, followed by the
  complete transactions of the log. \<open>recoverable\<close> says so of files at rest, \<open>tip\<close> of the files of an
  open database. Opening runs from the one to the other, whenever it is killed and run again.
\<close>

section \<open>Replay by parts\<close>

text \<open>What a log operation does to the records, the index entries, the generators and the metadata.\<close>

fun op_records :: "wal_op \<Rightarrow> (record_key, bytes) btree \<Rightarrow> (record_key, bytes) btree" where
  "op_records (WalPut store key val) m = bt_insert (store, key) val m"
| "op_records (WalDelete store key) m = bt_remove (store, key) m"
| "op_records (WalClear store) m = fold bt_remove (filter (\<lambda>k. fst k = store) (bt_keys m)) m"
| "op_records _ m = m"

fun op_index :: "wal_op \<Rightarrow> (index_key, unit) btree \<Rightarrow> (index_key, unit) btree" where
  "op_index (WalIndexPut index ik pk) m = bt_insert (index, ik, pk) () m"
| "op_index (WalIndexDelete index ik pk) m = bt_remove (index, ik, pk) m"
| "op_index _ m = m"

fun op_gens :: "wal_op \<Rightarrow> (store_id \<rightharpoonup> f64) \<Rightarrow> (store_id \<rightharpoonup> f64)" where
  "op_gens (WalKeyGenSet store v) g = g(store \<mapsto> v)"
| "op_gens _ g = g"

fun op_meta :: "wal_op \<Rightarrow> database_meta \<Rightarrow> database_meta" where
  "op_meta (WalKeyGenSet store v) m = set_key_gen store v m"
| "op_meta (WalMetaReplace bs) m = (case decode_meta bs of Inr m' \<Rightarrow> m' | Inl _ \<Rightarrow> m)"
| "op_meta _ m = m"

fun op_decodes :: "wal_op \<Rightarrow> bool" where
  "op_decodes (WalMetaReplace bs) = (\<exists>m. decode_meta bs = Inr m)"
| "op_decodes _ = True"

definition replay :: "wal_op list \<Rightarrow> db_state \<Rightarrow> db_state" where
  "replay ops st = st\<lparr>ds_records := fold op_records ops (ds_records st),
     ds_index_entries := fold op_index ops (ds_index_entries st),
     ds_key_generators := fold op_gens ops (ds_key_generators st),
     ds_meta := map_option (fold op_meta ops) (ds_meta st)\<rparr>"

lemma apply_op_replay:
  assumes "ds_meta st = Some m" "op_decodes op"
  shows "apply_op st op = Inr (replay [op] st)"
  using assms by (cases op) (auto simp: replay_def Let_def)

lemma apply_ops_replay:
  "ds_meta st = Some m \<Longrightarrow> list_all op_decodes ops \<Longrightarrow> apply_ops st ops = Inr (replay ops st)"
proof (induction ops arbitrary: st m)
  case (Cons op ops)
  have "apply_ops (replay [op] st) ops = Inr (replay ops (replay [op] st))"
    using Cons.prems by (intro Cons.IH [of _ "op_meta op m"]) (simp_all add: replay_def)
  then show ?case
    using Cons.prems by (simp add: apply_op_replay) (simp add: replay_def option.map_comp comp_def)
qed (cases st, simp add: replay_def option.map_ident)

lemma replay_append: "replay (xs @ ys) st = replay ys (replay xs st)"
  by (simp add: replay_def option.map_comp comp_def)

lemma apply_frames_replay:
  "ds_meta st = Some m \<Longrightarrow> list_all op_decodes (concat (map fr_ops fs)) \<Longrightarrow>
   \<exists>n. apply_frames st fs = Inr (with_txn_seq n (replay (concat (map fr_ops fs)) st))"
proof (induction fs arbitrary: st m)
  case (Cons f fs)
  let ?st = "replay (fr_ops f) st"
  let ?seq = "max (ds_next_txn_seq ?st) (saturating_inc (unat (fr_txn_seq f)))"
  have "\<exists>n. apply_frames (?st\<lparr>ds_next_txn_seq := ?seq\<rparr>) fs =
      Inr (with_txn_seq n (replay (concat (map fr_ops fs)) (?st\<lparr>ds_next_txn_seq := ?seq\<rparr>)))"
    using Cons.prems by (intro Cons.IH [of _ "fold op_meta (fr_ops f) m"]) (simp_all add: replay_def)
  moreover have "apply_ops st (fr_ops f) = Inr ?st"
    using Cons.prems by (intro apply_ops_replay) simp_all
  ultimately show ?case
    by (simp add: replay_append) (simp add: replay_def with_txn_seq_def)
next
  case Nil
  show ?case
    by (intro exI [of _ "ds_next_txn_seq st"]) (cases st, simp add: replay_def with_txn_seq_def option.map_id0)
qed

lemma replay_fields:
  "ds_records (replay ops st) = fold op_records ops (ds_records st)"
  "ds_index_entries (replay ops st) = fold op_index ops (ds_index_entries st)"
  "ds_key_generators (replay ops st) = fold op_gens ops (ds_key_generators st)"
  "ds_meta (replay ops st) = map_option (fold op_meta ops) (ds_meta st)"
  "ds_wal_seq (replay ops st) = ds_wal_seq st" "ds_manifest_seq (replay ops st) = ds_manifest_seq st"
  "ds_segments (replay ops st) = ds_segments st"
  by (simp_all add: replay_def)

section \<open>Generators and metadata\<close>

definition meta_gen :: "database_meta \<Rightarrow> store_id \<Rightarrow> f64 option" where
  "meta_gen m s = map_option st_key_gen (find (\<lambda>x. st_id x = s) (db_stores m))"

definition gen_value :: "(store_id \<rightharpoonup> f64) \<Rightarrow> store_id \<Rightarrow> f64" where
  "gen_value g s = (case g s of Some v \<Rightarrow> v | None \<Rightarrow> f64_of_int 1)"

text \<open>The generators agree with what the metadata say of every store.\<close>

definition agree :: "(store_id \<rightharpoonup> f64) \<Rightarrow> database_meta \<Rightarrow> bool" where
  "agree g m \<longleftrightarrow> (\<forall>s k. meta_gen m s = Some k \<longrightarrow> gen_value g s = k)"

lemma find_update_other:
  "(\<And>x. st_id (f x) = st_id x) \<Longrightarrow> s' \<noteq> s \<Longrightarrow>
   find (\<lambda>x. st_id x = s') (update_first (\<lambda>x. st_id x = s) f xs) = find (\<lambda>x. st_id x = s') xs"
  by (induction xs) auto

lemma meta_gen_set:
  "meta_gen (set_key_gen s v m) s' = (if s' = s then map_option (\<lambda>_. v) (meta_gen m s) else meta_gen m s')"
  by (auto simp: meta_gen_def set_key_gen_def find_update_first find_update_other option.map_comp comp_def)

lemma seed_generators_value: "seed_generators m g s = (case g s of Some v \<Rightarrow> Some v | None \<Rightarrow> meta_gen m s)"
proof -
  have "fold (\<lambda>x g. if g (st_id x) = None then g(st_id x \<mapsto> st_key_gen x) else g) xs g s =
      (case g s of Some v \<Rightarrow> Some v | None \<Rightarrow> map_option st_key_gen (find (\<lambda>x. st_id x = s) xs))" for xs :: "store_meta list" and g
    by (induction xs arbitrary: g) (auto split: option.split)
  then show ?thesis unfolding seed_generators_def meta_gen_def .
qed

lemma fold_op_gens: "fold op_gens ops g s = (case fold op_gens ops Map.empty s of Some v \<Rightarrow> Some v | None \<Rightarrow> g s)"
proof (induction ops rule: rev_induct)
  case (snoc op ops)
  show ?case
    using snoc by (cases op) simp_all
qed simp

text \<open>A log is settled if generators change only in the company of the metadata.\<close>

definition settled :: "wal_op list \<Rightarrow> bool" where
  "settled ops \<longleftrightarrow> (\<exists>bs. WalMetaReplace bs \<in> set ops) \<or> (\<forall>s v. WalKeyGenSet s v \<notin> set ops)"

lemma settled_append: "settled xs \<Longrightarrow> settled ys \<Longrightarrow> settled (xs @ ys)"
  by (auto simp: settled_def)

lemma fold_op_meta_replace:
  "WalMetaReplace bs \<in> set ops \<Longrightarrow> list_all op_decodes ops \<Longrightarrow> fold op_meta ops m = fold op_meta ops m'"
proof (induction ops arbitrary: m m')
  case (Cons op ops)
  then show ?case
    by (cases "WalMetaReplace bs \<in> set ops") auto
qed simp

lemma fold_op_meta_same:
  "(\<forall>bs. WalMetaReplace bs \<notin> set ops) \<Longrightarrow> (\<forall>s v. WalKeyGenSet s v \<notin> set ops) \<Longrightarrow> fold op_meta ops m = m"
proof (induction ops arbitrary: m)
  case (Cons op ops)
  then show ?case by (cases op) auto
qed simp

lemma settled_meta:
  "settled ops \<Longrightarrow> list_all op_decodes ops \<Longrightarrow> fold op_meta ops (fold op_meta ops m) = fold op_meta ops m"
  using fold_op_meta_replace fold_op_meta_same unfolding settled_def by metis

section \<open>What the files hold\<close>

text \<open>Two states with the same data, as a transaction sees it: a store without a generator has one
  that starts at one.\<close>

definition same_db :: "db_state \<Rightarrow> db_state \<Rightarrow> bool" where
  "same_db a b \<longleftrightarrow> ds_records a = ds_records b \<and> ds_index_entries a = ds_index_entries b \<and> ds_meta a = ds_meta b \<and>
     (\<forall>m s. ds_meta a = Some m \<and> meta_gen m s \<noteq> None \<longrightarrow>
        gen_value (ds_key_generators a) s = gen_value (ds_key_generators b) s)"

lemma same_db_refl: "same_db a a"
  by (simp add: same_db_def)

lemma same_db_sym: "same_db a b \<Longrightarrow> same_db b a"
  unfolding same_db_def by metis

lemma same_db_trans: "same_db a b \<Longrightarrow> same_db b c \<Longrightarrow> same_db a c"
  unfolding same_db_def by metis

text \<open>A state whose metadata can be written, whose generators agree with them, and whose store
  numbers are in use.\<close>

definition good :: "db_state \<Rightarrow> bool" where
  "good st \<longleftrightarrow> (\<exists>m. ds_meta st = Some m \<and> meta_ok m \<and> agree (ds_key_generators st) m \<and>
     (\<forall>s. ds_key_generators st s \<noteq> None \<or> meta_gen m s \<noteq> None \<longrightarrow> s < db_next_store_id m))"

lemma good_same_db:
  "ds_records a = ds_records b \<Longrightarrow> ds_index_entries a = ds_index_entries b \<Longrightarrow> ds_meta a = ds_meta b \<Longrightarrow> good a \<Longrightarrow> good b \<Longrightarrow>
   same_db a b"
  by (fastforce simp: same_db_def good_def agree_def)

definition log_ops :: "(u64 \<times> wal_op list list) list \<Rightarrow> wal_op list" where
  "log_ops ps = concat (map fr_ops (log_frames ps))"

lemma log_ops_append [simp]: "log_ops (ps @ [(seq, gs)]) = log_ops ps @ concat gs" "log_ops [] = []"
  by (simp_all add: log_ops_def log_frames_def)

definition seeded :: "db_state \<Rightarrow> db_state" where
  "seeded st = (case ds_meta st of
     None \<Rightarrow> st | Some m \<Rightarrow> st\<lparr>ds_key_generators := seed_generators m (ds_key_generators st)\<rparr>)"

lemma seeded_fields:
  "ds_records (seeded st) = ds_records st" "ds_index_entries (seeded st) = ds_index_entries st"
  "ds_meta (seeded st) = ds_meta st" "ds_wal_seq (seeded st) = ds_wal_seq st"
  "ds_manifest_seq (seeded st) = ds_manifest_seq st" "ds_segments (seeded st) = ds_segments st"
  by (simp_all add: seeded_def split: option.split)

text \<open>The state \<open>S\<close> is the base that the manifest \<open>md\<close> names; \<open>M\<close> are the metadata in the metadata file.\<close>

definition base_init :: "manifest_data \<Rightarrow> db_state" where
  "base_init md = db_state_default\<lparr>ds_manifest_seq := md_manifest_seq md, ds_wal_seq := md_wal_seq md\<rparr>"

definition base :: "files \<Rightarrow> manifest_data \<Rightarrow> database_meta \<Rightarrow> db_state \<Rightarrow> bool" where
  "base v md M S \<longleftrightarrow>
     md_segments md = [] \<and> S = (base_init md)\<lparr>ds_meta := Some M\<rparr> \<or>
     (\<exists>seq bs S'. md_segments md = [seq] \<and> v (segment_path seq) = Some bs \<and>
        decode_segment bs (base_init md) = Inr (seq, S') \<and> ds_meta S' \<noteq> None \<and> S = S'\<lparr>ds_segments := [seq]\<rparr>)"

definition stored ::
    "files \<Rightarrow> manifest_data \<Rightarrow> (u64 \<times> wal_op list list) list \<Rightarrow> bytes \<Rightarrow> database_meta \<Rightarrow> db_state \<Rightarrow> db_state \<Rightarrow> bool" where
  "stored v md ps tail M S R \<longleftrightarrow>
     v CURRENT = Some (current_line (md_manifest_seq md)) \<and>
     v (manifest_name (md_manifest_seq md)) = Some (encode_manifest md) \<and> manifest_ok md \<and>
     v (wal_path (md_wal_seq md)) = Some (frames_bytes (log_frames ps) @ tail) \<and> list_all packed ps \<and>
     recover_committed_frames (frames_bytes (log_frames ps) @ tail) =
       \<lparr>rw_frames = log_frames ps, rw_valid_prefix_len = length (frames_bytes (log_frames ps))\<rparr> \<and>
     list_all op_decodes (log_ops ps) \<and> settled (log_ops ps) \<and>
     v META_FILE = Some (encode_meta M) \<and> meta_ok M \<and>
     base v md M S \<and> R = replay (log_ops ps) (seeded S) \<and> good R \<and>
     ds_meta R = Some (fold op_meta (log_ops ps) M)"

text \<open>A directory in which the database has not been published yet: a new one, or one whose creation
  was killed.\<close>

definition unpublished :: "files \<Rightarrow> bool" where
  "unpublished v \<longleftrightarrow> v CURRENT = None \<and> (v (wal_path 1) = None \<or> v (wal_path 1) = Some [])"

definition new_state :: "utf16 \<Rightarrow> db_state" where
  "new_state name = db_state_default\<lparr>ds_meta := Some (empty_meta name)\<rparr>"

definition recoverable :: "utf16 \<Rightarrow> db_state \<Rightarrow> files \<Rightarrow> bool" where
  "recoverable name st v \<longleftrightarrow>
     unpublished v \<and> same_db (new_state name) st \<or>
     (\<exists>md ps tail M S R. stored v md ps tail M S R \<and> same_db R st)"

text \<open>The manifest a live state corresponds to, and the files behind it.\<close>

definition manifest_of :: "db_state \<Rightarrow> manifest_data" where
  "manifest_of st = \<lparr>md_manifest_seq = ds_manifest_seq st, md_wal_seq = ds_wal_seq st, md_segments = ds_segments st\<rparr>"

definition tip :: "db_state \<Rightarrow> files \<Rightarrow> bool" where
  "tip st v \<longleftrightarrow> good st \<and> (\<exists>ps M S R. stored v (manifest_of st) ps [] M S R \<and> ds_meta st = Some M \<and> same_db R st)"

lemma tip_recoverable: "tip st v \<Longrightarrow> recoverable name st v"
  unfolding tip_def recoverable_def by blast

lemma recoverable_same: "recoverable name st v \<Longrightarrow> same_db st st' \<Longrightarrow> recoverable name st' v"
  unfolding recoverable_def using same_db_trans by blast

section \<open>How the files change\<close>

lemma recover_packed:
  "list_all packed ps \<Longrightarrow> recover_committed_frames (frames_bytes (log_frames ps)) =
     \<lparr>rw_frames = log_frames ps, rw_valid_prefix_len = length (frames_bytes (log_frames ps))\<rparr>"
  using recover_log [of ps "frames_bytes (log_frames ps)" "[]"]
  by (simp add: recover_loop_stop)

lemma recover_torn:
  assumes "list_all packed ps" "packed (seq, gs)" "m < length (frames_bytes (txn_frames seq gs))"
  shows "recover_committed_frames (frames_bytes (log_frames ps) @ take m (frames_bytes (txn_frames seq gs))) =
     \<lparr>rw_frames = log_frames ps, rw_valid_prefix_len = length (frames_bytes (log_frames ps))\<rparr>"
  unfolding recover_log [OF assms(1) refl]
  using assms by (intro recover_loop_torn [of seq gs _ _ m]) (simp_all add: packed_def)

lemma log_frames_snoc: "log_frames (ps @ [(seq, gs)]) = log_frames ps @ txn_frames seq gs"
  by (simp add: log_frames_def)

lemma base_frame:
  "p \<notin> segment_path ` set (md_segments md) \<Longrightarrow> base (v(p := x)) md M S = base v md M S"
  unfolding base_def by (cases "md_segments md") (auto simp del: fun_upd_apply simp: fun_upd_other)

lemma stored_frame:
  assumes "p \<notin> segment_path ` set (md_segments md)" "p \<noteq> CURRENT" "p \<noteq> META_FILE"
    "p \<noteq> manifest_name (md_manifest_seq md)" "p \<noteq> wal_path (md_wal_seq md)"
  shows "stored (v(p := x)) md ps tail M S R = stored v md ps tail M S R"
  using assms unfolding stored_def base_frame [OF assms(1)] by simp

lemma wal_not_segment: "wal_path n \<notin> segment_path ` A" "META_FILE \<notin> segment_path ` A" "CURRENT \<notin> segment_path ` A"
    "manifest_name k \<notin> segment_path ` A" "LOCK_FILE \<notin> segment_path ` A"
  by (auto simp: image_iff)

text \<open>The tail of the log may be anything that recovery drops.\<close>

lemma stored_tail:
  assumes "stored v md ps tail M S R"
    "recover_committed_frames (frames_bytes (log_frames ps) @ tail') =
       \<lparr>rw_frames = log_frames ps, rw_valid_prefix_len = length (frames_bytes (log_frames ps))\<rparr>"
  shows "stored (v(wal_path (md_wal_seq md) \<mapsto> frames_bytes (log_frames ps) @ tail')) md ps tail' M S R"
  using assms unfolding stored_def base_frame [OF wal_not_segment(1)] by fastforce

lemma stored_append:
  assumes "stored v md ps [] M S R" "packed (seq, gs)" "list_all op_decodes (concat gs)" "settled (concat gs)"
    "good (replay (concat gs) R)"
  shows "stored (v(wal_path (md_wal_seq md) \<mapsto> frames_bytes (log_frames (ps @ [(seq, gs)])))) md (ps @ [(seq, gs)]) [] M S
    (replay (concat gs) R)"
proof -
  have "list_all packed (ps @ [(seq, gs)])" using assms(1,2) by (simp add: stored_def)
  then show ?thesis
    using assms recover_packed [of "ps @ [(seq, gs)]"]
    unfolding stored_def base_frame [OF wal_not_segment(1)]
    by (auto simp: replay_append settled_append replay_fields)
qed

text \<open>Writing the metadata of the recovered state to the metadata file changes no data.\<close>

lemma stored_heal:
  assumes st: "stored v md ps tail M S R" and m: "ds_meta R = Some m"
  obtains S' R' where "stored (v(META_FILE \<mapsto> encode_meta m)) md ps tail m S' R'" "same_db R' R"
proof -
  let ?ops = "log_ops ps" and ?v = "v(META_FILE \<mapsto> encode_meta m)"
  have settled: "fold op_meta ?ops (fold op_meta ?ops x) = fold op_meta ?ops x" for x
    using st settled_meta by (simp add: stored_def)
  have good: "good R" "meta_ok m" using st m by (auto simp: stored_def good_def)
  have fixed: "fold op_meta ?ops m = m" using st m settled by (auto simp: stored_def)
  have base: "base ?v md M S' = base v md M S'" for M S' by (simp add: base_frame [OF wal_not_segment(2)])
  consider (young) "md_segments md = []" "S = (base_init md)\<lparr>ds_meta := Some M\<rparr>" | (segment) "md_segments md \<noteq> []"
    using st by (auto simp: stored_def base_def)
  then show thesis
  proof cases
    case young
    define S' where "S' = (base_init md)\<lparr>ds_meta := Some m\<rparr>"
    define R' where "R' = replay ?ops (seeded S')"
    have R: "R = replay ?ops (seeded S)" using st by (simp add: stored_def)
    have meta: "ds_meta R' = Some m" by (simp add: R'_def S'_def replay_fields seeded_fields fixed)
    have gens: "ds_key_generators R' s = (case fold op_gens ?ops Map.empty s of Some w \<Rightarrow> Some w | None \<Rightarrow> meta_gen m s)"
      "fold op_gens ?ops Map.empty s = Some w \<Longrightarrow> ds_key_generators R s = Some w" for s w
      unfolding R'_def R replay_fields fold_op_gens [of ?ops "ds_key_generators (seeded _)" s]
      by (simp_all add: S'_def seeded_def seed_generators_value base_init_def db_state_default_def split: option.split)
    have "good R'"
      using good gens m meta unfolding good_def agree_def gen_value_def
      by (fastforce split: option.splits)
    moreover have "ds_records R' = ds_records R" "ds_index_entries R' = ds_index_entries R"
      by (simp_all add: R'_def R S'_def young(2) replay_fields seeded_fields)
    ultimately have "same_db R' R" using good meta m by (intro good_same_db) simp_all
    moreover have "stored ?v md ps tail m S' R'"
      using st \<open>good R'\<close> good(2) meta fixed young(1)
      unfolding stored_def by (simp add: base_def S'_def R'_def)
    ultimately show thesis using that by blast
  next
    case segment
    have "base v md m S" using st segment by (auto simp: stored_def base_def)
    then have "stored ?v md ps tail m S R"
      using st good fixed m base unfolding stored_def by simp
    then show thesis using that same_db_refl by blast
  qed
qed

lemma stored_recoverable: "stored v md ps tail M S R \<Longrightarrow> same_db R st \<Longrightarrow> recoverable name st v"
  unfolding recoverable_def by blast

end
