(* ===== verification/Fs_Open.thy ===== *)
theory Fs_Open
  imports Fs_Recovery
begin

text \<open>
  Opening a database from whatever a killed process has left: \<open>FsDatabase::open\<close> of
  \<open>boa_idb_fs/src/database.rs\<close>, run symbolically under every plan that kills it.
\<close>

section \<open>The computation is orderly\<close>

lemma orderly_text [orderly]: "orderly (fs_read_to_string p)" "orderly read_current_manifest" "orderly load_manifest"
  "orderly (write_manifest md sync)" "orderly (write_meta_file m sync)" "orderly read_meta_file"
  unfolding fs_read_to_string_def read_current_manifest_def load_manifest_def write_manifest_def write_meta_file_def
    read_meta_file_def Let_def
  by (auto intro!: orderly)

lemma orderly_segments [orderly]:
  "orderly (load_segment_file seq st)" "orderly (write_segment_file gens seq st sync)" "orderly (load_segments seqs st)"
proof -
  show "orderly (write_segment_file gens seq st sync)" by (auto simp: write_segment_file_def intro!: orderly)
  show load: "orderly (load_segment_file seq st)" for seq st
    unfolding load_segment_file_def by (auto split: prod.split intro!: orderly)
  show "orderly (load_segments seqs st)"
    by (induction seqs arbitrary: st) (auto split: prod.split intro!: orderly load)
qed

lemma orderly_open [orderly]: "orderly (load_base name md)" "orderly (fs_load name)" "orderly (init_database name)"
proof -
  show base: "orderly (load_base name md)" for md unfolding load_base_def Let_def by (auto intro!: orderly)
  show "orderly (fs_load name)"
    unfolding fs_load_def Let_def by (auto intro!: orderly base split: option.split)
  show "orderly (init_database name)" unfolding init_database_def by (auto intro!: orderly)
qed

section \<open>Loading\<close>

lemma decode_segment_frame:
  assumes "decode_segment bs st = Inr (seq, S)"
  shows "ds_segments S = ds_segments st" "ds_manifest_seq S = ds_manifest_seq st" "ds_wal_seq S = ds_wal_seq st"
  using assms unfolding decode_segment_def Let_def
  by (auto simp: rbind_eq_Inr split: if_splits prod.splits)

lemma exec_ensure_there:
  "v p \<noteq> None \<Longrightarrow> \<not> is_temp p \<Longrightarrow> C v \<Longrightarrow> exec disk_view v (ensure_file p) (Inr ()) v C"
  unfolding ensure_file_def using exec_be [OF exec_ensure_file [of p C v]] by (auto split: option.splits)

lemma base_fields:
  assumes "base v md M S"
  shows "ds_wal_seq S = md_wal_seq md" "ds_manifest_seq S = md_manifest_seq md" "ds_segments S = md_segments md"
    "ds_meta S \<noteq> None"
  using assms decode_segment_frame unfolding base_def
  by (auto simp: base_init_def db_state_default_def)

lemma exec_load_base:
  assumes "base v md M S" "v META_FILE = Some (encode_meta M)" "meta_ok M" "C v"
  shows "exec disk_view v (load_base name md) (Inr (seeded S)) v C"
  using assms(1) unfolding base_def
proof (elim disjE exE conjE)
  assume young: "md_segments md = []" "S = (base_init md)\<lparr>ds_meta := Some M\<rparr>"
  show ?thesis
    unfolding load_base_def Let_def young(1) load_segments.simps
    by (rule exec_try [OF exec_pure(1)], simp add: db_state_default_def,
        rule exec_try [where v = v and C = C, OF exec_read_meta [where v = v and C = C, OF assms(2-4)]])
      (auto simp: young(2) seeded_def base_init_def db_state_default_def intro!: exec_pure orderly)
next
  fix seq bs S'
  assume seg: "md_segments md = [seq]" "v (segment_path seq) = Some bs"
    "decode_segment bs (base_init md) = Inr (seq, S')" "ds_meta S' \<noteq> None" "S = S'\<lparr>ds_segments := [seq]\<rparr>"
  have fields: "ds_segments S' = []"
    using decode_segment_frame [OF seg(3)] by (simp add: base_init_def db_state_default_def)
  have "exec disk_view v (load_segment_file seq (base_init md)) (Inr (seq, S')) v C"
    unfolding load_segment_file_def
    by (rule exec_try [OF exec_be [OF exec_read [where p = "segment_path seq" and v = v and C = C, OF seg(2)]]],
        use assms(4) in \<open>simp_all\<close>, rule exec_try [where x = "(seq, S')"])
      (auto simp: seg(3) intro: exec_pure orderly split: prod.split intro!: orderly)
  then have "exec disk_view v (load_segments [seq] (base_init md)) (Inr S) v C"
    unfolding load_segments.simps
    by (rule exec_try) (auto simp: fields seg(5) intro!: exec_pure orderly split: prod.split)
  moreover obtain y where y: "ds_meta S = Some y" using seg(4,5) by auto
  then have "S\<lparr>ds_meta := Some y, ds_key_generators := seed_generators y (ds_key_generators S)\<rparr> = seeded S"
    by (cases S) (simp add: seeded_def)
  ultimately show ?thesis
    unfolding load_base_def Let_def seg(1) base_init_def [symmetric]
    by (elim exec_try) (rule exec_try [where x = "Some y" and v = v], auto simp: y intro!: exec_pure orderly)
qed

section \<open>Opening a published database\<close>

lemma recover_prefix:
  "stored v md ps tail M S R \<Longrightarrow> take (length (frames_bytes (log_frames ps))) (frames_bytes (log_frames ps) @ tail) =
     frames_bytes (log_frames ps)"
  by simp

lemma exec_load:
  assumes st: "stored v md ps tail M S R" and C: "\<And>w. recoverable name R w \<Longrightarrow> C w"
  shows "\<exists>st' v'. exec disk_view v (fs_load name) (Inr st') v' C \<and> tip st' v' \<and> same_db st' R"
proof -
  let ?wal = "wal_path (md_wal_seq md)" and ?log = "frames_bytes (log_frames ps)"
  obtain m where m: "ds_meta R = Some m" "meta_ok m" "good R" using st by (auto simp: stored_def good_def)
  have base: "base v md M S" and R: "R = replay (log_ops ps) (seeded S)"
    and decodes: "list_all op_decodes (log_ops ps)" and wal: "v ?wal = Some (?log @ tail)"
    and rec: "recover_committed_frames (?log @ tail) = \<lparr>rw_frames = log_frames ps, rw_valid_prefix_len = length ?log\<rparr>"
    and packed: "list_all packed ps"
    and meta: "v META_FILE = Some (encode_meta M)" "meta_ok M"
    and manifest: "v CURRENT = Some (current_line (md_manifest_seq md))"
      "v (manifest_name (md_manifest_seq md)) = Some (encode_manifest md)" "manifest_ok md"
    using st by (auto simp: stored_def)
  obtain n where n: "apply_frames (seeded S) (log_frames ps) = Inr (with_txn_seq n R)"
    using apply_frames_replay [of "seeded S" _ "log_frames ps"] decodes base_fields(4) [OF base]
    by (auto simp: seeded_fields R log_ops_def)
  define st' where "st' = (with_txn_seq n R)\<lparr>ds_wal_bytes_since_compact := length ?log,
      ds_wal_frames_since_compact := length (log_frames ps)\<rparr>"
  have st': "ds_meta st' = Some m" "same_db st' R" "good st'" "manifest_of st' = md"
    using m base_fields [OF base]
    by (simp_all add: st'_def with_txn_seq_def same_db_def good_def manifest_of_def R replay_fields seeded_fields)
  define v1 where "v1 = v(?wal \<mapsto> ?log)"
  have stored1: "stored v1 md ps [] M S R"
    using stored_tail [OF st, of "[]"] recover_packed [OF packed] by (simp add: v1_def)
  obtain S' R' where heal: "stored (v1(META_FILE \<mapsto> encode_meta m)) md ps [] m S' R'" "same_db R' R"
    by (rule stored_heal [OF stored1 m(1)])
  have Cs: "C v" "C v1" "C (v1(META_FILE \<mapsto> encode_meta m))"
    using st stored1 heal by (auto intro!: C intro: stored_recoverable same_db_refl)
  have healed: "exec disk_view v1 (io_try read_meta_file (\<lambda>disk_meta.
      io_try (if disk_meta \<noteq> Some m then write_meta_file m True else io_ok ()) (\<lambda>_. io_ok st'))) (Inr st')
      (v1(META_FILE \<mapsto> encode_meta m)) C"
  proof (rule exec_try [where x = "Some M"])
    show "exec disk_view v1 read_meta_file (Inr (Some M)) v1 C"
      by (rule exec_read_meta) (use meta Cs in \<open>simp_all add: v1_def\<close>)
    have "exec disk_view v1 (if Some M \<noteq> Some m then write_meta_file m True else io_ok ()) (Inr ())
        (v1(META_FILE \<mapsto> encode_meta m)) C"
    proof (cases "M = m")
      case True
      then have "v1(META_FILE \<mapsto> encode_meta m) = v1" using meta(1) by (simp add: v1_def fun_upd_idem)
      then show ?thesis using True by (simp add: exec_pure)
    next
      case False
      then show ?thesis unfolding write_meta_file_def by (simp add: exec_atomic_write Cs)
    qed
    then show "exec disk_view v1 (io_try (if Some M \<noteq> Some m then write_meta_file m True else io_ok ()) (\<lambda>_. io_ok st'))
        (Inr st') (v1(META_FILE \<mapsto> encode_meta m)) C"
      by (rule exec_try) (auto intro!: exec_pure orderly)
  qed (auto intro!: orderly)
  have cut: "exec disk_view v (if length ?log < length (?log @ tail) then truncate_file ?wal (length ?log) else io_ok ())
      (Inr ()) v1 C"
  proof (cases "tail = []")
    case True
    then show ?thesis using wal by (simp add: v1_def exec_pure fun_upd_idem)
  next
    case False
    have "exec disk_view v (fs_set_len ?wal (length ?log)) (Inr ()) (v(?wal \<mapsto> take (length ?log) (?log @ tail))) C"
      by (rule exec_set_len) (use wal Cs in simp_all)
    then show ?thesis using False by (simp add: truncate_file_def v1_def exec_be)
  qed
  have "exec disk_view v (fs_load name) (Inr st') (v1(META_FILE \<mapsto> encode_meta m)) C"
    unfolding fs_load_def Let_def
    by (rule exec_try [where v = v and C = C, OF exec_load_manifest [where v = v and C = C, OF manifest Cs(1)]],
        rule exec_try [where v = v and C = C, OF exec_load_base [where v = v and C = C, OF base meta Cs(1)]],
        unfold seeded_fields base_fields [OF base],
        rule exec_try [where v = v and C = C, OF exec_ensure_there], simp add: wal, simp, rule Cs(1),
        rule exec_try [where v = v and C = C, OF exec_be [OF exec_read [where v = v and C = C, OF wal]]], simp, rule Cs(1),
        unfold rec recovered_wal.simps n,
        rule exec_try [where v = v and C = C, OF exec_pure(3)],
        rule exec_try [where v = v and C = C, OF cut])
      (use healed st'(1) in \<open>auto simp: st'_def [symmetric] intro!: orderly split: option.split\<close>)
  moreover have "tip st' (v1(META_FILE \<mapsto> encode_meta m))"
    unfolding tip_def st'(4) using heal st' same_db_trans same_db_sym by blast
  ultimately show ?thesis using st'(2) by blast
qed

section \<open>Creating a database\<close>

lemma empty_meta_ok: "length name < 2 ^ 32 \<Longrightarrow> meta_ok (empty_meta name)"
  by (simp add: meta_ok_def empty_meta_def)

definition first_manifest :: manifest_data where
  "first_manifest = \<lparr>md_manifest_seq = 1, md_wal_seq = 1, md_segments = []\<rparr>"

lemma stored_new:
  assumes "v CURRENT = Some (current_line 1)" "v (manifest_name 1) = Some (encode_manifest first_manifest)"
    "v (wal_path 1) = Some []" "v META_FILE = Some (encode_meta (empty_meta name))" "length name < 2 ^ 32"
  shows "\<exists>S. stored v first_manifest [] [] (empty_meta name) S (seeded S) \<and> same_db (seeded S) (new_state name)"
proof -
  define S where "S = (base_init first_manifest)\<lparr>ds_meta := Some (empty_meta name)\<rparr>"
  have gens: "meta_gen (empty_meta name) s = None" for s by (simp add: meta_gen_def empty_meta_def)
  have "ds_key_generators (seeded S) s = None" for s
    by (simp add: S_def seeded_def seed_generators_value base_init_def db_state_default_def gens)
  then have "good (seeded S)"
    using empty_meta_ok [OF assms(5)] by (simp add: good_def S_def seeded_fields agree_def gens)
  moreover have "same_db (seeded S) (new_state name)"
    by (simp add: same_db_def S_def seeded_fields new_state_def base_init_def db_state_default_def gens)
  moreover have "replay [] st = st" for st by (cases st) (simp add: replay_def option.map_id0)
  moreover have "manifest_ok first_manifest" by (simp add: manifest_ok_def first_manifest_def)
  moreover have "recover_committed_frames [] = \<lparr>rw_frames = [], rw_valid_prefix_len = 0\<rparr>"
    using recover_packed [of "[]"] by (simp add: log_frames_def)
  ultimately show ?thesis
    using assms empty_meta_ok [OF assms(5)] unfolding stored_def
    by (intro exI [of _ S]) (simp add: first_manifest_def log_frames_def settled_def base_def S_def seeded_fields)
qed

lemma exec_init:
  assumes v: "unpublished v" and len: "length name < 2 ^ 32" and C: "\<And>w. recoverable name (new_state name) w \<Longrightarrow> C w"
  shows "\<exists>v' M S R. exec disk_view v (init_database name) (Inr ()) v' C \<and> stored v' first_manifest [] [] M S R \<and>
    same_db R (new_state name)"
proof -
  define v1 where "v1 = v(wal_path 1 \<mapsto> [])"
  define v2 where "v2 = v1(META_FILE \<mapsto> encode_meta (empty_meta name))"
  define v3 where "v3 = v2(manifest_name 1 \<mapsto> encode_manifest first_manifest)"
  define v4 where "v4 = v3(CURRENT \<mapsto> current_line 1)"
  have "unpublished w \<Longrightarrow> C w" for w
    by (rule C) (simp add: recoverable_def same_db_refl)
  moreover have "unpublished v1" "unpublished v2" "unpublished v3"
    using v by (simp_all add: unpublished_def v1_def v2_def v3_def)
  ultimately have C123: "C v" "C v1" "C v2" "C v3" using v by simp_all
  obtain S where S: "stored v4 first_manifest [] [] (empty_meta name) S (seeded S)" "same_db (seeded S) (new_state name)"
    using stored_new [of v4 name] len by (auto simp: v4_def v3_def v2_def v1_def)
  have C4: "C v4" by (rule C) (rule stored_recoverable [OF S])
  have ensure: "exec disk_view v (ensure_file (wal_path 1)) (Inr ()) v1 C"
    using exec_be [OF exec_ensure_file [of "wal_path 1" C v]] C123 v
    by (auto simp: ensure_file_def v1_def unpublished_def fun_upd_idem split: option.splits)
  have meta: "exec disk_view v1 (write_meta_file (empty_meta name) True) (Inr ()) v2 C"
    unfolding write_meta_file_def v2_def by (rule exec_atomic_write) (use C123 in \<open>simp_all add: v2_def\<close>)
  have manifest: "exec disk_view v2 (atomic_write (manifest_name 1) (encode_manifest first_manifest) True) (Inr ()) v3 C"
    unfolding v3_def by (rule exec_atomic_write) (use C123 in \<open>simp_all add: v3_def\<close>)
  have current: "exec disk_view v3 (atomic_write CURRENT (current_line 1) True) (Inr ()) v4 C"
    unfolding v4_def by (rule exec_atomic_write) (use C123 C4 in \<open>simp_all add: v4_def\<close>)
  have "exec disk_view v2 (write_manifest first_manifest True) (Inr ()) v4 C"
    unfolding write_manifest_def Let_def
    by (rule exec_try [of _ _ _ _ v3])
      (use manifest current in \<open>auto simp: first_manifest_def current_line_def intro!: orderly\<close>)
  then have "exec disk_view v (init_database name) (Inr ()) v4 C"
    unfolding init_database_def first_manifest_def [symmetric]
    by (intro exec_try [OF ensure] exec_try [OF meta]) (auto intro!: orderly)
  with S show ?thesis by blast
qed

section \<open>Opening\<close>

text \<open>\<open>open\<close> for a directory that no other process has locked.\<close>

definition take_lock :: "(backend_error, unit) io" where
  "take_lock = io_try (io_be (fs_ensure_file LOCK_FILE)) (\<lambda>_ fs. (Inr (), fs\<lparr>vf_locked := True\<rparr>))"

definition open_unlocked :: "utf16 \<Rightarrow> (backend_error, db_state) io" where
  "open_unlocked name =
     io_try (io_be (fs_create_dir_all ''wal'')) (\<lambda>_.
     io_try (io_be (fs_create_dir_all ''seg'')) (\<lambda>_.
     io_try take_lock (\<lambda>_.
     io_try (io_if (fs_exists CURRENT) (io_ok ()) (init_database name)) (\<lambda>_.
     fs_load name))))"

lemma io_try_cong_locked:
  assumes "\<And>r fs'. m fs = (r, fs') \<Longrightarrow> vf_locked fs' = vf_locked fs" "\<not> vf_locked fs"
    "\<And>x fs'. \<not> vf_locked fs' \<Longrightarrow> f x fs' = g x fs'"
  shows "io_try m f fs = io_try m g fs"
  using assms by (auto simp: io_try_def io_catch_def Let_def io_err_def split: prod.split sum.split)

lemma call_locked: "io_be (call body) fs = (r, fs') \<Longrightarrow> vf_locked fs' = vf_locked fs"
  by (auto simp: io_be_def io_catch_def call_def next_outcome_def io_ok_def io_err_def Let_def
      split: outcome.splits sum.splits prod.splits)

lemma lock_free: "\<not> vf_locked fs \<Longrightarrow> fs_try_lock_exclusive LOCK_FILE fs = take_lock fs"
  unfolding fs_try_lock_exclusive_def take_lock_def fs_ensure_file_def
  by (rule io_try_cong_locked) (auto dest: call_locked)

lemma fs_open_unlocked: "\<not> vf_locked fs \<Longrightarrow> fs_open name fs = open_unlocked name fs"
  unfolding fs_open_def open_unlocked_def fs_create_dir_all_def
  by (intro io_try_cong_locked call_locked) (auto simp: lock_free io_try_def io_catch_def)

lemma exec_set_lock: "exec h v (\<lambda>fs. (Inr (), fs\<lparr>vf_locked := True\<rparr>)) (Inr ()) v C"
  by (auto simp: exec_def orderly_def doomed_def)

lemma recoverable_lock: "recoverable name st v \<Longrightarrow> recoverable name st (v(LOCK_FILE := x))"
  unfolding recoverable_def unpublished_def using stored_frame [OF wal_not_segment(5)] by fastforce

lemma exec_open:
  assumes "recoverable name st v" "length name < 2 ^ 32"
  shows "\<exists>st' v'. exec disk_view v (open_unlocked name) (Inr st') v' (recoverable name st) \<and> tip st' v' \<and> same_db st' st"
proof -
  define v1 where "v1 = (case v LOCK_FILE of None \<Rightarrow> v(LOCK_FILE \<mapsto> []) | Some _ \<Rightarrow> v)"
  let ?C = "recoverable name st"
  have v1: "?C v1" using assms(1) recoverable_lock by (simp add: v1_def split: option.split)
  have dirs: "exec disk_view v (io_be (fs_create_dir_all p)) (Inr ()) v ?C" for p
    using assms(1) by (intro exec_be exec_dirs)
  have orderly_lock: "orderly (\<lambda>fs. (Inr (), fs\<lparr>vf_locked := True\<rparr>))"
    by (rule exec_orderly [OF exec_set_lock])
  have lock: "exec disk_view v take_lock (Inr ()) v1 ?C"
    unfolding take_lock_def v1_def
    by (rule exec_try [OF exec_be [OF exec_ensure_file]]) (use assms(1) in \<open>simp_all add: exec_set_lock orderly_lock\<close>)
  have "\<exists>v2 md ps tail M S R. exec disk_view v1 (io_if (fs_exists CURRENT) (io_ok ()) (init_database name)) (Inr ()) v2 ?C \<and>
      stored v2 md ps tail M S R \<and> same_db R st"
    using v1 [unfolded recoverable_def]
  proof (elim disjE exE conjE)
    assume new: "unpublished v1" "same_db (new_state name) st"
    then obtain v2 M S R where "exec disk_view v1 (init_database name) (Inr ()) v2 ?C" "stored v2 first_manifest [] [] M S R"
        "same_db R (new_state name)"
      using exec_init [OF new(1) assms(2), of ?C] recoverable_same by blast
    moreover have "v1 CURRENT = None" using new by (simp add: unpublished_def)
    ultimately show ?thesis
      using exec_if [OF exec_exists_view [of CURRENT ?C v1], of "io_ok ()" "init_database name" "Inr ()" v2] v1 same_db_trans [OF _ new(2)]
      by (simp add: orderly) blast
  next
    fix md ps tail M S R
    assume "stored v1 md ps tail M S R" "same_db R st"
    moreover from this have "v1 CURRENT \<noteq> None" by (simp add: stored_def)
    ultimately show ?thesis
      using exec_if [OF exec_exists_view [of CURRENT ?C v1], of "io_ok ()" "init_database name" "Inr ()" v1] v1
      by (auto simp: orderly exec_pure) blast
  qed
  then obtain v2 md ps tail M S R where create:
      "exec disk_view v1 (io_if (fs_exists CURRENT) (io_ok ()) (init_database name)) (Inr ()) v2 ?C"
      and stored: "stored v2 md ps tail M S R" "same_db R st"
    by blast
  obtain st' v' where load: "exec disk_view v2 (fs_load name) (Inr st') v' ?C" "tip st' v'" "same_db st' R"
    using exec_load [OF stored(1), of name ?C] recoverable_same [OF _ stored(2)] by blast
  have "exec disk_view v (open_unlocked name) (Inr st') v' ?C"
    unfolding open_unlocked_def
    by (intro exec_try [OF dirs] exec_try [OF lock] exec_try [OF create] load(1))
      (auto intro!: orderly orderly_lock simp: take_lock_def)
  then show ?thesis using load(2,3) stored(2) same_db_trans by blast
qed

lemma exec_run:
  assumes "exec disk_view v m r v' C" "doomed fs" "disk_view (vf_files fs) = v"
  shows "case m fs of (r0, fs') \<Rightarrow>
    doomed fs' \<and> r0 = r \<and> disk_view (vf_files fs') = v' \<or> \<not> healthy fs \<and> dead fs' \<and> C (disk_view (vf_files fs'))"
proof -
  obtain r0 fs' where m: "m fs = (r0, fs')" by (cases "m fs")
  have "\<not> healthy fs" if "dead fs'"
    using that orderlyD [OF exec_orderly [OF assms(1)] m] unfolding dead_def healthy_def
    by (metis outcome.distinct(1) order_refl)
  then show ?thesis using assms m unfolding exec_def by fastforce
qed

text \<open>C7. Recovery: from whatever a killed process can leave behind, opening yields the data of the files,
  and files from which a later crash recovers the same data; when the opening process is killed in
  its turn, the files still hold that data. Nothing but a kill keeps it from succeeding.\<close>

theorem open_recovers:
  assumes "recoverable name st (disk_view (vf_files fs))" "doomed fs" "\<not> vf_locked fs" "length name < 2 ^ 32"
  shows "case fs_open name fs of (r, fs') \<Rightarrow>
    (\<exists>st'. r = Inr st' \<and> same_db st' st \<and> tip st' (disk_view (vf_files fs'))) \<or>
    \<not> healthy fs \<and> dead fs' \<and> recoverable name st (disk_view (vf_files fs'))"
proof -
  obtain st' v' where "exec disk_view (disk_view (vf_files fs)) (open_unlocked name) (Inr st') v' (recoverable name st)"
      "tip st' v'" "same_db st' st"
    using exec_open [OF assms(1,4)] by blast
  then show ?thesis
    using exec_run [OF _ assms(2) refl] fs_open_unlocked [OF assms(3)] by fastforce
qed

text \<open>A process that is killed while it creates the database, and one that is not.\<close>

lemma open_recovers_witness:
  "(let fs = \<lparr>vf_files = Map.empty, vf_plan = (\<lambda>i. if i < 9 then Works else Fails IoOther), vf_step = 0, vf_locked = False\<rparr>
    in case fs_open [100] fs of (r, fs') \<Rightarrow>
       (\<exists>st'. r = Inr st' \<and> same_db st' (new_state [100])) \<or> recoverable [100] (new_state [100]) (disk_view (vf_files fs'))) \<and>
   (let fs = \<lparr>vf_files = Map.empty, vf_plan = (\<lambda>i. Works), vf_step = 0, vf_locked = False\<rparr>
    in case fs_open [100] fs of (r, fs') \<Rightarrow> \<exists>st'. r = Inr st' \<and> same_db st' (new_state [100]))"
proof -
  have new: "recoverable [100] (new_state [100]) (disk_view Map.empty)"
    by (simp add: recoverable_def unpublished_def disk_view_def same_db_refl)
  have "doomed \<lparr>vf_files = Map.empty, vf_plan = (\<lambda>i. if i < 9 then Works else Fails IoOther), vf_step = 0, vf_locked = False\<rparr>"
    "doomed \<lparr>vf_files = Map.empty, vf_plan = (\<lambda>i. Works), vf_step = 0, vf_locked = False\<rparr>"
    "healthy \<lparr>vf_files = Map.empty, vf_plan = (\<lambda>i. Works), vf_step = 0, vf_locked = False\<rparr>"
    by (simp_all add: doomed_def healthy_def)
  then show ?thesis
    using open_recovers [where name = "[100]" and st = "new_state [100]" and
        fs = "\<lparr>vf_files = Map.empty, vf_plan = (\<lambda>i. if i < 9 then Works else Fails IoOther), vf_step = 0, vf_locked = False\<rparr>"]
      open_recovers [where name = "[100]" and st = "new_state [100]" and
        fs = "\<lparr>vf_files = Map.empty, vf_plan = (\<lambda>i. Works), vf_step = 0, vf_locked = False\<rparr>"] new
    unfolding Let_def by fastforce
qed

end
