(* ===== verification/Fs_Commit.thy ===== *)
theory Fs_Commit
  imports Fs_Open
begin

text \<open>
  The commit of a transaction of the filesystem backend with the compaction that may follow it,
  \<open>boa_idb_fs/src/txn.rs\<close> and \<open>compact.rs\<close>: atomic and durable whenever the process is killed.
\<close>

section \<open>Transactions that are ready to commit\<close>

text \<open>The metadata of a transaction come from those of the state by schema operations: stores keep
  their generator, new stores have new numbers and start at one.\<close>

definition evolves :: "database_meta \<Rightarrow> database_meta \<Rightarrow> bool" where
  "evolves m0 m \<longleftrightarrow> db_next_store_id m0 \<le> db_next_store_id m \<and>
     (\<forall>s k. meta_gen m s = Some k \<longrightarrow> s < db_next_store_id m \<and>
        (meta_gen m0 s = Some k \<or> meta_gen m0 s = None \<and> db_next_store_id m0 \<le> s \<and> k = f64_of_int 1))"

definition txn_ready :: "db_state \<Rightarrow> fs_txn \<Rightarrow> bool" where
  "txn_ready st t \<longleftrightarrow> (\<exists>m0. ds_meta st = Some m0 \<and> evolves m0 (mt_meta (ft_base t)) \<and>
     (\<not> ft_schema_dirty t \<longrightarrow> mt_meta (ft_base t) = m0)) \<and>
     (\<forall>s. bt_get (pending_key_generators (ft_base t)) s \<noteq> None \<longrightarrow> s < db_next_store_id (mt_meta (ft_base t)))"

text \<open>Everything the commit writes fits its format.\<close>

definition commit_fits :: "fs_txn \<Rightarrow> bool" where
  "commit_fits t \<longleftrightarrow> (case build_commit_payload t of (ops, meta, _) \<Rightarrow>
     list_all op_ok ops \<and> list_all (\<lambda>op. payload_len [op] \<le> unat (ft_max_frame_payload t)) ops \<and> meta_ok meta) \<and>
     ft_max_frame_payload t \<le> MAX_FRAME_PAYLOAD"

text \<open>The state after the commit.\<close>

definition committed_state :: "fs_txn \<Rightarrow> db_state \<Rightarrow> db_state" where
  "committed_state t st = (case build_commit_payload t of (ops, meta, _) \<Rightarrow>
     apply_pending_to_state t meta (ds_next_txn_seq st) (ops \<noteq> []) st)"

lemma map_of_rev_entries: "map_of (rev (bt_entries m)) = bt_get m"
  using bt_keys_distinct [of m] by (simp add: map_of_rev bt_keys_def bt_get_def [abs_def])

lemma meta_gen_fold_set:
  "meta_gen (fold (\<lambda>(store, val). set_key_gen store val) es m) s =
     (case meta_gen m s of None \<Rightarrow> None | Some k \<Rightarrow> (case map_of (rev es) s of Some w \<Rightarrow> Some w | None \<Rightarrow> Some k))"
  by (induction es rule: rev_induct) (auto simp: meta_gen_set split: option.split)

lemma next_fold_set: "db_next_store_id (fold (\<lambda>(store, val). set_key_gen store val) es m) = db_next_store_id m"
  by (induction es arbitrary: m) (auto simp: set_key_gen_def)

lemma payload_cases:
  assumes "build_commit_payload t = (ops, meta, sd)"
  shows "meta = fold (\<lambda>(store, val). set_key_gen store val) (bt_entries (pending_key_generators (ft_base t))) (mt_meta (ft_base t))"
    "sd = (ft_schema_dirty t \<or> bt_entries (pending_key_generators (ft_base t)) \<noteq> [])"
    "sd \<Longrightarrow> WalMetaReplace (encode_meta meta) \<in> set ops"
    "\<And>bs. WalMetaReplace bs \<in> set ops \<Longrightarrow> bs = encode_meta meta"
    "\<not> sd \<Longrightarrow> WalKeyGenSet s v \<notin> set ops"
  using assms by (auto simp: build_commit_payload_def Let_def split: if_splits option.splits)

lemma payload_log:
  assumes "build_commit_payload t = (ops, meta, sd)" "meta_ok meta"
  shows "list_all op_decodes ops" "settled ops"
proof -
  have "op_decodes op" if "op \<in> set ops" for op
    using that payload_cases(4) [OF assms(1)] decode_encode_meta [OF assms(2)] by (cases op rule: op_decodes.cases) fastforce+
  then show "list_all op_decodes ops" by (simp add: list_all_iff)
  show "settled ops" using payload_cases(3,5) [OF assms(1)] unfolding settled_def by blast
qed

text \<open>Replaying the commit on any state with the same data has the same outcome as applying it in
  memory.\<close>

lemma replay_commit:
  assumes payload: "build_commit_payload t = (ops, meta, sd)" and ok: "meta_ok meta"
    and ready: "txn_ready st t" and same: "same_db X st" and good: "good X" "good st"
  shows "good (replay ops X)" "same_db (replay ops X) (apply_pending_to_state t meta seq bump st)"
    "X = st \<Longrightarrow> good (apply_pending_to_state t meta seq bump st)"
proof -
  let ?pend = "bt_get (pending_key_generators (ft_base t))"
  obtain m0 where m0: "ds_meta st = Some m0" "evolves m0 (mt_meta (ft_base t))"
    "\<not> ft_schema_dirty t \<longrightarrow> mt_meta (ft_base t) = m0"
    and pend: "?pend s \<noteq> None \<Longrightarrow> s < db_next_store_id (mt_meta (ft_base t))" for s
    using ready by (auto simp: txn_ready_def)
  have X: "ds_meta X = Some m0" "ds_records X = ds_records st" "ds_index_entries X = ds_index_entries st"
    using same m0 by (simp_all add: same_db_def)
  have R: "replay ops X =
      (apply_pending_to_state t meta seq False X)\<lparr>ds_meta := (if sd then Some meta else Some m0)\<rparr>"
    using apply_commit_payload [OF payload ok, of X seq] apply_ops_replay [OF X(1) payload_log(1) [OF payload ok]] X(1)
    by simp
  have clean: "sd \<or> meta = m0"
    using payload_cases(1,2) [OF payload] m0(3) by auto
  have gens: "ds_key_generators (replay ops X) s = (case ?pend s of Some w \<Rightarrow> Some w | None \<Rightarrow> ds_key_generators X s)" for s
    by (simp add: R apply_pending_to_state_def Let_def fold_bt_entries map_add_def)
  have gens': "ds_key_generators (apply_pending_to_state t meta seq bump st) s =
      (case ?pend s of Some w \<Rightarrow> Some w | None \<Rightarrow> ds_key_generators st s)" for s
    by (cases bump) (simp_all add: apply_pending_to_state_def Let_def fold_bt_entries map_add_def split: option.split)
  have metas: "ds_meta (replay ops X) = Some meta" using clean by (auto simp: R)
  have mgen: "meta_gen meta s = (case meta_gen (mt_meta (ft_base t)) s of None \<Rightarrow> None
      | Some k \<Rightarrow> (case ?pend s of Some w \<Rightarrow> Some w | None \<Rightarrow> Some k))" for s
    unfolding payload_cases(1) [OF payload] meta_gen_fold_set map_of_rev_entries ..
  have nxt: "db_next_store_id meta = db_next_store_id (mt_meta (ft_base t))"
    unfolding payload_cases(1) [OF payload] next_fold_set ..
  show g: "good (replay ops X)"
    unfolding good_def
  proof (intro exI conjI allI impI)
    show "agree (ds_key_generators (replay ops X)) meta"
      unfolding agree_def
    proof (intro allI impI)
      fix s k
      assume k: "meta_gen meta s = Some k"
      show "gen_value (ds_key_generators (replay ops X)) s = k"
      proof (cases "?pend s")
        case (Some w)
        then show ?thesis using k mgen [of s] by (auto simp: gen_value_def gens split: option.splits)
      next
        case None
        then have "meta_gen (mt_meta (ft_base t)) s = Some k" using k mgen [of s] by (auto split: option.splits)
        then have "meta_gen m0 s = Some k \<or> ds_key_generators X s = None \<and> k = f64_of_int 1"
          using m0(2) good(1) X(1) unfolding evolves_def good_def by (metis linorder_not_less option.inject)
        then show ?thesis using good(1) X(1) None by (auto simp: gen_value_def gens good_def agree_def)
      qed
    qed
    fix s
    assume "ds_key_generators (replay ops X) s \<noteq> None \<or> meta_gen meta s \<noteq> None"
    then show "s < db_next_store_id meta"
      using pend [of s] good(1) X(1) m0(2) mgen [of s] unfolding nxt gens good_def evolves_def
      by (fastforce split: option.splits)
  qed (use metas ok in simp_all)
  show "good (apply_pending_to_state t meta seq bump st)" if "X = st"
  proof -
    have "ds_key_generators (apply_pending_to_state t meta seq bump st) = ds_key_generators (replay ops X)"
      using gens gens' unfolding that by (simp add: fun_eq_iff)
    moreover have "ds_meta (apply_pending_to_state t meta seq bump st) = Some meta"
      by (simp add: apply_pending_to_state_def Let_def)
    ultimately show ?thesis using g metas by (simp add: good_def)
  qed
  show "same_db (replay ops X) (apply_pending_to_state t meta seq bump st)"
    unfolding same_db_def
  proof (intro conjI allI impI)
    fix m s
    assume m: "ds_meta (replay ops X) = Some m \<and> meta_gen m s \<noteq> None"
    show "gen_value (ds_key_generators (replay ops X)) s = gen_value (ds_key_generators (apply_pending_to_state t meta seq bump st)) s"
    proof (cases "?pend s")
      case None
      then have old: "meta_gen (mt_meta (ft_base t)) s \<noteq> None" using m metas mgen [of s] by (auto split: option.splits)
      show ?thesis
      proof (cases "meta_gen m0 s")
        case (Some k)
        then show ?thesis using same X(1) None by (auto simp: gen_value_def gens gens' same_db_def)
      next
        case new: None
        then have "db_next_store_id m0 \<le> s" using old m0(2) unfolding evolves_def by fastforce
        then have "ds_key_generators X s = None" "ds_key_generators st s = None"
          using good X(1) m0(1) unfolding good_def by (metis linorder_not_less option.inject)+
        then show ?thesis using None by (simp add: gen_value_def gens gens')
      qed
    qed (simp add: gens gens' gen_value_def)
  qed (use clean in \<open>auto simp: R apply_pending_to_state_def Let_def X\<close>)
qed

section \<open>Compaction\<close>

text \<open>The state fits the segment format, the generators are enumerated completely, and no sequence number
  is at the end of its range.\<close>

definition compactable :: "((store_id \<rightharpoonup> f64) \<Rightarrow> (store_id \<times> f64) list) \<Rightarrow> db_state \<Rightarrow> bool" where
  "compactable gens st \<longleftrightarrow> segment_ok (next_segment_seq st) st \<and> enumerates (gens (ds_key_generators st)) st \<and>
     ds_manifest_seq st < 2 ^ 64 - 1 \<and> ds_wal_seq st < 2 ^ 64 - 1 \<and> list_all (\<lambda>s. s < 2 ^ 64 - 1) (ds_segments st)"

lemma fold_max: "fold max xs (n :: nat) = Max (insert n (set xs))"
  using Max.set_eq_fold [of n xs] by simp

lemma next_segment_fresh:
  assumes "list_all (\<lambda>s. s < 2 ^ 64 - 1) (ds_segments st)"
  shows "next_segment_seq st \<notin> set (ds_segments st)"
proof
  define M where "M = Max (insert 0 (set (ds_segments st)))"
  have "M < 2 ^ 64 - 1" using assms by (simp add: M_def list_all_iff)
  assume "next_segment_seq st \<in> set (ds_segments st)"
  then have "saturating_inc M \<le> M" by (simp add: M_def next_segment_seq_def fold_max)
  with \<open>M < 2 ^ 64 - 1\<close> show False by (simp add: saturating_inc_def)
qed

lemma orderly_drop [orderly]: "orderly (drop_segments held segs)"
  by (induction segs) (auto intro!: orderly)

lemma exec_drop:
  assumes "P v" "\<And>w. P w \<Longrightarrow> C w" "\<And>w s. P w \<Longrightarrow> s \<in> set segs \<Longrightarrow> P (w(segment_path s := None))"
  shows "\<exists>v'. exec disk_view v (drop_segments held segs :: ('e, unit) io) (Inr ()) v' C \<and> P v'"
  using assms(1,3)
proof (induction segs arbitrary: v)
  case Nil
  then show ?case by (auto intro: exec_pure)
next
  case (Cons s segs)
  let ?w = "v(segment_path s := None)"
  have remove: "\<exists>r w. exec disk_view v (if s \<in> set held then io_ok () else fs_remove_file (segment_path s)) r w C \<and> P w"
  proof (cases "s \<in> set held")
    case False
    have "exec disk_view v (fs_remove_file (segment_path s))
        (if v (segment_path s) = None then Inl IoNotFound else Inr ()) ?w C"
      by (rule exec_remove) (use Cons.prems(1) assms(2) in simp_all)
    moreover have "P ?w" by (rule Cons.prems(2)) (use Cons.prems(1) in simp_all)
    ultimately show ?thesis using False by auto
  qed (use Cons.prems(1) in \<open>auto intro: exec_pure\<close>)
  then obtain r w where w: "exec disk_view v (if s \<in> set held then io_ok () else fs_remove_file (segment_path s)) r w C" "P w"
    by blast
  obtain v' where "exec disk_view w (drop_segments held segs :: ('e, unit) io) (Inr ()) v' C" "P v'"
    using Cons.IH [OF w(2)] Cons.prems(2) by auto
  then show ?case
    unfolding drop_segments.simps by (intro exI conjI exec_catch [OF w(1)]) (auto intro: orderly)
qed

text \<open>The new generation: the data in one segment, an empty log, and a manifest that names both.\<close>

lemma stored_segment:
  assumes st: "good st" "ds_meta st = Some m" and ok: "compactable gens st" and md: "manifest_ok md" "md_segments md = [next_segment_seq st]"
    and v: "v CURRENT = Some (current_line (md_manifest_seq md))" "v (manifest_name (md_manifest_seq md)) = Some (encode_manifest md)"
      "v (wal_path (md_wal_seq md)) = Some []" "v META_FILE = Some (encode_meta m)"
      "v (segment_path (next_segment_seq st)) =
         Some (sealed (segment_body (gens (ds_key_generators st)) (next_segment_seq st) m st))"
  shows "\<exists>S. stored v md [] [] m S (seeded S) \<and> same_db (seeded S) st"
proof -
  let ?n = "next_segment_seq st"
  define S where "S = (base_init md)\<lparr>ds_next_txn_seq := ds_next_txn_seq st, ds_meta := Some m, ds_records := ds_records st,
      ds_index_entries := ds_index_entries st, ds_key_generators := ds_key_generators st, ds_segments := [?n]\<rparr>"
  have base: "base v md m S"
    using decode_segment_body [OF st(2), of ?n "gens (ds_key_generators st)" "base_init md"] ok md(2) v(5)
    unfolding base_def by (simp add: compactable_def S_def)
  have meta: "meta_ok m" "ds_meta (seeded S) = Some m" using st by (auto simp: good_def S_def seeded_fields)
  have gens: "ds_key_generators (seeded S) s = (case ds_key_generators st s of Some w \<Rightarrow> Some w | None \<Rightarrow> meta_gen m s)" for s
    by (simp add: S_def seeded_def seed_generators_value)
  have "good (seeded S)"
    using st meta unfolding good_def agree_def gen_value_def gens by (fastforce split: option.splits)
  moreover have "same_db (seeded S) st"
    by (rule good_same_db) (use st \<open>good (seeded S)\<close> in \<open>simp_all add: S_def seeded_fields\<close>)
  moreover have "replay [] X = X" for X by (cases X) (simp add: replay_def option.map_id0)
  moreover have "recover_committed_frames [] = \<lparr>rw_frames = [], rw_valid_prefix_len = 0\<rparr>"
    using recover_packed [of "[]"] by (simp add: log_frames_def)
  ultimately show ?thesis
    using base v md(1) meta unfolding stored_def
    by (intro exI [of _ S]) (simp add: log_frames_def settled_def)
qed

lemma exec_ensure_truncate:
  assumes "\<not> is_temp p" "C v" "C (v(p \<mapsto> []))"
  shows "\<exists>w. exec disk_view v (ensure_file p) (Inr ()) w C \<and> exec disk_view w (truncate_file p 0) (Inr ()) (v(p \<mapsto> [])) C \<and> C w"
proof -
  define w where "w = (case v p of None \<Rightarrow> v(p \<mapsto> []) | Some _ \<Rightarrow> v)"
  have w: "C w" "w(p \<mapsto> []) = v(p \<mapsto> [])" and there: "\<exists>d. w p = Some d"
    using assms by (auto simp: w_def split: option.split)
  have "exec disk_view v (ensure_file p) (Inr ()) w C"
    unfolding ensure_file_def w_def by (rule exec_be, rule exec_ensure_file) (use assms in simp_all)
  moreover obtain d where d: "w p = Some d" using there by blast
  have "exec disk_view w (fs_set_len p 0) (Inr ()) (w(p \<mapsto> take 0 d)) C"
    by (rule exec_set_len) (use w assms(1) d in simp_all)
  then have "exec disk_view w (truncate_file p 0) (Inr ()) (v(p \<mapsto> [])) C"
    unfolding truncate_file_def using w(2) by (intro exec_be) simp
  ultimately show ?thesis using w(1) by blast
qed

lemma compact_now_eq:
  "compact_now gens held st = (\<lambda>fs. case publish_generation gens st fs of (r, fs) \<Rightarrow>
     (case r of Inl e \<Rightarrow> Pair (Inl e, st) | Inr guard \<Rightarrow> finish_compaction held st guard) fs)"
  by (auto simp: compact_now_def fun_eq_iff split: prod.split sum.split)

lemma orderly_compaction [orderly]:
  "orderly (publish_generation gens st)" "orderly (finish_compaction held st guard)" "orderly (compact_now gens held st)"
proof -
  show p: "orderly (publish_generation gens st)" unfolding publish_generation_def Let_def by (auto intro!: orderly)
  show f: "orderly (finish_compaction held st guard)" for guard
    unfolding finish_compaction_def [abs_def] Let_def by (auto intro!: orderly orderly_let split: option.split)
  show "orderly (compact_now gens held st)"
    unfolding compact_now_eq by (rule orderly_let [OF p]) (auto intro!: orderly f split: sum.split)
qed

lemma exec_compact:
  assumes tip: "tip st v" and ok: "compactable gens st" and C: "\<And>w. recoverable name st w \<Longrightarrow> C w"
  shows "\<exists>st' v'. exec disk_view v (compact_now gens held st) (Inr (), st') v' C \<and> tip st' v' \<and> same_db st' st"
proof -
  let ?n = "next_segment_seq st"
  define md where "md = new_generation st"
  define k where "k = md_manifest_seq md"
  define w where "w = md_wal_seq md"
  have md: "md_segments md = [?n]" "k = saturating_inc (ds_manifest_seq st)" "w = saturating_inc (ds_wal_seq st)"
    "md = \<lparr>md_manifest_seq = k, md_wal_seq = w, md_segments = [?n]\<rparr>"
    by (simp_all add: md_def k_def w_def new_generation_def)
  obtain ps M S R where st: "stored v (manifest_of st) ps [] M S R" "ds_meta st = Some M" "same_db R st" "good st"
    using tip by (auto simp: tip_def)
  define seg where "seg = sealed (segment_body (gens (ds_key_generators st)) ?n M st)"
  define st' where "st' = st\<lparr>ds_segments := [?n], ds_manifest_seq := k, ds_wal_seq := w,
      ds_wal_bytes_since_compact := 0, ds_wal_frames_since_compact := 0\<rparr>"
  have fresh: "?n \<notin> set (ds_segments st)" "k \<noteq> ds_manifest_seq st" "w \<noteq> ds_wal_seq st"
    using ok next_segment_fresh by (auto simp: compactable_def md saturating_inc_def)
  have frame: "stored (u(p := x)) (manifest_of st) ps [] M S R \<longleftrightarrow> stored u (manifest_of st) ps [] M S R"
    if "p \<in> {segment_path ?n, wal_path w, manifest_name k}" for p u x
    by (rule stored_frame) (use that fresh in \<open>auto simp: manifest_of_def\<close>)
  have old: "C u" if "stored u (manifest_of st) ps [] M S R" for u
    using C stored_recoverable [OF that st(3)] by blast
  define v1 where "v1 = v(segment_path ?n \<mapsto> seg)"
  define v2 where "v2 = v1(wal_path w \<mapsto> [])"
  define v3 where "v3 = v2(manifest_name k \<mapsto> encode_manifest md)"
  define v4 where "v4 = v3(CURRENT \<mapsto> current_line k)"
  have s: "stored v1 (manifest_of st) ps [] M S R" "stored v2 (manifest_of st) ps [] M S R"
    "stored v3 (manifest_of st) ps [] M S R"
    using st(1) by (simp_all add: v1_def v2_def v3_def frame)
  note olds = old [OF st(1)] old [OF s(1)] old [OF s(2)] old [OF s(3)]
  have mdok: "manifest_ok md"
    using ok by (simp add: manifest_ok_def md next_segment_seq_def compactable_def saturating_inc_def)
  obtain S' where S': "stored v4 md [] [] M S' (seeded S')" "same_db (seeded S') st"
    using stored_segment [OF st(4,2) ok mdok, of v4] st(1)
    by (auto simp: md(1) k_def [symmetric] w_def [symmetric] v4_def v3_def v2_def v1_def seg_def stored_def)
  have new: "C u" if "stored u md [] [] M S' (seeded S')" for u
    using C stored_recoverable [OF that S'(2)] by blast
  have keeps: "stored (u(segment_path i := None)) md [] [] M S' (seeded S')"
    if "stored u md [] [] M S' (seeded S')" "i \<in> set (ds_segments st)" for u i
    using that fresh(1) by (subst stored_frame) (auto simp: md(1) k_def [symmetric] w_def [symmetric])
  have st'_tip: "good st'" "same_db st' st" "manifest_of st' = md" "ds_meta st' = Some M"
    using st(2,4) by (simp_all add: st'_def good_def same_db_def manifest_of_def md(4))
  obtain v5 where drop: "exec disk_view v4 (drop_segments held (ds_segments st) :: (backend_error, unit) io) (Inr ()) v5 C"
      "stored v5 md [] [] M S' (seeded S')"
    using exec_drop [where P = "\<lambda>u. stored u md [] [] M S' (seeded S')" and C = C and held = held, OF S'(1) new keeps]
    by blast
  have v5: "v5 META_FILE = Some (encode_meta M)" using drop(2) by (simp add: stored_def)
  have meta: "exec disk_view v5 (write_meta_file M True) (Inr ()) v5 C"
    using exec_atomic_write [of META_FILE C v5 "encode_meta M" True] new [OF drop(2)] v5
    by (simp add: write_meta_file_def fun_upd_idem)
  define v6 where "v6 = v5(wal_path (ds_wal_seq st) := None)"
  have v6: "stored v6 md [] [] M S' (seeded S')"
    using drop(2) fresh(3) stored_frame [of "wal_path (ds_wal_seq st)" md] by (simp add: v6_def w_def wal_not_segment)
  have remove: "exec disk_view v5 (fs_remove_file (wal_path (ds_wal_seq st)))
      (if v5 (wal_path (ds_wal_seq st)) = None then Inl IoNotFound else Inr ()) v6 C"
    unfolding v6_def by (rule exec_remove) (use new [OF drop(2)] in simp_all)
  have segment: "exec disk_view v (write_segment_file (gens (ds_key_generators st)) ?n st True) (Inr ?n) v1 C"
    unfolding write_segment_file_def encode_segment_eq st(2) option.case seg_def [symmetric]
    by (rule exec_try [where v = v and C = C, OF exec_be [OF exec_dirs(1)]], rule olds(1), rule exec_try [where v = v and C = C, OF exec_pure(3)],
        rule exec_try [where v = v and C = C and ?v1.0 = v1])
      (auto simp: v1_def olds [unfolded v1_def] intro!: exec_atomic_write orderly exec_pure)
  obtain u where u: "exec disk_view v1 (ensure_file (wal_path w)) (Inr ()) u C" "exec disk_view u (truncate_file (wal_path w) 0) (Inr ()) v2 C"
    using exec_ensure_truncate [of "wal_path w" C v1] olds by (auto simp: v2_def)
  have manifest: "exec disk_view v2 (write_manifest md True) (Inr ()) v4 C"
    unfolding write_manifest_def Let_def
    by (rule exec_try [where v = v2 and C = C and ?v1.0 = v3])
      (use olds new [OF S'(1)] in \<open>auto simp: k_def [symmetric] v3_def v4_def current_line_def [symmetric] intro!: exec_atomic_write orderly\<close>)
  have publish: "exec disk_view v (publish_generation gens st) (Inr ?n) v4 C"
    unfolding publish_generation_def Let_def md(3) [symmetric] md_def [symmetric]
    by (intro exec_try [OF segment] exec_try [OF u(1)] exec_try [OF u(2)] exec_try [OF manifest] exec_pure)
      (auto intro!: orderly)
  have st': "st\<lparr>ds_segments := [?n], ds_manifest_seq := md_manifest_seq (new_generation st),
      ds_wal_seq := md_wal_seq (new_generation st), ds_wal_bytes_since_compact := 0, ds_wal_frames_since_compact := 0\<rparr> = st'"
    by (simp add: st'_def k_def w_def md_def)
  have finish: "exec disk_view v4 (finish_compaction held st ?n) (Inr (), st') v6 C"
    unfolding finish_compaction_def [abs_def] Let_def st' st'_tip(4) option.case
    by (intro exec_let [OF drop(1)] exec_let [OF meta] exec_let [OF remove] exec_pure orderly_let orderly)
  have "exec disk_view v (compact_now gens held st) (Inr (), st') v6 C"
    unfolding compact_now_eq by (rule exec_let [OF publish]) (auto simp: finish intro!: orderly split: sum.split)
  moreover have "tip st' v6"
    unfolding tip_def st'_tip(3) using v6 st'_tip same_db_trans [OF S'(2) same_db_sym [OF st'_tip(2)]] by blast
  ultimately show ?thesis using st'_tip(2) by blast
qed

section \<open>Appending to the log\<close>

lemma orderly_append [orderly]: "orderly (append_frames p n sync bss)" "orderly (append_payload t ops sd p n seq)"
proof -
  show a: "orderly (append_frames p n sync bss)" for sync bss
    by (induction bss) (auto intro!: orderly split: sum.split)
  show "orderly (append_payload t ops sd p n seq)"
    unfolding append_payload_def by (auto intro!: orderly a split: sum.split codec_error.split)
qed

lemma exec_append_sync:
  assumes "v p = Some old" "\<not> is_temp p" "\<And>n. C (v(p \<mapsto> old @ take n d))"
  shows "exec disk_view v (append_and_maybe_sync p d sync) (Inr ()) (v(p \<mapsto> old @ d)) C"
proof -
  have C: "C v" "C (v(p \<mapsto> old @ d))"
    using assms(3) [of 0] assms(3) [of "length d"] assms(1) by (simp_all add: fun_upd_idem)
  have "exec disk_view v (fs_append p d) (Inr ()) (v(p \<mapsto> old @ d)) C"
    by (rule exec_append) (use assms C in simp_all)
  moreover have "exec disk_view (v(p \<mapsto> old @ d)) (if sync then io_be (fs_sync_path p) else io_ok ()) (Inr ()) (v(p \<mapsto> old @ d)) C"
    using C assms(2) by (auto intro!: exec_be exec_sync_path exec_pure)
  ultimately show ?thesis
    unfolding append_and_maybe_sync_def by (intro exec_try [OF exec_be]) (auto intro!: orderly)
qed

lemma exec_append_frames:
  assumes "v p = Some old" "\<not> is_temp p" "\<And>k. C (v(p \<mapsto> old @ take k (concat bss)))"
  shows "exec disk_view v (append_frames p n sync bss) (Inr (length (concat bss))) (v(p \<mapsto> old @ concat bss)) C"
  using assms
proof (induction bss arbitrary: v old)
  case Nil
  then show ?case by (simp add: fun_upd_idem exec_pure)
next
  case (Cons bs bss)
  let ?v = "v(p \<mapsto> old @ bs)"
  have part: "C (v(p \<mapsto> old @ take k bs))" for k
    using Cons.prems(3) [of "min k (length bs)"] by (cases "k \<le> length bs") (simp_all del: fun_upd_apply)
  have first: "exec disk_view v (append_and_maybe_sync p bs (sync \<and> bss = [])) (Inr ()) ?v C"
    by (rule exec_append_sync) (use Cons.prems part in simp_all)
  have "C (?v(p \<mapsto> (old @ bs) @ take k (concat bss)))" for k
    using Cons.prems(3) [of "length bs + k"] by (simp del: fun_upd_apply)
  then have rest: "exec disk_view ?v (append_frames p n sync bss) (Inr (length (concat bss))) (?v(p \<mapsto> (old @ bs) @ concat bss)) C"
    by (intro Cons.IH) (use Cons.prems(2) in \<open>simp_all del: fun_upd_apply add: fun_upd_same\<close>)
  have "exec disk_view ?v (io_try (append_frames p n sync bss) (\<lambda>m. io_ok (length bs + m))) (Inr (length (concat (bs # bss))))
      (v(p \<mapsto> old @ concat (bs # bss))) C"
    using rest by (intro exec_try) (auto intro!: orderly exec_pure)
  then show ?case
    unfolding append_frames.simps
    by (intro exec_catch [OF first]) (auto intro!: orderly split: sum.split simp del: fun_upd_apply)
qed

text \<open>A log with an encoded transaction behind it, or with a part of one.\<close>

lemma stored_partial:
  assumes st: "stored v md ps [] M S R" "same_db R st" and seq: "packed (seq, gs)"
    and new: "list_all op_decodes (concat gs)" "settled (concat gs)" "good (replay (concat gs) R)" "same_db (replay (concat gs) R) N"
  shows "let w = v(wal_path (md_wal_seq md) \<mapsto> frames_bytes (log_frames ps) @ take k (frames_bytes (txn_frames seq gs))) in
    recoverable name st w \<or> recoverable name N w"
proof (cases "k < length (frames_bytes (txn_frames seq gs))")
  case True
  have "list_all packed ps" using st(1) by (simp add: stored_def)
  from stored_recoverable [OF stored_tail [OF st(1) recover_torn [OF this seq True]] st(2)] show ?thesis by simp
next
  case False
  then have "frames_bytes (log_frames ps) @ take k (frames_bytes (txn_frames seq gs)) =
      frames_bytes (log_frames (ps @ [(seq, gs)]))"
    by (simp add: log_frames_snoc)
  with stored_recoverable [OF stored_append [OF st(1) seq new(1-3)] new(4)] show ?thesis by simp
qed

section \<open>Committing\<close>

text \<open>A commit that is due for compaction may be compacted.\<close>

definition may_compact :: "((store_id \<rightharpoonup> f64) \<Rightarrow> (store_id \<times> f64) list) \<Rightarrow> db_state \<Rightarrow> bool" where
  "may_compact gens st \<longleftrightarrow> (\<forall>b f. compactable gens (st\<lparr>ds_wal_bytes_since_compact := b, ds_wal_frames_since_compact := f\<rparr>))"

lemma tip_counters:
  "tip (st\<lparr>ds_wal_bytes_since_compact := b, ds_wal_frames_since_compact := f\<rparr>) v = tip st v"
  by (simp add: tip_def good_def same_db_def manifest_of_def)

lemma maybe_compact_eq:
  "maybe_compact gens held cfg st = (if \<not> should_compact cfg st then Pair (Inr False, st)
     else (\<lambda>fs. case compact_now gens held st fs of (x, fs) \<Rightarrow> Pair (case fst x of Inl e \<Rightarrow> Inl e | Inr _ \<Rightarrow> Inr True, snd x) fs))"
  by (rule ext) (simp add: maybe_compact_def split: prod.split sum.split)

lemma orderly_maybe_compact [orderly]: "orderly (maybe_compact gens held cfg st)"
  unfolding maybe_compact_eq by (auto intro!: orderly_let orderly)

lemma exec_maybe_compact:
  assumes "tip st v" "compactable gens st" "\<And>w. recoverable name st w \<Longrightarrow> C w"
  shows "\<exists>b st' v'. exec disk_view v (maybe_compact gens held cfg st) (Inr b, st') v' C \<and> tip st' v' \<and> same_db st' st"
proof (cases "should_compact cfg st")
  case True
  obtain st' v' where c: "exec disk_view v (compact_now gens held st) (Inr (), st') v' C" "tip st' v'" "same_db st' st"
    using exec_compact [where C = C and name = name and held = held, OF assms] by blast
  have "exec disk_view v (maybe_compact gens held cfg st) (Inr True, st') v' C"
    unfolding maybe_compact_eq using True by (simp, intro exec_let [OF c(1)]) (auto intro!: exec_pure orderly)
  then show ?thesis using c(2,3) by blast
next
  case False
  then have "exec disk_view v (maybe_compact gens held cfg st) (Inr False, st) v C"
    by (simp add: maybe_compact_eq exec_pure)
  then show ?thesis using assms(1) same_db_refl by blast
qed

lemma replay_Nil: "replay [] X = X"
  by (cases X) (simp add: replay_def option.map_id0)

lemma encode_payload_fits:
  assumes "commit_fits t" "build_commit_payload t = (ops, meta, sd)" "ops \<noteq> []"
  obtains gs where "encode_txn_frames_limited seq ops (ft_max_frame_payload t) = Inr (map frame_bytes (txn_frames seq gs))"
    "packed (seq, gs)" "concat gs = ops"
  using assms(3)
proof (cases rule: encode_txn_frames_limited_cases [where seq = seq and max_payload = "ft_max_frame_payload t"])
  case (fits gs)
  obtain gs' where gs': "packed (seq, gs')" "concat gs' = ops"
      "concat (map frame_bytes (txn_frames seq gs)) = frames_bytes (txn_frames seq gs')"
    by (rule encoded_packed [OF assms(3) _ fits(1)]) (use assms(1,2) in \<open>auto simp: commit_fits_def\<close>)
  have "list_all frame_ok (txn_frames seq gs)"
    using fits assms(1,2) by (intro txn_frames_ok [of "ft_max_frame_payload t"]) (auto simp: commit_fits_def)
  moreover have "gs \<noteq> []" using fits(3) assms(3) by auto
  ultimately show thesis using that fits by (simp add: packed_def)
next
  case (too_large op)
  then show thesis using assms(1,2) by (auto simp: commit_fits_def list_all_iff payload_len_single)
qed

text \<open>The part of the commit up to the point where the state in memory changes.\<close>

lemma exec_write_commit:
  assumes tip: "tip st v" and ready: "txn_ready st t" and fits: "commit_fits t"
    and payload: "build_commit_payload t = (ops, meta, sd)"
    and C: "\<And>w. recoverable name st w \<Longrightarrow> C w" "\<And>w. recoverable name (committed_state t st) w \<Longrightarrow> C w"
    and old: "v (wal_path (ds_wal_seq st)) = Some old"
  shows "\<exists>n w v'. exec disk_view v (append_payload t ops sd (wal_path (ds_wal_seq st)) (length old) (ds_next_txn_seq st)) (Inr n) w C \<and>
    exec disk_view w (if sd then write_meta_file meta sync else io_ok ()) (Inr ()) v' C \<and> tip (committed_state t st) v'"
proof -
  let ?wal = "wal_path (ds_wal_seq st)" and ?N = "committed_state t st"
  obtain ps M S R where st: "stored v (manifest_of st) ps [] M S R" "ds_meta st = Some M" "same_db R st" "good st"
    using tip by (auto simp: tip_def)
  have ok: "meta_ok meta" using fits payload by (simp add: commit_fits_def)
  have goodR: "good R" using st(1) unfolding stored_def by blast
  note replay_R = replay_commit(1) [OF payload ok ready st(3) goodR st(4)]
    replay_commit(2) [OF payload ok ready st(3) goodR st(4), of "ds_next_txn_seq st" "ops \<noteq> []"]
  have N: "?N = apply_pending_to_state t meta (ds_next_txn_seq st) (ops \<noteq> []) st"
    by (simp add: committed_state_def payload)
  have md: "manifest_of ?N = manifest_of st" "md_wal_seq (manifest_of st) = ds_wal_seq st" "ds_meta ?N = Some meta"
    by (simp_all add: N apply_pending_to_state_def Let_def manifest_of_def)
  have goodN: "good ?N"
    using replay_commit(3) [OF payload ok ready same_db_refl st(4) st(4)] by (simp add: N)
  have clean: "\<not> sd \<Longrightarrow> meta = M"
    using payload_cases(1,2) [OF payload] ready st(2) by (auto simp: txn_ready_def)
  show ?thesis
  proof (cases "ops = []")
    case True
    then have "\<not> sd" using payload_cases(3) [OF payload] by auto
    moreover have "same_db R ?N" using replay_R(2) by (simp add: True N replay_Nil)
    ultimately have "tip ?N v" using st(1) clean goodN unfolding tip_def md by blast
    with True \<open>\<not> sd\<close> show ?thesis by (auto simp: append_payload_def intro!: exec_pure exI)
  next
    case False
    obtain gs where gs: "encode_txn_frames_limited (word_of_nat (ds_next_txn_seq st)) ops (ft_max_frame_payload t) =
        Inr (map frame_bytes (txn_frames (word_of_nat (ds_next_txn_seq st)) gs))"
        "packed (word_of_nat (ds_next_txn_seq st), gs)" "concat gs = ops"
      by (rule encode_payload_fits [OF fits payload False])
    let ?seq = "word_of_nat (ds_next_txn_seq st) :: u64"
    let ?new = "frames_bytes (txn_frames ?seq gs)"
    define w where "w = v(?wal \<mapsto> old @ ?new)"
    have log: "old = frames_bytes (log_frames ps)" using st(1) old by (simp add: stored_def md)
    have new: "list_all op_decodes (concat gs)" "settled (concat gs)" "good (replay (concat gs) R)"
        "same_db (replay (concat gs) R) ?N"
      using payload_log [OF payload ok] replay_R(1,2) by (simp_all add: gs(3) N)
    have "C (v(?wal \<mapsto> old @ take k ?new))" for k
      using stored_partial [OF st(1,3) gs(2) new, of k name] C by (auto simp: log md Let_def)
    then have append: "exec disk_view v (append_payload t ops sd ?wal (length old) (ds_next_txn_seq st)) (Inr (length ?new)) w C"
      using exec_append_frames [of v ?wal old C "map frame_bytes (txn_frames ?seq gs)"] old False
      by (simp add: append_payload_def gs(1) w_def frames_bytes_def)
    have stored_w: "stored w (manifest_of st) (ps @ [(?seq, gs)]) [] M S (replay (concat gs) R)"
      using stored_append [OF st(1) gs(2) new(1-3)] by (simp add: w_def log md log_frames_snoc)
    have Cw: "C w" using C(2) stored_recoverable [OF stored_w new(4)] by blast
    show ?thesis
    proof (cases sd)
      case True
      obtain S' R' where heal: "stored (w(META_FILE \<mapsto> encode_meta meta)) (manifest_of st) (ps @ [(?seq, gs)]) [] meta S' R'"
          "same_db R' (replay (concat gs) R)"
        using stored_heal [OF stored_w, of meta] new(4) md(3) by (auto simp: same_db_def)
      note same = same_db_trans [OF heal(2) new(4)]
      have "exec disk_view w (write_meta_file meta sync) (Inr ()) (w(META_FILE \<mapsto> encode_meta meta)) C"
        unfolding write_meta_file_def
        by (rule exec_atomic_write) (use Cw C(2) stored_recoverable [OF heal(1) same] in simp_all)
      moreover have "tip ?N (w(META_FILE \<mapsto> encode_meta meta))"
        using heal(1) same goodN md(3) unfolding tip_def md by blast
      ultimately show ?thesis using append True by auto
    next
      case clean': False
      have "tip ?N w" using stored_w new(4) goodN md(3) clean [OF clean'] unfolding tip_def md by blast
      then show ?thesis using append clean' exec_pure(1) by fastforce
    qed
  qed
qed

definition counted_state :: "nat \<Rightarrow> db_state \<Rightarrow> db_state" where
  "counted_state n st = st\<lparr>ds_wal_bytes_since_compact := ds_wal_bytes_since_compact st + n,
     ds_wal_frames_since_compact := ds_wal_frames_since_compact st + 1\<rparr>"

lemma ft_finish_commit_eq:
  assumes "build_commit_payload t = (ops, meta, sd)"
  shows "ft_finish_commit gens held cfg t ops meta n st =
    (if ops = [] then Pair (Inr (), committed_state t st)
     else (\<lambda>fs. case maybe_compact gens held cfg (counted_state n (committed_state t st)) fs of
             (x, fs) \<Rightarrow> Pair (Inr (), snd x) fs))"
  by (rule ext)
    (simp add: ft_finish_commit_def committed_state_def assms counted_state_def Let_def split: prod.split)

lemma orderly_ft_finish_commit:
  "build_commit_payload t = (ops, meta, sd) \<Longrightarrow> orderly (ft_finish_commit gens held cfg t ops meta n st)"
  by (simp add: ft_finish_commit_eq orderly) (intro impI orderly_let orderly)

lemma exec_ft_finish_commit:
  assumes "build_commit_payload t = (ops, meta, sd)" "tip (committed_state t st) v" "may_compact gens (committed_state t st)"
    "\<And>w. recoverable name (committed_state t st) w \<Longrightarrow> C w"
  shows "\<exists>st' v'. exec disk_view v (ft_finish_commit gens held cfg t ops meta n st) (Inr (), st') v' C \<and> tip st' v' \<and>
    same_db st' (committed_state t st)"
proof (cases "ops = []")
  case True
  then have "exec disk_view v (ft_finish_commit gens held cfg t ops meta n st) (Inr (), committed_state t st) v C"
    unfolding ft_finish_commit_eq [OF assms(1)] by (simp add: exec_pure)
  then show ?thesis using assms(2) same_db_refl by blast
next
  case False
  define N where "N = counted_state n (committed_state t st)"
  have N: "tip N v" "compactable gens N" "same_db N (committed_state t st)"
    using assms(2,3) unfolding N_def counted_state_def tip_counters may_compact_def by (simp_all add: same_db_def)
  have C: "C w" if "recoverable name N w" for w
    using assms(4) recoverable_same [OF that N(3)] by blast
  obtain b st' v' where c: "exec disk_view v (maybe_compact gens held cfg N) (Inr b, st') v' C" "tip st' v'" "same_db st' N"
    using exec_maybe_compact [where C = C and name = name and held = held and cfg = cfg, OF N(1,2) C] by blast
  have "exec disk_view v (\<lambda>fs. case maybe_compact gens held cfg N fs of (x, fs) \<Rightarrow> Pair (Inr (), snd x) fs) (Inr (), st') v' C"
    by (rule exec_let [OF c(1)]) (simp_all add: exec_pure orderly)
  then have "exec disk_view v (ft_finish_commit gens held cfg t ops meta n st) (Inr (), st') v' C"
    using False by (simp add: ft_finish_commit_eq [OF assms(1)] N_def)
  then show ?thesis using c(2) same_db_trans [OF c(3) N(3)] by blast
qed

definition after_append ::
    "((store_id \<rightharpoonup> f64) \<Rightarrow> (store_id \<times> f64) list) \<Rightarrow> nat list \<Rightarrow> compact_config \<Rightarrow> fs_txn \<Rightarrow> db_state \<Rightarrow> wal_op list \<Rightarrow>
     database_meta \<Rightarrow> bool \<Rightarrow> nat \<Rightarrow> backend_error + nat \<Rightarrow> vfs \<Rightarrow> ((backend_error + unit) \<times> db_state) \<times> vfs" where
  "after_append gens held cfg t st ops meta sd m r = (case r of
     Inl err \<Rightarrow> Pair (Inl err, st)
   | Inr n \<Rightarrow> (\<lambda>fs. case (if sd then write_meta_file meta (wants_sync t) else io_ok ()) fs of (q, fs) \<Rightarrow>
       (case q of
          Inl err \<Rightarrow> (\<lambda>fs. case truncate_file (wal_path (ds_wal_seq st)) m fs of (_, fs) \<Rightarrow> Pair (Inl err, st) fs)
        | Inr _ \<Rightarrow> ft_finish_commit gens held cfg t ops meta n st) fs))"

lemma orderly_after_append:
  "build_commit_payload t = (ops, meta, sd) \<Longrightarrow> orderly (after_append gens held cfg t st ops meta sd m r)"
  unfolding after_append_def
  by (cases r) (auto intro!: orderly orderly_let orderly_ft_finish_commit split: sum.split)

lemma ft_commit_eq:
  assumes "mt_mode (ft_base t) \<noteq> ReadOnly" "build_commit_payload t = (ops, meta, sd)"
  shows "ft_commit gens held cfg t st = (\<lambda>fs. case fs_metadata_len (wal_path (ds_wal_seq st)) fs of (q, fs) \<Rightarrow>
    (case append_payload t ops sd (wal_path (ds_wal_seq st)) (case q of Inl _ \<Rightarrow> 0 | Inr n \<Rightarrow> n) (ds_next_txn_seq st) fs of
       (r, fs) \<Rightarrow> after_append gens held cfg t st ops meta sd (case q of Inl _ \<Rightarrow> 0 | Inr n \<Rightarrow> n) r fs))"
  by (rule ext)
    (simp add: ft_commit_def assms Let_def after_append_def split_beta split: sum.split)

lemma exec_commit:
  assumes tip: "tip st v" and ready: "txn_ready st t" and fits: "commit_fits t" and mode: "mt_mode (ft_base t) \<noteq> ReadOnly"
    and compact: "may_compact gens (committed_state t st)"
  shows "\<exists>st' v'. exec disk_view v (ft_commit gens held cfg t st) (Inr (), st') v'
      (\<lambda>w. recoverable name st w \<or> recoverable name (committed_state t st) w) \<and>
    tip st' v' \<and> same_db st' (committed_state t st)"
proof -
  let ?C = "\<lambda>w. recoverable name st w \<or> recoverable name (committed_state t st) w"
  let ?wal = "wal_path (ds_wal_seq st)"
  obtain ops meta sd where payload: "build_commit_payload t = (ops, meta, sd)" by (cases "build_commit_payload t")
  obtain old where old: "v ?wal = Some old" using tip by (auto simp: tip_def stored_def manifest_of_def)
  have Cv: "?C v" using tip_recoverable [OF tip] by blast
  obtain n w v1 where wr: "exec disk_view v (append_payload t ops sd ?wal (length old) (ds_next_txn_seq st)) (Inr n) w ?C"
      "exec disk_view w (if sd then write_meta_file meta (wants_sync t) else io_ok ()) (Inr ()) v1 ?C"
      "tip (committed_state t st) v1"
    using exec_write_commit [where C = ?C and name = name and sync = "wants_sync t", OF tip ready fits payload _ _ old] by blast
  obtain st' v' where fin: "exec disk_view v1 (ft_finish_commit gens held cfg t ops meta n st) (Inr (), st') v' ?C" "tip st' v'"
      "same_db st' (committed_state t st)"
    using exec_ft_finish_commit [where C = ?C and name = name and held = held and cfg = cfg and n = n, OF payload wr(3) compact]
    by blast
  have len: "exec disk_view v (fs_metadata_len ?wal) (Inr (length old)) v ?C"
    by (rule exec_metadata_len) (use old Cv in simp_all)
  let ?K = "after_append gens held cfg t st ops meta sd"
  have K: "orderly (?K m r)" for m r by (rule orderly_after_append [OF payload])
  have "exec disk_view w (?K m (Inr n)) (Inr (), st') v' ?C" for m
    unfolding after_append_def sum.case
    by (rule exec_let [OF wr(2)]) (auto simp: fin orderly_ft_finish_commit [OF payload] intro!: orderly orderly_let split: sum.split)
  then have "exec disk_view v (\<lambda>fs. case append_payload t ops sd ?wal (length old) (ds_next_txn_seq st) fs of (r, fs) \<Rightarrow>
      ?K (length old) r fs) (Inr (), st') v' ?C"
    by (intro exec_let [OF wr(1)] K)
  then have "exec disk_view v (ft_commit gens held cfg t st) (Inr (), st') v' ?C"
    unfolding ft_commit_eq [OF mode payload] by (intro exec_let [OF len]) (auto intro!: orderly orderly_let K)
  then show ?thesis using fin(2,3) by blast
qed

end
