(* ===== verification/Fs_Durability.thy ===== *)
theory Fs_Durability
  imports Fs_Commit Fs_Quota
begin

text \<open>
  Atomicity and durability of the filesystem backend for transactions as they are used: whatever a
  transaction has done since it began, its commit is all or nothing whenever the process is killed.
\<close>

section \<open>What a transaction may do to the metadata\<close>

text \<open>The parts of a transaction that only schema operations change.\<close>

definition schema_part :: "memory_txn \<Rightarrow> txn_mode \<times> database_meta" where
  "schema_part t = (mt_mode t, mt_meta t)"

lemma schema_part_fold: "(\<And>x t. schema_part (f x t) = schema_part t) \<Longrightarrow> schema_part (fold f xs t) = schema_part t"
  by (induction xs arbitrary: t) simp_all

lemma schema_part_set [simp]:
  "schema_part (push_undo op t) = schema_part t" "schema_part (set_pending k v t) = schema_part t"
  "schema_part (set_pending_index ik b t) = schema_part t" "schema_part (t\<lparr>undo_stack := us\<rparr>) = schema_part t"
  "schema_part (t\<lparr>pending_records := rs\<rparr>) = schema_part t" "schema_part (t\<lparr>pending_key_generators := gs\<rparr>) = schema_part t"
  by (simp_all add: schema_part_def set_pending_def set_pending_index_def Let_def)

lemma schema_part_undo [simp]: "schema_part (undo_one op t) = schema_part t"
  by (cases op) (auto simp: schema_part_def split: pending_slot.splits option.splits)

lemma schema_part_requests [simp]:
  "schema_part (snd (mt_begin_request t)) = schema_part t" "schema_part (snd (mt_commit_request t)) = schema_part t"
  "schema_part (snd (mt_rollback_request t)) = schema_part t"
  by (simp_all add: mt_begin_request_def mt_commit_request_def mt_rollback_request_def Let_def schema_part_fold)

lemma schema_part_entries [simp]:
  "schema_part (snd (mt_key_gen_set s t i v)) = schema_part t"
  "schema_part (snd (mt_index_put s t i ik pk unique)) = schema_part t"
  "schema_part (snd (mt_index_delete t i ik pk)) = schema_part t"
  "schema_part (snd (mt_index_delete_by_primary s t i pk)) = schema_part t"
  by (simp_all add: mt_key_gen_set_def mt_index_put_def mt_index_delete_def mt_index_delete_by_primary_def Let_def
      schema_part_fold split: sum.split)

text \<open>The invariant of a transaction that began on the metadata \<open>m0\<close>.\<close>

definition schema_inv :: "txn_mode \<Rightarrow> database_meta \<Rightarrow> fs_txn \<Rightarrow> bool" where
  "schema_inv mode m0 t \<longleftrightarrow> mt_mode (ft_base t) = mode \<and> evolves m0 (mt_meta (ft_base t)) \<and>
     (\<not> ft_schema_dirty t \<longrightarrow> mt_meta (ft_base t) = m0)"

lemma schema_inv_keep:
  "schema_part (ft_base u) = schema_part (ft_base t) \<and> ft_schema_dirty u = ft_schema_dirty t \<Longrightarrow> schema_inv mode m0 t \<Longrightarrow>
   schema_inv mode m0 u"
  by (simp add: schema_inv_def schema_part_def)

lemma fold_part:
  assumes "\<And>x acc. schema_part (ft_base (h (f x acc))) = schema_part (ft_base (h acc)) \<and>
     ft_schema_dirty (h (f x acc)) = ft_schema_dirty (h acc)"
  shows "schema_part (ft_base (h (fold f xs acc))) = schema_part (ft_base (h acc)) \<and>
     ft_schema_dirty (h (fold f xs acc)) = ft_schema_dirty (h acc)"
  using assms by (induction xs arbitrary: acc) simp_all

lemma loops_part:
  "schema_part (ft_base (snd (ft_delete_committed st k acc))) = schema_part (ft_base (snd acc)) \<and>
   ft_schema_dirty (snd (ft_delete_committed st k acc)) = ft_schema_dirty (snd acc)"
  "schema_part (ft_base (snd (ft_delete_pending ks k acc))) = schema_part (ft_base (snd acc)) \<and>
   ft_schema_dirty (snd (ft_delete_pending ks k acc)) = ft_schema_dirty (snd acc)"
  "schema_part (ft_base (ft_clear_one st k t)) = schema_part (ft_base t) \<and>
   ft_schema_dirty (ft_clear_one st k t) = ft_schema_dirty t"
  by (auto simp: ft_delete_committed_def ft_delete_pending_def ft_clear_one_def Let_def split_beta split: option.splits)

lemma data_part:
  "schema_part (ft_base (snd (ft_begin_request t))) = schema_part (ft_base t) \<and> ft_schema_dirty (snd (ft_begin_request t)) = ft_schema_dirty t"
  "schema_part (ft_base (snd (ft_commit_request t))) = schema_part (ft_base t) \<and> ft_schema_dirty (snd (ft_commit_request t)) = ft_schema_dirty t"
  "schema_part (ft_base (snd (ft_rollback_request t))) = schema_part (ft_base t) \<and> ft_schema_dirty (snd (ft_rollback_request t)) = ft_schema_dirty t"
  "schema_part (ft_base (snd (ft_put st t i k v no))) = schema_part (ft_base t) \<and> ft_schema_dirty (snd (ft_put st t i k v no)) = ft_schema_dirty t"
  "schema_part (ft_base (snd (ft_delete_record st t i k))) = schema_part (ft_base t) \<and> ft_schema_dirty (snd (ft_delete_record st t i k)) = ft_schema_dirty t"
  "schema_part (ft_base (snd (ft_delete_range st t i rng))) = schema_part (ft_base t) \<and> ft_schema_dirty (snd (ft_delete_range st t i rng)) = ft_schema_dirty t"
  "schema_part (ft_base (snd (ft_clear st t i))) = schema_part (ft_base t) \<and> ft_schema_dirty (snd (ft_clear st t i)) = ft_schema_dirty t"
  "schema_part (ft_base (snd (ft_key_gen_set st t i g))) = schema_part (ft_base t) \<and> ft_schema_dirty (snd (ft_key_gen_set st t i g)) = ft_schema_dirty t"
  "schema_part (ft_base (snd (ft_index_put st t i ik pk unique))) = schema_part (ft_base t) \<and> ft_schema_dirty (snd (ft_index_put st t i ik pk unique)) = ft_schema_dirty t"
  "schema_part (ft_base (snd (ft_index_delete t i ik pk))) = schema_part (ft_base t) \<and> ft_schema_dirty (snd (ft_index_delete t i ik pk)) = ft_schema_dirty t"
  "schema_part (ft_base (snd (ft_index_delete_by_primary st t i pk))) = schema_part (ft_base t) \<and>
     ft_schema_dirty (snd (ft_index_delete_by_primary st t i pk)) = ft_schema_dirty t"
  using fold_part [where h = snd and f = "ft_delete_committed st", OF loops_part(1)]
    fold_part [where h = snd and f = "ft_delete_pending _", OF loops_part(2)]
    fold_part [where h = id and f = "ft_clear_one st"] loops_part(3)
  by (auto simp: ft_begin_request_def ft_commit_request_def ft_rollback_request_def ft_put_def ft_delete_record_def
      ft_delete_range_def ft_clear_def ft_key_gen_set_def ft_index_put_def ft_index_delete_def
      ft_index_delete_by_primary_def on_base_def Let_def split_beta split: sum.split)

lemma meta_gen_update:
  assumes "\<And>x. st_id (f x) = st_id x \<and> st_key_gen (f x) = st_key_gen x"
  shows "meta_gen (m\<lparr>db_stores := update_first (\<lambda>s. st_id s = i) f (db_stores m)\<rparr>) = meta_gen m"
proof
  fix s
  show "meta_gen (m\<lparr>db_stores := update_first (\<lambda>s. st_id s = i) f (db_stores m)\<rparr>) s = meta_gen m s"
    using assms find_update_other [of f s i "db_stores m"] find_update_first [of "\<lambda>x. st_id x = i" f "db_stores m"]
    by (cases "s = i") (auto simp: meta_gen_def option.map_comp comp_def)
qed

lemma evolves_same:
  "evolves m0 m \<Longrightarrow> meta_gen m' = meta_gen m \<Longrightarrow> db_next_store_id m' = db_next_store_id m \<Longrightarrow> evolves m0 m'"
  by (simp add: evolves_def)

lemma evolves_update:
  assumes "evolves m0 (mt_meta t)" "\<And>x. st_id (f x) = st_id x \<and> st_key_gen (f x) = st_key_gen x"
  shows "evolves m0 (mt_meta (update_store i f t))"
  by (rule evolves_same [OF assms(1)]) (simp_all add: update_store_def meta_gen_update [OF assms(2)])

lemma meta_gen_other [simp]:
  "meta_gen (m\<lparr>db_version := v\<rparr>) = meta_gen m" "meta_gen (m\<lparr>db_next_index_id := n\<rparr>) = meta_gen m"
  by (simp_all add: fun_eq_iff meta_gen_def)

definition bounded :: "database_meta \<Rightarrow> bool" where
  "bounded m \<longleftrightarrow> (\<forall>s. meta_gen m s \<noteq> None \<longrightarrow> s < db_next_store_id m)"

lemma evolves_create:
  assumes ev: "evolves m0 m" and m0: "bounded m0" and x: "st_id x = db_next_store_id m" "st_key_gen x = f64_of_int 1"
  shows "evolves m0 (m\<lparr>db_next_store_id := db_next_store_id m + 1, db_stores := db_stores m @ [x]\<rparr>)"
proof -
  have find: "find p (xs @ ys) = (case find p xs of None \<Rightarrow> find p ys | Some z \<Rightarrow> Some z)" for p :: "store_meta \<Rightarrow> bool" and xs ys
    by (induction xs) auto
  have gen: "meta_gen (m\<lparr>db_next_store_id := n, db_stores := db_stores m @ [x]\<rparr>) s =
      (case meta_gen m s of Some k \<Rightarrow> Some k | None \<Rightarrow> if s = db_next_store_id m then Some (f64_of_int 1) else None)" for n s
    using x by (auto simp: meta_gen_def find split: option.split)
  have fresh: "meta_gen m0 (db_next_store_id m) = None"
    using m0 ev unfolding bounded_def evolves_def by (metis leD)
  show ?thesis
    using ev fresh unfolding evolves_def gen by (fastforce split: option.splits if_splits)
qed

lemma schema_evolves:
  assumes "evolves m0 (mt_meta t)" "bounded m0"
  shows "evolves m0 (mt_meta (snd (mt_set_version t v)))" "evolves m0 (mt_meta (snd (mt_create_store t spec)))"
    "evolves m0 (mt_meta (snd (mt_delete_store t i)))" "evolves m0 (mt_meta (snd (mt_rename_store t i name)))"
    "evolves m0 (mt_meta (snd (mt_create_index t i ispec)))" "evolves m0 (mt_meta (snd (mt_delete_index t i j)))"
    "evolves m0 (mt_meta (snd (mt_rename_index t i j name)))"
proof -
  have next_index: "evolves m0 (mt_meta (t\<lparr>mt_meta := (mt_meta t)\<lparr>db_next_index_id := n\<rparr>\<rparr>))" for n
    by (rule evolves_same [OF assms(1)]) simp_all
  show "evolves m0 (mt_meta (snd (mt_set_version t v)))"
    using evolves_same [OF assms(1)] assms(1) by (simp add: mt_set_version_def)
  show "evolves m0 (mt_meta (snd (mt_create_store t spec)))"
    using evolves_create [OF assms] assms(1) by (simp add: mt_create_store_def Let_def)
  show "evolves m0 (mt_meta (snd (mt_delete_store t i)))" "evolves m0 (mt_meta (snd (mt_rename_store t i name)))"
    "evolves m0 (mt_meta (snd (mt_create_index t i ispec)))" "evolves m0 (mt_meta (snd (mt_delete_index t i j)))"
    "evolves m0 (mt_meta (snd (mt_rename_index t i j name)))"
    using assms(1) next_index
    by (auto simp: mt_delete_store_def mt_rename_store_def mt_create_index_def mt_delete_index_def mt_rename_index_def
        Let_def intro!: evolves_update)
qed

lemma schema_mode:
  "mt_mode (snd (mt_set_version t v)) = mt_mode t" "mt_mode (snd (mt_create_store t spec)) = mt_mode t"
  "mt_mode (snd (mt_delete_store t i)) = mt_mode t" "mt_mode (snd (mt_rename_store t i name)) = mt_mode t"
  "mt_mode (snd (mt_create_index t i ispec)) = mt_mode t" "mt_mode (snd (mt_delete_index t i j)) = mt_mode t"
  "mt_mode (snd (mt_rename_index t i j name)) = mt_mode t"
  by (simp_all add: mt_set_version_def mt_create_store_def mt_delete_store_def mt_rename_store_def mt_create_index_def
      mt_delete_index_def mt_rename_index_def update_store_def Let_def)

lemma schema_inv_dirty:
  "schema_inv mode m0 t \<Longrightarrow> evolves m0 (mt_meta (snd r)) \<Longrightarrow> mt_mode (snd r) = mt_mode (ft_base t) \<Longrightarrow>
   schema_inv mode m0 (snd (dirty r t))"
  by (auto simp: dirty_def schema_inv_def split: sum.splits)

lemma schema_inv_schema:
  assumes "schema_inv mode m0 t" "bounded m0"
  shows "schema_inv mode m0 (snd (ft_set_version t v))" "schema_inv mode m0 (snd (ft_create_store t spec))"
    "schema_inv mode m0 (snd (ft_delete_store t i))" "schema_inv mode m0 (snd (ft_rename_store t i name))"
    "schema_inv mode m0 (snd (ft_create_index t i ispec))" "schema_inv mode m0 (snd (ft_delete_index t i j))"
    "schema_inv mode m0 (snd (ft_rename_index t i j name))"
proof -
  have "evolves m0 (mt_meta (ft_base t))" using assms(1) by (simp add: schema_inv_def)
  note ev = schema_evolves [OF this assms(2)]
  show "schema_inv mode m0 (snd (ft_set_version t v))" "schema_inv mode m0 (snd (ft_create_store t spec))"
    "schema_inv mode m0 (snd (ft_delete_store t i))" "schema_inv mode m0 (snd (ft_rename_store t i name))"
    "schema_inv mode m0 (snd (ft_create_index t i ispec))" "schema_inv mode m0 (snd (ft_delete_index t i j))"
    "schema_inv mode m0 (snd (ft_rename_index t i j name))"
    unfolding ft_set_version_def ft_create_store_def ft_delete_store_def ft_rename_store_def ft_create_index_def
      ft_delete_index_def ft_rename_index_def
    by (rule schema_inv_dirty, rule assms(1), rule ev, rule schema_mode)+
qed

lemmas schema_inv_data = data_part [THEN schema_inv_keep]

lemma schema_inv_op: "ft_op st t u \<Longrightarrow> bounded m0 \<Longrightarrow> schema_inv mode m0 t \<Longrightarrow> schema_inv mode m0 u"
  by (induction rule: ft_op.induct)
    (metis snd_conv schema_inv_data schema_inv_schema)+

lemma schema_inv_run: "ft_run st t u \<Longrightarrow> bounded m0 \<Longrightarrow> schema_inv mode m0 t \<Longrightarrow> schema_inv mode m0 u"
  by (induction rule: ft_run.induct) (auto intro: schema_inv_op)

lemma run_ready:
  assumes "good st" "ft_run st (fs_begin st h mode scope dur max_keys max_payload) t"
    "\<forall>s. bt_get (pending_key_generators (ft_base t)) s \<noteq> None \<longrightarrow> s < db_next_store_id (mt_meta (ft_base t))"
  shows "txn_ready st t" "mt_mode (ft_base t) = mode"
proof -
  obtain m0 where m0: "ds_meta st = Some m0" "bounded m0" using assms(1) by (auto simp: good_def bounded_def)
  have "schema_inv mode m0 (fs_begin st h mode scope dur max_keys max_payload)"
    using m0 by (simp add: fs_begin_def ft_new_def mt_new_def schema_inv_def evolves_def bounded_def)
  then have "schema_inv mode m0 t" using schema_inv_run [OF assms(2) m0(2)] by simp
  then show "txn_ready st t" "mt_mode (ft_base t) = mode"
    using m0(1) assms(3) by (auto simp: txn_ready_def schema_inv_def)
qed

text \<open>C6. Commits are atomic and durable: from the files of an open database, the commit of a transaction that
  has been used in whatever way either returns, and then the files hold its effects for good, or the
  process is killed during it, and then opening the files again yields all of its effects or none;
  the compaction that may follow the commit is part of this. Nothing but a kill keeps a commit that
  fits its format from succeeding.\<close>

theorem commit_crash_safe:
  assumes "tip st (disk_view (vf_files fs))" "doomed fs"
    and "ft_run st (fs_begin st h mode scope dur max_keys max_payload) t" "mode \<noteq> ReadOnly"
    and "\<forall>s. bt_get (pending_key_generators (ft_base t)) s \<noteq> None \<longrightarrow> s < db_next_store_id (mt_meta (ft_base t))"
    and "commit_fits t" "may_compact gens (committed_state t st)"
  shows "case ft_commit gens held cfg t st fs of ((r, st'), fs') \<Rightarrow>
    r = Inr () \<and> same_db st' (committed_state t st) \<and> tip st' (disk_view (vf_files fs')) \<or>
    \<not> healthy fs \<and> dead fs' \<and>
      (recoverable name st (disk_view (vf_files fs')) \<or> recoverable name (committed_state t st) (disk_view (vf_files fs')))"
proof -
  have "good st" using assms(1) by (simp add: tip_def)
  note ready = run_ready [OF this assms(3,5)]
  obtain st' v' where "exec disk_view (disk_view (vf_files fs)) (ft_commit gens held cfg t st) (Inr (), st') v'
      (\<lambda>w. recoverable name st w \<or> recoverable name (committed_state t st) w)"
      "tip st' v'" "same_db st' (committed_state t st)"
    using exec_commit [OF assms(1) ready(1) assms(6) _ assms(7)] ready(2) assms(4) by metis
  then show ?thesis using exec_run [OF _ assms(2) refl] by fastforce
qed

section \<open>A commit that is killed\<close>

definition demo_files :: files where
  "demo_files = [CURRENT \<mapsto> current_line 1, manifest_name 1 \<mapsto> encode_manifest first_manifest, wal_path 1 \<mapsto> [],
     META_FILE \<mapsto> encode_meta (empty_meta [100])]"

definition demo_state :: db_state where
  "demo_state = new_state [100]"

definition demo_txn :: fs_txn where
  "demo_txn = snd (ft_put demo_state (fs_begin demo_state (empty_meta [100]) ReadWrite [2] DurStrict 10 MAX_FRAME_PAYLOAD) 2 [7] [8] False)"

lemma demo_tip: "tip demo_state (disk_view demo_files)"
proof -
  obtain S where "stored (disk_view demo_files) first_manifest [] [] (empty_meta [100]) S (seeded S)" "same_db (seeded S) (new_state [100])"
    using stored_new [of "disk_view demo_files" "[100]"] by (auto simp: demo_files_def view_apply)
  moreover have "good (new_state [100])"
    using empty_meta_ok [of "[100]"]
    by (simp add: good_def new_state_def db_state_default_def agree_def meta_gen_def empty_meta_def)
  ultimately show ?thesis
    unfolding tip_def demo_state_def
    by (auto simp: manifest_of_def new_state_def db_state_default_def first_manifest_def)
qed

lemma demo_txn_eq:
  "demo_txn = (fs_begin demo_state (empty_meta [100]) ReadWrite [2] DurStrict 10 MAX_FRAME_PAYLOAD)
     \<lparr>ft_base := set_pending (2, [7]) (Some [8]) (mt_new ReadWrite [2] (empty_meta [100])), ft_key_delta := 1\<rparr>"
proof -
  have empty: "bt_keys (bt_empty :: ('a::linorder, 'b) btree) = []" by (simp add: bt_keys_def bt_empty.rep_eq)
  show ?thesis
    by (simp add: demo_txn_def demo_state_def new_state_def fs_begin_def ft_put_def ft_new_def guard_write_def check_scope_def
        check_readwrite_def mt_new_def record_exists_def committed_def db_state_default_def key_count_def empty
        projected_key_count_for_insert_def apply_record_transition_def Let_def)
qed

lemma demo_pending:
  "pending_records (ft_base demo_txn) = bt_insert (2, [7]) (Some [8]) bt_empty"
  "pending_index_entries (ft_base demo_txn) = bt_empty" "pending_key_generators (ft_base demo_txn) = bt_empty"
  "mt_meta (ft_base demo_txn) = empty_meta [100]" "ft_schema_dirty demo_txn = False"
  "ft_max_frame_payload demo_txn = MAX_FRAME_PAYLOAD"
  by (simp_all add: demo_txn_eq fs_begin_def demo_state_def new_state_def ft_new_def set_pending_def mt_new_def push_undo_def)

lemma bt_entries_empty: "bt_entries (bt_empty :: ('a::linorder, 'b) btree) = []"
  by (rule bt_empty.rep_eq)

lemma bt_entries_single: "bt_entries (bt_insert k v (bt_empty :: ('a::linorder, 'b) btree)) = [(k, v)]"
  by (simp add: bt_insert.rep_eq bt_empty.rep_eq)

lemma demo_payload: "build_commit_payload demo_txn = ([WalPut 2 [7] [8]], empty_meta [100], False)"
  by (simp add: build_commit_payload_def demo_pending bt_entries_empty bt_entries_single)

lemma demo_fits: "commit_fits demo_txn"
proof -
  have "payload_len [WalPut 2 [7] [8]] = 7" by code_simp
  then show ?thesis
    using empty_meta_ok [of "[100]"] by (simp add: commit_fits_def demo_payload demo_pending MAX_FRAME_PAYLOAD_def)
qed

lemma demo_compact: "may_compact (\<lambda>_. []) (committed_state demo_txn demo_state)"
proof -
  have N: "committed_state demo_txn demo_state = demo_state\<lparr>ds_next_txn_seq := 2, ds_records := bt_insert (2, [7]) [8] bt_empty\<rparr>"
    by (simp add: committed_state_def demo_payload apply_pending_to_state_def demo_pending bt_entries_empty bt_entries_single
        demo_state_def new_state_def db_state_default_def saturating_inc_def)
  show ?thesis
    unfolding may_compact_def N compactable_def
    using empty_meta_ok [of "[100]"]
    by (simp add: demo_state_def new_state_def db_state_default_def segment_ok_def enumerates_def next_segment_seq_def
        saturating_inc_def bt_entries_single bt_keys_def bt_entries_empty encode_meta_eq empty_meta_def utf16_bytes_def)
qed

lemma commit_crash_safe_witness:
  "let fs = \<lparr>vf_files = demo_files, vf_plan = (\<lambda>i. if i < 5 then Works else Fails IoOther), vf_step = 0, vf_locked = True\<rparr>
   in case ft_commit (\<lambda>_. []) [] \<lparr>cc_wal_bytes = 1, cc_wal_frames = 1\<rparr> demo_txn demo_state fs of ((r, st'), fs') \<Rightarrow>
     same_db st' (committed_state demo_txn demo_state) \<or> recoverable [100] demo_state (disk_view (vf_files fs')) \<or>
     recoverable [100] (committed_state demo_txn demo_state) (disk_view (vf_files fs'))"
proof -
  let ?fs = "\<lparr>vf_files = demo_files, vf_plan = (\<lambda>i. if i < 5 then Works else Fails IoOther), vf_step = 0, vf_locked = True\<rparr>"
  have "ft_run demo_state (fs_begin demo_state (empty_meta [100]) ReadWrite [2] DurStrict 10 MAX_FRAME_PAYLOAD) demo_txn"
    unfolding demo_txn_def by (rule run_step [OF run_nil]) (rule ft_op.intros(11) [OF prod.collapse [symmetric]])
  moreover have "doomed ?fs" by (simp add: doomed_def)
  moreover have "tip demo_state (disk_view (vf_files ?fs))" using demo_tip by simp
  ultimately show ?thesis
    using commit_crash_safe [where fs = ?fs and gens = "\<lambda>_. []" and held = "[]" and t = demo_txn and name = "[100]"
        and cfg = "\<lparr>cc_wal_bytes = 1, cc_wal_frames = 1\<rparr>" and mode = ReadWrite] demo_fits demo_compact
    unfolding Let_def by (fastforce simp: demo_pending)
qed

section \<open>A truncation that fails\<close>

text \<open>When an append fails after its first frames and the log cannot be cut back either, the frames of the
  failed transaction stay in the log. The next transaction has the same sequence number, since only
  a commit increments it, and recovery takes both for one transaction.\<close>

lemma failed_append_is_replayed:
  assumes "list_all packed ps" "packed (seq, [failed, h])"
  shows "concat (map fr_ops (rw_frames (recover_committed_frames
    (frames_bytes (log_frames ps) @ frame_bytes \<lparr>fr_txn_seq = seq, fr_flags = FLAG_CONTINUES, fr_ops = failed\<rparr> @
     frame_bytes \<lparr>fr_txn_seq = seq, fr_flags = FLAG_COMMIT, fr_ops = h\<rparr>)))) = log_ops ps @ failed @ h"
proof -
  have "list_all packed (ps @ [(seq, [failed, h])])" using assms by simp
  from recover_packed [OF this] show ?thesis
    by (simp add: log_frames_snoc frames_bytes_def log_ops_def)
qed

end
