(* ===== verification/Driver_Lifecycle.thy ===== *)
theory Driver_Lifecycle
  imports Driver_Schema Scheduler Open_Queue
begin

text \<open>
  The life of a transaction in \<open>boa_idb/src/driver.rs\<close>: it is created and queued on the scheduler,
  its backend is begun once a poll released it, its requests are served one at a time, and it is
  committed when it is idle or aborted. The storage is a record of the operations of the traits
  \<open>Storage\<close> and \<open>Database\<close> on a storage of any type. Dispatching an event runs handlers that may
  call any other operation: the events are the result of a step, and the handlers are further steps.
\<close>

section \<open>Storage\<close>

record ('e, 'h, 't, 'c) storage_ops =
  so_open_database :: "'e \<Rightarrow> utf16 \<Rightarrow> (backend_error + 'h) \<times> 'e"
  so_delete_database :: "'e \<Rightarrow> utf16 \<Rightarrow> (backend_error + unit) \<times> 'e"
  so_metadata :: "'h \<Rightarrow> database_meta"
  so_begin :: "'h \<Rightarrow> txn_mode \<Rightarrow> store_id list \<Rightarrow> durability \<Rightarrow> 'e \<Rightarrow> (backend_error + 't) \<times> 'e"
  so_txn :: "'e \<Rightarrow> ('t, 'c) backend_txn"
  so_commit :: "'t \<Rightarrow> 'e \<Rightarrow> (backend_error + unit) \<times> 'e"
  so_abort :: "'t \<Rightarrow> 'e \<Rightarrow> (backend_error + unit) \<times> 'e"

definition open_db_handle :: "('e, 'h, 't, 'c) storage_ops \<Rightarrow> utf16 \<Rightarrow> 'e \<Rightarrow> (idb_error + 'h) \<times> 'e" where
  "open_db_handle S name e = on_err (\<lambda>_. IdbUnknown) (so_open_database S e name)"

definition delete_database :: "('e, 'h, 't, 'c) storage_ops \<Rightarrow> utf16 \<Rightarrow> 'e \<Rightarrow> (idb_error + unit) \<times> 'e" where
  "delete_database S name e = on_err (\<lambda>_. IdbUnknown) (so_delete_database S e name)"

definition engine_version :: "('e, 'h, 't, 'c) storage_ops \<Rightarrow> utf16 \<Rightarrow> 'e \<Rightarrow> (idb_error + u64) \<times> 'e" where
  "engine_version S name e =
     (case open_db_handle S name e of
        (Inl f, e) \<Rightarrow> (Inl f, e)
      | (Inr h, e) \<Rightarrow> (Inr (db_version (so_metadata S h)), e))"

section \<open>State\<close>

datatype open_kind = KindOpen | KindDelete

record pending_open =
  po_kind :: open_kind
  po_name :: utf16
  po_version :: u64
  po_conn_id :: connection_id
  po_request_id :: u64
  po_upgrade_active :: bool
  po_upgrade_txn_id :: "txn_id option"
  po_queued :: bool
  po_blocked_fired :: bool
  po_upgrade_versions :: "(u64 \<times> u64) option"

text \<open>The fields of \<open>DriverState\<close> that requests do not reach, around those they do. Connections are
  counted, so they are a list of pairs.\<close>

record ('t, 'b) runtime =
  rt_driver :: "('t, 'b) driver"
  rt_scheduler :: scheduler
  rt_opens :: "pending_open list"
  rt_deferred_open_errors :: "pending_open list"
  rt_open_queues :: "utf16 \<rightharpoonup> open_queue"
  rt_connections :: "(connection_id \<times> utf16 \<times> bool) list"

text \<open>The events a step dispatches, in order.\<close>

datatype dispatched =
  RequestSucceeded request_id
| RequestFailed request_id idb_error
| RequestPanicked request_id
| TxnCompleted txn_id
| TxnAborted txn_id
| OpenBlocked u64
| OpenUpgradeNeeded u64 u64 u64
| OpenSucceeded u64
| OpenFailed u64 idb_error
| DeleteSucceeded u64 u64

definition on_driver :: "(('t, 'b) driver \<Rightarrow> ('t, 'b) driver) \<Rightarrow> ('t, 'b) runtime \<Rightarrow> ('t, 'b) runtime" where
  "on_driver f r = r\<lparr>rt_driver := f (rt_driver r)\<rparr>"

definition handle_of :: "('t, 'b) runtime \<Rightarrow> txn_id \<Rightarrow> 't txn_handle option" where
  "handle_of r i = dr_txns (rt_driver r) i"

definition drained :: "('t, 'b) driver \<Rightarrow> txn_id \<Rightarrow> bool" where
  "drained d i = (case dr_txn_queues d i of None \<Rightarrow> True | Some q \<Rightarrow> q = [])"

section \<open>Activity\<close>

definition note_timer_task :: "('t, 'b) runtime \<Rightarrow> ('t, 'b) runtime" where
  "note_timer_task = on_driver (\<lambda>d. d\<lparr>dr_task_epoch := dr_task_epoch d + 1\<rparr>)"

definition refresh_txn_epoch :: "txn_id \<Rightarrow> ('t, 'b) driver \<Rightarrow> ('t, 'b) driver" where
  "refresh_txn_epoch i d = with_handle i (\<lambda>h. h\<lparr>th_active_epoch := dr_task_epoch d\<rparr>) d"

definition idle_candidate :: "('t, 'b) driver \<Rightarrow> txn_id \<Rightarrow> 't txn_handle \<Rightarrow> bool" where
  "idle_candidate d i h \<longleftrightarrow> \<not> th_finished h \<and> th_active h \<and> th_mode h \<noteq> VersionChange \<and> drained d i"

definition deactivate_idle_txns :: "('t, 'b) driver \<Rightarrow> ('t, 'b) driver" where
  "deactivate_idle_txns d =
     d\<lparr>dr_txns := (\<lambda>i. case dr_txns d i of
         None \<Rightarrow> None
       | Some h \<Rightarrow> Some (if idle_candidate d i h then h\<lparr>th_active := False\<rparr> else h))\<rparr>"

section \<open>Creating and starting\<close>

definition new_handle ::
    "txn_id \<Rightarrow> connection_id \<Rightarrow> utf16 \<Rightarrow> txn_mode \<Rightarrow> store_id list \<Rightarrow> durability \<Rightarrow> database_meta \<Rightarrow>
       't option \<Rightarrow> nat \<Rightarrow> 't txn_handle" where
  "new_handle i conn name mode scope dur meta backend epoch =
     \<lparr>th_txn_id = i, th_conn_id = conn, th_db_name = name, th_mode = mode, th_scope = scope,
      th_durability = dur, th_meta = meta, th_backend = backend, th_finished = False, th_active = True,
      th_active_epoch = epoch, th_explicit_commit = False, th_deleted_store_ids = [], th_keygens = [],
      th_bytes_read = 0, th_bytes_written = 0\<rparr>"

definition register_txn ::
    "txn_id \<Rightarrow> 't txn_handle \<Rightarrow> ('t, 'b) runtime \<Rightarrow> ('t, 'b) runtime" where
  "register_txn i h r =
     r\<lparr>rt_scheduler := Scheduler.enqueue (rt_scheduler r)
          \<lparr>tq_id = i, tq_mode = th_mode h, tq_scope = th_scope h\<rparr>,
       rt_driver := (rt_driver r)\<lparr>dr_txns := (dr_txns (rt_driver r))(i \<mapsto> h)\<rparr>\<rparr>"

text \<open>The metadata of a database that cannot be opened is that of an empty one.\<close>

definition missing_meta :: "utf16 \<Rightarrow> database_meta" where
  "missing_meta name = \<lparr>db_name = name, db_version = 0, db_stores = [], db_next_store_id = 1, db_next_index_id = 1\<rparr>"

definition create_txn ::
    "('e, 'h, 't, 'c) storage_ops \<Rightarrow> connection_id \<Rightarrow> utf16 \<Rightarrow> txn_mode \<Rightarrow> store_id list \<Rightarrow> durability \<Rightarrow>
       ('t, 'b) runtime \<times> 'e \<Rightarrow> (idb_error + txn_id) \<times> ('t, 'b) runtime \<times> 'e" where
  "create_txn S conn name mode scope dur = (\<lambda>(r, e).
     let (i, d) = alloc_txn (rt_driver r);
         r = r\<lparr>rt_driver := d\<rparr>;
         (opened, e) = open_db_handle S name e;
         meta = (case opened of Inl _ \<Rightarrow> missing_meta name | Inr h \<Rightarrow> so_metadata S h)
     in if list_ex (\<lambda>s. \<not> list_ex (\<lambda>m. st_id m = s \<and> \<not> st_deleted m) (db_stores meta)) scope
        then (Inl IdbNotFound, r, e)
        else (Inr i, register_txn i (new_handle i conn name mode scope dur meta None (dr_task_epoch d)) r, e))"

text \<open>The requests of a transaction that will not run: each is taken off and told of the error. A
  request on a transaction whose handle is still there refreshes its epoch as it fails.\<close>

definition fail_queued_requests ::
    "txn_id \<Rightarrow> idb_error \<Rightarrow> ('t, 'b) driver \<Rightarrow> dispatched list \<times> ('t, 'b) driver" where
  "fail_queued_requests i f d =
     (let ids = (case dr_txn_queues d i of None \<Rightarrow> [] | Some q \<Rightarrow> q);
          d = d\<lparr>dr_ops := (\<lambda>q. if q \<in> set ids then None else dr_ops d q),
                dr_txn_of_request := (\<lambda>q. if q \<in> set ids then None else dr_txn_of_request d q),
                dr_txn_queues := (dr_txn_queues d)(i := None)\<rparr>
      in (map (\<lambda>q. RequestFailed q f) ids, fold (\<lambda>_. refresh_txn_epoch i) ids d))"

text \<open>One transaction of a ready list. A transaction whose backend cannot be begun because a writer is
  busy goes back to the queue, any other failure ends it.\<close>

datatype start_result = Skipped | Began | Retried | Refused

definition begin_backend ::
    "('e, 'h, 't, 'c) storage_ops \<Rightarrow> 't txn_handle \<Rightarrow> 'e \<Rightarrow> (backend_error + 't) \<times> 'e" where
  "begin_backend S h e =
     (case so_open_database S e (th_db_name h) of
        (Inl _, e) \<Rightarrow> (Inl BeInternal, e)
      | (Inr db, e) \<Rightarrow> so_begin S db (th_mode h) (th_scope h) (th_durability h) e)"

definition start_txn ::
    "('e, 'h, 't, 'c) storage_ops \<Rightarrow> txn_id \<Rightarrow> ('t, 'b) runtime \<times> 'e \<Rightarrow>
       start_result \<times> dispatched list \<times> ('t, 'b) runtime \<times> 'e" where
  "start_txn S i = (\<lambda>(r, e).
     case handle_of r i of
       None \<Rightarrow> (Skipped, [], r, e)
     | Some h \<Rightarrow>
         if th_finished h \<or> th_backend h \<noteq> None then (Skipped, [], r, e)
         else
           (case begin_backend S h e of
              (Inr t, e) \<Rightarrow> (Began, [], on_driver (with_handle i (\<lambda>h. h\<lparr>th_backend := Some t\<rparr>)) r, e)
            | (Inl f, e) \<Rightarrow>
                if f = BeLocked
                then (Retried, [], r\<lparr>rt_scheduler := requeue_unstarted (rt_scheduler r) i\<rparr>, e)
                else
                  let (out, d) = fail_queued_requests i IdbUnknown
                                   (with_handle i (\<lambda>h. h\<lparr>th_finished := True\<rparr>) (rt_driver r))
                  in (Refused, out, r\<lparr>rt_scheduler := forget (rt_scheduler r) i, rt_driver := d\<rparr>, e)))"

fun start_all ::
    "('e, 'h, 't, 'c) storage_ops \<Rightarrow> txn_id list \<Rightarrow> ('t, 'b) runtime \<times> 'e \<Rightarrow>
       start_result list \<times> dispatched list \<times> ('t, 'b) runtime \<times> 'e" where
  "start_all S [] s = ([], [], s)"
| "start_all S (i # ids) s =
     (let (res, out, s) = start_txn S i s; (ress, outs, s) = start_all S ids s
      in (res # ress, out @ outs, s))"

definition poll_scheduler :: "('t, 'b) runtime \<Rightarrow> txn_id list \<times> ('t, 'b) runtime" where
  "poll_scheduler r = (let (ready, sched) = poll_ready (rt_scheduler r) in (ready, r\<lparr>rt_scheduler := sched\<rparr>))"

text \<open>The queue of the scheduler shortens with every round that begins a transaction.\<close>

abbreviation queue_length :: "('t, 'b) runtime \<Rightarrow> nat" where
  "queue_length r \<equiv> length (pending_queue (rt_scheduler r))"

lemma requeue_length: "length (pending_queue (requeue_unstarted s i)) \<le> Suc (length (pending_queue s))"
  by (cases rule: requeue_cases [of s i]) simp_all

lemma start_txn_queued:
  "start_txn S i (r, e) = (res, out, r', e') \<Longrightarrow> queue_length r' \<le> queue_length r + (if res = Retried then 1 else 0)"
  by (auto simp: start_txn_def on_driver_def forget_def requeue_length split: option.splits if_splits prod.splits sum.splits)

lemma start_all_queued:
  "start_all S ids (r, e) = (ress, out, r', e') \<Longrightarrow>
     queue_length r' + count_list ress Began \<le> queue_length r + length ids"
proof (induction ids arbitrary: r e ress out r' e')
  case (Cons i ids)
  obtain res out1 r1 e1 where one: "start_txn S i (r, e) = (res, out1, r1, e1)" by (metis prod.exhaust)
  obtain ress2 out2 r2 e2 where rest: "start_all S ids (r1, e1) = (ress2, out2, r2, e2)" by (metis prod.exhaust)
  show ?case
    using Cons.IH [OF rest] Cons.prems start_txn_queued [OF one] by (auto simp: one rest split: if_splits)
qed simp

lemma poll_scheduler_queued:
  assumes "poll_scheduler r = (ready, r')"
  shows "queue_length r = queue_length r' + length ready"
proof -
  obtain st kp where split: "poll_split (running_txns (rt_scheduler r)) (pending_queue (rt_scheduler r)) = (st, kp)"
    by (metis prod.exhaust)
  have "size (mset st + mset kp) = queue_length r" using poll_split_mset [OF split] by simp
  then show ?thesis using assms by (auto simp: poll_scheduler_def poll_ready_split [OF split])
qed

lemma start_round_less:
  assumes "poll_scheduler r = (ready, r1)" "start_all S ready (r1, e) = (ress, out, s)" "Began \<in> set ress"
  shows "queue_length (fst s) < queue_length r"
proof -
  obtain r2 e2 where s: "s = (r2, e2)" by (metis prod.exhaust)
  have "count_list ress Began \<noteq> 0" using assms(3) by (simp add: count_list_0_iff)
  then show ?thesis
    using start_all_queued [of S ready r1 e ress out r2 e2] poll_scheduler_queued [OF assms(1)] assms(2) s by simp
qed

function start_ready_txns ::
    "('e, 'h, 't, 'c) storage_ops \<Rightarrow> ('t, 'b) runtime \<times> 'e \<Rightarrow> bool \<times> dispatched list \<times> ('t, 'b) runtime \<times> 'e" where
  "start_ready_txns S (r, e) =
     (let (ready, r) = poll_scheduler r in
      if ready = [] then (False, [], r, e)
      else
        let (ress, out, s) = start_all S ready (r, e) in
        if Began \<in> set ress
        then let (_, outs, s) = start_ready_txns S s in (True, out @ outs, s)
        else (Refused \<in> set ress, out, s))"
  by pat_completeness auto
termination
  by (relation "measure (\<lambda>(S, s). queue_length (fst s))") (simp, simp, metis start_round_less)

declare start_ready_txns.simps [simp del]

section \<open>Committing\<close>

text \<open>An idle transaction, or one that was told to commit, whose requests are done.\<close>

definition finishable :: "('t, 'b) driver \<Rightarrow> txn_id \<Rightarrow> bool" where
  "finishable d i =
     (case dr_txns d i of
        None \<Rightarrow> False
      | Some h \<Rightarrow> \<not> th_finished h \<and> th_backend h \<noteq> None \<and> th_mode h \<noteq> VersionChange \<and>
                  (\<not> th_active h \<or> th_explicit_commit h) \<and> drained d i)"

text \<open>The least identifier of one: all of them come from the counter.\<close>

definition next_finishable :: "('t, 'b) driver \<Rightarrow> txn_id option" where
  "next_finishable d = find (finishable d) [0 ..< dr_next_txn_id d]"

definition remove_handle :: "txn_id \<Rightarrow> ('t, 'b) runtime \<Rightarrow> ('t, 'b) runtime" where
  "remove_handle i = on_driver (\<lambda>d. d\<lparr>dr_txns := (dr_txns d)(i := None)\<rparr>)"

definition forget_txn :: "txn_id \<Rightarrow> ('t, 'b) runtime \<Rightarrow> ('t, 'b) runtime" where
  "forget_txn i r =
     r\<lparr>rt_scheduler := forget (rt_scheduler r) i,
       rt_driver := (rt_driver r)\<lparr>
         dr_txn_queues := (dr_txn_queues (rt_driver r))(i := None),
         dr_txn_of_request := (\<lambda>q. if dr_txn_of_request (rt_driver r) q = Some i then None
                                   else dr_txn_of_request (rt_driver r) q)\<rparr>\<rparr>"

text \<open>\<open>let _ = backend.commit()\<close>: the result is not looked at.\<close>

definition commit_backend :: "('e, 'h, 't, 'c) storage_ops \<Rightarrow> 't txn_handle \<Rightarrow> 'e \<Rightarrow> 'e" where
  "commit_backend S h e =
     (case th_backend h of
        None \<Rightarrow> e
      | Some t \<Rightarrow>
          snd (so_commit S (fold (\<lambda>store t. snd (bk_delete_store (so_txn S e) t store)) (th_deleted_store_ids h) t) e))"

definition finish_txn ::
    "('e, 'h, 't, 'c) storage_ops \<Rightarrow> txn_id \<Rightarrow> 't txn_handle \<Rightarrow> ('t, 'b) runtime \<times> 'e \<Rightarrow>
       dispatched list \<times> ('t, 'b) runtime \<times> 'e" where
  "finish_txn S i h = (\<lambda>(r, e). ([TxnCompleted i], forget_txn i (remove_handle i r), commit_backend S h e))"

lemma forget_txn_simps [simp]:
  "dr_txns (rt_driver (forget_txn i r)) = dr_txns (rt_driver r)"
  "dr_next_txn_id (rt_driver (forget_txn i r)) = dr_next_txn_id (rt_driver r)"
  "rt_scheduler (forget_txn i r) = forget (rt_scheduler r) i"
  "dr_txn_queues (rt_driver (forget_txn i r)) = (dr_txn_queues (rt_driver r))(i := None)"
  "dr_ops (rt_driver (forget_txn i r)) = dr_ops (rt_driver r)"
  by (simp_all add: forget_txn_def)

lemma remove_handle_simps [simp]:
  "dr_txns (rt_driver (remove_handle i r)) = (dr_txns (rt_driver r))(i := None)"
  "dr_next_txn_id (rt_driver (remove_handle i r)) = dr_next_txn_id (rt_driver r)"
  "rt_scheduler (remove_handle i r) = rt_scheduler r"
  "dr_txn_queues (rt_driver (remove_handle i r)) = dr_txn_queues (rt_driver r)"
  "dr_ops (rt_driver (remove_handle i r)) = dr_ops (rt_driver r)"
  by (simp_all add: remove_handle_def on_driver_def)

lemma next_finishable_handle:
  "next_finishable d = Some i \<Longrightarrow> i < dr_next_txn_id d \<and> finishable d i \<and> dr_txns d i \<noteq> None"
  by (auto simp: next_finishable_def find_Some_iff finishable_def split: option.splits)

definition live_ids :: "('t, 'b) driver \<Rightarrow> txn_id set" where
  "live_ids d = {i. i < dr_next_txn_id d \<and> dr_txns d i \<noteq> None}"

lemma finish_txn_less:
  assumes "next_finishable (rt_driver r) = Some i" "finish_txn S i h (r, e) = (out, s)"
  shows "card (live_ids (rt_driver (fst s))) < card (live_ids (rt_driver r))"
proof (rule psubset_card_mono)
  have "live_ids (rt_driver (fst s)) = live_ids (rt_driver r) - {i}"
    using assms(2) by (auto simp: finish_txn_def live_ids_def split: if_splits)
  moreover have "i \<in> live_ids (rt_driver r)"
    using next_finishable_handle [OF assms(1)] by (simp add: live_ids_def)
  ultimately show "live_ids (rt_driver (fst s)) \<subset> live_ids (rt_driver r)" by blast
qed (simp add: live_ids_def)

function finish_txns ::
    "('e, 'h, 't, 'c) storage_ops \<Rightarrow> ('t, 'b) runtime \<times> 'e \<Rightarrow> dispatched list \<times> ('t, 'b) runtime \<times> 'e" where
  "finish_txns S (r, e) =
     (case next_finishable (rt_driver r) of
        None \<Rightarrow> ([], r, e)
      | Some i \<Rightarrow>
          (case handle_of r i of
             None \<Rightarrow> ([], r, e)
           | Some h \<Rightarrow>
               let (out, s) = finish_txn S i h (r, e); (outs, s) = finish_txns S s in (out @ outs, s)))"
  by pat_completeness auto
termination
  by (relation "measure (\<lambda>(S, s). card (live_ids (rt_driver (fst s))))") (simp, simp, metis finish_txn_less)

declare finish_txns.simps [simp del]

section \<open>Aborting\<close>

definition edit_queue :: "utf16 \<Rightarrow> (open_queue \<Rightarrow> open_queue) \<Rightarrow> ('t, 'b) runtime \<Rightarrow> ('t, 'b) runtime" where
  "edit_queue name f r =
     (case rt_open_queues r name of
        None \<Rightarrow> r
      | Some q \<Rightarrow> r\<lparr>rt_open_queues := (rt_open_queues r)(name \<mapsto> f q)\<rparr>)"

text \<open>The open request that waits for an aborted upgrade is given up.\<close>

definition abort_upgrade_open :: "txn_id \<Rightarrow> bool \<Rightarrow> ('t, 'b) runtime \<Rightarrow> ('t, 'b) runtime" where
  "abort_upgrade_open i notify_request r =
     (case position (\<lambda>x. po_upgrade_txn_id x = Some i) (rt_opens r) of
        None \<Rightarrow> r
      | Some p \<Rightarrow>
          let op = rt_opens r ! p;
              r = edit_queue (po_name op) on_operation_failed (r\<lparr>rt_opens := remove_at p (rt_opens r)\<rparr>)
          in if notify_request then r\<lparr>rt_deferred_open_errors := rt_deferred_open_errors r @ [op]\<rparr> else r)"

definition abort_backend :: "('e, 'h, 't, 'c) storage_ops \<Rightarrow> 't txn_handle \<Rightarrow> 'e \<Rightarrow> 'e" where
  "abort_backend S h e = (case th_backend h of None \<Rightarrow> e | Some t \<Rightarrow> snd (so_abort S t e))"

definition abort_transaction ::
    "('e, 'h, 't, 'c) storage_ops \<Rightarrow> txn_id \<Rightarrow> bool \<Rightarrow> ('t, 'b) runtime \<times> 'e \<Rightarrow>
       dispatched list \<times> ('t, 'b) runtime \<times> 'e" where
  "abort_transaction S i notify_upgrade_open = (\<lambda>(r, e).
     case handle_of r i of
       None \<Rightarrow> ([], r, e)
     | Some h \<Rightarrow>
         let e = abort_backend S h e;
             r = forget_txn i (remove_handle i r);
             (out, d) = fail_queued_requests i IdbAbort (rt_driver r);
             r = r\<lparr>rt_driver := d\<rparr>
         in (out @ [TxnAborted i],
             if th_mode h = VersionChange then abort_upgrade_open i notify_upgrade_open r else r, e))"

section \<open>Serving requests\<close>

datatype 'b txn_work = WorkExec txn_id request_id "'b pending_op" | WorkFailStalled txn_id

text \<open>The dequeue of one turn, over the transactions in the order the hash map enumerates them: each is
  served once per turn.\<close>

fun take_request ::
    "txn_id list \<Rightarrow> txn_id list \<Rightarrow> ('t, 'b) driver \<Rightarrow> 'b txn_work option \<times> txn_id list \<times> ('t, 'b) driver" where
  "take_request [] served d = (None, served, d)"
| "take_request (i # ids) served d =
     (if i \<in> set served then take_request ids served d
      else
        let served = i # served in
        case dr_txns d i of
          None \<Rightarrow> (Some (WorkFailStalled i), served, d)
        | Some h \<Rightarrow>
            if th_finished h \<or> th_backend h = None then take_request ids served d
            else
              (case dr_txn_queues d i of
                 Some (q # qs) \<Rightarrow>
                   let d = d\<lparr>dr_txn_queues := (dr_txn_queues d)(i \<mapsto> qs)\<rparr> in
                   (case dr_ops d q of
                      Some op \<Rightarrow>
                        (Some (WorkExec i q op), served,
                         d\<lparr>dr_ops := (dr_ops d)(q := None), dr_txn_of_request := (dr_txn_of_request d)(q := None)\<rparr>)
                    | None \<Rightarrow> take_request ids served d)
               | _ \<Rightarrow> take_request ids served d))"

definition take_work ::
    "txn_id list \<Rightarrow> txn_id list \<Rightarrow> ('t, 'b) driver \<Rightarrow> 'b txn_work option \<times> txn_id list \<times> ('t, 'b) driver" where
  "take_work ids served d =
     (let (found, served, d) = take_request ids served d in
      case found of
        Some w \<Rightarrow> (Some w, served, d)
      | None \<Rightarrow>
          (map_option WorkFailStalled
             (find (\<lambda>i. case dr_txns d i of None \<Rightarrow> False | Some h \<Rightarrow> th_finished h) ids), served, d))"

definition set_cursor_pending :: "cursor_id \<Rightarrow> bool \<Rightarrow> ('t, 'b) driver \<Rightarrow> ('t, 'b) driver" where
  "set_cursor_pending cid pending d =
     (case dr_cursors d cid of
        None \<Rightarrow> d
      | Some c \<Rightarrow> d\<lparr>dr_cursors := (dr_cursors d)(cid \<mapsto> c\<lparr>cu_pending := pending\<rparr>)\<rparr>)"

text \<open>One unit of work. Whether the handler of a success threw and whether the handlers of an error
  prevented its default are their doing: they are arguments.\<close>

definition serve ::
    "('e, 'h, 't, 'c) storage_ops \<Rightarrow> limit_config \<Rightarrow> 'b bigint_ops \<Rightarrow> bool \<Rightarrow> bool \<Rightarrow> 'b txn_work \<Rightarrow>
       ('t, 'b) runtime \<times> 'e \<Rightarrow> (dispatched list \<times> ('t, 'b) runtime \<times> 'e) option" where
  "serve S lim Bg threw prevented w = (\<lambda>(r, e).
     case w of
       WorkFailStalled i \<Rightarrow>
         let (out, d) = fail_queued_requests i IdbTransactionInactive (rt_driver r)
         in Some (out, r\<lparr>rt_driver := d\<rparr>, e)
     | WorkExec i q op \<Rightarrow>
         map_option (\<lambda>(res, d).
             case res of
               Inr _ \<Rightarrow>
                 let d = (case op of OpCursorOp cid _ \<Rightarrow> set_cursor_pending cid False d | _ \<Rightarrow> d);
                     s = (r\<lparr>rt_driver := refresh_txn_epoch i d\<rparr>, e);
                     (outs, s) = (if threw then abort_transaction S i True s else ([], s))
                 in (RequestSucceeded q # outs, s)
             | Inl Panics \<Rightarrow> ([RequestPanicked q], r\<lparr>rt_driver := d\<rparr>, e)
             | Inl (Fails f) \<Rightarrow>
                 let s = (r\<lparr>rt_driver := refresh_txn_epoch i d\<rparr>, e);
                     (outs, s) = (if prevented then ([], s) else abort_transaction S i False s)
                 in (RequestFailed q f # outs, s))
           (execute_op (so_txn S e) lim Bg i q op (rt_driver r)))"

end
