(* ===== verification/Driver_Opens.thy ===== *)
theory Driver_Opens
  imports Driver_Lifecycle
begin

text \<open>
  Opening and deleting databases in \<open>boa_idb/src/driver.rs\<close>: each turn takes the next step the open
  queue of some database allows and performs it. The queues count the connections that are not
  closed; an upgrade runs in a transaction of its own, whose backend is begun at once.
\<close>

section \<open>Connections\<close>

definition connection_closed :: "connection_id \<Rightarrow> ('t, 'b) runtime \<Rightarrow> ('t, 'b) runtime" where
  "connection_closed conn r =
     r\<lparr>rt_connections := map (\<lambda>(c, name, closed). (c, name, closed \<or> c = conn)) (rt_connections r)\<rparr>"

definition insert_connection :: "connection_id \<Rightarrow> utf16 \<Rightarrow> ('t, 'b) runtime \<Rightarrow> ('t, 'b) runtime" where
  "insert_connection conn name r =
     r\<lparr>rt_connections := filter (\<lambda>(c, _). c \<noteq> conn) (rt_connections r) @ [(conn, name, False)]\<rparr>"

definition live_connection_count :: "('t, 'b) runtime \<Rightarrow> utf16 \<Rightarrow> u32" where
  "live_connection_count r name =
     of_nat (length (filter (\<lambda>(_, n, closed). n = name \<and> \<not> closed) (rt_connections r)))"

section \<open>The next step\<close>

datatype open_step =
  StepBlocked pending_open
| StepConnection pending_open u64
| StepFail pending_open idb_error
| StepUpgrade pending_open u64 u64
| StepDelete pending_open
| StepFinish pending_open txn_id

definition new_open :: "open_kind \<Rightarrow> utf16 \<Rightarrow> u64 \<Rightarrow> connection_id \<Rightarrow> u64 \<Rightarrow> pending_open" where
  "new_open kind name v conn q =
     \<lparr>po_kind = kind, po_name = name, po_version = v, po_conn_id = conn, po_request_id = q,
      po_upgrade_active = False, po_upgrade_txn_id = None, po_queued = False, po_blocked_fired = False,
      po_upgrade_versions = None\<rparr>"

definition enqueue_request :: "pending_open \<Rightarrow> ('t, 'b) runtime \<Rightarrow> ('t, 'b) runtime" where
  "enqueue_request p r = r\<lparr>rt_opens := rt_opens r @ [p]\<rparr>"

text \<open>The core queue of a database, made on demand for its committed version.\<close>

definition queue_of ::
    "('e, 'h, 't, 'c) storage_ops \<Rightarrow> utf16 \<Rightarrow> ('t, 'b) runtime \<times> 'e \<Rightarrow> open_queue \<times> 'e" where
  "queue_of S name = (\<lambda>(r, e).
     case rt_open_queues r name of
       Some q \<Rightarrow> (q, e)
     | None \<Rightarrow>
         let (v, e) = engine_version S name e
         in (oq_new name (case v of Inl _ \<Rightarrow> 0 | Inr v \<Rightarrow> v), e))"

definition register_open :: "pending_open \<Rightarrow> open_queue \<Rightarrow> open_queue" where
  "register_open p q =
     (if po_queued p then q
      else case po_kind p of
        KindOpen \<Rightarrow> enqueue_open q (po_request_id p) (po_version p)
      | KindDelete \<Rightarrow> enqueue_delete q (po_request_id p))"

text \<open>What the queue allows: a blocked request goes on once no connection is left, and an idle queue
  looks at its head. The first question only takes the answers that start something.\<close>

definition queue_step :: "u32 \<Rightarrow> open_queue \<Rightarrow> open_queue_action option \<times> open_queue" where
  "queue_step live q =
     (let (a, q) = (if oq_state q = WaitingForConnections \<and> live = 0 then on_all_connections_closed q else (None, q))
      in case a of
           Some (StartUpgrade i old v) \<Rightarrow> (a, q)
         | Some (StartDelete i) \<Rightarrow> (a, q)
         | _ \<Rightarrow> if oq_state q \<noteq> Idle then (None, q) else process_next q)"

text \<open>The step an action stands for, and the request with the mark that its \<open>blocked\<close> was fired.\<close>

fun step_of :: "open_queue_action \<Rightarrow> pending_open \<Rightarrow> open_step option \<times> pending_open" where
  "step_of (OpenConnection _ v) p = (Some (StepConnection p v), p)"
| "step_of (FailOpen _ f) p = (Some (StepFail p f), p)"
| "step_of (SendBlocked _) p =
     (if po_blocked_fired p then (None, p)
      else let p = p\<lparr>po_blocked_fired := True\<rparr> in (Some (StepBlocked p), p))"
| "step_of (StartUpgrade _ old v) p = (Some (StepUpgrade p old v), p)"
| "step_of (StartDelete _) p = (Some (StepDelete p), p)"

definition visit_open ::
    "('e, 'h, 't, 'c) storage_ops \<Rightarrow> nat \<Rightarrow> ('t, 'b) runtime \<times> 'e \<Rightarrow> open_step option \<times> ('t, 'b) runtime \<times> 'e" where
  "visit_open S idx = (\<lambda>(r, e).
     let p = rt_opens r ! idx;
         live = live_connection_count r (po_name p);
         (q, e) = queue_of S (po_name p) (r, e);
         q = register_open p (set_blocking_connections q live);
         p = p\<lparr>po_queued := True\<rparr>;
         (a, q) = queue_step live q;
         (s, p) = (case a of None \<Rightarrow> (None, p) | Some a \<Rightarrow> step_of a p)
     in (s, r\<lparr>rt_opens := (rt_opens r)[idx := p], rt_open_queues := (rt_open_queues r)(po_name p \<mapsto> q)\<rparr>, e))"

fun scan_opens ::
    "('e, 'h, 't, 'c) storage_ops \<Rightarrow> u64 list \<Rightarrow> ('t, 'b) runtime \<times> 'e \<Rightarrow> open_step option \<times> ('t, 'b) runtime \<times> 'e" where
  "scan_opens S [] s = (None, s)"
| "scan_opens S (i # ids) s =
     (case position (\<lambda>p. po_request_id p = i) (rt_opens (fst s)) of
        None \<Rightarrow> (None, s)
      | Some idx \<Rightarrow>
          (case visit_open S idx s of
             (Some st, s) \<Rightarrow> (Some st, s)
           | (None, s) \<Rightarrow> scan_opens S ids s))"

definition waiting_ids :: "('t, 'b) runtime \<Rightarrow> u64 list" where
  "waiting_ids r = map po_request_id (filter (\<lambda>p. \<not> po_upgrade_active p) (rt_opens r))"

text \<open>An upgrade whose requests are done is finished first.\<close>

definition next_open_step ::
    "('e, 'h, 't, 'c) storage_ops \<Rightarrow> ('t, 'b) runtime \<times> 'e \<Rightarrow> open_step option \<times> ('t, 'b) runtime \<times> 'e" where
  "next_open_step S = (\<lambda>(r, e).
     case find po_upgrade_active (rt_opens r) of
       None \<Rightarrow> scan_opens S (waiting_ids r) (r, e)
     | Some p \<Rightarrow>
         (case po_upgrade_txn_id p of
            None \<Rightarrow> (None, r, e)
          | Some i \<Rightarrow>
              if drained (rt_driver r) i then (Some (StepFinish p i), r, e)
              else scan_opens S (waiting_ids r) (r, e)))"

section \<open>Performing a step\<close>

definition drop_open :: "pending_open \<Rightarrow> ('t, 'b) runtime \<Rightarrow> ('t, 'b) runtime" where
  "drop_open p r = r\<lparr>rt_opens := filter (\<lambda>x. po_request_id x \<noteq> po_request_id p) (rt_opens r)\<rparr>"

text \<open>The transaction of an upgrade; its identifier is spent even when its backend cannot be begun.\<close>

definition start_upgrade_txn ::
    "('e, 'h, 't, 'c) storage_ops \<Rightarrow> pending_open \<Rightarrow> u64 \<Rightarrow> ('t, 'b) runtime \<times> 'e \<Rightarrow>
       (unit + txn_id) \<times> ('t, 'b) runtime \<times> 'e" where
  "start_upgrade_txn S p new_version = (\<lambda>(r, e).
     let (i, d) = alloc_txn (rt_driver r); r = r\<lparr>rt_driver := d\<rparr> in
     case open_db_handle S (po_name p) e of
       (Inl _, e) \<Rightarrow> (Inl (), r, e)
     | (Inr h, e) \<Rightarrow>
         (case so_begin S h VersionChange [] DurDefault e of
            (Inl _, e) \<Rightarrow> (Inl (), r, e)
          | (Inr t, e) \<Rightarrow>
              (case bk_set_version (so_txn S e) t new_version of
                 (Inl _, t) \<Rightarrow> (Inl (), r, e)
               | (Inr _, t) \<Rightarrow>
                   (Inr i, register_txn i
                      (new_handle i (po_conn_id p) (po_name p) VersionChange [] DurDefault
                         ((so_metadata S h)\<lparr>db_version := new_version\<rparr>) (Some t) (dr_task_epoch d)) r, e))))"

definition mark_upgrade ::
    "pending_open \<Rightarrow> txn_id \<Rightarrow> u64 \<Rightarrow> u64 \<Rightarrow> ('t, 'b) runtime \<Rightarrow> ('t, 'b) runtime" where
  "mark_upgrade p i old new r =
     r\<lparr>rt_opens := update_first (\<lambda>x. po_request_id x = po_request_id p)
         (\<lambda>x. x\<lparr>po_upgrade_active := True, po_upgrade_txn_id := Some i, po_upgrade_versions := Some (old, new)\<rparr>)
         (rt_opens r)\<rparr>"

text \<open>A throwing \<open>upgradeneeded\<close> handler.\<close>

definition abort_failed_upgrade ::
    "('e, 'h, 't, 'c) storage_ops \<Rightarrow> pending_open \<Rightarrow> txn_id \<Rightarrow> ('t, 'b) runtime \<times> 'e \<Rightarrow>
       dispatched list \<times> ('t, 'b) runtime \<times> 'e" where
  "abort_failed_upgrade S p i = (\<lambda>(r, e).
     let e = (case handle_of r i of None \<Rightarrow> e | Some h \<Rightarrow> abort_backend S h e);
         r = edit_queue (po_name p) on_operation_failed (drop_open p (forget_txn i (remove_handle i r)))
     in ([TxnAborted i, OpenFailed (po_request_id p) IdbAbort], r, e))"

definition finish_upgrade ::
    "('e, 'h, 't, 'c) storage_ops \<Rightarrow> bool \<Rightarrow> pending_open \<Rightarrow> txn_id \<Rightarrow> ('t, 'b) runtime \<times> 'e \<Rightarrow>
       dispatched list \<times> ('t, 'b) runtime \<times> 'e" where
  "finish_upgrade S closed p i = (\<lambda>(r, e).
     let e = (case handle_of r i of None \<Rightarrow> e | Some h \<Rightarrow> commit_backend S h e);
         r = edit_queue (po_name p)
               (\<lambda>q. case po_upgrade_versions p of
                      None \<Rightarrow> on_operation_failed q
                    | Some (_, v) \<Rightarrow> on_upgrade_complete q v)
               (drop_open p (forget_txn i (remove_handle i r)))
     in ([TxnCompleted i,
          if closed then OpenFailed (po_request_id p) IdbAbort else OpenSucceeded (po_request_id p)], r, e))"

text \<open>Whether the handler of \<open>upgradeneeded\<close> threw, and whether the script closed the connection of a
  finished upgrade, are arguments: \<open>threw\<close> and \<open>closed\<close>.\<close>

fun perform_open ::
    "('e, 'h, 't, 'c) storage_ops \<Rightarrow> bool \<Rightarrow> bool \<Rightarrow> open_step \<Rightarrow> ('t, 'b) runtime \<times> 'e \<Rightarrow>
       dispatched list \<times> ('t, 'b) runtime \<times> 'e" where
  "perform_open S threw closed (StepBlocked p) s = ([OpenBlocked (po_request_id p)], s)"
| "perform_open S threw closed (StepConnection p v) (r, e) =
     ([OpenSucceeded (po_request_id p)],
      drop_open p (insert_connection (po_conn_id p) (po_name p) r), e)"
| "perform_open S threw closed (StepFail p f) (r, e) = ([OpenFailed (po_request_id p) f], drop_open p r, e)"
| "perform_open S threw closed (StepUpgrade p old new) s =
     (case start_upgrade_txn S p new s of
        (Inl _, r, e) \<Rightarrow>
          ([OpenFailed (po_request_id p) IdbUnknown],
           drop_open p (edit_queue (po_name p) on_operation_failed r), e)
      | (Inr i, r, e) \<Rightarrow>
          let s = (mark_upgrade p i old new r, e);
              (outs, s) = (if threw then abort_failed_upgrade S p i s else ([], s))
          in (OpenUpgradeNeeded (po_request_id p) old new # outs, s))"
| "perform_open S threw closed (StepDelete p) (r, e) =
     (let (v, e) = engine_version S (po_name p) e;
          old = (case v of Inl _ \<Rightarrow> 0 | Inr v \<Rightarrow> v);
          (deleted, e) = delete_database S (po_name p) e;
          r = drop_open p (edit_queue (po_name p)
                (case deleted of Inl _ \<Rightarrow> on_operation_failed | Inr _ \<Rightarrow> on_delete_complete) r)
      in ([case deleted of Inl f \<Rightarrow> OpenFailed (po_request_id p) f | Inr _ \<Rightarrow> DeleteSucceeded (po_request_id p) old],
          r, e))"
| "perform_open S threw closed (StepFinish p i) s = finish_upgrade S closed p i s"

text \<open>Open requests whose upgrade was aborted by a call of \<open>abort\<close> are told on the next turn.\<close>

definition process_deferred_open_errors :: "('t, 'b) runtime \<Rightarrow> dispatched list \<times> ('t, 'b) runtime" where
  "process_deferred_open_errors r =
     (map (\<lambda>p. OpenFailed (po_request_id p) IdbAbort) (rt_deferred_open_errors r),
      r\<lparr>rt_deferred_open_errors := []\<rparr>)"

end
