(* ===== verification/Driver_Registry.thy ===== *)
theory Driver_Registry
  imports Driver_Opens
begin

text \<open>
  Transactions and the scheduler agree. Whatever the scripts do between the steps of the driver, a
  transaction that is not over is known to the scheduler, one with a backend has been released by it,
  and so no two of them conflict.
\<close>

section \<open>What a request leaves of the handles\<close>

text \<open>All of a handle that the scheduler has to do with.\<close>

definition standing :: "'t txn_handle \<Rightarrow> txn_mode \<times> store_id list \<times> bool \<times> bool" where
  "standing h = (th_mode h, th_scope h, th_finished h, th_backend h = None)"

definition same_standing :: "('t, 'b) driver \<Rightarrow> ('t, 'b) driver \<Rightarrow> bool" where
  "same_standing d d' \<longleftrightarrow> dr_next_txn_id d' = dr_next_txn_id d \<and>
     (\<forall>i. map_option standing (dr_txns d' i) = map_option standing (dr_txns d i))"

lemma same_standing_refl [simp, intro]: "same_standing d d"
  by (simp add: same_standing_def)

lemma same_standing_trans: "same_standing a b \<Longrightarrow> same_standing b c \<Longrightarrow> same_standing a c"
  by (simp add: same_standing_def)

lemma with_handle_next [simp]: "dr_next_txn_id (with_handle i f d) = dr_next_txn_id d"
  by (simp add: with_handle_def split: option.splits)

lemma same_standing_handle:
  assumes "\<And>h. dr_txns d i = Some h \<Longrightarrow> standing (f h) = standing h"
  shows "same_standing d (with_handle i f d)"
  using assms by (auto simp: same_standing_def with_handle_def split: option.splits)

lemma same_standing_through:
  assumes "\<And>h. standing (f h) = standing h"
  shows "same_standing d (with_handle i f d') = same_standing d d'"
proof -
  have "same_standing d' (with_handle i f d')" by (rule same_standing_handle) (rule assms)
  then show ?thesis by (simp add: same_standing_def)
qed

lemma same_standing_rest [simp]:
  "same_standing d (d'\<lparr>dr_cursors := c\<rparr>) = same_standing d d'"
  "same_standing d (d'\<lparr>dr_ops := p\<rparr>) = same_standing d d'"
  "same_standing d (d'\<lparr>dr_txn_queues := qs\<rparr>) = same_standing d d'"
  "same_standing d (d'\<lparr>dr_txn_of_request := t\<rparr>) = same_standing d d'"
  "same_standing d (d'\<lparr>dr_next_cursor_id := n\<rparr>) = same_standing d d'"
  "same_standing d (d'\<lparr>dr_task_epoch := n\<rparr>) = same_standing d d'"
  by (simp_all add: same_standing_def)

lemma same_standing_calls [simp]:
  "same_standing d (add_bytes_read i n d')  = same_standing d d'"
  "same_standing d (add_bytes_written i n d')  = same_standing d d'"
  "same_standing d (refresh_txn_epoch i d') = same_standing d d'"
  "same_standing d (set_cursor_pending cid b d') = same_standing d d'"
  by (simp_all add: add_bytes_read_def add_bytes_written_def refresh_txn_epoch_def set_cursor_pending_def
      same_standing_through standing_def split: option.splits)

lemma same_standing_backend:
  "backend_of d i = Inr t \<Longrightarrow> same_standing d (set_backend i t' d)"
  unfolding set_backend_def
  by (rule same_standing_handle) (auto simp: standing_def backend_of_def split: option.splits)

lemma put_through_standing: "same_standing d (snd (put_through B lim Bg i m v k no d))"
proof (cases "backend_of d i")
  case (Inr t)
  have "same_standing d (with_handle i (\<lambda>h. h\<lparr>th_backend := Some t', th_keygens := gs\<rparr>) d)" for t' gs
    by (rule same_standing_handle) (use Inr in \<open>auto simp: standing_def backend_of_def split: option.splits\<close>)
  then show ?thesis by (auto simp: put_through_def Inr Let_def split: prod.splits sum.splits)
qed (simp add: put_through_def)

lemma delete_through_standing:
  "delete_through B i m rng d = Some (r, d') \<Longrightarrow> same_standing d d'"
  by (auto simp: delete_through_def same_standing_backend split: sum.splits)

lemma exec_cursor_op_standing:
  "exec_cursor_op B lim Bg i meta cid action d = Some (r, d') \<Longrightarrow> same_standing d d'"
  using put_through_standing [of d B lim Bg i]
  by (auto simp: exec_cursor_op_def exec_update_def delete_through_standing Let_def
      split: cursor_action.splits sum.splits prod.splits option.splits) (metis snd_conv)+

lemma execute_op_inner_standing:
  assumes run: "execute_op_inner B lim Bg i q op d = Some (r, d')"
  shows "same_standing d d'"
proof -
  have put: "same_standing d d1" if "put_through B lim Bg i m v k no d = (r1, d1)" for m v k no r1 d1
    using put_through_standing [of d B lim Bg i m v k no] that by simp
  show ?thesis
    using run
    by (cases op)
       (auto simp: execute_op_inner_def Let_def exec_open_cursor_def alloc_cursor_def exec_cursor_op_standing
         delete_through_standing same_standing_backend
         split: option.splits if_splits sum.splits prod.splits intro: put,
        (rename_tac z, case_tac z; force)+)
qed

lemma same_standing_set:
  "dr_txns d i = Some h \<Longrightarrow> standing h' = standing h \<Longrightarrow>
     same_standing d (d\<lparr>dr_txns := (dr_txns d)(i \<mapsto> h')\<rparr>)"
  by (simp add: same_standing_def)

lemma open_savepoints_standing: "same_standing d (snd (open_savepoints B i d))"
proof (cases "backend_of d i")
  case (Inr t)
  have "same_standing d (with_handle i (\<lambda>h. h\<lparr>th_backend := Some t', th_keygens := gs h\<rparr>) d)" for t' gs
    by (rule same_standing_handle) (use Inr in \<open>auto simp: standing_def backend_of_def split: option.splits\<close>)
  then show ?thesis
    by (auto simp: open_savepoints_def Inr same_standing_backend [OF Inr] split: prod.splits sum.splits)
qed (simp add: open_savepoints_def)

lemma close_savepoints_standing: "same_standing d (snd (close_savepoints B i success d))"
  by (auto simp: close_savepoints_def standing_def Let_def
      split: option.splits prod.splits sum.splits intro!: same_standing_set)

lemma execute_op_standing:
  assumes "execute_op B lim Bg i q op d = Some (r, d')"
  shows "same_standing d d'"
proof -
  obtain r0 d0 where o: "open_savepoints B i d = (r0, d0)" by (metis prod.exhaust)
  have d0: "same_standing d d0" using open_savepoints_standing [of d B i] o by simp
  show ?thesis
  proof (cases r0)
    case (Inr u)
    then obtain r1 d1 where inner: "execute_op_inner B lim Bg i q op d0 = Some (r1, d1)"
      using assms o by (auto simp: execute_op_def)
    have "same_standing d d1" using same_standing_trans [OF d0 execute_op_inner_standing [OF inner]] .
    then have "same_standing d (snd (close_savepoints B i b d1))" for b
      using same_standing_trans close_savepoints_standing by blast
    then show ?thesis
      using assms o Inr inner \<open>same_standing d d1\<close>
      by (auto simp: execute_op_def split: if_splits prod.splits sum.splits) (metis snd_conv)+
  qed (use assms o d0 in \<open>simp add: execute_op_def\<close>)
qed

section \<open>The registry\<close>

definition item_of :: "txn_id \<Rightarrow> 't txn_handle \<Rightarrow> txn_queue_item" where
  "item_of i h = \<lparr>tq_id = i, tq_mode = th_mode h, tq_scope = th_scope h\<rparr>"

definition known :: "scheduler \<Rightarrow> txn_queue_item list" where
  "known s = pending_queue s @ running_txns s"

text \<open>The scheduler holds exactly the transactions that are not over, those with a backend among the
  running ones. The backend of an upgrade is begun before the scheduler releases it.\<close>

definition registered :: "scheduler \<Rightarrow> txn_id \<Rightarrow> 't txn_handle \<Rightarrow> bool" where
  "registered s i h \<longleftrightarrow>
     (\<not> th_finished h \<longrightarrow> item_of i h \<in> set (known s)) \<and>
     (th_backend h \<noteq> None \<longrightarrow> \<not> th_finished h \<and>
        (th_mode h \<noteq> VersionChange \<longrightarrow> item_of i h \<in> set (running_txns s)))"

definition registry :: "('t, 'b) runtime \<Rightarrow> bool" where
  "registry r \<longleftrightarrow>
     distinct (map tq_id (known (rt_scheduler r))) \<and> compatible (running_txns (rt_scheduler r)) \<and>
     (\<forall>i h. handle_of r i = Some h \<longrightarrow> i < dr_next_txn_id (rt_driver r) \<and> registered (rt_scheduler r) i h) \<and>
     (\<forall>t \<in> set (known (rt_scheduler r)). \<exists>h. handle_of r (tq_id t) = Some h \<and> t = item_of (tq_id t) h)"

lemma same_standing_sym: "same_standing d d' \<Longrightarrow> same_standing d' d"
  by (simp add: same_standing_def)

lemma same_standing_SomeD:
  assumes "same_standing d d'" "dr_txns d i = Some h"
  shows "\<exists>h'. dr_txns d' i = Some h' \<and> standing h' = standing h"
proof -
  have "map_option standing (dr_txns d' i) = Some (standing h)" using assms by (simp add: same_standing_def)
  then show ?thesis by (cases "dr_txns d' i") auto
qed

lemma standing_congs:
  assumes "standing h = standing h'"
  shows "registered s i h = registered s i h'" "item_of i h = item_of i h'"
  using assms by (auto simp: standing_def registered_def item_of_def)

lemma registry_standing:
  assumes r: "registry r" and d: "same_standing (rt_driver r) (rt_driver r')"
    and s: "rt_scheduler r' = rt_scheduler r"
  shows "registry r'"
proof -
  have next_id: "dr_next_txn_id (rt_driver r') = dr_next_txn_id (rt_driver r)"
    using d by (simp add: same_standing_def)
  show ?thesis
    unfolding registry_def s next_id
  proof (intro conjI allI impI ballI)
    fix i h'
    assume "handle_of r' i = Some h'"
    then obtain h where "handle_of r i = Some h" "standing h = standing h'"
      using same_standing_SomeD [OF same_standing_sym [OF d]] by (auto simp: handle_of_def)
    then show "i < dr_next_txn_id (rt_driver r)" "registered (rt_scheduler r) i h'"
      using r standing_congs(1) [of h h'] by (auto simp: registry_def)
  next
    fix t
    assume "t \<in> set (known (rt_scheduler r))"
    then obtain h where h: "handle_of r (tq_id t) = Some h" "t = item_of (tq_id t) h"
      using r by (auto simp: registry_def)
    then obtain h' where "handle_of r' (tq_id t) = Some h'" "standing h' = standing h"
      using same_standing_SomeD [OF d] by (auto simp: handle_of_def)
    then show "\<exists>h. handle_of r' (tq_id t) = Some h \<and> t = item_of (tq_id t) h"
      using h(2) standing_congs(2) [of h' h] by auto
  qed (use r in \<open>simp_all add: registry_def\<close>)
qed

lemma registry_item:
  "registry r \<Longrightarrow> t \<in> set (known (rt_scheduler r)) \<Longrightarrow> handle_of r (tq_id t) = Some h \<Longrightarrow> t = item_of (tq_id t) h"
  by (auto simp: registry_def)

lemma item_of_id [simp]: "tq_id (item_of i h) = i" "tq_mode (item_of i h) = th_mode h" "tq_scope (item_of i h) = th_scope h"
  by (simp_all add: item_of_def)

lemma registry_fresh:
  assumes "registry r" "t \<in> set (known (rt_scheduler r))"
  shows "tq_id t < dr_next_txn_id (rt_driver r)"
  using assms by (auto simp: registry_def)

text \<open>A new transaction.\<close>

lemma registry_register:
  assumes r: "registry r" and h: "\<not> th_finished h" "th_backend h = None \<or> th_mode h = VersionChange"
    and i: "i = dr_next_txn_id (rt_driver r)"
  shows "registry (register_txn i h (r\<lparr>rt_driver := (rt_driver r)\<lparr>dr_next_txn_id := i + 1\<rparr>\<rparr>))"
proof -
  let ?s = "rt_scheduler r"
  have fresh: "\<forall>t \<in> set (known ?s). tq_id t \<noteq> i" using registry_fresh [OF r] i by fastforce
  have "handle_of r i = None" using r i by (cases "handle_of r i") (auto simp: registry_def)
  then show ?thesis
    using r h fresh i
    by (auto simp: registry_def register_txn_def Scheduler.enqueue_def known_def registered_def handle_of_def
        item_of_def image_iff less_Suc_eq)
qed

text \<open>A transaction that is over.\<close>

lemma known_forget: "known (forget s i) = filter (\<lambda>t. tq_id t \<noteq> i) (known s)"
  by (simp add: known_def forget_def)

lemma running_forget: "running_txns (forget s i) = filter (\<lambda>t. tq_id t \<noteq> i) (running_txns s)"
  by (simp add: forget_def)

lemma registry_forget:
  assumes r: "registry r" and s: "rt_scheduler r' = forget (rt_scheduler r) i"
    and d: "dr_next_txn_id (rt_driver r') = dr_next_txn_id (rt_driver r)"
    and others: "\<And>j. j \<noteq> i \<Longrightarrow> handle_of r' j = handle_of r j"
    and own: "\<And>h. handle_of r' i = Some h \<Longrightarrow> th_finished h \<and> th_backend h = None \<and> handle_of r i \<noteq> None"
  shows "registry r'"
  unfolding registry_def s d known_forget
proof (intro conjI allI impI ballI)
  show "distinct (map tq_id (filter (\<lambda>t. tq_id t \<noteq> i) (known (rt_scheduler r))))"
    using r by (simp add: registry_def distinct_map_filter)
  show "compatible (running_txns (forget (rt_scheduler r) i))"
    using r by (simp add: registry_def running_forget compatible_filter)
next
  fix j h
  assume h: "handle_of r' j = Some h"
  show "j < dr_next_txn_id (rt_driver r)"
    using r h others [of j] own [of h] by (cases "j = i") (auto simp: registry_def)
  show "registered (forget (rt_scheduler r) i) j h"
  proof (cases "j = i")
    case True
    then show ?thesis using own h by (simp add: registered_def)
  next
    case False
    then have "registered (rt_scheduler r) j h" using r h others by (auto simp: registry_def)
    then show ?thesis using False by (auto simp: registered_def known_forget running_forget)
  qed
next
  fix t
  assume "t \<in> set (filter (\<lambda>t. tq_id t \<noteq> i) (known (rt_scheduler r)))"
  then show "\<exists>h. handle_of r' (tq_id t) = Some h \<and> t = item_of (tq_id t) h"
    using r others [of "tq_id t"] by (auto simp: registry_def)
qed

text \<open>A poll moves transactions from the queue to the running ones.\<close>

lemma registry_scheduler:
  assumes r: "registry r" and d: "rt_driver r' = rt_driver r"
    and known: "mset (known (rt_scheduler r')) = mset (known (rt_scheduler r))"
    and comp: "compatible (running_txns (rt_scheduler r'))"
    and running: "\<And>i h. handle_of r i = Some h \<Longrightarrow> th_backend h \<noteq> None \<Longrightarrow>
      item_of i h \<in> set (running_txns (rt_scheduler r)) \<Longrightarrow> item_of i h \<in> set (running_txns (rt_scheduler r'))"
  shows "registry r'"
proof -
  have "distinct (map tq_id (known (rt_scheduler r'))) = distinct (map tq_id (known (rt_scheduler r)))"
    using known by (metis distinct_count mset_map)
  then show ?thesis
    using r comp running d mset_eq_setD [OF known]
    unfolding registry_def registered_def handle_of_def by auto
qed

lemma known_poll: "mset (known (snd (poll_ready s))) = mset (known s)"
proof -
  obtain st kp where split: "poll_split (running_txns s) (pending_queue s) = (st, kp)"
    by (metis prod.exhaust)
  then show ?thesis
    using poll_split_mset [OF split] by (simp add: poll_ready_split [OF split] known_def ac_simps)
qed

lemma running_poll: "set (running_txns s) \<subseteq> set (running_txns (snd (poll_ready s)))"
proof -
  obtain st kp where split: "poll_split (running_txns s) (pending_queue s) = (st, kp)"
    by (metis prod.exhaust)
  then show ?thesis by (simp add: poll_ready_split [OF split])
qed

lemma registry_poll: "registry r \<Longrightarrow> registry (snd (poll_scheduler r))"
  by (rule registry_scheduler [of r])
     (auto simp: poll_scheduler_def case_prod_beta known_poll registry_def compatible_poll
       intro: running_poll [THEN subsetD])

text \<open>Starting a transaction a poll released.\<close>

lemma fail_queued_standing [simp]:
  "same_standing d0 (snd (fail_queued_requests i f d)) = same_standing d0 d"
proof -
  have "same_standing d0 (fold (\<lambda>_. refresh_txn_epoch i) qs d') = same_standing d0 d'" for qs :: "request_id list" and d'
    by (induction qs arbitrary: d') simp_all
  then show ?thesis by (simp add: fail_queued_requests_def Let_def)
qed

lemma registry_set:
  assumes r: "registry r" and h: "handle_of r i = Some h" "item_of i h' = item_of i h"
    and h': "registered (rt_scheduler r) i h'"
    and same: "handle_of r' = (handle_of r)(i \<mapsto> h')" "rt_scheduler r' = rt_scheduler r"
      "dr_next_txn_id (rt_driver r') = dr_next_txn_id (rt_driver r)"
  shows "registry r'"
  unfolding registry_def same
proof (intro conjI allI impI ballI)
  fix t
  assume t: "t \<in> set (known (rt_scheduler r))"
  show "\<exists>h. ((handle_of r)(i \<mapsto> h')) (tq_id t) = Some h \<and> t = item_of (tq_id t) h"
  proof (cases "tq_id t = i")
    case True
    then have "t = item_of i h" using registry_item [OF r t] h(1) by simp
    then show ?thesis using True h(2) by simp
  qed (use r t in \<open>auto simp: registry_def\<close>)
qed (use r h h' in \<open>auto simp: registry_def split: if_splits\<close>)

lemma registry_begin:
  assumes r: "registry r" and i: "i \<in> tq_id ` set (running_txns (rt_scheduler r))"
    and h: "handle_of r i = Some h" "\<not> th_finished h"
  shows "registry (on_driver (with_handle i (\<lambda>h. h\<lparr>th_backend := Some t\<rparr>)) r)"
proof -
  have handles: "handle_of (on_driver (with_handle i (\<lambda>h. h\<lparr>th_backend := Some t\<rparr>)) r) =
      (handle_of r)(i \<mapsto> h\<lparr>th_backend := Some t\<rparr>)"
    using h(1) by (auto simp: handle_of_def on_driver_def with_handle_def)
  have "item_of i h \<in> set (running_txns (rt_scheduler r))"
    using registry_item [OF r _ ] i h by (force simp: known_def)
  then show ?thesis
    using h(2)
    by (intro registry_set [OF r h(1) _ _ handles])
       (auto simp: registered_def item_of_def known_def on_driver_def)
qed

lemma requeue_running:
  "t \<in> set (running_txns s) \<Longrightarrow> tq_id t \<noteq> i \<Longrightarrow> t \<in> set (running_txns (requeue_unstarted s i))"
  by (cases rule: requeue_cases [of s i]) auto

lemma registry_requeue:
  assumes r: "registry r" and h: "handle_of r i = Some h" "th_backend h = None"
  shows "registry (r\<lparr>rt_scheduler := requeue_unstarted (rt_scheduler r) i\<rparr>)"
proof (rule registry_scheduler [OF r])
  show "compatible (running_txns (rt_scheduler (r\<lparr>rt_scheduler := requeue_unstarted (rt_scheduler r) i\<rparr>)))"
    using r compatible_apply [of "rt_scheduler r" "Requeue i"] by (simp add: registry_def)
  show "mset (known (rt_scheduler (r\<lparr>rt_scheduler := requeue_unstarted (rt_scheduler r) i\<rparr>))) =
      mset (known (rt_scheduler r))"
    by (cases rule: requeue_cases [of "rt_scheduler r" i]) (simp_all add: known_def)
next
  fix j h'
  assume "handle_of r j = Some h'" "th_backend h' \<noteq> None" "item_of j h' \<in> set (running_txns (rt_scheduler r))"
  then show "item_of j h' \<in> set (running_txns (rt_scheduler (r\<lparr>rt_scheduler := requeue_unstarted (rt_scheduler r) i\<rparr>)))"
    using h by (auto intro!: requeue_running)
qed simp

lemma registry_start:
  assumes r: "registry r" and i: "i \<in> tq_id ` set (running_txns (rt_scheduler r))"
  shows "registry (fst (snd (snd (start_txn S i (r, e)))))"
proof (cases "handle_of r i")
  case (Some h)
  show ?thesis
  proof (cases "th_finished h \<or> th_backend h \<noteq> None")
    case False
    obtain b e' where b: "begin_backend S h e = (b, e')" by (metis prod.exhaust)
    show ?thesis
    proof (cases b)
      case (Inr t)
      then show ?thesis using registry_begin [OF r i Some] False by (simp add: start_txn_def Some b)
    next
      case (Inl f)
      let ?d = "with_handle i (\<lambda>h. h\<lparr>th_finished := True\<rparr>) (rt_driver r)"
      let ?r = "r\<lparr>rt_scheduler := forget (rt_scheduler r) i, rt_driver := ?d\<rparr>"
      have "registry ?r"
        by (rule registry_forget [OF r, where i = i])
           (use Some False in \<open>auto simp: handle_of_def with_handle_def\<close>)
      then have "registry (r\<lparr>rt_scheduler := forget (rt_scheduler r) i,
          rt_driver := snd (fail_queued_requests i IdbUnknown ?d)\<rparr>)"
        by (rule registry_standing) simp_all
      then show ?thesis
        using registry_requeue [OF r Some] False Inl
        by (simp add: start_txn_def Some b case_prod_beta Let_def)
    qed
  qed (use r Some in \<open>simp add: start_txn_def\<close>)
qed (use r in \<open>simp add: start_txn_def\<close>)

text \<open>Finishing and aborting.\<close>

lemma registry_removed: "registry r \<Longrightarrow> registry (forget_txn i (remove_handle i r))"
  by (rule registry_forget [where r = r and i = i]) (auto simp: handle_of_def)

lemma registry_finish: "registry r \<Longrightarrow> registry (fst (snd (finish_txn S i h (r, e))))"
  by (simp add: finish_txn_def registry_removed)

lemma abort_upgrade_open_frame [simp]:
  "rt_driver (abort_upgrade_open i notify r) = rt_driver r"
  "rt_scheduler (abort_upgrade_open i notify r) = rt_scheduler r"
  by (auto simp: abort_upgrade_open_def edit_queue_def Let_def split: option.splits)

lemma registry_abort: 
  assumes r: "registry r"
  shows "registry (fst (snd (abort_transaction S i notify (r, e))))"
proof (cases "handle_of r i")
  case (Some h)
  let ?r = "forget_txn i (remove_handle i r)"
  have "registry (?r\<lparr>rt_driver := snd (fail_queued_requests i IdbAbort (rt_driver ?r))\<rparr>)"
    by (rule registry_standing [OF registry_removed [OF r]]) simp_all
  moreover from this have "registry (abort_upgrade_open i notify
      (?r\<lparr>rt_driver := snd (fail_queued_requests i IdbAbort (rt_driver ?r))\<rparr>))"
    by (rule registry_standing) simp_all
  ultimately show ?thesis by (simp add: abort_transaction_def Some case_prod_beta Let_def)
qed (use r in \<open>simp add: abort_transaction_def\<close>)

section \<open>Schema operations\<close>

lemma same_standing_sbind:
  assumes "same_standing d (snd r)" "\<And>x d1. fst r = Inr x \<Longrightarrow> same_standing d d1 \<Longrightarrow> same_standing d (snd (f x d1))"
  shows "same_standing d (snd (sbind r f))"
  using assms by (auto simp: sbind_state split: sum.splits)

lemma edit_meta_standing [simp]: "same_standing d (edit_meta i f d') = same_standing d d'"
  by (simp add: edit_meta_def same_standing_through standing_def)

lemma upgrade_backend: "upgrade_handle d i = Inr (h, t) \<Longrightarrow> backend_of d i = Inr t"
  by (auto simp: upgrade_handle_def backend_of_def split: option.splits if_splits)

lemma on_backend_standing: "same_standing d d1 \<Longrightarrow> same_standing d (snd (on_backend i f d1))"
  using same_standing_trans [OF _ same_standing_backend [OF upgrade_backend]]
  by (fastforce simp: on_backend_def split: sum.splits prod.splits)

lemma schema_stores_standing:
  "same_standing d (snd (schema_create_store B i name kp auto d))"
  "same_standing d (snd (schema_delete_store B i name d))"
  "same_standing d (snd (schema_rename_store B i name name' d))"
  by (auto simp: schema_create_store_def schema_delete_store_def schema_rename_store_def Let_def
      same_standing_through standing_def intro!: same_standing_sbind on_backend_standing split: prod.splits)

lemma schema_rename_index_standing: "same_standing d (snd (schema_rename_index B i store name name' d))"
  by (auto simp: schema_rename_index_def intro!: same_standing_sbind on_backend_standing)

text \<open>The end of an operation that walks the store.\<close>

lemma walked_standing:
  assumes "upgrade_handle d i = Inr (h, t)" "sbind (r, set_backend i t' d) (\<lambda>x d. (y, edit_meta i f d)) = (r', d')"
  shows "same_standing d d'"
  using assms same_standing_backend [OF upgrade_backend [OF assms(1)], of t'] by (cases r) auto

lemma schema_delete_index_standing:
  assumes "schema_delete_index B i store name d = Some (r, d')"
  shows "same_standing d d'"
  using assms
  by (auto simp: schema_delete_index_def split: sum.splits prod.splits elim: walked_standing)

lemma schema_create_index_standing:
  assumes "schema_create_index B lim Bg i store name kp unique multi d = Some (r, d')"
  shows "same_standing d d'"
proof -
  have made: "same_standing d d1" if "on_backend i f d = (r1, d1)" for f :: "'a \<Rightarrow> (op_fault + index_id) \<times> 'a" and r1 d1
    using on_backend_standing [OF same_standing_refl, of d i f] that by simp
  show ?thesis
    using assms
    by (auto simp: schema_create_index_def Let_def split: if_splits sum.splits prod.splits
        intro: made same_standing_trans [OF made walked_standing])
qed

section \<open>Steps\<close>

text \<open>What happens between two dispatches, in any order: the phases of a turn, and the calls of
  scripts.\<close>

inductive schema_step ::
    "('t, 'c) backend_txn \<Rightarrow> limit_config \<Rightarrow> 'b bigint_ops \<Rightarrow> ('t, 'b) driver \<Rightarrow> ('t, 'b) driver \<Rightarrow> bool"
  for B lim Bg d where
  "schema_step B lim Bg d (snd (schema_create_store B i name key_path auto d))"
| "schema_step B lim Bg d (snd (schema_delete_store B i name d))"
| "schema_step B lim Bg d (snd (schema_rename_store B i name name' d))"
| "schema_create_index B lim Bg i store name kp unique multi d = Some (x, d') \<Longrightarrow> schema_step B lim Bg d d'"
| "schema_delete_index B i store name d = Some (y, d') \<Longrightarrow> schema_step B lim Bg d d'"
| "schema_step B lim Bg d (snd (schema_rename_index B i store name name' d))"

inductive life_step ::
    "('e, 'h, 't, 'c) storage_ops \<Rightarrow> limit_config \<Rightarrow> 'b bigint_ops \<Rightarrow> ('t, 'b) runtime \<times> 'e \<Rightarrow>
       ('t, 'b) runtime \<times> 'e \<Rightarrow> bool"
  for S lim Bg where
  life_create: "life_step S lim Bg s (snd (create_txn S conn name mode scope dur s))"
| life_request: "life_step S lim Bg (r, e) (on_driver (Driver_State.enqueue i q op) r, e)"
| life_timer: "life_step S lim Bg (r, e) (note_timer_task r, e)"
| life_idle: "life_step S lim Bg (r, e) (on_driver deactivate_idle_txns r, e)"
| life_commit: "life_step S lim Bg (r, e) (on_driver (with_handle i (\<lambda>h. h\<lparr>th_explicit_commit := True\<rparr>)) r, e)"
| life_poll: "life_step S lim Bg (r, e) (snd (poll_scheduler r), e)"
| life_start: "i \<in> tq_id ` set (running_txns (rt_scheduler r)) \<Longrightarrow>
    life_step S lim Bg (r, e) (snd (snd (start_txn S i (r, e))))"
| life_take: "life_step S lim Bg (r, e) (on_driver (\<lambda>d. snd (snd (take_work ids served d))) r, e)"
| life_serve: "serve S lim Bg threw prevented w s = Some (out, s') \<Longrightarrow> life_step S lim Bg s s'"
| life_finish: "next_finishable (rt_driver r) = Some i \<Longrightarrow> handle_of r i = Some h \<Longrightarrow>
    life_step S lim Bg (r, e) (snd (finish_txn S i h (r, e)))"
| life_abort: "life_step S lim Bg s (snd (abort_transaction S i notify s))"
| life_schema: "schema_step (so_txn S e) lim Bg (rt_driver r) d \<Longrightarrow>
    life_step S lim Bg (r, e) (r\<lparr>rt_driver := d\<rparr>, e)"
| life_open: "life_step S lim Bg s (snd (next_open_step S s))"
| life_perform: "life_step S lim Bg s (snd (perform_open S threw closed st s))"
| life_close: "life_step S lim Bg (r, e) (connection_closed conn r, e)"
| life_enqueue_open: "life_step S lim Bg (r, e) (enqueue_request p r, e)"
| life_deferred: "life_step S lim Bg (r, e) (snd (process_deferred_open_errors r), e)"

definition runtime_new :: "('t, 'b) runtime" where
  "runtime_new =
     \<lparr>rt_driver = \<lparr>dr_txns = Map.empty, dr_txn_of_request = Map.empty, dr_ops = Map.empty,
        dr_txn_queues = Map.empty, dr_cursors = Map.empty, dr_next_request_id = 0, dr_next_txn_id = 0,
        dr_next_cursor_id = 0, dr_next_conn_id = 0, dr_task_epoch = 0\<rparr>,
      rt_scheduler = sched_new, rt_opens = [], rt_deferred_open_errors = [], rt_open_queues = Map.empty,
      rt_connections = []\<rparr>"

abbreviation life_reachable ::
    "('e, 'h, 't, 'c) storage_ops \<Rightarrow> limit_config \<Rightarrow> 'b bigint_ops \<Rightarrow> 'e \<Rightarrow> ('t, 'b) runtime \<times> 'e \<Rightarrow> bool" where
  "life_reachable S lim Bg e0 \<equiv> (life_step S lim Bg)\<^sup>*\<^sup>* (runtime_new, e0)"

lemma schema_step_standing: "schema_step B lim Bg d d' \<Longrightarrow> same_standing d d'"
  by (induction rule: schema_step.induct)
     (simp_all add: schema_stores_standing schema_rename_index_standing schema_create_index_standing
       schema_delete_index_standing)

text \<open>A step that leaves the scheduler alone and keeps what the handles stand for.\<close>

lemma registry_driver: "registry r \<Longrightarrow> same_standing (rt_driver r) (f (rt_driver r)) \<Longrightarrow> registry (on_driver f r)"
  by (rule registry_standing) (simp_all add: on_driver_def)

lemma registry_alloc:
  "registry r \<Longrightarrow> registry (r\<lparr>rt_driver := (rt_driver r)\<lparr>dr_next_txn_id := Suc (dr_next_txn_id (rt_driver r))\<rparr>\<rparr>)"
  by (auto simp: registry_def handle_of_def less_Suc_eq)

lemma registry_create: "registry r \<Longrightarrow> registry (fst (snd (create_txn S conn name mode scope dur (r, e))))"
  by (auto simp: create_txn_def alloc_txn_def Let_def case_prod_beta registry_alloc new_handle_def
      intro!: registry_register [simplified])

lemma take_request_standing [simp]:
  "same_standing d0 (snd (snd (take_request ids served d))) = same_standing d0 d"
  by (induction ids served d rule: take_request.induct)
     (simp_all add: Let_def split: option.split list.split)

lemma take_work_standing: "same_standing d (snd (snd (take_work ids served d)))"
  by (simp add: take_work_def case_prod_beta Let_def split: option.split)

lemma deactivate_standing: "same_standing d (deactivate_idle_txns d)"
  by (auto simp: same_standing_def deactivate_idle_txns_def standing_def split: option.splits)

lemma enqueue_standing: "same_standing d (Driver_State.enqueue i q op d)"
  by (simp add: same_standing_def Driver_State.enqueue_def)

lemma commit_call_standing: "same_standing d (with_handle i (\<lambda>h. h\<lparr>th_explicit_commit := True\<rparr>) d)"
  by (simp add: same_standing_through standing_def)

lemma registry_serve:
  assumes r: "registry r" and w: "serve S lim Bg threw prevented w (r, e) = Some (out, s')"
  shows "registry (fst s')"
proof (cases w)
  case (WorkFailStalled i)
  then have "s' = (r\<lparr>rt_driver := snd (fail_queued_requests i IdbTransactionInactive (rt_driver r))\<rparr>, e)"
    using w by (auto simp: serve_def case_prod_beta)
  then show ?thesis using registry_standing [OF r] by simp
next
  case (WorkExec i q op)
  then obtain res d where run: "execute_op (so_txn S e) lim Bg i q op (rt_driver r) = Some (res, d)"
    using w by (auto simp: serve_def)
  have d: "same_standing (rt_driver r) d" by (rule execute_op_standing [OF run])
  have refreshed: "registry (r\<lparr>rt_driver := refresh_txn_epoch i d'\<rparr>)" if "same_standing (rt_driver r) d'" for d'
    by (rule registry_standing [OF r]) (simp_all add: that)
  have aborted: "registry (fst (snd (abort_transaction S i notify (r\<lparr>rt_driver := refresh_txn_epoch i d'\<rparr>, e))))"
    if "same_standing (rt_driver r) d'" for notify d'
    by (rule registry_abort [OF refreshed [OF that]])
  have kept: "registry (r\<lparr>rt_driver := d\<rparr>)" by (rule registry_standing [OF r]) (simp_all add: d)
  show ?thesis
  proof (cases res)
    case (Inl f)
    show ?thesis
      by (cases f) (use w refreshed [OF d] aborted [OF d] kept in \<open>auto simp: serve_def WorkExec run Inl case_prod_beta Let_def\<close>)
  next
    case (Inr x)
    have d': "same_standing (rt_driver r) (case op of OpCursorOp cid _ \<Rightarrow> set_cursor_pending cid False d | _ \<Rightarrow> d)"
      by (simp add: d split: pending_op.split)
    then show ?thesis
      using w refreshed [OF d'] aborted [OF d'] by (auto simp: serve_def WorkExec run Inr case_prod_beta Let_def)
  qed
qed

lemma edit_queue_frame [simp]:
  "rt_driver (edit_queue name f r) = rt_driver r" "rt_scheduler (edit_queue name f r) = rt_scheduler r"
  by (simp_all add: edit_queue_def split: option.split)

lemma drop_open_frame [simp]:
  "rt_driver (drop_open p r) = rt_driver r" "rt_scheduler (drop_open p r) = rt_scheduler r"
  by (simp_all add: drop_open_def)

lemma registry_same:
  "registry r \<Longrightarrow> rt_driver r' = rt_driver r \<Longrightarrow> rt_scheduler r' = rt_scheduler r \<Longrightarrow> registry r'"
  by (erule registry_standing) simp_all

lemma visit_open_frame:
  "rt_driver (fst (snd (visit_open S idx (r, e)))) = rt_driver r \<and>
   rt_scheduler (fst (snd (visit_open S idx (r, e)))) = rt_scheduler r"
  by (simp add: visit_open_def Let_def case_prod_beta)

lemma scan_opens_frame:
  "rt_driver (fst (snd (scan_opens S ids s))) = rt_driver (fst s) \<and>
   rt_scheduler (fst (snd (scan_opens S ids s))) = rt_scheduler (fst s)"
proof (induction S ids s rule: scan_opens.induct)
  case (2 S i ids s)
  obtain r e where s: "s = (r, e)" by (metis prod.exhaust)
  show ?case
  proof (cases "position (\<lambda>p. po_request_id p = i) (rt_opens (fst s))")
    case (Some idx)
    obtain st r1 e1 where v: "visit_open S idx s = (st, r1, e1)" by (metis prod.exhaust)
    have "rt_driver r1 = rt_driver r \<and> rt_scheduler r1 = rt_scheduler r"
      using visit_open_frame [of S idx r e] v s by simp
    then show ?thesis using 2 [OF Some v [symmetric]] Some v s by (cases st) auto
  qed (simp add: s)
qed simp

lemma registry_next_open:
  assumes "registry r"
  shows "registry (fst (snd (next_open_step S (r, e))))"
proof (rule registry_same [OF assms])
  have f: "rt_driver (fst (snd (scan_opens S ids (r, e)))) = rt_driver r"
    "rt_scheduler (fst (snd (scan_opens S ids (r, e)))) = rt_scheduler r" for ids
    using scan_opens_frame [of S ids "(r, e)"] by simp_all
  show "rt_driver (fst (snd (next_open_step S (r, e)))) = rt_driver r"
    "rt_scheduler (fst (snd (next_open_step S (r, e)))) = rt_scheduler r"
    by (simp_all add: next_open_step_def f split: option.split)
qed

lemma registry_start_upgrade:
  "registry r \<Longrightarrow> registry (fst (snd (start_upgrade_txn S p v (r, e))))"
  by (auto simp: start_upgrade_txn_def alloc_txn_def Let_def new_handle_def registry_alloc
      split: prod.splits sum.splits intro!: registry_register [simplified])

lemma registry_perform:
  assumes r: "registry r"
  shows "registry (fst (snd (perform_open S threw closed st (r, e))))"
proof (cases st)
  case (StepUpgrade p old new)
  obtain res r1 e1 where u: "start_upgrade_txn S p new (r, e) = (res, r1, e1)" by (metis prod.exhaust)
  then have r1: "registry r1" using registry_start_upgrade [OF r, of S p new e] by simp
  have marked: "registry (mark_upgrade p i old new r1)" for i
    by (rule registry_same [OF r1]) (simp_all add: mark_upgrade_def)
  have "registry (fst (snd (abort_failed_upgrade S p i (mark_upgrade p i old new r1, e1))))" for i
    by (rule registry_same [OF registry_removed [OF marked [of i]]]) (simp_all add: abort_failed_upgrade_def)
  then show ?thesis
    using registry_same [OF r1] marked by (simp add: StepUpgrade u case_prod_beta Let_def split: sum.split)
next
  case (StepFinish p i)
  show ?thesis
    unfolding StepFinish
    by (rule registry_same [OF registry_removed [OF r, of i]]) (simp_all add: finish_upgrade_def)
qed (use registry_same [OF r] in \<open>simp_all add: insert_connection_def case_prod_beta Let_def\<close>)

lemma registry_life: "life_step S lim Bg s s' \<Longrightarrow> registry (fst s) \<Longrightarrow> registry (fst s')"
proof (induction rule: life_step.induct)
  case (life_create s conn name mode scope dur)
  then show ?case using registry_create by (metis prod.collapse)
next
  case (life_serve threw prevented w s out s')
  then show ?case using registry_serve by (metis prod.collapse)
next
  case (life_abort s i notify)
  then show ?case using registry_abort by (metis prod.collapse)
next
  case (life_open s)
  then show ?case using registry_next_open by (metis prod.collapse)
next
  case (life_perform s threw closed st)
  then show ?case using registry_perform by (metis prod.collapse)
next
  case (life_schema e r d)
  then show ?case using registry_standing [of r "r\<lparr>rt_driver := d\<rparr>"] schema_step_standing [OF life_schema(1)] by simp
next
  case (life_timer r e)
  then show ?case using registry_driver [of r] by (simp add: note_timer_task_def)
qed (simp_all add: registry_driver enqueue_standing deactivate_standing commit_call_standing registry_poll
      registry_start take_work_standing registry_finish
      connection_closed_def enqueue_request_def process_deferred_open_errors_def,
      (erule registry_same, simp, simp)+)

lemma registry_reachable: "life_reachable S lim Bg e0 s \<Longrightarrow> registry (fst s)"
proof (induction rule: rtranclp_induct)
  case base
  show ?case by (simp add: registry_def runtime_new_def sched_new_def known_def handle_of_def compatible_def)
qed (rule registry_life)

end
