(* ===== verification/Driver_Open_Order.thy ===== *)
theory Driver_Open_Order
  imports Driver_Opens
begin

text \<open>
  The driver keeps its own list of open requests beside the core queue of each database. The two agree:
  the core queue of a database holds the requests of the list that were handed to it and have not been
  answered, in the same order. So the driver always acts on the request the core queue answered.
\<close>

section \<open>Agreement with the core queues\<close>

definition request_of :: "pending_open \<Rightarrow> open_request" where
  "request_of p =
     \<lparr>request_type = (case po_kind p of KindOpen \<Rightarrow> ReqOpen (po_version p) | KindDelete \<Rightarrow> ReqDelete),
      request_id = po_request_id p\<rparr>"

definition mine :: "utf16 \<Rightarrow> pending_open \<Rightarrow> bool" where
  "mine name p \<longleftrightarrow> po_name p = name \<and> \<not> po_upgrade_active p"

definition waits :: "utf16 \<Rightarrow> pending_open \<Rightarrow> bool" where
  "waits name p \<longleftrightarrow> mine name p \<and> po_queued p"

definition core_requests :: "('t, 'b) runtime \<Rightarrow> utf16 \<Rightarrow> open_request list" where
  "core_requests r name = (case rt_open_queues r name of None \<Rightarrow> [] | Some q \<Rightarrow> oq_queue q)"

definition orderly :: "pending_open list \<Rightarrow> bool" where
  "orderly ps \<longleftrightarrow> distinct (map po_request_id ps) \<and>
     (\<forall>p \<in> set ps. (po_upgrade_active p \<longrightarrow> po_queued p) \<and> (po_upgrade_txn_id p \<noteq> None \<longrightarrow> po_upgrade_active p)) \<and>
     sorted_wrt (\<lambda>p p'. po_name p = po_name p' \<longrightarrow> po_queued p' \<longrightarrow> po_queued p) ps"

text \<open>\<open>out\<close> are the requests the core queues have answered and the driver has not performed yet.\<close>

definition matches :: "u64 set \<Rightarrow> ('t, 'b) runtime \<Rightarrow> bool" where
  "matches out r \<longleftrightarrow>
     (\<forall>name. core_requests r name = map request_of (filter (\<lambda>p. waits name p \<and> po_request_id p \<notin> out) (rt_opens r))) \<and>
     (\<forall>name q. rt_open_queues r name = Some q \<longrightarrow> oq_inv q)"

definition open_inv :: "('t, 'b) runtime \<Rightarrow> bool" where
  "open_inv r \<longleftrightarrow> orderly (rt_opens r) \<and> matches {} r"

section \<open>The core queue\<close>

text \<open>A queue that has nothing to say for now.\<close>

definition stalled :: "u32 \<Rightarrow> open_queue \<Rightarrow> bool" where
  "stalled live q \<longleftrightarrow> oq_state q \<noteq> Idle \<and> (oq_state q = WaitingForConnections \<longrightarrow> live \<noteq> 0)"

lemma queue_step_stalled: "stalled live q \<Longrightarrow> queue_step live q = (None, q)"
  by (auto simp: queue_step_def stalled_def)

text \<open>What a queue with a request at its head answers.\<close>

definition answer_ok :: "u32 \<Rightarrow> open_request \<Rightarrow> open_queue_action \<Rightarrow> bool" where
  "answer_ok live h a \<longleftrightarrow>
     (case a of
        OpenConnection i v \<Rightarrow> i = request_id h \<and> (request_type h = ReqOpen 0 \<or> request_type h = ReqOpen v)
      | FailOpen i f \<Rightarrow> i = request_id h \<and> f = IdbVersion \<and> (\<exists>v. request_type h = ReqOpen v)
      | SendBlocked i \<Rightarrow> i = request_id h \<and> live \<noteq> 0
      | StartUpgrade i old v \<Rightarrow> i = request_id h \<and> live = 0 \<and> old < v \<and>
          (request_type h = ReqOpen v \<or> request_type h = ReqOpen 0 \<and> old = 0 \<and> v = 1)
      | StartDelete i \<Rightarrow> i = request_id h \<and> live = 0 \<and> request_type h = ReqDelete)"

lemma process_answer:
  assumes "process_next q = (a, q')" "oq_queue q = h # t" "oq_state q = Idle" "blocking_connections q = live"
  shows "(\<exists>i. a = Some (SendBlocked i) \<and> i = request_id h \<and> live \<noteq> 0 \<and> oq_queue q' = h # t \<and> stalled live q') \<or>
    (\<exists>x. a = Some x \<and> answer_ok live h x \<and> (\<forall>i. x \<noteq> SendBlocked i) \<and> oq_queue q' = t)"
  using assms
  by (auto simp: process_next_def answer_ok_def stalled_def target_version_def cmp_Less_iff cmp_Equal_iff
      cmp_Greater_iff Let_def word_gt_0
      split: open_request_type.splits ordering.splits if_splits)

lemma queue_step_answer:
  assumes q: "oq_inv q" "blocking_connections q = live" "oq_queue q = h # t"
    and step: "queue_step live q = (a, q')"
  shows "oq_inv q' \<and>
    ((a = None \<and> oq_queue q' = h # t \<and> stalled live q') \<or>
     (\<exists>i. a = Some (SendBlocked i) \<and> i = request_id h \<and> live \<noteq> 0 \<and> oq_queue q' = h # t \<and> stalled live q') \<or>
     (\<exists>x. a = Some x \<and> answer_ok live h x \<and> (\<forall>i. x \<noteq> SendBlocked i) \<and> oq_queue q' = t))"
proof (cases "stalled live q")
  case True
  then show ?thesis using q step by (simp add: queue_step_stalled)
next
  case False
  show ?thesis
  proof (cases "oq_state q = Idle")
    case True
    then have "process_next q = (a, q')" using step by (simp add: queue_step_def)
    then show ?thesis using process_answer [OF _ q(3) True q(2)] oq_inv_process [OF q(1)] by blast
  next
    case waiting: False
    then have w: "oq_state q = WaitingForConnections" "live = 0" using False by (auto simp: stalled_def)
    let ?q = "q\<lparr>oq_state := Idle\<rparr>"
    obtain b q1 where p: "process_next ?q = (b, q1)" by (metis prod.exhaust)
    have ex: "exclusive (current_version q) h" using q(1,3) w(1) by (auto simp: oq_inv_def)
    have "(\<exists>i old v. b = Some (StartUpgrade i old v)) \<or> (\<exists>i. b = Some (StartDelete i))"
      using p ex q(2,3) w(2)
      by (auto simp: process_next_def exclusive_def Let_def cmp_def split: open_request_type.splits if_splits)
    moreover have "on_all_connections_closed q = (b, q1)"
      using p w q(2) by (simp add: on_all_connections_closed_def)
    ultimately have "b = a" "q1 = q'" using step w by (auto simp: queue_step_def)
    moreover have "oq_inv ?q" by (simp add: oq_inv_def)
    ultimately show ?thesis
      using process_answer [OF p, of h t live] oq_inv_process [OF _ p] q(2,3) by auto
  qed
qed

section \<open>Visiting a request\<close>

definition step_ok :: "u32 \<Rightarrow> pending_open \<Rightarrow> open_step \<Rightarrow> bool" where
  "step_ok live p st \<longleftrightarrow>
     (case st of
        StepConnection p' v \<Rightarrow> p' = p \<and> po_kind p = KindOpen \<and> (po_version p = 0 \<or> po_version p = v)
      | StepFail p' f \<Rightarrow> p' = p \<and> po_kind p = KindOpen \<and> f = IdbVersion
      | StepBlocked p' \<Rightarrow> p' = p \<and> live \<noteq> 0
      | StepUpgrade p' old v \<Rightarrow> p' = p \<and> po_kind p = KindOpen \<and> live = 0 \<and> old < v \<and>
          (po_version p = v \<or> po_version p = 0 \<and> old = 0 \<and> v = 1)
      | StepDelete p' \<Rightarrow> p' = p \<and> po_kind p = KindDelete \<and> live = 0
      | StepFinish p' i \<Rightarrow> False)"

definition answered_ids :: "open_step \<Rightarrow> u64 set" where
  "answered_ids st = (case st of
      StepConnection p _ \<Rightarrow> {po_request_id p} | StepFail p _ \<Rightarrow> {po_request_id p} | StepBlocked _ \<Rightarrow> {}
    | StepUpgrade p _ _ \<Rightarrow> {po_request_id p} | StepDelete p \<Rightarrow> {po_request_id p} | StepFinish _ _ \<Rightarrow> {})"

lemma register_open_inv:
  "oq_inv q \<Longrightarrow> oq_inv (register_open p (set_blocking_connections q live))"
  by (auto simp: register_open_def oq_inv_def set_blocking_connections_def enqueue_open_def enqueue_delete_def
      split: open_kind.split)

lemma register_open_state [simp]:
  "oq_state (register_open p (set_blocking_connections q live)) = oq_state q"
  "blocking_connections (register_open p (set_blocking_connections q live)) = live"
  by (simp_all add: register_open_def set_blocking_connections_def enqueue_open_def enqueue_delete_def
      split: open_kind.split)

lemma request_of_marks [simp]:
  "request_of (p\<lparr>po_queued := b\<rparr>) = request_of p" "request_of (p\<lparr>po_blocked_fired := b\<rparr>) = request_of p"
  by (simp_all add: request_of_def split: open_kind.split)

lemma mine_marks [simp]:
  "mine name (p\<lparr>po_queued := b\<rparr>) = mine name p" "mine name (p\<lparr>po_blocked_fired := b\<rparr>) = mine name p"
  by (simp_all add: mine_def)

lemma waits_marks [simp]:
  "waits name (p\<lparr>po_queued := b\<rparr>) = (mine name p \<and> b)" "waits name (p\<lparr>po_blocked_fired := b\<rparr>) = waits name p"
  by (auto simp: waits_def)

lemma registered_queue:
  assumes inv: "open_inv r" and opens: "rt_opens r = as @ p # bs" and p: "\<not> po_upgrade_active p"
    and before: "\<forall>x \<in> set as. po_queued x"
    and q: "queue_of S (po_name p) (r, e) = (q, e')"
  shows "oq_queue (register_open p (set_blocking_connections q live)) =
      map request_of (filter (waits (po_name p)) (as @ p\<lparr>po_queued := True\<rparr> # bs))"
    "oq_inv q" "orderly (as @ p\<lparr>po_queued := True\<rparr> # bs)"
proof -
  have ord: "orderly (as @ p # bs)" using inv opens by (simp add: open_inv_def)
  have m: "core_requests r (po_name p) = map request_of (filter (waits (po_name p)) (as @ p # bs))"
    using inv opens by (simp add: open_inv_def matches_def)
  have "oq_queue q = core_requests r (po_name p) \<and> oq_inv q"
  proof (cases "rt_open_queues r (po_name p)")
    case None
    then show ?thesis using q by (auto simp: queue_of_def core_requests_def oq_new_def oq_inv_def split: prod.splits)
  next
    case (Some q0)
    then show ?thesis using q inv by (simp add: queue_of_def core_requests_def open_inv_def matches_def)
  qed
  then have core: "oq_queue q = map request_of (filter (waits (po_name p)) (as @ p # bs))" and "oq_inv q"
    using m by simp_all
  then show "oq_inv q" by simp
  show "orderly (as @ p\<lparr>po_queued := True\<rparr> # bs)"
    using ord before by (auto simp: orderly_def sorted_wrt_append)
  show "oq_queue (register_open p (set_blocking_connections q live)) =
      map request_of (filter (waits (po_name p)) (as @ p\<lparr>po_queued := True\<rparr> # bs))"
  proof (cases "po_queued p")
    case True
    then show ?thesis using core p by (simp add: register_open_def set_blocking_connections_def waits_def mine_def)
  next
    case False
    then have "filter (waits (po_name p)) bs = []"
      using ord by (auto simp: orderly_def sorted_wrt_append waits_def mine_def filter_empty_conv)
    then show ?thesis
      using core p False
      by (auto simp: register_open_def set_blocking_connections_def enqueue_open_def enqueue_delete_def
          waits_def mine_def request_of_def split: open_kind.split)
  qed
qed

lemma filter_without:
  assumes "orderly (as @ p # bs)" "\<forall>x \<in> set as. \<not> mine name x"
  shows "filter (\<lambda>x. waits name x \<and> po_request_id x \<noteq> po_request_id p) (as @ p # bs) = filter (waits name) bs"
proof -
  have "filter (waits name) as = []" using assms(2) by (auto simp: filter_empty_conv waits_def)
  moreover have "\<forall>x \<in> set bs. po_request_id x \<noteq> po_request_id p"
    using assms(1) by (simp add: orderly_def) (metis image_eqI)
  ultimately show ?thesis
    using assms(2) by (auto simp: filter_empty_conv waits_def intro!: filter_cong)
qed

text \<open>The state a visit leaves: the request handed over, and the queue of its database replaced.\<close>

definition visited :: "pending_open list \<Rightarrow> pending_open \<Rightarrow> pending_open list \<Rightarrow> open_queue \<Rightarrow> ('t, 'b) runtime \<Rightarrow> ('t, 'b) runtime" where
  "visited as p bs q r =
     r\<lparr>rt_opens := as @ p # bs, rt_open_queues := (rt_open_queues r)(po_name p \<mapsto> q)\<rparr>"

lemma matches_visited:
  assumes inv: "open_inv r" and opens: "rt_opens r = as @ p0 # bs"
    and p: "po_name p = po_name p0" "po_request_id p = po_request_id p0"
      "po_upgrade_active p0 = po_upgrade_active p"
    and q: "oq_inv q" "oq_queue q =
      map request_of (filter (\<lambda>x. waits (po_name p) x \<and> po_request_id x \<notin> out) (as @ p # bs))"
    and out: "\<forall>x \<in> set (as @ p # bs). po_request_id x \<in> out \<longrightarrow> po_name x = po_name p"
  shows "matches out (visited as p bs q r)"
proof -
  have other: "core_requests r name = map request_of (filter (\<lambda>x. waits name x \<and> po_request_id x \<notin> out) (as @ p # bs))"
    if "name \<noteq> po_name p" for name
  proof -
    have "core_requests r name = map request_of (filter (waits name) (as @ p0 # bs))"
      using inv opens by (simp add: open_inv_def matches_def)
    moreover have "filter (waits name) xs = filter (\<lambda>x. waits name x \<and> po_request_id x \<notin> out) xs"
      if "set xs \<subseteq> set (as @ p # bs)" for xs
      using that \<open>name \<noteq> po_name p\<close> out by (intro filter_cong) (auto simp: waits_def mine_def)
    then have "filter (waits name) (as @ p0 # bs) = filter (\<lambda>x. waits name x \<and> po_request_id x \<notin> out) (as @ p # bs)"
      using that p by (simp add: subset_iff) (simp add: waits_def mine_def)
    ultimately show ?thesis by (simp only:)
  qed
  then show ?thesis
    using inv q by (auto simp: matches_def core_requests_def visited_def open_inv_def)
qed

lemma visit_open_visited:
  assumes "rt_opens r = as @ p # bs" "queue_of S (po_name p) (r, e) = (q, e1)"
    "queue_step live (register_open p (set_blocking_connections q live)) = (a, q1)"
    "live = live_connection_count r (po_name p)"
    "(case a of None \<Rightarrow> (None, p\<lparr>po_queued := True\<rparr>) | Some a \<Rightarrow> step_of a (p\<lparr>po_queued := True\<rparr>)) = (st, p')"
  shows "visit_open S (length as) (r, e) = (st, visited as p' bs q1 r, e1)"
proof -
  have "po_name p' = po_name p"
    using assms(5) by (cases a rule: option.exhaust; cases "the a") (auto split: if_splits simp: Let_def)
  then show ?thesis using assms by (simp add: visit_open_def visited_def)
qed

lemma orderly_ids:
  "orderly (as @ p # bs) \<Longrightarrow> x \<in> set (as @ p # bs) \<Longrightarrow> po_request_id x = po_request_id p \<Longrightarrow> x = p"
  by (simp add: orderly_def) (metis image_eqI)

text \<open>\<open>p\<close> after its visit, where its \<open>blocked\<close> may have been fired.\<close>

definition seen_as :: "pending_open \<Rightarrow> pending_open \<Rightarrow> bool" where
  "seen_as p p' \<longleftrightarrow> (\<exists>b. p' = p\<lparr>po_queued := True, po_blocked_fired := b\<rparr>)"

lemma seen_as_simps:
  assumes "seen_as p p'"
  shows "po_name p' = po_name p" "po_request_id p' = po_request_id p" "po_upgrade_active p' = po_upgrade_active p"
    "po_queued p'" "po_kind p' = po_kind p" "po_version p' = po_version p" "request_of p' = request_of p"
    "waits name p' = mine name p"
  using assms by (auto simp: seen_as_def request_of_def waits_def mine_def split: open_kind.split)

lemma seen_as_queued: "seen_as p (p\<lparr>po_queued := True\<rparr>)"
  by (simp add: seen_as_def) (metis pending_open.surjective pending_open.update_convs(9))

lemma orderly_seen: "seen_as p p' \<Longrightarrow> orderly (as @ p\<lparr>po_queued := True\<rparr> # bs) \<Longrightarrow> orderly (as @ p' # bs)"
  by (auto simp: seen_as_def orderly_def sorted_wrt_append)

lemma answer_step:
  assumes "answer_ok live (request_of p) x" "\<forall>i. x \<noteq> SendBlocked i"
  shows "\<exists>st. step_of x (p\<lparr>po_queued := True\<rparr>) = (Some st, p\<lparr>po_queued := True\<rparr>) \<and>
    step_ok live (p\<lparr>po_queued := True\<rparr>) st \<and> answered_ids st = {po_request_id p}"
  using assms
  by (cases x) (auto simp: answer_ok_def step_ok_def answered_ids_def request_of_def split: open_kind.splits)

lemma visit_result:
  assumes inv: "open_inv r" and opens: "rt_opens r = as @ p # bs" and p: "\<not> po_upgrade_active p"
    and before: "\<forall>x \<in> set as. po_queued x" and live: "live = live_connection_count r (po_name p)"
    and place: "(\<forall>x \<in> set as. \<not> mine (po_name p) x) \<or>
      (\<exists>q. rt_open_queues r (po_name p) = Some q \<and> stalled live q)"
    and visit: "visit_open S (length as) (r, e) = (st, r', e')"
  shows "\<exists>p' q. r' = visited as p' bs q r \<and> seen_as p p' \<and> orderly (as @ p' # bs) \<and>
    (case st of
       None \<Rightarrow> matches {} r' \<and> stalled live q
     | Some s \<Rightarrow> (\<forall>x \<in> set as. \<not> mine (po_name p) x) \<and> step_ok live p' s \<and> matches (answered_ids s) r')"
proof -
  obtain q e1 where q: "queue_of S (po_name p) (r, e) = (q, e1)" by (metis prod.exhaust)
  let ?Q = "register_open p (set_blocking_connections q live)" and ?p = "p\<lparr>po_queued := True\<rparr>"
  obtain a q1 where step: "queue_step live ?Q = (a, q1)" by (metis prod.exhaust)
  note Q = registered_queue [OF inv opens p before q]
  have orderly: "orderly (as @ p' # bs)" if "seen_as p p'" for p' by (rule orderly_seen [OF that Q(3)])
  have there: "r' = visited as p' bs q1 r \<and> st = st'"
    if "(case a of None \<Rightarrow> (None, ?p) | Some a \<Rightarrow> step_of a ?p) = (st', p')" for st' p'
    using visit_open_visited [OF opens q step live that] visit by simp
  have agree: "matches out (visited as p' bs q1 r)"
    if "seen_as p p'" "oq_inv q1" "out \<subseteq> {po_request_id p}"
      "oq_queue q1 = map request_of (filter (\<lambda>x. waits (po_name p) x \<and> po_request_id x \<notin> out) (as @ p' # bs))" for out p'
    by (rule matches_visited [OF inv opens])
       (use that seen_as_simps [OF that(1)] orderly_ids [OF orderly [OF that(1)]] in \<open>auto simp del: set_append\<close>)
  have same: "filter (waits (po_name p)) (as @ p' # bs) = filter (waits (po_name p)) as @ p' # filter (waits (po_name p)) bs"
    if "seen_as p p'" for p'
    using seen_as_simps [OF that] p by (simp add: mine_def)
  have queued: "oq_queue ?Q = map request_of (filter (waits (po_name p)) (as @ p' # bs))" if "seen_as p p'" for p'
    using Q(1) same [OF that] same [OF seen_as_queued] seen_as_simps(7) [OF that] by simp
  have Qinv: "oq_inv ?Q" by (rule register_open_inv [OF Q(2)])
  show ?thesis
  proof (cases "\<forall>x \<in> set as. \<not> mine (po_name p) x")
    case False
    then obtain q0 where "rt_open_queues r (po_name p) = Some q0" "stalled live q0" using place by blast
    then have "stalled live ?Q" using q by (auto simp: queue_of_def stalled_def)
    then have a: "a = None" "q1 = ?Q" using step by (simp_all add: queue_step_stalled)
    then have "matches {} (visited as ?p bs q1 r)"
      using Qinv queued [OF seen_as_queued] by (intro agree [OF seen_as_queued]) simp_all
    then show ?thesis
      using there [of None ?p] a \<open>stalled live ?Q\<close> orderly [OF seen_as_queued] seen_as_queued by auto
  next
    case first: True
    then have none: "filter (waits (po_name p)) as = []" by (auto simp: filter_empty_conv waits_def)
    have head: "oq_queue ?Q = request_of p # map request_of (filter (waits (po_name p)) bs)"
      using queued [OF seen_as_queued] same [OF seen_as_queued] none by simp
    from queue_step_answer [OF Qinv _ head step] have q1: "oq_inv q1"
      and cases: "(a = None \<and> oq_queue q1 = oq_queue ?Q \<and> stalled live q1) \<or>
        (\<exists>i. a = Some (SendBlocked i) \<and> live \<noteq> 0 \<and> oq_queue q1 = oq_queue ?Q \<and> stalled live q1) \<or>
        (\<exists>x. a = Some x \<and> answer_ok live (request_of p) x \<and> (\<forall>i. x \<noteq> SendBlocked i) \<and>
           oq_queue q1 = map request_of (filter (waits (po_name p)) bs))"
      by (auto simp: head)
    have kept: "matches {} (visited as p' bs q1 r)" if "seen_as p p'" "oq_queue q1 = oq_queue ?Q" for p'
      using q1 queued [OF that(1)] that by (intro agree) simp_all
    from cases show ?thesis
    proof (elim disjE exE conjE)
      assume "a = None" "oq_queue q1 = oq_queue ?Q" "stalled live q1"
      then show ?thesis
        using there [of None ?p] kept [OF seen_as_queued] orderly [OF seen_as_queued] seen_as_queued by auto
    next
      fix i
      assume a: "a = Some (SendBlocked i)" and l: "live \<noteq> 0" and q: "oq_queue q1 = oq_queue ?Q" "stalled live q1"
      show ?thesis
      proof (cases "po_blocked_fired p")
        case True
        then show ?thesis
          using there [of None ?p] kept [OF seen_as_queued q(1)] orderly [OF seen_as_queued] seen_as_queued a q by auto
      next
        case False
        let ?b = "?p\<lparr>po_blocked_fired := True\<rparr>"
        have s: "seen_as p ?b" by (auto simp: seen_as_def)
        show ?thesis
          using there [of "Some (StepBlocked ?b)" ?b] kept [OF s q(1)] orderly [OF s] s a l first False
          by (auto simp: step_ok_def answered_ids_def Let_def)
      qed
    next
      fix x
      assume a: "a = Some x" "answer_ok live (request_of p) x" "\<forall>i. x \<noteq> SendBlocked i"
        and q: "oq_queue q1 = map request_of (filter (waits (po_name p)) bs)"
      obtain s where s: "step_of x ?p = (Some s, ?p)" "step_ok live ?p s" "answered_ids s = {po_request_id p}"
        using answer_step [OF a(2,3)] by blast
      have "matches {po_request_id p} (visited as ?p bs q1 r)"
        using q1 q filter_without [OF orderly [OF seen_as_queued] first]
        by (intro agree [OF seen_as_queued]) simp_all
      then show ?thesis
        using there [of "Some s" ?p] s a(1) first orderly [OF seen_as_queued] seen_as_queued by auto
    qed
  qed
qed

section \<open>The scan\<close>

text \<open>Where a step finds the request it is about: no earlier request for its database waits.\<close>

definition first_waiting :: "pending_open list \<Rightarrow> pending_open \<Rightarrow> bool" where
  "first_waiting ps p \<longleftrightarrow>
     (\<exists>as x bs. ps = as @ x # bs \<and> seen_as x p \<and> \<not> po_upgrade_active x \<and> (\<forall>y \<in> set as. \<not> mine (po_name p) y))"

text \<open>All that a scan changes of a request.\<close>

definition scanned :: "('t, 'b) runtime \<Rightarrow> ('t, 'b) runtime \<Rightarrow> bool" where
  "scanned r r' \<longleftrightarrow>
     list_all2 (\<lambda>p p'. p' = p \<or> seen_as p p') (rt_opens r) (rt_opens r') \<and> rt_connections r' = rt_connections r"

lemma seen_as_trans: "seen_as a b \<Longrightarrow> seen_as b c \<Longrightarrow> seen_as a c"
  by (auto simp: seen_as_def)

lemma scanned_refl: "scanned r r"
  by (simp add: scanned_def list.rel_refl)

lemma scanned_trans:
  assumes "scanned a b" "scanned b c"
  shows "scanned a c"
proof -
  have ab: "list_all2 (\<lambda>p p'. p' = p \<or> seen_as p p') (rt_opens a) (rt_opens b)"
    and bc: "list_all2 (\<lambda>p p'. p' = p \<or> seen_as p p') (rt_opens b) (rt_opens c)"
    using assms by (simp_all add: scanned_def)
  have "list_all2 (\<lambda>p p'. p' = p \<or> seen_as p p') (rt_opens a) (rt_opens c)"
    by (rule list_all2_trans [OF _ ab bc]) (auto intro: seen_as_trans)
  then show ?thesis using assms by (simp add: scanned_def)
qed

lemma scanned_visited:
  "rt_opens r = as @ p # bs \<Longrightarrow> seen_as p p' \<Longrightarrow> scanned r (visited as p' bs q r)"
  by (simp add: scanned_def visited_def list_all2_append list.rel_refl)

lemma list_all2_set: "list_all2 P xs ys \<Longrightarrow> x \<in> set xs \<Longrightarrow> \<exists>y \<in> set ys. P x y"
  by (induction rule: list_all2_induct) auto

lemma scanned_first:
  assumes "scanned r r'" "first_waiting (rt_opens r') p"
  shows "first_waiting (rt_opens r) p"
proof -
  obtain as x bs where f: "rt_opens r' = as @ x # bs" "seen_as x p" "\<not> po_upgrade_active x"
    "\<forall>y \<in> set as. \<not> mine (po_name p) y" using assms(2) by (auto simp: first_waiting_def)
  obtain as0 x0 bs0 where r: "rt_opens r = as0 @ x0 # bs0"
    "list_all2 (\<lambda>p p'. p' = p \<or> seen_as p p') as0 as" "x = x0 \<or> seen_as x0 x"
  proof -
    have all: "list_all2 (\<lambda>p p'. p' = p \<or> seen_as p p') (rt_opens r) (as @ x # bs)"
      using assms(1) f(1) by (simp add: scanned_def)
    obtain us vs where uv: "rt_opens r = us @ vs" "list_all2 (\<lambda>p p'. p' = p \<or> seen_as p p') us as"
      "list_all2 (\<lambda>p p'. p' = p \<or> seen_as p p') vs (x # bs)"
      using list_all2_append2 [THEN iffD1, OF all] by blast
    then obtain v ws where "vs = v # ws" "x = v \<or> seen_as v x" by (auto simp: list_all2_Cons2)
    then show ?thesis using uv(1,2) by (intro that) simp_all
  qed
  have "\<not> mine (po_name p) y0" if y0: "y0 \<in> set as0" for y0
  proof -
    obtain y where "y \<in> set as" "y = y0 \<or> seen_as y0 y"
      using list_all2_set [OF r(2) y0] by blast
    then show ?thesis using f(4) by (auto simp: mine_def seen_as_simps(1,3))
  qed
  moreover have "seen_as x0 p" "\<not> po_upgrade_active x0"
    using r(3) f(2,3) seen_as_trans seen_as_simps(3) by auto
  ultimately show ?thesis using r(1) unfolding first_waiting_def by blast
qed

lemma waiting_scanned: "scanned r r' \<Longrightarrow> waiting_ids r' = waiting_ids r"
  unfolding scanned_def waiting_ids_def
proof (elim conjE)
  assume "list_all2 (\<lambda>p p'. p' = p \<or> seen_as p p') (rt_opens r) (rt_opens r')"
  then show "map po_request_id (filter (\<lambda>p. \<not> po_upgrade_active p) (rt_opens r')) =
      map po_request_id (filter (\<lambda>p. \<not> po_upgrade_active p) (rt_opens r))"
    by (induction rule: list_all2_induct) (auto simp: seen_as_simps)
qed

lemma live_scanned: "scanned r r' \<Longrightarrow> live_connection_count r' name = live_connection_count r name"
  by (simp add: scanned_def live_connection_count_def)

text \<open>Every database a part of the list was visited for has a queue with nothing to say.\<close>

definition quiet :: "('t, 'b) runtime \<Rightarrow> pending_open list \<Rightarrow> bool" where
  "quiet r ps \<longleftrightarrow> (\<forall>p \<in> set ps. po_queued p \<and> (\<not> po_upgrade_active p \<longrightarrow>
     (\<exists>q. rt_open_queues r (po_name p) = Some q \<and> stalled (live_connection_count r (po_name p)) q)))"

lemma position_at:
  assumes "distinct (map po_request_id (as @ p # bs))"
  shows "position (\<lambda>x. po_request_id x = po_request_id p) (as @ p # bs) = Some (length as)"
  using assms by (induction as) (auto simp: image_iff)

definition step_found :: "('t, 'b) runtime \<Rightarrow> ('t, 'b) runtime \<Rightarrow> open_step \<Rightarrow> bool" where
  "step_found r r' st \<longleftrightarrow> orderly (rt_opens r') \<and> matches (answered_ids st) r' \<and>
     (\<exists>p \<in> set (rt_opens r'). po_queued p \<and> first_waiting (rt_opens r) p \<and>
        step_ok (live_connection_count r (po_name p)) p st)"

lemma step_found_scanned:
  assumes "scanned r r1" "step_found r1 r' st"
  shows "step_found r r' st"
  using assms scanned_first [OF assms(1)] live_scanned [OF assms(1)] by (auto simp: step_found_def)

lemma quiet_visited:
  assumes q: "quiet r ps" and p: "seen_as p p'" and live: "stalled (live_connection_count r (po_name p)) q"
  shows "quiet (visited as p' bs q r) (ps @ [p'])"
proof -
  have l: "live_connection_count (visited as p' bs q r) name = live_connection_count r name" for name
    by (simp add: visited_def live_connection_count_def)
  show ?thesis
    unfolding quiet_def l
  proof
    fix x
    assume "x \<in> set (ps @ [p'])"
    then show "po_queued x \<and> (\<not> po_upgrade_active x \<longrightarrow>
        (\<exists>q'. rt_open_queues (visited as p' bs q r) (po_name x) = Some q' \<and>
           stalled (live_connection_count r (po_name x)) q'))"
      using q live seen_as_simps(1,4) [OF p]
      by (cases "po_name x = po_name p") (auto simp: quiet_def visited_def)
  qed
qed

lemma scan_result:
  assumes "open_inv r" "rt_opens r = ps @ qs" "quiet r ps"
    "scan_opens S (map po_request_id (filter (\<lambda>p. \<not> po_upgrade_active p) qs)) (r, e) = (st, r', e')"
  shows "scanned r r' \<and> (case st of None \<Rightarrow> open_inv r' | Some s \<Rightarrow> step_found r r' s)"
  using assms
proof (induction qs arbitrary: ps r e)
  case Nil
  then show ?case by (simp add: scanned_refl)
next
  case (Cons p qs)
  have ord: "orderly (ps @ p # qs)" using Cons.prems(1,2) by (simp add: open_inv_def)
  show ?case
  proof (cases "po_upgrade_active p")
    case True
    then have "quiet r (ps @ [p])" using Cons.prems(3) ord by (auto simp: quiet_def orderly_def)
    then show ?thesis using Cons.IH [of r "ps @ [p]" e] Cons.prems True by simp
  next
    case False
    obtain s1 r1 e1 where visit: "visit_open S (length ps) (r, e) = (s1, r1, e1)" by (metis prod.exhaust)
    have at: "position (\<lambda>x. po_request_id x = po_request_id p) (rt_opens r) = Some (length ps)"
      using position_at [of ps p qs] ord Cons.prems(2) by (simp add: orderly_def)
    have "(\<forall>x \<in> set ps. \<not> mine (po_name p) x) \<or>
        (\<exists>q. rt_open_queues r (po_name p) = Some q \<and> stalled (live_connection_count r (po_name p)) q)"
      using Cons.prems(3) by (auto simp: quiet_def mine_def)
    moreover have "\<forall>x \<in> set ps. po_queued x" using Cons.prems(3) by (simp add: quiet_def)
    ultimately obtain p' q where v: "r1 = visited ps p' qs q r" "seen_as p p'" "orderly (ps @ p' # qs)"
      "case s1 of None \<Rightarrow> matches {} r1 \<and> stalled (live_connection_count r (po_name p)) q
       | Some s \<Rightarrow> (\<forall>x \<in> set ps. \<not> mine (po_name p) x) \<and> step_ok (live_connection_count r (po_name p)) p' s \<and>
           matches (answered_ids s) r1"
      using visit_result [OF Cons.prems(1,2) False _ refl _ visit] by blast
    have opens: "rt_opens r1 = ps @ p' # qs" using v(1) by (simp add: visited_def)
    have sc: "scanned r r1" using scanned_visited [OF Cons.prems(2) v(2)] v(1) by simp
    show ?thesis
    proof (cases s1)
      case None
      have "open_inv r1" using v(3,4) None opens by (simp add: open_inv_def)
      moreover have "quiet r1 (ps @ [p'])" using quiet_visited [OF Cons.prems(3) v(2)] v(1,4) None by simp
      moreover have "scan_opens S (map po_request_id (filter (\<lambda>p. \<not> po_upgrade_active p) qs)) (r1, e1) = (st, r', e')"
        using Cons.prems(4) False at visit None by simp
      ultimately have "scanned r1 r' \<and> (case st of None \<Rightarrow> open_inv r' | Some s \<Rightarrow> step_found r1 r' s)"
        using Cons.IH [of r1 "ps @ [p']" e1] opens by simp
      then show ?thesis using scanned_trans [OF sc] step_found_scanned [OF sc] by (cases st) auto
    next
      case (Some s)
      have "first_waiting (rt_opens r) p'"
        unfolding first_waiting_def using Cons.prems(2) v(2,4) False Some seen_as_simps(1) [OF v(2)] by auto
      then have "step_found r r1 s"
        unfolding step_found_def
        using v(2,3,4) Some opens seen_as_simps(1,4) [OF v(2)] by (intro conjI bexI [of _ p']) auto
      then show ?thesis using sc Cons.prems(4) False at visit Some by auto
    qed
  qed
qed

lemma next_open_result:
  assumes inv: "open_inv r" and step: "next_open_step S (r, e) = (st, r', e')"
  shows "scanned r r' \<and>
    (case st of
       None \<Rightarrow> open_inv r'
     | Some (StepFinish p i) \<Rightarrow> r' = r \<and> p \<in> set (rt_opens r) \<and> po_upgrade_active p \<and>
         po_upgrade_txn_id p = Some i \<and> drained (rt_driver r) i
     | Some s \<Rightarrow> step_found r r' s)"
proof -
  have scan: "scanned r r' \<and> (case st of None \<Rightarrow> open_inv r' | Some s \<Rightarrow> step_found r r' s)"
    if "scan_opens S (waiting_ids r) (r, e) = (st, r', e')"
    using scan_result [OF inv, of "[]" "rt_opens r"] that by (simp add: waiting_ids_def quiet_def)
  have ok: ?thesis if "scan_opens S (waiting_ids r) (r, e) = (st, r', e')"
    using scan [OF that]
    by (auto simp: step_found_def step_ok_def split: option.splits open_step.splits)
  show ?thesis
  proof (cases "find po_upgrade_active (rt_opens r)")
    case None
    then show ?thesis using ok step by (simp add: next_open_step_def)
  next
    case (Some p)
    then have p: "p \<in> set (rt_opens r)" "po_upgrade_active p" by (auto simp: find_Some_iff)
    show ?thesis
    proof (cases "po_upgrade_txn_id p")
      case None
      then show ?thesis using step Some inv scanned_refl by (auto simp: next_open_step_def)
    next
      case (Some i)
      then show ?thesis
        using step \<open>find po_upgrade_active (rt_opens r) = Some p\<close> ok p scanned_refl [of r]
        by (cases "drained (rt_driver r) i") (auto simp: next_open_step_def)
    qed
  qed
qed

section \<open>Performing\<close>

lemma matches_drop:
  assumes "matches {po_request_id p} r"
  shows "matches {} (drop_open p r)"
proof -
  have "filter (\<lambda>x. waits name x) (filter (\<lambda>x. po_request_id x \<noteq> po_request_id p) ps) =
      filter (\<lambda>x. waits name x \<and> po_request_id x \<noteq> po_request_id p) ps" for name ps
    by (simp add: conj_commute)
  then show ?thesis using assms by (simp add: matches_def core_requests_def drop_open_def)
qed

lemma orderly_filter: "orderly ps \<Longrightarrow> orderly (filter P ps)"
  by (auto simp: orderly_def distinct_map_filter sorted_wrt_filter)

lemma open_inv_drop: "orderly (rt_opens r) \<Longrightarrow> matches {po_request_id p} r \<Longrightarrow> open_inv (drop_open p r)"
  using matches_drop by (auto simp: open_inv_def drop_open_def orderly_filter)

text \<open>An active request is not in a core queue; dropping it changes nothing there.\<close>

lemma open_inv_drop_active:
  assumes inv: "open_inv r" and p: "p \<in> set (rt_opens r)" "po_upgrade_active p"
  shows "open_inv (drop_open p r)"
proof (rule open_inv_drop)
  show ord: "orderly (rt_opens r)" using inv by (simp add: open_inv_def)
  have "\<not> waits name x" if "x \<in> set (rt_opens r)" "po_request_id x = po_request_id p" for x name
  proof -
    have "x = p" using ord that p(1) by (auto simp: orderly_def inj_on_def distinct_map)
    then show ?thesis using p(2) by (simp add: waits_def mine_def)
  qed
  then have "filter (waits name) (rt_opens r) = filter (\<lambda>x. waits name x \<and> po_request_id x \<notin> {po_request_id p}) (rt_opens r)" for name
    by (intro filter_cong) auto
  then show "matches {po_request_id p} r" using inv by (simp add: open_inv_def matches_def)
qed

text \<open>What leaves the requests of every core queue alone.\<close>

definition same_requests :: "('t, 'b) runtime \<Rightarrow> ('t, 'b) runtime \<Rightarrow> bool" where
  "same_requests r r' \<longleftrightarrow> rt_opens r' = rt_opens r \<and> core_requests r' = core_requests r \<and>
     (\<forall>name q. rt_open_queues r' name = Some q \<longrightarrow>
        oq_state q = Idle \<or> (\<exists>q0. rt_open_queues r name = Some q0 \<and> q = q0))"

lemma same_requests_inv:
  assumes "same_requests r r'"
  shows "orderly (rt_opens r) \<Longrightarrow> orderly (rt_opens r')" "matches out r \<Longrightarrow> matches out r'"
    "open_inv r \<Longrightarrow> open_inv r'"
  using assms by (force simp: same_requests_def matches_def open_inv_def oq_inv_def)+

lemma same_requests_edit:
  "(\<And>q. oq_state (f q) = Idle \<and> oq_queue (f q) = oq_queue q) \<Longrightarrow> same_requests r (edit_queue name f r)"
  by (auto simp: same_requests_def edit_queue_def core_requests_def fun_eq_iff split: option.splits if_splits)

lemma same_requests_rest:
  "rt_opens r' = rt_opens r \<Longrightarrow> rt_open_queues r' = rt_open_queues r \<Longrightarrow> same_requests r r'"
  by (auto simp: same_requests_def core_requests_def)

lemma drop_edit: "drop_open p (edit_queue name f r) = edit_queue name f (drop_open p r)"
  by (simp add: drop_open_def edit_queue_def split: option.split)

lemma open_inv_enqueue:
  assumes "open_inv r" "q \<notin> po_request_id ` set (rt_opens r)"
  shows "open_inv (enqueue_request (new_open kind name v conn q) r)"
  using assms
  by (auto simp: open_inv_def orderly_def matches_def core_requests_def enqueue_request_def new_open_def
      sorted_wrt_append waits_def)

lemma other_ids:
  assumes "orderly (as @ p # bs)"
  shows "\<forall>x \<in> set as \<union> set bs. po_request_id x \<noteq> po_request_id p"
  using assms by (auto simp: orderly_def) (metis image_eqI)+

lemma without_id:
  "orderly (as @ p # bs) \<Longrightarrow> filter (\<lambda>x. po_request_id x \<noteq> po_request_id p) (as @ p # bs) = as @ bs"
  using other_ids by (simp add: filter_id_conv)

lemma open_inv_abort_upgrade:
  assumes inv: "open_inv r"
  shows "open_inv (abort_upgrade_open i notify r)"
proof (cases "position (\<lambda>x. po_upgrade_txn_id x = Some i) (rt_opens r)")
  case None
  then show ?thesis using inv by (simp add: abort_upgrade_open_def)
next
  case (Some n)
  then obtain as p bs where p: "rt_opens r = as @ p # bs" "n = length as" "po_upgrade_txn_id p = Some i"
    using position_SomeD by fastforce
  have ord: "orderly (as @ p # bs)" using inv p(1) by (simp add: open_inv_def)
  have "po_upgrade_active p" using ord p(3) by (auto simp: orderly_def)
  then have "open_inv (drop_open p r)" using open_inv_drop_active [OF inv] p(1) by simp
  then have "open_inv (edit_queue (po_name p) on_operation_failed (drop_open p r))"
    by (rule same_requests_inv(3) [OF same_requests_edit, rotated]) (simp add: on_operation_failed_def)
  moreover have "r\<lparr>rt_opens := as @ bs\<rparr> = drop_open p r"
    using without_id [OF ord] p(1) by (simp add: drop_open_def)
  ultimately have failed: "open_inv (edit_queue (po_name p) on_operation_failed (r\<lparr>rt_opens := as @ bs\<rparr>))" by simp
  then have "open_inv (edit_queue (po_name p) on_operation_failed (r\<lparr>rt_opens := as @ bs\<rparr>)
      \<lparr>rt_deferred_open_errors := x\<rparr>)" for x
    by (rule same_requests_inv(3) [OF same_requests_rest, rotated 2]) simp_all
  then show ?thesis using failed Some p by (simp add: abort_upgrade_open_def Let_def)
qed

lemma start_upgrade_frame:
  "start_upgrade_txn S p v (r, e) = (res, r', e') \<Longrightarrow>
     rt_opens r' = rt_opens r \<and> rt_open_queues r' = rt_open_queues r \<and> rt_connections r' = rt_connections r"
  by (auto simp: start_upgrade_txn_def Let_def alloc_txn_def register_txn_def split: prod.splits sum.splits)

lemma update_first_split:
  "\<forall>x \<in> set as. \<not> P x \<Longrightarrow> P p \<Longrightarrow> update_first P f (as @ p # bs) = as @ f p # bs"
  by (induction as) auto

lemma open_inv_mark:
  assumes ord: "orderly (rt_opens r)" and m: "matches {po_request_id p} r"
    and p: "p \<in> set (rt_opens r)" "po_queued p"
  shows "open_inv (mark_upgrade p i old new r)"
proof -
  let ?f = "\<lambda>x. x\<lparr>po_upgrade_active := True, po_upgrade_txn_id := Some i, po_upgrade_versions := Some (old, new)\<rparr>"
  obtain as bs where r: "rt_opens r = as @ p # bs" using p(1) by (meson split_list)
  have ord: "orderly (as @ p # bs)" using ord r by simp
  have others: "\<forall>x \<in> set as \<union> set bs. po_request_id x \<noteq> po_request_id p"
    by (rule other_ids [OF ord])
  have opens: "rt_opens (mark_upgrade p i old new r) = as @ ?f p # bs"
    using others r by (simp add: mark_upgrade_def update_first_split)
  have "orderly (as @ ?f p # bs)" using ord p(2) by (auto simp: orderly_def sorted_wrt_append)
  moreover have "matches {} (mark_upgrade p i old new r)"
  proof -
    have "filter (\<lambda>x. waits name x \<and> po_request_id x \<noteq> po_request_id p) (as @ p # bs) =
        filter (waits name) (as @ ?f p # bs)" for name
    proof -
      have "filter (\<lambda>x. waits name x \<and> po_request_id x \<noteq> po_request_id p) xs = filter (waits name) xs"
        if "set xs \<subseteq> set as \<union> set bs" for xs
        using others that by (intro filter_cong) auto
      then show ?thesis by simp (simp add: waits_def mine_def)
    qed
    moreover have "rt_open_queues (mark_upgrade p i old new r) = rt_open_queues r" by (simp add: mark_upgrade_def)
    ultimately show ?thesis using m opens r by (simp add: matches_def core_requests_def)
  qed
  ultimately show ?thesis using opens by (simp add: open_inv_def)
qed

section \<open>Turns\<close>

text \<open>The states the list of open requests and the core queues go through, whatever else happens to the
  driver: requests arrive, turns take and perform a step, upgrades are aborted.\<close>

inductive open_reachable :: "('e, 'h, 't, 'c) storage_ops \<Rightarrow> ('t, 'b) runtime \<times> 'e \<Rightarrow> bool" for S where
  open_start: "rt_opens r = [] \<Longrightarrow> rt_open_queues r = Map.empty \<Longrightarrow> open_reachable S (r, e)"
| open_request: "open_reachable S (r, e) \<Longrightarrow> q \<notin> po_request_id ` set (rt_opens r) \<Longrightarrow>
    open_reachable S (enqueue_request (new_open kind name v conn q) r, e)"
| open_turn: "open_reachable S s \<Longrightarrow> next_open_step S s = (Some st, s') \<Longrightarrow>
    open_reachable S (snd (perform_open S threw closed st s'))"
| open_idle: "open_reachable S s \<Longrightarrow> next_open_step S s = (None, s') \<Longrightarrow> open_reachable S s'"
| open_aborted: "open_reachable S (r, e) \<Longrightarrow> open_reachable S (abort_upgrade_open i notify r, e')"
| open_other: "open_reachable S (r, e) \<Longrightarrow> rt_opens r' = rt_opens r \<Longrightarrow> rt_open_queues r' = rt_open_queues r \<Longrightarrow>
    open_reachable S (r', e')"

lemma open_inv_same:
  fixes r r' :: "('t, 'b) runtime"
  shows "open_inv r \<Longrightarrow> rt_opens r' = rt_opens r \<Longrightarrow> rt_open_queues r' = rt_open_queues r \<Longrightarrow> open_inv r'"
  using same_requests_inv(3) [OF same_requests_rest [of r' r]] by simp

lemma open_inv_edit:
  "open_inv r \<Longrightarrow> (\<And>q. oq_state (f q) = Idle \<and> oq_queue (f q) = oq_queue q) \<Longrightarrow> open_inv (edit_queue name f r)"
  by (rule same_requests_inv(3) [OF same_requests_edit])

lemma open_inv_perform:
  assumes inv: "open_inv r" and step: "next_open_step S (r, e) = (Some st, r1, e1)"
  shows "open_inv (fst (snd (perform_open S threw closed st (r1, e1))))"
proof (cases st)
  case (StepFinish p i)
  then have p: "r1 = r" "p \<in> set (rt_opens r)" "po_upgrade_active p"
    using next_open_result [OF inv step] by simp_all
  have "open_inv (drop_open p (forget_txn i (remove_handle i r)))"
    by (rule open_inv_same [OF open_inv_drop_active [OF inv p(2,3)]])
       (simp_all add: drop_open_def forget_txn_def remove_handle_def on_driver_def)
  then show ?thesis
    unfolding StepFinish p(1)
    by (simp add: finish_upgrade_def)
       (rule open_inv_edit, assumption, simp add: on_operation_failed_def on_upgrade_complete_def split: option.split)
next
  case (StepBlocked p)
  then show ?thesis
    using next_open_result [OF inv step] by (simp add: step_found_def answered_ids_def open_inv_def)
next
  case (StepConnection p v)
  then have "open_inv (drop_open p r1)"
    using next_open_result [OF inv step] by (intro open_inv_drop) (simp_all add: step_found_def answered_ids_def)
  then show ?thesis
    unfolding StepConnection by (auto elim: open_inv_same simp: drop_open_def insert_connection_def)
next
  case (StepFail p f)
  then show ?thesis
    using next_open_result [OF inv step] by (auto intro: open_inv_drop simp: step_found_def answered_ids_def)
next
  case (StepDelete p)
  then have "open_inv (drop_open p r1)"
    using next_open_result [OF inv step] by (intro open_inv_drop) (simp_all add: step_found_def answered_ids_def)
  then show ?thesis
    unfolding StepDelete
    by (simp add: case_prod_beta Let_def drop_edit)
       (rule open_inv_edit, assumption, simp add: on_operation_failed_def on_delete_complete_def split: sum.split)
next
  case (StepUpgrade p old new)
  then have found: "orderly (rt_opens r1)" "matches {po_request_id p} r1" "p \<in> set (rt_opens r1)" "po_queued p"
    using next_open_result [OF inv step] by (auto simp: step_found_def answered_ids_def step_ok_def)
  obtain res r2 e2 where u: "start_upgrade_txn S p new (r1, e1) = (res, r2, e2)" by (metis prod.exhaust)
  note frame = start_upgrade_frame [OF u]
  have m: "matches {po_request_id p} r2" "orderly (rt_opens r2)"
    using same_requests_inv(1,2) [OF same_requests_rest [of r2 r1]] frame found by simp_all
  show ?thesis
  proof (cases res)
    case (Inl x)
    have "open_inv (edit_queue (po_name p) on_operation_failed (drop_open p r2))"
      by (rule open_inv_edit [OF open_inv_drop [OF m(2,1)]]) (simp add: on_operation_failed_def)
    then show ?thesis unfolding StepUpgrade by (simp add: u Inl drop_edit)
  next
    case (Inr i)
    have marked: "open_inv (mark_upgrade p i old new r2)"
      using open_inv_mark [OF m(2,1)] found(3,4) frame by simp
    let ?p = "p\<lparr>po_upgrade_active := True, po_upgrade_txn_id := Some i, po_upgrade_versions := Some (old, new)\<rparr>"
    obtain as bs where r2: "rt_opens r2 = as @ p # bs" using found(3) frame by (metis split_list)
    have "rt_opens (mark_upgrade p i old new r2) = as @ ?p # bs"
      using other_ids [of as p bs] m(2) r2 by (simp add: mark_upgrade_def update_first_split)
    then have "open_inv (drop_open ?p (mark_upgrade p i old new r2))"
      by (intro open_inv_drop_active [OF marked]) simp_all
    then have "open_inv (drop_open p (forget_txn i (remove_handle i (mark_upgrade p i old new r2))))"
      by (rule open_inv_same) (simp_all add: drop_open_def forget_txn_def remove_handle_def on_driver_def)
    then have "open_inv (edit_queue (po_name p) on_operation_failed
        (drop_open p (forget_txn i (remove_handle i (mark_upgrade p i old new r2)))))"
      by (rule open_inv_edit) (simp add: on_operation_failed_def)
    then show ?thesis
      using marked unfolding StepUpgrade by (simp add: u Inr case_prod_beta Let_def abort_failed_upgrade_def)
  qed
qed

lemma open_reachable_inv: "open_reachable S s \<Longrightarrow> open_inv (fst s)"
proof (induction rule: open_reachable.induct)
  case (open_start r e)
  then show ?case by (simp add: open_inv_def orderly_def matches_def core_requests_def)
next
  case (open_turn s st s' threw closed)
  then show ?case using open_inv_perform by (metis prod.collapse)
next
  case (open_idle s s')
  then show ?case using next_open_result [of "fst s" S "snd s" None "fst s'" "snd s'"] by simp
qed (auto intro: open_inv_enqueue open_inv_abort_upgrade elim: open_inv_same)

end
