(* ===== verification/Memory_Storage.thy ===== *)
theory Memory_Storage
  imports Memory_Backend Driver_Lifecycle
begin

text \<open>
  The storage of the in-memory backend, \<open>boa_idb_memory/src/storage.rs\<close> and \<open>database.rs\<close>: every
  database is a part of its own behind a shared reference. Parts live in a store of addresses, so that
  a transaction keeps the part of a database that was deleted and made again meanwhile. A database
  handle is the address of its part and the metadata at the time it was opened.
\<close>

record memory_storage =
  ms_parts :: "utf16 \<rightharpoonup> nat"
  ms_states :: "nat \<Rightarrow> storage_state"
  ms_fresh :: nat

definition ms_new :: memory_storage where
  "ms_new = \<lparr>ms_parts = Map.empty, ms_states = (\<lambda>_. storage_default), ms_fresh = 0\<rparr>"

text \<open>\<open>part\<close>: the part of a database, created on demand.\<close>

definition part_of :: "utf16 \<Rightarrow> memory_storage \<Rightarrow> nat \<times> memory_storage" where
  "part_of name ms =
     (case ms_parts ms name of
        Some a \<Rightarrow> (a, ms)
      | None \<Rightarrow>
          (ms_fresh ms,
           ms\<lparr>ms_parts := (ms_parts ms)(name \<mapsto> ms_fresh ms),
              ms_states := (ms_states ms)(ms_fresh ms := storage_default), ms_fresh := ms_fresh ms + 1\<rparr>))"

definition set_state :: "nat \<Rightarrow> storage_state \<Rightarrow> memory_storage \<Rightarrow> memory_storage" where
  "set_state a st ms = ms\<lparr>ms_states := (ms_states ms)(a := st)\<rparr>"

type_synonym memory_database = "database_meta \<times> nat"

definition ms_open_database ::
    "memory_storage \<Rightarrow> utf16 \<Rightarrow> (backend_error + memory_database) \<times> memory_storage" where
  "ms_open_database ms name =
     (let (a, ms) = part_of name ms; st = ms_states ms a;
          meta = (case databases st name of Some m \<Rightarrow> m | None \<Rightarrow> fresh_meta name)
      in (Inr (meta, a), set_state a (st\<lparr>databases := (databases st)(name \<mapsto> meta)\<rparr>) ms))"

definition bt_retain :: "('k::linorder \<Rightarrow> bool) \<Rightarrow> ('k, 'v) btree \<Rightarrow> ('k, 'v) btree" where
  "bt_retain p m = fold bt_remove (filter (\<lambda>k. \<not> p k) (bt_keys m)) m"

definition remove_stores :: "store_id list \<Rightarrow> index_id list \<Rightarrow> storage_state \<Rightarrow> storage_state" where
  "remove_stores stores indexes st =
     (let st = fold (\<lambda>s st. st\<lparr>records := bt_retain (\<lambda>(i, _). i \<noteq> s) (records st)\<rparr>) stores st;
          st = fold (\<lambda>x st. st\<lparr>index_entries := bt_retain (\<lambda>(i, _, _). i \<noteq> x) (index_entries st)\<rparr>) indexes st
      in fold (\<lambda>s st. st\<lparr>key_generators := (key_generators st)(s := None)\<rparr>) stores st)"

definition ms_delete_database :: "memory_storage \<Rightarrow> utf16 \<Rightarrow> (backend_error + unit) \<times> memory_storage" where
  "ms_delete_database ms name =
     (Inr (),
      case ms_parts ms name of
        None \<Rightarrow> ms
      | Some a \<Rightarrow>
          let ms = ms\<lparr>ms_parts := (ms_parts ms)(name := None)\<rparr>; st = ms_states ms a in
          (case databases st name of
             None \<Rightarrow> ms
           | Some meta \<Rightarrow>
               set_state a
                 (remove_stores (map st_id (db_stores meta))
                    (concat (map (\<lambda>s. map ix_id (st_indexes s)) (db_stores meta)))
                    (st\<lparr>databases := (databases st)(name := None)\<rparr>)) ms))"

text \<open>A transaction holds the reference of its database's part.\<close>

type_synonym part_txn = "nat \<times> memory_txn"

definition ms_begin ::
    "memory_database \<Rightarrow> txn_mode \<Rightarrow> store_id list \<Rightarrow> durability \<Rightarrow> memory_storage \<Rightarrow>
       (backend_error + part_txn) \<times> memory_storage" where
  "ms_begin = (\<lambda>(meta, a) mode scope _ ms. (Inr (a, mt_new mode scope meta), ms))"

definition ms_commit :: "part_txn \<Rightarrow> memory_storage \<Rightarrow> (backend_error + unit) \<times> memory_storage" where
  "ms_commit = (\<lambda>(a, t) ms. (Inr (), set_state a (mt_commit (ms_states ms a) t) ms))"

definition ms_abort :: "part_txn \<Rightarrow> memory_storage \<Rightarrow> (backend_error + unit) \<times> memory_storage" where
  "ms_abort = (\<lambda>(a, t) ms. (Inr (), set_state a (mt_abort (ms_states ms a) t) ms))"

text \<open>An operation of a transaction, against its own part.\<close>

definition on_part :: "(storage_state \<Rightarrow> memory_txn \<Rightarrow> 'a \<times> memory_txn) \<Rightarrow> memory_storage \<Rightarrow> part_txn \<Rightarrow> 'a \<times> part_txn" where
  "on_part f ms = (\<lambda>(a, t). case f (ms_states ms a) t of (r, t) \<Rightarrow> (r, a, t))"

definition at_part :: "(storage_state \<Rightarrow> memory_txn \<Rightarrow> 'a) \<Rightarrow> memory_storage \<Rightarrow> part_txn \<Rightarrow> 'a" where
  "at_part f ms = (\<lambda>(a, t). f (ms_states ms a) t)"

definition ms_txn :: "memory_storage \<Rightarrow> (part_txn, memory_cursor) backend_txn" where
  "ms_txn ms =
     \<lparr>bk_begin_request = on_part (\<lambda>s. mt_begin_request) ms,
      bk_commit_request = on_part (\<lambda>s. mt_commit_request) ms,
      bk_rollback_request = on_part (\<lambda>s. mt_rollback_request) ms,
      bk_set_version = (\<lambda>p v. on_part (\<lambda>s t. mt_set_version t v) ms p),
      bk_create_store = (\<lambda>p spec. on_part (\<lambda>s t. mt_create_store t spec) ms p),
      bk_delete_store = (\<lambda>p store. on_part (\<lambda>s t. mt_delete_store t store) ms p),
      bk_rename_store = (\<lambda>p store name. on_part (\<lambda>s t. mt_rename_store t store name) ms p),
      bk_create_index = (\<lambda>p store spec. on_part (\<lambda>s t. mt_create_index t store spec) ms p),
      bk_delete_index = (\<lambda>p store x. on_part (\<lambda>s t. mt_delete_index t store x) ms p),
      bk_rename_index = (\<lambda>p store x name. on_part (\<lambda>s t. mt_rename_index t store x name) ms p),
      bk_put = (\<lambda>p store k v no. on_part (\<lambda>s t. mt_put s t store k v no) ms p),
      bk_get = (\<lambda>p store k. at_part (\<lambda>s t. mt_get s t store k) ms p),
      bk_delete_record = (\<lambda>p store k. on_part (\<lambda>s t. mt_delete_record s t store k) ms p),
      bk_delete_range = (\<lambda>p store rng. on_part (\<lambda>s t. mt_delete_range s t store rng) ms p),
      bk_clear = (\<lambda>p store. on_part (\<lambda>s t. mt_clear s t store) ms p),
      bk_count = (\<lambda>p src rng. at_part (\<lambda>s t. mt_count s t src rng) ms p),
      bk_scan = (\<lambda>p src rng dir key_only. at_part (\<lambda>s t. mt_scan t src rng dir key_only) ms p),
      bk_key_gen_current = (\<lambda>p store. at_part (\<lambda>s t. Inr (mt_key_gen_current s t store)) ms p),
      bk_key_gen_set = (\<lambda>p store x. on_part (\<lambda>s t. mt_key_gen_set s t store x) ms p),
      bk_index_put = (\<lambda>p x ik pk unique. on_part (\<lambda>s t. mt_index_put s t x ik pk unique) ms p),
      bk_index_delete = (\<lambda>p x ik pk. on_part (\<lambda>s t. mt_index_delete t x ik pk) ms p),
      bk_index_delete_by_primary = (\<lambda>p x pk. on_part (\<lambda>s t. mt_index_delete_by_primary s t x pk) ms p),
      bk_seek = (\<lambda>p sk. at_part (\<lambda>s t. mc_seek s t sk) ms p),
      bk_step = (\<lambda>p n. at_part (\<lambda>s t. mc_step s t n) ms p),
      bk_current_key = mc_current_key, bk_current_primary_key = mc_current_primary_key,
      bk_current_value = mc_current_value\<rparr>"

definition mem_storage :: "(memory_storage, memory_database, part_txn, memory_cursor) storage_ops" where
  "mem_storage =
     \<lparr>so_open_database = ms_open_database, so_delete_database = ms_delete_database, so_metadata = fst,
      so_begin = ms_begin, so_txn = ms_txn, so_commit = ms_commit, so_abort = ms_abort\<rparr>"

end
