(* ===== verification/Driver_Life.thy ===== *)
theory Driver_Life
  imports Driver_Registry Driver_Open_Order Memory_Storage
begin

text \<open>
  What the life of transactions promises: transactions with a backend do not conflict, the ones that
  are done are committed in the order they were created, and what an abort takes away. The in-memory
  storage instantiates the interface.
\<close>

section \<open>Finishing\<close>

lemma find_filter:
  "find P xs = Some x \<Longrightarrow> distinct xs \<Longrightarrow> filter P xs = x # filter (\<lambda>y. P y \<and> y \<noteq> x) xs"
proof (induction xs)
  case (Cons y ys)
  show ?case
  proof (cases "P y")
    case True
    then have "x = y" using Cons.prems(1) by simp
    moreover have "filter P ys = filter (\<lambda>z. P z \<and> z \<noteq> y) ys"
      using Cons.prems(2) by (intro filter_cong) auto
    ultimately show ?thesis using True by simp
  qed (use Cons in auto)
qed simp

lemma finishable_removed:
  "finishable (rt_driver (forget_txn i (remove_handle i r))) = (\<lambda>j. finishable (rt_driver r) j \<and> j \<noteq> i)"
  by (auto simp: fun_eq_iff finishable_def drained_def split: option.splits)

definition finish_order :: "('t, 'b) driver \<Rightarrow> txn_id list" where
  "finish_order d = filter (finishable d) [0 ..< dr_next_txn_id d]"

lemma finish_txns_spec:
  "finish_txns S (r, e) = (out, r', e') \<Longrightarrow>
     out = map TxnCompleted (finish_order (rt_driver r)) \<and>
     e' = fold (\<lambda>i. commit_backend S (the (handle_of r i))) (finish_order (rt_driver r)) e \<and>
     next_finishable (rt_driver r') = None \<and> dr_next_txn_id (rt_driver r') = dr_next_txn_id (rt_driver r) \<and>
     handle_of r' = (\<lambda>j. if j \<in> set (finish_order (rt_driver r)) then None else handle_of r j)"
proof (induction S "(r, e)" arbitrary: r e out r' e' rule: finish_txns.induct)
  case (1 S r e)
  show ?case
  proof (cases "next_finishable (rt_driver r)")
    case None
    then have "finish_order (rt_driver r) = []"
      by (auto simp: next_finishable_def finish_order_def find_None_iff filter_empty_conv)
    then show ?thesis using 1(2) None by (auto simp: finish_txns.simps [of S r])
  next
    case (Some i)
    then obtain h where h: "handle_of r i = Some h"
      using next_finishable_handle [OF Some] by (auto simp: handle_of_def)
    let ?r = "forget_txn i (remove_handle i r)" and ?e = "commit_backend S h e"
    obtain outs r1 e1 where rest: "finish_txns S (?r, ?e) = (outs, r1, e1)" by (metis prod.exhaust)
    have all: "out = TxnCompleted i # outs" "r' = r1" "e' = e1"
      using 1(2) Some h rest by (auto simp: finish_txns.simps [of S r] finish_txn_def)
    have order: "finish_order (rt_driver r) = i # finish_order (rt_driver ?r)"
      using find_filter [of "finishable (rt_driver r)" "[0 ..< dr_next_txn_id (rt_driver r)]" i] Some
      by (simp add: finish_order_def next_finishable_def finishable_removed)
    moreover have "outs = map TxnCompleted (finish_order (rt_driver ?r)) \<and>
        e1 = fold (\<lambda>j. commit_backend S (the (handle_of ?r j))) (finish_order (rt_driver ?r)) ?e \<and>
        next_finishable (rt_driver r1) = None \<and> dr_next_txn_id (rt_driver r1) = dr_next_txn_id (rt_driver ?r) \<and>
        handle_of r1 = (\<lambda>j. if j \<in> set (finish_order (rt_driver ?r)) then None else handle_of ?r j)"
      using 1(1) [OF Some h _ _ rest] by (simp add: finish_txn_def)
    moreover have other: "handle_of ?r = (handle_of r)(i := None)" by (simp add: handle_of_def fun_eq_iff)
    moreover have "fold (\<lambda>j. commit_backend S (the (handle_of ?r j))) (finish_order (rt_driver ?r)) ?e =
        fold (\<lambda>j. commit_backend S (the (handle_of r j))) (finish_order (rt_driver ?r)) ?e"
    proof (rule fold_cong)
      fix j assume "j \<in> set (finish_order (rt_driver ?r))"
      then have "j \<noteq> i" by (simp add: finish_order_def finishable_removed)
      then show "commit_backend S (the (handle_of ?r j)) = commit_backend S (the (handle_of r j))"
        unfolding other by simp
    qed simp_all
    ultimately show ?thesis using all h by auto
  qed
qed

lemma compatible_pair:
  assumes "compatible ts" "a \<in> set ts" "b \<in> set ts" "a \<noteq> b"
  shows "\<not> conflicts a b"
proof -
  obtain xs ys where ts: "ts = xs @ a # ys" using assms(2) by (meson split_list)
  then show ?thesis using assms by (auto simp: compatible_append) (auto simp: compatible_def conflicts_sym)
qed

section \<open>A storage with one database\<close>

definition demo_meta :: "u64 \<Rightarrow> database_meta" where
  "demo_meta v = \<lparr>db_name = [100], db_version = v, db_stores =
     [\<lparr>st_id = 2, st_name = [115], st_key_path = PathEmpty, st_auto_increment = False, st_key_gen = f64_of_int 1,
       st_indexes = [], st_deleted = False\<rparr>,
      \<lparr>st_id = 3, st_name = [116], st_key_path = PathEmpty, st_auto_increment = False, st_key_gen = f64_of_int 1,
       st_indexes = [], st_deleted = False\<rparr>],
     db_next_store_id = 4, db_next_index_id = 1\<rparr>"

definition demo_storage :: memory_storage where
  "demo_storage = \<lparr>ms_parts = [[100] \<mapsto> 0],
     ms_states = (\<lambda>_. storage_default\<lparr>databases := [[100] \<mapsto> demo_meta 1]\<rparr>), ms_fresh = 1\<rparr>"

lemma open_demo: "ms_open_database demo_storage [100] = (Inr (demo_meta 1, 0), demo_storage)"
  by (simp add: ms_open_database_def part_of_def demo_storage_def set_state_def storage_default_def Let_def fun_upd_idem)

text \<open>Two transactions on different stores, created, released and begun.\<close>

definition demo_handle :: "txn_id \<Rightarrow> store_id \<Rightarrow> part_txn option \<Rightarrow> part_txn txn_handle" where
  "demo_handle i store = (\<lambda>t. new_handle i 7 [100] ReadWrite [store] DurDefault (demo_meta 1) t 0)"

definition demo_begun :: "store_id \<Rightarrow> part_txn" where
  "demo_begun store = (0, mt_new ReadWrite [store] (demo_meta 1))"

definition demo_item :: "txn_id \<Rightarrow> store_id \<Rightarrow> txn_queue_item" where
  "demo_item i store = \<lparr>tq_id = i, tq_mode = ReadWrite, tq_scope = [store]\<rparr>"

definition demo_runtime ::
    "(txn_id \<rightharpoonup> part_txn txn_handle) \<Rightarrow> nat \<Rightarrow> txn_queue_item list \<Rightarrow> txn_queue_item list \<Rightarrow> (part_txn, int) runtime" where
  "demo_runtime handles n pending running =
     runtime_new\<lparr>rt_driver := (rt_driver runtime_new)\<lparr>dr_txns := handles, dr_next_txn_id := n\<rparr>,
       rt_scheduler := \<lparr>pending_queue = pending, running_txns = running\<rparr>\<rparr>"

lemma demo_create:
  assumes "store \<in> {2, 3}"
  shows "create_txn mem_storage 7 [100] ReadWrite [store] DurDefault (demo_runtime m n p q, demo_storage) =
    (Inr n, demo_runtime (m(n \<mapsto> demo_handle n store None)) (n + 1) (p @ [demo_item n store]) q, demo_storage)"
  using assms
  by (auto simp: create_txn_def alloc_txn_def demo_runtime_def runtime_new_def open_db_handle_def mem_storage_def open_demo
      on_err_def register_txn_def Scheduler.enqueue_def demo_item_def demo_handle_def new_handle_def Let_def
      demo_meta_def)

lemma demo_start:
  assumes "m i = Some (demo_handle i store None)"
  shows "start_txn mem_storage i (demo_runtime m n p q, demo_storage) =
    (Began, [], demo_runtime (m(i \<mapsto> demo_handle i store (Some (demo_begun store)))) n p q, demo_storage)"
  using assms
  by (simp add: start_txn_def handle_of_def demo_runtime_def runtime_new_def demo_handle_def new_handle_def
      begin_backend_def mem_storage_def open_demo ms_begin_def demo_begun_def on_driver_def with_handle_def)

definition demo_txns :: "txn_id \<rightharpoonup> part_txn txn_handle" where
  "demo_txns = [0 \<mapsto> demo_handle 0 2 (Some (demo_begun 2)), 1 \<mapsto> demo_handle 1 3 (Some (demo_begun 3))]"

lemma demo_poll: "poll_scheduler (demo_runtime m n [demo_item 0 2, demo_item 1 3] []) =
    ([0, 1], demo_runtime m n [] [demo_item 0 2, demo_item 1 3])"
proof -
  have "poll_split [] [demo_item 0 2, demo_item 1 3] = ([demo_item 0 2, demo_item 1 3], [])"
    by (simp add: conflicts_def demo_item_def)
  then show ?thesis
    by (simp add: poll_scheduler_def demo_runtime_def poll_ready_split) (simp add: demo_item_def)
qed

text \<open>The states on the way.\<close>

abbreviation demo_state where
  "demo_state m n p q \<equiv> (demo_runtime m n p q, demo_storage)"

definition demo_made :: "txn_id \<rightharpoonup> part_txn txn_handle" where
  "demo_made = [0 \<mapsto> demo_handle 0 2 None, 1 \<mapsto> demo_handle 1 3 None]"

lemma demo_create_step:
  assumes "store \<in> {2, 3}"
  shows "life_step mem_storage lim Bg (demo_state m n p q)
    (demo_state (m(n \<mapsto> demo_handle n store None)) (n + 1) (p @ [demo_item n store]) q)"
  using life_create [of mem_storage lim Bg "demo_state m n p q" 7 "[100]" ReadWrite "[store]" DurDefault]
  by (simp only: demo_create [OF assms] snd_conv)

lemma demo_poll_step:
  "life_step mem_storage lim Bg (demo_state m n [demo_item 0 2, demo_item 1 3] [])
     (demo_state m n [] [demo_item 0 2, demo_item 1 3])"
  using life_poll [of mem_storage lim Bg "demo_runtime m n [demo_item 0 2, demo_item 1 3] []" demo_storage]
  by (simp only: demo_poll snd_conv)

lemma demo_start_step:
  assumes "m i = Some (demo_handle i store None)" "i \<in> tq_id ` set q"
  shows "life_step mem_storage lim Bg (demo_state m n p q)
    (demo_state (m(i \<mapsto> demo_handle i store (Some (demo_begun store)))) n p q)"
proof -
  have "rt_scheduler (demo_runtime m n p q) = \<lparr>pending_queue = p, running_txns = q\<rparr>"
    by (simp add: demo_runtime_def)
  then show ?thesis
    using life_start [of i "demo_runtime m n p q" mem_storage lim Bg demo_storage] assms(2)
    by (simp only: demo_start [of m i store n p q, OF assms(1)] snd_conv scheduler.simps)
qed

lemma demo_reachable:
  "life_reachable mem_storage lim Bg demo_storage (demo_state demo_txns 2 [] [demo_item 0 2, demo_item 1 3])"
proof -
  let ?step = "life_step mem_storage lim Bg" and ?q = "[demo_item 0 2, demo_item 1 3]"
  have 1: "?step (demo_state Map.empty 0 [] []) (demo_state [0 \<mapsto> demo_handle 0 2 None] 1 [demo_item 0 2] [])"
    using demo_create_step [of 2 lim Bg Map.empty 0 "[]" "[]"] by simp
  have "(1 :: nat) + 1 = 2" by simp
  then have 2: "?step (demo_state [0 \<mapsto> demo_handle 0 2 None] 1 [demo_item 0 2] []) (demo_state demo_made 2 ?q [])"
    using demo_create_step [of 3 lim Bg "[0 \<mapsto> demo_handle 0 2 None]" 1 "[demo_item 0 2]" "[]"]
    by (simp only: demo_made_def insert_iff append.simps simp_thms)
  have 4: "?step (demo_state demo_made 2 [] ?q)
      (demo_state (demo_made(0 \<mapsto> demo_handle 0 2 (Some (demo_begun 2)))) 2 [] ?q)"
    by (rule demo_start_step) (simp_all add: demo_made_def demo_item_def)
  have "demo_txns = demo_made(0 \<mapsto> demo_handle 0 2 (Some (demo_begun 2)), 1 \<mapsto> demo_handle 1 3 (Some (demo_begun 3)))"
    by (simp add: demo_txns_def demo_made_def fun_eq_iff)
  then have 5: "?step (demo_state (demo_made(0 \<mapsto> demo_handle 0 2 (Some (demo_begun 2)))) 2 [] ?q)
      (demo_state demo_txns 2 [] ?q)"
    using demo_start_step [of "demo_made(0 \<mapsto> demo_handle 0 2 (Some (demo_begun 2)))" 1 3 ?q lim Bg 2 "[]"]
    by (simp add: demo_made_def demo_item_def)
  have "demo_state Map.empty 0 [] [] = (runtime_new, demo_storage)"
    by (simp add: demo_runtime_def runtime_new_def sched_new_def)
  moreover have "?step\<^sup>*\<^sup>* (demo_state Map.empty 0 [] []) (demo_state demo_txns 2 [] ?q)"
    by (rule converse_rtranclp_into_rtranclp [of ?step, OF 1], rule converse_rtranclp_into_rtranclp [of ?step, OF 2],
        rule converse_rtranclp_into_rtranclp [of ?step, OF demo_poll_step], rule converse_rtranclp_into_rtranclp [of ?step, OF 4],
        rule r_into_rtranclp [of ?step, OF 5])
  ultimately show ?thesis by simp
qed

section \<open>Properties\<close>

text \<open>C3. Transactions that run do not conflict. In every state the driver and the scripts can reach, over
  any storage, two transactions whose backends have been begun and that are no upgrades share no store
  unless both only read.\<close>

theorem begun_never_conflict:
  assumes "life_reachable S lim Bg e0 (r, e)"
    "handle_of r i = Some h" "th_backend h \<noteq> None" "th_mode h \<noteq> VersionChange"
    "handle_of r j = Some h'" "th_backend h' \<noteq> None" "th_mode h' \<noteq> VersionChange" "i \<noteq> j"
  shows "th_mode h = ReadOnly \<and> th_mode h' = ReadOnly \<or> set (th_scope h) \<inter> set (th_scope h') = {}"
proof -
  have "registry r" using registry_reachable [OF assms(1)] by simp
  then have "compatible (running_txns (rt_scheduler r))"
    "item_of i h \<in> set (running_txns (rt_scheduler r))" "item_of j h' \<in> set (running_txns (rt_scheduler r))"
    using assms(2-7) by (auto simp: registry_def registered_def)
  moreover have "item_of i h \<noteq> item_of j h'" using assms(8) by (simp add: item_of_def)
  ultimately have "\<not> conflicts (item_of i h) (item_of j h')"
    by (metis compatible_pair)
  then show ?thesis by (auto simp: conflicts_iff)
qed

theorem begun_never_conflict_witness:
  "set (th_scope (demo_handle 0 2 (Some (demo_begun 2)))) \<inter> set (th_scope (demo_handle 1 3 (Some (demo_begun 3)))) = {}"
proof -
  let ?r = "demo_runtime demo_txns 2 [] [demo_item 0 2, demo_item 1 3]"
  have h: "handle_of ?r 0 = Some (demo_handle 0 2 (Some (demo_begun 2)))"
    "handle_of ?r 1 = Some (demo_handle 1 3 (Some (demo_begun 3)))"
    by (simp_all add: handle_of_def demo_runtime_def runtime_new_def demo_txns_def)
  show ?thesis
    using begun_never_conflict [OF demo_reachable h(1) _ _ h(2)]
    by (simp add: demo_handle_def new_handle_def)
qed

text \<open>C25. Transactions that are done are committed in the order they were created. One round takes
  exactly the ones that are idle or were told to commit and have no request left; the storage has then been
  through their commits, in that order and through nothing else; each is told it is
  complete, none is left over, and no other transaction is touched. The events do not depend on what the
  storage answered: a commit that failed is reported as complete too.\<close>

theorem finish_txns_commits:
  "case finish_txns S (r, e) of (out, r', e') \<Rightarrow>
     out = map TxnCompleted (filter (finishable (rt_driver r)) [0 ..< dr_next_txn_id (rt_driver r)]) \<and>
     e' = fold (\<lambda>i. case handle_of r i of None \<Rightarrow> id | Some h \<Rightarrow> commit_backend S h)
            (filter (finishable (rt_driver r)) [0 ..< dr_next_txn_id (rt_driver r)]) e \<and>
     next_finishable (rt_driver r') = None \<and>
     handle_of r' = (\<lambda>i. if i < dr_next_txn_id (rt_driver r) \<and> finishable (rt_driver r) i then None else handle_of r i)"
proof -
  obtain out r' e' where f: "finish_txns S (r, e) = (out, r', e')" by (metis prod.exhaust)
  have "fold (\<lambda>i. commit_backend S (the (handle_of r i))) (finish_order (rt_driver r)) e =
      fold (\<lambda>i. case handle_of r i of None \<Rightarrow> id | Some h \<Rightarrow> commit_backend S h) (finish_order (rt_driver r)) e"
    by (rule fold_cong) (auto simp: finish_order_def finishable_def handle_of_def split: option.splits)
  then show ?thesis using finish_txns_spec [OF f] by (auto simp: f finish_order_def fun_eq_iff)
qed

text \<open>C26. What an abort does to the requests of a transaction. The transaction is forgotten by the scheduler
  and by the driver and told it was aborted, its backend is abandoned, but its queue is emptied before
  the queued requests are failed: none of them is told anything, and their operations stay behind.\<close>

theorem abort_drops_requests:
  assumes "handle_of r i = Some h"
  shows "case abort_transaction S i notify (r, e) of (out, r', e') \<Rightarrow>
     out = [TxnAborted i] \<and> e' = abort_backend S h e \<and> handle_of r' i = None \<and>
     i \<notin> tq_id ` set (known (rt_scheduler r')) \<and> dr_txn_queues (rt_driver r') i = None \<and>
     dr_ops (rt_driver r') = dr_ops (rt_driver r)"
  using assms
  by (auto simp: abort_transaction_def fail_queued_requests_def handle_of_def known_forget Let_def)

theorem abort_drops_requests_witness:
  "fst (abort_transaction mem_storage 0 True (on_driver (Driver_State.enqueue 0 5 (OpClear 2))
     (demo_runtime demo_txns 2 [] []), demo_storage)) = [TxnAborted 0]"
proof -
  have "handle_of (on_driver (Driver_State.enqueue 0 5 (OpClear 2)) (demo_runtime demo_txns 2 [] [])) 0 =
      Some (demo_handle 0 2 (Some (demo_begun 2)))"
    by (simp add: handle_of_def on_driver_def Driver_State.enqueue_def demo_runtime_def demo_txns_def)
  from abort_drops_requests [OF this, where S = mem_storage and notify = True and e = demo_storage] show ?thesis by (auto split: prod.splits)
qed

text \<open>C4. The driver answers the open requests of a database in their order and with the answer that
  fits. In every reachable state a step is about the first request of its database that waits: a
  connection is only opened for an open request of that version or of any version, an upgrade only starts
  strictly upwards to the version asked for, and an upgrade or a delete only while no counted connection
  is live; only an upgrade whose requests are all done is finished.\<close>

theorem open_step_sound:
  assumes "open_reachable S (r, e)" "next_open_step S (r, e) = (Some st, r', e')"
  shows "case st of
      StepFinish p i \<Rightarrow> p \<in> set (rt_opens r) \<and> po_upgrade_active p \<and> po_upgrade_txn_id p = Some i \<and>
        drained (rt_driver r) i
    | StepBlocked p \<Rightarrow> first_waiting (rt_opens r) p \<and> live_connection_count r (po_name p) \<noteq> 0
    | StepConnection p v \<Rightarrow> first_waiting (rt_opens r) p \<and> po_kind p = KindOpen \<and> (po_version p = 0 \<or> po_version p = v)
    | StepFail p f \<Rightarrow> first_waiting (rt_opens r) p \<and> po_kind p = KindOpen \<and> f = IdbVersion
    | StepUpgrade p old v \<Rightarrow> first_waiting (rt_opens r) p \<and> po_kind p = KindOpen \<and> old < v \<and>
        (po_version p = v \<or> po_version p = 0 \<and> old = 0 \<and> v = 1) \<and> live_connection_count r (po_name p) = 0
    | StepDelete p \<Rightarrow> first_waiting (rt_opens r) p \<and> po_kind p = KindDelete \<and>
        live_connection_count r (po_name p) = 0"
proof -
  have "open_inv r" using open_reachable_inv [OF assms(1)] by simp
  from next_open_result [OF this assms(2)] show ?thesis
    by (cases st) (auto simp: step_found_def step_ok_def)
qed

definition demo_opens :: "(part_txn, int) runtime" where
  "demo_opens = enqueue_request (new_open KindOpen [100] 2 7 5) runtime_new"

lemma demo_open_reachable: "open_reachable mem_storage (demo_opens, demo_storage)"
  unfolding demo_opens_def
  by (rule open_request, rule open_start) (simp_all add: runtime_new_def)

lemma demo_next_open:
  "\<exists>p r e. next_open_step mem_storage (demo_opens, demo_storage) = (Some (StepUpgrade p 1 2), r, e)"
proof -
  have v: "engine_version mem_storage [100] demo_storage = (Inr 1, demo_storage)"
    by (simp add: engine_version_def open_db_handle_def mem_storage_def open_demo on_err_def demo_meta_def)
  show ?thesis
    by (simp add: next_open_step_def demo_opens_def enqueue_request_def new_open_def runtime_new_def waiting_ids_def
        visit_open_def queue_of_def v register_open_def enqueue_open_def queue_step_def oq_new_def
        set_blocking_connections_def process_next_def target_version_def live_connection_count_def cmp_def Let_def)
qed

theorem open_step_sound_witness:
  "\<exists>p. first_waiting (rt_opens demo_opens) p \<and> po_version p = 2 \<and> live_connection_count demo_opens (po_name p) = 0"
proof -
  obtain p r e where "next_open_step mem_storage (demo_opens, demo_storage) = (Some (StepUpgrade p 1 2), r, e)"
    using demo_next_open by blast
  from open_step_sound [OF demo_open_reachable this] show ?thesis by auto
qed

text \<open>A connection that is opened as it is counts until it is closed, one that is opened by an upgrade
  is never counted: the request succeeds, and the next upgrade or delete of the database is not blocked
  by it.\<close>

theorem upgraded_connection_uncounted:
  "case finish_upgrade S False p i (r, e) of (out, r', e') \<Rightarrow>
     out = [TxnCompleted i, OpenSucceeded (po_request_id p)] \<and> rt_connections r' = rt_connections r \<and>
     live_connection_count r' (po_name p) = live_connection_count r (po_name p)"
  by (simp add: finish_upgrade_def live_connection_count_def edit_queue_def drop_open_def forget_txn_def
      remove_handle_def on_driver_def split: option.split)

end
