(* ===== verification/Driver_Snapshot.thy ===== *)
theory Driver_Snapshot
  imports Driver_Life
begin

text \<open>
  What the metadata of a database is after a commit over the in-memory storage: a transaction that is no
  upgrade writes back the metadata it was begun with, whatever has been committed meanwhile.
\<close>

section \<open>Calls between the begin and the commit\<close>

text \<open>A call on the backend of a transaction. The storage is the one of the moment, for other transactions and
  upgrades commit in between.\<close>

inductive part_call :: "part_txn \<Rightarrow> part_txn \<Rightarrow> bool" where
  "bk_op (ms_txn e) p p' \<Longrightarrow> part_call p p'"
| "part_call p (snd (bk_begin_request (ms_txn e) p))"
| "part_call p (snd (bk_commit_request (ms_txn e) p))"
| "part_call p (snd (bk_rollback_request (ms_txn e) p))"
| "part_call p (snd (bk_set_version (ms_txn e) p v))"
| "part_call p (snd (bk_create_store (ms_txn e) p spec))"
| "part_call p (snd (bk_delete_store (ms_txn e) p store))"
| "part_call p (snd (bk_rename_store (ms_txn e) p store name))"
| "part_call p (snd (bk_create_index (ms_txn e) p store ispec))"
| "part_call p (snd (bk_delete_index (ms_txn e) p store x))"
| "part_call p (snd (bk_rename_index (ms_txn e) p store x name))"

text \<open>Only an upgrade changes the metadata of its transaction.\<close>

definition same_schema :: "memory_txn \<Rightarrow> memory_txn \<Rightarrow> bool" where
  "same_schema t t' \<longleftrightarrow> mt_mode t' = mt_mode t \<and> mt_meta t' = mt_meta t"

lemma same_schema_pending [simp]:
  "same_schema u (set_pending k v t) = same_schema u t"
  "same_schema u (set_pending_index x b t) = same_schema u t"
  "same_schema u (push_undo q t) = same_schema u t"
  "same_schema u (undo_one q t) = same_schema u t"
  by (cases q; simp add: same_schema_def set_pending_def set_pending_index_def push_undo_def Let_def split: pending_slot.split option.split)+

lemma same_schema_update [simp]:
  "same_schema u (t\<lparr>pending_records := m\<rparr>) = same_schema u t"
  "same_schema u (t\<lparr>pending_key_generators := g\<rparr>) = same_schema u t"
  "same_schema u (t\<lparr>undo_stack := q\<rparr>) = same_schema u t"
  "same_schema u u"
  by (simp_all add: same_schema_def)

lemma same_schema_fold [simp]:
  "same_schema u (fold (\<lambda>k. set_pending k v) ks t) = same_schema u t"
  "same_schema u (fold (\<lambda>ik. set_pending_index (x, ik, pk) b) iks t) = same_schema u t"
  "same_schema u (fold undo_one qs t) = same_schema u t"
  "same_schema u (snd (fold (delete_committed s) ks acc)) = same_schema u (snd acc)"
  "same_schema u (snd (fold (delete_pending ks') ks acc)) = same_schema u (snd acc)"
proof -
  show "same_schema u (fold (\<lambda>k. set_pending k v) ks t) = same_schema u t"
    by (induction ks arbitrary: t) simp_all
  show "same_schema u (fold (\<lambda>ik. set_pending_index (x, ik, pk) b) iks t) = same_schema u t"
    by (induction iks arbitrary: t) simp_all
  show "same_schema u (fold undo_one qs t) = same_schema u t"
    by (induction qs arbitrary: t) simp_all
  show "same_schema u (snd (fold (delete_committed s) ks acc)) = same_schema u (snd acc)"
    by (induction ks arbitrary: acc) (simp_all add: delete_committed_def split: prod.split)
  show "same_schema u (snd (fold (delete_pending ks') ks acc)) = same_schema u (snd acc)"
    by (induction ks arbitrary: acc) (auto simp: delete_pending_def Let_def split: prod.split option.split)
qed

lemma same_schema_data:
  "same_schema t (snd (mt_begin_request t))" "same_schema t (snd (mt_commit_request t))"
  "same_schema t (snd (mt_rollback_request t))" "same_schema t (snd (mt_put s t store k v no))"
  "same_schema t (snd (mt_delete_record s t store k))" "same_schema t (snd (mt_delete_range s t store rng))"
  "same_schema t (snd (mt_clear s t store))" "same_schema t (snd (mt_key_gen_set s t store g))"
  "same_schema t (snd (mt_index_put s t x ik pk unique))" "same_schema t (snd (mt_index_delete t x ik pk))"
  "same_schema t (snd (mt_index_delete_by_primary s t x pk))"
  by (simp_all add: mt_begin_request_def mt_commit_request_def mt_rollback_request_def mt_put_def
      mt_delete_record_def mt_delete_range_def mt_clear_def mt_key_gen_set_def mt_index_put_def
      mt_index_delete_def mt_index_delete_by_primary_def Let_def case_prod_beta split: sum.split)

lemma same_schema_no_upgrade:
  assumes "mt_mode t \<noteq> VersionChange"
  shows "mt_set_version t v = (Inl BeInternal, t)" "mt_create_store t spec = (Inl BeInternal, t)"
    "mt_delete_store t store = (Inl BeInternal, t)" "mt_rename_store t store name = (Inl BeInternal, t)"
    "mt_create_index t store ispec = (Inl BeInternal, t)" "mt_delete_index t store x = (Inl BeInternal, t)"
    "mt_rename_index t store x name = (Inl BeInternal, t)"
  using assms
  by (simp_all add: mt_set_version_def mt_create_store_def mt_delete_store_def mt_rename_store_def
      mt_create_index_def mt_delete_index_def mt_rename_index_def)

definition kept_snapshot :: "part_txn \<Rightarrow> part_txn \<Rightarrow> bool" where
  "kept_snapshot p p' \<longleftrightarrow> fst p' = fst p \<and> same_schema (snd p) (snd p')"

lemma bk_op_kept:
  assumes "bk_op (ms_txn e) p p'"
  shows "kept_snapshot p p'"
  using assms
  by cases (simp_all add: kept_snapshot_def ms_txn_def on_part_def same_schema_data case_prod_beta)

lemma part_call_kept:
  assumes "part_call p p'" "mt_mode (snd p) \<noteq> VersionChange"
  shows "kept_snapshot p p'"
  using assms
proof cases
  case (1 e)
  then show ?thesis by (auto intro: bk_op_kept)
qed (simp_all add: kept_snapshot_def ms_txn_def on_part_def same_schema_data same_schema_no_upgrade case_prod_beta)

lemma part_calls_kept:
  assumes "part_call\<^sup>*\<^sup>* p p'" "mt_mode (snd p) \<noteq> VersionChange"
  shows "kept_snapshot p p'"
  using assms(1)
proof induction
  case (step q r)
  then have "mt_mode (snd q) \<noteq> VersionChange" using assms(2) by (simp add: kept_snapshot_def same_schema_def)
  from part_call_kept [OF step.hyps(2) this] step.IH show ?case by (simp add: kept_snapshot_def same_schema_def)
qed (simp add: kept_snapshot_def)

text \<open>The stores a handle has marked for deletion are those of an upgrade.\<close>

lemma deletes_refused:
  assumes "mt_mode t \<noteq> VersionChange"
  shows "fold (\<lambda>store p. snd (bk_delete_store (ms_txn e) p store)) stores (a, t) = (a, t)"
  using assms by (induction stores) (simp_all add: ms_txn_def on_part_def same_schema_no_upgrade)

section \<open>Property\<close>

text \<open>C24. The commit of a transaction that is no upgrade puts back the metadata it was begun with. Whatever was
  called on its backend since, with whatever else committed before, between and after these calls, the
  database then has the version and the stores of the moment the transaction began, as long as it has
  not been deleted: an upgrade that was committed meanwhile is undone.\<close>

theorem commit_installs_snapshot:
  assumes "ms_begin (meta, a) mode scope dur e0 = (Inr p0, e1)" "mode \<noteq> VersionChange"
    and "part_call\<^sup>*\<^sup>* p0 p" "th_backend h = Some p" "ms_parts e (db_name meta) = Some a"
  shows "fst (ms_open_database (commit_backend mem_storage h e) (db_name meta)) = Inr (meta, a)"
proof -
  have p0: "p0 = (a, mt_new mode scope meta)" using assms(1) by (simp add: ms_begin_def)
  then have "kept_snapshot p0 p" using part_calls_kept [OF assms(3)] assms(2) by (simp add: mt_new_def)
  then obtain t where p: "p = (a, t)" "mt_meta t = meta" "mt_mode t = mode"
    by (cases p) (simp add: kept_snapshot_def same_schema_def p0 mt_new_def)
  have "commit_backend mem_storage h e = snd (ms_commit (a, t) e)"
    using assms(4) deletes_refused [of t e "th_deleted_store_ids h" a] assms(2) p
    by (simp add: commit_backend_def mem_storage_def)
  then show ?thesis
    using assms(5) p(2) by (simp add: ms_commit_def ms_open_database_def part_of_def set_state_def mt_commit_def Let_def)
qed

text \<open>A writer began at version 1 and stored a record, then an upgrade committed version 2, then the writer
  commits: the database is at version 1 again.\<close>

theorem commit_installs_snapshot_witness:
  "let began = (0, mt_new ReadWrite [2] (demo_meta 1));
       writer = snd (bk_put (ms_txn demo_storage) began 2 [5] [6] False);
       upgraded = snd (ms_commit (0, mt_new VersionChange [] (demo_meta 2)) demo_storage);
       h = new_handle 0 7 [100] ReadWrite [2] DurDefault (demo_meta 1) (Some writer) 0
   in fst (ms_open_database upgraded [100]) = Inr (demo_meta 2, 0) \<and>
      fst (ms_open_database (commit_backend mem_storage h upgraded) [100]) = Inr (demo_meta 1, 0)"
proof -
  let ?began = "(0, mt_new ReadWrite [2] (demo_meta 1))"
  let ?writer = "snd (bk_put (ms_txn demo_storage) ?began 2 [5] [6] False)"
  let ?upgraded = "snd (ms_commit (0, mt_new VersionChange [] (demo_meta 2)) demo_storage)"
  let ?h = "new_handle 0 7 [100] ReadWrite [2] DurDefault (demo_meta 1) (Some ?writer) 0"
  have parts: "ms_parts ?upgraded (db_name (demo_meta 1)) = Some 0"
    by (simp add: ms_commit_def set_state_def demo_storage_def demo_meta_def)
  have began: "ms_begin (demo_meta 1, 0) ReadWrite [2] DurDefault demo_storage = (Inr ?began, demo_storage)"
    by (simp add: ms_begin_def)
  have "part_call ?began ?writer" by (rule part_call.intros(1) [OF bk_op.intros(1)])
  then have "part_call\<^sup>*\<^sup>* ?began ?writer" by blast
  from commit_installs_snapshot [OF began _ this _ parts, of ?h]
  have "fst (ms_open_database (commit_backend mem_storage ?h ?upgraded) (db_name (demo_meta 1))) = Inr (demo_meta 1, 0)"
    by (simp add: new_handle_def)
  moreover have "fst (ms_open_database ?upgraded [100]) = Inr (demo_meta 2, 0)"
    using parts by (simp add: ms_open_database_def part_of_def demo_meta_def Let_def)
      (simp add: ms_commit_def set_state_def mt_commit_def demo_storage_def mt_new_def demo_meta_def)
  ultimately show ?thesis by (simp add: Let_def demo_meta_def)
qed

end
