(* ===== verification/Memory_Service.thy ===== *)
theory Memory_Service
  imports Driver_Life Scf_Format
begin

text \<open>
  Serving requests over the in-memory storage: a transaction that works on its part of the storage is a
  backend transaction with the same laws, so what was proved of requests over any backend holds for the
  requests the driver serves.
\<close>

section \<open>A part is a backend\<close>

definition part_view :: "memory_storage \<Rightarrow> part_txn \<Rightarrow> record_key \<rightharpoonup> bytes" where
  "part_view ms p = view (ms_states ms (fst p)) (snd p)"

definition part_index :: "memory_storage \<Rightarrow> part_txn \<Rightarrow> index_key set" where
  "part_index ms p = index_view (ms_states ms (fst p)) (snd p)"

definition part_gen :: "memory_storage \<Rightarrow> part_txn \<Rightarrow> store_id \<Rightarrow> f64" where
  "part_gen ms p = mt_key_gen_current (ms_states ms (fst p)) (snd p)"

definition own_backend :: "memory_storage \<Rightarrow> part_txn \<Rightarrow> (memory_txn, memory_cursor) backend_txn" where
  "own_backend ms p = mem_backend (ms_states ms (fst p))"

text \<open>A call returns what the call of the part's own backend returns, and the same reference.\<close>

definition within_part :: "part_txn \<Rightarrow> 'a \<times> memory_txn \<Rightarrow> 'a \<times> part_txn" where
  "within_part p r = (fst r, fst p, snd r)"

lemma ms_txn_calls:
  "bk_begin_request (ms_txn ms) p = within_part p (bk_begin_request (own_backend ms p) (snd p))"
  "bk_commit_request (ms_txn ms) p = within_part p (bk_commit_request (own_backend ms p) (snd p))"
  "bk_rollback_request (ms_txn ms) p = within_part p (bk_rollback_request (own_backend ms p) (snd p))"
  "bk_put (ms_txn ms) p store k v no = within_part p (bk_put (own_backend ms p) (snd p) store k v no)"
  "bk_delete_record (ms_txn ms) p store k = within_part p (bk_delete_record (own_backend ms p) (snd p) store k)"
  "bk_delete_range (ms_txn ms) p store rng = within_part p (bk_delete_range (own_backend ms p) (snd p) store rng)"
  "bk_clear (ms_txn ms) p store = within_part p (bk_clear (own_backend ms p) (snd p) store)"
  "bk_key_gen_set (ms_txn ms) p store x = within_part p (bk_key_gen_set (own_backend ms p) (snd p) store x)"
  "bk_index_put (ms_txn ms) p i ik pk unique = within_part p (bk_index_put (own_backend ms p) (snd p) i ik pk unique)"
  "bk_index_delete (ms_txn ms) p i ik pk = within_part p (bk_index_delete (own_backend ms p) (snd p) i ik pk)"
  "bk_index_delete_by_primary (ms_txn ms) p i pk =
     within_part p (bk_index_delete_by_primary (own_backend ms p) (snd p) i pk)"
  by (simp_all add: ms_txn_def own_backend_def on_part_def within_part_def case_prod_beta)

lemma ms_txn_reads:
  "bk_get (ms_txn ms) p = bk_get (own_backend ms p) (snd p)"
  "bk_scan (ms_txn ms) p = bk_scan (own_backend ms p) (snd p)"
  "bk_seek (ms_txn ms) p = bk_seek (own_backend ms p) (snd p)"
  "bk_step (ms_txn ms) p = bk_step (own_backend ms p) (snd p)"
  "bk_current_key (ms_txn ms) = bk_current_key (own_backend ms p)"
  "bk_current_primary_key (ms_txn ms) = bk_current_primary_key (own_backend ms p)"
  "bk_current_value (ms_txn ms) = bk_current_value (own_backend ms p)"
  by (simp_all add: ms_txn_def own_backend_def at_part_def case_prod_beta fun_eq_iff)

lemma within_part_iff: "within_part p r = (x, p') \<longleftrightarrow> fst p' = fst p \<and> r = (x, snd p')"
  by (cases r; cases p') (auto simp: within_part_def)

lemma snd_within [simp]: "snd (within_part p r) = (fst p, snd r)"
  by (simp add: within_part_def)

lemma part_op:
  assumes "bk_op (ms_txn ms) p p'"
  shows "fst p' = fst p \<and> bk_op (own_backend ms p) (snd p) (snd p')"
  using assms by cases (simp_all only: ms_txn_calls snd_within fst_conv snd_conv bk_op.intros simp_thms)

lemma part_ops:
  assumes "bk_ops (ms_txn ms) p p'"
  shows "fst p' = fst p \<and> bk_ops (own_backend ms p) (snd p) (snd p')"
  using assms
proof (induction rule: rtranclp_induct)
  case (step p1 p2)
  moreover have "own_backend ms p1 = own_backend ms p" using step.IH by (simp add: own_backend_def)
  ultimately show ?case using part_op [OF step.hyps(2)] by (auto intro: rtranclp.rtrancl_into_rtrancl)
qed simp

lemma part_trail: "trail (own_backend ms p) (snd p) at cs \<Longrightarrow> trail (ms_txn ms) p at cs"
  by (induction rule: trail.induct) (auto intro: trail.intros simp: ms_txn_reads)

lemma part_walk: "walk_ends (own_backend ms p) (snd p) at \<Longrightarrow> walk_ends (ms_txn ms) p at"
  by (induction rule: walk_ends.induct) (auto intro: walk_ends.intros simp: ms_txn_reads)

lemmas part_defs = part_view_def part_index_def part_gen_def ms_txn_calls within_part_iff own_backend_def

interpretation part: storage_backend "ms_txn ms" "part_view ms" "part_index ms" "part_gen ms" for ms
proof
  fix p store k r
  assume "bk_get (ms_txn ms) p store k = Inr r"
  then show "r = part_view ms p (store, k)"
    using mem.get_law by (simp only: ms_txn_reads(1) part_view_def own_backend_def)
next
  fix p p' :: part_txn and store k v no and u :: unit
  assume "bk_put (ms_txn ms) p store k v no = (Inr u, p')"
  then show "part_view ms p' = (part_view ms p)((store, k) \<mapsto> v) \<and> part_index ms p' = part_index ms p \<and>
      part_gen ms p' = part_gen ms p"
    using mem.put_law by (simp only: part_defs) metis
next
  fix p p' :: part_txn and store rng n
  assume "bk_delete_range (ms_txn ms) p store rng = (Inr n, p')"
  then show "part_view ms p' = (\<lambda>k. if fst k = store \<and> contains rng (snd k) then None else part_view ms p k) \<and>
      part_index ms p' = part_index ms p \<and> part_gen ms p' = part_gen ms p"
    using mem.delete_range_law by (simp only: part_defs) metis
next
  fix p p' :: part_txn and store and u :: unit
  assume "bk_clear (ms_txn ms) p store = (Inr u, p')"
  then show "part_view ms p' = (\<lambda>k. if fst k = store then None else part_view ms p k) \<and>
      part_index ms p' = part_index ms p \<and> part_gen ms p' = part_gen ms p"
    using mem.clear_law by (simp only: part_defs) metis
next
  fix p p' :: part_txn and store x and u :: unit
  assume "bk_key_gen_set (ms_txn ms) p store x = (Inr u, p')"
  then show "part_view ms p' = part_view ms p \<and> part_index ms p' = part_index ms p \<and>
      part_gen ms p' = (part_gen ms p)(store := x)"
    using mem.key_gen_set_law by (simp only: part_defs) metis
next
  fix p p' :: part_txn and i ik pk unique and u :: unit
  assume "bk_index_put (ms_txn ms) p i ik pk unique = (Inr u, p')"
  then show "part_view ms p' = part_view ms p \<and> part_index ms p' = insert (i, ik, pk) (part_index ms p) \<and>
      part_gen ms p' = part_gen ms p \<and>
      (unique \<longrightarrow> (i, ik, pk) \<in> part_index ms p \<or> (\<forall>q. (i, ik, q) \<notin> part_index ms p))"
    using mem.index_put_law by (simp only: part_defs) metis
next
  fix p p' :: part_txn and i ik pk and u :: unit
  assume "bk_index_delete (ms_txn ms) p i ik pk = (Inr u, p')"
  then show "part_view ms p' = part_view ms p \<and> part_index ms p' = part_index ms p - {(i, ik, pk)} \<and>
      part_gen ms p' = part_gen ms p"
    using mem.index_delete_law by (simp only: part_defs) metis
next
  fix p p' :: part_txn and i pk and u :: unit
  assume "bk_index_delete_by_primary (ms_txn ms) p i pk = (Inr u, p')"
  then show "part_view ms p' = part_view ms p \<and>
      part_index ms p' = {k \<in> part_index ms p. \<not> (fst k = i \<and> snd (snd k) = pk)} \<and> part_gen ms p' = part_gen ms p"
    using mem.delete_by_primary_law by (simp only: part_defs) metis
next
  fix p store rng key_only c
  assume "bk_scan (ms_txn ms) p (SrcStore store) rng Next key_only = Inr c"
  then have "bk_scan (own_backend ms p) (snd p) (SrcStore store) rng Next key_only = Inr c"
    by (simp only: ms_txn_reads)
  from mem.walk_law [OF this [unfolded own_backend_def]] part_trail [of ms p]
  show "\<exists>cs. trail (ms_txn ms) p (bk_seek (ms_txn ms) p SeekFirst c) cs \<and>
      sorted_wrt (<) (map (bk_current_key (ms_txn ms)) cs) \<and>
      set (map (bk_current_key (ms_txn ms)) cs) = {k. part_view ms p (store, k) \<noteq> None \<and> contains rng k} \<and>
      (\<forall>c \<in> set cs. bk_current_primary_key (ms_txn ms) c = bk_current_key (ms_txn ms) c \<and>
         bk_current_value (ms_txn ms) c =
           (if key_only then None else part_view ms p (store, bk_current_key (ms_txn ms) c)))"
    unfolding ms_txn_reads [where p = p] part_view_def own_backend_def by blast
next
  fix p src rng dir key_only c target
  assume "bk_scan (ms_txn ms) p src rng dir key_only = Inr c"
  then show "walk_ends (ms_txn ms) p (bk_seek (ms_txn ms) p target c)"
    using mem.scan_law part_walk [of ms p] by (simp only: ms_txn_reads own_backend_def)
next
  fix p p1 p2 :: part_txn and u :: unit
  assume b: "bk_begin_request (ms_txn ms) p = (Inr u, p1)" and ops: "bk_ops (ms_txn ms) p1 p2"
  have p1: "fst p1 = fst p" "bk_begin_request (own_backend ms p) (snd p) = (Inr u, snd p1)"
    using b by (simp_all only: ms_txn_calls within_part_iff)
  have p2: "fst p2 = fst p" "bk_ops (own_backend ms p) (snd p1) (snd p2)"
    using part_ops [OF ops] p1(1) by (simp_all add: own_backend_def)
  obtain t3 where "bk_rollback_request (own_backend ms p) (snd p2) = (Inr (), t3)"
    "view (ms_states ms (fst p)) t3 = part_view ms p" "index_view (ms_states ms (fst p)) t3 = part_index ms p"
    "mt_key_gen_current (ms_states ms (fst p)) t3 = part_gen ms p"
    using mem.rollback_law [OF p1(2) [unfolded own_backend_def] p2(2) [unfolded own_backend_def]]
    unfolding part_view_def part_index_def part_gen_def own_backend_def by blast
  then show "\<exists>p3. bk_rollback_request (ms_txn ms) p2 = (Inr (), p3) \<and> part_view ms p3 = part_view ms p \<and>
      part_index ms p3 = part_index ms p \<and> part_gen ms p3 = part_gen ms p"
    using p2(1) by (intro exI [of _ "(fst p, t3)"]) (simp only: part_defs fst_conv snd_conv simp_thms)
  obtain t4 where "bk_commit_request (own_backend ms p) (snd p2) = (Inr (), t4)"
    "view (ms_states ms (fst p)) t4 = part_view ms p2" "index_view (ms_states ms (fst p)) t4 = part_index ms p2"
    "mt_key_gen_current (ms_states ms (fst p)) t4 = part_gen ms p2"
    using mem.commit_law [OF p1(2) [unfolded own_backend_def] p2(2) [unfolded own_backend_def]] p2(1)
    unfolding part_view_def part_index_def part_gen_def own_backend_def by metis
  then show "\<exists>p3. bk_commit_request (ms_txn ms) p2 = (Inr (), p3) \<and> part_view ms p3 = part_view ms p2 \<and>
      part_index ms p3 = part_index ms p2 \<and> part_gen ms p3 = part_gen ms p2"
    using p2(1) by (intro exI [of _ "(fst p, t4)"]) (simp only: part_defs fst_conv snd_conv simp_thms)
next
  fix p p1 :: part_txn and begun
  assume "bk_begin_request (ms_txn ms) p = (begun, p1)"
  then show "part_view ms p1 = part_view ms p \<and> part_index ms p1 = part_index ms p \<and> part_gen ms p1 = part_gen ms p"
    using mem.begin_law by (simp only: part_defs)
qed

section \<open>A served request\<close>

lemma so_txn_memory: "so_txn mem_storage = ms_txn"
  by (simp add: mem_storage_def)

lemma abort_backend_memory: "abort_backend mem_storage h e = e"
proof -
  have "set_state a (ms_states e a) e = e" for a
    by (simp add: set_state_def)
  then show ?thesis
    by (simp add: abort_backend_def mem_storage_def ms_abort_def mt_abort_def case_prod_beta split: option.split)
qed

lemma abort_upgrade_open_txn [simp]:
  "handle_of (abort_upgrade_open i notify r) = handle_of r"
  "rt_scheduler (abort_upgrade_open i notify r) = rt_scheduler r"
  by (auto simp: fun_eq_iff abort_upgrade_open_def edit_queue_def handle_of_def Let_def split: option.splits)

lemma abort_transaction_memory:
  assumes "handle_of r i = Some h"
  shows "case abort_transaction mem_storage i notify (r, e) of (out, r', e') \<Rightarrow>
    out = [TxnAborted i] \<and> e' = e \<and> handle_of r' i = None \<and> i \<notin> tq_id ` set (known (rt_scheduler r'))"
  using assms
  by (auto simp: abort_transaction_def abort_backend_memory fail_queued_requests_def handle_of_def known_forget Let_def)

lemma refresh_txn_epoch_handle:
  assumes "dr_txns d i = Some h"
  shows "handle_of (r\<lparr>rt_driver := refresh_txn_epoch i d\<rparr>) i = Some (h\<lparr>th_active_epoch := dr_task_epoch d\<rparr>)"
  using assms by (simp add: handle_of_def refresh_txn_epoch_def with_handle_def)

lemma serve_failed:
  assumes "serve S lim Bg threw prevented (WorkExec i q op) (r, e) = Some (RequestFailed q f # out, s')"
  obtains d where "execute_op (so_txn S e) lim Bg i q op (rt_driver r) = Some (Inl (Fails f), d)"
    "(RequestFailed q f # out, s') =
      (let s = (r\<lparr>rt_driver := refresh_txn_epoch i d\<rparr>, e);
           (outs, s) = (if prevented then ([], s) else abort_transaction S i False s)
       in (RequestFailed q f # outs, s))"
proof -
  obtain res d where run: "execute_op (so_txn S e) lim Bg i q op (rt_driver r) = Some (res, d)"
    using assms by (auto simp: serve_def)
  show thesis
  proof (cases res)
    case (Inl fault)
    then show thesis
      using assms run that by (cases fault) (auto simp: serve_def Let_def split: prod.splits)
  next
    case (Inr x)
    then show thesis using assms run by (auto simp: serve_def Let_def split: prod.splits)
  qed
qed

text \<open>C5. A request that fails while it is served over the in-memory storage undoes itself: where its
  error handlers prevent the default, the transaction goes on and shows the records, the index entries
  and the generator values it showed before; otherwise it is aborted and known no more. Either way no
  database of the storage has changed.\<close>

theorem served_failure_undone:
  assumes "handle_of r i = Some h" "th_backend h = Some t" "distinct (map fst (th_keygens h))"
    and "serve mem_storage lim Bg threw prevented (WorkExec i q op) (r, e) = Some (RequestFailed q f # out, r', e')"
  shows "e' = e \<and>
    (if prevented
     then out = [] \<and> (\<exists>h' t' new. handle_of r' i = Some h' \<and> th_backend h' = Some t' \<and>
       part_view e t' = part_view e t \<and> part_index e t' = part_index e t \<and> part_gen e t' = part_gen e t \<and>
       th_meta h' = th_meta h \<and> th_keygens h' = th_keygens h @ new)
     else out = [TxnAborted i] \<and> handle_of r' i = None \<and> i \<notin> tq_id ` set (known (rt_scheduler r')))"
proof -
  obtain d where run: "execute_op (ms_txn e) lim Bg i q op (rt_driver r) = Some (Inl (Fails f), d)"
    and rest: "(RequestFailed q f # out, r', e') =
      (let s = (r\<lparr>rt_driver := refresh_txn_epoch i d\<rparr>, e);
           (outs, s) = (if prevented then ([], s) else abort_transaction mem_storage i False s)
       in (RequestFailed q f # outs, s))"
    using assms(4) by (rule serve_failed) (simp only: so_txn_memory)
  have "part.kept e i h t d"
    using part.execute_op_failure [OF _ assms(2,3) run] assms(1) by (simp add: handle_of_def)
  then obtain h' t' new where h': "dr_txns d i = Some h'" "th_backend h' = Some t'" "part.same_shown e t t'"
      "th_meta h' = th_meta h" "th_keygens h' = th_keygens h @ new"
    unfolding part.kept_def by blast
  note handle = refresh_txn_epoch_handle [OF h'(1), of r]
  show ?thesis
  proof (cases prevented)
    case True
    then show ?thesis using rest h'(2-5) handle by (cases t') (auto simp: part.same_shown_def)
  next
    case False
    then show ?thesis
      using rest abort_transaction_memory [OF handle, where notify = False and e = e] by (auto simp: Let_def split: prod.splits)
  qed
qed

theorem served_failure_undone_witness:
  "\<exists>r'. serve mem_storage default_limits int_bytes False False (WorkExec 0 5 (OpClear 9))
      (demo_runtime demo_txns 2 [] [], demo_storage) = Some ([RequestFailed 5 IdbNotFound, TxnAborted 0], r', demo_storage) \<and>
    handle_of r' 0 = None"
proof -
  have h: "handle_of (demo_runtime demo_txns 2 [] []) 0 = Some (demo_handle 0 2 (Some (demo_begun 2)))"
    "th_backend (demo_handle 0 2 (Some (demo_begun 2))) = Some (demo_begun 2)"
    "distinct (map fst (th_keygens (demo_handle 0 2 (Some (demo_begun 2)))))"
    by (simp_all add: handle_of_def demo_runtime_def demo_txns_def demo_handle_def new_handle_def)
  obtain d where d: "execute_op (ms_txn demo_storage) default_limits int_bytes 0 5 (OpClear 9) (rt_driver (demo_runtime demo_txns 2 [] [])) =
      Some (Inl (Fails IdbNotFound), d)"
    by (simp add: execute_op_def open_savepoints_def close_savepoints_def execute_op_inner_def backend_of_def
        with_handle_def find_store_def ms_txn_def on_part_def mt_begin_request_def mt_rollback_request_def
        demo_runtime_def demo_txns_def demo_handle_def new_handle_def demo_begun_def mt_new_def demo_meta_def
        each_keygen_def runtime_new_def Let_def)
  obtain out r' e' where aborted: "abort_transaction mem_storage 0 False
      (demo_runtime demo_txns 2 [] []\<lparr>rt_driver := refresh_txn_epoch 0 d\<rparr>, demo_storage) = (out, r', e')"
    by (metis prod.exhaust)
  have run: "serve mem_storage default_limits int_bytes False False (WorkExec 0 5 (OpClear 9))
      (demo_runtime demo_txns 2 [] [], demo_storage) = Some (RequestFailed 5 IdbNotFound # out, r', e')"
    by (simp add: serve_def so_txn_memory d aborted)
  show ?thesis using served_failure_undone [OF h run] run by simp
qed

end
