(* ===== verification/Spec2Isabelle.thy ===== *)
theory Spec2Isabelle
  imports Key_Order Proto Key_Generator Scheduler Open_Queue Scf_Format Core_Cursor Memory_Schema
    Wal_Recovery Fs_Quota Fs_Segment Fs_Durability Driver_Snapshot Memory_Service
begin

text \<open>
  A verification library for an IndexedDB implementation in Rust: the engine core
  (\<open>crates/boa_idb_core\<close>), the in-memory storage backend (\<open>crates/boa_idb_memory\<close>) and the
  crash-safe filesystem backend (\<open>crates/boa_idb_fs\<close>). JavaScript values are converted to keys and
  structured-clone values, the core decides in which order transactions run and what a request
  means in terms of byte strings, and a backend stores those byte strings. Requests run between
  \<open>begin_request\<close> and \<open>commit_request\<close> or \<open>rollback_request\<close> of a backend transaction.

  \<^bold>\<open>Conventions.\<close> Every Rust \<open>struct\<close> is a record, every \<open>enum\<close> a datatype, \<open>uN\<close> an \<open>N word\<close>,
  \<open>usize\<close> counters that only measure in-memory data are naturals, \<open>f64\<close> is its 64-bit pattern
  (theory \<open>F64\<close>), a \<open>BTreeMap\<close> is the abstract type of finite ordered maps of theory \<open>Btree\<close>.
  \<open>Result\<close> is the sum type with \<open>Inl\<close> for \<open>Err\<close>; an operation on a mutable object returns its result
  together with the new object, so that what a failing operation leaves behind is visible.
  Error messages are not modelled, the error constructors and their numbers are.

  \<^bold>\<open>Keys (core/src/key, limits.rs).\<close> \<open>Key_Value\<close>: key values, limits, \<open>compare_keys\<close>. \<open>Key_Codec\<close>: the
  order-preserving byte encoding, with the flag byte and the complemented \<open>f64\<close>, the escaped
  strings and binaries, nested arrays, and the decoder with its depth limit. \<open>Key_Order\<close>: the
  encoding is an order embedding (\<open>encode_key_preserves_order\<close>), is inverted by the decoder
  (\<open>decode_encode_key\<close>), and the decoder rejects or accepts arbitrary bytes without leaving
  the input. \<open>Proto\<close>: key ranges and their encoded form; the encoded bound test agrees with the one
  on keys. \<open>Key_Path\<close>: parsing, extraction, injection. The locales \<open>key_order\<close> and \<open>key_v1\<close> state what
  the rest relies on.

  \<^bold>\<open>Engine (core/src/engine).\<close> \<open>Key_Generator\<close>: auto-increment keys. \<open>Scheduler\<close>: the transaction
  scheduler as a transition system over its own operations; no two running transactions conflict
  in a reachable state, the queue is first-in first-out among conflicting ones, and every queued
  transaction starts once those before it finish. \<open>Open_Queue\<close>: the per-database queue of open and
  delete requests with the version-change handshake. \<open>Backend\<close>: metadata, transaction,
  connection and registry state. \<open>Backend_Trait\<close>: the traits a backend implements, as a record of
  operations on a transaction, and the locale \<open>storage_backend\<close> with the laws the engine relies on.
  \<open>Store_Ops\<close>: \<open>put\<close>, \<open>delete\<close> and \<open>clear\<close> of \<open>ops_store.rs\<close> and the index operations over any backend;
  \<open>Index_Consistency\<close>: they keep the entries of every index exactly those its records derive.
  \<open>Core_Cursor\<close>: the decoding cursor of \<open>engine/cursor.rs\<close>.

  \<^bold>\<open>Driver (crates/boa_idb/src/driver.rs).\<close> \<open>Driver_State\<close>: ranges, queued operations, the materialised
  cursors and transaction handles. \<open>Driver_Exec\<close>: \<open>execute_op\<close>, every operation between a savepoint of
  the backend and of the key generators. \<open>Driver_Requests\<close>, \<open>Driver_Atomic\<close>: a request that fails has
  changed nothing, one that succeeds keeps the indexes, every request returns; \<open>Driver_Reads\<close>: what
  the reads of a store return. \<open>Driver_Schema\<close>: the operations of an upgrade on stores and indexes, and
  the backfill of a new index. All of it is proved from the laws of a backend, inside the locale.
  \<open>Driver_Lifecycle\<close>: transactions are created, released by the scheduler, begun, served, committed and
  aborted, over any storage; both loops end. \<open>Driver_Opens\<close>: the steps of the open queues and the
  upgrade transactions. Every event a step dispatches is its output; whether a handler threw or
  prevented the default is an argument, and what it calls is further steps. \<open>Driver_Registry\<close>: in every
  reachable state scheduler and handles agree. \<open>Driver_Open_Order\<close>: the driver's list of open requests
  and the core queues agree, so every step is about the request its queue answered. \<open>Driver_Life\<close>
  states what follows, the in-memory storage being the instance of the witnesses. \<open>Driver_Snapshot\<close>: what
  the commit of a transaction does to metadata that changed since it began.

  \<^bold>\<open>Structured clone (core/src/clone).\<close> \<open>Varint\<close>, \<open>Crc32c\<close>, \<open>Sc_Value\<close>, \<open>Scf_Encode\<close>, \<open>Scf_Decode\<close>:
  the byte format of stored values, with its checksum, memo table, tags and limits; \<open>Scf_Round_Trip\<close>,
  \<open>Scf_Memo\<close> and \<open>Scf_Format\<close>: decoding inverts encoding, references to complete objects are expanded
  as \<open>Scf_Memo\<close> defines it apart from the decoder, one-byte damage is detected, and what is decoded
  holds no reference. The conversions of arbitrary-precision integers to bytes are those of a
  library, so they are arguments.

  \<^bold>\<open>Memory backend (memory/src).\<close> \<open>Memory_Txn\<close>: the storage state and the transaction overlay.
  \<open>Memory_View\<close>: each data operation as an operation on the view of records and index entries that
  a transaction has. \<open>Memory_Savepoint\<close>: nested requests roll back exactly. \<open>Memory_Cursor\<close> and
  \<open>Memory_Scan\<close>: the cursor that merges pending over committed data, its termination, and that an
  ascending walk over a store visits the live keys of the range once, in order. \<open>Memory_Walk\<close>: every
  walk of a cursor ends, over stores and indexes, in both directions. \<open>Memory_Backend\<close> interprets
  the laws on this backend, and \<open>Memory_Requests\<close> and \<open>Memory_Schema\<close> state the properties of requests and upgrades over it.
  \<open>Memory_Storage\<close>: databases as parts behind shared references, and the storage as an instance of the
  interface of \<open>Driver_Lifecycle\<close>; \<open>Memory_Service\<close> interprets the laws of a backend on its transactions and
  follows a failing request through the driver.

  \<^bold>\<open>Filesystem backend (fs/src).\<close> \<open>Wal\<close>: the log's record and payload codec, \<open>Wal_Recovery\<close>: what reading a
  damaged or torn log yields. \<open>Fs_Meta\<close>, \<open>Fs_Segment\<close>: manifest, metadata and segment files.
  \<open>Fs_State\<close>, \<open>Fs_Txn\<close>, \<open>Fs_Quota\<close>: the committed state, the transaction overlay and the exact accounting
  of the quota. \<open>Vfs\<close>: the file system interface with a fault plan that can crash a process at
  any operation; \<open>Fs_Disk\<close>: atomic replacement, opening, commit and compaction over it.
  \<open>Vfs_Logic\<close> gives rules that follow an operation through every crash point, \<open>Fs_Layout\<close>, \<open>Fs_Recovery\<close>,
  \<open>Fs_Open\<close>, \<open>Fs_Commit\<close> and \<open>Fs_Durability\<close> use them: opening a stored database after any crash recovers its
  contents, and a commit is all or nothing at every crash point.

  \<^bold>\<open>Parameters.\<close> The arbitrary-precision integer operations; the order in which a hash map is
  enumerated (\<open>gens\<close>); the fault plan of the file system; the lock table. Each property that uses one
  states what it needs as a premise and has a witness with a concrete instance.

  \<^bold>\<open>Loops and bounds.\<close> The cursor loops and decoders are total functions with a measure (the
  number of entries ahead of the cursor, the number of bytes left). Loops that depend on another
  object's answers are partial functions in the option monad and are proved to return. Encoders
  and decoders carry the limits of \<open>limits.rs\<close> as arguments.

  \<^bold>\<open>Not modelled.\<close> The JavaScript side of the driver: event and database objects, promises, tracing and
  the observer; the JavaScript bindings (\<open>crates/boa_idb/src/api\<close>, \<open>dom\<close>, \<open>convert\<close>, which are calls
  into the Boa engine), the SQLite backend (SQL text executed by a library), the web platform
  test runner, and the thread and lock plumbing of the executors.
\<close>

end
